(* ===== verification/Prelude.thy ===== *)
theory Prelude
  imports Main "HOL-Library.Word" "HOL-Library.Monad_Syntax"
begin

text \<open>
  Shared vocabulary of the development: the C integer types of the code as
  words, pointers as options (\<^term>\<open>None\<close> is the NULL pointer), byte buffers
  as lists with checked accesses, the collections of hints that the component
  theories extend, and the lemmas on words and lists they share.
\<close>

unbundle bit_operations_syntax

section \<open>C types\<close>

text \<open>\<open>uint8_t\<close>, \<open>uint16_t\<close>, \<open>uint32_t\<close>; a pointer is NULL or a reference.\<close>

type_synonym u8 = "8 word"
type_synonym u16 = "16 word"
type_synonym u32 = "32 word"
type_synonym 'p ptr = "'p option"

text \<open>C truth values as the integers the functions return.\<close>

definition c_bool :: "bool \<Rightarrow> int" where
  "c_bool b = (if b then 1 else 0)"

lemma c_bool_simps [simp]:
  "c_bool True = 1" "c_bool False = 0" "(c_bool b = 1) = b" "(c_bool b = 0) = (\<not> b)"
  by (simp_all add: c_bool_def)

section \<open>Hint collections\<close>

named_theorems rep_intros \<open>abstraction relations are kept by operations\<close>
named_theorems op_defs \<open>definitions of operations that properties unfold\<close>

section \<open>Option monad\<close>

lemma bind_Some_ex:
  assumes "\<exists>y. m = Some y \<and> P y"
    and "\<And>y. P y \<Longrightarrow> \<exists>z. f y = Some z \<and> Q z"
  shows "\<exists>z. Option.bind m f = Some z \<and> Q z"
  using assms by auto

section \<open>Words\<close>

lemma unat_pow2_minus_1_mask:
  fixes w :: "'a::len word"
  assumes "unat w = 2 ^ n"
  shows "w - 1 = mask n"
proof -
  have "w = of_nat (2 ^ n)"
    using assms by (metis of_nat_unat ucast_id)
  then show ?thesis
    by (simp add: mask_eq_exp_minus_1)
qed

lemma unat_and_mask_mod:
  "unat (w AND mask n :: 'a::len word) = unat w mod 2 ^ n"
  by (simp only: take_bit_eq_mask [symmetric] unsigned_take_bit_eq take_bit_nat_def)

lemma unat_u8: "unat (w :: u8) < 256"
proof -
  have "unat w < 2 ^ LENGTH(8)" by (rule unsigned_less)
  then show ?thesis by simp
qed

lemma uint_u8: "uint (w :: u8) < 256"
proof -
  have "uint w < 2 ^ LENGTH(8)" by (rule unsigned_less)
  then show ?thesis by simp
qed

lemma uint_not_neg [simp]: "uint w \<noteq> - 1" "- 1 \<noteq> uint w"
  using unsigned_greater_eq [of w, where 'a = int] by linarith+

lemma mod_256_mod_pow2: "n \<le> 8 \<Longrightarrow> (a :: nat) mod 256 mod 2 ^ n = a mod 2 ^ n"
  using le_imp_power_dvd [of n 8 "2::nat"] by (simp add: mod_mod_cancel)

lemma unat_mask_u8: "n \<le> 8 \<Longrightarrow> unat (mask n :: u8) = 2 ^ n - 1"
proof -
  assume "n \<le> 8"
  then have "n \<in> set [0..<9]" by auto
  then show ?thesis by (simp add: upt_rec) (auto simp: mask_eq_exp_minus_1)
qed

lemma unat_sub_and_mask:
  fixes a b :: u8
  assumes "n \<le> 8" and "unat b < 2 ^ n"
  shows "unat ((a - b) AND mask n) = (unat a + 2 ^ n - unat b) mod 2 ^ n"
proof -
  obtain k where k: "(256::nat) = 2 ^ n * k" 
    using assms(1) le_imp_power_dvd [of n 8 "2::nat"] by (auto simp: dvd_def)
  have "unat (a - b) = (unat a + 256 - unat b) mod 256"
    using unat_u8 [of a] unat_u8 [of b] by (auto simp: unat_sub_if' mod_if)
  then have "unat ((a - b) AND mask n) = (unat a + 256 - unat b) mod 2 ^ n"
    using assms(1) by (simp add: unat_and_mask_mod mod_256_mod_pow2)
  also have "\<dots> = (unat a + 2 ^ n - unat b) mod 2 ^ n"
  proof -
    from k have "0 < k" by (cases k) auto
    then have "unat a + 256 - unat b = (unat a + 2 ^ n - unat b) + 2 ^ n * (k - 1)"
      using assms(2) k by (cases k) (auto simp: algebra_simps)
    then show ?thesis by simp
  qed
  finally show ?thesis .
qed

section \<open>Bits of bytes and 16-bit words\<close>

lemma less_16: "(n :: nat) < 16 \<Longrightarrow> n = 15 \<or> n = 14 \<or> n = 13 \<or> n = 12 \<or> n = 11 \<or> n = 10 \<or> n = 9 \<or> n = 8 \<or>
   n = 7 \<or> n = 6 \<or> n = 5 \<or> n = 4 \<or> n = 3 \<or> n = 2 \<or> n = 1 \<or> n = 0"
  by presburger

lemma bit_u16_ge: "16 \<le> n \<Longrightarrow> \<not> bit (w :: u16) n"
  using bit_imp_le_length [of w n] by auto

lemma bit_u8_ge: "8 \<le> n \<Longrightarrow> \<not> bit (w :: u8) n"
  using bit_imp_le_length [of w n] by auto

lemma bit_u16_less: "bit (w :: u16) n \<Longrightarrow> n < 16"
  using bit_imp_le_length [of w n] by simp

lemma bit_u8_less: "bit (w :: u8) n \<Longrightarrow> n < 8"
  using bit_imp_le_length [of w n] by simp

lemma bit_0xff00: "bit (0xff00 :: u16) n = (8 \<le> n \<and> n < 16)"
proof (cases "n < 16")
  case True
  from less_16 [OF this] show ?thesis by (elim disjE) simp_all
qed (auto dest: bit_u16_less)

lemma bit_0xff: "bit (0xff :: u16) n = (n < 8)"
proof (cases "n < 16")
  case True
  from less_16 [OF this] show ?thesis by (elim disjE) simp_all
qed (auto dest: bit_u16_less)

lemmas bit_ops = bit_xor_iff bit_or_iff bit_and_iff bit_push_bit_iff bit_drop_bit_eq bit_unsigned_iff comp_def

lemma xor_cancel_right: "x XOR y = z XOR y \<Longrightarrow> x = (z :: 'a::len word)"
  by (metis xor.assoc xor_self_eq xor.right_neutral)

text \<open>The bits of a word as a list, least significant first.\<close>

definition word_bits :: "nat \<Rightarrow> 'a::len word \<Rightarrow> bool list" where
  "word_bits n w = map (bit w) [0..<n]"

lemma length_word_bits [simp]: "length (word_bits n w) = n"
  by (simp add: word_bits_def)

lemma word_bits_eqI: "(\<And>i. i < n \<Longrightarrow> bit v i = bit w i) \<Longrightarrow> word_bits n v = word_bits n w"
  by (simp add: word_bits_def)

lemma word_bits_add: "word_bits (n + m) w = word_bits n w @ word_bits m (drop_bit n w)"
  by (rule nth_equalityI) (auto simp: word_bits_def nth_append bit_drop_bit_eq)

lemma word_bits_8: "word_bits 8 w = [bit w 0, bit w 1, bit w 2, bit w 3, bit w 4, bit w 5, bit w 6, bit w 7]"
  by (simp add: word_bits_def upt_rec eval_nat_numeral)

lemma word_bits_16: "word_bits 16 w = word_bits 8 w @
    [bit w 8, bit w 9, bit w 10, bit w 11, bit w 12, bit w 13, bit w 14, bit w 15]"
  by (simp add: word_bits_def upt_rec eval_nat_numeral)

lemma word_bits_8_inj: "word_bits 8 v = word_bits 8 w \<Longrightarrow> v = (w :: u8)"
proof -
  assume e: "word_bits 8 v = word_bits 8 w"
  have "bit v n = bit w n" if "n < 8" for n
    using arg_cong [OF e, of "\<lambda>xs. xs ! n"] that by (simp add: word_bits_def)
  then show ?thesis by (auto intro!: bit_word_eqI)
qed

text \<open>
  A 256-entry table is compared with a function by one evaluation over all
  byte values.
\<close>

lemma table_u8:
  assumes "map f tab = map (\<lambda>i. g (word_of_int i)) [0..255]"
  shows "f (tab ! unat (w :: u8)) = g w"
proof -
  have "length (map f tab) = 256" unfolding assms by simp
  then have "f (tab ! unat w) = map f tab ! unat w"
    using unat_u8 [of w] by simp
  also have "\<dots> = g w"
  proof -
    have "[0..255] ! unat w = uint w"
      using uint_u8 [of w] by (subst nth_upto) simp_all
    then show ?thesis unfolding assms using unat_u8 [of w] by simp
  qed
  finally show ?thesis .
qed

section \<open>Explicit lists\<close>

lemma list_update_Cons_numeral [simp]:
  "(x # xs)[numeral v := y] = x # xs[pred_numeral v := y]"
  by (simp add: numeral_eq_Suc)

section \<open>Loops that update a buffer in place\<close>

lemma fold_update_range:
  assumes "p + n \<le> length s" and "m \<le> n"
  shows "length (fold (\<lambda>i s. s[p + i := f i (s ! (p + i))]) [m..<n] s) = length s \<and>
    (\<forall>j < length s. fold (\<lambda>i s. s[p + i := f i (s ! (p + i))]) [m..<n] s ! j =
       (if p + m \<le> j \<and> j < p + n then f (j - p) (s ! j) else s ! j))"
  using assms(2,1)
proof (induction n rule: dec_induct)
  case base
  then show ?case by auto
next
  case (step n)
  then show ?case by (auto simp: nth_list_update)
qed

lemmas fold_update_length = fold_update_range [THEN conjunct1]
lemmas fold_update_nth = fold_update_range [THEN conjunct2, rule_format]

lemma fold_update_upt:
  "n \<le> length s \<Longrightarrow> fold (\<lambda>i s. s[i := f i (s ! i)]) [0..<n] s = map (\<lambda>i. f i (s ! i)) [0..<n] @ drop n s"
proof (induction n)
  case 0
  then show ?case by simp
next
  case (Suc n)
  then have "drop n s = s ! n # drop (Suc n) s" by (simp add: Cons_nth_drop_Suc)
  with Suc show ?case by (simp add: nth_append list_update_append)
qed

section \<open>Ring slices\<close>

text \<open>
  The \<open>k\<close> elements of a ring of \<open>N\<close> slots from slot \<open>g\<close> on; the ring buffer
  and the event queue of the process kernel are read this way.
\<close>

definition ring_slice :: "nat \<Rightarrow> 'a list \<Rightarrow> nat \<Rightarrow> nat \<Rightarrow> 'a list" where
  "ring_slice N xs g k = map (\<lambda>i. xs ! ((g + i) mod N)) [0..<k]"

lemma length_ring_slice [simp]: "length (ring_slice N xs g k) = k"
  by (simp add: ring_slice_def)

lemma ring_slice_0 [simp]: "ring_slice N xs g 0 = []"
  by (simp add: ring_slice_def)

lemma ring_slice_put:
  assumes "k < N" and "length xs = N"
  shows "ring_slice N (xs[(g + k) mod N := c]) g (Suc k) = ring_slice N xs g k @ [c]"
proof -
  have "(g + k) mod N \<noteq> (g + i) mod N" if "i < k" for i
  proof
    assume "(g + k) mod N = (g + i) mod N"
    then have "N dvd (g + k) - (g + i)"
      using that by (metis mod_eq_dvd_iff_nat nat_add_left_cancel_le less_imp_le)
    with that assms(1) show False by (auto dest!: dvd_imp_le)
  qed
  with assms show ?thesis by (auto simp: ring_slice_def)
qed

lemma ring_slice_get:
  assumes "g < N"
  shows "ring_slice N xs g (Suc k) = xs ! g # ring_slice N xs ((g + 1) mod N) k"
proof -
  have "(g + Suc i) mod N = ((g + 1) mod N + i) mod N" for i
    by (simp add: mod_simps)
  then show ?thesis
    using assms by (simp add: ring_slice_def map_upt_Suc del: upt_Suc)
qed

end
