(* ===== verification/Interfaces.thy ===== *)
theory Interfaces
  imports Prelude
begin

text \<open>
  The contracts that several components share, as locales: data refinement of
  an operation-by-operation implementation, a bounded first-in first-out
  buffer, and an allocator of blocks. The components interpret them on their
  own definitions.
\<close>

section \<open>Runs of operations\<close>

text \<open>
  \<open>orun\<close> runs a list of operations of an implementation that may fail or not
  return (\<^term>\<open>None\<close>) and collects their results; \<open>arun\<close> does so for a total
  specification.
\<close>

fun orun :: "('o \<Rightarrow> 's \<Rightarrow> ('r \<times> 's) option) \<Rightarrow> 'o list \<Rightarrow> 's \<Rightarrow> ('r list \<times> 's) option" where
  "orun step [] s = Some ([], s)"
| "orun step (op # ops) s = do {
     (r, s1) \<leftarrow> step op s;
     (rs, s2) \<leftarrow> orun step ops s1;
     Some (r # rs, s2)
   }"

fun arun :: "('o \<Rightarrow> 'a \<Rightarrow> 'r \<times> 'a) \<Rightarrow> 'o list \<Rightarrow> 'a \<Rightarrow> 'r list \<times> 'a" where
  "arun step [] a = ([], a)"
| "arun step (op # ops) a =
     (let (r, a1) = step op a; (rs, a2) = arun step ops a1 in (r # rs, a2))"

lemma arun_map_result:
  "arun (\<lambda>op a. map_prod f id (step op a)) ops a = map_prod (map f) id (arun step ops a)"
  by (induction ops arbitrary: a) (simp_all add: split_beta)

locale data_refinement =
  fixes R :: "'s \<Rightarrow> 'a \<Rightarrow> bool"
    and step :: "'o \<Rightarrow> 's \<Rightarrow> ('r \<times> 's) option"
    and astep :: "'o \<Rightarrow> 'a \<Rightarrow> 'r \<times> 'a"
  assumes step_refines:
    "R s a \<Longrightarrow> \<exists>s'. step op s = Some (fst (astep op a), s') \<and> R s' (snd (astep op a))"
begin

lemma run_refines:
  "R s a \<Longrightarrow> \<exists>s'. orun step ops s = Some (fst (arun astep ops a), s') \<and> R s' (snd (arun astep ops a))"
proof (induction ops arbitrary: s a)
  case Nil
  then show ?case by simp
next
  case (Cons op ops)
  obtain s1 where s1: "step op s = Some (fst (astep op a), s1)" "R s1 (snd (astep op a))"
    using step_refines [OF Cons.prems] by blast
  obtain s2 where "orun step ops s1 = Some (fst (arun astep ops (snd (astep op a))), s2)"
    "R s2 (snd (arun astep ops (snd (astep op a))))"
    using Cons.IH [OF s1(2)] by blast
  with s1 show ?case by (auto simp: split_beta)
qed

end

section \<open>Bounded first-in first-out buffers\<close>

datatype 'x qop = Put 'x | Get
datatype 'x qres = Accepted | Rejected | Item 'x | Empty

fun qspec :: "nat \<Rightarrow> 'x qop \<Rightarrow> 'x list \<Rightarrow> 'x qres \<times> 'x list" where
  "qspec n (Put x) q = (if length q < n then (Accepted, q @ [x]) else (Rejected, q))"
| "qspec n Get q = (case q of [] \<Rightarrow> (Empty, []) | x # q' \<Rightarrow> (Item x, q'))"

text \<open>The operations return what the code returns; the client says which value stands for which result.\<close>

fun qstep :: "('x \<Rightarrow> 's \<Rightarrow> ('r \<times> 's) option) \<Rightarrow> ('s \<Rightarrow> ('r \<times> 's) option) \<Rightarrow>
    'x qop \<Rightarrow> 's \<Rightarrow> ('r \<times> 's) option" where
  "qstep put get (Put x) s = put x s"
| "qstep put get Get s = get s"

text \<open>
  What a run of a bounded buffer promises: the items handed out, followed by
  those still held, are the items accepted, in order.
\<close>

definition accepted :: "'x qop list \<Rightarrow> 'x qres list \<Rightarrow> 'x list" where
  "accepted ops rs = concat (map2 (\<lambda>op r. case (op, r) of (Put x, Accepted) \<Rightarrow> [x] | _ \<Rightarrow> []) ops rs)"

definition delivered :: "'x qres list \<Rightarrow> 'x list" where
  "delivered rs = concat (map (\<lambda>r. case r of Item x \<Rightarrow> [x] | _ \<Rightarrow> []) rs)"

lemma qspec_fifo:
  "arun (qspec n) ops q = (rs, q') \<Longrightarrow> delivered rs @ q' = q @ accepted ops rs"
proof (induction ops arbitrary: q rs)
  case Nil
  then show ?case by (simp add: delivered_def accepted_def)
next
  case (Cons op ops)
  then show ?case
    by (cases op; cases q)
      (force simp: delivered_def accepted_def split_beta Let_def split: if_splits)+
qed

lemma qspec_bounded:
  "length q \<le> n \<Longrightarrow> length (snd (arun (qspec n) ops q)) \<le> n"
proof (induction ops arbitrary: q)
  case Nil
  then show ?case by simp
next
  case (Cons op ops)
  then have "length (snd (qspec n op q)) \<le> n"
    by (cases op) (auto split: list.splits)
  with Cons.IH show ?case by (simp add: split_beta)
qed

locale bounded_fifo =
  fixes put :: "'x \<Rightarrow> 's \<Rightarrow> ('r \<times> 's) option"
    and get :: "'s \<Rightarrow> ('r \<times> 's) option"
    and res :: "'x qres \<Rightarrow> 'r"
    and contents :: "'s \<Rightarrow> 'x list"
    and inv :: "'s \<Rightarrow> bool"
    and cap :: nat
  assumes put_ok: "inv s \<Longrightarrow> length (contents s) < cap \<Longrightarrow>
      \<exists>s'. put x s = Some (res Accepted, s') \<and> inv s' \<and> contents s' = contents s @ [x]"
    and put_full: "inv s \<Longrightarrow> cap \<le> length (contents s) \<Longrightarrow> put x s = Some (res Rejected, s)"
    and get_ok: "inv s \<Longrightarrow> contents s = x # q \<Longrightarrow>
      \<exists>s'. get s = Some (res (Item x), s') \<and> inv s' \<and> contents s' = q"
    and get_empty: "inv s \<Longrightarrow> contents s = [] \<Longrightarrow> get s = Some (res Empty, s)"
begin

sublocale fifo: data_refinement "\<lambda>s q. inv s \<and> contents s = q" "qstep put get"
  "\<lambda>op q. map_prod res id (qspec cap op q)"
proof unfold_locales
  fix s q op
  assume a: "inv s \<and> contents s = q"
  show "\<exists>s'. qstep put get op s = Some (fst (map_prod res id (qspec cap op q)), s') \<and>
      inv s' \<and> contents s' = snd (map_prod res id (qspec cap op q))"
  proof (cases op)
    case (Put x)
    with a show ?thesis
      using put_ok [of s x] put_full [of s x] by (cases "length q < cap") auto
  next
    case Get
    with a show ?thesis
      using get_ok [of s] get_empty [of s] by (cases q) fastforce+
  qed
qed

text \<open>
  Every result of a run is the one of the specification, so a put is refused
  exactly when the buffer holds \<open>cap\<close> items and a get is refused exactly when
  it holds none.
\<close>

lemma fifo_run:
  assumes "inv s"
  shows "\<exists>rs s'. arun (qspec cap) ops (contents s) = (rs, contents s') \<and>
    orun (qstep put get) ops s = Some (map res rs, s') \<and> inv s' \<and>
    delivered rs @ contents s' = contents s @ accepted ops rs"
proof -
  obtain rs q where a: "arun (qspec cap) ops (contents s) = (rs, q)" by force
  obtain s' where "orun (qstep put get) ops s = Some (map res rs, s')" "inv s'" "contents s' = q"
    using fifo.run_refines [of s "contents s" ops] assms a by (auto simp: arun_map_result)
  with qspec_fifo [OF a] a show ?thesis by auto
qed

end

section \<open>Block allocators\<close>

datatype aop = Alloc | Free nat

fun alloc_step :: "('s \<Rightarrow> nat option \<times> 's) \<Rightarrow> (nat \<Rightarrow> 's \<Rightarrow> int \<times> 's) \<Rightarrow>
    aop \<Rightarrow> 's \<Rightarrow> nat option \<times> 's" where
  "alloc_step alloc free Alloc s = alloc s"
| "alloc_step alloc free (Free p) s = (None, snd (free p s))"

text \<open>
  The blocks handed out and not released since, read off the operations and
  their results alone.
\<close>

fun live :: "aop list \<Rightarrow> nat option list \<Rightarrow> nat set \<Rightarrow> nat set" where
  "live (Alloc # ops) (Some p # rs) L = live ops rs (insert p L)"
| "live (Free p # ops) (r # rs) L = live ops rs (L - {p})"
| "live (op # ops) (r # rs) L = live ops rs L"
| "live ops rs L = L"

locale block_allocator =
  fixes alloc :: "'s \<Rightarrow> nat option \<times> 's"
    and free :: "nat \<Rightarrow> 's \<Rightarrow> int \<times> 's"
    and used :: "'s \<Rightarrow> nat set"
    and inv :: "'s \<Rightarrow> bool"
    and blocks :: "nat set"
  assumes alloc_Some: "inv s \<Longrightarrow> alloc s = (Some p, s') \<Longrightarrow>
      p \<in> blocks \<and> p \<notin> used s \<and> used s' = insert p (used s) \<and> inv s'"
    and alloc_None: "inv s \<Longrightarrow> alloc s = (None, s') \<Longrightarrow> s' = s \<and> used s = blocks"
    and free_used: "inv s \<Longrightarrow> inv (snd (free p s)) \<and> used (snd (free p s)) = used s - {p}"
    and used_blocks: "inv s \<Longrightarrow> used s \<subseteq> blocks"
begin

lemma alloc_inv: "inv s \<Longrightarrow> inv (snd (alloc s))"
proof -
  assume i: "inv s"
  obtain r s' where r: "alloc s = (r, s')" by force
  with i show ?thesis
    by (cases r) (auto dest: alloc_Some alloc_None)
qed

lemma step_inv: "inv s \<Longrightarrow> inv (snd (alloc_step alloc free op s))"
  by (cases op) (auto simp: alloc_inv free_used)

lemma run_inv: "inv s \<Longrightarrow> inv (snd (arun (alloc_step alloc free) ops s))"
proof (induction ops arbitrary: s)
  case Nil
  then show ?case by simp
next
  case (Cons op ops)
  from Cons.IH [OF step_inv [OF Cons.prems, of op]] show ?case by (simp add: split_beta)
qed

lemma run_live:
  "inv s \<Longrightarrow> used (snd (arun (alloc_step alloc free) ops s)) =
     live ops (fst (arun (alloc_step alloc free) ops s)) (used s)"
proof (induction ops arbitrary: s)
  case Nil
  then show ?case by simp
next
  case (Cons op ops)
  obtain r s1 where r: "alloc_step alloc free op s = (r, s1)" by force
  have "inv s1" using step_inv [OF Cons.prems, of op] r by simp
  moreover have "live (op # ops) (r # rs) (used s) = live ops rs (used s1)" for rs
  proof (cases op)
    case Alloc
    with r alloc_Some [OF Cons.prems, of _ s1] alloc_None [OF Cons.prems, of s1] show ?thesis
      by (cases r) auto
  next
    case (Free p)
    with r free_used [OF Cons.prems, of p] show ?thesis by auto
  qed
  ultimately show ?case using Cons.IH r by (simp add: split_beta)
qed

text \<open>
  Allocations with no release in between hand out distinct blocks, none of
  them in use before.
\<close>

lemma allocs_distinct:
  assumes "inv s"
  shows "distinct (List.map_filter id (fst (arun (alloc_step alloc free) (replicate n Alloc) s))) \<and>
    set (List.map_filter id (fst (arun (alloc_step alloc free) (replicate n Alloc) s))) \<inter> used s = {}"
  using assms
proof (induction n arbitrary: s)
  case 0
  then show ?case by (simp add: List.map_filter_def)
next
  case (Suc n)
  obtain r s1 where r: "alloc s = (r, s1)" by force
  show ?case
  proof (cases r)
    case None
    with alloc_None Suc.prems r have "s1 = s" by blast
    with Suc r None show ?thesis by (simp add: split_beta List.map_filter_def)
  next
    case (Some p)
    with alloc_Some Suc.prems r have "p \<notin> used s" "used s1 = insert p (used s)" "inv s1" by blast+
    with Suc.IH [of s1] r Some show ?thesis by (auto simp: split_beta List.map_filter_def)
  qed
qed

end

end
