(* ===== verification/Lists.thy ===== *)
theory Lists
  imports Interfaces
begin

text \<open>
  The linked list library, \<open>core/lib/list.c\<close>. A list variable holds the
  pointer to its first element and every element starts with its \<open>next\<close>
  pointer, so the state is the value of the list variable and the store of
  \<open>next\<close> fields. Loops that follow \<open>next\<close> pointers do not end on a cyclic
  store: they are partial functions into \<^typ>\<open>'a option\<close>, where \<^term>\<open>None\<close>
  is non-termination, and the lemmas show that they return on every proper
  list. The abstraction relation \<open>lrep\<close> reads a state as a sequence.
\<close>

section \<open>State and operations\<close>

record 'p clist =
  lhead :: "'p ptr"
  lnext :: "'p \<Rightarrow> 'p ptr"

definition list_init :: "'p clist \<Rightarrow> 'p clist" where
  "list_init s = s\<lparr>lhead := None\<rparr>"

definition list_head :: "'p clist \<Rightarrow> 'p ptr" where
  "list_head s = lhead s"

definition list_copy :: "'p clist \<Rightarrow> 'p clist \<Rightarrow> 'p clist" where
  "list_copy dest src = dest\<lparr>lhead := lhead src\<rparr>"

partial_function (option) tail_loop :: "('p \<Rightarrow> 'p ptr) \<Rightarrow> 'p \<Rightarrow> 'p option" where
  "tail_loop nx l = (case nx l of None \<Rightarrow> Some l | Some l' \<Rightarrow> tail_loop nx l')"

definition list_tail :: "'p clist \<Rightarrow> 'p ptr option" where
  "list_tail s = (case lhead s of
       None \<Rightarrow> Some None
     | Some l \<Rightarrow> map_option Some (tail_loop (lnext s) l))"

text \<open>
  The loop of \<open>list_remove\<close>: \<open>l\<close> walks the list, \<open>r\<close> is the element before it.
\<close>

definition unlink :: "'p clist \<Rightarrow> 'p ptr \<Rightarrow> 'p \<Rightarrow> 'p clist" where
  "unlink s r l =
     (let s' = (case r of
                  None \<Rightarrow> s\<lparr>lhead := lnext s l\<rparr>
                | Some q \<Rightarrow> s\<lparr>lnext := (lnext s)(q := lnext s l)\<rparr>)
      in s'\<lparr>lnext := (lnext s')(l := None)\<rparr>)"

partial_function (option) remove_loop ::
  "'p clist \<Rightarrow> 'p \<Rightarrow> 'p ptr \<Rightarrow> 'p ptr \<Rightarrow> 'p clist option" where
  "remove_loop s item r l =
     (case l of
        None \<Rightarrow> Some s
      | Some x \<Rightarrow> if x = item then Some (unlink s r x)
                 else remove_loop s item (Some x) (lnext s x))"

definition list_remove :: "'p clist \<Rightarrow> 'p \<Rightarrow> 'p clist option" where
  "list_remove s item =
     (if lhead s = None then Some s else remove_loop s item None (lhead s))"

definition list_add :: "'p clist \<Rightarrow> 'p \<Rightarrow> 'p clist option" where
  "list_add s item = do {
     s1 \<leftarrow> list_remove s item;
     let s2 = s1\<lparr>lnext := (lnext s1)(item := None)\<rparr>;
     l \<leftarrow> list_tail s2;
     Some (case l of
             None \<Rightarrow> s2\<lparr>lhead := Some item\<rparr>
           | Some t \<Rightarrow> s2\<lparr>lnext := (lnext s2)(t := Some item)\<rparr>)
   }"

definition list_push :: "'p clist \<Rightarrow> 'p \<Rightarrow> 'p clist option" where
  "list_push s item = do {
     s1 \<leftarrow> list_remove s item;
     Some (s1\<lparr>lnext := (lnext s1)(item := lhead s1), lhead := Some item\<rparr>)
   }"

text \<open>
  The loop of \<open>list_chop\<close> stops at the element before the last; \<open>l\<close> always
  has a successor there.
\<close>

partial_function (option) chop_loop ::
  "('p \<Rightarrow> 'p ptr) \<Rightarrow> 'p \<Rightarrow> 'p \<Rightarrow> ('p \<times> 'p) option" where
  "chop_loop nx l m = (case nx m of
       None \<Rightarrow> Some (l, m)
     | Some m' \<Rightarrow> chop_loop nx m m')"

definition list_chop :: "'p clist \<Rightarrow> ('p ptr \<times> 'p clist) option" where
  "list_chop s = (case lhead s of
       None \<Rightarrow> Some (None, s)
     | Some h \<Rightarrow> (case lnext s h of
         None \<Rightarrow> Some (Some h, s\<lparr>lhead := None\<rparr>)
       | Some m \<Rightarrow> do {
           (l, r) \<leftarrow> chop_loop (lnext s) h m;
           Some (Some r, s\<lparr>lnext := (lnext s)(l := None)\<rparr>)
         }))"

definition list_pop :: "'p clist \<Rightarrow> 'p ptr \<times> 'p clist" where
  "list_pop s = (lhead s, case lhead s of
       None \<Rightarrow> s
     | Some l \<Rightarrow> s\<lparr>lhead := lnext s l\<rparr>)"

partial_function (option) length_loop :: "('p \<Rightarrow> 'p ptr) \<Rightarrow> 'p ptr \<Rightarrow> int \<Rightarrow> int option" where
  "length_loop nx l n = (case l of None \<Rightarrow> Some n | Some x \<Rightarrow> length_loop nx (nx x) (n + 1))"

definition list_length :: "'p clist \<Rightarrow> int option" where
  "list_length s = length_loop (lnext s) (lhead s) 0"

definition list_insert :: "'p clist \<Rightarrow> 'p ptr \<Rightarrow> 'p \<Rightarrow> 'p clist option" where
  "list_insert s previtem newitem = (case previtem of
       None \<Rightarrow> list_push s newitem
     | Some p \<Rightarrow>
         (let s' = s\<lparr>lnext := (lnext s)(newitem := lnext s p)\<rparr>
          in Some (s'\<lparr>lnext := (lnext s')(p := Some newitem)\<rparr>)))"

definition list_item_next :: "'p clist \<Rightarrow> 'p ptr \<Rightarrow> 'p ptr" where
  "list_item_next s item = (case item of None \<Rightarrow> None | Some x \<Rightarrow> lnext s x)"

section \<open>Abstraction to sequences\<close>

text \<open>
  \<open>seg nx p xs q\<close>: following \<open>next\<close> from \<open>p\<close> visits the elements \<open>xs\<close> and
  arrives at \<open>q\<close>. A list state represents \<open>xs\<close> when its segment ends in NULL.
\<close>

fun seg :: "('p \<Rightarrow> 'p ptr) \<Rightarrow> 'p ptr \<Rightarrow> 'p list \<Rightarrow> 'p ptr \<Rightarrow> bool" where
  "seg nx p [] q = (p = q)"
| "seg nx p (x # xs) q = (p = Some x \<and> seg nx (nx x) xs q)"

definition lrep :: "'p clist \<Rightarrow> 'p list \<Rightarrow> bool" where
  "lrep s xs = seg (lnext s) (lhead s) xs None"

lemma seg_append: "seg nx p (xs @ ys) q = (\<exists>m. seg nx p xs m \<and> seg nx m ys q)"
  by (induction xs arbitrary: p) auto

lemma seg_upd [simp]: "u \<notin> set xs \<Longrightarrow> seg (nx(u := v)) p xs q = seg nx p xs q"
  by (induction xs arbitrary: p) auto

lemma seg_cong: "(\<And>x. x \<in> set xs \<Longrightarrow> nx x = nx' x) \<Longrightarrow> seg nx p xs q = seg nx' p xs q"
  by (induction xs arbitrary: p) auto

lemma seg_None_start [simp]: "seg nx None xs None = (xs = [])"
  by (cases xs) auto

lemma seg_unique: "seg nx p xs None \<Longrightarrow> seg nx p ys None \<Longrightarrow> xs = ys"
proof (induction xs arbitrary: p ys)
  case Nil
  then show ?case by simp
next
  case (Cons x xs)
  then show ?case by (cases ys) auto
qed

lemma seg_distinct: "seg nx p xs None \<Longrightarrow> distinct xs"
proof (induction xs arbitrary: p)
  case Nil
  then show ?case by simp
next
  case (Cons x xs)
  have "x \<notin> set xs"
  proof
    assume "x \<in> set xs"
    then obtain us vs where xs: "xs = us @ x # vs" by (meson split_list)
    with Cons.prems have "seg nx (nx x) vs None" "seg nx (nx x) xs None"
      by (auto simp: seg_append)
    then have "vs = xs" by (rule seg_unique)
    with xs show False by auto
  qed
  with Cons show ?case by auto
qed

lemma lrep_distinct: "lrep s xs \<Longrightarrow> distinct xs"
  by (auto simp: lrep_def dest: seg_distinct)

lemma lrep_unique: "lrep s xs \<Longrightarrow> lrep s ys \<Longrightarrow> xs = ys"
  by (auto simp: lrep_def dest: seg_unique)

lemma lrep_head: "lrep s xs \<Longrightarrow> list_head s = (case xs of [] \<Rightarrow> None | x # _ \<Rightarrow> Some x)"
  by (cases xs) (auto simp: lrep_def list_head_def)

lemma lrep_next:
  "lrep s (us @ x # vs) \<Longrightarrow> lnext s x = (case vs of [] \<Rightarrow> None | y # _ \<Rightarrow> Some y)"
  by (cases vs) (auto simp: lrep_def seg_append)

section \<open>Functional behaviour\<close>

lemma list_init_rep: "lrep (list_init s) []"
  by (simp add: list_init_def lrep_def)

lemma tail_loop_seg: "seg nx p (xs @ [y]) None \<Longrightarrow> p = Some x \<Longrightarrow> tail_loop nx x = Some y"
proof (induction xs arbitrary: p x)
  case Nil
  then show ?case by (simp add: tail_loop.simps)
next
  case (Cons z zs)
  then obtain w where "nx z = Some w" by (cases zs) auto
  with Cons show ?case by (subst tail_loop.simps) auto
qed

lemma list_tail_rep:
  "lrep s xs \<Longrightarrow> list_tail s = Some (if xs = [] then None else Some (last xs))"
  by (cases xs rule: rev_cases; cases "lhead s")
    (auto simp: lrep_def list_tail_def tail_loop_seg)

lemma remove_loop_absent:
  "seg (lnext s) l ys None \<Longrightarrow> item \<notin> set ys \<Longrightarrow> remove_loop s item r l = Some s"
  by (induction ys arbitrary: r l) (auto simp: remove_loop.simps)

lemma remove_loop_present:
  "seg (lnext s) l (us @ item # vs) None \<Longrightarrow> item \<notin> set us \<Longrightarrow>
   remove_loop s item r l = Some (unlink s (if us = [] then r else Some (last us)) item)"
  by (induction us arbitrary: r l) (auto simp: remove_loop.simps)

lemma unlink_rep:
  assumes "lrep s (us @ x # vs)"
  shows "lrep (unlink s (if us = [] then None else Some (last us)) x) (us @ vs)"
proof -
  have d: "x \<notin> set us" "x \<notin> set vs" "distinct us" "set us \<inter> set vs = {}"
    using lrep_distinct [OF assms] by auto
  show ?thesis
  proof (cases us rule: rev_cases)
    case Nil
    with assms d show ?thesis by (auto simp: lrep_def unlink_def)
  next
    case (snoc zs z)
    with assms d show ?thesis by (auto simp: lrep_def unlink_def seg_append)
  qed
qed

lemma unlink_frame:
  "y \<noteq> x \<Longrightarrow> r \<noteq> Some y \<Longrightarrow> lnext (unlink s r x) y = lnext s y"
  "lnext (unlink s r x) x = None"
  by (auto simp: unlink_def Let_def split: option.splits)

lemma list_remove_rep:
  assumes "lrep s xs"
  shows "\<exists>s'. list_remove s x = Some s' \<and> lrep s' (remove1 x xs) \<and>
    (x \<in> set xs \<longrightarrow> lnext s' x = None) \<and> (\<forall>y. y \<notin> set xs \<longrightarrow> lnext s' y = lnext s y)"
proof (cases "x \<in> set xs")
  case False
  with assms show ?thesis
    by (auto simp: list_remove_def lrep_def remove_loop_absent remove1_idem)
next
  case True
  then obtain us vs where xs: "xs = us @ x # vs" and us: "x \<notin> set us"
    by (meson split_list_first)
  let ?s' = "unlink s (if us = [] then None else Some (last us)) x"
  have "list_remove s x = Some ?s'"
    using assms us xs by (cases "lhead s") (auto simp: list_remove_def lrep_def remove_loop_present)
  moreover have "lrep ?s' (remove1 x xs)"
    using assms us xs unlink_rep by (metis remove1_append remove1.simps(2))
  ultimately show ?thesis
    using xs last_in_set [of us] by (auto simp: unlink_frame(2) intro!: unlink_frame(1))
qed

lemma list_add_rep:
  assumes "lrep s xs"
  shows "\<exists>s'. list_add s x = Some s' \<and> lrep s' (remove1 x xs @ [x]) \<and>
    (\<forall>y. y \<notin> insert x (set xs) \<longrightarrow> lnext s' y = lnext s y)"
proof -
  obtain s1 where s1: "list_remove s x = Some s1" "lrep s1 (remove1 x xs)"
    "\<forall>y. y \<notin> set xs \<longrightarrow> lnext s1 y = lnext s y"
    using list_remove_rep [OF assms] by blast
  let ?s2 = "s1\<lparr>lnext := (lnext s1)(x := None)\<rparr>" and ?xs = "remove1 x xs"
  have x: "x \<notin> set ?xs" and d: "distinct ?xs"
    using lrep_distinct [OF assms] by auto
  have s2: "lrep ?s2 ?xs" using s1(2) x by (simp add: lrep_def)
  note t = list_tail_rep [OF s2]
  show ?thesis
  proof (cases ?xs rule: rev_cases)
    case Nil
    with s1 s2 t show ?thesis by (auto simp: list_add_def lrep_def)
  next
    case (snoc ys y)
    then have "y \<in> set xs" by (metis in_set_conv_decomp notin_set_remove1)
    with snoc s1 s2 t x d show ?thesis by (auto simp: list_add_def lrep_def seg_append)
  qed
qed

lemma list_push_rep:
  assumes "lrep s xs"
  shows "\<exists>s'. list_push s x = Some s' \<and> lrep s' (x # remove1 x xs) \<and>
    (\<forall>y. y \<notin> insert x (set xs) \<longrightarrow> lnext s' y = lnext s y)"
proof -
  obtain s1 where s1: "list_remove s x = Some s1" "lrep s1 (remove1 x xs)"
    "\<forall>y. y \<notin> set xs \<longrightarrow> lnext s1 y = lnext s y"
    using list_remove_rep [OF assms] by blast
  have "x \<notin> set (remove1 x xs)"
    using lrep_distinct [OF assms] by auto
  with s1 show ?thesis by (auto simp: list_push_def lrep_def)
qed

lemma list_pop_rep:
  "lrep s xs \<Longrightarrow> fst (list_pop s) = (case xs of [] \<Rightarrow> None | x # _ \<Rightarrow> Some x) \<and>
    lrep (snd (list_pop s)) (tl xs) \<and> lnext (snd (list_pop s)) = lnext s"
  by (cases xs) (auto simp: list_pop_def lrep_def)

lemma chop_loop_seg:
  "seg nx (Some m) (ys @ [z]) None \<Longrightarrow>
   chop_loop nx l m = Some (if ys = [] then l else last ys, z)"
proof (induction ys arbitrary: l m)
  case Nil
  then show ?case by (simp add: chop_loop.simps)
next
  case (Cons y ys)
  then obtain w where "nx m = Some w" by (cases ys) auto
  with Cons show ?case by (subst chop_loop.simps) auto
qed

lemma list_chop_rep:
  assumes "lrep s xs"
  shows "\<exists>s'. list_chop s = Some (if xs = [] then None else Some (last xs), s') \<and>
    lrep s' (butlast xs)"
proof (cases xs rule: rev_cases)
  case Nil
  with assms show ?thesis by (auto simp: list_chop_def lrep_def)
next
  case (snoc ys z)
  note xs = this
  show ?thesis
  proof (cases ys)
    case Nil
    with assms xs show ?thesis by (auto simp: list_chop_def lrep_def)
  next
    case (Cons h hs)
    let ?l = "last (h # hs)"
    obtain m where m: "lhead s = Some h" "lnext s h = Some m" "seg (lnext s) (Some m) (hs @ [z]) None"
      using assms xs Cons by (cases hs) (auto simp: lrep_def)
    have "list_chop s = Some (Some z, s\<lparr>lnext := (lnext s)(?l := None)\<rparr>)"
      using m by (simp add: list_chop_def chop_loop_seg)
    moreover have "lrep (s\<lparr>lnext := (lnext s)(?l := None)\<rparr>) ys"
    proof -
      obtain us where us: "ys = us @ [?l]"
        using Cons by (metis append_butlast_last_id list.distinct(1))
      then have "?l \<notin> set us" using lrep_distinct [OF assms] xs by auto
      then show ?thesis using assms xs us by (auto simp: lrep_def seg_append)
    qed
    ultimately show ?thesis using xs by simp
  qed
qed

lemma length_loop_seg: "seg nx p xs None \<Longrightarrow> length_loop nx p n = Some (n + int (length xs))"
  by (induction xs arbitrary: p n) (auto simp: length_loop.simps)

lemma list_length_rep: "lrep s xs \<Longrightarrow> list_length s = Some (int (length xs))"
  by (simp add: list_length_def lrep_def length_loop_seg)

lemma list_insert_rep:
  assumes "lrep s (us @ p # vs)" and "x \<notin> set (us @ p # vs)"
  shows "\<exists>s'. list_insert s (Some p) x = Some s' \<and> lrep s' (us @ p # x # vs)"
proof -
  have "p \<notin> set us" "p \<notin> set vs" using lrep_distinct [OF assms(1)] by auto
  with assms show ?thesis by (auto simp: list_insert_def lrep_def seg_append Let_def)
qed

section \<open>Sequences of operations\<close>

text \<open>
  The operations as a step function, and the same operations on plain
  sequences. A sequence never holds an element twice: \<open>list_add\<close> and
  \<open>list_push\<close> first remove the element.
\<close>

datatype 'p lop = Add 'p | Push 'p | Remove 'p | Pop | Chop

fun list_step :: "'p lop \<Rightarrow> 'p clist \<Rightarrow> ('p ptr \<times> 'p clist) option" where
  "list_step (Add x) s = map_option (Pair None) (list_add s x)"
| "list_step (Push x) s = map_option (Pair None) (list_push s x)"
| "list_step (Remove x) s = map_option (Pair None) (list_remove s x)"
| "list_step Pop s = Some (list_pop s)"
| "list_step Chop s = list_chop s"

fun seq_step :: "'p lop \<Rightarrow> 'p list \<Rightarrow> 'p ptr \<times> 'p list" where
  "seq_step (Add x) xs = (None, remove1 x xs @ [x])"
| "seq_step (Push x) xs = (None, x # remove1 x xs)"
| "seq_step (Remove x) xs = (None, remove1 x xs)"
| "seq_step Pop xs = (case xs of [] \<Rightarrow> (None, []) | x # ys \<Rightarrow> (Some x, ys))"
| "seq_step Chop xs = (if xs = [] then (None, []) else (Some (last xs), butlast xs))"

interpretation lst: data_refinement lrep list_step seq_step
proof unfold_locales
  fix s :: "'a clist" and xs :: "'a list" and op :: "'a lop"
  assume r: "lrep s xs"
  show "\<exists>s'. list_step op s = Some (fst (seq_step op xs), s') \<and> lrep s' (snd (seq_step op xs))"
  proof (cases op)
    case (Add x)
    with list_add_rep [OF r, of x] show ?thesis by auto
  next
    case (Push x)
    with list_push_rep [OF r, of x] show ?thesis by auto
  next
    case (Remove x)
    with list_remove_rep [OF r, of x] show ?thesis by auto
  next
    case Pop
    with list_pop_rep [OF r] show ?thesis by (cases xs; cases "list_pop s") auto
  next
    case Chop
    with list_chop_rep [OF r] show ?thesis by auto
  qed
qed

text \<open>
  C25. Any sequence of list operations, started on an initialised list whose
  elements' next fields hold anything, returns, hands out the elements the
  same operations on a plain sequence hand out, and leaves a list that
  represents that sequence.
\<close>

theorem list_ops_refine:
  "\<exists>s'. orun list_step ops (list_init s) = Some (fst (arun seq_step ops []), s') \<and>
     lrep s' (snd (arun seq_step ops []))"
  by (rule lst.run_refines [OF list_init_rep])

end
