(* ===== verification/Ringbuf.thy ===== *)
theory Ringbuf
  imports Interfaces
begin

text \<open>
  The byte ring buffer, \<open>core/lib/ringbuf.c\<close>. The storage the caller provides
  is a list; an access outside it is undefined in C and is \<^term>\<open>None\<close> here. The
  C expressions on \<open>put_ptr - get_ptr\<close> are computed in \<open>int\<close> and masked with an
  8-bit mask, which is the 8-bit subtraction masked.
\<close>

section \<open>State and operations\<close>

record ringbuf =
  rdata :: "u8 list"
  rmask :: u8
  put_ptr :: u8
  get_ptr :: u8

definition ringbuf_init :: "ringbuf \<Rightarrow> u8 list \<Rightarrow> u8 \<Rightarrow> ringbuf" where
  "ringbuf_init r dataptr size' =
     r\<lparr>rdata := dataptr, rmask := size' - 1, put_ptr := 0, get_ptr := 0\<rparr>"

definition ringbuf_put :: "ringbuf \<Rightarrow> u8 \<Rightarrow> (int \<times> ringbuf) option" where
  "ringbuf_put r c =
     (if (put_ptr r - get_ptr r) AND rmask r = rmask r then Some (0, r)
      else if unat (put_ptr r) < length (rdata r) then
        Some (1, r\<lparr>rdata := (rdata r)[unat (put_ptr r) := c],
                   put_ptr := (put_ptr r + 1) AND rmask r\<rparr>)
      else None)"

definition ringbuf_get :: "ringbuf \<Rightarrow> (int \<times> ringbuf) option" where
  "ringbuf_get r =
     (if (put_ptr r - get_ptr r) AND rmask r > 0 then
        (if unat (get_ptr r) < length (rdata r) then
           Some (uint (rdata r ! unat (get_ptr r)),
                 r\<lparr>get_ptr := (get_ptr r + 1) AND rmask r\<rparr>)
         else None)
      else Some (-1, r))"

definition ringbuf_size :: "ringbuf \<Rightarrow> int" where
  "ringbuf_size r = uint (rmask r) + 1"

definition ringbuf_elements :: "ringbuf \<Rightarrow> int" where
  "ringbuf_elements r = uint ((put_ptr r - get_ptr r) AND rmask r)"

section \<open>Abstraction to a bounded queue\<close>

text \<open>
  A buffer of \<open>2 ^ n\<close> slots holds at most \<open>2 ^ n - 1\<close> bytes, since a full and
  an empty buffer would otherwise have equal pointers.
\<close>

definition rb_inv :: "nat \<Rightarrow> ringbuf \<Rightarrow> bool" where
  "rb_inv n r \<longleftrightarrow> n \<le> 8 \<and> rmask r = mask n \<and> length (rdata r) = 2 ^ n \<and>
     unat (put_ptr r) < 2 ^ n \<and> unat (get_ptr r) < 2 ^ n"

definition rb_count :: "nat \<Rightarrow> ringbuf \<Rightarrow> nat" where
  "rb_count n r = (unat (put_ptr r) + 2 ^ n - unat (get_ptr r)) mod 2 ^ n"

definition rb_contents :: "nat \<Rightarrow> ringbuf \<Rightarrow> u8 list" where
  "rb_contents n r = ring_slice (2 ^ n) (rdata r) (unat (get_ptr r)) (rb_count n r)"

lemma rb_count_less: "rb_inv n r \<Longrightarrow> rb_count n r < 2 ^ n"
  by (simp add: rb_count_def)

lemma rb_elements: "rb_inv n r \<Longrightarrow> unat ((put_ptr r - get_ptr r) AND rmask r) = rb_count n r"
  by (simp add: rb_inv_def rb_count_def unat_sub_and_mask)

lemma rb_full: "rb_inv n r \<Longrightarrow>
    ((put_ptr r - get_ptr r) AND rmask r = rmask r) = (rb_count n r = 2 ^ n - 1)"
proof -
  assume i: "rb_inv n r"
  then have "unat (rmask r) = 2 ^ n - 1" by (simp add: rb_inv_def unat_mask_u8)
  then show ?thesis using rb_elements [OF i] by (simp add: word_unat_eq_iff)
qed

lemma rb_nonempty: "rb_inv n r \<Longrightarrow>
    ((put_ptr r - get_ptr r) AND rmask r > 0) = (0 < rb_count n r)"
  by (metis rb_elements unat_gt_0 word_gt_0)

lemma rb_next: "n \<le> 8 \<Longrightarrow> unat (p :: u8) < 2 ^ n \<Longrightarrow>
    unat ((p + 1) AND mask n) = (unat p + 1) mod 2 ^ n"
  by (simp add: unat_and_mask_mod unat_word_ariths mod_256_mod_pow2)

lemma rb_put_index:
  assumes "rb_inv n r"
  shows "unat (put_ptr r) = (unat (get_ptr r) + rb_count n r) mod 2 ^ n"
proof -
  have "unat (get_ptr r) \<le> unat (put_ptr r) + 2 ^ n"
    using assms by (auto simp: rb_inv_def)
  with assms show ?thesis
    by (simp add: rb_count_def rb_inv_def mod_simps)
qed

section \<open>The bounded queue contract\<close>

text \<open>The return values of C for the results of the queue; -1 is the \<open>int\<close> no byte is.\<close>

definition rb_put :: "u8 \<Rightarrow> ringbuf \<Rightarrow> (int \<times> ringbuf) option" where
  "rb_put c r = ringbuf_put r c"

fun rb_result :: "u8 qres \<Rightarrow> int" where
  "rb_result Accepted = 1"
| "rb_result Rejected = 0"
| "rb_result (Item c) = uint c"
| "rb_result Empty = -1"

lemma rb_result_inj: "rb_result (Item c) \<noteq> rb_result Empty" "(rb_result (Item c) = rb_result (Item d)) = (c = d)"
  by (simp_all add: word_uint_eq_iff)

lemma rb_put_step:
  assumes i: "rb_inv n r" and k: "rb_count n r < 2 ^ n - 1"
  shows "\<exists>r'. ringbuf_put r c = Some (1, r') \<and> rb_inv n r' \<and>
    rb_contents n r' = rb_contents n r @ [c]"
proof -
  let ?r = "r\<lparr>rdata := (rdata r)[unat (put_ptr r) := c], put_ptr := (put_ptr r + 1) AND rmask r\<rparr>"
  have p: "unat (put_ptr ?r) = (unat (put_ptr r) + 1) mod 2 ^ n"
    using i by (simp add: rb_inv_def rb_next)
  have inv: "rb_inv n ?r" using i p by (simp add: rb_inv_def)
  have g: "unat (get_ptr r) < 2 ^ n" using i by (simp add: rb_inv_def)
  have "rb_count n ?r = ((unat (put_ptr r) + 1) mod 2 ^ n + (2 ^ n - unat (get_ptr r))) mod 2 ^ n"
    using g p by (simp add: rb_count_def)
  also have "\<dots> = (unat (put_ptr r) + 1 + (2 ^ n - unat (get_ptr r))) mod 2 ^ n"
    by (simp add: mod_simps)
  also have "\<dots> = (Suc (unat (put_ptr r) + 2 ^ n - unat (get_ptr r))) mod 2 ^ n"
    using g by (simp add: Suc_diff_le)
  also have "\<dots> = Suc (rb_count n r)"
    using k by (simp add: rb_count_def mod_Suc)
  finally have c: "rb_count n ?r = Suc (rb_count n r)" .
  have "rb_contents n ?r = rb_contents n r @ [c]"
    using k c i ring_slice_put [of "rb_count n r" "2 ^ n" "rdata r" "unat (get_ptr r)" c]
    by (simp add: rb_contents_def rb_inv_def flip: rb_put_index [OF i])
  moreover have "ringbuf_put r c = Some (1, ?r)"
    using i k rb_full [OF i] by (simp add: ringbuf_put_def rb_inv_def)
  ultimately show ?thesis using inv by blast
qed

lemma rb_get_step:
  assumes i: "rb_inv n r" and k: "0 < rb_count n r"
  shows "\<exists>r'. ringbuf_get r = Some (uint (hd (rb_contents n r)), r') \<and> rb_inv n r' \<and>
    rb_contents n r' = tl (rb_contents n r)"
proof -
  let ?r = "r\<lparr>get_ptr := (get_ptr r + 1) AND rmask r\<rparr>"
  have g: "unat (get_ptr ?r) = (unat (get_ptr r) + 1) mod 2 ^ n"
    using i by (simp add: rb_inv_def rb_next)
  have inv: "rb_inv n ?r" using i g by (simp add: rb_inv_def)
  obtain m where m: "rb_count n r = Suc m" using k by (cases "rb_count n r") auto
  have b: "unat (get_ptr r) < 2 ^ n" "unat (put_ptr r) < 2 ^ n" using i by (auto simp: rb_inv_def)
  have c: "rb_count n ?r = m"
  proof (cases "unat (get_ptr r) + 1 < 2 ^ n")
    case True
    let ?x = "unat (put_ptr r) + 2 ^ n - (unat (get_ptr r) + 1)"
    have "rb_count n ?r = ?x mod 2 ^ n"
      using True g by (simp add: rb_count_def)
    moreover have "rb_count n r = Suc ?x mod 2 ^ n"
      using b by (simp add: rb_count_def Suc_diff_Suc)
    ultimately show ?thesis
      using m by (simp add: mod_Suc split: if_splits)
  next
    case False
    then have e: "unat (get_ptr r) + 1 = 2 ^ n" using b by linarith
    then have "unat (put_ptr r) + 2 ^ n - unat (get_ptr r) = Suc (unat (put_ptr r))"
      by linarith
    then have "rb_count n r = Suc (unat (put_ptr r)) mod 2 ^ n"
      by (simp only: rb_count_def)
    then have "m = unat (put_ptr r)"
      using m b by (simp add: mod_Suc split: if_splits)
    moreover have "rb_count n ?r = (unat (put_ptr r) + 2 ^ n) mod 2 ^ n"
      using g e by (simp add: rb_count_def)
    ultimately show ?thesis using b by simp
  qed
  have "rb_contents n r = rdata r ! unat (get_ptr r) # rb_contents n ?r"
    using m c b g by (simp add: rb_contents_def ring_slice_get)
  moreover have "ringbuf_get r = Some (uint (rdata r ! unat (get_ptr r)), ?r)"
    using i k b rb_nonempty [OF i] by (simp add: ringbuf_get_def rb_inv_def)
  ultimately show ?thesis using inv by auto
qed

lemma rb_get_none: "rb_inv n r \<Longrightarrow> rb_count n r = 0 \<Longrightarrow> ringbuf_get r = Some (-1, r)"
  using rb_nonempty [of n r] by (simp add: ringbuf_get_def)

lemma rb_put_none: "rb_inv n r \<Longrightarrow> rb_count n r = 2 ^ n - 1 \<Longrightarrow> ringbuf_put r c = Some (0, r)"
  using rb_full [of n r] by (simp add: ringbuf_put_def)

interpretation rb: bounded_fifo rb_put ringbuf_get rb_result "rb_contents n" "rb_inv n" "2 ^ n - 1" for n
proof unfold_locales
  fix s :: ringbuf and x :: u8
  assume i: "rb_inv n s"
  have len: "length (rb_contents n s) = rb_count n s" by (simp add: rb_contents_def)
  show "\<exists>s'. rb_put x s = Some (rb_result Accepted, s') \<and> rb_inv n s' \<and> rb_contents n s' = rb_contents n s @ [x]"
    if "length (rb_contents n s) < 2 ^ n - 1"
    using rb_put_step [OF i, of x] that len by (simp add: rb_put_def)
  show "rb_put x s = Some (rb_result Rejected, s)" if "2 ^ n - 1 \<le> length (rb_contents n s)"
    using rb_put_none [OF i, of x] rb_count_less [OF i] that len by (simp add: rb_put_def)
  show "\<exists>s'. ringbuf_get s = Some (rb_result (Item x), s') \<and> rb_inv n s' \<and> rb_contents n s' = q"
    if q: "rb_contents n s = x # q" for q
    using rb_get_step [OF i] q len by auto
  show "ringbuf_get s = Some (rb_result Empty, s)" if "rb_contents n s = []"
    using rb_get_none [OF i] that len by simp
qed

lemma ringbuf_init_inv:
  assumes "n \<le> 8" and "length d = 2 ^ n"
  shows "rb_inv n (ringbuf_init r d (of_nat (2 ^ n))) \<and> rb_contents n (ringbuf_init r d (of_nat (2 ^ n))) = []"
  using assms
  by (simp add: rb_inv_def ringbuf_init_def rb_contents_def rb_count_def mask_eq_exp_minus_1)

text \<open>
  C28. A ring buffer set up over a power of two of storage, at most 256 bytes,
  is the first-in first-out queue of capacity one less than the storage. Under
  every sequence of puts and gets no access leaves the storage and every call
  returns what the queue \<open>qspec\<close> returns: a put returns 1 and stores the byte
  when fewer than \<open>2 ^ n - 1\<close> bytes are held and returns 0 and changes nothing
  otherwise; a get returns the oldest byte, and -1 only when none is held. The
  bytes held in the end are those of the queue and their number is the one
  reported; the bytes handed out followed by them are the bytes accepted.
\<close>

theorem ringbuf_fifo:
  assumes "n \<le> 8" and "length d = 2 ^ n"
  shows "\<exists>rs r'. arun (qspec (2 ^ n - 1)) ops [] = (rs, rb_contents n r') \<and>
    orun (qstep rb_put ringbuf_get) ops (ringbuf_init r d (of_nat (2 ^ n))) = Some (map rb_result rs, r') \<and>
    delivered rs @ rb_contents n r' = accepted ops rs \<and>
    ringbuf_elements r' = int (length (rb_contents n r')) \<and> ringbuf_size r' = 2 ^ n"
proof -
  obtain rs r' where r': "arun (qspec (2 ^ n - 1)) ops [] = (rs, rb_contents n r')"
    "orun (qstep rb_put ringbuf_get) ops (ringbuf_init r d (of_nat (2 ^ n))) = Some (map rb_result rs, r')"
    "rb_inv n r'" "delivered rs @ rb_contents n r' = accepted ops rs"
    using rb.fifo_run [of n _ ops] ringbuf_init_inv [OF assms, of r] by (metis append_Nil)
  have "unat (rmask r') = 2 ^ n - 1" using r'(3) by (simp add: rb_inv_def unat_mask_u8)
  then have "ringbuf_size r' = 2 ^ n"
    by (simp add: ringbuf_size_def uint_nat of_nat_diff)
  moreover have "ringbuf_elements r' = int (length (rb_contents n r'))"
    using rb_elements [OF r'(3)] by (simp add: ringbuf_elements_def rb_contents_def uint_nat)
  ultimately show ?thesis using r' by blast
qed

text \<open>Four bytes of storage hold three: the fourth put is refused and the fourth get finds nothing.\<close>

theorem ringbuf_fifo_witness:
  "\<exists>r'. orun (qstep rb_put ringbuf_get) [Put 7, Put 8, Put 9, Put 10, Get, Get, Get, Get, Put 11]
      (ringbuf_init \<lparr>rdata = [], rmask = 0, put_ptr = 0, get_ptr = 0\<rparr> [0, 0, 0, 0] (of_nat (2 ^ 2))) =
      Some ([1, 1, 1, 0, 7, 8, 9, -1, 1], r') \<and>
    rb_contents 2 r' = [11] \<and> ringbuf_elements r' = 1"
proof -
  let ?ops = "[Put 7, Put 8, Put 9, Put 10, Get, Get, Get, Get, Put 11]"
  have q: "arun (qspec (2 ^ 2 - 1)) ?ops [] =
      ([Accepted, Accepted, Accepted, Rejected, Item 7, Item 8, Item 9, Empty, Accepted], [11])" by simp
  have "map rb_result [Accepted, Accepted, Accepted, Rejected, Item 7, Item 8, Item 9, Empty, Accepted] =
      [1, 1, 1, 0, 7, 8, 9, -1, 1]" by simp
  with ringbuf_fifo [of 2 "[0, 0, 0, 0]" ?ops "\<lparr>rdata = [], rmask = 0, put_ptr = 0, get_ptr = 0\<rparr>"] q
  show ?thesis by (auto simp del: orun.simps dest!: sym [of "[11]"])
qed

end
