(* ===== verification/Memb.thy ===== *)
theory Memb
  imports Interfaces
begin

text \<open>
  The block allocator, \<open>core/lib/memb.c\<close>. Addresses are natural numbers: block
  \<open>i\<close> starts at \<open>mmem + i * msize\<close>. The reference counts are the \<open>count\<close> array;
  the API only ever makes them 0 or 1, which the invariant records, so the
  width of C's \<open>char\<close> does not matter.
\<close>

section \<open>State and operations\<close>

record memb =
  msize :: nat
  mnum :: nat
  mcount :: "int list"
  mmem :: nat
  mbytes :: "u8 list"

definition memb_init :: "memb \<Rightarrow> memb" where
  "memb_init m = m\<lparr>mcount := replicate (mnum m) 0 @ drop (mnum m) (mcount m),
     mbytes := replicate (msize m * mnum m) 0 @ drop (msize m * mnum m) (mbytes m)\<rparr>"

definition memb_alloc :: "memb \<Rightarrow> nat ptr \<times> memb" where
  "memb_alloc m =
     (case find (\<lambda>i. mcount m ! i = 0) [0..<mnum m] of
        Some i \<Rightarrow> (Some (mmem m + i * msize m), m\<lparr>mcount := (mcount m)[i := mcount m ! i + 1]\<rparr>)
      | None \<Rightarrow> (None, m))"

definition memb_free :: "nat \<Rightarrow> memb \<Rightarrow> int \<times> memb" where
  "memb_free ptr m =
     (case find (\<lambda>i. mmem m + i * msize m = ptr) [0..<mnum m] of
        Some i \<Rightarrow>
          (let m' = (if mcount m ! i > 0 then m\<lparr>mcount := (mcount m)[i := mcount m ! i - 1]\<rparr> else m)
           in (mcount m' ! i, m'))
      | None \<Rightarrow> (-1, m))"

definition memb_inmemb :: "memb \<Rightarrow> nat \<Rightarrow> int" where
  "memb_inmemb m ptr = c_bool (ptr \<ge> mmem m \<and> ptr < mmem m + mnum m * msize m)"

definition memb_numfree :: "memb \<Rightarrow> int" where
  "memb_numfree m = fold (\<lambda>i n. if mcount m ! i = 0 then n + 1 else n) [0..<mnum m] 0"

section \<open>Invariant and contract\<close>

definition memb_wf :: "memb \<Rightarrow> bool" where
  "memb_wf m \<longleftrightarrow> 0 < msize m \<and> length (mcount m) = mnum m"

definition memb_inv :: "nat \<Rightarrow> nat \<Rightarrow> nat \<Rightarrow> memb \<Rightarrow> bool" where
  "memb_inv base size' n m \<longleftrightarrow> memb_wf m \<and> mmem m = base \<and> msize m = size' \<and> mnum m = n \<and>
     set (mcount m) \<subseteq> {0, 1}"

definition memb_blocks :: "nat \<Rightarrow> nat \<Rightarrow> nat \<Rightarrow> nat set" where
  "memb_blocks base size' n = (\<lambda>i. base + i * size') ` {0..<n}"

definition memb_used :: "memb \<Rightarrow> nat set" where
  "memb_used m = (\<lambda>i. mmem m + i * msize m) ` {i. i < mnum m \<and> mcount m ! i \<noteq> 0}"

lemma memb_init_inv: "memb_wf m \<Longrightarrow> memb_inv (mmem m) (msize m) (mnum m) (memb_init m)"
  by (auto simp: memb_inv_def memb_init_def memb_wf_def)

lemma memb_init_used: "memb_wf m \<Longrightarrow> memb_used (memb_init m) = {}"
  by (auto simp: memb_used_def memb_init_def memb_wf_def nth_append)

lemma find_upt_Some: "find P [0..<n] = Some i \<Longrightarrow> i < n \<and> P i"
  by (auto simp: find_Some_iff)

lemma find_upt_None: "find P [0..<n] = None \<Longrightarrow> i < n \<Longrightarrow> \<not> P i"
  by (auto simp: find_None_iff)

lemma block_inj: "0 < msize m \<Longrightarrow> mmem m + i * msize m = mmem m + j * msize m \<Longrightarrow> i = j"
  by simp

lemma memb_alloc_Some:
  assumes inv: "memb_inv base size' n m" and a: "memb_alloc m = (Some p, m')"
  shows "p \<in> memb_blocks base size' n \<and> p \<notin> memb_used m \<and>
    memb_used m' = insert p (memb_used m) \<and> memb_inv base size' n m'"
proof -
  from a obtain i where i: "find (\<lambda>i. mcount m ! i = 0) [0..<mnum m] = Some i"
    "p = mmem m + i * msize m" "m' = m\<lparr>mcount := (mcount m)[i := mcount m ! i + 1]\<rparr>"
    by (auto simp: memb_alloc_def split: option.splits)
  from find_upt_Some [OF i(1)] have lt: "i < mnum m" and z: "mcount m ! i = 0" by auto
  have s: "0 < msize m" "length (mcount m) = mnum m" "mmem m = base" "msize m = size'" "mnum m = n"
    using inv by (auto simp: memb_inv_def memb_wf_def)
  have "p \<notin> memb_used m" using z s(1) i(2) by (auto simp: memb_used_def)
  moreover have "memb_used m' = insert p (memb_used m)"
    using lt z s i(2,3) by (auto simp: memb_used_def nth_list_update)
  moreover have "memb_inv base size' n m'"
    using inv i(3) z set_update_subset_insert [of "mcount m" i 1] by (auto simp: memb_inv_def memb_wf_def)
  ultimately show ?thesis using lt s i(2) by (auto simp: memb_blocks_def)
qed

lemma memb_alloc_None:
  assumes "memb_inv base size' n m" and "memb_alloc m = (None, m')"
  shows "m' = m \<and> memb_used m = memb_blocks base size' n"
proof -
  have n: "find (\<lambda>i. mcount m ! i = 0) [0..<mnum m] = None" and "m' = m"
    using assms(2) by (auto simp: memb_alloc_def split: option.splits)
  with find_upt_None [OF n] assms(1) show ?thesis
    by (auto simp: memb_used_def memb_blocks_def memb_inv_def)
qed

lemma memb_free_used:
  assumes inv: "memb_inv base size' n m"
  shows "memb_inv base size' n (snd (memb_free p m)) \<and> memb_used (snd (memb_free p m)) = memb_used m - {p}"
proof (cases "find (\<lambda>i. mmem m + i * msize m = p) [0..<mnum m]")
  case None
  with find_upt_None [OF None] inv show ?thesis
    by (auto simp: memb_free_def memb_used_def)
next
  case (Some i)
  have s: "0 < msize m" "length (mcount m) = mnum m" "set (mcount m) \<subseteq> {0, 1}"
    using inv by (auto simp: memb_inv_def memb_wf_def)
  from find_upt_Some [OF Some] have i: "i < mnum m" "p = mmem m + i * msize m" by auto
  then have "mcount m ! i \<in> set (mcount m)" using s(2) by (metis nth_mem)
  then have c: "mcount m ! i = 0 \<or> mcount m ! i = 1" using s(3) by auto
  show ?thesis
  proof (cases "mcount m ! i = 0")
    case True
    with Some i inv s show ?thesis by (auto simp: memb_free_def memb_used_def)
  next
    case False
    let ?m = "m\<lparr>mcount := (mcount m)[i := 0]\<rparr>"
    have m: "snd (memb_free p m) = ?m" using c False Some by (simp add: memb_free_def Let_def)
    have "memb_inv base size' n ?m"
      using inv set_update_subset_insert [of "mcount m" i 0] by (auto simp: memb_inv_def memb_wf_def)
    moreover have "memb_used ?m = memb_used m - {p}"
      using i s by (auto simp: memb_used_def nth_list_update)
    ultimately show ?thesis using m by simp
  qed
qed

interpretation mb: block_allocator memb_alloc memb_free memb_used "memb_inv base size' n"
    "memb_blocks base size' n" for base size' n
proof unfold_locales
  show "memb_used s \<subseteq> memb_blocks base size' n" if "memb_inv base size' n s" for s
    using that by (auto simp: memb_used_def memb_blocks_def memb_inv_def)
qed (use memb_alloc_Some memb_alloc_None memb_free_used in blast)+

lemma fold_count: "fold (\<lambda>i n. if P i then n + 1 else n) xs (k :: int) = k + int (length (filter P xs))"
  by (induction xs arbitrary: k) auto

lemma memb_numfree_used:
  assumes "memb_inv base size' n m"
  shows "memb_numfree m = int n - int (card (memb_used m))"
proof -
  have s: "0 < msize m" "mnum m = n" using assms by (auto simp: memb_inv_def memb_wf_def)
  have "card (memb_used m) = card {i. i < n \<and> mcount m ! i \<noteq> 0}"
    using s by (simp add: memb_used_def card_image inj_on_def)
  also have "\<dots> = length (filter (\<lambda>i. mcount m ! i \<noteq> 0) [0..<n])"
    by (simp add: distinct_length_filter Int_def conj_commute)
  finally have "card (memb_used m) = \<dots>" .
  moreover have "length (filter (\<lambda>i. mcount m ! i = 0) [0..<n]) +
      length (filter (\<lambda>i. mcount m ! i \<noteq> 0) [0..<n]) = n"
    by (metis diff_zero length_upt sum_length_filter_compl)
  ultimately show ?thesis using s by (simp add: memb_numfree_def fold_count)
qed

lemma blocks_disjoint:
  assumes "p \<in> memb_blocks base size' n" and "q \<in> memb_blocks base size' n" and "p \<noteq> q"
  shows "p + size' \<le> q \<or> q + size' \<le> p"
proof -
  obtain i j where ij: "p = base + i * size'" "q = base + j * size'"
    using assms(1,2) by (auto simp: memb_blocks_def)
  with assms(3) have "i < j \<or> j < i" by auto
  then show ?thesis
  proof
    assume "i < j"
    then have "Suc i * size' \<le> j * size'" by (intro mult_le_mono1) simp
    with ij show ?thesis by simp
  next
    assume "j < i"
    then have "Suc j * size' \<le> i * size'" by (intro mult_le_mono1) simp
    with ij show ?thesis by simp
  qed
qed

text \<open>
  C29. Take any sequence of allocations and releases after \<open>memb_init\<close>, also
  releases of wrong pointers or of blocks already released, and call a block
  live when the sequence handed it out and has not released it since; the
  counts play no part in this. An allocation then returns the start of a block
  of the region that is not live and overlaps no live block, and returns NULL
  only when all \<open>num\<close> blocks are live. The number of free blocks reported is
  the number of blocks not live, before and after the allocation.
\<close>

theorem memb_alloc_safe:
  assumes wf: "memb_wf m"
    and run: "arun (alloc_step memb_alloc memb_free) ops (memb_init m) = (rs, m1)"
    and L: "L = live ops rs {}"
  shows "memb_numfree m1 = int (mnum m) - int (card L) \<and>
    (case memb_alloc m1 of
      (Some p, m2) \<Rightarrow> (\<exists>i < mnum m. p = mmem m + i * msize m) \<and> p + msize m \<le> mmem m + mnum m * msize m \<and>
        p \<notin> L \<and> (\<forall>q \<in> L. p + msize m \<le> q \<or> q + msize m \<le> p) \<and> memb_numfree m2 = memb_numfree m1 - 1
    | (None, m2) \<Rightarrow> m2 = m1 \<and> L = (\<lambda>i. mmem m + i * msize m) ` {0..<mnum m})"
proof -
  let ?inv = "memb_inv (mmem m) (msize m) (mnum m)"
  note init = memb_init_inv [OF wf]
  have i1: "?inv m1" using mb.run_inv [OF init, of ops] run by simp
  have used: "memb_used m1 = L"
    using mb.run_live [OF init, of ops] run L memb_init_used [OF wf] by simp
  have fin: "finite (memb_used m1)" by (simp add: memb_used_def)
  have free: "memb_numfree m1 = int (mnum m) - int (card L)"
    using memb_numfree_used [OF i1] used by simp
  obtain r m2 where a: "memb_alloc m1 = (r, m2)" by force
  show ?thesis
  proof (cases r)
    case None
    with a mb.alloc_None [OF i1] free used show ?thesis by (simp add: memb_blocks_def)
  next
    case (Some p)
    note al = mb.alloc_Some [OF i1 a [unfolded Some]]
    then obtain i where i: "i < mnum m" "p = mmem m + i * msize m" by (auto simp: memb_blocks_def)
    then have "Suc i * msize m \<le> mnum m * msize m" by (intro mult_le_mono1) simp
    moreover have "p + msize m \<le> q \<or> q + msize m \<le> p" if "q \<in> L" for q
      using that al mb.used_blocks [OF i1] used by (intro blocks_disjoint) auto
    moreover have "memb_numfree m2 = memb_numfree m1 - 1"
      using al memb_numfree_used [OF i1] memb_numfree_used [of _ _ _ m2] fin by fastforce
    ultimately show ?thesis using a Some al i free used by auto
  qed
qed

text \<open>
  Of three blocks the second is released, twice, and a pointer into the middle
  of the first as well: the second block is handed out again, the others stay.
\<close>

definition memb3 :: memb where
  "memb3 = \<lparr>msize = 8, mnum = 3, mcount = [5, 0, 1], mmem = 100, mbytes = []\<rparr>"

theorem memb_alloc_safe_witness:
  "\<exists>rs m1. arun (alloc_step memb_alloc memb_free) [Alloc, Alloc, Alloc, Free 108, Free 108, Free 104]
      (memb_init memb3) = (rs, m1) \<and> live [Alloc, Alloc, Alloc, Free 108, Free 108, Free 104] rs {} = {100, 116} \<and>
    memb_numfree m1 = 1 \<and> (case memb_alloc m1 of (Some p, m2) \<Rightarrow> p = 108 | (None, m2) \<Rightarrow> False)"
proof -
  let ?ops = "[Alloc, Alloc, Alloc, Free 108, Free 108, Free 104]"
  obtain rs m1 where r: "arun (alloc_step memb_alloc memb_free) ?ops (memb_init memb3) = (rs, m1)" by force
  have "fst (arun (alloc_step memb_alloc memb_free) ?ops (memb_init memb3)) =
      [Some 100, Some 108, Some 116, None, None, None]" by code_simp
  with r have l: "{100, 116} = live ?ops rs {}" by auto
  have w: "memb_wf memb3" by (simp add: memb_wf_def memb3_def)
  note safe = memb_alloc_safe [OF w r l]
  then have free: "memb_numfree m1 = 1" by (simp add: memb3_def)
  obtain a m2 where a: "memb_alloc m1 = (a, m2)" by force
  have "a = Some 108"
  proof (cases a)
    case None
    with safe a have "{100, 116} = (\<lambda>i. mmem memb3 + i * msize memb3) ` {0..<mnum memb3}" by simp
    moreover have "108 \<in> (\<lambda>i. mmem memb3 + i * msize memb3) ` {0..<mnum memb3}"
      by (rule image_eqI [of _ _ 1]) (simp_all add: memb3_def)
    ultimately have "(108 :: nat) \<in> {100, 116}" by simp
    then show ?thesis by simp
  next
    case (Some p)
    with safe a obtain i where "i < 3" "p = 100 + i * 8" "p \<notin> {100, 116}" by (auto simp: memb3_def)
    moreover from this have "i = 1" by (auto simp: less_Suc_eq numeral_3_eq_3)
    ultimately show ?thesis using Some by simp
  qed
  with r l free a show ?thesis by (intro exI [of _ rs] exI [of _ m1]) (simp del: live.simps arun.simps)
qed

end
