(* ===== verification/Mmem.thy ===== *)
theory Mmem
  imports Lists
begin

text \<open>
  The managed memory allocator, \<open>core/lib/mmem.c\<close>: blocks live back to back
  in one array and are moved down when a block before them is freed. The
  \<open>struct mmem\<close> records are the elements of a linked list; their \<open>size\<close> and
  \<open>ptr\<close> fields are maps from the record to its value, a pointer being its
  offset in the array. An access outside the array, or a pointer moved below
  it, is undefined in C and is \<^term>\<open>None\<close> here.
\<close>

section \<open>State and operations\<close>

definition MMEM_SIZE :: nat where
  "MMEM_SIZE = 4096"

record 'p mmem_state =
  mmemlist :: "'p clist"
  mm_size :: "'p \<Rightarrow> nat"
  mm_ptr :: "'p \<Rightarrow> nat"
  avail_memory :: nat
  memory :: "u8 list"
  inited :: bool

definition mmem_alloc :: "'p \<Rightarrow> nat \<Rightarrow> 'p mmem_state \<Rightarrow> (int \<times> 'p mmem_state) option" where
  "mmem_alloc m size' s =
     (if avail_memory s < size' then Some (0, s)
      else do {
        l \<leftarrow> list_add (mmemlist s) m;
        Some (1, s\<lparr>mmemlist := l,
                   mm_ptr := (mm_ptr s)(m := MMEM_SIZE - avail_memory s),
                   mm_size := (mm_size s)(m := size'),
                   avail_memory := avail_memory s - size'\<rparr>)
      })"

text \<open>\<open>memmove\<close> of the C library, on a buffer that holds both areas.\<close>

definition memmove :: "nat \<Rightarrow> nat \<Rightarrow> nat \<Rightarrow> u8 list \<Rightarrow> u8 list option" where
  "memmove dst src n mem =
     (if dst + n \<le> length mem \<and> src + n \<le> length mem
      then Some (take dst mem @ take n (drop src mem) @ drop (dst + n) mem) else None)"

partial_function (option) shift_loop ::
  "('p \<Rightarrow> 'p ptr) \<Rightarrow> nat \<Rightarrow> 'p ptr \<Rightarrow> ('p \<Rightarrow> nat) \<Rightarrow> ('p \<Rightarrow> nat) option" where
  "shift_loop nx sz n ptrs = (case n of
       None \<Rightarrow> Some ptrs
     | Some x \<Rightarrow> if ptrs x < sz then None
                else shift_loop nx sz (nx x) (ptrs(x := ptrs x - sz)))"

definition mmem_free :: "'p \<Rightarrow> 'p mmem_state \<Rightarrow> 'p mmem_state option" where
  "mmem_free m s = do {
     s1 \<leftarrow> (case lnext (mmemlist s) m of
         None \<Rightarrow> Some s
       | Some n \<Rightarrow> do {
           mem \<leftarrow> memmove (mm_ptr s m) (mm_ptr s n)
             ((MMEM_SIZE - avail_memory s) - mm_ptr s n) (memory s);
           ptrs \<leftarrow> shift_loop (lnext (mmemlist s)) (mm_size s m) (Some n) (mm_ptr s);
           Some (s\<lparr>memory := mem, mm_ptr := ptrs\<rparr>)
         });
     let s2 = s1\<lparr>avail_memory := avail_memory s1 + mm_size s1 m\<rparr>;
     l \<leftarrow> list_remove (mmemlist s2) m;
     Some (s2\<lparr>mmemlist := l\<rparr>)
   }"

definition mmem_init :: "'p mmem_state \<Rightarrow> 'p mmem_state" where
  "mmem_init s =
     (if inited s then s
      else s\<lparr>mmemlist := list_init (mmemlist s), avail_memory := MMEM_SIZE, inited := True\<rparr>)"

section \<open>Layout invariant\<close>

text \<open>The blocks of the list tile the array from offset \<open>off\<close> to \<open>stop\<close>.\<close>

fun tiles :: "('p \<Rightarrow> nat) \<Rightarrow> ('p \<Rightarrow> nat) \<Rightarrow> nat \<Rightarrow> 'p list \<Rightarrow> nat \<Rightarrow> bool" where
  "tiles ptrs szs off [] stop = (off = stop)"
| "tiles ptrs szs off (x # xs) stop = (ptrs x = off \<and> tiles ptrs szs (off + szs x) xs stop)"

definition mmem_inv :: "'p mmem_state \<Rightarrow> 'p list \<Rightarrow> bool" where
  "mmem_inv s xs \<longleftrightarrow> lrep (mmemlist s) xs \<and> avail_memory s \<le> MMEM_SIZE \<and>
     length (memory s) = MMEM_SIZE \<and>
     tiles (mm_ptr s) (mm_size s) 0 xs (MMEM_SIZE - avail_memory s)"

definition mmem_block :: "'p mmem_state \<Rightarrow> 'p \<Rightarrow> u8 list" where
  "mmem_block s x = take (mm_size s x) (drop (mm_ptr s x) (memory s))"

lemma tiles_append: "tiles p z off (xs @ ys) stop =
    (\<exists>mid. tiles p z off xs mid \<and> tiles p z mid ys stop)"
  by (induction xs arbitrary: off) auto

lemma tiles_cong: "(\<And>x. x \<in> set xs \<Longrightarrow> p x = p' x \<and> z x = z' x) \<Longrightarrow>
    tiles p z off xs stop = tiles p' z' off xs stop"
  by (induction xs arbitrary: off) auto

lemma tiles_mono: "tiles p z off xs stop \<Longrightarrow> off \<le> stop"
  by (induction xs arbitrary: off) force+

lemma tiles_range: "tiles p z off xs stop \<Longrightarrow> x \<in> set xs \<Longrightarrow> off \<le> p x \<and> p x + z x \<le> stop"
proof (induction xs arbitrary: off)
  case Nil
  then show ?case by simp
next
  case (Cons y ys)
  then show ?case using tiles_mono [of p z "off + z y" ys stop] Cons.IH [of "off + z y"] by fastforce
qed

lemma tiles_shift: "tiles p z (off + d) xs (stop + d) \<Longrightarrow>
    (\<And>x. x \<in> set xs \<Longrightarrow> p' x = p x - d) \<Longrightarrow> tiles p' z off xs stop"
  by (induction xs arbitrary: off) (auto simp: add.commute add.left_commute)

lemma shift_loop_seg:
  "seg nx n xs None \<Longrightarrow> distinct xs \<Longrightarrow> (\<And>x. x \<in> set xs \<Longrightarrow> sz \<le> ptrs x) \<Longrightarrow>
   shift_loop nx sz n ptrs = Some (\<lambda>x. if x \<in> set xs then ptrs x - sz else ptrs x)"
proof (induction xs arbitrary: n ptrs)
  case Nil
  then show ?case by (simp add: shift_loop.simps)
next
  case (Cons x xs)
  have "shift_loop nx sz (nx x) (ptrs(x := ptrs x - sz)) =
      Some (\<lambda>y. if y \<in> set xs then (ptrs(x := ptrs x - sz)) y - sz else (ptrs(x := ptrs x - sz)) y)"
    using Cons.prems by (intro Cons.IH) auto
  moreover have "\<dots> = Some (\<lambda>y. if y \<in> set (x # xs) then ptrs y - sz else ptrs y)"
    using Cons.prems(2) by (auto simp: fun_eq_iff)
  moreover have "\<not> ptrs x < sz" using Cons.prems(3) [of x] by simp
  ultimately show ?case
    using Cons.prems(1) by (subst shift_loop.simps) simp
qed

section \<open>Correctness\<close>

lemma mmem_init_inv:
  "\<not> inited s \<Longrightarrow> length (memory s) = MMEM_SIZE \<Longrightarrow> mmem_inv (mmem_init s) []"
  by (simp add: mmem_inv_def mmem_init_def list_init_rep)

text \<open>
  C30. An allocation that fits takes the requested bytes right after the blocks
  in use, inside the array, and leaves the contents of the other blocks alone;
  one that does not fit returns 0 and changes nothing.
\<close>

theorem mmem_alloc_correct:
  assumes inv: "mmem_inv s xs" and new: "m \<notin> set xs"
  shows "if avail_memory s < n then mmem_alloc m n s = Some (0, s)
    else \<exists>s'. mmem_alloc m n s = Some (1, s') \<and> mmem_inv s' (xs @ [m]) \<and>
      length (mmem_block s' m) = n \<and> avail_memory s' + n = avail_memory s \<and>
      (\<forall>x \<in> set xs. mmem_block s' x = mmem_block s x)"
proof (cases "avail_memory s < n")
  case True
  then show ?thesis by (simp add: mmem_alloc_def)
next
  case False
  let ?stop = "MMEM_SIZE - avail_memory s"
  obtain l where l: "list_add (mmemlist s) m = Some l" "lrep l (xs @ [m])"
    using list_add_rep [of "mmemlist s" xs m] inv new by (auto simp: mmem_inv_def remove1_idem)
  let ?s' = "s\<lparr>mmemlist := l, mm_ptr := (mm_ptr s)(m := ?stop), mm_size := (mm_size s)(m := n),
    avail_memory := avail_memory s - n\<rparr>"
  have "tiles ((mm_ptr s)(m := ?stop)) ((mm_size s)(m := n)) 0 xs ?stop"
    using inv new by (subst tiles_cong [of xs _ "mm_ptr s" _ "mm_size s"]) (auto simp: mmem_inv_def)
  then have "mmem_inv ?s' (xs @ [m])"
    using inv l(2) False by (auto simp: mmem_inv_def tiles_append)
  moreover have "length (mmem_block ?s' m) = n"
    using inv False by (auto simp: mmem_block_def mmem_inv_def)
  moreover have "\<forall>x \<in> set xs. mmem_block ?s' x = mmem_block s x"
    using new by (auto simp: mmem_block_def)
  ultimately show ?thesis
    using False l(1) by (auto simp: mmem_alloc_def)
qed

theorem mmem_alloc_correct_witness:
  "\<exists>s'. mmem_alloc (1 :: nat) 10 (mmem_init \<lparr>mmemlist = \<lparr>lhead = None, lnext = \<lambda>_. None\<rparr>,
      mm_size = \<lambda>_. 0, mm_ptr = \<lambda>_. 0, avail_memory = 0, memory = replicate MMEM_SIZE 0, inited = False\<rparr>)
    = Some (1, s') \<and> mmem_inv s' [1] \<and> length (mmem_block s' 1) = 10"
proof -
  let ?s = "\<lparr>mmemlist = \<lparr>lhead = None, lnext = \<lambda>_. None\<rparr>, mm_size = \<lambda>_. 0, mm_ptr = \<lambda>_. 0,
      avail_memory = 0, memory = replicate MMEM_SIZE 0, inited = False\<rparr> :: nat mmem_state"
  have i: "mmem_inv (mmem_init ?s) []" by (rule mmem_init_inv) simp_all
  have a: "avail_memory (mmem_init ?s) = 4096" by (simp add: mmem_init_def MMEM_SIZE_def)
  show ?thesis
    using mmem_alloc_correct [OF i, of 1 10] by (simp only: a) auto
qed

lemma memmove_Some: "dst + n \<le> length mem \<Longrightarrow> src + n \<le> length mem \<Longrightarrow>
    \<exists>mem'. memmove dst src n mem = Some mem'"
  by (simp add: memmove_def)

lemma memmove_block:
  assumes "memmove dst src n mem = Some mem'" and "dst \<le> src"
    and "src \<le> p" and "p + k \<le> src + n"
  shows "take k (drop (p - (src - dst)) mem') = take k (drop p mem)"
proof -
  have m: "mem' = take dst mem @ take n (drop src mem) @ drop (dst + n) mem"
    and len: "dst + n \<le> length mem" "src + n \<le> length mem"
    using assms(1) by (auto simp: memmove_def split: if_splits)
  let ?o = "p - src"
  have "p - (src - dst) = dst + ?o" using assms(2,3) by simp
  then have "drop (p - (src - dst)) mem' = drop ?o (take n (drop src mem) @ drop (dst + n) mem)"
    using m len by simp
  moreover have "k \<le> length (drop ?o (take n (drop src mem)))"
    using assms(3,4) len by simp
  ultimately have "take k (drop (p - (src - dst)) mem') = take k (drop ?o (take n (drop src mem)))"
    using assms(3,4) len by simp
  also have "\<dots> = take k (drop p mem)"
    using assms(3,4) by (simp add: drop_take min_def)
  finally show ?thesis .
qed

lemma memmove_below:
  assumes "memmove dst src n mem = Some mem'" and "p + k \<le> dst"
  shows "take k (drop p mem') = take k (drop p mem)"
  using assms by (auto simp: memmove_def drop_take min_def split: if_splits)

text \<open>
  C23. Freeing a block of the list always returns, removes exactly that block,
  gives its bytes back, closes the gap it leaves, and keeps the contents of
  every other block although the blocks above it have moved.
\<close>

theorem mmem_free_correct:
  assumes inv: "mmem_inv s (us @ m # vs)"
  shows "\<exists>s'. mmem_free m s = Some s' \<and> mmem_inv s' (us @ vs) \<and>
    avail_memory s' = avail_memory s + mm_size s m \<and>
    (\<forall>x \<in> set (us @ vs). mmem_block s' x = mmem_block s x)"
proof -
  let ?stop = "MMEM_SIZE - avail_memory s" and ?nx = "lnext (mmemlist s)"
    and ?sz = "mm_size s m" and ?p = "mm_ptr s m"
  have rep: "lrep (mmemlist s) (us @ m # vs)" and av: "avail_memory s \<le> MMEM_SIZE"
    and len: "length (memory s) = MMEM_SIZE"
    and us: "tiles (mm_ptr s) (mm_size s) 0 us ?p"
    and vs: "tiles (mm_ptr s) (mm_size s) (?p + ?sz) vs ?stop"
    using inv by (auto simp: mmem_inv_def tiles_append)
  have dist: "m \<notin> set us" "m \<notin> set vs" "distinct vs" "set us \<inter> set vs = {}"
    using lrep_distinct [OF rep] by auto
  have le: "?p + ?sz \<le> ?stop" by (rule tiles_mono [OF vs])
  obtain l where l: "list_remove (mmemlist s) m = Some l" "lrep l (us @ vs)"
    using list_remove_rep [OF rep, of m] dist by (auto simp: remove1_append)
  show ?thesis
  proof (cases vs)
    case Nil
    let ?s' = "s\<lparr>avail_memory := avail_memory s + ?sz, mmemlist := l\<rparr>"
    have "mmem_free m s = Some ?s'"
      using lrep_next [OF rep] Nil l(1) by (simp add: mmem_free_def)
    moreover have "MMEM_SIZE - (avail_memory s + ?sz) = ?p" "avail_memory s + ?sz \<le> MMEM_SIZE"
      using vs Nil av by auto
    then have "mmem_inv ?s' (us @ vs)"
      using Nil l(2) us len by (simp add: mmem_inv_def)
    ultimately show ?thesis by (auto simp: mmem_block_def)
  next
    case (Cons n ws)
    let ?ptrs = "\<lambda>x. if x \<in> set vs then mm_ptr s x - ?sz else mm_ptr s x"
    have nx: "?nx m = Some n" and n: "mm_ptr s n = ?p + ?sz"
      using lrep_next [OF rep] Cons vs by simp_all
    obtain mem where mem: "memmove ?p (?p + ?sz) (?stop - (?p + ?sz)) (memory s) = Some mem"
    proof -
      have "?p + (?stop - (?p + ?sz)) \<le> length (memory s)"
        "?p + ?sz + (?stop - (?p + ?sz)) \<le> length (memory s)"
        using le len by linarith+
      from memmove_Some [OF this] that show thesis by blast
    qed
    have lmem: "length mem = MMEM_SIZE"
      using mem len by (auto simp: memmove_def split: if_splits)
    have range: "?p + ?sz \<le> mm_ptr s x \<and> mm_ptr s x + mm_size s x \<le> ?stop" if "x \<in> set vs" for x
      by (rule tiles_range [OF vs that])
    have "seg ?nx (Some n) vs None"
      using rep Cons by (auto simp: lrep_def seg_append)
    then have shift: "shift_loop ?nx ?sz (Some n) (mm_ptr s) = Some ?ptrs"
      using dist range by (intro shift_loop_seg) fastforce+
    let ?s' = "s\<lparr>memory := mem, mm_ptr := ?ptrs, avail_memory := avail_memory s + ?sz, mmemlist := l\<rparr>"
    have "mmem_free m s = Some ?s'"
      using nx n mem shift l(1) by (simp add: mmem_free_def)
    moreover have "mmem_inv ?s' (us @ vs)"
    proof -
      have "tiles ?ptrs (mm_size s) 0 us ?p"
        using us dist(4) by (subst tiles_cong [of us _ "mm_ptr s" _ "mm_size s"]) auto
      moreover have "tiles ?ptrs (mm_size s) ?p vs (?stop - ?sz)"
      proof -
        have "?stop - ?sz + ?sz = ?stop" using le by linarith
        with vs have "tiles (mm_ptr s) (mm_size s) (?p + ?sz) vs (?stop - ?sz + ?sz)" by (simp only:)
        then show ?thesis by (rule tiles_shift) simp
      qed
      ultimately have "tiles ?ptrs (mm_size s) 0 (us @ vs) (?stop - ?sz)"
        unfolding tiles_append by blast
      moreover have "?stop - ?sz = MMEM_SIZE - (avail_memory s + ?sz)" "avail_memory s + ?sz \<le> MMEM_SIZE"
        using le av by linarith+
      ultimately show ?thesis
        using l(2) lmem by (simp add: mmem_inv_def)
    qed
    moreover have "mmem_block ?s' x = mmem_block s x" if "x \<in> set us" for x
      using memmove_below [OF mem] tiles_range [OF us that] that dist(4) by (auto simp: mmem_block_def)
    moreover have "mmem_block ?s' x = mmem_block s x" if "x \<in> set vs" for x
    proof -
      have "?p + ?sz + (?stop - (?p + ?sz)) = ?stop" using le by linarith
      then have "take (mm_size s x) (drop (mm_ptr s x - ((?p + ?sz) - ?p)) mem) = mmem_block s x"
        unfolding mmem_block_def using range [OF that] by (intro memmove_block [OF mem]) simp_all
      with that show ?thesis by (simp add: mmem_block_def)
    qed
    ultimately show ?thesis by auto
  qed
qed

theorem mmem_free_correct_witness:
  "\<exists>s s'. mmem_inv s [1 :: nat, 2] \<and> mmem_free 1 s = Some s' \<and> mmem_inv s' [2] \<and>
     mmem_block s' 2 = mmem_block s 2 \<and> mm_ptr s 2 = 10"
proof -
  let ?s = "\<lparr>mmemlist = \<lparr>lhead = Some 1, lnext = (\<lambda>_. None)(1 := Some 2)\<rparr>,
      mm_size = (\<lambda>_. 10), mm_ptr = (\<lambda>_. 0)(2 := 10), avail_memory = MMEM_SIZE - 20,
      memory = replicate MMEM_SIZE 7, inited = True\<rparr> :: nat mmem_state"
  have "mmem_inv ?s ([] @ 1 # [2])"
    by (simp add: mmem_inv_def lrep_def MMEM_SIZE_def)
  note i = this
  obtain s' where "mmem_free 1 ?s = Some s'" "mmem_inv s' ([] @ [2])" "mmem_block s' 2 = mmem_block ?s 2"
    using mmem_free_correct [OF i] by (metis append_Nil list.set_intros(1))
  with i show ?thesis
    by (intro exI [of _ ?s] exI [of _ s']) simp
qed

end
