(* ===== verification/Crc16.thy ===== *)
theory Crc16
  imports Prelude
begin

text \<open>
  The checksum of \<open>core/lib/crc16.c\<close>. \<open>unsigned char\<close> and \<open>unsigned short\<close> are 8
  and 16 bit words; C computes the shifts in \<open>int\<close> and truncates on assignment,
  which on these operands is the 16-bit operation.
\<close>

definition crc16_add :: "u8 \<Rightarrow> u16 \<Rightarrow> u16" where
  "crc16_add b acc =
     (let acc = acc XOR ucast b;
          acc = drop_bit 8 acc OR push_bit 8 acc;
          acc = acc XOR push_bit 4 (acc AND 0xff00);
          acc = acc XOR drop_bit 4 (drop_bit 8 acc);
          acc = acc XOR drop_bit 5 (acc AND 0xff00)
      in acc)"

definition crc16_data :: "u8 list \<Rightarrow> u16 \<Rightarrow> u16" where
  "crc16_data data acc = fold crc16_add data acc"

text \<open>
  The reference: the polynomial \<open>x^16 + x^12 + x^5 + 1\<close> divided bit by bit,
  least significant bit first.
\<close>

definition crc_bit :: "u16 \<Rightarrow> u16" where
  "crc_bit x = (if bit x 0 then drop_bit 1 x XOR 0x8408 else drop_bit 1 x)"

definition crc_byte :: "u8 \<Rightarrow> u16 \<Rightarrow> u16" where
  "crc_byte b acc = (crc_bit ^^ 8) (acc XOR ucast b)"

lemma bit_0x8408: "bit (0x8408 :: u16) n = (n = 3 \<or> n = 10 \<or> n = 15)"
proof (cases "n < 16")
  case True
  from less_16 [OF this] show ?thesis by (elim disjE) simp_all
qed (auto dest: bit_u16_less)

lemma bit_crc_bit: "bit (crc_bit x) n = (bit x (n + 1) \<noteq> (bit x 0 \<and> (n = 3 \<or> n = 10 \<or> n = 15)))"
  by (cases "bit x 0") (simp_all only: crc_bit_def bit_ops bit_0x8408 if_True if_False, auto)

lemma funpow8: "(f ^^ 8) x = f (f (f (f (f (f (f (f x)))))))"
  by (simp add: numeral_eq_Suc)


lemma crc16_add_bits: "bit (crc16_add b acc) n = bit (crc_byte b acc) n" if "n < 16"
  using less_16 [OF that]
  by (elim disjE;
      simp only: crc16_add_def crc_byte_def funpow8 bit_crc_bit bit_ops bit_0xff00 Let_def;
      simp add: bit_u16_ge bit_u8_ge; (simp add: numeral_eq_Suc)?; argo?)

lemma crc16_add_reference: "crc16_add b acc = crc_byte b acc"
  by (rule bit_word_eqI) (simp add: crc16_add_bits)

lemma crc_bit_inj: "crc_bit x = crc_bit y \<Longrightarrow> x = y"
proof -
  assume e: "crc_bit x = crc_bit y"
  have h: "bit (crc_bit z) 15 = bit z 0" for z
    using bit_crc_bit [of z 15] bit_u16_ge [of 16 z] by simp
  have z: "bit x 0 = bit y 0" using h [of x] h [of y] e by simp
  have "bit x n = bit y n" for n
    using z bit_crc_bit [of x "n - 1"] bit_crc_bit [of y "n - 1"] e by (cases n) auto
  then show ?thesis by (auto intro: bit_word_eqI)
qed

lemma crc_byte_inj: "crc_byte b x = crc_byte c y \<Longrightarrow> x XOR ucast b = y XOR ucast c"
  by (simp only: crc_byte_def funpow8) (auto dest!: crc_bit_inj)

lemma crc16_add_inj_acc: "crc16_add b x = crc16_add b y \<Longrightarrow> x = y"
  by (auto simp: crc16_add_reference dest!: crc_byte_inj xor_cancel_right)

lemma crc16_add_inj_byte: "crc16_add b x = crc16_add c x \<Longrightarrow> b = c"
proof -
  assume "crc16_add b x = crc16_add c x"
  then have "ucast b = (ucast c :: u16)"
    using crc_byte_inj [of b x c x] by (metis crc16_add_reference xor.commute xor_cancel_right)
  then have e: "bit (ucast b :: u16) n = bit (ucast c :: u16) n" for n by simp
  have "bit b n = bit c n" if "n < 8" for n
    using e [of n] that by (simp add: bit_unsigned_iff)
  then show "b = c" by (auto intro!: bit_word_eqI)
qed

lemma crc16_data_inj: "crc16_data ds x = crc16_data ds y \<Longrightarrow> x = y"
  by (induction ds arbitrary: x y) (auto simp: crc16_data_def dest: crc16_add_inj_acc)

lemma crc_bit_even: "\<not> bit x 0 \<Longrightarrow> crc_bit x = drop_bit 1 x"
  by (simp add: crc_bit_def)

lemma crc_low_zero: "(\<And>i. i < k \<Longrightarrow> \<not> bit x i) \<Longrightarrow> (crc_bit ^^ k) x = drop_bit k x"
proof (induction k)
  case 0
  then show ?case by simp
next
  case (Suc k)
  then have "\<not> bit (drop_bit k x) 0" by (simp add: bit_drop_bit_eq)
  with Suc show ?case by (simp add: crc_bit_even)
qed

lemma crc_bit_linear: "crc_bit (x XOR y) = crc_bit x XOR crc_bit y"
  by (rule bit_word_eqI) (auto simp: bit_crc_bit bit_xor_iff)

lemma crc_bits_linear: "(crc_bit ^^ k) (x XOR y) = (crc_bit ^^ k) x XOR (crc_bit ^^ k) y"
  by (induction k arbitrary: x y) (simp_all add: crc_bit_linear)

lemma crc_bits_0: "(crc_bit ^^ k) 0 = 0"
  by (induction k) (simp_all add: crc_bit_def)

lemma crc_bits_inj: "(crc_bit ^^ k) x = (crc_bit ^^ k) y \<Longrightarrow> x = y"
  by (induction k arbitrary: x y) (auto dest: crc_bit_inj)

lemma crc16_two_bytes:
  "crc16_add c (crc16_add b acc) = (crc_bit ^^ 16) (acc XOR ucast b XOR push_bit 8 (ucast c))"
proof -
  have "(crc_bit ^^ 8) (push_bit 8 (ucast c)) = ucast c"
  proof -
    have "(crc_bit ^^ 8) (push_bit 8 (ucast c)) = drop_bit 8 (push_bit 8 (ucast c :: u16))"
      by (rule crc_low_zero) (simp only: bit_push_bit_iff, auto)
    also have "\<dots> = ucast c"
      by (rule bit_word_eqI) (simp only: bit_ops, auto dest: bit_u8_less)
    finally show ?thesis .
  qed
  then have "crc16_add c (crc16_add b acc) =
      (crc_bit ^^ 8) ((crc_bit ^^ 8) (acc XOR ucast b XOR push_bit 8 (ucast c)))"
    by (simp only: crc16_add_reference crc_byte_def crc_bits_linear xor.assoc)
  also have "\<dots> = (crc_bit ^^ (8 + 8)) (acc XOR ucast b XOR push_bit 8 (ucast c))"
    by (simp only: funpow_add comp_apply)
  finally show ?thesis by simp
qed

lemma ucast_pair_inj:
  fixes b c b' c' :: u8
  assumes "ucast b XOR push_bit 8 (ucast c) = (ucast b' XOR push_bit 8 (ucast c') :: u16)"
  shows "b = b' \<and> c = c'"
proof -
  have e: "bit (ucast b XOR push_bit 8 (ucast c) :: u16) n = bit (ucast b' XOR push_bit 8 (ucast c') :: u16) n" for n
    using assms by simp
  have "bit b n = bit b' n" if "n < 8" for n
    using e [of n] that by (simp only: bit_ops) simp
  moreover have "bit c n = bit c' n" if "n < 8" for n
    using e [of "n + 8"] that bit_u8_ge [of "n + 8" b] bit_u8_ge [of "n + 8" b']
    by (simp only: bit_ops) simp
  ultimately show ?thesis by (auto intro!: bit_word_eqI)
qed

text \<open>
  C31. The shift-and-xor computation of \<open>crc16_data\<close> is the bit-by-bit division
  by the CCITT polynomial.
\<close>

theorem crc16_data_reference: "crc16_data data acc = fold crc_byte data acc"
  by (simp add: crc16_data_def crc16_add_reference [abs_def] cong: fold_cong)

text \<open>
  C32. The checksum detects every error confined to two neighbouring bytes:
  whatever surrounds them and whatever the start value, two messages that
  differ only there have different checksums.
\<close>

theorem crc16_detects_burst:
  "(crc16_data (us @ [b, c] @ vs) acc = crc16_data (us @ [b', c'] @ vs) acc) = (b = b' \<and> c = c')"
  (is "?crc = ?crc' \<longleftrightarrow> _")
proof
  assume "?crc = ?crc'"
  then have "crc16_add c (crc16_add b (crc16_data us acc)) = crc16_add c' (crc16_add b' (crc16_data us acc))"
    using crc16_data_inj [of vs] by (simp add: crc16_data_def)
  then have "crc16_data us acc XOR (ucast b XOR push_bit 8 (ucast c)) =
      crc16_data us acc XOR (ucast b' XOR push_bit 8 (ucast c'))"
    unfolding crc16_two_bytes by (auto dest!: crc_bits_inj simp: xor.assoc)
  then show "b = b' \<and> c = c'"
    by (intro ucast_pair_inj) (metis xor.commute xor_cancel_right)
qed simp

text \<open>
  A message followed by its own checksum, low byte first, has checksum 0,
  which is how a receiver checks it.
\<close>

theorem crc16_residue:
  "crc16_data (data @ [ucast (crc16_data data acc), ucast (drop_bit 8 (crc16_data data acc))]) acc = 0"
proof -
  let ?c = "crc16_data data acc"
  have "?c XOR ucast (ucast ?c :: u8) XOR push_bit 8 (ucast (ucast (drop_bit 8 ?c) :: u8)) = 0"
    by (rule bit_word_eqI) (simp only: bit_ops, auto simp: bit_u16_ge)
  then show ?thesis
    using crc16_two_bytes by (simp add: crc16_data_def crc_bits_0)
qed

end
