(* ===== verification/Manchester.thy ===== *)
theory Manchester
  imports Prelude
begin

text \<open>
  The table-driven Manchester code of \<open>core/lib/me.c\<close> with the tables of
  \<open>core/lib/me_tabs.c\<close>.
\<close>

definition me_encode_tab :: "u16 list" where
  "me_encode_tab = [
    0x5555, 0x5556, 0x5559, 0x555a, 0x5565, 0x5566, 0x5569, 0x556a, 0x5595, 0x5596, 0x5599, 0x559a,
    0x55a5, 0x55a6, 0x55a9, 0x55aa, 0x5655, 0x5656, 0x5659, 0x565a, 0x5665, 0x5666, 0x5669, 0x566a,
    0x5695, 0x5696, 0x5699, 0x569a, 0x56a5, 0x56a6, 0x56a9, 0x56aa, 0x5955, 0x5956, 0x5959, 0x595a,
    0x5965, 0x5966, 0x5969, 0x596a, 0x5995, 0x5996, 0x5999, 0x599a, 0x59a5, 0x59a6, 0x59a9, 0x59aa,
    0x5a55, 0x5a56, 0x5a59, 0x5a5a, 0x5a65, 0x5a66, 0x5a69, 0x5a6a, 0x5a95, 0x5a96, 0x5a99, 0x5a9a,
    0x5aa5, 0x5aa6, 0x5aa9, 0x5aaa, 0x6555, 0x6556, 0x6559, 0x655a, 0x6565, 0x6566, 0x6569, 0x656a,
    0x6595, 0x6596, 0x6599, 0x659a, 0x65a5, 0x65a6, 0x65a9, 0x65aa, 0x6655, 0x6656, 0x6659, 0x665a,
    0x6665, 0x6666, 0x6669, 0x666a, 0x6695, 0x6696, 0x6699, 0x669a, 0x66a5, 0x66a6, 0x66a9, 0x66aa,
    0x6955, 0x6956, 0x6959, 0x695a, 0x6965, 0x6966, 0x6969, 0x696a, 0x6995, 0x6996, 0x6999, 0x699a,
    0x69a5, 0x69a6, 0x69a9, 0x69aa, 0x6a55, 0x6a56, 0x6a59, 0x6a5a, 0x6a65, 0x6a66, 0x6a69, 0x6a6a,
    0x6a95, 0x6a96, 0x6a99, 0x6a9a, 0x6aa5, 0x6aa6, 0x6aa9, 0x6aaa, 0x9555, 0x9556, 0x9559, 0x955a,
    0x9565, 0x9566, 0x9569, 0x956a, 0x9595, 0x9596, 0x9599, 0x959a, 0x95a5, 0x95a6, 0x95a9, 0x95aa,
    0x9655, 0x9656, 0x9659, 0x965a, 0x9665, 0x9666, 0x9669, 0x966a, 0x9695, 0x9696, 0x9699, 0x969a,
    0x96a5, 0x96a6, 0x96a9, 0x96aa, 0x9955, 0x9956, 0x9959, 0x995a, 0x9965, 0x9966, 0x9969, 0x996a,
    0x9995, 0x9996, 0x9999, 0x999a, 0x99a5, 0x99a6, 0x99a9, 0x99aa, 0x9a55, 0x9a56, 0x9a59, 0x9a5a,
    0x9a65, 0x9a66, 0x9a69, 0x9a6a, 0x9a95, 0x9a96, 0x9a99, 0x9a9a, 0x9aa5, 0x9aa6, 0x9aa9, 0x9aaa,
    0xa555, 0xa556, 0xa559, 0xa55a, 0xa565, 0xa566, 0xa569, 0xa56a, 0xa595, 0xa596, 0xa599, 0xa59a,
    0xa5a5, 0xa5a6, 0xa5a9, 0xa5aa, 0xa655, 0xa656, 0xa659, 0xa65a, 0xa665, 0xa666, 0xa669, 0xa66a,
    0xa695, 0xa696, 0xa699, 0xa69a, 0xa6a5, 0xa6a6, 0xa6a9, 0xa6aa, 0xa955, 0xa956, 0xa959, 0xa95a,
    0xa965, 0xa966, 0xa969, 0xa96a, 0xa995, 0xa996, 0xa999, 0xa99a, 0xa9a5, 0xa9a6, 0xa9a9, 0xa9aa,
    0xaa55, 0xaa56, 0xaa59, 0xaa5a, 0xaa65, 0xaa66, 0xaa69, 0xaa6a, 0xaa95, 0xaa96, 0xaa99, 0xaa9a,
    0xaaa5, 0xaaa6, 0xaaa9, 0xaaaa]"

definition me_decode_tab :: "u8 list" where
  "me_decode_tab = [
    0x0, 0x0, 0x1, 0x1, 0x0, 0x0, 0x1, 0x1, 0x2, 0x2, 0x3, 0x3, 0x2, 0x2, 0x3, 0x3,
    0x0, 0x0, 0x1, 0x1, 0x0, 0x0, 0x1, 0x1, 0x2, 0x2, 0x3, 0x3, 0x2, 0x2, 0x3, 0x3,
    0x4, 0x4, 0x5, 0x5, 0x4, 0x4, 0x5, 0x5, 0x6, 0x6, 0x7, 0x7, 0x6, 0x6, 0x7, 0x7,
    0x4, 0x4, 0x5, 0x5, 0x4, 0x4, 0x5, 0x5, 0x6, 0x6, 0x7, 0x7, 0x6, 0x6, 0x7, 0x7,
    0x0, 0x0, 0x1, 0x1, 0x0, 0x0, 0x1, 0x1, 0x2, 0x2, 0x3, 0x3, 0x2, 0x2, 0x3, 0x3,
    0x0, 0x0, 0x1, 0x1, 0x0, 0x0, 0x1, 0x1, 0x2, 0x2, 0x3, 0x3, 0x2, 0x2, 0x3, 0x3,
    0x4, 0x4, 0x5, 0x5, 0x4, 0x4, 0x5, 0x5, 0x6, 0x6, 0x7, 0x7, 0x6, 0x6, 0x7, 0x7,
    0x4, 0x4, 0x5, 0x5, 0x4, 0x4, 0x5, 0x5, 0x6, 0x6, 0x7, 0x7, 0x6, 0x6, 0x7, 0x7,
    0x8, 0x8, 0x9, 0x9, 0x8, 0x8, 0x9, 0x9, 0xa, 0xa, 0xb, 0xb, 0xa, 0xa, 0xb, 0xb,
    0x8, 0x8, 0x9, 0x9, 0x8, 0x8, 0x9, 0x9, 0xa, 0xa, 0xb, 0xb, 0xa, 0xa, 0xb, 0xb,
    0xc, 0xc, 0xd, 0xd, 0xc, 0xc, 0xd, 0xd, 0xe, 0xe, 0xf, 0xf, 0xe, 0xe, 0xf, 0xf,
    0xc, 0xc, 0xd, 0xd, 0xc, 0xc, 0xd, 0xd, 0xe, 0xe, 0xf, 0xf, 0xe, 0xe, 0xf, 0xf,
    0x8, 0x8, 0x9, 0x9, 0x8, 0x8, 0x9, 0x9, 0xa, 0xa, 0xb, 0xb, 0xa, 0xa, 0xb, 0xb,
    0x8, 0x8, 0x9, 0x9, 0x8, 0x8, 0x9, 0x9, 0xa, 0xa, 0xb, 0xb, 0xa, 0xa, 0xb, 0xb,
    0xc, 0xc, 0xd, 0xd, 0xc, 0xc, 0xd, 0xd, 0xe, 0xe, 0xf, 0xf, 0xe, 0xe, 0xf, 0xf,
    0xc, 0xc, 0xd, 0xd, 0xc, 0xc, 0xd, 0xd, 0xe, 0xe, 0xf, 0xf, 0xe, 0xe, 0xf, 0xf]"

definition me_valid_tab :: "u8 list" where
  "me_valid_tab = [
    0x0, 0x0, 0x0, 0x0, 0x0, 0x0, 0x0, 0x0, 0x0, 0x0, 0x0, 0x0, 0x0, 0x0, 0x0, 0x0,
    0x0, 0x0, 0x0, 0x0, 0x0, 0x0, 0x0, 0x0, 0x0, 0x0, 0x0, 0x0, 0x0, 0x0, 0x0, 0x0,
    0x0, 0x0, 0x0, 0x0, 0x0, 0x0, 0x0, 0x0, 0x0, 0x0, 0x0, 0x0, 0x0, 0x0, 0x0, 0x0,
    0x0, 0x0, 0x0, 0x0, 0x0, 0x0, 0x0, 0x0, 0x0, 0x0, 0x0, 0x0, 0x0, 0x0, 0x0, 0x0,
    0x0, 0x0, 0x0, 0x0, 0x0, 0x0, 0x0, 0x0, 0x0, 0x0, 0x0, 0x0, 0x0, 0x0, 0x0, 0x0,
    0x0, 0x0, 0x0, 0x0, 0x0, 0x1, 0x1, 0x0, 0x0, 0x1, 0x1, 0x0, 0x0, 0x0, 0x0, 0x0,
    0x0, 0x0, 0x0, 0x0, 0x0, 0x1, 0x1, 0x0, 0x0, 0x1, 0x1, 0x0, 0x0, 0x0, 0x0, 0x0,
    0x0, 0x0, 0x0, 0x0, 0x0, 0x0, 0x0, 0x0, 0x0, 0x0, 0x0, 0x0, 0x0, 0x0, 0x0, 0x0,
    0x0, 0x0, 0x0, 0x0, 0x0, 0x0, 0x0, 0x0, 0x0, 0x0, 0x0, 0x0, 0x0, 0x0, 0x0, 0x0,
    0x0, 0x0, 0x0, 0x0, 0x0, 0x1, 0x1, 0x0, 0x0, 0x1, 0x1, 0x0, 0x0, 0x0, 0x0, 0x0,
    0x0, 0x0, 0x0, 0x0, 0x0, 0x1, 0x1, 0x0, 0x0, 0x1, 0x1, 0x0, 0x0, 0x0, 0x0, 0x0,
    0x0, 0x0, 0x0, 0x0, 0x0, 0x0, 0x0, 0x0, 0x0, 0x0, 0x0, 0x0, 0x0, 0x0, 0x0, 0x0,
    0x0, 0x0, 0x0, 0x0, 0x0, 0x0, 0x0, 0x0, 0x0, 0x0, 0x0, 0x0, 0x0, 0x0, 0x0, 0x0,
    0x0, 0x0, 0x0, 0x0, 0x0, 0x0, 0x0, 0x0, 0x0, 0x0, 0x0, 0x0, 0x0, 0x0, 0x0, 0x0,
    0x0, 0x0, 0x0, 0x0, 0x0, 0x0, 0x0, 0x0, 0x0, 0x0, 0x0, 0x0, 0x0, 0x0, 0x0, 0x0,
    0x0, 0x0, 0x0, 0x0, 0x0, 0x0, 0x0, 0x0, 0x0, 0x0, 0x0, 0x0, 0x0, 0x0, 0x0, 0x0]"

definition me_encode :: "u8 \<Rightarrow> u16" where
  "me_encode c = me_encode_tab ! unat c"

definition me_decode16 :: "u16 \<Rightarrow> u8" where
  "me_decode16 m =
     (let m1 = ucast (drop_bit 8 m) :: u8; m2 = ucast (m AND 0xff) :: u8
      in push_bit 4 (me_decode_tab ! unat m1) OR me_decode_tab ! unat m2)"

definition me_decode8 :: "u8 \<Rightarrow> u8" where
  "me_decode8 m = me_decode_tab ! unat m"

definition me_valid :: "u8 \<Rightarrow> u8" where
  "me_valid m = me_valid_tab ! unat m"

text \<open>
  The code itself: bit 1 is sent as the pair 10, bit 0 as 01, least
  significant bit in the lowest pair.
\<close>

definition manchester_pair :: "bool \<Rightarrow> bool list" where
  "manchester_pair b = [\<not> b, b]"

text \<open>
  The tables are compared with the code once, entry by entry; everything else
  follows from these three equations on bits.
\<close>

lemma me_encode_tab_bits:
  "map (word_bits 16) me_encode_tab =
     map (\<lambda>i. concat (map manchester_pair (word_bits 8 (word_of_int i :: u8)))) [0..255]"
  by code_simp

lemma me_decode_tab_bits:
  "map (word_bits 8) me_decode_tab =
     map (\<lambda>i. let w = (word_of_int i :: u8)
             in [bit w 1, bit w 3, bit w 5, bit w 7, False, False, False, False]) [0..255]"
  by code_simp

lemma me_valid_tab_bits:
  "map id me_valid_tab =
     map (\<lambda>i. let w = (word_of_int i :: u8)
             in if list_all (\<lambda>i. bit w (2 * i) \<noteq> bit w (2 * i + 1)) [0..<4] then 1 else 0) [0..255]"
  by code_simp

lemma me_encode_bits: "word_bits 16 (me_encode c) = concat (map manchester_pair (word_bits 8 c))"
  unfolding me_encode_def by (rule table_u8 [OF me_encode_tab_bits])

lemma me_decode8_bits: "word_bits 8 (me_decode8 m) = [bit m 1, bit m 3, bit m 5, bit m 7, False, False, False, False]"
  unfolding me_decode8_def using table_u8 [OF me_decode_tab_bits, of m] by (simp add: Let_def)

lemma me_valid_bits:
  "me_valid m = (if list_all (\<lambda>i. bit m (2 * i) \<noteq> bit m (2 * i + 1)) [0..<4] then 1 else 0)"
  unfolding me_valid_def using table_u8 [OF me_valid_tab_bits, of m] by (simp add: Let_def)

lemma me_roundtrip: "me_decode16 (me_encode c) = c"
proof (rule word_bits_8_inj)
  let ?m = "me_encode c"
  have "me_decode16 ?m = push_bit 4 (me_decode8 (ucast (drop_bit 8 ?m))) OR me_decode8 (ucast (?m AND 0xff))"
    by (simp only: me_decode16_def me_decode8_def Let_def)
  then show "word_bits 8 (me_decode16 ?m) = word_bits 8 c"
    using me_encode_bits [of c] me_decode8_bits [of "ucast (drop_bit 8 ?m)"]
      me_decode8_bits [of "ucast (?m AND 0xff)"]
    unfolding word_bits_16 word_bits_8 manchester_pair_def
    by (simp only: bit_ops bit_0xff list.map concat.simps append.simps list.inject) auto
qed

lemma me_encode_valid: "me_valid (ucast (me_encode c)) = 1 \<and> me_valid (ucast (drop_bit 8 (me_encode c))) = 1"
  using me_encode_bits [of c]
  unfolding word_bits_16 word_bits_8 manchester_pair_def me_valid_bits
  by (simp add: upt_rec bit_unsigned_iff bit_drop_bit_eq)

text \<open>
  The Manchester tables are the Manchester code: the encoding of every byte
  is the sequence of its bit pairs, both halves of it are valid, decoding gives
  the byte back, and \<open>me_valid\<close> accepts exactly the bytes whose four pairs each
  hold two different bits.
\<close>

theorem manchester_correct:
  "word_bits 16 (me_encode c) = concat (map manchester_pair (word_bits 8 c)) \<and>
   me_decode16 (me_encode c) = c \<and>
   me_valid (ucast (me_encode c)) = 1 \<and> me_valid (ucast (drop_bit 8 (me_encode c))) = 1 \<and>
   me_valid m = (if list_all (\<lambda>i. bit m (2 * i) \<noteq> bit m (2 * i + 1)) [0..<4] then 1 else 0)"
  by (intro conjI me_encode_bits me_roundtrip conjunct1 [OF me_encode_valid]
    conjunct2 [OF me_encode_valid] me_valid_bits)

end
