(* ===== verification/Gcr.thy ===== *)
theory Gcr
  imports Prelude
begin

text \<open>
  The group code recording coder of \<open>core/lib/gcr.c\<close>: every nibble becomes a
  5-bit symbol, and the bits pass through a 16-bit shift register of which
  \<open>gcr_bits\<close> are in use. The two static variables are the state.
\<close>

section \<open>Tables, state and operations\<close>

definition GCR_encode :: "u8 list" where
  "GCR_encode = [
    0x0a, 0x0b, 0x12, 0x13,
    0x0e, 0x0f, 0x16, 0x17,
    0x09, 0x19, 0x1a, 0x1b,
    0x0d, 0x1d, 0x1e, 0x15]"

definition GCR_decode :: "u8 list" where
  "GCR_decode = [
    0xff, 0xff, 0xff, 0xff,
    0xff, 0xff, 0xff, 0xff,
    0xff, 0x08, 0x00, 0x01,
    0xff, 0x0c, 0x04, 0x05,
    0xff, 0xff, 0x02, 0x03,
    0xff, 0x0f, 0x06, 0x07,
    0xff, 0x09, 0x0a, 0x0b,
    0xff, 0x0d, 0x0e, 0xff]"

record gcr =
  gcr_bits :: u8
  gcr_val :: u16

definition gcr_init :: "gcr \<Rightarrow> gcr" where
  "gcr_init s = s\<lparr>gcr_val := 0, gcr_bits := 0\<rparr>"

definition gcr_finished :: "gcr \<Rightarrow> int" where
  "gcr_finished s = c_bool (gcr_bits s = 0)"

definition gcr_encode :: "u8 \<Rightarrow> gcr \<Rightarrow> gcr" where
  "gcr_encode raw_data s = s\<lparr>
     gcr_val := gcr_val s OR push_bit (unat (gcr_bits s))
       (push_bit 5 (ucast (GCR_encode ! unat (drop_bit 4 raw_data))) OR
        ucast (GCR_encode ! unat (raw_data AND 0xf))),
     gcr_bits := gcr_bits s + 10\<rparr>"

text \<open>The result 1 with the byte stored through the pointer is \<open>Some\<close>, 0 is \<open>None\<close>.\<close>

definition gcr_get_encoded :: "gcr \<Rightarrow> u8 option \<times> gcr" where
  "gcr_get_encoded s =
     (if gcr_bits s \<ge> 8 then
        (Some (ucast (gcr_val s AND 0xff)),
         s\<lparr>gcr_val := drop_bit 8 (gcr_val s), gcr_bits := gcr_bits s - 8\<rparr>)
      else (None, s))"

definition gcr_decode :: "u8 \<Rightarrow> gcr \<Rightarrow> gcr" where
  "gcr_decode gcr_data s = s\<lparr>
     gcr_val := gcr_val s OR push_bit (unat (gcr_bits s)) (ucast gcr_data),
     gcr_bits := gcr_bits s + 8\<rparr>"

text \<open>The comparison with 0xff happens in \<open>int\<close>, after the promotion of the table entry.\<close>

definition gcr_valid :: "gcr \<Rightarrow> int" where
  "gcr_valid s =
     (if gcr_bits s \<ge> 10 then
        (let val = gcr_val s AND 0x3ff
         in if push_bit 4 (uint (GCR_decode ! unat (drop_bit 5 val))) = 0xff \<or>
               uint (GCR_decode ! unat (val AND 0x1f)) = 0xff
            then 0 else 1)
      else 1)"

definition gcr_get_decoded :: "gcr \<Rightarrow> u8 option \<times> gcr" where
  "gcr_get_decoded s =
     (if gcr_bits s \<ge> 10 then
        (let val = gcr_val s AND 0x3ff
         in (Some (push_bit 4 (GCR_decode ! unat (drop_bit 5 val)) OR GCR_decode ! unat (val AND 0x1f)),
             s\<lparr>gcr_val := drop_bit 10 (gcr_val s), gcr_bits := gcr_bits s - 10\<rparr>))
      else (None, s))"

section \<open>Streams\<close>

text \<open>
  The callers feed one byte and then take bytes out until there is none. The
  loop of takes ends because every take lowers \<open>gcr_bits\<close>.
\<close>

function gcr_drain :: "(gcr \<Rightarrow> u8 option \<times> gcr) \<Rightarrow> gcr \<Rightarrow> u8 list \<times> gcr" where
  "gcr_drain get s =
     (case get s of
        (Some b, s') \<Rightarrow>
          if gcr_bits s' < gcr_bits s then
            (let (bs, s'') = gcr_drain get s' in (b # bs, s''))
          else ([b], s')
      | (None, s') \<Rightarrow> ([], s'))"
  by pat_completeness auto
termination
  by (relation "measure (\<lambda>(get, s). unat (gcr_bits s))") (auto simp: word_less_nat_alt)

declare gcr_drain.simps [simp del]

fun gcr_stream :: "(u8 \<Rightarrow> gcr \<Rightarrow> gcr) \<Rightarrow> (gcr \<Rightarrow> u8 option \<times> gcr) \<Rightarrow> u8 list \<Rightarrow> gcr \<Rightarrow> u8 list \<times> gcr" where
  "gcr_stream put get [] s = ([], s)"
| "gcr_stream put get (d # ds) s =
     (let (bs, s1) = gcr_drain get (put d s); (cs, s2) = gcr_stream put get ds s1
      in (bs @ cs, s2))"

abbreviation gcr_encode_stream :: "u8 list \<Rightarrow> gcr \<Rightarrow> u8 list \<times> gcr" where
  "gcr_encode_stream \<equiv> gcr_stream gcr_encode gcr_get_encoded"

abbreviation gcr_decode_stream :: "u8 list \<Rightarrow> gcr \<Rightarrow> u8 list \<times> gcr" where
  "gcr_decode_stream \<equiv> gcr_stream gcr_decode gcr_get_decoded"

section \<open>The register as a queue of bits\<close>

definition gcr_queue :: "gcr \<Rightarrow> bool list" where
  "gcr_queue s = word_bits (unat (gcr_bits s)) (gcr_val s)"

definition gcr_inv :: "gcr \<Rightarrow> bool" where
  "gcr_inv s \<longleftrightarrow> unat (gcr_bits s) \<le> 16 \<and> even (unat (gcr_bits s)) \<and>
     (\<forall>n. bit (gcr_val s) n \<longrightarrow> n < unat (gcr_bits s))"

definition gcr_dec10 :: "u16 \<Rightarrow> u8" where
  "gcr_dec10 val = push_bit 4 (GCR_decode ! unat (drop_bit 5 val)) OR GCR_decode ! unat (val AND 0x1f)"

text \<open>The table maps back: every nibble's symbol is a 5-bit value that decodes to the nibble.\<close>

lemma gcr_symbol:
  assumes "i < 16"
  shows "GCR_decode ! unat (ucast (GCR_encode ! i) :: u16) = word_of_nat i"
    and "unat (ucast (GCR_encode ! i) :: u16) < 2 ^ 5"
  using less_16 [OF assms] by (elim disjE; simp add: GCR_encode_def GCR_decode_def)+

lemma bit_less_of_unat: "unat (w :: 'a::len word) < 2 ^ k \<Longrightarrow> bit w n \<Longrightarrow> n < k"
proof -
  assume "unat w < 2 ^ k" and b: "bit w n"
  then have "take_bit k (unat w) = unat w" by (simp add: take_bit_nat_eq_self_iff)
  then have "take_bit k w = w"
    by (metis unsigned_take_bit_eq unsigned_word_eqI)
  then show "n < k" using b by (metis bit_take_bit_iff)
qed

lemma gcr_symbol_bits: "i < 16 \<Longrightarrow> bit (ucast (GCR_encode ! i) :: u16) n \<Longrightarrow> n < 5"
  by (rule bit_less_of_unat [OF gcr_symbol(2)])

lemma nibbles:
  "unat (drop_bit 4 (b :: u8)) < 16" "unat (b AND 0xf :: u8) < 16"
proof -
  show "unat (drop_bit 4 b) < 16"
  proof -
    have "unat (drop_bit 4 b) = unat b div 2 ^ 4" by (simp only: unat_drop_bit_eq) (simp only: drop_bit_eq_div)
    then show ?thesis using unat_u8 [of b] by simp
  qed
  have "unat (b AND mask 4) < 2 ^ 4" by (simp only: unat_and_mask_mod) simp
  then show "unat (b AND 0xf) < 16" by (simp add: mask_eq_exp_minus_1)
qed

definition gcr_symbols :: "u8 \<Rightarrow> u16" where
  "gcr_symbols b = push_bit 5 (ucast (GCR_encode ! unat (drop_bit 4 b))) OR
     ucast (GCR_encode ! unat (b AND 0xf))"

lemma bit_0x1f: "bit (0x1f :: u16) n = (n < 5)"
proof (cases "n < 16")
  case True
  from less_16 [OF this] show ?thesis by (elim disjE) simp_all
qed (auto dest: bit_u16_less)

lemma bit_0xf: "bit (0xf :: u8) n = (n < 4)"
proof (cases "n < 16")
  case True
  from less_16 [OF this] show ?thesis by (elim disjE) simp_all
qed (auto dest: bit_u8_less)

lemma gcr_symbols_parts:
  "drop_bit 5 (gcr_symbols b) = ucast (GCR_encode ! unat (drop_bit 4 b))"
  "gcr_symbols b AND 0x1f = ucast (GCR_encode ! unat (b AND 0xf))"
  using gcr_symbol_bits [OF nibbles(1)] gcr_symbol_bits [OF nibbles(2)]
  by (auto intro!: bit_word_eqI simp only: gcr_symbols_def bit_ops bit_0x1f) force+

lemma gcr_dec10_code: "gcr_dec10 (gcr_symbols b) = b"
proof -
  have "gcr_dec10 (gcr_symbols b) = push_bit 4 (drop_bit 4 b) OR (b AND 0xf)"
    unfolding gcr_dec10_def gcr_symbols_parts by (simp add: gcr_symbol(1) nibbles)
  also have "\<dots> = b"
    by (rule bit_word_eqI) (simp only: bit_ops bit_0xf, auto)
  finally show ?thesis .
qed

lemma gcr_symbols_bits:
  assumes "bit (gcr_symbols b) n"
  shows "n < 10"
proof -
  from assms have "5 \<le> n \<and> bit (ucast (GCR_encode ! unat (drop_bit 4 b)) :: u16) (n - 5) \<or>
      bit (ucast (GCR_encode ! unat (b AND 0xf)) :: u16) n"
    by (auto simp only: gcr_symbols_def bit_or_iff bit_push_bit_iff)
  then show ?thesis
    using gcr_symbol_bits [OF nibbles(1) [of b], of "n - 5"] gcr_symbol_bits [OF nibbles(2) [of b], of n]
    by linarith
qed

section \<open>Every operation on the register as an operation on the queue\<close>

lemma word_bits_or_push:
  assumes "\<And>n. bit v n \<Longrightarrow> n < b" and "b + k \<le> 16"
  shows "word_bits (b + k) (v OR push_bit b c :: u16) = word_bits b v @ word_bits k c"
proof -
  have "bit (v OR push_bit b c) i = bit v i" if "i < b" for i
    using that by (auto simp only: bit_ops)
  moreover have "bit (v OR push_bit b c) (b + i) = bit c i" if "i < k" for i
    using that assms by (auto simp only: bit_ops) force+
  ultimately show ?thesis
    unfolding word_bits_add by (intro arg_cong2 [of _ _ _ _ append] word_bits_eqI)
      (simp_all only: bit_drop_bit_eq comp_def)
qed

lemma unat_add_u8: "unat (a :: u8) + unat b < 256 \<Longrightarrow> unat (a + b) = unat a + unat b"
  by (simp add: unat_word_ariths)

lemma unat_sub_u8: "b \<le> a \<Longrightarrow> unat (a - b :: u8) = unat a - unat b"
  by (simp add: unat_sub)

lemma word_bits_ucast: "n \<le> 8 \<Longrightarrow> word_bits n (ucast (w :: u8) :: u16) = word_bits n w"
  by (simp add: word_bits_def bit_unsigned_iff)

lemma word_bits_low: "word_bits 8 (ucast (v AND 0xff) :: u8) = word_bits 8 (v :: u16)"
  by (rule word_bits_eqI) (simp only: bit_ops bit_0xff, simp)

lemma gcr_put_bits:
  assumes "gcr_inv s" and "unat (gcr_bits s) + unat k \<le> 16" and "even (unat k)"
    and "\<And>n. bit c n \<Longrightarrow> n < unat k"
    and t: "t = s\<lparr>gcr_val := gcr_val s OR push_bit (unat (gcr_bits s)) c, gcr_bits := gcr_bits s + k\<rparr>"
  shows "gcr_inv t \<and> gcr_queue t = gcr_queue s @ word_bits (unat k) c"
proof -
  have b: "unat (gcr_bits t) = unat (gcr_bits s) + unat k"
    using assms(2) by (simp add: t unat_add_u8)
  have "n < unat (gcr_bits s) + unat k" if "bit (gcr_val t) n" for n
    using that assms(1) assms(4) [of "n - unat (gcr_bits s)"]
    by (auto simp: t gcr_inv_def bit_or_iff bit_push_bit_iff)
  with b assms show ?thesis
    by (simp add: gcr_inv_def gcr_queue_def t word_bits_or_push)
qed

lemma gcr_get_bits:
  assumes "gcr_inv s" and "k \<le> gcr_bits s" and "even (unat k)"
    and t: "t = s\<lparr>gcr_val := drop_bit (unat k) (gcr_val s), gcr_bits := gcr_bits s - k\<rparr>"
  shows "gcr_inv t \<and> gcr_queue s = word_bits (unat k) (gcr_val s) @ gcr_queue t"
proof -
  have b: "unat (gcr_bits t) = unat (gcr_bits s) - unat k"
    using assms(2) by (simp add: t unat_sub_u8)
  have le: "unat k \<le> unat (gcr_bits s)" using assms(2) by (simp add: word_le_nat_alt)
  have "n < unat (gcr_bits s) - unat k" if "bit (gcr_val t) n" for n
    using that assms(1) by (auto simp: t gcr_inv_def bit_drop_bit_eq less_diff_conv2 le add.commute
      intro!: less_diff_conv [THEN iffD2])
  moreover have "unat (gcr_bits t) \<le> 16" using b assms(1) unfolding gcr_inv_def by linarith
  ultimately show ?thesis
    using b assms le word_bits_add [of "unat k" "unat (gcr_bits s) - unat k" "gcr_val s"]
    by (simp add: gcr_inv_def gcr_queue_def t)
qed

lemma gcr_encode_queue:
  assumes "gcr_inv s" and "gcr_bits s < 8"
  shows "gcr_inv (gcr_encode d s) \<and> gcr_queue (gcr_encode d s) = gcr_queue s @ word_bits 10 (gcr_symbols d)"
proof -
  have "unat (gcr_bits s) < 8" using assms(2) by (simp add: word_less_nat_alt)
  then have b: "unat (gcr_bits s) + unat (10 :: u8) \<le> 16"
    using assms(1) by (auto simp: gcr_inv_def elim!: evenE)
  have "n < unat (10 :: u8)" if "bit (gcr_symbols d) n" for n
    using gcr_symbols_bits [OF that] by simp
  with gcr_put_bits [OF assms(1) b, of "gcr_symbols d"] show ?thesis
    by (simp add: gcr_encode_def gcr_symbols_def)
qed

lemma gcr_decode_queue:
  assumes "gcr_inv s" and "gcr_bits s < 10"
  shows "gcr_inv (gcr_decode d s) \<and> gcr_queue (gcr_decode d s) = gcr_queue s @ word_bits 8 d"
proof -
  have "unat (gcr_bits s) < 10" using assms(2) by (simp add: word_less_nat_alt)
  then have b: "unat (gcr_bits s) + unat (8 :: u8) \<le> 16"
    using assms(1) by (auto simp: gcr_inv_def elim!: evenE)
  have "n < unat (8 :: u8)" if "bit (ucast d :: u16) n" for n
    using that bit_u8_less by (auto simp: bit_unsigned_iff)
  with gcr_put_bits [OF assms(1) b, of "ucast d"] show ?thesis
    by (simp add: gcr_decode_def word_bits_ucast)
qed

lemma gcr_get_encoded_queue:
  assumes "gcr_inv s" and "8 \<le> gcr_bits s"
  shows "\<exists>b t. gcr_get_encoded s = (Some b, t) \<and> gcr_inv t \<and> gcr_bits t < gcr_bits s \<and>
    gcr_queue s = word_bits 8 b @ gcr_queue t"
proof -
  let ?t = "s\<lparr>gcr_val := drop_bit 8 (gcr_val s), gcr_bits := gcr_bits s - 8\<rparr>"
  have "gcr_inv ?t \<and> gcr_queue s = word_bits 8 (gcr_val s) @ gcr_queue ?t"
    using gcr_get_bits [OF assms, of ?t] by simp
  moreover have "gcr_bits ?t < gcr_bits s"
    using assms(2) unat_sub_u8 [OF assms(2)] by (simp add: word_less_nat_alt word_le_nat_alt)
  ultimately show ?thesis
    using assms(2) by (simp add: gcr_get_encoded_def word_bits_low)
qed

lemma bit_0x3ff: "bit (0x3ff :: u16) n = (n < 10)"
proof (cases "n < 16")
  case True
  from less_16 [OF this] show ?thesis by (elim disjE) simp_all
qed (auto dest: bit_u16_less)

lemma gcr_get_decoded_queue:
  assumes "gcr_inv s" and "10 \<le> gcr_bits s"
  shows "\<exists>v t. gcr_get_decoded s = (Some (gcr_dec10 v), t) \<and> gcr_inv t \<and> gcr_bits t < gcr_bits s \<and>
    (\<forall>n. bit v n \<longrightarrow> n < 10) \<and> gcr_queue s = word_bits 10 v @ gcr_queue t"
proof -
  let ?t = "s\<lparr>gcr_val := drop_bit 10 (gcr_val s), gcr_bits := gcr_bits s - 10\<rparr>"
    and ?v = "gcr_val s AND 0x3ff"
  have "gcr_inv ?t \<and> gcr_queue s = word_bits 10 (gcr_val s) @ gcr_queue ?t"
    using gcr_get_bits [OF assms, of ?t] by simp
  moreover have "gcr_bits ?t < gcr_bits s"
    using assms(2) unat_sub_u8 [OF assms(2)] by (simp add: word_less_nat_alt word_le_nat_alt)
  moreover have "word_bits 10 (gcr_val s) = word_bits 10 ?v"
    by (rule word_bits_eqI) (simp only: bit_ops bit_0x3ff, simp)
  moreover have "n < 10" if "bit ?v n" for n
    using that by (simp only: bit_ops bit_0x3ff)
  ultimately show ?thesis
    using assms(2) by (intro exI [of _ ?v] exI [of _ ?t]) (simp add: gcr_get_decoded_def gcr_dec10_def Let_def)
qed

section \<open>Streams\<close>

lemma gcr_drain_encoded:
  "gcr_inv s \<Longrightarrow> \<exists>bs t. gcr_drain gcr_get_encoded s = (bs, t) \<and> gcr_inv t \<and> gcr_bits t < 8 \<and>
     gcr_queue s = concat (map (word_bits 8) bs) @ gcr_queue t"
proof (induction "unat (gcr_bits s)" arbitrary: s rule: less_induct)
  case less
  show ?case
  proof (cases "8 \<le> gcr_bits s")
    case False
    then show ?thesis
      using less.prems by (subst gcr_drain.simps) (simp add: gcr_get_encoded_def)
  next
    case True
    from gcr_get_encoded_queue [OF less.prems this] obtain b s1 where
      s1: "gcr_get_encoded s = (Some b, s1)" "gcr_inv s1" "gcr_bits s1 < gcr_bits s"
        "gcr_queue s = word_bits 8 b @ gcr_queue s1" by blast
    from less.hyps [OF _ s1(2)] s1(3) obtain bs t where
      "gcr_drain gcr_get_encoded s1 = (bs, t)" "gcr_inv t" "gcr_bits t < 8"
      "gcr_queue s1 = concat (map (word_bits 8) bs) @ gcr_queue t"
      by (auto simp: word_less_nat_alt)
    with s1 show ?thesis by (subst gcr_drain.simps) simp
  qed
qed

lemma gcr_drain_decoded:
  "gcr_inv s \<Longrightarrow> \<exists>vs t. gcr_drain gcr_get_decoded s = (map gcr_dec10 vs, t) \<and> gcr_inv t \<and> gcr_bits t < 10 \<and>
     (\<forall>v \<in> set vs. \<forall>n. bit v n \<longrightarrow> n < 10) \<and>
     gcr_queue s = concat (map (word_bits 10) vs) @ gcr_queue t"
proof (induction "unat (gcr_bits s)" arbitrary: s rule: less_induct)
  case less
  show ?case
  proof (cases "10 \<le> gcr_bits s")
    case False
    then show ?thesis
      using less.prems by (subst gcr_drain.simps) (simp add: gcr_get_decoded_def)
  next
    case True
    from gcr_get_decoded_queue [OF less.prems this] obtain v s1 where
      s1: "gcr_get_decoded s = (Some (gcr_dec10 v), s1)" "gcr_inv s1" "gcr_bits s1 < gcr_bits s"
        "\<forall>n. bit v n \<longrightarrow> n < 10" "gcr_queue s = word_bits 10 v @ gcr_queue s1" by blast
    from less.hyps [OF _ s1(2)] s1(3) obtain vs t where
      "gcr_drain gcr_get_decoded s1 = (map gcr_dec10 vs, t)" "gcr_inv t" "gcr_bits t < 10"
      "\<forall>v \<in> set vs. \<forall>n. bit v n \<longrightarrow> n < 10"
      "gcr_queue s1 = concat (map (word_bits 10) vs) @ gcr_queue t"
      by (auto simp: word_less_nat_alt)
    with s1 show ?thesis by (subst gcr_drain.simps) (auto intro!: exI [of _ "v # vs"])
  qed
qed

lemma gcr_encode_stream_queue:
  "gcr_inv s \<Longrightarrow> gcr_bits s < 8 \<Longrightarrow> \<exists>bs t. gcr_encode_stream ds s = (bs, t) \<and> gcr_inv t \<and> gcr_bits t < 8 \<and>
     gcr_queue s @ concat (map (word_bits 10) (map gcr_symbols ds)) =
     concat (map (word_bits 8) bs) @ gcr_queue t"
proof (induction ds arbitrary: s)
  case Nil
  then show ?case by simp
next
  case (Cons d ds)
  note e = gcr_encode_queue [OF Cons.prems, of d]
  obtain bs s1 where s1: "gcr_drain gcr_get_encoded (gcr_encode d s) = (bs, s1)" "gcr_inv s1" "gcr_bits s1 < 8"
    "gcr_queue (gcr_encode d s) = concat (map (word_bits 8) bs) @ gcr_queue s1"
    using gcr_drain_encoded e by blast
  obtain cs t where "gcr_encode_stream ds s1 = (cs, t)" "gcr_inv t" "gcr_bits t < 8"
    "gcr_queue s1 @ concat (map (word_bits 10) (map gcr_symbols ds)) = concat (map (word_bits 8) cs) @ gcr_queue t"
    using Cons.IH [OF s1(2,3)] by blast
  with s1 e show ?case by simp (metis append.assoc)
qed

lemma gcr_decode_stream_queue:
  "gcr_inv s \<Longrightarrow> gcr_bits s < 10 \<Longrightarrow>
   \<exists>vs t. gcr_decode_stream ds s = (map gcr_dec10 vs, t) \<and> gcr_inv t \<and> gcr_bits t < 10 \<and>
     (\<forall>v \<in> set vs. \<forall>n. bit v n \<longrightarrow> n < 10) \<and>
     gcr_queue s @ concat (map (word_bits 8) ds) = concat (map (word_bits 10) vs) @ gcr_queue t"
proof (induction ds arbitrary: s)
  case Nil
  then show ?case by simp
next
  case (Cons d ds)
  note e = gcr_decode_queue [OF Cons.prems, of d]
  obtain vs s1 where s1: "gcr_drain gcr_get_decoded (gcr_decode d s) = (map gcr_dec10 vs, s1)"
    "gcr_inv s1" "gcr_bits s1 < 10" "\<forall>v \<in> set vs. \<forall>n. bit v n \<longrightarrow> n < 10"
    "gcr_queue (gcr_decode d s) = concat (map (word_bits 10) vs) @ gcr_queue s1"
    using gcr_drain_decoded e by blast
  obtain ws t where "gcr_decode_stream ds s1 = (map gcr_dec10 ws, t)" "gcr_inv t" "gcr_bits t < 10"
    "\<forall>v \<in> set ws. \<forall>n. bit v n \<longrightarrow> n < 10"
    "gcr_queue s1 @ concat (map (word_bits 8) ds) = concat (map (word_bits 10) ws) @ gcr_queue t"
    using Cons.IH [OF s1(2,3)] by blast
  with s1 e show ?case
    by (intro exI [of _ "vs @ ws"] exI [of _ t]) (simp add: ball_Un, metis append.assoc)
qed

lemma word_bits_10_inj:
  assumes "word_bits 10 v = word_bits 10 w" and "\<And>n. bit v n \<Longrightarrow> n < 10" and "\<And>n. bit w n \<Longrightarrow> n < 10"
  shows "v = (w :: u16)"
proof (rule bit_word_eqI)
  fix n
  show "bit v n = bit w n"
    using arg_cong [OF assms(1), of "\<lambda>xs. xs ! n"] assms(2,3) by (cases "n < 10") (auto simp: word_bits_def)
qed

lemma chunks_prefix:
  assumes "concat (map (word_bits 10) xs) = concat (map (word_bits 10) ys) @ r"
    and "\<forall>v \<in> set xs. \<forall>n. bit v n \<longrightarrow> n < 10" and "\<forall>v \<in> set ys. \<forall>n. bit v n \<longrightarrow> n < 10"
  shows "ys = take (length ys) (xs :: u16 list)"
  using assms
proof (induction ys arbitrary: xs)
  case Nil
  then show ?case by simp
next
  case (Cons y ys)
  obtain x zs where xs: "xs = x # zs"
    using Cons.prems(1) by (cases xs) (auto dest: arg_cong [of _ _ length])
  with Cons.prems(1) have "word_bits 10 x = word_bits 10 y"
    and "concat (map (word_bits 10) zs) = concat (map (word_bits 10) ys) @ r"
    by (simp_all add: append_eq_append_conv)
  with Cons xs show ?case by (auto intro: word_bits_10_inj)
qed

lemma length_chunks: "length (concat (map (word_bits k) xs)) = k * length xs"
  by (induction xs) auto

lemma gcr_init_ok: "gcr_inv (gcr_init s)" "gcr_queue (gcr_init s) = []" "gcr_bits (gcr_init s) = 0"
  by (simp_all add: gcr_inv_def gcr_init_def gcr_queue_def word_bits_def)

lemma bits_left:
  fixes n b r :: nat
  assumes "10 * n = 8 * b + r" and "r < 8"
  shows "(r = 0) = (4 dvd n)"
proof
  assume "r = 0"
  with assms(1) have "5 * n = 4 * b" by simp
  then show "4 dvd n" by presburger
next
  assume "4 dvd n"
  then obtain q where "n = 4 * q" by (elim dvdE)
  with assms have "8 * (5 * q) = 8 * b + r" by simp
  then have "8 dvd r" by presburger
  with assms(2) show "r = 0" by (metis dvd_imp_le not_gr_zero not_le)
qed

text \<open>
  C21. Encoding a message, draining the register after each byte, and decoding
  the bytes that come out gives the whole message back when its length is a
  multiple of four and the message without its last byte otherwise: the last
  two, four or six bits of the last byte's symbols stay in the encoder, which
  has no operation to pad them out. \<open>gcr_finished\<close> tells the two cases apart at
  both ends. A message is brought through whole by encoding one more byte, of
  any value, behind it.
\<close>

theorem gcr_roundtrip:
  assumes e: "gcr_encode_stream ds (gcr_init s) = (bs, t)"
    and d: "gcr_decode_stream bs (gcr_init s') = (ds', t')"
  shows "ds' = (if 4 dvd length ds then ds else butlast ds) \<and>
    gcr_finished t = (if 4 dvd length ds then 1 else 0) \<and>
    gcr_finished t' = (if 4 dvd length ds then 1 else 0) \<and>
    (\<forall>xs x. ds = xs @ [x] \<longrightarrow> take (length xs) ds' = xs)"
proof -
  have E: "gcr_bits t < 8"
    "concat (map (word_bits 10) (map gcr_symbols ds)) = concat (map (word_bits 8) bs) @ gcr_queue t"
    using gcr_encode_stream_queue [of "gcr_init s" ds] e gcr_init_ok by auto
  obtain vs where D: "ds' = map gcr_dec10 vs" "gcr_bits t' < 10" "\<forall>v \<in> set vs. \<forall>n. bit v n \<longrightarrow> n < 10"
    "concat (map (word_bits 8) bs) = concat (map (word_bits 10) vs) @ gcr_queue t'"
    using gcr_decode_stream_queue [of "gcr_init s'" bs] d gcr_init_ok by auto
  have "vs = take (length vs) (map gcr_symbols ds)"
    using E(2) D(3,4) gcr_symbols_bits by (intro chunks_prefix) auto
  then have ds': "ds' = take (length vs) ds"
    using D(1) gcr_dec10_code by (metis (no_types, lifting) map_map take_map comp_def map_idI)
  have len: "10 * length ds = 8 * length bs + unat (gcr_bits t)"
    "8 * length bs = 10 * length vs + unat (gcr_bits t')"
    using arg_cong [OF E(2), of length] arg_cong [OF D(4), of length]
    by (simp_all only: length_chunks length_append length_map gcr_queue_def length_word_bits)
  have small: "unat (gcr_bits t) < 8" "unat (gcr_bits t') < 10"
    using E(1) D(2) by (simp_all add: word_less_nat_alt)
  have t: "(unat (gcr_bits t) = 0) = (4 dvd length ds)" using bits_left [OF len(1) small(1)] .
  have "(unat (gcr_bits t') = 0) = (4 dvd length ds) \<and>
      length vs = (if 4 dvd length ds then length ds else length ds - 1)"
  proof (cases "4 dvd length ds")
    case True
    with t have "10 * length ds = 10 * length vs + unat (gcr_bits t')" using len by simp
    moreover from this small(2) have "length vs = length ds" by linarith
    ultimately show ?thesis using True by simp
  next
    case False
    with t have pos: "0 < unat (gcr_bits t)" by simp
    have sum: "10 * length ds = 10 * length vs + (unat (gcr_bits t') + unat (gcr_bits t))" using len by linarith
    with pos small have "length ds = length vs + 1" by linarith
    with sum small False show ?thesis by simp
  qed
  then have t': "(unat (gcr_bits t') = 0) = (4 dvd length ds)"
    and vs: "length vs = (if 4 dvd length ds then length ds else length ds - 1)" by simp_all
  have rest: "ds' = (if 4 dvd length ds then ds else butlast ds)"
    using ds' vs by (simp add: butlast_conv_take)
  moreover have "\<forall>xs x. ds = xs @ [x] \<longrightarrow> take (length xs) ds' = xs"
    using rest by auto
  ultimately show ?thesis
    using t t' by (simp add: gcr_finished_def unat_eq_0)
qed

theorem gcr_roundtrip_witness:
  "\<exists>bs t ds' t' bs2 u ds2 u'. gcr_encode_stream [1, 2, 3, 0xfe] (gcr_init \<lparr>gcr_bits = 3, gcr_val = 9\<rparr>) = (bs, t) \<and>
     gcr_decode_stream bs (gcr_init \<lparr>gcr_bits = 3, gcr_val = 9\<rparr>) = (ds', t') \<and> ds' = [1, 2, 3, 0xfe] \<and>
     gcr_encode_stream [1, 2, 3, 0xfe, 5] (gcr_init t) = (bs2, u) \<and>
     gcr_decode_stream bs2 (gcr_init t') = (ds2, u') \<and> ds2 = [1, 2, 3, 0xfe] \<and> gcr_finished u = 0"
proof -
  obtain bs t where e: "gcr_encode_stream [1, 2, 3, 0xfe] (gcr_init \<lparr>gcr_bits = 3, gcr_val = 9\<rparr>) = (bs, t)"
    by force
  obtain ds' t' where d: "gcr_decode_stream bs (gcr_init \<lparr>gcr_bits = 3, gcr_val = 9\<rparr>) = (ds', t')"
    by force
  obtain bs2 u where e2: "gcr_encode_stream [1, 2, 3, 0xfe, 5] (gcr_init t) = (bs2, u)" by force
  obtain ds2 u' where d2: "gcr_decode_stream bs2 (gcr_init t') = (ds2, u')" by force
  have "4 dvd length [1, 2, 3, 0xfe :: u8]" by (rule dvdI [of _ _ 1]) simp
  then have 1: "ds' = [1, 2, 3, 0xfe]" using gcr_roundtrip [OF e d] by simp
  have "length [1, 2, 3, 0xfe, 5 :: u8] = 5" by simp
  then have "\<not> 4 dvd length [1, 2, 3, 0xfe, 5 :: u8]" by (simp only:) simp
  then have 2: "ds2 = [1, 2, 3, 0xfe]" "gcr_finished u = 0" using gcr_roundtrip [OF e2 d2] by simp_all
  from e d 1 e2 d2 2 show ?thesis by blast
qed

text \<open>
  \<open>gcr_valid\<close> never looks at the high symbol: shifting the table entry left
  by four before comparing it with 0xff can never give 0xff, so the answer
  depends on the low five bits of the register alone, whatever the high symbol
  is.
\<close>

theorem gcr_valid_ignores_high_symbol:
  "gcr_valid s = (if 10 \<le> gcr_bits s \<and> GCR_decode ! unat (gcr_val s AND 0x1f) = 0xff then 0 else 1)"
proof -
  have "push_bit 4 (uint w) \<noteq> 0xff" for w :: u8
    by (simp add: push_bit_eq_mult) presburger
  moreover have "(gcr_val s AND 0x3ff) AND 0x1f = gcr_val s AND 0x1f"
    by (rule bit_word_eqI) (simp only: bit_ops bit_0x3ff bit_0x1f, auto)
  moreover have "(uint w = 0xff) = (w = 0xff)" for w :: u8
    by (simp add: word_uint_eq_iff)
  ultimately show ?thesis
    by (auto simp: gcr_valid_def Let_def not_le not_less)
qed

end
