(* ===== verification/Aes128.thy ===== *)
theory Aes128
  imports Prelude
begin

text \<open>
  The AES-128 block cipher of \<open>core/lib/aes-128.c\<close>. A block is a list of 16
  bytes in the order of the \<open>state\<close> array (column by column), the static
  \<open>round_keys\<close> array is a list of eleven of them. The second half states
  FIPS-197 on its own terms (the field multiplication, the four
  transformations, the key schedule on words) and proves that the code
  computes it.
\<close>

section \<open>The code\<close>

definition sbox :: "u8 list" where
  "sbox = [
    0x63, 0x7c, 0x77, 0x7b, 0xf2, 0x6b, 0x6f, 0xc5, 0x30, 0x01, 0x67, 0x2b, 0xfe, 0xd7, 0xab, 0x76,
    0xca, 0x82, 0xc9, 0x7d, 0xfa, 0x59, 0x47, 0xf0, 0xad, 0xd4, 0xa2, 0xaf, 0x9c, 0xa4, 0x72, 0xc0,
    0xb7, 0xfd, 0x93, 0x26, 0x36, 0x3f, 0xf7, 0xcc, 0x34, 0xa5, 0xe5, 0xf1, 0x71, 0xd8, 0x31, 0x15,
    0x04, 0xc7, 0x23, 0xc3, 0x18, 0x96, 0x05, 0x9a, 0x07, 0x12, 0x80, 0xe2, 0xeb, 0x27, 0xb2, 0x75,
    0x09, 0x83, 0x2c, 0x1a, 0x1b, 0x6e, 0x5a, 0xa0, 0x52, 0x3b, 0xd6, 0xb3, 0x29, 0xe3, 0x2f, 0x84,
    0x53, 0xd1, 0x00, 0xed, 0x20, 0xfc, 0xb1, 0x5b, 0x6a, 0xcb, 0xbe, 0x39, 0x4a, 0x4c, 0x58, 0xcf,
    0xd0, 0xef, 0xaa, 0xfb, 0x43, 0x4d, 0x33, 0x85, 0x45, 0xf9, 0x02, 0x7f, 0x50, 0x3c, 0x9f, 0xa8,
    0x51, 0xa3, 0x40, 0x8f, 0x92, 0x9d, 0x38, 0xf5, 0xbc, 0xb6, 0xda, 0x21, 0x10, 0xff, 0xf3, 0xd2,
    0xcd, 0x0c, 0x13, 0xec, 0x5f, 0x97, 0x44, 0x17, 0xc4, 0xa7, 0x7e, 0x3d, 0x64, 0x5d, 0x19, 0x73,
    0x60, 0x81, 0x4f, 0xdc, 0x22, 0x2a, 0x90, 0x88, 0x46, 0xee, 0xb8, 0x14, 0xde, 0x5e, 0x0b, 0xdb,
    0xe0, 0x32, 0x3a, 0x0a, 0x49, 0x06, 0x24, 0x5c, 0xc2, 0xd3, 0xac, 0x62, 0x91, 0x95, 0xe4, 0x79,
    0xe7, 0xc8, 0x37, 0x6d, 0x8d, 0xd5, 0x4e, 0xa9, 0x6c, 0x56, 0xf4, 0xea, 0x65, 0x7a, 0xae, 0x08,
    0xba, 0x78, 0x25, 0x2e, 0x1c, 0xa6, 0xb4, 0xc6, 0xe8, 0xdd, 0x74, 0x1f, 0x4b, 0xbd, 0x8b, 0x8a,
    0x70, 0x3e, 0xb5, 0x66, 0x48, 0x03, 0xf6, 0x0e, 0x61, 0x35, 0x57, 0xb9, 0x86, 0xc1, 0x1d, 0x9e,
    0xe1, 0xf8, 0x98, 0x11, 0x69, 0xd9, 0x8e, 0x94, 0x9b, 0x1e, 0x87, 0xe9, 0xce, 0x55, 0x28, 0xdf,
    0x8c, 0xa1, 0x89, 0x0d, 0xbf, 0xe6, 0x42, 0x68, 0x41, 0x99, 0x2d, 0x0f, 0xb0, 0x54, 0xbb, 0x16]"

definition galois_mul2 :: "u8 \<Rightarrow> u8" where
  "galois_mul2 value =
     (if drop_bit 7 value \<noteq> 0 then push_bit 1 value XOR 0x1b else push_bit 1 value)"

definition AES_128_BLOCK_SIZE :: nat where "AES_128_BLOCK_SIZE = 16"
definition AES_128_KEY_LENGTH :: nat where "AES_128_KEY_LENGTH = 16"

text \<open>One iteration of the loop of \<open>set_key\<close>, on the round keys and \<open>rcon\<close>.\<close>

definition key_round :: "nat \<Rightarrow> u8 list list \<times> u8 \<Rightarrow> u8 list list \<times> u8" where
  "key_round i st =
     (let (rk, rcon) = st; p = rk ! (i - 1); r = rk ! i;
          r = r[0 := sbox ! unat (p ! 13) XOR p ! 0 XOR rcon];
          r = r[1 := sbox ! unat (p ! 14) XOR p ! 1];
          r = r[2 := sbox ! unat (p ! 15) XOR p ! 2];
          r = r[3 := sbox ! unat (p ! 12) XOR p ! 3];
          r = fold (\<lambda>j r. r[j := p ! j XOR r ! (j - 4)]) [4..<AES_128_BLOCK_SIZE] r
      in (rk[i := r], galois_mul2 rcon))"

definition set_key :: "u8 list \<Rightarrow> u8 list list \<Rightarrow> u8 list list" where
  "set_key key round_keys =
     fst (fold key_round [1..<11] (round_keys[0 := take AES_128_KEY_LENGTH key], 0x01))"

definition add_round_key :: "u8 list \<Rightarrow> u8 list \<Rightarrow> u8 list" where
  "add_round_key k state = fold (\<lambda>i s. s[i := s ! i XOR k ! i]) [0..<AES_128_BLOCK_SIZE] state"

definition byte_sub :: "u8 list \<Rightarrow> u8 list" where
  "byte_sub state = fold (\<lambda>i s. s[i := sbox ! unat (s ! i)]) [0..<AES_128_BLOCK_SIZE] state"

definition shift_row :: "u8 list \<Rightarrow> u8 list" where
  "shift_row s =
     (let buf1 = s ! 1;
          s = s[1 := s ! 5]; s = s[5 := s ! 9]; s = s[9 := s ! 13]; s = s[13 := buf1];
          buf1 = s ! 2; buf2 = s ! 6;
          s = s[2 := s ! 10]; s = s[6 := s ! 14]; s = s[10 := buf1]; s = s[14 := buf2];
          buf1 = s ! 15;
          s = s[15 := s ! 11]; s = s[11 := s ! 7]; s = s[7 := s ! 3]; s = s[3 := buf1]
      in s)"

definition mix_step :: "nat \<Rightarrow> u8 list \<Rightarrow> u8 list" where
  "mix_step i s =
     (let buf4 = push_bit 2 i;
          buf1 = s ! buf4 XOR s ! (buf4 + 1) XOR s ! (buf4 + 2) XOR s ! (buf4 + 3);
          buf2 = s ! buf4;
          buf3 = galois_mul2 (s ! buf4 XOR s ! (buf4 + 1));
          s = s[buf4 := s ! buf4 XOR buf3 XOR buf1];
          buf3 = galois_mul2 (s ! (buf4 + 1) XOR s ! (buf4 + 2));
          s = s[buf4 + 1 := s ! (buf4 + 1) XOR buf3 XOR buf1];
          buf3 = galois_mul2 (s ! (buf4 + 2) XOR s ! (buf4 + 3));
          s = s[buf4 + 2 := s ! (buf4 + 2) XOR buf3 XOR buf1];
          buf3 = galois_mul2 (s ! (buf4 + 3) XOR buf2);
          s = s[buf4 + 3 := s ! (buf4 + 3) XOR buf3 XOR buf1]
      in s)"

definition mix_column :: "u8 list \<Rightarrow> u8 list" where
  "mix_column s = fold mix_step [0..<4] s"

definition encrypt_round :: "u8 list list \<Rightarrow> nat \<Rightarrow> u8 list \<Rightarrow> u8 list" where
  "encrypt_round round_keys round' s =
     (let s = shift_row (byte_sub s);
          s = (if round' < 10 then mix_column s else s)
      in add_round_key (round_keys ! round') s)"

definition encrypt :: "u8 list list \<Rightarrow> u8 list \<Rightarrow> u8 list" where
  "encrypt round_keys state =
     fold (encrypt_round round_keys) [1..<11] (add_round_key (round_keys ! 0) state)"

text \<open>
  The wrappers work on a zero block that the first \<open>len\<close> bytes are copied into;
  a longer copy would leave the block, which is undefined in C.
\<close>

definition aes_128_padded_encrypt :: "(u8 list \<Rightarrow> u8 list) \<Rightarrow> u8 list \<Rightarrow> nat \<Rightarrow> u8 list option" where
  "aes_128_padded_encrypt enc plaintext_and_result plaintext_len =
     (if plaintext_len \<le> AES_128_BLOCK_SIZE \<and> plaintext_len \<le> length plaintext_and_result then
        (let block = take plaintext_len plaintext_and_result @
               replicate (AES_128_BLOCK_SIZE - plaintext_len) 0
         in Some (take plaintext_len (enc block) @ drop plaintext_len plaintext_and_result))
      else None)"

definition aes_128_set_padded_key :: "u8 list \<Rightarrow> nat \<Rightarrow> u8 list list \<Rightarrow> u8 list list option" where
  "aes_128_set_padded_key key key_len round_keys =
     (if key_len \<le> AES_128_BLOCK_SIZE \<and> key_len \<le> length key then
        Some (set_key (take key_len key @ replicate (AES_128_BLOCK_SIZE - key_len) 0) round_keys)
      else None)"

section \<open>FIPS-197\<close>

text \<open>Multiplication in the field of 256 elements, modulo \<open>x^8 + x^4 + x^3 + x + 1\<close>.\<close>

definition xtime :: "u8 \<Rightarrow> u8" where
  "xtime b = push_bit 1 b XOR (if bit b 7 then 0x1b else 0)"

definition gmul :: "u8 \<Rightarrow> u8 \<Rightarrow> u8" where
  "gmul a b = fst (fold (\<lambda>i (acc, b). (if bit a i then acc XOR b else acc, xtime b)) [0..<8] (0, b))"

definition affine :: "u8 \<Rightarrow> u8" where
  "affine b = b XOR word_rotl 1 b XOR word_rotl 2 b XOR word_rotl 3 b XOR word_rotl 4 b XOR 0x63"

definition fips_shift_rows :: "u8 list \<Rightarrow> u8 list" where
  "fips_shift_rows s = map (\<lambda>k. s ! (k mod 4 + 4 * ((k div 4 + k mod 4) mod 4))) [0..<16]"

definition fips_mix_columns :: "u8 list \<Rightarrow> u8 list" where
  "fips_mix_columns s = map (\<lambda>k. let c = 4 * (k div 4); r = k mod 4 in
     gmul 2 (s ! (c + r)) XOR gmul 3 (s ! (c + (r + 1) mod 4)) XOR
     s ! (c + (r + 2) mod 4) XOR s ! (c + (r + 3) mod 4)) [0..<16]"

definition fips_sub_bytes :: "u8 list \<Rightarrow> u8 list" where
  "fips_sub_bytes s = map (\<lambda>b. sbox ! unat b) s"

definition xor_list :: "u8 list \<Rightarrow> u8 list \<Rightarrow> u8 list" where
  "xor_list = map2 (XOR)"

text \<open>The key schedule produces the words \<open>w 0, w 1, \<dots>\<close>, four to a round key.\<close>

fun fips_rcon :: "nat \<Rightarrow> u8" where
  "fips_rcon 0 = 1"
| "fips_rcon (Suc n) = gmul 2 (fips_rcon n)"

function fips_word :: "u8 list \<Rightarrow> nat \<Rightarrow> u8 list" where
  "fips_word key i =
     (if i < 4 then take 4 (drop (4 * i) key)
      else xor_list (fips_word key (i - 4))
        (if i mod 4 = 0
         then xor_list (fips_sub_bytes (rotate1 (fips_word key (i - 1)))) [fips_rcon (i div 4 - 1), 0, 0, 0]
         else fips_word key (i - 1)))"
  by pat_completeness auto
termination
  by (relation "measure snd") auto

declare fips_word.simps [simp del]

definition fips_round_key :: "u8 list \<Rightarrow> nat \<Rightarrow> u8 list" where
  "fips_round_key key r = concat (map (\<lambda>j. fips_word key (4 * r + j)) [0..<4])"

definition fips_cipher :: "u8 list \<Rightarrow> u8 list \<Rightarrow> u8 list" where
  "fips_cipher key block =
     (let s = xor_list block (fips_round_key key 0);
          s = fold (\<lambda>r s. xor_list (fips_mix_columns (fips_shift_rows (fips_sub_bytes s)))
                (fips_round_key key r)) [1..<10] s
      in xor_list (fips_shift_rows (fips_sub_bytes s)) (fips_round_key key 10))"

section \<open>The code computes FIPS-197\<close>

lemma galois_mul2_xtime: "galois_mul2 b = xtime b"
proof -
  have "(drop_bit 7 b \<noteq> 0) = bit b 7"
  proof
    assume "drop_bit 7 b \<noteq> 0"
    then obtain n where "bit (drop_bit 7 b) n" by (metis bit_word_eqI bit_0_eq bot_apply bot_bool_def)
    then have "bit b (7 + n)" by (simp add: bit_drop_bit_eq)
    with bit_u8_less [OF this] show "bit b 7" by simp
  next
    assume "bit b 7"
    then have "bit (drop_bit 7 b) 0" by (simp add: bit_drop_bit_eq)
    then show "drop_bit 7 b \<noteq> 0" by (metis bit_0_eq bot_apply bot_bool_def)
  qed
  then show ?thesis by (simp add: galois_mul2_def xtime_def)
qed

lemma xtime_xor: "xtime (a XOR b) = xtime a XOR xtime b"
  by (auto simp: xtime_def bit_xor_iff push_bit_xor xor.assoc xor.left_commute xor.commute)

lemma gmul_2: "gmul 2 b = xtime b" and gmul_3: "gmul 3 b = xtime b XOR b"
  by (simp_all add: gmul_def upt_rec xor.commute)

lemma list16:
  assumes "length xs = 16"
  obtains a b c d e f g h i j k l m n p q where "xs = [a, b, c, d, e, f, g, h, i, j, k, l, m, n, p, q]"
  using assms by (auto simp: length_Suc_conv eval_nat_numeral)

lemma xor_cancel4 [simp]: "(a :: u8) XOR (a XOR b) = b"
  by (simp flip: xor.assoc)

lemma mix_step_col:
  "mix_step 0 (a # b # c # d # r) =
     [xtime a XOR (xtime b XOR b) XOR c XOR d, a XOR xtime b XOR (xtime c XOR c) XOR d,
      a XOR b XOR xtime c XOR (xtime d XOR d), (xtime a XOR a) XOR b XOR c XOR xtime d] @ r"
  by (simp add: mix_step_def Let_def galois_mul2_xtime xtime_xor eval_nat_numeral)
     (simp add: ac_simps)

lemma mix_column_fips: "length s = 16 \<Longrightarrow> mix_column s = fips_mix_columns s"
  apply (erule list16)
  apply (simp add: mix_column_def fips_mix_columns_def upt_rec gmul_2 gmul_3 Let_def)
  apply (simp add: mix_step_def Let_def galois_mul2_xtime xtime_xor push_bit_eq_mult eval_nat_numeral)
  apply (simp add: ac_simps)
  done

lemma shift_row_fips: "length s = 16 \<Longrightarrow> shift_row s = fips_shift_rows s"
  by (erule list16) (simp add: shift_row_def fips_shift_rows_def Let_def upt_rec)

lemma byte_sub_fips: "length s = 16 \<Longrightarrow> byte_sub s = fips_sub_bytes s"
  using fold_update_upt [of 16 s "\<lambda>i b. sbox ! unat b"]
  by (simp add: byte_sub_def fips_sub_bytes_def AES_128_BLOCK_SIZE_def)
     (metis (no_types, lifting) map_nth map_map comp_def map_eq_conv)

lemma add_round_key_fips: "length s = 16 \<Longrightarrow> length k = 16 \<Longrightarrow> add_round_key k s = xor_list s k"
  using fold_update_upt [of 16 s "\<lambda>i b. b XOR k ! i"]
  by (auto simp: add_round_key_def xor_list_def AES_128_BLOCK_SIZE_def intro: nth_equalityI)

lemma fips_lengths [simp]:
  "length (fips_shift_rows s) = 16" "length (fips_mix_columns s) = 16"
  "length (fips_sub_bytes s) = length s" "length (xor_list s k) = min (length s) (length k)"
  by (simp_all add: fips_shift_rows_def fips_mix_columns_def fips_sub_bytes_def xor_list_def)

section \<open>Key schedule\<close>

lemma fips_word_length: "length key = 16 \<Longrightarrow> length (fips_word key i) = 4"
proof (induction key i rule: fips_word.induct)
  case (1 key i)
  then show ?case by (subst fips_word.simps) (auto simp: less_Suc_eq_le)
qed

lemma fips_round_key_length: "length key = 16 \<Longrightarrow> length (fips_round_key key r) = 16"
  by (simp add: fips_round_key_def fips_word_length upt_rec)

text \<open>One iteration, on a previous row read as four words.\<close>

lemma list4:
  assumes "length xs = 4"
  obtains a b c d where "xs = [a, b, c, d]"
  using assms by (auto simp: length_Suc_conv eval_nat_numeral)

lemma key_round_words:
  assumes "length w0 = 4" "length w1 = 4" "length w2 = 4" "length w3 = 4"
    and p: "rk ! (i - 1) = w0 @ w1 @ w2 @ w3" and r: "length (rk ! i) = 16"
    and v0: "v0 = xor_list w0 (xor_list (fips_sub_bytes (rotate1 w3)) [rcon, 0, 0, 0])"
    and v1: "v1 = xor_list w1 v0" and v2: "v2 = xor_list w2 v1" and v3: "v3 = xor_list w3 v2"
  shows "key_round i (rk, rcon) = (rk[i := v0 @ v1 @ v2 @ v3], xtime rcon)"
proof -
  obtain a0 a1 a2 a3 where w0: "w0 = [a0, a1, a2, a3]" using assms(1) by (rule list4)
  obtain b0 b1 b2 b3 where w1: "w1 = [b0, b1, b2, b3]" using assms(2) by (rule list4)
  obtain c0 c1 c2 c3 where w2: "w2 = [c0, c1, c2, c3]" using assms(3) by (rule list4)
  obtain d0 d1 d2 d3 where w3: "w3 = [d0, d1, d2, d3]" using assms(4) by (rule list4)
  from r obtain e0 e1 e2 e3 e4 e5 e6 e7 e8 e9 e10 e11 e12 e13 e14 e15 where
    "rk ! i = [e0, e1, e2, e3, e4, e5, e6, e7, e8, e9, e10, e11, e12, e13, e14, e15]" by (rule list16)
  with p w0 w1 w2 w3 show ?thesis
    by (simp add: key_round_def v3 v2 v1 v0 xor_list_def fips_sub_bytes_def upt_rec Let_def
        AES_128_BLOCK_SIZE_def galois_mul2_xtime xor.assoc xor.left_commute xor.commute)
qed

lemma fips_round_key_words: "fips_round_key key r =
    fips_word key (4 * r) @ fips_word key (4 * r + 1) @ fips_word key (4 * r + 2) @ fips_word key (4 * r + 3)"
  by (simp add: fips_round_key_def upt_rec eval_nat_numeral)

lemma fips_word_next:
  "fips_word key (4 * Suc r) = xor_list (fips_word key (4 * r))
     (xor_list (fips_sub_bytes (rotate1 (fips_word key (4 * r + 3)))) [fips_rcon r, 0, 0, 0])"
  "fips_word key (4 * Suc r + 1) = xor_list (fips_word key (4 * r + 1)) (fips_word key (4 * Suc r))"
  "fips_word key (4 * Suc r + 2) = xor_list (fips_word key (4 * r + 2)) (fips_word key (4 * Suc r + 1))"
  "fips_word key (4 * Suc r + 3) = xor_list (fips_word key (4 * r + 3)) (fips_word key (4 * Suc r + 2))"
proof -
  have 1: "\<not> 4 * Suc r + k < 4" "4 * Suc r + k - 4 = 4 * r + k" for k by simp_all
  have 0: "4 * Suc r - 4 = 4 * r" "4 * Suc r - 1 = 4 * r + 3" "4 * Suc r mod 4 = 0" "4 * Suc r div 4 - 1 = r"
    "\<not> 4 * Suc r < 4" by simp_all
  have 2: "((4 * Suc r + 1) mod 4 = 0) = False" "((4 * Suc r + 2) mod 4 = 0) = False"
    "((4 * Suc r + 3) mod 4 = 0) = False" by presburger+
  have 3: "4 * Suc r + 1 - 1 = 4 * Suc r" "4 * Suc r + 2 - 1 = 4 * Suc r + 1" "4 * Suc r + 3 - 1 = 4 * Suc r + 2"
    by simp_all
  show "fips_word key (4 * Suc r) = xor_list (fips_word key (4 * r))
     (xor_list (fips_sub_bytes (rotate1 (fips_word key (4 * r + 3)))) [fips_rcon r, 0, 0, 0])"
    by (simp only: fips_word.simps [of key "4 * Suc r"] 0 if_False if_True refl simp_thms)
  show "fips_word key (4 * Suc r + 1) = xor_list (fips_word key (4 * r + 1)) (fips_word key (4 * Suc r))"
    by (simp only: fips_word.simps [of key "4 * Suc r + 1"] 1 2 3 if_False refl)
  show "fips_word key (4 * Suc r + 2) = xor_list (fips_word key (4 * r + 2)) (fips_word key (4 * Suc r + 1))"
    by (simp only: fips_word.simps [of key "4 * Suc r + 2"] 1 2 3 if_False refl)
  show "fips_word key (4 * Suc r + 3) = xor_list (fips_word key (4 * r + 3)) (fips_word key (4 * Suc r + 2))"
    by (simp only: fips_word.simps [of key "4 * Suc r + 3"] 1 2 3 if_False refl)
qed

lemma fips_round_key_0: "length key = 16 \<Longrightarrow> fips_round_key key 0 = key"
  by (erule list16) (simp add: fips_round_key_words fips_word.simps)

lemma key_round_fips:
  assumes "length key = 16" and "rk ! r = fips_round_key key r" and "length (rk ! Suc r) = 16"
  shows "key_round (Suc r) (rk, fips_rcon r) = (rk[Suc r := fips_round_key key (Suc r)], fips_rcon (Suc r))"
  unfolding fips_round_key_words [of key "Suc r"] fips_rcon.simps gmul_2
  by (rule key_round_words [OF _ _ _ _ _ _ fips_word_next])
    (use assms in \<open>simp_all add: fips_word_length fips_round_key_words\<close>)

definition aes_keys_shape :: "u8 list list \<Rightarrow> bool" where
  "aes_keys_shape rk \<longleftrightarrow> length rk = 11 \<and> (\<forall>row \<in> set rk. length row = 16)"

lemma set_key_rounds:
  assumes "length key = 16" and "aes_keys_shape rk" and "n \<le> 10"
  shows "\<exists>rk'. fold key_round [1..<Suc n] (rk[0 := key], 1) = (rk', fips_rcon n) \<and> aes_keys_shape rk' \<and>
    (\<forall>r \<le> n. rk' ! r = fips_round_key key r)"
  using assms(3)
proof (induction n)
  case 0
  have "aes_keys_shape (rk[0 := key])"
    using assms(1,2) set_update_subset_insert [of rk 0 key] by (auto simp: aes_keys_shape_def)
  moreover have "rk[0 := key] ! 0 = key" using assms(2) by (cases rk) (auto simp: aes_keys_shape_def)
  ultimately show ?case by (simp add: fips_round_key_0 assms(1))
next
  case (Suc n)
  then obtain rk' where rk': "fold key_round [1..<Suc n] (rk[0 := key], 1) = (rk', fips_rcon n)"
    "aes_keys_shape rk'" "\<forall>r \<le> n. rk' ! r = fips_round_key key r" by auto
  let ?rk = "rk'[Suc n := fips_round_key key (Suc n)]"
  have "length (rk' ! Suc n) = 16" using rk'(2) Suc.prems by (auto simp: aes_keys_shape_def)
  then have "key_round (Suc n) (rk', fips_rcon n) = (?rk, fips_rcon (Suc n))"
    using rk'(3) assms(1) by (intro key_round_fips) auto
  then have "fold key_round [1..<Suc (Suc n)] (rk[0 := key], 1) = (?rk, fips_rcon (Suc n))"
    using rk'(1) by simp
  moreover have "aes_keys_shape ?rk"
    using rk'(2) set_update_subset_insert [of rk' "Suc n"] assms(1)
    by (fastforce simp: aes_keys_shape_def fips_round_key_length)
  moreover have "?rk ! r = fips_round_key key r" if "r \<le> Suc n" for r
    using that rk'(2,3) Suc.prems by (cases "r = Suc n") (auto simp: aes_keys_shape_def)
  ultimately show ?case by blast
qed

lemma set_key_fips:
  assumes "length key = 16" and "aes_keys_shape rk"
  shows "aes_keys_shape (set_key key rk) \<and> (\<forall>r \<le> 10. set_key key rk ! r = fips_round_key key r)"
proof -
  have "[1..<11] = [1..<Suc 10]" by simp
  then show ?thesis
    using set_key_rounds [OF assms, of 10] assms(1) by (auto simp: set_key_def AES_128_KEY_LENGTH_def)
qed

section \<open>The cipher\<close>

lemma encrypt_round_fips:
  assumes "length s = 16" and "length (rk ! r) = 16"
  shows "encrypt_round rk r s =
    (if r < 10 then xor_list (fips_mix_columns (fips_shift_rows (fips_sub_bytes s))) (rk ! r)
     else xor_list (fips_shift_rows (fips_sub_bytes s)) (rk ! r))"
  using assms
  by (simp add: encrypt_round_def Let_def byte_sub_fips shift_row_fips mix_column_fips add_round_key_fips)

lemma encrypt_rounds_fips:
  assumes "length s = 16" and "length key = 16" and "\<forall>r \<le> 10. rk ! r = fips_round_key key r" and "n \<le> 10"
  shows "fold (encrypt_round rk) [1..<n] s =
      fold (\<lambda>r s. xor_list (fips_mix_columns (fips_shift_rows (fips_sub_bytes s))) (fips_round_key key r)) [1..<n] s \<and>
    length (fold (encrypt_round rk) [1..<n] s) = 16"
  using assms(4)
proof (induction n)
  case 0
  then show ?case using assms(1) by simp
next
  case (Suc n)
  then show ?case
    using assms by (cases n) (auto simp: encrypt_round_fips fips_round_key_length)
qed

text \<open>
  C1. With the round keys that \<open>set_key\<close> expands from a 16-byte key, \<open>encrypt\<close>
  is the cipher of FIPS-197: the in-place byte shuffles, the merged MixColumns
  arithmetic and the byte-wise key schedule compute the standard's matrix
  transformations and its word-wise key expansion.
\<close>

theorem aes_encrypt_fips:
  assumes key: "length key = 16" and rk: "aes_keys_shape rk" and block: "length block = 16"
  shows "encrypt (set_key key rk) block = fips_cipher key block"
proof -
  let ?rk = "set_key key rk"
  have k: "\<forall>r \<le> 10. ?rk ! r = fips_round_key key r" and len: "length (?rk ! 10) = 16"
    using set_key_fips [OF key rk] fips_round_key_length [OF key] by auto
  let ?s = "xor_list block (fips_round_key key 0)"
  have s: "length ?s = 16" "add_round_key (?rk ! 0) block = ?s"
    using k block key by (simp_all add: fips_round_key_length add_round_key_fips)
  have "[1..<11] = [1..<10] @ [10]" by (simp add: upt_rec)
  then have "encrypt ?rk block = encrypt_round ?rk 10 (fold (encrypt_round ?rk) [1..<10] ?s)"
    using s(2) by (simp add: encrypt_def)
  also have "\<dots> = xor_list (fips_shift_rows (fips_sub_bytes (fold (encrypt_round ?rk) [1..<10] ?s))) (?rk ! 10)"
    using encrypt_round_fips [OF conjunct2 [OF encrypt_rounds_fips [OF s(1) key k, of 10]] len] by simp
  also have "\<dots> = fips_cipher key block"
    using k conjunct1 [OF encrypt_rounds_fips [OF s(1) key k, of 10]] by (simp add: fips_cipher_def Let_def)
  finally show ?thesis .
qed

lemma aes_vector:
  "encrypt (set_key (map word_of_int [0..15]) (replicate 11 (replicate 16 0)))
     [0x00, 0x11, 0x22, 0x33, 0x44, 0x55, 0x66, 0x77, 0x88, 0x99, 0xaa, 0xbb, 0xcc, 0xdd, 0xee, 0xff] =
   [0x69, 0xc4, 0xe0, 0xd8, 0x6a, 0x7b, 0x04, 0x30, 0xd8, 0xcd, 0xb7, 0x80, 0x70, 0xb4, 0xc5, 0x5a]"
  by code_simp

text \<open>The example vector of appendix C.1 of the standard.\<close>

lemma aes_encrypt_fips_witness:
  "fips_cipher (map word_of_int [0..15])
     [0x00, 0x11, 0x22, 0x33, 0x44, 0x55, 0x66, 0x77, 0x88, 0x99, 0xaa, 0xbb, 0xcc, 0xdd, 0xee, 0xff] =
   [0x69, 0xc4, 0xe0, 0xd8, 0x6a, 0x7b, 0x04, 0x30, 0xd8, 0xcd, 0xb7, 0x80, 0x70, 0xb4, 0xc5, 0x5a]"
proof -
  let ?key = "map word_of_int [0..15]" and ?rk = "replicate 11 (replicate 16 0)"
  let ?block = "[0x00, 0x11, 0x22, 0x33, 0x44, 0x55, 0x66, 0x77, 0x88, 0x99, 0xaa, 0xbb, 0xcc, 0xdd, 0xee, 0xff]"
  have "encrypt (set_key ?key ?rk) ?block = fips_cipher ?key ?block"
    by (rule aes_encrypt_fips) (simp_all add: aes_keys_shape_def)
  then show ?thesis by (simp only: aes_vector)
qed

end
