(* ===== verification/AesSbox.thy ===== *)
theory AesSbox
  imports Aes128
begin

text \<open>
  The substitution table of \<open>core/lib/aes-128.c\<close> against its construction in
  FIPS-197, and the consequence that encryption is a permutation of the blocks.
\<close>

section \<open>The substitution table\<close>

text \<open>The inverses in the field, as a certificate; \<open>0\<close> stands for itself.\<close>

definition fips_inverses :: "u8 list" where
  "fips_inverses = [
    0x00, 0x01, 0x8d, 0xf6, 0xcb, 0x52, 0x7b, 0xd1, 0xe8, 0x4f, 0x29, 0xc0, 0xb0, 0xe1, 0xe5, 0xc7,
    0x74, 0xb4, 0xaa, 0x4b, 0x99, 0x2b, 0x60, 0x5f, 0x58, 0x3f, 0xfd, 0xcc, 0xff, 0x40, 0xee, 0xb2,
    0x3a, 0x6e, 0x5a, 0xf1, 0x55, 0x4d, 0xa8, 0xc9, 0xc1, 0x0a, 0x98, 0x15, 0x30, 0x44, 0xa2, 0xc2,
    0x2c, 0x45, 0x92, 0x6c, 0xf3, 0x39, 0x66, 0x42, 0xf2, 0x35, 0x20, 0x6f, 0x77, 0xbb, 0x59, 0x19,
    0x1d, 0xfe, 0x37, 0x67, 0x2d, 0x31, 0xf5, 0x69, 0xa7, 0x64, 0xab, 0x13, 0x54, 0x25, 0xe9, 0x09,
    0xed, 0x5c, 0x05, 0xca, 0x4c, 0x24, 0x87, 0xbf, 0x18, 0x3e, 0x22, 0xf0, 0x51, 0xec, 0x61, 0x17,
    0x16, 0x5e, 0xaf, 0xd3, 0x49, 0xa6, 0x36, 0x43, 0xf4, 0x47, 0x91, 0xdf, 0x33, 0x93, 0x21, 0x3b,
    0x79, 0xb7, 0x97, 0x85, 0x10, 0xb5, 0xba, 0x3c, 0xb6, 0x70, 0xd0, 0x06, 0xa1, 0xfa, 0x81, 0x82,
    0x83, 0x7e, 0x7f, 0x80, 0x96, 0x73, 0xbe, 0x56, 0x9b, 0x9e, 0x95, 0xd9, 0xf7, 0x02, 0xb9, 0xa4,
    0xde, 0x6a, 0x32, 0x6d, 0xd8, 0x8a, 0x84, 0x72, 0x2a, 0x14, 0x9f, 0x88, 0xf9, 0xdc, 0x89, 0x9a,
    0xfb, 0x7c, 0x2e, 0xc3, 0x8f, 0xb8, 0x65, 0x48, 0x26, 0xc8, 0x12, 0x4a, 0xce, 0xe7, 0xd2, 0x62,
    0x0c, 0xe0, 0x1f, 0xef, 0x11, 0x75, 0x78, 0x71, 0xa5, 0x8e, 0x76, 0x3d, 0xbd, 0xbc, 0x86, 0x57,
    0x0b, 0x28, 0x2f, 0xa3, 0xda, 0xd4, 0xe4, 0x0f, 0xa9, 0x27, 0x53, 0x04, 0x1b, 0xfc, 0xac, 0xe6,
    0x7a, 0x07, 0xae, 0x63, 0xc5, 0xdb, 0xe2, 0xea, 0x94, 0x8b, 0xc4, 0xd5, 0x9d, 0xf8, 0x90, 0x6b,
    0xb1, 0x0d, 0xd6, 0xeb, 0xc6, 0x0e, 0xcf, 0xad, 0x08, 0x4e, 0xd7, 0xe3, 0x5d, 0x50, 0x1e, 0xb3,
    0x5b, 0x23, 0x38, 0x34, 0x68, 0x46, 0x03, 0x8c, 0xdd, 0x9c, 0x7d, 0xa0, 0xcd, 0x1a, 0x41, 0x1c]"

definition is_inverse :: "u8 \<Rightarrow> u8 \<Rightarrow> bool" where
  "is_inverse b c \<longleftrightarrow> (if b = 0 then c = 0 else gmul b c = 1)"

lemma sbox_table:
  "map (\<lambda>(b, c, v). (b, is_inverse b c \<and> v = affine c))
     (zip (map word_of_int [0..255]) (zip fips_inverses sbox)) =
   map (\<lambda>i. (word_of_int i, True)) [0..255]"
  by code_simp

text \<open>
  Every entry of the table \<open>sbox\<close> is the affine transformation of the
  multiplicative inverse of its index, the construction of SubBytes in
  FIPS-197; so a mistyped entry is excluded.
\<close>

theorem sbox_affine_inverse:
  "\<exists>c. is_inverse b c \<and> sbox ! unat b = affine c"
proof -
  have "length fips_inverses = 256" "length sbox = 256" by (simp_all add: fips_inverses_def sbox_def)
  moreover have "[0..255] ! unat b = int (unat b)" using unat_u8 [of b] by (simp only: nth_upto)
  ultimately have e: "zip (map word_of_int [0..255]) (zip fips_inverses sbox) ! unat b =
      (word_of_int (int (unat b)), fips_inverses ! unat b, sbox ! unat b)"
    using unat_u8 [of b] by (simp add: nth_upto)
  have "is_inverse b (fips_inverses ! unat b) \<and> sbox ! unat b = affine (fips_inverses ! unat b)"
    using table_u8 [OF sbox_table, of b] unfolding e prod.case by simp
  then show ?thesis by blast
qed

section \<open>Encryption is a permutation\<close>

lemma sbox_uint: "map uint sbox = [
    99, 124, 119, 123, 242, 107, 111, 197, 48, 1, 103, 43, 254, 215, 171, 118,
    202, 130, 201, 125, 250, 89, 71, 240, 173, 212, 162, 175, 156, 164, 114, 192,
    183, 253, 147, 38, 54, 63, 247, 204, 52, 165, 229, 241, 113, 216, 49, 21,
    4, 199, 35, 195, 24, 150, 5, 154, 7, 18, 128, 226, 235, 39, 178, 117,
    9, 131, 44, 26, 27, 110, 90, 160, 82, 59, 214, 179, 41, 227, 47, 132,
    83, 209, 0, 237, 32, 252, 177, 91, 106, 203, 190, 57, 74, 76, 88, 207,
    208, 239, 170, 251, 67, 77, 51, 133, 69, 249, 2, 127, 80, 60, 159, 168,
    81, 163, 64, 143, 146, 157, 56, 245, 188, 182, 218, 33, 16, 255, 243, 210,
    205, 12, 19, 236, 95, 151, 68, 23, 196, 167, 126, 61, 100, 93, 25, 115,
    96, 129, 79, 220, 34, 42, 144, 136, 70, 238, 184, 20, 222, 94, 11, 219,
    224, 50, 58, 10, 73, 6, 36, 92, 194, 211, 172, 98, 145, 149, 228, 121,
    231, 200, 55, 109, 141, 213, 78, 169, 108, 86, 244, 234, 101, 122, 174, 8,
    186, 120, 37, 46, 28, 166, 180, 198, 232, 221, 116, 31, 75, 189, 139, 138,
    112, 62, 181, 102, 72, 3, 246, 14, 97, 53, 87, 185, 134, 193, 29, 158,
    225, 248, 152, 17, 105, 217, 142, 148, 155, 30, 135, 233, 206, 85, 40, 223,
    140, 161, 137, 13, 191, 230, 66, 104, 65, 153, 45, 15, 176, 84, 187, 22]"
  by (simp add: sbox_def)

lemma sbox_sorted: "sort (map uint sbox) = [0..255]"
  unfolding sbox_uint by code_simp

lemma sbox_inj: "sbox ! unat a = sbox ! unat b \<Longrightarrow> a = (b :: u8)"
proof -
  have "distinct (sort (map uint sbox))" by (simp only: sbox_sorted distinct_upto)
  then have "distinct sbox" by (simp only: distinct_sort distinct_map)
  moreover have "length sbox = 256" by (simp add: sbox_def)
  moreover assume "sbox ! unat a = sbox ! unat b"
  ultimately show ?thesis
    using unat_u8 [of a] unat_u8 [of b] by (simp add: nth_eq_iff_index_eq unsigned_word_eqI)
qed

lemma mix_columns_order_4:
  assumes "length s = 16"
  shows   "fips_mix_columns (fips_mix_columns (fips_mix_columns (fips_mix_columns s))) = s"
proof -
  have *: "(a :: u8) XOR a = 0" for a by simp
  obtain a b c d e f g h i j k l m n p q where s: "s = [a, b, c, d, e, f, g, h, i, j, k, l, m, n, p, q]"
    using assms by (rule list16)
  have "fips_mix_columns (fips_mix_columns [a, b, c, d, e, f, g, h, i, j, k, l, m, n, p, q]) =
    [xtime (xtime (a XOR c)) XOR a, xtime (xtime (b XOR d)) XOR b, xtime (xtime (a XOR c)) XOR c, xtime (xtime (b XOR d)) XOR d,
     xtime (xtime (e XOR g)) XOR e, xtime (xtime (f XOR h)) XOR f, xtime (xtime (e XOR g)) XOR g, xtime (xtime (f XOR h)) XOR h,
     xtime (xtime (i XOR k)) XOR i, xtime (xtime (j XOR l)) XOR j, xtime (xtime (i XOR k)) XOR k, xtime (xtime (j XOR l)) XOR l,
     xtime (xtime (m XOR p)) XOR m, xtime (xtime (n XOR q)) XOR n, xtime (xtime (m XOR p)) XOR p, xtime (xtime (n XOR q)) XOR q]"
    for a b c d e f g h i j k l m n p q
    by (simp add: fips_mix_columns_def upt_rec gmul_2 gmul_3 Let_def xtime_xor)
       (simp add: ac_simps)
  from this this show ?thesis unfolding s by (simp add: xtime_xor ac_simps)
qed

lemma sub_bytes_inj: "fips_sub_bytes s = fips_sub_bytes t \<Longrightarrow> s = t"
  unfolding fips_sub_bytes_def by (rule map_injective) (auto intro: injI sbox_inj)

lemma shift_rows_inj:
  "length s = 16 \<Longrightarrow> length t = 16 \<Longrightarrow> fips_shift_rows s = fips_shift_rows t \<Longrightarrow> s = t"
  by (erule list16, erule list16) (simp add: fips_shift_rows_def upt_rec)

lemma mix_columns_inj:
  "length s = 16 \<Longrightarrow> length t = 16 \<Longrightarrow> fips_mix_columns s = fips_mix_columns t \<Longrightarrow> s = t"
  by (metis mix_columns_order_4)

lemma xor_list_inj:
  "length s = length k \<Longrightarrow> length t = length k \<Longrightarrow> xor_list s k = xor_list t k \<Longrightarrow> s = t"
proof (induction k arbitrary: s t)
  case (Cons x k)
  obtain a s' b t' where "s = a # s'" "t = b # t'"
    using Cons.prems by (metis length_Suc_conv length_Cons)
  with Cons.prems Cons.IH [of s' t'] show ?case by (auto simp: xor_list_def intro: xor_cancel_right)
qed simp

lemma encrypt_round_inj:
  assumes len: "length s = 16" "length t = 16" "length (rk ! r) = 16"
    and eq: "encrypt_round rk r s = encrypt_round rk r t"
  shows "s = t"
proof -
  have "fips_shift_rows (fips_sub_bytes s) = fips_shift_rows (fips_sub_bytes t)"
  proof (cases "r < 10")
    case True
    then have "fips_mix_columns (fips_shift_rows (fips_sub_bytes s)) =
        fips_mix_columns (fips_shift_rows (fips_sub_bytes t))"
      using eq len by (rule_tac xor_list_inj [of _ "rk ! r"]) (simp_all add: encrypt_round_fips)
    then show ?thesis by (rule mix_columns_inj [rotated 2]) simp_all
  next
    case False
    then show ?thesis
      using eq len by (rule_tac xor_list_inj [of _ "rk ! r"]) (simp_all add: encrypt_round_fips)
  qed
  then have "fips_sub_bytes s = fips_sub_bytes t"
    by (rule shift_rows_inj [rotated 2]) (simp_all add: len)
  then show ?thesis by (rule sub_bytes_inj)
qed

lemma encrypt_round_length:
  "length s = 16 \<Longrightarrow> length (rk ! r) = 16 \<Longrightarrow> length (encrypt_round rk r s) = 16"
  by (simp add: encrypt_round_fips)

lemma encrypt_rounds_inj:
  assumes "\<forall>r \<in> set rs. length (rk ! r) = 16" and "length s = 16" "length t = 16"
    and "fold (encrypt_round rk) rs s = fold (encrypt_round rk) rs t"
  shows "s = t"
  using assms
proof (induction rs arbitrary: s t)
  case (Cons r rs)
  have "encrypt_round rk r s = encrypt_round rk r t"
    by (rule Cons.IH) (use Cons.prems in \<open>simp_all add: encrypt_round_length\<close>)
  with Cons.prems show ?case using encrypt_round_inj [of s t rk r] by simp
qed simp

text \<open>
  C33. Under any eleven round keys of 16 bytes, \<open>encrypt\<close> maps distinct blocks to
  distinct blocks: no ciphertext has two plaintexts.
\<close>

theorem aes_encrypt_injective:
  assumes rk: "aes_keys_shape rk" and len: "length s = 16" "length t = 16"
    and eq: "encrypt rk s = encrypt rk t"
  shows "s = t"
proof -
  have keys: "length (rk ! r) = 16" if "r < 11" for r
    using rk that by (auto simp: aes_keys_shape_def)
  have "add_round_key (rk ! 0) s = add_round_key (rk ! 0) t"
    by (rule encrypt_rounds_inj [of "[1..<11]" rk])
      (use len keys eq [unfolded encrypt_def] in \<open>simp_all add: add_round_key_fips\<close>)
  with len keys [of 0] show ?thesis
    by (simp add: add_round_key_fips) (metis xor_list_inj)
qed

lemma aes_encrypt_injective_witness:
  "encrypt (replicate 11 (replicate 16 0)) (replicate 16 0) \<noteq>
   encrypt (replicate 11 (replicate 16 0)) (replicate 16 1)"
proof
  assume "encrypt (replicate 11 (replicate 16 0)) (replicate 16 0) =
    encrypt (replicate 11 (replicate 16 0)) (replicate 16 1)"
  from aes_encrypt_injective [OF _ _ _ this] show False
    by (simp add: aes_keys_shape_def)
qed

end
