(* ===== verification/CcmStar.thy ===== *)
theory CcmStar
  imports Aes128
begin

text \<open>
  CCM* of \<open>core/lib/ccm-star.c\<close>: the message integrity code and the counter
  mode encryption. The block cipher is whatever \<open>AES_128_CONF\<close> names, so the
  operations take it as the parameter \<open>enc\<close>; the interpretation at the end is
  the AES-128 of the library. Positions are 8-bit and wrap, so the loops are
  partial functions: \<^term>\<open>None\<close> is a loop that does not end.
\<close>

section \<open>Operations\<close>

definition CCM_STAR_AUTH_FLAGS :: "u8 \<Rightarrow> u8 \<Rightarrow> u8" where
  "CCM_STAR_AUTH_FLAGS Adata M =
     ucast (((if Adata \<noteq> 0 then push_bit 6 1 else 0) OR
       push_bit 3 (drop_bit 1 (ucast M - 2)) OR 1) :: u32)"

definition CCM_STAR_ENCRYPTION_FLAGS :: u8 where "CCM_STAR_ENCRYPTION_FLAGS = 1"
definition CCM_STAR_NONCE_LENGTH :: nat where "CCM_STAR_NONCE_LENGTH = 13"

text \<open>\<open>set_nonce\<close> writes all 16 bytes of \<open>iv\<close>.\<close>

definition set_nonce :: "u8 \<Rightarrow> u8 list \<Rightarrow> u8 \<Rightarrow> u8 list" where
  "set_nonce flags nonce counter = flags # take CCM_STAR_NONCE_LENGTH nonce @ [0, counter]"

definition ctr_step :: "(u8 list \<Rightarrow> u8 list) \<Rightarrow> u8 list \<Rightarrow> u8 \<Rightarrow> u8 list \<Rightarrow> u8 \<Rightarrow> u8 \<Rightarrow> u8 list" where
  "ctr_step enc nonce pos m_and_result m_len counter =
     (let a = enc (set_nonce CCM_STAR_ENCRYPTION_FLAGS nonce counter)
      in fold (\<lambda>i m. m[unat pos + i := m ! (unat pos + i) XOR a ! i])
           [0..<min AES_128_BLOCK_SIZE (unat m_len - unat pos)] m_and_result)"

text \<open>The inner loops of \<open>mic\<close>: the block of \<open>src\<close> at \<open>pos\<close> into \<open>x\<close>.\<close>

definition xor_block :: "u8 list \<Rightarrow> u8 \<Rightarrow> u8 \<Rightarrow> u8 list \<Rightarrow> u8 list" where
  "xor_block src pos len x =
     fold (\<lambda>i x. x[i := x ! i XOR src ! (unat pos + i)])
       [0..<min AES_128_BLOCK_SIZE (unat len - unat pos)] x"

partial_function (option) mic_loop ::
  "(u8 list \<Rightarrow> u8 list) \<Rightarrow> u8 list \<Rightarrow> u8 \<Rightarrow> u8 \<Rightarrow> u8 list \<Rightarrow> u8 list option" where
  "mic_loop enc src len pos x =
     (if pos < len then mic_loop enc src len (pos + 16) (enc (xor_block src pos len x)) else Some x)"

definition mic_adata :: "(u8 list \<Rightarrow> u8 list) \<Rightarrow> u8 list \<Rightarrow> u8 \<Rightarrow> u8 list \<Rightarrow> u8 list option" where
  "mic_adata enc a a_len x =
     (if a_len > 0 then
        (let x = x[1 := x ! 1 XOR a_len];
             x = fold (\<lambda>i x. x[i := x ! i XOR a ! (i - 2)]) [2..<min (unat a_len + 2) AES_128_BLOCK_SIZE] x;
             x = enc x
         in mic_loop enc a a_len 14 x)
      else Some x)"

text \<open>
  The data is read behind the header, at \<open>a + a_len\<close>; the parameter \<open>m\<close> is
  overwritten before its first use. The final \<open>memcpy\<close> reads \<open>mic_len\<close> bytes of
  the 16 of \<open>x\<close>; reading more of them is undefined in C and is \<^term>\<open>Inl OverRead\<close>
  here, apart from \<^term>\<open>None\<close>, a loop that does not end.
\<close>

datatype memory_fault = OverRead

definition mic :: "(u8 list \<Rightarrow> u8 list) \<Rightarrow> u8 list \<Rightarrow> u8 \<Rightarrow> u8 list \<Rightarrow> u8 list \<Rightarrow> u8 \<Rightarrow> u8 \<Rightarrow>
    (memory_fault + u8 list) option" where
  "mic enc m m_len nonce a a_len mic_len = do {
     let x = enc (set_nonce (CCM_STAR_AUTH_FLAGS a_len mic_len) nonce m_len);
     x \<leftarrow> mic_adata enc a a_len x;
     x \<leftarrow> (if m_len > 0 then (let m = drop (unat a_len) a in mic_loop enc m m_len 0 x) else Some x);
     let x = ctr_step enc nonce 0 x (of_nat AES_128_BLOCK_SIZE) 0;
     Some (if unat mic_len \<le> AES_128_BLOCK_SIZE then Inr (take (unat mic_len) x) else Inl OverRead)
   }"

partial_function (option) ctr_loop ::
  "(u8 list \<Rightarrow> u8 list) \<Rightarrow> u8 list \<Rightarrow> u8 \<Rightarrow> u8 \<Rightarrow> u8 \<Rightarrow> u8 list \<Rightarrow> u8 list option" where
  "ctr_loop enc nonce m_len pos counter m =
     (if pos < m_len
      then ctr_loop enc nonce m_len (pos + 16) (counter + 1) (ctr_step enc nonce pos m m_len counter)
      else Some m)"

definition ctr :: "(u8 list \<Rightarrow> u8 list) \<Rightarrow> u8 list \<Rightarrow> u8 \<Rightarrow> u8 list \<Rightarrow> u8 list option" where
  "ctr enc m m_len nonce = ctr_loop enc nonce m_len 0 1 m"

section \<open>RFC 3610\<close>

text \<open>The message in blocks of 16 bytes, the last one padded with zeros.\<close>

definition pad16 :: "u8 list \<Rightarrow> u8 list" where
  "pad16 xs = take 16 (xs @ replicate 16 0)"

function blocks16 :: "u8 list \<Rightarrow> u8 list list" where
  "blocks16 xs = (if xs = [] then [] else pad16 xs # blocks16 (drop 16 xs))"
  by pat_completeness auto
termination
  by (relation "measure length") auto

declare blocks16.simps [simp del]

definition cbc :: "(u8 list \<Rightarrow> u8 list) \<Rightarrow> u8 list \<Rightarrow> u8 list list \<Rightarrow> u8 list" where
  "cbc enc x bs = fold (\<lambda>b x. enc (xor_list x b)) bs x"

text \<open>
  Section 2.2 with \<open>L = 2\<close>, so nonces of 13 bytes: the flags of the first block
  are 64 for a header, plus 8 times \<open>(M - 2) / 2\<close>, plus \<open>L - 1\<close>. The blocks
  are the first block with the length of the message, the header with its
  length in front and the message. \<open>M\<close> is the size of the code, an even number
  from 4 to 16. Section 2.3: the key stream block \<open>S i\<close>.
\<close>

definition rfc3610_sizes :: "nat set" where "rfc3610_sizes = {4, 6, 8, 10, 12, 14, 16}"

definition rfc3610_flags :: "nat \<Rightarrow> u8 list \<Rightarrow> u8" where
  "rfc3610_flags M a = of_nat (64 * (if a = [] then 0 else 1) + 8 * ((M - 2) div 2) + (2 - 1))"

definition rfc3610_blocks :: "nat \<Rightarrow> u8 list \<Rightarrow> u8 list \<Rightarrow> u8 list \<Rightarrow> u8 list list" where
  "rfc3610_blocks M nonce a m =
     [rfc3610_flags M a # nonce @ [0, of_nat (length m)]] @
     (if a = [] then [] else blocks16 ([0, of_nat (length a)] @ a)) @ blocks16 m"

definition rfc3610_S :: "(u8 list \<Rightarrow> u8 list) \<Rightarrow> u8 list \<Rightarrow> nat \<Rightarrow> u8 list" where
  "rfc3610_S enc nonce i = enc (1 # nonce @ [0, of_nat i])"

definition rfc3610_mic :: "(u8 list \<Rightarrow> u8 list) \<Rightarrow> nat \<Rightarrow> u8 list \<Rightarrow> u8 list \<Rightarrow> u8 list \<Rightarrow> u8 list" where
  "rfc3610_mic enc M nonce a m =
     take M (xor_list (cbc enc (replicate 16 0) (rfc3610_blocks M nonce a m)) (rfc3610_S enc nonce 0))"

definition rfc3610_ctr :: "(u8 list \<Rightarrow> u8 list) \<Rightarrow> u8 list \<Rightarrow> u8 list \<Rightarrow> u8 list" where
  "rfc3610_ctr enc nonce m =
     map (\<lambda>i. m ! i XOR rfc3610_S enc nonce (i div 16 + 1) ! (i mod 16)) [0..<length m]"

section \<open>Blocks\<close>

lemma length_pad16 [simp]: "length (pad16 xs) = 16"
  by (simp add: pad16_def)

lemma pad16_nth: "i < 16 \<Longrightarrow> pad16 xs ! i = (if i < length xs then xs ! i else 0)"
  by (auto simp: pad16_def nth_append)

lemma xor_list_nth: "i < length x \<Longrightarrow> i < length y \<Longrightarrow> xor_list x y ! i = x ! i XOR y ! i"
  by (simp add: xor_list_def)

lemma xor_block_pad16:
  assumes "length x = 16" and "unat len \<le> length src"
  shows "xor_block src pos len x = xor_list x (pad16 (drop (unat pos) (take (unat len) src)))"
proof (rule nth_equalityI)
  show "length (xor_block src pos len x) = length (xor_list x (pad16 (drop (unat pos) (take (unat len) src))))"
    using assms fold_update_length [of 0 "min 16 (unat len - unat pos)" x 0 "\<lambda>i b. b XOR src ! (unat pos + i)"]
    by (simp add: xor_block_def AES_128_BLOCK_SIZE_def)
next
  fix i
  assume "i < length (xor_block src pos len x)"
  then have "i < 16"
    using assms fold_update_length [of 0 "min 16 (unat len - unat pos)" x 0 "\<lambda>i b. b XOR src ! (unat pos + i)"] by (simp add: xor_block_def AES_128_BLOCK_SIZE_def)
  then show "xor_block src pos len x ! i = xor_list x (pad16 (drop (unat pos) (take (unat len) src))) ! i"
    using assms fold_update_nth [of 0 "min 16 (unat len - unat pos)" x 0 i "\<lambda>i b. b XOR src ! (unat pos + i)"]
    by (auto simp: xor_block_def AES_128_BLOCK_SIZE_def xor_list_nth pad16_nth)
qed

lemma blocks16_Cons: "xs \<noteq> [] \<Longrightarrow> blocks16 xs = pad16 xs # blocks16 (drop 16 xs)"
  and blocks16_Nil [simp]: "blocks16 [] = []"
  by (simp_all add: blocks16.simps)

lemma cbc_simps [simp]:
  "cbc enc x [] = x" "cbc enc x (b # bs) = cbc enc (enc (xor_list x b)) bs"
  "cbc enc x (bs @ cs) = cbc enc (cbc enc x bs) cs"
  by (simp_all add: cbc_def)

text \<open>
  The position advances by 16 from its start and the loop ends if it does not
  wrap on the way.
\<close>

lemma unat_u8_plus_16: "unat (p :: u8) < 240 \<Longrightarrow> unat (p + 16) = unat p + 16"
  by (subst unat_add_lem [THEN iffD1]) simp_all

lemma auth_flags_rfc3610:
  assumes "M \<in> rfc3610_sizes" and "length a \<le> 254"
  shows "CCM_STAR_AUTH_FLAGS (of_nat (length a)) (of_nat M) = rfc3610_flags M a"
proof -
  have "(of_nat (length a) :: u8) = 0 \<longleftrightarrow> a = []"
    using assms(2) by (simp add: unat_eq_0 [symmetric] unat_of_nat)
  with assms(1) show ?thesis
    by (cases "a = []") (auto simp: rfc3610_sizes_def CCM_STAR_AUTH_FLAGS_def rfc3610_flags_def)
qed

locale block_cipher =
  fixes enc :: "u8 list \<Rightarrow> u8 list"
  assumes enc_length: "length x = 16 \<Longrightarrow> length (enc x) = 16"
begin

lemma cbc_length: "length x = 16 \<Longrightarrow> \<forall>b \<in> set bs. length b = 16 \<Longrightarrow> length (cbc enc x bs) = 16"
  by (induction bs arbitrary: x) (simp_all add: enc_length)

lemma blocks16_lengths: "\<forall>b \<in> set (blocks16 xs). length b = 16"
  by (induction xs rule: blocks16.induct) (subst blocks16.simps, simp)

lemma mic_loop_cbc:
  assumes "length x = 16" and "unat len \<le> length src" and "unat len \<le> 240 + unat pos mod 16"
  shows "mic_loop enc src len pos x = Some (cbc enc x (blocks16 (drop (unat pos) (take (unat len) src))))"
  using assms
proof (induction "unat len - unat pos" arbitrary: pos x rule: less_induct)
  case less
  show ?case
  proof (cases "pos < len")
    case False
    then show ?thesis by (simp add: mic_loop.simps word_less_nat_alt)
  next
    case True
    then have lt: "unat pos < unat len" by (simp add: word_less_nat_alt)
    have "unat pos < 240 + unat pos mod 16" using lt less.prems(3) by linarith
    then have "unat pos < 240"
      by presburger
    then have p: "unat (pos + 16) = unat pos + 16" by (rule unat_u8_plus_16)
    then show ?thesis
      using less.hyps [of "pos + 16" "enc (xor_block src pos len x)"] less.prems lt True
      by (simp add: mic_loop.simps [of _ _ _ pos] xor_block_pad16 enc_length p blocks16_Cons add.commute)
  qed
qed

text \<open>The header: its length goes into the first block by hand.\<close>

lemma mic_adata_cbc:
  assumes x: "length x = 16" and a: "length a \<le> 254"
  shows "mic_adata enc (a @ m) (of_nat (length a)) x =
    Some (cbc enc x (if a = [] then [] else blocks16 ([0, of_nat (length a)] @ a)))"
proof (cases "a = []")
  case True
  then show ?thesis by (simp add: mic_adata_def)
next
  case False
  let ?l = "of_nat (length a) :: u8"
  have l: "unat ?l = length a" using a by (simp add: unat_of_nat)
  have pos: "?l > 0" using False l by (simp add: word_less_nat_alt)
  let ?x = "x[1 := x ! 1 XOR ?l]"
  let ?y = "fold (\<lambda>i x. x[i := x ! i XOR (a @ m) ! (i - 2)]) [2..<min (unat ?l + 2) AES_128_BLOCK_SIZE] ?x"
  have n: "0 + min (length a + 2) 16 \<le> length ?x" "2 \<le> min (length a + 2) 16" using x by auto
  have y: "?y = xor_list x (pad16 ([0, ?l] @ a))"
  proof (rule nth_equalityI)
    show len: "length ?y = length (xor_list x (pad16 ([0, ?l] @ a)))"
      using fold_update_length [OF n, of "\<lambda>i b. b XOR (a @ m) ! (i - 2)"] x
      by (simp add: AES_128_BLOCK_SIZE_def l)
    fix i
    assume "i < length ?y"
    then have i: "i < 16" using len x by simp
    then show "?y ! i = xor_list x (pad16 ([0, ?l] @ a)) ! i"
      using fold_update_nth [OF n, of i "\<lambda>i b. b XOR (a @ m) ! (i - 2)"] x
      by (auto simp: AES_128_BLOCK_SIZE_def l xor_list_nth pad16_nth nth_append nth_list_update nth_Cons
          split: nat.split)
  qed
  have "mic_loop enc (a @ m) ?l 14 z = Some (cbc enc z (blocks16 (drop 14 a)))" if "length z = 16" for z
    using mic_loop_cbc [of z ?l "a @ m" 14] a that by (simp add: l)
  from this [of "enc ?y"] have "mic_loop enc (a @ m) ?l 14 (enc ?y) = Some (cbc enc (enc ?y) (blocks16 (drop 14 a)))"
    by (simp only: y) (simp add: enc_length x)
  then show ?thesis
    using False pos y by (simp add: mic_adata_def Let_def blocks16_Cons)
qed

lemma ctr_step_0: "length x = 16 \<Longrightarrow> length nonce = 13 \<Longrightarrow>
    ctr_step enc nonce 0 x (of_nat AES_128_BLOCK_SIZE) 0 = xor_list x (rfc3610_S enc nonce 0)"
  using fold_update_length [of 0 16 x 0 "\<lambda>i b. b XOR enc (1 # nonce @ [0, 0]) ! i"]
    fold_update_nth [of 0 16 x 0 _ "\<lambda>i b. b XOR enc (1 # nonce @ [0, 0]) ! i"]
  by (intro nth_equalityI) (simp_all add: ctr_step_def Let_def rfc3610_S_def set_nonce_def
      CCM_STAR_ENCRYPTION_FLAGS_def CCM_STAR_NONCE_LENGTH_def AES_128_BLOCK_SIZE_def xor_list_nth enc_length)

lemma mic_rfc3610:
  assumes nonce: "length nonce = 13" and a: "length a \<le> 254" and m: "length m \<le> 240" and M: "M \<in> rfc3610_sizes"
  shows "mic enc m' (of_nat (length m)) nonce (a @ m) (of_nat (length a)) (of_nat M) =
    Some (Inr (rfc3610_mic enc M nonce a m))"
proof -
  let ?b0 = "rfc3610_flags M a # nonce @ [0, of_nat (length m)]"
  let ?ba = "if a = [] then [] else blocks16 ([0, of_nat (length a)] @ a)"
  have "xor_list (replicate 16 0) b = b" if "length b = 16" for b
    using that by (intro nth_equalityI) (simp_all add: xor_list_nth)
  from this [of ?b0] nonce have b0: "xor_list (replicate 16 0) ?b0 = ?b0" by simp
  have l: "unat (of_nat (length a) :: u8) = length a" "unat (of_nat (length m) :: u8) = length m"
    using a m by (simp_all add: unat_of_nat)
  let ?x = "cbc enc (enc ?b0) ?ba"
  have x: "length ?x = 16" "length (enc ?b0) = 16"
    using nonce blocks16_lengths by (auto simp: enc_length intro!: cbc_length)
  let ?y = "cbc enc ?x (blocks16 m)"
  have y: "length ?y = 16" using x blocks16_lengths by (intro cbc_length) auto
  have "mic_loop enc m (of_nat (length m)) 0 ?x = Some ?y"
    using mic_loop_cbc [of ?x "of_nat (length m)" m 0] x m by (simp add: l)
  then have loop: "(if (of_nat (length m) :: u8) > 0 then mic_loop enc m (of_nat (length m)) 0 ?x else Some ?x) =
      Some ?y"
    using l by (cases "m = []") (auto simp: word_less_nat_alt)
  have "cbc enc (replicate 16 0) (rfc3610_blocks M nonce a m) = ?y"
    unfolding rfc3610_blocks_def by (simp only: cbc_simps b0)
  then have spec: "rfc3610_mic enc M nonce a m = take M (xor_list ?y (rfc3610_S enc nonce 0))"
    by (simp only: rfc3610_mic_def)
  have drop: "drop (length a) (a @ m) = m" and take: "take 13 nonce = nonce" using nonce by simp_all
  have size: "unat (of_nat M :: u8) = M" "M \<le> AES_128_BLOCK_SIZE"
    using M by (auto simp: rfc3610_sizes_def AES_128_BLOCK_SIZE_def)
  show ?thesis
    unfolding mic_def set_nonce_def CCM_STAR_NONCE_LENGTH_def Let_def take spec auth_flags_rfc3610 [OF M a]
    by (simp only: size if_True mic_adata_cbc [OF x(2) a] bind.bind_lunit l drop loop ctr_step_0 [OF y nonce])
qed

lemma ctr_step_nth:
  assumes "length nonce = 13" and "length m = unat m_len" and "pos < m_len"
  shows "length (ctr_step enc nonce pos m m_len counter) = length m \<and>
    (\<forall>j < length m. ctr_step enc nonce pos m m_len counter ! j =
      (if unat pos \<le> j \<and> j < unat pos + 16
       then m ! j XOR enc (1 # nonce @ [0, counter]) ! (j - unat pos) else m ! j))"
proof -
  let ?n = "min 16 (unat m_len - unat pos)"
  have n: "unat pos + ?n \<le> length m" "0 \<le> ?n" using assms by (auto simp: word_less_nat_alt)
  show ?thesis
    using assms fold_update_range [OF n, of "\<lambda>i b. b XOR enc (1 # nonce @ [0, counter]) ! i"]
    by (auto simp: ctr_step_def Let_def set_nonce_def CCM_STAR_ENCRYPTION_FLAGS_def
        CCM_STAR_NONCE_LENGTH_def AES_128_BLOCK_SIZE_def word_less_nat_alt)
qed

lemma ctr_loop_rfc3610:
  assumes "length nonce = 13" and "length m = unat m_len" and "unat m_len \<le> 240"
    and "unat pos = 16 * q" and "counter = of_nat (q + 1)"
  shows "\<exists>r. ctr_loop enc nonce m_len pos counter m = Some r \<and> length r = length m \<and>
    (\<forall>j < length m. r ! j = (if 16 * q \<le> j then m ! j XOR rfc3610_S enc nonce (j div 16 + 1) ! (j mod 16) else m ! j))"
  using assms
proof (induction "unat m_len - unat pos" arbitrary: pos q counter m rule: less_induct)
  case less
  show ?case
  proof (cases "pos < m_len")
    case False
    then show ?thesis
      using less.prems by (auto simp: ctr_loop.simps [of _ _ _ pos] word_less_nat_alt not_less)
  next
    case True
    then have lt: "unat pos < unat m_len" by (simp add: word_less_nat_alt)
    then have p: "unat (pos + 16) = unat pos + 16"
      using less.prems(3) by (intro unat_u8_plus_16) linarith
    let ?m = "ctr_step enc nonce pos m m_len counter"
    note step = ctr_step_nth [OF less.prems(1,2) True, of counter]
    have "\<exists>r. ctr_loop enc nonce m_len (pos + 16) (counter + 1) ?m = Some r \<and> length r = length ?m \<and>
      (\<forall>j < length ?m. r ! j =
        (if 16 * Suc q \<le> j then ?m ! j XOR rfc3610_S enc nonce (j div 16 + 1) ! (j mod 16) else ?m ! j))"
      by (rule less.hyps) (use less.prems lt step p in \<open>simp_all\<close>)
    then obtain r where r: "ctr_loop enc nonce m_len (pos + 16) (counter + 1) ?m = Some r" "length r = length ?m"
      "\<forall>j < length ?m. r ! j =
        (if 16 * Suc q \<le> j then ?m ! j XOR rfc3610_S enc nonce (j div 16 + 1) ! (j mod 16) else ?m ! j)"
      by blast
    have "r ! j = (if 16 * q \<le> j then m ! j XOR rfc3610_S enc nonce (j div 16 + 1) ! (j mod 16) else m ! j)"
      if j: "j < length m" for j
    proof (cases "16 * Suc q \<le> j")
      case True
      then show ?thesis using r(3) step j less.prems(4) by simp
    next
      case False
      have k: "j div 16 = q \<and> j mod 16 = j - 16 * q" if "16 * q \<le> j"
      proof -
        from that False have "j = 16 * q + (j - 16 * q)" "j - 16 * q < 16" by auto
        then obtain k where "j = 16 * q + k" "k < 16" by blast
        then show ?thesis by simp
      qed
      from False show ?thesis
        using r(3) step j less.prems(4,5) k by (cases "16 * q \<le> j") (simp_all add: rfc3610_S_def)
    qed
    then show ?thesis
      using True r step by (auto simp: ctr_loop.simps [of _ _ _ pos])
  qed
qed

lemma ctr_rfc3610:
  assumes "length nonce = 13" and "length m \<le> 240"
  shows "ctr enc m (of_nat (length m)) nonce = Some (rfc3610_ctr enc nonce m)"
proof -
  have l: "length m = unat (of_nat (length m) :: u8)" using assms(2) by (simp add: unat_of_nat)
  obtain r where "ctr enc m (of_nat (length m)) nonce = Some r" "length r = length m"
    "\<forall>j < length m. r ! j = m ! j XOR rfc3610_S enc nonce (j div 16 + 1) ! (j mod 16)"
    using ctr_loop_rfc3610 [OF assms(1) l, of 0 0 1] assms(2) l by (auto simp: ctr_def)
  then show ?thesis by (auto simp: rfc3610_ctr_def intro: nth_equalityI)
qed

end

lemma rfc3610_ctr_involution: "rfc3610_ctr enc nonce (rfc3610_ctr enc nonce m) = m"
  by (rule nth_equalityI) (simp_all add: rfc3610_ctr_def xor.assoc)

section \<open>Loops that do not end\<close>

text \<open>Above 240 the position wraps from 240 to 0 before it reaches the length.\<close>

lemma dvd_16_le_240: "16 dvd unat (pos :: u8) \<Longrightarrow> unat pos \<le> 240"
  using unat_u8 [of pos] by presburger

lemma unat_plus_16_dvd: "16 dvd unat (pos :: u8) \<Longrightarrow> 16 dvd unat (pos + 16)"
proof -
  have "unat (pos + 16) = (unat pos + 16) mod 256" by (simp add: unat_word_ariths)
  moreover have "(16::nat) dvd 256" by simp
  ultimately show "16 dvd unat pos \<Longrightarrow> 16 dvd unat (pos + 16)" by (simp add: dvd_mod_iff)
qed

lemma ctr_loop_diverges:
  assumes "240 < unat m_len" and "16 dvd unat pos"
  shows "ctr_loop enc nonce m_len pos counter m = None"
proof (rule ccontr)
  assume "ctr_loop enc nonce m_len pos counter m \<noteq> None"
  then obtain r where "ctr_loop enc nonce m_len pos counter m = Some r" by blast
  then show False
    using assms
  proof (induction rule: ctr_loop.raw_induct [rotated, consumes 1])
    case (1 rec enc nonce m_len pos counter m r)
    then have "pos < m_len" using dvd_16_le_240 [of pos] by (simp add: word_less_nat_alt)
    with 1(2) have "rec enc nonce m_len (pos + 16) (counter + 1) (ctr_step enc nonce pos m m_len counter) = Some r"
      by simp
    then show ?case by (rule 1(1)) (use 1(3,4) unat_plus_16_dvd [of pos] in simp_all)
  qed
qed

lemma mic_loop_diverges:
  assumes "240 < unat len" and "16 dvd unat pos"
  shows "mic_loop enc src len pos x = None"
proof -
  have "240 < unat len \<longrightarrow> 16 dvd unat pos \<longrightarrow> False" if "mic_loop enc src len pos x = Some r" for r
  proof (rule mic_loop.raw_induct [where P = "\<lambda>enc src len pos x r. 240 < unat len \<longrightarrow> 16 dvd unat pos \<longrightarrow> False"
        and xa = "((((enc, src), len), pos), x)" and y = r, unfolded prod.case])
    fix rec enc src x r and len pos :: u8
    assume IH: "\<And>enc src len pos x y. rec enc src len pos x = Some y \<Longrightarrow>
        240 < unat len \<longrightarrow> 16 dvd unat pos \<longrightarrow> False"
      and eq: "(if pos < len then rec enc src len (pos + 16) (enc (xor_block src pos len x)) else Some x) = Some r"
    show "240 < unat len \<longrightarrow> 16 dvd unat pos \<longrightarrow> False"
    proof (intro impI)
      assume a: "240 < unat len" "16 dvd unat pos"
      then have "pos < len" using dvd_16_le_240 [of pos] by (simp add: word_less_nat_alt)
      with eq have "rec enc src len (pos + 16) (enc (xor_block src pos len x)) = Some r" by simp
      from IH [OF this] a unat_plus_16_dvd [of pos] show False by blast
    qed
  qed (rule that)
  then show ?thesis using assms by (cases "mic_loop enc src len pos x") auto
qed

section \<open>With the AES-128 of the library\<close>

lemma fold_length: "(\<And>i s. length (f i s) = length s) \<Longrightarrow> length (fold f is s) = length s"
  by (induction "is" arbitrary: s) simp_all

lemma length_encrypt: "length (encrypt rk s) = length s"
proof -
  have "length (mix_column s) = length s" for s
    unfolding mix_column_def by (rule fold_length) (simp add: mix_step_def Let_def)
  then have "length (encrypt_round rk r s) = length s" for r s
    by (simp add: encrypt_round_def Let_def add_round_key_def byte_sub_def shift_row_def fold_length)
  then show ?thesis by (simp add: encrypt_def fold_length add_round_key_def)
qed

interpretation aes: block_cipher "encrypt rk" for rk
  by unfold_locales (simp add: length_encrypt)

text \<open>
  C12. The integrity code is the one of RFC 3610: CBC-MAC over the first block,
  the header with its length in front and the message, each padded, encrypted
  with the first key stream block, for headers up to 254 and messages up to 240
  bytes and every size \<open>M\<close> of the code the RFC allows; the flags of the first
  block are spelled out as the RFC gives them. The message is read behind the
  header whatever \<open>m'\<close> is passed.
\<close>

theorem ccm_mic_rfc3610:
  assumes "length nonce = 13" and "length a \<le> 254" and "length m \<le> 240" and "M \<in> rfc3610_sizes"
  shows "mic (encrypt rk) m' (of_nat (length m)) nonce (a @ m) (of_nat (length a)) (of_nat M) =
    Some (Inr (rfc3610_mic (encrypt rk) M nonce a m))"
  using assms by (rule aes.mic_rfc3610)

lemma ccm_mic_rfc3610_witness:
  "mic (encrypt (set_key (replicate 16 7) (replicate 11 (replicate 16 0)))) [] 3 (replicate 13 1)
     ([1, 2] @ [3, 4, 5]) 2 8 =
   Some (Inr (rfc3610_mic (encrypt (set_key (replicate 16 7) (replicate 11 (replicate 16 0)))) 8
     (replicate 13 1) [1, 2] [3, 4, 5]))"
  using ccm_mic_rfc3610 [of "replicate 13 1" "[1, 2]" "[3, 4, 5]" 8
    "set_key (replicate 16 7) (replicate 11 (replicate 16 0))" "[]"] by (simp add: rfc3610_sizes_def)

text \<open>
  C34. Counter mode on up to 240 bytes XORs byte \<open>i\<close> with byte \<open>i mod 16\<close> of key
  stream block \<open>i div 16 + 1\<close>, and a second application decrypts.
\<close>

theorem ccm_ctr_rfc3610:
  assumes "length nonce = 13" and "length m \<le> 240"
  shows "ctr (encrypt rk) m (of_nat (length m)) nonce = Some (rfc3610_ctr (encrypt rk) nonce m) \<and>
    ctr (encrypt rk) (rfc3610_ctr (encrypt rk) nonce m) (of_nat (length m)) nonce = Some m"
proof -
  have "length (rfc3610_ctr (encrypt rk) nonce m) = length m" by (simp add: rfc3610_ctr_def)
  then have "ctr (encrypt rk) (rfc3610_ctr (encrypt rk) nonce m) (of_nat (length m)) nonce = Some m"
    using aes.ctr_rfc3610 [OF assms(1), of "rfc3610_ctr (encrypt rk) nonce m" rk] assms(2)
    by (simp add: rfc3610_ctr_involution)
  with aes.ctr_rfc3610 [OF assms, of rk] show ?thesis by simp
qed

lemma ccm_ctr_rfc3610_witness:
  "\<exists>c. ctr (encrypt (set_key (replicate 16 7) (replicate 11 (replicate 16 0)))) (replicate 20 9) 20 (replicate 13 1) = Some c \<and>
    ctr (encrypt (set_key (replicate 16 7) (replicate 11 (replicate 16 0)))) c 20 (replicate 13 1) = Some (replicate 20 9)"
proof -
  have l: "(of_nat (length (replicate 20 (9 :: u8))) :: u8) = 20" by simp
  show ?thesis
    using ccm_ctr_rfc3610 [of "replicate 13 1" "replicate 20 9"
      "set_key (replicate 16 7) (replicate 11 (replicate 16 0))", unfolded l] by auto
qed

text \<open>
  C40. On messages longer than 240 bytes both operations never return, with any
  cipher: the 8-bit position steps from 240 to 0 and the loop starts over.
\<close>

theorem ccm_long_message_diverges:
  assumes "240 < unat m_len"
  shows "ctr enc m m_len nonce = None \<and> mic enc m' m_len nonce a a_len M = None"
proof -
  have "m_len > 0" using assms by (simp add: word_less_nat_alt)
  then show ?thesis
    using assms by (simp add: ctr_def mic_def Let_def ctr_loop_diverges mic_loop_diverges)
qed

lemma ccm_long_message_diverges_witness:
  "ctr id (replicate 241 0) 241 (replicate 13 1) = None \<and>
   mic id [] 241 (replicate 13 1) (replicate 241 0) 0 8 = None"
  by (rule ccm_long_message_diverges) simp

end
