(* ===== verification/Timer.thy ===== *)
theory Timer
  imports Prelude
begin

text \<open>
  The passive timers, \<open>core/sys/timer.c\<close> and \<open>core/sys/stimer.c\<close>. The clock
  type is 32 bits wide, as on the MSP430 and ARM platforms of the tree, and
  wraps; \<open>clock_time()\<close> and \<open>clock_seconds()\<close> are the argument \<open>now\<close>.
\<close>

type_synonym clock_time_t = u32

record timer =
  t_start :: clock_time_t
  t_interval :: clock_time_t

definition timer_set :: "clock_time_t \<Rightarrow> clock_time_t \<Rightarrow> timer \<Rightarrow> timer" where
  "timer_set now interval t = t\<lparr>t_interval := interval, t_start := now\<rparr>"

definition timer_reset :: "timer \<Rightarrow> timer" where
  "timer_reset t = t\<lparr>t_start := t_start t + t_interval t\<rparr>"

definition timer_restart :: "clock_time_t \<Rightarrow> timer \<Rightarrow> timer" where
  "timer_restart now t = t\<lparr>t_start := now\<rparr>"

definition timer_expired :: "clock_time_t \<Rightarrow> timer \<Rightarrow> bool" where
  "timer_expired now t = (let diff = (now - t_start t) + 1 in t_interval t < diff)"

definition timer_remaining :: "clock_time_t \<Rightarrow> timer \<Rightarrow> clock_time_t" where
  "timer_remaining now t = t_start t + t_interval t - now"

section \<open>Timers in seconds\<close>

record stimer =
  st_start :: u32
  st_interval :: u32

definition SCLOCK_GEQ :: "u32 \<Rightarrow> u32 \<Rightarrow> bool" where
  "SCLOCK_GEQ a b \<longleftrightarrow> a - b < drop_bit 1 (NOT 0)"

definition stimer_set :: "u32 \<Rightarrow> u32 \<Rightarrow> stimer \<Rightarrow> stimer" where
  "stimer_set now interval t = t\<lparr>st_interval := interval, st_start := now\<rparr>"

definition stimer_reset :: "stimer \<Rightarrow> stimer" where
  "stimer_reset t = t\<lparr>st_start := st_start t + st_interval t\<rparr>"

definition stimer_restart :: "u32 \<Rightarrow> stimer \<Rightarrow> stimer" where
  "stimer_restart now t = t\<lparr>st_start := now\<rparr>"

definition stimer_expired :: "u32 \<Rightarrow> stimer \<Rightarrow> bool" where
  "stimer_expired now t = SCLOCK_GEQ now (st_start t + st_interval t)"

definition stimer_remaining :: "u32 \<Rightarrow> stimer \<Rightarrow> u32" where
  "stimer_remaining now t = st_start t + st_interval t - now"

definition stimer_elapsed :: "u32 \<Rightarrow> stimer \<Rightarrow> u32" where
  "stimer_elapsed now t = now - st_start t"

section \<open>Elapsed time\<close>

lemma unat_of_nat_u32: "d < 2 ^ 32 \<Longrightarrow> unat (of_nat d :: u32) = d"
  by (simp add: unat_of_nat)

lemma unat_u32: "unat (w :: u32) < 2 ^ 32"
proof -
  have "unat w < 2 ^ LENGTH(32)" by (rule unsigned_less)
  then show ?thesis by simp
qed

lemma unat_max_u32: "unat (- 1 :: u32) = 2 ^ 32 - 1"
  by (simp add: unsigned_minus_1_eq_mask mask_eq_exp_minus_1)

lemma unat_u32_Suc: "d \<noteq> - 1 \<Longrightarrow> unat (d + 1 :: u32) = unat d + 1"
proof -
  assume "d \<noteq> - 1"
  then have "unat d \<noteq> 2 ^ 32 - 1" using unat_max_u32 by (metis word_unat_eq_iff)
  with unat_u32 [of d] have "unat d + 1 < 2 ^ 32" by linarith
  then show ?thesis by (simp add: unat_word_ariths)
qed

lemma timer_expired_elapsed: "timer_expired now t \<longleftrightarrow> now - t_start t \<noteq> - 1 \<and> t_interval t \<le> now - t_start t"
proof -
  have "i < d + 1 \<longleftrightarrow> d \<noteq> - 1 \<and> i \<le> d" for i d :: u32
    by (cases "d = - 1") (auto simp: word_less_nat_alt word_le_nat_alt unat_u32_Suc)
  then show ?thesis by (simp add: timer_expired_def Let_def)
qed

lemma timer_expired_after:
  assumes "d < 2 ^ 32 - 1" and "now = t_start t + of_nat d"
  shows "timer_expired now t = (unat (t_interval t) \<le> d)"
proof -
  have d: "now - t_start t = of_nat d" using assms(2) by simp
  have u: "unat (of_nat d :: u32) = d" using assms(1) by (simp add: unat_of_nat_u32)
  have "(of_nat d :: u32) \<noteq> - 1" using u assms(1) unat_max_u32 by (metis less_irrefl)
  with u show ?thesis unfolding timer_expired_elapsed d by (simp add: word_le_nat_alt)
qed

text \<open>
  C35. Whenever the timer is set on the wrapping clock, after \<open>d\<close> further
  ticks it has expired exactly when \<open>d\<close> is at least the interval, and until then
  \<open>timer_remaining\<close> counts down to it, for every \<open>d\<close> but the last tick before the
  clock comes round. A reset at any time makes the next expiry exact: one
  interval after the last, without drift.
\<close>

theorem timer_expires_after_interval:
  assumes "d < 2 ^ 32 - 1"
  shows "timer_expired (now + of_nat d) (timer_set now i t) = (unat i \<le> d) \<and>
    (d \<le> unat i \<longrightarrow> unat (timer_remaining (now + of_nat d) (timer_set now i t)) = unat i - d) \<and>
    timer_expired (now + i + of_nat d) (timer_reset (timer_set now i t)) = (unat i \<le> d)"
proof (intro conjI impI)
  show "timer_expired (now + of_nat d) (timer_set now i t) = (unat i \<le> d)"
    using timer_expired_after [OF assms, of "now + of_nat d" "timer_set now i t"] by (simp add: timer_set_def)
  show "timer_expired (now + i + of_nat d) (timer_reset (timer_set now i t)) = (unat i \<le> d)"
    using timer_expired_after [OF assms, of "now + i + of_nat d" "timer_reset (timer_set now i t)"]
    by (simp add: timer_set_def timer_reset_def)
  assume "d \<le> unat i"
  moreover have "unat (of_nat d :: u32) = d" using assms by (simp add: unat_of_nat_u32)
  ultimately show "unat (timer_remaining (now + of_nat d) (timer_set now i t)) = unat i - d"
    by (simp add: timer_remaining_def timer_set_def unat_sub word_le_nat_alt)
qed

lemma timer_expires_after_interval_witness:
  "timer_expired (0xfffffff0 + of_nat 32) (timer_set 0xfffffff0 32 \<lparr>t_start = 0, t_interval = 0\<rparr>) \<and>
   \<not> timer_expired (0xfffffff0 + of_nat 31) (timer_set 0xfffffff0 32 \<lparr>t_start = 0, t_interval = 0\<rparr>)"
  using timer_expires_after_interval [of 32 "0xfffffff0" 32 "\<lparr>t_start = 0, t_interval = 0\<rparr>"]
    timer_expires_after_interval [of 31 "0xfffffff0" 32 "\<lparr>t_start = 0, t_interval = 0\<rparr>"] by simp

text \<open>
  On the tick just before the clock comes round to the start again no timer
  has expired, whatever its interval: the \<open>+ 1\<close> in \<open>timer_expired\<close> wraps to 0.
\<close>

theorem timer_never_expired_at_wrap:
  "\<not> timer_expired (t_start t - 1) t"
  by (simp add: timer_expired_elapsed)

text \<open>
  A timer in seconds has expired after \<open>d\<close> seconds exactly while \<open>d\<close> is in
  the window of \<open>2 ^ 31 - 1\<close> seconds that opens at the interval; the elapsed time
  is exact.
\<close>

theorem stimer_expires_in_window:
  assumes "d < 2 ^ 32"
  shows "stimer_expired (now + of_nat d) (stimer_set now i t) =
      ((d + 2 ^ 32 - unat i) mod 2 ^ 32 < 2 ^ 31 - 1) \<and>
    unat (stimer_elapsed (now + of_nat d) (stimer_set now i t)) = d"
proof -
  have "unat (drop_bit 1 (NOT 0 :: u32)) = 2 ^ 31 - 1"
    by (simp add: mask_eq_exp_minus_1)
  moreover have "unat (of_nat d - i :: u32) = (d + 2 ^ 32 - unat i) mod 2 ^ 32"
    using assms unat_u32 [of i]
    by (auto simp: unat_sub_if_size unat_of_nat_u32 word_size le_mod_geq)
  ultimately show ?thesis
    using assms
    by (simp add: stimer_expired_def SCLOCK_GEQ_def stimer_set_def stimer_elapsed_def word_less_nat_alt
        unat_of_nat_u32 del: of_nat_diff)
qed

lemma stimer_expires_in_window_witness:
  "stimer_expired (0xfffffffe + of_nat 10) (stimer_set 0xfffffffe 10 \<lparr>st_start = 0, st_interval = 0\<rparr>)"
  using stimer_expires_in_window [of 10 "0xfffffffe" 10 "\<lparr>st_start = 0, st_interval = 0\<rparr>"] by simp

end
