(* ===== verification/Process.thy ===== *)
theory Process
  imports Lists
begin

text \<open>
  The process kernel, \<open>core/sys/process.c\<close>: the list of processes, the ring of
  posted events, synchronous and broadcast delivery, polling, starting and
  exiting. The threads are application code. A thread is a function from its
  continuation, the event and the application memory to a program tree: it
  ends with the protothread status it returns, or calls the kernel, commits
  its memory and goes on with the result. Kernel calls of a thread run on the
  state at that moment and may call other threads, so the functions that call
  threads take fuel; \<^term>\<open>None\<close> is lack of fuel or a loop that does not end.
\<close>

section \<open>State\<close>

definition PROCESS_CONF_NUMEVENTS :: nat where "PROCESS_CONF_NUMEVENTS = 32"

definition PROCESS_EVENT_INIT :: u8 where "PROCESS_EVENT_INIT = 0x81"
definition PROCESS_EVENT_POLL :: u8 where "PROCESS_EVENT_POLL = 0x82"
definition PROCESS_EVENT_EXIT :: u8 where "PROCESS_EVENT_EXIT = 0x83"
definition PROCESS_EVENT_EXITED :: u8 where "PROCESS_EVENT_EXITED = 0x87"
definition PROCESS_EVENT_TIMER :: u8 where "PROCESS_EVENT_TIMER = 0x88"
definition PROCESS_EVENT_MAX :: u8 where "PROCESS_EVENT_MAX = 0x8a"

definition PROCESS_STATE_NONE :: u8 where "PROCESS_STATE_NONE = 0"
definition PROCESS_STATE_RUNNING :: u8 where "PROCESS_STATE_RUNNING = 1"
definition PROCESS_STATE_CALLED :: u8 where "PROCESS_STATE_CALLED = 2"

definition PROCESS_ERR_OK :: int where "PROCESS_ERR_OK = 0"
definition PROCESS_ERR_FULL :: int where "PROCESS_ERR_FULL = 1"

definition PT_YIELDED :: int where "PT_YIELDED = 1"
definition PT_EXITED :: int where "PT_EXITED = 2"
definition PT_ENDED :: int where "PT_ENDED = 3"

lemmas process_consts = PROCESS_CONF_NUMEVENTS_def PROCESS_EVENT_INIT_def PROCESS_EVENT_POLL_def
  PROCESS_EVENT_EXIT_def PROCESS_EVENT_EXITED_def PROCESS_EVENT_TIMER_def PROCESS_EVENT_MAX_def
  PROCESS_STATE_NONE_def PROCESS_STATE_RUNNING_def PROCESS_STATE_CALLED_def
  PROCESS_ERR_OK_def PROCESS_ERR_FULL_def PT_YIELDED_def PT_EXITED_def PT_ENDED_def

text \<open>The \<open>void *\<close> that goes with an event: NULL, a process, or another object.\<close>

datatype ('p, 'd) pdata = DNull | DProc 'p | DPtr 'd

record ('p, 'd) event_data =
  ed_ev :: u8
  ed_data :: "('p, 'd) pdata"
  ed_p :: "'p ptr"

record ('p, 'd) kernel =
  process_list :: "'p ptr"
  process_current :: "'p ptr"
  p_next :: "'p \<Rightarrow> 'p ptr"
  p_lc :: "'p \<Rightarrow> nat"
  p_state :: "'p \<Rightarrow> u8"
  p_needspoll :: "'p \<Rightarrow> u8"
  lastevent :: u8
  nevents :: u8
  fevent :: u8
  events :: "('p, 'd) event_data list"
  poll_requested :: u8

section \<open>Operations that call no thread\<close>

definition process_alloc_event :: "('p, 'd) kernel \<Rightarrow> u8 \<times> ('p, 'd) kernel" where
  "process_alloc_event k = (lastevent k, k\<lparr>lastevent := lastevent k + 1\<rparr>)"

definition process_init :: "('p, 'd) kernel \<Rightarrow> ('p, 'd) kernel" where
  "process_init k = k\<lparr>lastevent := PROCESS_EVENT_MAX, nevents := 0, fevent := 0,
     process_current := None, process_list := None\<rparr>"

definition process_is_running :: "'p \<Rightarrow> ('p, 'd) kernel \<Rightarrow> bool" where
  "process_is_running p k \<longleftrightarrow> p_state k p \<noteq> PROCESS_STATE_NONE"

definition process_nevents :: "('p, 'd) kernel \<Rightarrow> int" where
  "process_nevents k = uint (nevents k) + uint (poll_requested k)"

definition process_poll :: "'p ptr \<Rightarrow> ('p, 'd) kernel \<Rightarrow> ('p, 'd) kernel" where
  "process_poll p k = (case p of
       None \<Rightarrow> k
     | Some p \<Rightarrow>
         if p_state k p = PROCESS_STATE_RUNNING \<or> p_state k p = PROCESS_STATE_CALLED
         then k\<lparr>p_needspoll := (p_needspoll k)(p := 1), poll_requested := 1\<rparr>
         else k)"

definition process_post :: "'p ptr \<Rightarrow> u8 \<Rightarrow> ('p, 'd) pdata \<Rightarrow> ('p, 'd) kernel \<Rightarrow> int \<times> ('p, 'd) kernel" where
  "process_post p ev data k =
     (if unat (nevents k) = PROCESS_CONF_NUMEVENTS then (PROCESS_ERR_FULL, k)
      else (let snum = unat (fevent k + nevents k) mod PROCESS_CONF_NUMEVENTS
        in (PROCESS_ERR_OK,
            k\<lparr>events := (events k)[snum := \<lparr>ed_ev = ev, ed_data = data, ed_p = p\<rparr>],
              nevents := nevents k + 1\<rparr>)))"

text \<open>The part of \<open>do_event\<close> that takes the next event from the ring.\<close>

definition next_event :: "('p, 'd) kernel \<Rightarrow> ('p, 'd) event_data option \<times> ('p, 'd) kernel" where
  "next_event k =
     (if nevents k > 0
      then (Some (events k ! unat (fevent k)),
            k\<lparr>fevent := of_nat ((unat (fevent k) + 1) mod PROCESS_CONF_NUMEVENTS), nevents := nevents k - 1\<rparr>)
      else (None, k))"

text \<open>The search loop of \<open>process_start\<close> and \<open>exit_process\<close>; the result is the final \<open>q\<close>.\<close>

partial_function (option) find_process :: "('p \<Rightarrow> 'p ptr) \<Rightarrow> 'p \<Rightarrow> 'p ptr \<Rightarrow> 'p ptr option" where
  "find_process nx p q = (case q of
       None \<Rightarrow> Some None
     | Some x \<Rightarrow> if x = p then Some (Some x) else find_process nx p (nx x))"

partial_function (option) unlink_process_loop :: "'p \<Rightarrow> ('p, 'd) kernel \<Rightarrow> 'p ptr \<Rightarrow> ('p, 'd) kernel option" where
  "unlink_process_loop p k q = (case q of
       None \<Rightarrow> Some k
     | Some x \<Rightarrow> if p_next k x = Some p then Some (k\<lparr>p_next := (p_next k)(x := p_next k p)\<rparr>)
                 else unlink_process_loop p k (p_next k x))"

definition unlink_process :: "'p \<Rightarrow> ('p, 'd) kernel \<Rightarrow> ('p, 'd) kernel option" where
  "unlink_process p k =
     (if process_list k = Some p then Some (k\<lparr>process_list := p_next k p\<rparr>)
      else unlink_process_loop p k (process_list k))"

section \<open>Threads\<close>

datatype ('p, 'd) syscall =
    SPost "'p ptr" u8 "('p, 'd) pdata"
  | SPostSynch 'p u8 "('p, 'd) pdata"
  | SStart 'p "('p, 'd) pdata"
  | SExit 'p
  | SPoll "'p ptr"
  | SIsRunning 'p
  | SAllocEvent
  | SCurrent

datatype 'p sysres = RInt int | RPtr "'p ptr"

datatype ('p, 'd, 'u) prog =
    Ret int nat 'u
  | Call "('p, 'd) syscall" 'u "'p sysres \<Rightarrow> 'u \<Rightarrow> ('p, 'd, 'u) prog"

type_synonym ('p, 'd, 'u) threads =
  "'p \<Rightarrow> (nat \<Rightarrow> u8 \<Rightarrow> ('p, 'd) pdata \<Rightarrow> 'u \<Rightarrow> ('p, 'd, 'u) prog) option"

type_synonym ('p, 'd, 'u) sys = "('p, 'd) kernel \<times> 'u"

section \<open>Operations that call threads\<close>

text \<open>
  The functions call each other through the runner \<open>rec\<close>, which executes a job:
  a kernel function with its arguments, or the rest of a thread. \<open>kexec\<close> ties
  the knot, one unit of fuel for each nested call.
\<close>

datatype ('p, 'd, 'u) job =
    JCall 'p u8 "('p, 'd) pdata"
  | JExit 'p "'p ptr"
  | JNotify 'p "'p ptr"
  | JStart 'p "('p, 'd) pdata"
  | JSynch 'p u8 "('p, 'd) pdata"
  | JThread 'p "('p, 'd, 'u) prog"
  | JSys "('p, 'd) syscall"

type_synonym ('p, 'd, 'u) runner =
  "('p, 'd, 'u) job \<Rightarrow> ('p, 'd, 'u) sys \<Rightarrow> ('p sysres \<times> ('p, 'd, 'u) sys) option"

definition call_process :: "('p, 'd, 'u) threads \<Rightarrow> ('p, 'd, 'u) runner \<Rightarrow> 'p \<Rightarrow> u8 \<Rightarrow> ('p, 'd) pdata \<Rightarrow>
    ('p, 'd, 'u) sys \<Rightarrow> ('p sysres \<times> ('p, 'd, 'u) sys) option" where
  "call_process th rec p ev data s = (let (k, u) = s in
     case th p of
        None \<Rightarrow> Some (RInt 0, k, u)
      | Some t \<Rightarrow>
          if p_state k p AND PROCESS_STATE_RUNNING \<noteq> 0 then do {
            let k = k\<lparr>process_current := Some p, p_state := (p_state k)(p := PROCESS_STATE_CALLED)\<rparr>;
            (ret, k, u) \<leftarrow> rec (JThread p (t (p_lc k p) ev data u)) (k, u);
            if ret = RInt PT_EXITED \<or> ret = RInt PT_ENDED \<or> ev = PROCESS_EVENT_EXIT
            then rec (JExit p (Some p)) (k, u)
            else Some (RInt 0, k\<lparr>p_state := (p_state k)(p := PROCESS_STATE_RUNNING)\<rparr>, u)
          } else Some (RInt 0, k, u))"

text \<open>The part of \<open>exit_process\<close> under \<open>process_is_running\<close>.\<close>

definition exit_running :: "('p, 'd, 'u) threads \<Rightarrow> ('p, 'd, 'u) runner \<Rightarrow> 'p \<Rightarrow> 'p ptr \<Rightarrow>
    ('p, 'd, 'u) sys \<Rightarrow> ('p sysres \<times> ('p, 'd, 'u) sys) option" where
  "exit_running th rec p frm s = (let (k, u) = s in do {
     let k = k\<lparr>p_state := (p_state k)(p := PROCESS_STATE_NONE)\<rparr>;
     (_, k, u) \<leftarrow> rec (JNotify p (process_list k)) (k, u);
     (case th p of
        None \<Rightarrow> Some (RInt 0, k, u)
      | Some t \<Rightarrow>
          if Some p \<noteq> frm
          then rec (JThread p (t (p_lc k p) PROCESS_EVENT_EXIT DNull u)) (k\<lparr>process_current := Some p\<rparr>, u)
          else Some (RInt 0, k, u))
   })"

definition exit_process :: "('p, 'd, 'u) threads \<Rightarrow> ('p, 'd, 'u) runner \<Rightarrow> 'p \<Rightarrow> 'p ptr \<Rightarrow>
    ('p, 'd, 'u) sys \<Rightarrow> ('p sysres \<times> ('p, 'd, 'u) sys) option" where
  "exit_process th rec p frm s = (let (k, u) = s in do {
     let old_current = process_current k;
     q \<leftarrow> find_process (p_next k) p (process_list k);
     if q = None then Some (RInt 0, k, u)
     else do {
       (_, k, u) \<leftarrow> (if process_is_running p k then exit_running th rec p frm (k, u) else Some (RInt 0, k, u));
       k \<leftarrow> unlink_process p k;
       Some (RInt 0, k\<lparr>process_current := old_current\<rparr>, u)
     }
   })"

text \<open>The loop that tells the other processes, one iteration at a time.\<close>

definition notify_exited :: "('p, 'd, 'u) runner \<Rightarrow> 'p \<Rightarrow> 'p ptr \<Rightarrow>
    ('p, 'd, 'u) sys \<Rightarrow> ('p sysres \<times> ('p, 'd, 'u) sys) option" where
  "notify_exited rec p q s = (let (k, u) = s in
     case q of
       None \<Rightarrow> Some (RInt 0, k, u)
     | Some x \<Rightarrow> do {
         (_, k, u) \<leftarrow> (if p \<noteq> x then rec (JCall x PROCESS_EVENT_EXITED (DProc p)) (k, u) else Some (RInt 0, k, u));
         rec (JNotify p (p_next k x)) (k, u)
       })"

definition process_start :: "('p, 'd, 'u) runner \<Rightarrow> 'p \<Rightarrow> ('p, 'd) pdata \<Rightarrow>
    ('p, 'd, 'u) sys \<Rightarrow> ('p sysres \<times> ('p, 'd, 'u) sys) option" where
  "process_start rec p data s = (let (k, u) = s in do {
     q \<leftarrow> find_process (p_next k) p (process_list k);
     if q = Some p then Some (RInt 0, k, u)
     else rec (JSynch p PROCESS_EVENT_INIT data)
       (k\<lparr>p_next := (p_next k)(p := process_list k), process_list := Some p,
          p_state := (p_state k)(p := PROCESS_STATE_RUNNING), p_lc := (p_lc k)(p := 0)\<rparr>, u)
   })"

definition process_post_synch :: "('p, 'd, 'u) runner \<Rightarrow> 'p \<Rightarrow> u8 \<Rightarrow> ('p, 'd) pdata \<Rightarrow>
    ('p, 'd, 'u) sys \<Rightarrow> ('p sysres \<times> ('p, 'd, 'u) sys) option" where
  "process_post_synch rec p ev data s = (let (k, u) = s in do {
     let caller = process_current k;
     (_, k, u) \<leftarrow> rec (JCall p ev data) (k, u);
     Some (RInt 0, k\<lparr>process_current := caller\<rparr>, u)
   })"

fun run_thread :: "('p, 'd, 'u) runner \<Rightarrow> 'p \<Rightarrow> ('p, 'd, 'u) prog \<Rightarrow>
    ('p, 'd, 'u) sys \<Rightarrow> ('p sysres \<times> ('p, 'd, 'u) sys) option" where
  "run_thread rec p (Ret status lc u') (k, u) = Some (RInt status, k\<lparr>p_lc := (p_lc k)(p := lc)\<rparr>, u')"
| "run_thread rec p (Call sc u' c) (k, u) = do {
     (r, k, u) \<leftarrow> rec (JSys sc) (k, u');
     rec (JThread p (c r u)) (k, u)
   }"

fun run_syscall :: "('p, 'd, 'u) runner \<Rightarrow> ('p, 'd) syscall \<Rightarrow>
    ('p, 'd, 'u) sys \<Rightarrow> ('p sysres \<times> ('p, 'd, 'u) sys) option" where
  "run_syscall rec (SPost p ev data) (k, u) = (let (r, k) = process_post p ev data k in Some (RInt r, k, u))"
| "run_syscall rec (SPostSynch p ev data) s = rec (JSynch p ev data) s"
| "run_syscall rec (SStart p data) s = rec (JStart p data) s"
| "run_syscall rec (SExit p) (k, u) = rec (JExit p (process_current k)) (k, u)"
| "run_syscall rec (SPoll p) (k, u) = Some (RInt 0, process_poll p k, u)"
| "run_syscall rec (SIsRunning p) (k, u) = Some (RInt (c_bool (process_is_running p k)), k, u)"
| "run_syscall rec SAllocEvent (k, u) = (let (e, k) = process_alloc_event k in Some (RInt (uint e), k, u))"
| "run_syscall rec SCurrent (k, u) = Some (RPtr (process_current k), k, u)"

fun kstep :: "('p, 'd, 'u) threads \<Rightarrow> ('p, 'd, 'u) runner \<Rightarrow> ('p, 'd, 'u) runner" where
  "kstep th rec (JCall p ev data) s = call_process th rec p ev data s"
| "kstep th rec (JExit p frm) s = exit_process th rec p frm s"
| "kstep th rec (JNotify p q) s = notify_exited rec p q s"
| "kstep th rec (JStart p data) s = process_start rec p data s"
| "kstep th rec (JSynch p ev data) s = process_post_synch rec p ev data s"
| "kstep th rec (JThread p prog) s = run_thread rec p prog s"
| "kstep th rec (JSys sc) s = run_syscall rec sc s"

primrec kexec :: "('p, 'd, 'u) threads \<Rightarrow> nat \<Rightarrow> ('p, 'd, 'u) runner" where
  "kexec th 0 = (\<lambda>j s. None)"
| "kexec th (Suc n) = kstep th (kexec th n)"

definition process_exit :: "('p, 'd, 'u) runner \<Rightarrow> 'p \<Rightarrow> ('p, 'd, 'u) sys \<Rightarrow>
    ('p sysres \<times> ('p, 'd, 'u) sys) option" where
  "process_exit rec p s = rec (JExit p (process_current (fst s))) s"

section \<open>The scheduler\<close>

fun poll_loop :: "('p, 'd, 'u) threads \<Rightarrow> nat \<Rightarrow> 'p ptr \<Rightarrow> ('p, 'd, 'u) sys \<Rightarrow> ('p, 'd, 'u) sys option" where
  "poll_loop th 0 q s = None"
| "poll_loop th (Suc n) q (k, u) = (case q of
       None \<Rightarrow> Some (k, u)
     | Some p \<Rightarrow> do {
         (k, u) \<leftarrow>
           (if p_needspoll k p \<noteq> 0
            then map_option snd (kexec th n (JCall p PROCESS_EVENT_POLL DNull)
              (k\<lparr>p_state := (p_state k)(p := PROCESS_STATE_RUNNING), p_needspoll := (p_needspoll k)(p := 0)\<rparr>, u))
            else Some (k, u));
         poll_loop th n (p_next k p) (k, u)
       })"

definition do_poll :: "('p, 'd, 'u) threads \<Rightarrow> nat \<Rightarrow> ('p, 'd, 'u) sys \<Rightarrow> ('p, 'd, 'u) sys option" where
  "do_poll th n s = (let (k, u) = s; k = k\<lparr>poll_requested := 0\<rparr> in poll_loop th n (process_list k) (k, u))"

fun broadcast_loop :: "('p, 'd, 'u) threads \<Rightarrow> nat \<Rightarrow> u8 \<Rightarrow> ('p, 'd) pdata \<Rightarrow> 'p ptr \<Rightarrow> ('p, 'd, 'u) sys \<Rightarrow>
    ('p, 'd, 'u) sys option" where
  "broadcast_loop th 0 ev data q s = None"
| "broadcast_loop th (Suc n) ev data q s = (case q of
       None \<Rightarrow> Some s
     | Some p \<Rightarrow> do {
         s \<leftarrow> (if poll_requested (fst s) \<noteq> 0 then do_poll th n s else Some s);
         s \<leftarrow> map_option snd (kexec th n (JCall p ev data) s);
         broadcast_loop th n ev data (p_next (fst s) p) s
       })"

definition do_event :: "('p, 'd, 'u) threads \<Rightarrow> nat \<Rightarrow> ('p, 'd, 'u) sys \<Rightarrow> ('p, 'd, 'u) sys option" where
  "do_event th n s =
     (let (k, u) = s in
      case next_event k of
        (None, k) \<Rightarrow> Some (k, u)
      | (Some e, k) \<Rightarrow>
          (case ed_p e of
             None \<Rightarrow> broadcast_loop th n (ed_ev e) (ed_data e) (process_list k) (k, u)
           | Some receiver \<Rightarrow>
               (let k = (if ed_ev e = PROCESS_EVENT_INIT
                         then k\<lparr>p_state := (p_state k)(receiver := PROCESS_STATE_RUNNING)\<rparr> else k)
                in map_option snd (kexec th n (JCall receiver (ed_ev e) (ed_data e)) (k, u)))))"

definition process_run :: "('p, 'd, 'u) threads \<Rightarrow> nat \<Rightarrow> ('p, 'd, 'u) sys \<Rightarrow> (int \<times> ('p, 'd, 'u) sys) option" where
  "process_run th n s = do {
     s \<leftarrow> (if poll_requested (fst s) \<noteq> 0 then do_poll th n s else Some s);
     s \<leftarrow> do_event th n s;
     Some (process_nevents (fst s), s)
   }"

section \<open>The process list\<close>

definition procs :: "('p, 'd) kernel \<Rightarrow> 'p list \<Rightarrow> bool" where
  "procs k xs = seg (p_next k) (process_list k) xs None"

lemma find_process_seg:
  "seg nx q xs None \<Longrightarrow> find_process nx p q = Some (if p \<in> set xs then Some p else None)"
  by (induction xs arbitrary: q) (auto simp: find_process.simps)

lemma unlink_loop_absent:
  "seg (p_next k) q (x # xs) None \<Longrightarrow> p \<notin> set xs \<Longrightarrow> unlink_process_loop p k q = Some k"
proof (induction xs arbitrary: q x)
  case Nil
  then show ?case by (simp add: unlink_process_loop.simps)
next
  case (Cons y ys)
  then show ?case by (subst unlink_process_loop.simps) auto
qed

lemma unlink_loop_present:
  "seg (p_next k) q (us @ x # p # vs) None \<Longrightarrow> p \<notin> set us \<Longrightarrow> p \<noteq> x \<Longrightarrow>
   unlink_process_loop p k q = Some (k\<lparr>p_next := (p_next k)(x := p_next k p)\<rparr>)"
proof (induction us arbitrary: q)
  case Nil
  then show ?case by (subst unlink_process_loop.simps) (clarsimp simp del: fun_upd_apply)
next
  case (Cons u us)
  then have "p_next k u \<noteq> Some p" by (cases us) auto
  with Cons show ?case by (subst unlink_process_loop.simps) (clarsimp simp del: fun_upd_apply)
qed

lemma unlink_process_procs:
  assumes "procs k xs"
  obtains h nx where "unlink_process p k = Some (k\<lparr>process_list := h, p_next := nx\<rparr>)"
    and "procs (k\<lparr>process_list := h, p_next := nx\<rparr>) (remove1 p xs)" and "p \<notin> set (remove1 p xs)"
proof (cases "p \<in> set xs")
  case False
  then have "unlink_process p k = Some k"
    using assms unlink_loop_absent [of k "process_list k" "hd xs" "tl xs" p]
    by (cases xs) (auto simp: unlink_process_def procs_def unlink_process_loop.simps)
  then show thesis using assms False that [where h = "process_list k" and nx = "p_next k"] by (simp add: remove1_idem)
next
  case True
  then obtain us vs where xs: "xs = us @ p # vs" "p \<notin> set us" by (meson split_list_first)
  have d: "distinct xs" using assms by (auto simp: procs_def dest: seg_distinct)
  show thesis
  proof (cases us rule: rev_cases)
    case Nil
    have "k\<lparr>process_list := p_next k p\<rparr> = k\<lparr>process_list := p_next k p, p_next := p_next k\<rparr>" by simp
    moreover have "unlink_process p k = Some (k\<lparr>process_list := p_next k p\<rparr>)"
      using Nil assms xs by (simp add: unlink_process_def procs_def)
    ultimately have 1: "unlink_process p k = Some (k\<lparr>process_list := p_next k p, p_next := p_next k\<rparr>)" by simp
    have 2: "procs (k\<lparr>process_list := p_next k p, p_next := p_next k\<rparr>) (remove1 p xs)"
      using Nil assms xs by (simp add: procs_def)
    have "p \<notin> set (remove1 p xs)" using Nil xs(1) d by simp
    from that [OF 1 2 this] show thesis .
  next
    case (snoc ws x)
    have "process_list k \<noteq> Some p" using assms xs snoc by (cases ws) (auto simp: procs_def)
    then have "unlink_process p k = Some (k\<lparr>p_next := (p_next k)(x := p_next k p)\<rparr>)"
      using assms xs snoc unlink_loop_present [of k "process_list k" ws x p vs]
      by (simp add: unlink_process_def procs_def)
    moreover have "seg ((p_next k)(x := p_next k p)) (process_list k) (us @ vs) None"
      using assms xs snoc d by (auto simp: procs_def seg_append)
    ultimately show thesis
      using that [where h = "process_list k" and nx = "(p_next k)(x := p_next k p)"] xs d
      by (simp add: procs_def remove1_append)
  qed
qed

section \<open>The kernel invariant\<close>

definition kernel_inv :: "('p, 'd) kernel \<Rightarrow> bool" where
  "kernel_inv k \<longleftrightarrow> (\<exists>xs. procs k xs) \<and> unat (nevents k) \<le> PROCESS_CONF_NUMEVENTS \<and>
     unat (fevent k) < PROCESS_CONF_NUMEVENTS \<and> length (events k) = PROCESS_CONF_NUMEVENTS"

lemma kernel_inv_cong [simp]:
  "kernel_inv (k\<lparr>process_current := c\<rparr>) = kernel_inv k"
  "kernel_inv (k\<lparr>p_state := s\<rparr>) = kernel_inv k"
  "kernel_inv (k\<lparr>p_lc := l\<rparr>) = kernel_inv k"
  "kernel_inv (k\<lparr>p_needspoll := b\<rparr>) = kernel_inv k"
  "kernel_inv (k\<lparr>poll_requested := q\<rparr>) = kernel_inv k"
  "kernel_inv (k\<lparr>lastevent := e\<rparr>) = kernel_inv k"
  by (simp_all add: kernel_inv_def procs_def)

lemma process_init_inv: "length (events k) = PROCESS_CONF_NUMEVENTS \<Longrightarrow> kernel_inv (process_init k)"
  by (auto simp: kernel_inv_def procs_def process_init_def PROCESS_CONF_NUMEVENTS_def intro: exI [of _ "[]"])

lemma unat_u8_Suc: "unat (n :: u8) < 255 \<Longrightarrow> unat (n + 1) = Suc (unat n)"
  by (simp add: unat_word_ariths)

lemma process_post_inv: "kernel_inv k \<Longrightarrow> kernel_inv (snd (process_post p ev data k))"
  by (auto simp: kernel_inv_def procs_def process_post_def Let_def PROCESS_CONF_NUMEVENTS_def unat_u8_Suc)

lemma process_poll_inv: "kernel_inv k \<Longrightarrow> kernel_inv (process_poll p k)"
  by (auto simp: kernel_inv_def procs_def process_poll_def split: option.split)

lemma unat_u8_minus_1: "(n :: u8) > 0 \<Longrightarrow> unat (n - 1) = unat n - 1"
  by (metis unat_minus_one word_neq_0_conv)

lemma next_event_inv: "kernel_inv k \<Longrightarrow> kernel_inv (snd (next_event k))"
  by (auto simp: kernel_inv_def procs_def next_event_def PROCESS_CONF_NUMEVENTS_def unat_u8_minus_1 unat_of_nat)

text \<open>A run that keeps the invariant, when it returns; with a rule for each construct.\<close>

definition ok :: "('r \<times> ('p, 'd, 'u) sys) option \<Rightarrow> bool" where
  "ok m \<longleftrightarrow> (\<forall>r k u. m = Some (r, k, u) \<longrightarrow> kernel_inv k)"

lemma ok_intros:
  "ok None"
  "kernel_inv k \<Longrightarrow> ok (Some (r, k, u))"
  "ok m \<Longrightarrow> (\<And>r k u. kernel_inv k \<Longrightarrow> ok (f (r, k, u))) \<Longrightarrow> ok (Option.bind m f)"
  "(b \<Longrightarrow> ok m) \<Longrightarrow> (\<not> b \<Longrightarrow> ok m') \<Longrightarrow> ok (if b then m else m')"
  by (auto simp: ok_def bind_eq_Some_conv) blast

definition keeps_inv :: "('p, 'd, 'u) runner \<Rightarrow> bool" where
  "keeps_inv rec \<longleftrightarrow> (\<forall>j k u. kernel_inv k \<longrightarrow> ok (rec j (k, u)))"

lemma ok_rec: "keeps_inv rec \<Longrightarrow> kernel_inv k \<Longrightarrow> ok (rec j (k, u))"
  by (simp add: keeps_inv_def)

lemma call_process_inv:
  assumes "keeps_inv rec" and "kernel_inv k"
  shows "ok (call_process th rec p ev data (k, u))"
  using assms(2) by (auto simp: call_process_def Let_def intro!: ok_intros ok_rec [OF assms(1)] split: option.split)

lemma exit_running_inv:
  assumes "keeps_inv rec" and "kernel_inv k"
  shows "ok (exit_running th rec p frm (k, u))"
  using assms(2) by (auto simp: exit_running_def Let_def intro!: ok_intros ok_rec [OF assms(1)] split: option.split)

text \<open>After \<open>exit_process\<close> the process is off the list.\<close>

lemma exit_process_removed:
  assumes rec: "keeps_inv rec" and k: "kernel_inv k"
    and e: "exit_process th rec p frm (k, u) = Some (r, k', u')"
  shows "kernel_inv k' \<and> (\<exists>xs. procs k' xs \<and> p \<notin> set xs)"
proof -
  from k obtain xs where xs: "procs k xs" by (auto simp: kernel_inv_def)
  show ?thesis
  proof (cases "p \<in> set xs")
    case False
    with e xs k show ?thesis
      by (auto simp: exit_process_def Let_def find_process_seg procs_def)
  next
    case True
    with e xs obtain r0 k1 k2 where
      1: "(if process_is_running p k then exit_running th rec p frm (k, u) else Some (RInt 0, k, u)) =
          Some (r0, k1, u')" and
      2: "unlink_process p k1 = Some k2" "k' = k2\<lparr>process_current := process_current k\<rparr>"
      by (auto simp: exit_process_def Let_def find_process_seg procs_def bind_eq_Some_conv)
    have "kernel_inv k1" using 1 exit_running_inv [OF rec k, of th p frm u] k by (simp add: ok_def split: if_splits)
    then obtain ys where ys: "procs k1 ys" and i: "kernel_inv k1" by (auto simp: kernel_inv_def)
    from unlink_process_procs [OF ys, of p] 2(1) obtain h nx where
      "k2 = k1\<lparr>process_list := h, p_next := nx\<rparr>" "procs k2 (remove1 p ys)" "p \<notin> set (remove1 p ys)"
      by (metis option.inject)
    with i 2(2) show ?thesis
      by (auto simp: kernel_inv_def procs_def)
  qed
qed

lemma notify_exited_inv:
  assumes "keeps_inv rec" and "kernel_inv k"
  shows "ok (notify_exited rec p q (k, u))"
  using assms(2) by (auto simp: notify_exited_def Let_def intro!: ok_intros ok_rec [OF assms(1)] split: option.split)

lemma process_start_inv:
  assumes rec: "keeps_inv rec" and k: "kernel_inv k"
  shows "ok (process_start rec p data (k, u))"
proof -
  from k obtain xs where xs: "procs k xs" by (auto simp: kernel_inv_def)
  let ?k = "k\<lparr>p_next := (p_next k)(p := process_list k), process_list := Some p,
        p_state := (p_state k)(p := PROCESS_STATE_RUNNING), p_lc := (p_lc k)(p := 0)\<rparr>"
  have "procs ?k (p # xs)" if "p \<notin> set xs" using xs that by (simp add: procs_def)
  then have "kernel_inv ?k" if "p \<notin> set xs" using k that by (simp add: kernel_inv_def) blast
  then show ?thesis
    using xs k by (auto simp: process_start_def find_process_seg procs_def intro!: ok_intros ok_rec [OF rec])
qed

lemma kstep_inv:
  fixes rec :: "('p, 'd, 'u) runner"
  assumes rec: "keeps_inv rec"
  shows "keeps_inv (kstep th rec)"
  unfolding keeps_inv_def [of "kstep th rec"]
proof (intro allI impI)
  fix j :: "('p, 'd, 'u) job" and k :: "('p, 'd) kernel" and u :: 'u
  assume k: "kernel_inv k"
  show "ok (kstep th rec j (k, u))"
  proof (cases j)
    case (JThread p prog)
    then show ?thesis by (cases prog) (auto intro!: ok_intros ok_rec [OF rec] k)
  next
    case (JSys sc)
    then show ?thesis
      using process_post_inv [OF k]
      by (cases sc) (auto simp: process_alloc_event_def process_poll_inv k case_prod_beta
          intro!: ok_intros ok_rec [OF rec])
  next
    case (JExit p frm)
    then show ?thesis using exit_process_removed [OF rec k] by (auto simp: ok_def)
  next
    case (JSynch p ev data)
    then show ?thesis by (auto simp: process_post_synch_def Let_def k intro!: ok_intros ok_rec [OF rec])
  qed (simp_all add: k call_process_inv [OF rec] notify_exited_inv [OF rec] process_start_inv [OF rec])
qed

lemma kexec_inv: "keeps_inv (kexec th n)"
proof (induction n)
  case 0
  then show ?case by (simp add: keeps_inv_def ok_intros(1))
next
  case (Suc n)
  then show ?case by (simp add: kstep_inv)
qed

section \<open>The event queue\<close>

definition pending :: "('p, 'd) kernel \<Rightarrow> ('p, 'd) event_data list" where
  "pending k = ring_slice PROCESS_CONF_NUMEVENTS (events k) (unat (fevent k)) (unat (nevents k))"

type_synonym ('p, 'd) event_result = "int + ('p, 'd) event_data option"

definition post_put :: "('p, 'd) event_data \<Rightarrow> ('p, 'd) kernel \<Rightarrow> (('p, 'd) event_result \<times> ('p, 'd) kernel) option" where
  "post_put e k = Some (map_prod Inl id (process_post (ed_p e) (ed_ev e) (ed_data e) k))"

definition event_get :: "('p, 'd) kernel \<Rightarrow> (('p, 'd) event_result \<times> ('p, 'd) kernel) option" where
  "event_get k = Some (map_prod Inr id (next_event k))"

text \<open>What \<open>process_post\<close> and the taking of an event return for the results of the queue.\<close>

fun event_result :: "('p, 'd) event_data qres \<Rightarrow> ('p, 'd) event_result" where
  "event_result Accepted = Inl PROCESS_ERR_OK"
| "event_result Rejected = Inl PROCESS_ERR_FULL"
| "event_result (Item e) = Inr (Some e)"
| "event_result Empty = Inr None"

lemma unat_add_mod_32: "unat (a + b :: u8) mod 32 = (unat a + unat b) mod 32"
  using mod_256_mod_pow2 [of 5 "unat a + unat b"] by (simp add: unat_word_ariths)

interpretation eq: bounded_fifo post_put event_get event_result pending kernel_inv PROCESS_CONF_NUMEVENTS
proof unfold_locales
  fix k :: "('a, 'b) kernel" and e :: "('a, 'b) event_data"
  assume k: "kernel_inv k" and l: "length (pending k) < PROCESS_CONF_NUMEVENTS"
  then have n: "unat (nevents k) < 32" by (simp add: pending_def PROCESS_CONF_NUMEVENTS_def)
  let ?k = "snd (process_post (ed_p e) (ed_ev e) (ed_data e) k)"
  have "kernel_inv ?k" using process_post_inv [OF k] .
  moreover obtain ev d p where e: "e = \<lparr>ed_ev = ev, ed_data = d, ed_p = p\<rparr>" by (cases e)
  then have "pending ?k = pending k @ [e]"
    using n k ring_slice_put [of "unat (nevents k)" 32 "events k" "unat (fevent k)" e]
    by (simp add: pending_def process_post_def Let_def PROCESS_CONF_NUMEVENTS_def unat_u8_Suc
        unat_add_mod_32 kernel_inv_def)
  moreover have "fst (process_post (ed_p e) (ed_ev e) (ed_data e) k) = PROCESS_ERR_OK"
    using n by (simp add: process_post_def Let_def PROCESS_CONF_NUMEVENTS_def)
  ultimately show "\<exists>k'. post_put e k = Some (event_result Accepted, k') \<and> kernel_inv k' \<and> pending k' = pending k @ [e]"
    by (simp add: post_put_def map_prod_def split_beta)
next
  fix k :: "('a, 'b) kernel" and e :: "('a, 'b) event_data"
  assume "kernel_inv k" and "PROCESS_CONF_NUMEVENTS \<le> length (pending k)"
  then have "unat (nevents k) = PROCESS_CONF_NUMEVENTS" by (simp add: pending_def kernel_inv_def)
  then show "post_put e k = Some (event_result Rejected, k)"
    by (simp add: post_put_def process_post_def)
next
  fix k :: "('a, 'b) kernel" and e :: "('a, 'b) event_data" and q
  assume k: "kernel_inv k" and p: "pending k = e # q"
  then obtain m where m: "unat (nevents k) = Suc m"
    by (cases "unat (nevents k)") (auto simp: pending_def)
  then have pos: "nevents k > 0" by (simp add: word_less_nat_alt)
  have f: "unat (fevent k) < 32" using k by (simp add: kernel_inv_def PROCESS_CONF_NUMEVENTS_def)
  have "e # q = events k ! unat (fevent k) #
      ring_slice 32 (events k) ((unat (fevent k) + 1) mod 32) m"
    using p m f by (simp add: pending_def PROCESS_CONF_NUMEVENTS_def ring_slice_get)
  moreover have "pending (snd (next_event k)) = ring_slice 32 (events k) ((unat (fevent k) + 1) mod 32) m"
    using pos m by (simp add: next_event_def pending_def PROCESS_CONF_NUMEVENTS_def unat_u8_minus_1 unat_of_nat)
  ultimately show "\<exists>k'. event_get k = Some (event_result (Item e), k') \<and> kernel_inv k' \<and> pending k' = q"
    using pos next_event_inv [OF k] by (auto simp: event_get_def next_event_def)
next
  fix k :: "('a, 'b) kernel"
  assume "kernel_inv k" and "pending k = []"
  then have "unat (nevents k) = 0" by (metis length_ring_slice list.size(3) pending_def)
  then have "nevents k = 0" by (simp add: unat_eq_0)
  then show "event_get k = Some (event_result Empty, k)" by (simp add: event_get_def next_event_def)
qed

lemma post_accepted:
  assumes "kernel_inv k" and "length (pending k) < PROCESS_CONF_NUMEVENTS"
  obtains k' where "process_post p ev data k = (PROCESS_ERR_OK, k')" and "kernel_inv k'"
    and "pending k' = pending k @ [\<lparr>ed_ev = ev, ed_data = data, ed_p = p\<rparr>]"
  using eq.put_ok [OF assms, of "\<lparr>ed_ev = ev, ed_data = data, ed_p = p\<rparr>"] that
  by (cases "process_post p ev data k") (auto simp: post_put_def)

lemma post_refused:
  assumes "kernel_inv k" and "PROCESS_CONF_NUMEVENTS \<le> length (pending k)"
  shows "process_post p ev data k = (PROCESS_ERR_FULL, k)"
  using eq.put_full [OF assms, of "\<lparr>ed_ev = ev, ed_data = data, ed_p = p\<rparr>"]
  by (cases "process_post p ev data k") (simp add: post_put_def)

lemma next_event_Cons:
  assumes "kernel_inv k" and "pending k = e # q"
  obtains k' where "next_event k = (Some e, k')" and "kernel_inv k'" and "pending k' = q"
  using eq.get_ok [OF assms] that by (cases "next_event k") (auto simp: event_get_def)

lemma next_event_Nil: "kernel_inv k \<Longrightarrow> pending k = [] \<Longrightarrow> next_event k = (None, k)"
  using eq.get_empty [of k] by (cases "next_event k") (simp add: event_get_def)

section \<open>The scheduler keeps the invariant\<close>

lemma ok_sys_intros:
  "kernel_inv k \<Longrightarrow> kernel_inv (fst (k, u))"
  by simp

lemma kexec_sys_inv: "kernel_inv (fst s) \<Longrightarrow> map_option snd (kexec th n j s) = Some s' \<Longrightarrow> kernel_inv (fst s')"
  using ok_rec [OF kexec_inv, of "fst s" th n j "snd s"] by (cases s') (auto simp: ok_def)

lemma poll_loop_inv: "kernel_inv (fst s) \<Longrightarrow> poll_loop th n q s = Some s' \<Longrightarrow> kernel_inv (fst s')"
proof (induction n arbitrary: q s)
  case (Suc n)
  obtain k u where s: "s = (k, u)" by force
  show ?case
  proof (cases q)
    case (Some p)
    with Suc.prems(2) s obtain k1 u1 where
      1: "(if p_needspoll k p \<noteq> 0
            then map_option snd (kexec th n (JCall p PROCESS_EVENT_POLL DNull)
              (k\<lparr>p_state := (p_state k)(p := PROCESS_STATE_RUNNING), p_needspoll := (p_needspoll k)(p := 0)\<rparr>, u))
            else Some (k, u)) = Some (k1, u1)" and 2: "poll_loop th n (p_next k1 p) (k1, u1) = Some s'"
      by (auto simp: bind_eq_Some_conv simp del: map_option_eq_Some)
    have "kernel_inv (fst (k1, u1))"
    proof (cases "p_needspoll k p \<noteq> 0")
      case True
      with 1 have "map_option snd (kexec th n (JCall p PROCESS_EVENT_POLL DNull)
          (k\<lparr>p_state := (p_state k)(p := PROCESS_STATE_RUNNING), p_needspoll := (p_needspoll k)(p := 0)\<rparr>, u)) =
        Some (k1, u1)" by (simp only: if_True not_False_eq_True)
      from kexec_sys_inv [OF _ this] Suc.prems(1) s show ?thesis by simp
    next
      case False
      with 1 Suc.prems(1) s show ?thesis by simp
    qed
    from Suc.IH [OF this 2] show ?thesis .
  next
    case None
    with Suc.prems s show ?thesis by auto
  qed
qed simp

lemma do_poll_inv: "kernel_inv (fst s) \<Longrightarrow> do_poll th n s = Some s' \<Longrightarrow> kernel_inv (fst s')"
  using poll_loop_inv [of "(fst s\<lparr>poll_requested := 0\<rparr>, snd s)" th n _ s']
  by (simp add: do_poll_def Let_def split_beta)

lemma broadcast_loop_inv: "kernel_inv (fst s) \<Longrightarrow> broadcast_loop th n ev data q s = Some s' \<Longrightarrow> kernel_inv (fst s')"
proof (induction n arbitrary: q s)
  case (Suc n)
  show ?case
  proof (cases q)
    case (Some p)
    with Suc.prems obtain s1 s2 where
      1: "(if poll_requested (fst s) \<noteq> 0 then do_poll th n s else Some s) = Some s1" and
      2: "map_option snd (kexec th n (JCall p ev data) s1) = Some s2" and
      3: "broadcast_loop th n ev data (p_next (fst s2) p) s2 = Some s'"
      by (auto simp: bind_eq_Some_conv simp del: map_option_eq_Some)
    have "kernel_inv (fst s1)" using 1 Suc.prems(1) do_poll_inv [of s th n s1] by (auto split: if_splits)
    from Suc.IH [OF kexec_sys_inv [OF this 2] 3] show ?thesis .
  next
    case None
    with Suc.prems show ?thesis by simp
  qed
qed simp

lemma do_event_inv:
  assumes "kernel_inv (fst s)" and "do_event th n s = Some s'"
  shows "kernel_inv (fst s')"
proof -
  obtain k u where s: "s = (k, u)" by force
  obtain e k1 where e: "next_event k = (e, k1)" by force
  have k1: "kernel_inv k1" using next_event_inv [of k] assms(1) e s by simp
  show ?thesis
  proof (cases e)
    case None
    with assms s e k1 show ?thesis by (auto simp: do_event_def)
  next
    case (Some d)
    show ?thesis
    proof (cases "ed_p d")
      case None
      then have "broadcast_loop th n (ed_ev d) (ed_data d) (process_list k1) (k1, u) = Some s'"
        using assms(2) s e Some by (simp add: do_event_def)
      from broadcast_loop_inv [OF _ this] k1 show ?thesis by simp
    next
      case (Some p)
      let ?k = "if ed_ev d = PROCESS_EVENT_INIT
        then k1\<lparr>p_state := (p_state k1)(p := PROCESS_STATE_RUNNING)\<rparr> else k1"
      have "kernel_inv (fst (?k, u))" using k1 by simp
      moreover have "map_option snd (kexec th n (JCall p (ed_ev d) (ed_data d)) (?k, u)) = Some s'"
        using assms(2) s e \<open>e = Some d\<close> Some by (simp add: do_event_def Let_def del: map_option_eq_Some)
      ultimately show ?thesis by (rule kexec_sys_inv)
    qed
  qed
qed

section \<open>More fuel, same result\<close>

definition opt_le :: "'x option \<Rightarrow> 'x option \<Rightarrow> bool" where
  "opt_le m m' \<longleftrightarrow> (\<forall>x. m = Some x \<longrightarrow> m' = Some x)"

lemma opt_le_intros:
  "opt_le None m"
  "opt_le (Some x) (Some x)"
  "opt_le m m' \<Longrightarrow> (\<And>y. opt_le (f y) (g y)) \<Longrightarrow> opt_le (Option.bind m f) (Option.bind m' g)"
  "(b \<Longrightarrow> opt_le m1 m1') \<Longrightarrow> (\<not> b \<Longrightarrow> opt_le m2 m2') \<Longrightarrow> opt_le (if b then m1 else m2) (if b then m1' else m2')"
  by (auto simp: opt_le_def bind_eq_Some_conv)

lemma opt_le_refl: "opt_le m m"
  by (simp add: opt_le_def)

definition extends :: "('p, 'd, 'u) runner \<Rightarrow> ('p, 'd, 'u) runner \<Rightarrow> bool" where
  "extends rec rec' \<longleftrightarrow> (\<forall>j s. opt_le (rec j s) (rec' j s))"

lemma kstep_extends:
  fixes rec :: "('p, 'd, 'u) runner"
  assumes "extends rec rec'"
  shows "extends (kstep th rec) (kstep th rec')"
  unfolding extends_def [of "kstep th rec"]
proof (intro allI)
  fix j :: "('p, 'd, 'u) job" and s :: "('p, 'd, 'u) sys"
  have R: "opt_le (rec j s) (rec' j s)" for j s
    using assms unfolding extends_def by blast
  obtain k u where s: "s = (k, u)" by force
  note I = opt_le_intros R opt_le_refl
  show "opt_le (kstep th rec j s) (kstep th rec' j s)"
  proof (cases j)
    case (JCall p ev data)
    then show ?thesis by (auto simp: call_process_def Let_def s intro!: I split: option.split)
  next
    case (JExit p frm)
    have "opt_le (exit_running th rec p frm (k, u)) (exit_running th rec' p frm (k, u))"
      by (auto simp: exit_running_def Let_def intro!: I split: option.split)
    with JExit show ?thesis by (auto simp: exit_process_def Let_def s intro!: I)
  next
    case (JNotify p q)
    then show ?thesis by (auto simp: notify_exited_def Let_def s intro!: I split: option.split)
  next
    case (JStart p data)
    then show ?thesis by (auto simp: process_start_def s intro!: I)
  next
    case (JSynch p ev data)
    then show ?thesis by (auto simp: process_post_synch_def Let_def s intro!: I)
  next
    case (JThread p prog)
    then show ?thesis by (cases prog) (auto simp: s intro!: I)
  next
    case (JSys sc)
    then show ?thesis by (cases sc) (auto simp: s intro!: I)
  qed
qed

lemma kexec_Suc_extends: "extends (kexec th n) (kexec th (Suc n))"
proof (induction n)
  case 0
  then show ?case by (simp add: extends_def opt_le_intros)
next
  case (Suc n)
  then show ?case using kstep_extends by simp
qed

lemma kexec_mono: "kexec th n j s = Some x \<Longrightarrow> n \<le> m \<Longrightarrow> kexec th m j s = Some x"
proof (induction m)
  case (Suc m)
  then show ?case
    using kexec_Suc_extends [of th m] unfolding extends_def opt_le_def le_Suc_eq by blast
qed simp

section \<open>Threads that only post and poll\<close>

text \<open>
  A quiet program makes no synchronous call, starts and exits no process, posts
  no exit event and does not end the thread. With quiet threads the scheduler
  returns.
\<close>

fun asynchronous :: "('p, 'd) syscall \<Rightarrow> bool" where
  "asynchronous (SPostSynch p ev data) = False"
| "asynchronous (SStart p data) = False"
| "asynchronous (SExit p) = False"
| "asynchronous (SPost p ev data) = (ev \<noteq> PROCESS_EVENT_EXIT)"
| "asynchronous sc = True"

inductive quiet :: "('p, 'd, 'u) prog \<Rightarrow> bool" where
  quiet_Ret: "status \<noteq> PT_EXITED \<Longrightarrow> status \<noteq> PT_ENDED \<Longrightarrow> quiet (Ret status lc u)"
| quiet_Call: "asynchronous sc \<Longrightarrow> (\<And>r u. quiet (c r u)) \<Longrightarrow> quiet (Call sc u c)"

inductive_cases quiet_RetE: "quiet (Ret status lc u)"
inductive_cases quiet_CallE: "quiet (Call sc u c)"

definition quiet_threads :: "('p, 'd, 'u) threads \<Rightarrow> bool" where
  "quiet_threads th \<longleftrightarrow> (\<forall>p t lc ev data u. th p = Some t \<longrightarrow> quiet (t lc ev data u))"

definition no_exit :: "('p, 'd) kernel \<Rightarrow> bool" where
  "no_exit k \<longleftrightarrow> kernel_inv k \<and> (\<forall>e \<in> set (pending k). ed_ev e \<noteq> PROCESS_EVENT_EXIT)"

text \<open>What quiet threads leave of the kernel.\<close>

definition same_list :: "('p, 'd) kernel \<Rightarrow> ('p, 'd) kernel \<Rightarrow> bool" where
  "same_list k k' \<longleftrightarrow> process_list k' = process_list k \<and> p_next k' = p_next k \<and> (no_exit k \<longrightarrow> no_exit k')"

lemma no_exit_cong [simp]:
  "no_exit (k\<lparr>process_current := c\<rparr>) = no_exit k" "no_exit (k\<lparr>p_state := f\<rparr>) = no_exit k"
  "no_exit (k\<lparr>p_needspoll := b\<rparr>) = no_exit k" "no_exit (k\<lparr>p_lc := l\<rparr>) = no_exit k"
  "no_exit (k\<lparr>poll_requested := q\<rparr>) = no_exit k" "no_exit (k\<lparr>lastevent := e\<rparr>) = no_exit k"
  by (simp_all add: no_exit_def pending_def)

lemma same_list_simps [simp]: "same_list k k"
  "same_list (k\<lparr>process_current := c\<rparr>) k' = same_list k k'" "same_list (k\<lparr>p_state := f\<rparr>) k' = same_list k k'"
  "same_list (k\<lparr>p_needspoll := b\<rparr>) k' = same_list k k'" "same_list k (k'\<lparr>p_state := f\<rparr>) = same_list k k'"
  "same_list k (k'\<lparr>p_lc := l\<rparr>) = same_list k k'" "same_list (k\<lparr>poll_requested := q\<rparr>) k' = same_list k k'"
  by (simp_all add: same_list_def)

lemma process_post_no_exit:
  assumes "no_exit k" and "ev \<noteq> PROCESS_EVENT_EXIT"
  shows "no_exit (snd (process_post p ev data k))"
proof -
  let ?e = "\<lparr>ed_ev = ev, ed_data = data, ed_p = p\<rparr>"
  have "snd (process_post p ev data k) = k \<or> pending (snd (process_post p ev data k)) = pending k @ [?e]"
  proof (cases "length (pending k) < PROCESS_CONF_NUMEVENTS")
    case True
    have "kernel_inv k" using assms(1) by (simp add: no_exit_def)
    from post_accepted [OF this True, of p ev data] show ?thesis by (metis snd_conv)
  next
    case False
    with assms(1) post_refused [of k p ev data] show ?thesis by (simp add: no_exit_def)
  qed
  then show ?thesis using assms process_post_inv [of k p ev data] by (auto simp: no_exit_def)
qed

lemma same_list_trans: "same_list k1 k2 \<Longrightarrow> same_list k2 k3 \<Longrightarrow> same_list k1 k3"
  by (simp add: same_list_def)

lemma asynchronous_returns:
  assumes "asynchronous sc"
  shows "\<exists>r k'. kexec th (Suc n) (JSys sc) (k, u) = Some (r, k', u) \<and> same_list k k'"
proof (cases sc)
  case (SPost p ev data)
  have "process_list (snd (process_post p ev data k)) = process_list k"
    "p_next (snd (process_post p ev data k)) = p_next k"
    by (simp_all add: process_post_def Let_def)
  then show ?thesis
    using process_post_no_exit [of k ev p data] assms SPost by (auto simp: same_list_def split_beta)
qed (use assms in \<open>auto simp: process_poll_def process_alloc_event_def same_list_def split: option.split\<close>)

lemma quiet_thread_returns:
  "quiet prog \<Longrightarrow> \<exists>n st k' u'. kexec th n (JThread p prog) (k, u) = Some (RInt st, k', u') \<and>
    st \<noteq> PT_EXITED \<and> st \<noteq> PT_ENDED \<and> same_list k k'"
proof (induction prog arbitrary: k u rule: quiet.induct)
  case (quiet_Ret status lc u')
  then show ?case by (intro exI [of _ "Suc 0"]) simp
next
  case (quiet_Call sc c u')
  obtain r k1 where 1: "kexec th (Suc 0) (JSys sc) (k, u') = Some (r, k1, u')" "same_list k k1"
    using asynchronous_returns [OF quiet_Call.hyps(1), of th 0 k u'] by blast
  obtain n st k2 u2 where 2: "kexec th n (JThread p (c r u')) (k1, u') = Some (RInt st, k2, u2)"
    "st \<noteq> PT_EXITED" "st \<noteq> PT_ENDED" "same_list k1 k2"
    using quiet_Call.IH by blast
  have "kexec th (Suc n) (JSys sc) (k, u') = Some (r, k1, u')"
    and "kexec th (Suc n) (JThread p (c r u')) (k1, u') = Some (RInt st, k2, u2)"
    using kexec_mono [OF 1(1), of "Suc n"] kexec_mono [OF 2(1), of "Suc n"] by simp_all
  then have "kexec th (Suc (Suc n)) (JThread p (Call sc u' c)) (k, u) = Some (RInt st, k2, u2)"
    by (simp del: kexec.simps add: kexec.simps(2) [of th "Suc n"])
  with 1(2) 2 same_list_trans show ?case by blast
qed

lemma quiet_call_returns:
  assumes "quiet_threads th" and "ev \<noteq> PROCESS_EVENT_EXIT"
  shows "\<exists>n k' u'. map_option snd (kexec th n (JCall p ev data) (k, u)) = Some (k', u') \<and> same_list k k'"
proof (cases "th p")
  case None
  then show ?thesis by (intro exI [of _ "Suc 0"] exI [of _ k] exI [of _ u]) (simp add: call_process_def)
next
  case (Some t)
  show ?thesis
  proof (cases "p_state k p AND PROCESS_STATE_RUNNING \<noteq> 0")
    case False
    with Some show ?thesis
      by (intro exI [of _ "Suc 0"] exI [of _ k] exI [of _ u]) (simp add: call_process_def)
  next
    case True
    let ?k = "k\<lparr>process_current := Some p, p_state := (p_state k)(p := PROCESS_STATE_CALLED)\<rparr>"
    have "quiet (t (p_lc k p) ev data u)" using assms(1) Some by (auto simp: quiet_threads_def)
    from quiet_thread_returns [OF this, of th p ?k u] obtain n st k' u' where
      r: "kexec th n (JThread p (t (p_lc k p) ev data u)) (?k, u) = Some (RInt st, k', u')"
      "st \<noteq> PT_EXITED" "st \<noteq> PT_ENDED" "same_list ?k k'" by blast
    then have "kexec th (Suc n) (JCall p ev data) (k, u) =
        Some (RInt 0, k'\<lparr>p_state := (p_state k')(p := PROCESS_STATE_RUNNING)\<rparr>, u')"
      using Some True assms(2) by (simp add: call_process_def Let_def)
    with r(4) show ?thesis by (intro exI [of _ "Suc n"]) simp
  qed
qed

text \<open>The loops over the list: fuel for the longest call and one unit per process.\<close>

lemma kexec_sys_mono: "map_option snd (kexec th n j s) = Some s' \<Longrightarrow> n \<le> m \<Longrightarrow> map_option snd (kexec th m j s) = Some s'"
  by (auto dest: kexec_mono)

lemma kexec_opt_le: "n \<le> m \<Longrightarrow> opt_le (map_option snd (kexec th n j s)) (map_option snd (kexec th m j s))"
  by (auto simp: opt_le_def dest: kexec_mono)

lemma poll_loop_opt_le: "n \<le> m \<Longrightarrow> opt_le (poll_loop th n q s) (poll_loop th m q s)"
proof (induction n arbitrary: m q s)
  case 0
  then show ?case by (simp add: opt_le_intros)
next
  case (Suc n)
  then obtain m' where m: "m = Suc m'" "n \<le> m'" by (cases m) auto
  obtain k u where s: "s = (k, u)" by force
  show ?case
    unfolding m s poll_loop.simps
    by (auto intro!: opt_le_intros opt_le_refl kexec_opt_le [OF m(2)] Suc.IH [OF m(2)] split: option.split)
qed

lemma poll_loop_mono: "poll_loop th n q s = Some s' \<Longrightarrow> n \<le> m \<Longrightarrow> poll_loop th m q s = Some s'"
  using poll_loop_opt_le unfolding opt_le_def by blast

lemma poll_loop_returns:
  assumes "quiet_threads th"
  shows "seg (p_next k) q xs None \<Longrightarrow> \<exists>n k' u'. poll_loop th n q (k, u) = Some (k', u') \<and> same_list k k'"
proof (induction xs arbitrary: q k u)
  case Nil
  then show ?case by (intro exI [of _ "Suc 0"]) simp
next
  case (Cons p xs)
  let ?k = "k\<lparr>p_state := (p_state k)(p := PROCESS_STATE_RUNNING), p_needspoll := (p_needspoll k)(p := 0)\<rparr>"
  have "PROCESS_EVENT_POLL \<noteq> PROCESS_EVENT_EXIT" by (simp add: process_consts)
  from quiet_call_returns [OF assms this, of p DNull ?k u] obtain n k1 u1 where
    1: "(if p_needspoll k p \<noteq> 0 then map_option snd (kexec th n (JCall p PROCESS_EVENT_POLL DNull) (?k, u))
         else Some (k, u)) = Some (k1, u1)" "same_list k k1"
    by (cases "p_needspoll k p \<noteq> 0") (auto simp del: map_option_eq_Some)
  have "seg (p_next k1) (p_next k1 p) xs None" using Cons.prems 1(2) by (simp add: same_list_def)
  from Cons.IH [OF this] obtain m k2 u2 where
    2: "poll_loop th m (p_next k1 p) (k1, u1) = Some (k2, u2)" "same_list k1 k2" by blast
  have "(if p_needspoll k p \<noteq> 0
         then map_option snd (kexec th (max n m) (JCall p PROCESS_EVENT_POLL DNull) (?k, u))
         else Some (k, u)) = Some (k1, u1)"
    using 1(1) kexec_sys_mono [of th n _ _ _ "max n m"] by (auto simp del: map_option_eq_Some split: if_splits)
  moreover have "poll_loop th (max n m) (p_next k1 p) (k1, u1) = Some (k2, u2)"
    using poll_loop_mono [OF 2(1)] by simp
  ultimately have "poll_loop th (Suc (max n m)) q (k, u) = Some (k2, u2)"
    using Cons.prems by (simp del: map_option_eq_Some)
  with same_list_trans [OF 1(2) 2(2)] show ?case by blast
qed

lemma do_poll_returns:
  assumes "quiet_threads th" and "procs k xs"
  shows "\<exists>n k' u'. do_poll th n (k, u) = Some (k', u') \<and> same_list k k'"
  using poll_loop_returns [OF assms(1), of "k\<lparr>poll_requested := 0\<rparr>" "process_list k" xs u] assms(2)
  by (simp add: procs_def do_poll_def)

lemma do_poll_opt_le: "n \<le> m \<Longrightarrow> opt_le (do_poll th n s) (do_poll th m s)"
  by (simp add: do_poll_def Let_def split_beta poll_loop_opt_le)

lemma broadcast_loop_opt_le: "n \<le> m \<Longrightarrow> opt_le (broadcast_loop th n ev data q s) (broadcast_loop th m ev data q s)"
proof (induction n arbitrary: m q s)
  case 0
  then show ?case by (simp add: opt_le_intros)
next
  case (Suc n)
  then obtain m' where m: "m = Suc m'" "n \<le> m'" by (cases m) auto
  show ?case
    unfolding m broadcast_loop.simps
    by (auto intro!: opt_le_intros opt_le_refl kexec_opt_le [OF m(2)] do_poll_opt_le [OF m(2)] Suc.IH [OF m(2)]
        split: option.split)
qed

lemma do_event_opt_le: "n \<le> m \<Longrightarrow> opt_le (do_event th n s) (do_event th m s)"
  by (auto simp: do_event_def Let_def split_beta broadcast_loop_opt_le kexec_opt_le opt_le_intros
      split: prod.split option.split)

lemma opt_le_Some: "opt_le m m' \<Longrightarrow> m = Some x \<Longrightarrow> m' = Some x"
  by (simp add: opt_le_def)

lemma broadcast_loop_returns:
  assumes th: "quiet_threads th" and ev: "ev \<noteq> PROCESS_EVENT_EXIT"
  shows "procs k ys \<Longrightarrow> seg (p_next k) q xs None \<Longrightarrow>
    \<exists>n k' u'. broadcast_loop th n ev data q (k, u) = Some (k', u') \<and> same_list k k'"
proof (induction xs arbitrary: q k u)
  case Nil
  then show ?case by (intro exI [of _ "Suc 0"]) simp
next
  case (Cons p xs)
  obtain n1 k1 u1 where
    1: "(if poll_requested k \<noteq> 0 then do_poll th n1 (k, u) else Some (k, u)) = Some (k1, u1)" "same_list k k1"
    using do_poll_returns [OF th Cons.prems(1), of u] by (cases "poll_requested k \<noteq> 0") auto
  obtain n2 k2 u2 where
    2: "map_option snd (kexec th n2 (JCall p ev data) (k1, u1)) = Some (k2, u2)" "same_list k1 k2"
    using quiet_call_returns [OF th ev] by blast
  have "procs k2 ys" "seg (p_next k2) (p_next k2 p) xs None"
    using Cons.prems 1(2) 2(2) by (simp_all add: same_list_def procs_def)
  from Cons.IH [OF this] obtain n3 k3 u3 where
    3: "broadcast_loop th n3 ev data (p_next k2 p) (k2, u2) = Some (k3, u3)" "same_list k2 k3" by blast
  let ?n = "max n1 (max n2 n3)"
  have "(if poll_requested k \<noteq> 0 then do_poll th ?n (k, u) else Some (k, u)) = Some (k1, u1)"
    using 1(1) opt_le_Some [OF do_poll_opt_le [of n1 ?n th "(k, u)"]] by (auto split: if_splits)
  moreover have "map_option snd (kexec th ?n (JCall p ev data) (k1, u1)) = Some (k2, u2)"
    using opt_le_Some [OF kexec_opt_le 2(1), of ?n] by simp
  moreover have "broadcast_loop th ?n ev data (p_next k2 p) (k2, u2) = Some (k3, u3)"
    using opt_le_Some [OF broadcast_loop_opt_le 3(1), of ?n] by simp
  ultimately have "broadcast_loop th (Suc ?n) ev data q (k, u) = Some (k3, u3)"
    using Cons.prems by (simp del: map_option_eq_Some)
  with 1(2) 2(2) 3(2) same_list_trans show ?case by blast
qed

lemma do_event_returns:
  assumes th: "quiet_threads th" and no: "no_exit k"
  shows "\<exists>n s'. do_event th n (k, u) = Some s'"
proof (cases "pending k")
  have k: "kernel_inv k" using no by (simp add: no_exit_def)
  case Nil
  from next_event_Nil [OF k this] show ?thesis by (simp add: do_event_def)
next
  have k: "kernel_inv k" using no by (simp add: no_exit_def)
  case (Cons e q)
  then obtain k1 where k1: "next_event k = (Some e, k1)" "kernel_inv k1"
    using next_event_Cons [OF k] by blast
  have e: "ed_ev e \<noteq> PROCESS_EVENT_EXIT" using no Cons by (simp add: no_exit_def)
  show ?thesis
  proof (cases "ed_p e")
    case None
    obtain xs where xs: "procs k1 xs" using k1(2) by (auto simp: kernel_inv_def)
    then have "seg (p_next k1) (process_list k1) xs None" by (simp add: procs_def)
    from broadcast_loop_returns [OF th e xs this, of "ed_data e" u] None k1(1) show ?thesis
      by (auto simp: do_event_def)
  next
    case (Some p)
    let ?k = "if ed_ev e = PROCESS_EVENT_INIT
      then k1\<lparr>p_state := (p_state k1)(p := PROCESS_STATE_RUNNING)\<rparr> else k1"
    obtain m k2 u2 where "map_option snd (kexec th m (JCall p (ed_ev e) (ed_data e)) (?k, u)) = Some (k2, u2)"
      using quiet_call_returns [OF th e, of p "ed_data e" ?k u] by blast
    then have "do_event th m (k, u) = Some (k2, u2)"
      using Some k1(1) by (simp add: do_event_def Let_def del: map_option_eq_Some)
    then show ?thesis by blast
  qed
qed

section \<open>Properties\<close>

text \<open>
  C13. The event ring is the bounded first-in first-out queue of 32 events. In
  any sequence of posts and takes every call returns what the queue \<open>qspec\<close>
  returns: a post is accepted when fewer than 32 events are pending and refused
  with \<open>PROCESS_ERR_FULL\<close> otherwise, and a take gives the oldest event, and none
  only when none is pending. The events pending in the end are those of the
  queue, never more than 32, although the 8-bit sum of the indices wraps; and
  the events delivered followed by them are the events accepted, in order.
\<close>

theorem event_queue_fifo:
  assumes "kernel_inv k"
  shows "\<exists>rs k'. arun (qspec PROCESS_CONF_NUMEVENTS) ops (pending k) = (rs, pending k') \<and>
    orun (qstep post_put event_get) ops k = Some (map event_result rs, k') \<and> kernel_inv k' \<and>
    delivered rs @ pending k' = pending k @ accepted ops rs \<and> length (pending k') \<le> PROCESS_CONF_NUMEVENTS"
proof -
  have "length (pending k) \<le> PROCESS_CONF_NUMEVENTS" using assms by (simp add: kernel_inv_def pending_def)
  then have "length (snd (arun (qspec PROCESS_CONF_NUMEVENTS) ops (pending k))) \<le> PROCESS_CONF_NUMEVENTS"
    by (rule qspec_bounded)
  with eq.fifo_run [OF assms, of ops] show ?thesis by auto
qed

definition boot_kernel :: "(nat, 'd) kernel" where
  "boot_kernel = process_init \<lparr>process_list = Some 5, process_current = Some 5, p_next = (\<lambda>_. None), p_lc = (\<lambda>_. 0),
     p_state = (\<lambda>_. 0), p_needspoll = (\<lambda>_. 0), lastevent = 0, nevents = 7, fevent = 3,
     events = replicate 32 \<lparr>ed_ev = 0, ed_data = DNull, ed_p = None\<rparr>, poll_requested = 0\<rparr>"

lemma boot_kernel_inv: "kernel_inv boot_kernel" "pending boot_kernel = []" "procs boot_kernel []"
  unfolding boot_kernel_def
  by (rule process_init_inv, simp add: PROCESS_CONF_NUMEVENTS_def)
    (simp_all add: process_init_def pending_def procs_def)

text \<open>Of 33 posts the last is refused; then the first two events come out.\<close>

definition sample_event :: "u8 \<Rightarrow> (nat, unit) event_data" where
  "sample_event ev = \<lparr>ed_ev = ev, ed_data = DProc 4, ed_p = Some 2\<rparr>"

lemma event_queue_fifo_witness:
  "\<exists>k'. orun (qstep post_put event_get)
       (map (\<lambda>i. Put (sample_event (of_nat i))) [0..<33] @ [Get, Get]) boot_kernel =
     Some (replicate 32 (Inl PROCESS_ERR_OK) @ [Inl PROCESS_ERR_FULL,
       Inr (Some (sample_event 0)),
       Inr (Some (sample_event 1))], k') \<and> length (pending k') = 30"
proof -
  let ?ops = "map (\<lambda>i. Put (sample_event (of_nat i))) [0..<33] @ [Get, Get]"
  obtain rs k' where
    r: "arun (qspec PROCESS_CONF_NUMEVENTS) ?ops (pending boot_kernel) = (rs, pending k')"
    "orun (qstep post_put event_get) ?ops boot_kernel = Some (map event_result rs, k')"
    using event_queue_fifo [OF boot_kernel_inv(1), of ?ops] by blast
  let ?rs = "replicate 32 Accepted @ [Rejected, Item (sample_event 0), Item (sample_event 1)]"
    and ?q = "map (\<lambda>i. sample_event (of_nat i)) [2..<32]"
  have "arun (qspec PROCESS_CONF_NUMEVENTS) ?ops [] = (?rs, ?q)" by code_simp
  with r(1) have "(rs, pending k') = (?rs, ?q)" by (simp only: boot_kernel_inv(2))
  then have "rs = ?rs" "length (pending k') = 30" by simp_all
  with r(2) show ?thesis by (intro exI [of _ k']) simp
qed

text \<open>
  Whatever the threads do, a scheduler run that returns leaves the process list
  a proper list and the event ring well-formed.
\<close>

lemma process_run_inv:
  assumes "kernel_inv (fst s)" and "process_run th n s = Some (r, s')"
  shows "kernel_inv (fst s') \<and> r = int (length (pending (fst s'))) + uint (poll_requested (fst s'))"
proof -
  obtain s1 where 1: "(if poll_requested (fst s) \<noteq> 0 then do_poll th n s else Some s) = Some s1"
    and 2: "do_event th n s1 = Some s'" and r: "r = process_nevents (fst s')"
    using assms(2) by (auto simp: process_run_def bind_eq_Some_conv)
  have "kernel_inv (fst s1)" using 1 assms(1) do_poll_inv [of s th n s1] by (auto split: if_splits)
  from do_event_inv [OF this 2] r show ?thesis
    by (simp add: process_nevents_def pending_def)
qed



text \<open>
  Once \<open>exit_process\<close> returns the process is not on the list, whatever the
  other processes did when they were told, and \<open>process_current\<close> is what it was.
\<close>

lemma process_exit_removed:
  assumes "kernel_inv k" and "process_exit (kexec th n) p (k, u) = Some (r, k', u')"
  shows "kernel_inv k' \<and> (\<exists>xs. procs k' xs \<and> p \<notin> set xs) \<and> process_current k' = process_current k"
proof (cases n)
  case 0
  with assms show ?thesis by (simp add: process_exit_def)
next
  case (Suc m)
  then have e: "exit_process th (kexec th m) p (process_current k) (k, u) = Some (r, k', u')"
    using assms(2) by (simp add: process_exit_def)
  then have "process_current k' = process_current k"
    by (auto simp: exit_process_def Let_def bind_eq_Some_conv split: if_splits)
  with exit_process_removed [OF kexec_inv assms(1) e] show ?thesis by blast
qed

text \<open>
  A thread is never entered again while it runs, and never entered when it
  is stopped: a synchronous post to a process that is called or stopped changes
  nothing. A process that is on the list is not started again.
\<close>

theorem process_not_reentered:
  "(p_state k p = PROCESS_STATE_CALLED \<or> p_state k p = PROCESS_STATE_NONE \<longrightarrow>
     kexec th (Suc (Suc n)) (JSynch p ev data) (k, u) = Some (RInt 0, k, u)) \<and>
   (procs k xs \<and> p \<in> set xs \<longrightarrow> kexec th (Suc n) (JStart p data) (k, u) = Some (RInt 0, k, u))"
proof -
  have "k\<lparr>process_current := process_current k\<rparr> = k" by simp
  then show ?thesis
    by (auto simp: process_post_synch_def call_process_def process_start_def find_process_seg procs_def
        PROCESS_STATE_CALLED_def PROCESS_STATE_NONE_def PROCESS_STATE_RUNNING_def Let_def split: option.split)
qed

lemma process_not_reentered_witness:
  "kexec (\<lambda>_. Some (\<lambda>lc ev data u. Ret PT_ENDED lc u)) (Suc (Suc 0)) (JSynch 3 1 DNull) (boot_kernel, ()) =
     Some (RInt 0, boot_kernel, ())"
  by (rule process_not_reentered [THEN conjunct1, rule_format])
    (simp add: boot_kernel_def process_init_def PROCESS_STATE_NONE_def)

definition self_exiting :: "(nat, unit, unit) threads" where
  "self_exiting = (\<lambda>p. Some (\<lambda>lc ev data u. Call (SExit p) u (\<lambda>r u. Ret PT_YIELDED lc u)))"

text \<open>
  A process that calls \<open>process_exit\<close> on itself and then yields is left in
  the running state although it is off the list: \<open>call_process\<close> sets the state
  after the thread returns without looking at it. It is then polled and posted
  to as if it ran, but no broadcast reaches it.
\<close>

theorem self_exit_left_running:
  "\<exists>k'. kexec self_exiting 10 (JStart 0 DNull) (boot_kernel, ()) = Some (RInt 0, k', ()) \<and>
     process_list k' = None \<and> process_is_running 0 k'"
proof -
  have "(10 :: nat) = Suc (Suc (Suc (Suc (Suc (Suc (Suc (Suc (Suc (Suc 0)))))))))" by simp
  then show ?thesis
    by (simp only: kexec.simps kstep.simps)
      (simp add: boot_kernel_def process_init_def self_exiting_def process_start_def find_process.simps
        process_post_synch_def call_process_def exit_process_def exit_running_def notify_exited_def
        unlink_process_def process_is_running_def process_consts)
qed

end
