(* ===== verification/Etimer.thy ===== *)
theory Etimer
  imports Timer Process
begin

text \<open>
  The event timers, \<open>core/sys/etimer.c\<close>. The timers form a list through their
  \<open>next\<close> fields; an expiring timer is a timer event posted through the process
  kernel, so an operation acts on the pair of the timer state and the kernel.
  \<open>clock_time()\<close> is the argument \<open>now\<close>: the clock does not tick within one
  operation. \<open>ep\<close> is \<open>&etimer_process\<close>. Walks along a cyclic list do not end:
  \<^term>\<open>None\<close>.
\<close>

section \<open>State and operations\<close>

record ('e, 'p) etimers =
  et_timer :: "'e \<Rightarrow> timer"
  et_next :: "'e \<Rightarrow> 'e ptr"
  et_p :: "'e \<Rightarrow> 'p ptr"
  timerlist :: "'e ptr"
  next_expiration :: clock_time_t

type_synonym ('e, 'p) esys = "('e, 'p) etimers \<times> ('p, 'e) kernel"

text \<open>The distance of a timer to its expiration.\<close>

definition distance :: "clock_time_t \<Rightarrow> ('e, 'p) etimers \<Rightarrow> 'e \<Rightarrow> clock_time_t" where
  "distance now s t = t_start (et_timer s t) + t_interval (et_timer s t) - now"

partial_function (option) tdist_loop :: "clock_time_t \<Rightarrow> ('e, 'p) etimers \<Rightarrow> clock_time_t \<Rightarrow> 'e ptr \<Rightarrow>
    clock_time_t option" where
  "tdist_loop now s tdist t = (case t of
       None \<Rightarrow> Some tdist
     | Some t \<Rightarrow> tdist_loop now s (if distance now s t < tdist then distance now s t else tdist) (et_next s t))"

definition update_time :: "clock_time_t \<Rightarrow> ('e, 'p) etimers \<Rightarrow> ('e, 'p) etimers option" where
  "update_time now s = (case timerlist s of
       None \<Rightarrow> Some (s\<lparr>next_expiration := 0\<rparr>)
     | Some t \<Rightarrow> do {
         tdist \<leftarrow> tdist_loop now s (distance now s t) (et_next s t);
         Some (s\<lparr>next_expiration := now + tdist\<rparr>)
       })"

definition etimer_request_poll :: "'p \<Rightarrow> ('p, 'e) kernel \<Rightarrow> ('p, 'e) kernel" where
  "etimer_request_poll ep k = process_poll (Some ep) k"

partial_function (option) on_timerlist :: "('e, 'p) etimers \<Rightarrow> 'e \<Rightarrow> 'e ptr \<Rightarrow> bool option" where
  "on_timerlist s timer t = (case t of
       None \<Rightarrow> Some False
     | Some t \<Rightarrow> if t = timer then Some True else on_timerlist s timer (et_next s t))"

definition add_timer :: "clock_time_t \<Rightarrow> 'p \<Rightarrow> 'e \<Rightarrow> ('e, 'p) esys \<Rightarrow> ('e, 'p) esys option" where
  "add_timer now ep timer s = (let (s, k) = s; k = etimer_request_poll ep k in do {
     present \<leftarrow> (if et_p s timer \<noteq> None then on_timerlist s timer (timerlist s) else Some False);
     let s = s\<lparr>et_p := (et_p s)(timer := process_current k)\<rparr>;
     let s = (if present then s
              else s\<lparr>et_next := (et_next s)(timer := timerlist s), timerlist := Some timer\<rparr>);
     s \<leftarrow> update_time now s;
     Some (s, k)
   })"

definition etimer_set :: "clock_time_t \<Rightarrow> 'p \<Rightarrow> 'e \<Rightarrow> clock_time_t \<Rightarrow> ('e, 'p) esys \<Rightarrow> ('e, 'p) esys option" where
  "etimer_set now ep et interval s = (let (s, k) = s in
     add_timer now ep et (s\<lparr>et_timer := (et_timer s)(et := timer_set now interval (et_timer s et))\<rparr>, k))"

definition etimer_reset :: "clock_time_t \<Rightarrow> 'p \<Rightarrow> 'e \<Rightarrow> ('e, 'p) esys \<Rightarrow> ('e, 'p) esys option" where
  "etimer_reset now ep et s = (let (s, k) = s in
     add_timer now ep et (s\<lparr>et_timer := (et_timer s)(et := timer_reset (et_timer s et))\<rparr>, k))"

definition etimer_restart :: "clock_time_t \<Rightarrow> 'p \<Rightarrow> 'e \<Rightarrow> ('e, 'p) esys \<Rightarrow> ('e, 'p) esys option" where
  "etimer_restart now ep et s = (let (s, k) = s in
     add_timer now ep et (s\<lparr>et_timer := (et_timer s)(et := timer_restart now (et_timer s et))\<rparr>, k))"

text \<open>The \<open>int\<close> argument is converted to the clock type by the addition.\<close>

definition etimer_adjust :: "clock_time_t \<Rightarrow> 'e \<Rightarrow> int \<Rightarrow> ('e, 'p) etimers \<Rightarrow> ('e, 'p) etimers option" where
  "etimer_adjust now et timediff s = update_time now
     (s\<lparr>et_timer := (et_timer s)(et := (et_timer s et)\<lparr>t_start := t_start (et_timer s et) + word_of_int timediff\<rparr>)\<rparr>)"

definition etimer_expired :: "'e \<Rightarrow> ('e, 'p) etimers \<Rightarrow> bool" where
  "etimer_expired et s \<longleftrightarrow> et_p s et = None"

definition etimer_expiration_time :: "'e \<Rightarrow> ('e, 'p) etimers \<Rightarrow> clock_time_t" where
  "etimer_expiration_time et s = t_start (et_timer s et) + t_interval (et_timer s et)"

definition etimer_start_time :: "'e \<Rightarrow> ('e, 'p) etimers \<Rightarrow> clock_time_t" where
  "etimer_start_time et s = t_start (et_timer s et)"

definition etimer_pending :: "('e, 'p) etimers \<Rightarrow> bool" where
  "etimer_pending s \<longleftrightarrow> timerlist s \<noteq> None"

definition etimer_next_expiration_time :: "('e, 'p) etimers \<Rightarrow> clock_time_t" where
  "etimer_next_expiration_time s = (if etimer_pending s then next_expiration s else 0)"

text \<open>The search of \<open>etimer_stop\<close> for the timer before \<open>et\<close>.\<close>

partial_function (option) before_timer :: "('e, 'p) etimers \<Rightarrow> 'e \<Rightarrow> 'e ptr \<Rightarrow> 'e ptr option" where
  "before_timer s et t = (case t of
       None \<Rightarrow> Some None
     | Some x \<Rightarrow> if et_next s x = Some et then Some (Some x) else before_timer s et (et_next s x))"

definition etimer_stop :: "clock_time_t \<Rightarrow> 'e \<Rightarrow> ('e, 'p) etimers \<Rightarrow> ('e, 'p) etimers option" where
  "etimer_stop now et s = do {
     s \<leftarrow>
       (if timerlist s = Some et then update_time now (s\<lparr>timerlist := et_next s et\<rparr>)
        else do {
          t \<leftarrow> before_timer s et (timerlist s);
          (case t of
             None \<Rightarrow> Some s
           | Some t \<Rightarrow> update_time now (s\<lparr>et_next := (et_next s)(t := et_next s et)\<rparr>))
        });
     Some (s\<lparr>et_next := (et_next s)(et := None), et_p := (et_p s)(et := None)\<rparr>)
   }"

section \<open>The event timer process\<close>

text \<open>
  The thread \<open>etimer_process\<close> for one event. On \<open>PROCESS_EVENT_EXITED\<close> the
  timers whose owner is \<open>p\<close>, the data of the event, are unlinked, first at the
  head, then behind it; \<open>p\<close> may be NULL. An event timer is no process, so with
  other data no owner is equal to it and nothing is unlinked.
\<close>

partial_function (option) drop_head_loop :: "'p ptr \<Rightarrow> ('e, 'p) etimers \<Rightarrow> ('e, 'p) etimers option" where
  "drop_head_loop p s = (case timerlist s of
       None \<Rightarrow> Some s
     | Some t \<Rightarrow> if et_p s t = p then drop_head_loop p (s\<lparr>timerlist := et_next s t\<rparr>) else Some s)"

partial_function (option) drop_next_loop :: "'p ptr \<Rightarrow> ('e, 'p) etimers \<Rightarrow> 'e \<Rightarrow> ('e, 'p) etimers option" where
  "drop_next_loop p s t = (case et_next s t of
       None \<Rightarrow> Some s
     | Some t' \<Rightarrow>
         if et_p s t' = p then drop_next_loop p (s\<lparr>et_next := (et_next s)(t := et_next s t')\<rparr>) t
         else drop_next_loop p s t')"

definition etimer_exited :: "'p ptr \<Rightarrow> ('e, 'p) etimers \<Rightarrow> ('e, 'p) etimers option" where
  "etimer_exited p s = do {
     s \<leftarrow> drop_head_loop p s;
     (case timerlist s of None \<Rightarrow> Some s | Some t \<Rightarrow> drop_next_loop p s t)
   }"

text \<open>
  On \<open>PROCESS_EVENT_POLL\<close> the loop scans for expired timers, \<open>u\<close> behind \<open>t\<close>;
  after each one it could post it starts again at the head.
\<close>

definition remove_expired :: "'e ptr \<Rightarrow> 'e \<Rightarrow> ('e, 'p) etimers \<Rightarrow> ('e, 'p) etimers" where
  "remove_expired u t s =
     (let s = s\<lparr>et_p := (et_p s)(t := None)\<rparr>;
          s = (case u of
                 Some u \<Rightarrow> s\<lparr>et_next := (et_next s)(u := et_next s t)\<rparr>
               | None \<Rightarrow> s\<lparr>timerlist := et_next s t\<rparr>)
      in s\<lparr>et_next := (et_next s)(t := None)\<rparr>)"

partial_function (option) poll_scan :: "clock_time_t \<Rightarrow> 'p \<Rightarrow> 'e ptr \<Rightarrow> 'e ptr \<Rightarrow> ('e, 'p) esys \<Rightarrow>
    ('e, 'p) esys option" where
  "poll_scan now ep u t s = (case t of
       None \<Rightarrow> Some s
     | Some x \<Rightarrow>
         (let (s, k) = s in
          if timer_expired now (et_timer s x) then
            (let (r, k) = process_post (et_p s x) PROCESS_EVENT_TIMER (DPtr x) k in
             if r = PROCESS_ERR_OK then
               Option.bind (update_time now (remove_expired u x s))
                 (\<lambda>s. poll_scan now ep None (timerlist s) (s, k))
             else poll_scan now ep (Some x) (et_next s x) (s, etimer_request_poll ep k))
          else poll_scan now ep (Some x) (et_next s x) (s, k)))"

definition etimer_process_init :: "('e, 'p) etimers \<Rightarrow> ('e, 'p) etimers" where
  "etimer_process_init s = s\<lparr>timerlist := None\<rparr>"

definition etimer_process :: "clock_time_t \<Rightarrow> 'p \<Rightarrow> u8 \<Rightarrow> ('p, 'e) pdata \<Rightarrow> ('e, 'p) esys \<Rightarrow> ('e, 'p) esys option" where
  "etimer_process now ep ev data s = (let (s, k) = s in
     if ev = PROCESS_EVENT_EXITED then
       (case data of
          DProc p \<Rightarrow> map_option (\<lambda>s. (s, k)) (etimer_exited (Some p) s)
        | DNull \<Rightarrow> map_option (\<lambda>s. (s, k)) (etimer_exited None s)
        | DPtr _ \<Rightarrow> Some (s, k))
     else if ev \<noteq> PROCESS_EVENT_POLL then Some (s, k)
     else poll_scan now ep None (timerlist s) (s, k))"

section \<open>The list of timers\<close>

definition timers :: "('e, 'p) etimers \<Rightarrow> 'e list \<Rightarrow> bool" where
  "timers s xs = seg (et_next s) (timerlist s) xs None"

lemma tdist_loop_seg:
  "seg (et_next s) t xs None \<Longrightarrow> \<exists>d. tdist_loop now s tdist t = Some d \<and>
     d \<in> insert tdist (distance now s ` set xs) \<and> d \<le> tdist \<and> (\<forall>x \<in> set xs. d \<le> distance now s x)"
proof (induction xs arbitrary: t tdist)
  case Nil
  then show ?case by (simp add: tdist_loop.simps)
next
  case (Cons x xs)
  let ?m = "if distance now s x < tdist then distance now s x else tdist"
  have "seg (et_next s) (et_next s x) xs None" using Cons.prems by simp
  from Cons.IH [OF this, of ?m] obtain d where d: "tdist_loop now s ?m (et_next s x) = Some d"
    "d \<in> insert ?m (distance now s ` set xs)" "d \<le> ?m" "\<forall>y \<in> set xs. d \<le> distance now s y"
    by blast
  have "?m \<le> tdist" "?m \<le> distance now s x" by auto
  with d(3) have "d \<le> tdist" "d \<le> distance now s x" by (blast intro: order_trans)+
  moreover have "tdist_loop now s tdist t = Some d"
    using Cons.prems d(1) by (subst tdist_loop.simps) simp
  ultimately show ?case using d(2,4) by (auto split: if_splits)
qed

text \<open>What \<open>update_time\<close> promises of \<open>next_expiration\<close>.\<close>

definition earliest :: "clock_time_t \<Rightarrow> ('e, 'p) etimers \<Rightarrow> 'e list \<Rightarrow> bool" where
  "earliest now s xs \<longleftrightarrow>
     (if xs = [] then next_expiration s = 0
      else (\<exists>x \<in> set xs. next_expiration s = etimer_expiration_time x s) \<and>
        (\<forall>x \<in> set xs. next_expiration s - now \<le> etimer_expiration_time x s - now))"

lemma update_time_earliest:
  assumes "timers s xs"
  shows "\<exists>n. update_time now s = Some (s\<lparr>next_expiration := n\<rparr>) \<and> earliest now (s\<lparr>next_expiration := n\<rparr>) xs"
proof (cases xs)
  case Nil
  with assms show ?thesis by (simp add: timers_def update_time_def earliest_def)
next
  case (Cons x ys)
  with assms have x: "timerlist s = Some x" "seg (et_next s) (et_next s x) ys None"
    by (auto simp: timers_def)
  from tdist_loop_seg [OF x(2), of now "distance now s x"] obtain d where
    d: "tdist_loop now s (distance now s x) (et_next s x) = Some d"
    "d \<in> insert (distance now s x) (distance now s ` set ys)" "d \<le> distance now s x"
    "\<forall>y \<in> set ys. d \<le> distance now s y" by blast
  then have "update_time now s = Some (s\<lparr>next_expiration := now + d\<rparr>)"
    using x(1) by (simp add: update_time_def)
  moreover have "earliest now (s\<lparr>next_expiration := now + d\<rparr>) xs"
    using d(2,3,4) Cons by (auto simp: earliest_def etimer_expiration_time_def distance_def)
  ultimately show ?thesis by blast
qed

section \<open>Adding and stopping\<close>

lemma timers_cong [simp]:
  "timers (s\<lparr>et_timer := f\<rparr>) xs = timers s xs" "timers (s\<lparr>et_p := g\<rparr>) xs = timers s xs"
  "timers (s\<lparr>next_expiration := n\<rparr>) xs = timers s xs"
  by (simp_all add: timers_def)

lemma earliest_cong [simp]:
  "earliest now (s\<lparr>et_p := g\<rparr>) xs = earliest now s xs" "earliest now (s\<lparr>et_next := h\<rparr>) xs = earliest now s xs"
  "earliest now (s\<lparr>timerlist := l\<rparr>) xs = earliest now s xs"
  by (simp_all add: earliest_def etimer_expiration_time_def)

lemma timers_distinct: "timers s xs \<Longrightarrow> distinct xs"
  by (auto simp: timers_def dest: seg_distinct)

lemma on_timerlist_seg: "seg (et_next s) t xs None \<Longrightarrow> on_timerlist s x t = Some (x \<in> set xs)"
  by (induction xs arbitrary: t) (auto simp: on_timerlist.simps)

text \<open>
  A timer is on the list only while it has a process; this makes the early-out
  of \<open>add_timer\<close> right.
\<close>

definition etimers_inv :: "('e, 'p) etimers \<Rightarrow> 'e list \<Rightarrow> bool" where
  "etimers_inv s xs \<longleftrightarrow> timers s xs \<and> (\<forall>x \<in> set xs. et_p s x \<noteq> None)"

lemma add_timer_correct:
  assumes i: "etimers_inv s xs" and cur: "process_current k \<noteq> None"
  shows "\<exists>s'. add_timer now ep t (s, k) = Some (s', etimer_request_poll ep k) \<and>
    etimers_inv s' (if t \<in> set xs then xs else t # xs) \<and>
    earliest now s' (if t \<in> set xs then xs else t # xs) \<and>
    et_timer s' = et_timer s \<and> et_p s' = (et_p s)(t := process_current k)"
proof -
  have k: "process_current (etimer_request_poll ep k) = process_current k"
    by (simp add: etimer_request_poll_def process_poll_def)
  have present: "(if et_p s t \<noteq> None then on_timerlist s t (timerlist s) else Some False) = Some (t \<in> set xs)"
    using i by (auto simp: etimers_inv_def timers_def on_timerlist_seg)
  let ?s = "s\<lparr>et_p := (et_p s)(t := process_current k)\<rparr>"
  let ?s' = "if t \<in> set xs then ?s else ?s\<lparr>et_next := (et_next s)(t := timerlist s), timerlist := Some t\<rparr>"
  let ?xs = "if t \<in> set xs then xs else t # xs"
  have "timers ?s' ?xs" using i by (auto simp: etimers_inv_def timers_def)
  from update_time_earliest [OF this, of now] obtain n where
    n: "update_time now ?s' = Some (?s'\<lparr>next_expiration := n\<rparr>)" "earliest now (?s'\<lparr>next_expiration := n\<rparr>) ?xs"
    by blast
  have "add_timer now ep t (s, k) = Some (?s'\<lparr>next_expiration := n\<rparr>, etimer_request_poll ep k)"
    using n(1) by (simp add: add_timer_def Let_def present [simplified] k del: fun_upd_apply split del: if_split cong: if_cong)
  moreover have "etimers_inv (?s'\<lparr>next_expiration := n\<rparr>) ?xs"
    using \<open>timers ?s' ?xs\<close> i cur by (auto simp: etimers_inv_def)
  ultimately show ?thesis using n(2) by (auto split: if_splits)
qed

lemma before_timer_absent: "seg (et_next s) t (x # xs) None \<Longrightarrow> et \<notin> set xs \<Longrightarrow> before_timer s et t = Some None"
proof (induction xs arbitrary: t x)
  case Nil
  then show ?case by (simp add: before_timer.simps)
next
  case (Cons y ys)
  then show ?case by (subst before_timer.simps) auto
qed

lemma before_timer_present:
  "seg (et_next s) t (us @ x # et # vs) None \<Longrightarrow> et \<notin> set us \<Longrightarrow> et \<noteq> x \<Longrightarrow> before_timer s et t = Some (Some x)"
proof (induction us arbitrary: t)
  case Nil
  then show ?case by (simp add: before_timer.simps)
next
  case (Cons u us)
  then have "et_next s u \<noteq> Some et" by (cases us) auto
  with Cons show ?case by (subst before_timer.simps) auto
qed

lemma etimer_stop_correct:
  assumes i: "etimers_inv s xs"
  shows "\<exists>s'. etimer_stop now t s = Some s' \<and> etimers_inv s' (remove1 t xs) \<and> etimer_expired t s' \<and>
    (t \<in> set xs \<longrightarrow> earliest now s' (remove1 t xs)) \<and> et_timer s' = et_timer s"
proof (cases "t \<in> set xs")
  case False
  then have "timerlist s \<noteq> Some t" using i by (cases xs) (auto simp: etimers_inv_def timers_def)
  moreover have "before_timer s t (timerlist s) = Some None"
    using False i before_timer_absent [of s "timerlist s" "hd xs" "tl xs" t]
    by (cases xs) (auto simp: etimers_inv_def timers_def before_timer.simps)
  ultimately have "etimer_stop now t s = Some (s\<lparr>et_next := (et_next s)(t := None), et_p := (et_p s)(t := None)\<rparr>)"
    by (simp add: etimer_stop_def)
  with False i show ?thesis
    by (auto simp: etimers_inv_def timers_def etimer_expired_def remove1_idem)
next
  case True
  then obtain us vs where xs: "xs = us @ t # vs" "t \<notin> set us" by (meson split_list_first)
  have d: "distinct xs" using i by (auto simp: etimers_inv_def dest: timers_distinct)
  have rem: "remove1 t xs = us @ vs" "t \<notin> set vs" using xs d by (auto simp: remove1_append)
  obtain s1 where s1: "timers s1 (us @ vs)" "et_p s1 = et_p s" "et_timer s1 = et_timer s"
    and stop: "etimer_stop now t s = Option.bind (update_time now s1)
      (\<lambda>s. Some (s\<lparr>et_next := (et_next s)(t := None), et_p := (et_p s)(t := None)\<rparr>))"
  proof (cases us rule: rev_cases)
    case Nil
    with i xs have "timerlist s = Some t" "seg (et_next s) (et_next s t) vs None"
      by (auto simp: etimers_inv_def timers_def)
    with Nil that [of "s\<lparr>timerlist := et_next s t\<rparr>"] show thesis
      by (simp add: etimer_stop_def timers_def)
  next
    case (snoc ws x)
    have h: "timerlist s \<noteq> Some t" using i xs snoc by (cases ws) (auto simp: etimers_inv_def timers_def)
    have b: "before_timer s t (timerlist s) = Some (Some x)"
      using i xs snoc before_timer_present [of s "timerlist s" ws x t vs] by (simp add: etimers_inv_def timers_def)
    have "timers (s\<lparr>et_next := (et_next s)(x := et_next s t)\<rparr>) (us @ vs)"
      using i xs snoc d by (auto simp: etimers_inv_def timers_def seg_append)
    with h b that [of "s\<lparr>et_next := (et_next s)(x := et_next s t)\<rparr>"] show thesis
      by (simp add: etimer_stop_def)
  qed
  from update_time_earliest [OF s1(1), of now] obtain n where
    n: "update_time now s1 = Some (s1\<lparr>next_expiration := n\<rparr>)" "earliest now (s1\<lparr>next_expiration := n\<rparr>) (us @ vs)"
    by blast
  let ?s = "s1\<lparr>next_expiration := n, et_next := (et_next s1)(t := None), et_p := (et_p s1)(t := None)\<rparr>"
  have "etimer_stop now t s = Some ?s" using stop n(1) by simp
  moreover have "etimers_inv ?s (us @ vs)"
    using s1 i xs rem(2) by (auto simp: etimers_inv_def timers_def)
  moreover have "earliest now ?s (us @ vs)" using n(2) by simp
  moreover have "etimer_expired t ?s" "et_timer ?s = et_timer s"
    using s1(3) by (simp_all add: etimer_expired_def)
  ultimately show ?thesis unfolding rem(1) by blast
qed

section \<open>When a process exits\<close>

lemma drop_head_loop_timers:
  "timers s xs \<Longrightarrow> \<exists>s'. drop_head_loop p s = Some s' \<and>
     timers s' (dropWhile (\<lambda>x. et_p s x = p) xs) \<and> et_p s' = et_p s \<and> et_timer s' = et_timer s"
proof (induction xs arbitrary: s)
  case Nil
  then have "drop_head_loop p s = Some s" by (subst drop_head_loop.simps) (simp add: timers_def)
  with Nil show ?case by simp
next
  case (Cons x xs)
  then have x: "timerlist s = Some x" "timers (s\<lparr>timerlist := et_next s x\<rparr>) xs" by (simp_all add: timers_def)
  show ?case
  proof (cases "et_p s x = p")
    case True
    with Cons.IH [OF x(2)] x(1) show ?thesis by (simp add: drop_head_loop.simps [of _ s])
  next
    case False
    then have "drop_head_loop p s = Some s" using x(1) by (subst drop_head_loop.simps) simp
    with Cons.prems False show ?thesis by simp
  qed
qed

lemma drop_next_loop_seg:
  "seg (et_next s) (Some t) (t # xs) None \<Longrightarrow> distinct (t # xs) \<Longrightarrow>
   \<exists>s'. drop_next_loop p s t = Some s' \<and>
     seg (et_next s') (Some t) (t # filter (\<lambda>x. et_p s x \<noteq> p) xs) None \<and>
     (\<forall>z. z \<notin> set (t # xs) \<longrightarrow> et_next s' z = et_next s z) \<and>
     timerlist s' = timerlist s \<and> et_p s' = et_p s \<and> et_timer s' = et_timer s"
proof (induction "length xs" arbitrary: s t xs rule: less_induct)
  case less
  show ?case
  proof (cases xs)
    case Nil
    then have "drop_next_loop p s t = Some s"
      using less.prems by (subst drop_next_loop.simps) simp
    with less.prems Nil show ?thesis by auto
  next
    case (Cons y ys)
    then have n: "et_next s t = Some y" "seg (et_next s) (Some y) (y # ys) None" using less.prems by auto
    show ?thesis
    proof (cases "et_p s y = p")
      case True
      let ?s = "s\<lparr>et_next := (et_next s)(t := et_next s y)\<rparr>"
      have "seg (et_next ?s) (Some t) (t # ys) None" using less.prems Cons n by auto
      with less.hyps [of ys ?s t] less.prems(2) Cons obtain s' where
        "drop_next_loop p ?s t = Some s'"
        "seg (et_next s') (Some t) (t # filter (\<lambda>x. et_p s x \<noteq> p) ys) None"
        "\<forall>z. z \<notin> set (t # ys) \<longrightarrow> et_next s' z = et_next s z"
        "timerlist s' = timerlist s" "et_p s' = et_p s" "et_timer s' = et_timer s" by auto
      moreover have "drop_next_loop p s t = drop_next_loop p ?s t"
        using True n(1) by (subst drop_next_loop.simps) simp
      ultimately show ?thesis using Cons True by auto
    next
      case False
      obtain s' where s': "drop_next_loop p s y = Some s'"
        "seg (et_next s') (Some y) (y # filter (\<lambda>x. et_p s x \<noteq> p) ys) None"
        "\<forall>z. z \<notin> set (y # ys) \<longrightarrow> et_next s' z = et_next s z"
        "timerlist s' = timerlist s" "et_p s' = et_p s" "et_timer s' = et_timer s"
        using less.hyps [of ys s y] n(2) less.prems Cons by auto
      moreover have "drop_next_loop p s t = drop_next_loop p s y"
        using False n(1) by (subst drop_next_loop.simps) simp
      moreover have "et_next s' t = Some y" using s'(3) n(1) less.prems(2) Cons by auto
      ultimately show ?thesis using Cons False by auto
    qed
  qed
qed

lemma dropWhile_Cons_filter:
  "dropWhile Q xs = y # ys \<Longrightarrow> filter (\<lambda>x. \<not> Q x) xs = y # filter (\<lambda>x. \<not> Q x) ys"
  by (induction xs) (auto split: if_splits)

lemma etimer_exited_timers:
  assumes "timers s xs"
  shows "\<exists>s'. etimer_exited p s = Some s' \<and> timers s' (filter (\<lambda>x. et_p s x \<noteq> p) xs) \<and>
    et_p s' = et_p s \<and> et_timer s' = et_timer s"
proof -
  from drop_head_loop_timers [OF assms, of p] obtain s1 where
    1: "drop_head_loop p s = Some s1" "timers s1 (dropWhile (\<lambda>x. et_p s x = p) xs)"
    "et_p s1 = et_p s" "et_timer s1 = et_timer s" by blast
  show ?thesis
  proof (cases "dropWhile (\<lambda>x. et_p s x = p) xs")
    case Nil
    then have "filter (\<lambda>x. et_p s x \<noteq> p) xs = []" by (simp add: dropWhile_eq_Nil_conv filter_empty_conv)
    with 1 Nil show ?thesis by (auto simp: etimer_exited_def timers_def)
  next
    case (Cons y ys)
    then have y: "timerlist s1 = Some y" "seg (et_next s1) (Some y) (y # ys) None" "distinct (y # ys)"
      using 1(2) timers_distinct [OF 1(2)] by (auto simp: timers_def)
    from drop_next_loop_seg [OF y(2,3), of p] obtain s2 where
      "drop_next_loop p s1 y = Some s2"
      "seg (et_next s2) (Some y) (y # filter (\<lambda>x. et_p s x \<noteq> p) ys) None"
      "timerlist s2 = timerlist s1" "et_p s2 = et_p s1" "et_timer s2 = et_timer s1"
      unfolding 1(3) by blast
    with 1 y(1) dropWhile_Cons_filter [OF Cons] show ?thesis
      by (simp add: etimer_exited_def timers_def)
  qed
qed

section \<open>When timers expire\<close>

lemma seg_last: "seg nx t us (Some x) \<Longrightarrow> us \<noteq> [] \<Longrightarrow> nx (last us) = Some x"
  by (induction us arbitrary: t) auto

lemma poll_scan_skip:
  "seg (et_next s) t us t' \<Longrightarrow> \<forall>u \<in> set us. \<not> timer_expired now (et_timer s u) \<Longrightarrow>
   poll_scan now ep u t (s, k) = poll_scan now ep (if us = [] then u else Some (last us)) t' (s, k)"
proof (induction us arbitrary: t u)
  case Nil
  then show ?case by simp
next
  case (Cons x us)
  then have "poll_scan now ep u t (s, k) = poll_scan now ep (Some x) (et_next s x) (s, k)"
    by (subst poll_scan.simps) simp
  also have "\<dots> = poll_scan now ep (if us = [] then Some x else Some (last us)) t' (s, k)"
    by (rule Cons.IH) (use Cons.prems in simp_all)
  finally show ?case by (simp split: if_splits)
qed

lemma process_poll_idem: "process_poll p (process_poll p k) = process_poll p k"
  by (simp add: process_poll_def split: option.split)

lemma poll_scan_full:
  "seg (et_next s) t vs None \<Longrightarrow> unat (nevents k) = PROCESS_CONF_NUMEVENTS \<Longrightarrow>
   poll_scan now ep u t (s, k) =
     Some (s, if \<exists>x \<in> set vs. timer_expired now (et_timer s x) then etimer_request_poll ep k else k)"
proof (induction vs arbitrary: t u k)
  case Nil
  then show ?case by (simp add: poll_scan.simps)
next
  case (Cons x vs)
  have n: "nevents (etimer_request_poll ep k) = nevents k"
    by (simp add: etimer_request_poll_def process_poll_def)
  show ?case
    using Cons n
    by (subst poll_scan.simps)
      (auto simp: process_post_def PROCESS_ERR_FULL_def PROCESS_ERR_OK_def etimer_request_poll_def process_poll_idem)
qed

lemma remove_expired_timers:
  assumes "timers s (us @ x # vs)"
  shows "timers (remove_expired (if us = [] then None else Some (last us)) x s) (us @ vs)"
proof -
  have d: "distinct (us @ x # vs)" using assms by (rule timers_distinct)
  show ?thesis
  proof (cases us rule: rev_cases)
    case Nil
    with assms d show ?thesis by (simp add: remove_expired_def timers_def)
  next
    case (snoc ws y)
    with assms d show ?thesis by (auto simp: remove_expired_def timers_def seg_append)
  qed
qed

lemma remove_expired_simps [simp]:
  "et_timer (remove_expired u x s) = et_timer s" "et_p (remove_expired u x s) = (et_p s)(x := None)"
  by (auto simp: remove_expired_def Let_def split: option.split)

text \<open>
  The timers that a poll posts: the expired ones in list order, as many as the
  event ring has room for.
\<close>

definition due :: "clock_time_t \<Rightarrow> ('e, 'p) etimers \<Rightarrow> ('p, 'e) kernel \<Rightarrow> 'e list \<Rightarrow> 'e list" where
  "due now s k xs = take (PROCESS_CONF_NUMEVENTS - length (pending k)) (filter (\<lambda>x. timer_expired now (et_timer s x)) xs)"

definition timer_event :: "('e, 'p) etimers \<Rightarrow> 'e \<Rightarrow> ('p, 'e) event_data" where
  "timer_event s x = \<lparr>ed_ev = PROCESS_EVENT_TIMER, ed_data = DPtr x, ed_p = et_p s x\<rparr>"

definition poll_result :: "clock_time_t \<Rightarrow> 'p \<Rightarrow> 'e list \<Rightarrow> ('e, 'p) esys \<Rightarrow> ('e, 'p) esys \<Rightarrow> bool" where
  "poll_result now ep xs = (\<lambda>(s, k) (s', k').
     timers s' (filter (\<lambda>x. x \<notin> set (due now s k xs)) xs) \<and>
     pending k' = pending k @ map (timer_event s) (due now s k xs) \<and> kernel_inv k' \<and>
     (\<forall>x. et_p s' x = (if x \<in> set (due now s k xs) then None else et_p s x)) \<and> et_timer s' = et_timer s \<and>
     (due now s k xs = [] \<longrightarrow> next_expiration s' = next_expiration s) \<and>
     (due now s k xs \<noteq> [] \<longrightarrow> earliest now s' (filter (\<lambda>x. x \<notin> set (due now s k xs)) xs)) \<and>
     ((\<exists>x \<in> set xs - set (due now s k xs). timer_expired now (et_timer s x)) \<longrightarrow>
        p_state k ep \<in> {PROCESS_STATE_RUNNING, PROCESS_STATE_CALLED} \<longrightarrow>
        poll_requested k' = 1 \<and> p_needspoll k' ep = 1))"

lemma poll_scan_step:
  assumes t: "timers s (us @ x # vs)" and us: "\<forall>u \<in> set us. \<not> timer_expired now (et_timer s u)"
    and x: "timer_expired now (et_timer s x)" and k: "kernel_inv k" and room: "length (pending k) < PROCESS_CONF_NUMEVENTS"
  shows "\<exists>s1 k1. poll_scan now ep None (timerlist s) (s, k) = poll_scan now ep None (timerlist s1) (s1, k1) \<and>
    timers s1 (us @ vs) \<and> earliest now s1 (us @ vs) \<and> et_timer s1 = et_timer s \<and> et_p s1 = (et_p s)(x := None) \<and>
    kernel_inv k1 \<and> pending k1 = pending k @ [timer_event s x] \<and> p_state k1 = p_state k"
proof -
  let ?u = "if us = [] then None else Some (last us)"
  have "seg (et_next s) (timerlist s) us (Some x)" using t by (auto simp: timers_def seg_append)
  from poll_scan_skip [OF this us, of ep None k]
  have scan: "poll_scan now ep None (timerlist s) (s, k) = poll_scan now ep ?u (Some x) (s, k)" by simp
  obtain k1 where k1: "process_post (et_p s x) PROCESS_EVENT_TIMER (DPtr x) k = (PROCESS_ERR_OK, k1)"
    "kernel_inv k1" "pending k1 = pending k @ [timer_event s x]"
    using post_accepted [OF k room] unfolding timer_event_def by metis
  have "p_state k1 = p_state k" using k1(1) by (auto simp: process_post_def Let_def split: if_splits)
  from update_time_earliest [OF remove_expired_timers [OF t], of now] obtain n where
    n: "update_time now (remove_expired ?u x s) = Some (remove_expired ?u x s\<lparr>next_expiration := n\<rparr>)"
    "earliest now (remove_expired ?u x s\<lparr>next_expiration := n\<rparr>) (us @ vs)" by blast
  let ?s1 = "remove_expired ?u x s\<lparr>next_expiration := n\<rparr>"
  have "poll_scan now ep ?u (Some x) (s, k) = poll_scan now ep None (timerlist ?s1) (?s1, k1)"
    using x k1(1) n(1) by (subst poll_scan.simps) simp
  with scan remove_expired_timers [OF t] n(2) k1(2,3) \<open>p_state k1 = p_state k\<close> show ?thesis
    by (intro exI [of _ ?s1] exI [of _ k1]) simp
qed

lemma filter_first:
  assumes "filter Q xs = y # ys"
  obtains us vs where "xs = us @ y # vs" and "\<forall>u \<in> set us. \<not> Q u" and "Q y" and "filter Q vs = ys"
  using assms by (metis filter_eq_ConsD)

lemma request_poll_simps [simp]:
  "pending (etimer_request_poll ep k) = pending k" "kernel_inv (etimer_request_poll ep k) = kernel_inv k"
  by (auto simp: etimer_request_poll_def process_poll_def pending_def kernel_inv_def procs_def split: option.split)

lemma request_poll_requested:
  "p_state k ep \<in> {PROCESS_STATE_RUNNING, PROCESS_STATE_CALLED} \<Longrightarrow>
   poll_requested (etimer_request_poll ep k) = 1 \<and> p_needspoll (etimer_request_poll ep k) ep = 1"
  by (auto simp: etimer_request_poll_def process_poll_def)

lemma poll_scan_result:
  assumes "timers s xs" and "kernel_inv k"
  shows "\<exists>r. poll_scan now ep None (timerlist s) (s, k) = Some r \<and> poll_result now ep xs (s, k) r"
  using assms
proof (induction "length xs" arbitrary: xs s k rule: less_induct)
  case less
  let ?E = "filter (\<lambda>x. timer_expired now (et_timer s x)) xs"
  have le: "length (pending k) \<le> PROCESS_CONF_NUMEVENTS" using less.prems(2) by (simp add: kernel_inv_def pending_def)
  show ?case
  proof (cases "length (pending k) = PROCESS_CONF_NUMEVENTS \<or> ?E = []")
    case True
    then have due: "due now s k xs = []" by (auto simp: due_def)
    show ?thesis
    proof (cases "?E = []")
      case True
      have "seg (et_next s) (timerlist s) xs None" using less.prems(1) by (simp add: timers_def)
      from poll_scan_skip [OF this, of now ep None k] True
      have "poll_scan now ep None (timerlist s) (s, k) = Some (s, k)"
        by (auto simp: filter_empty_conv poll_scan.simps [of _ _ _ None])
      moreover have "poll_result now ep xs (s, k) (s, k)"
        using due less.prems True by (auto simp: poll_result_def filter_empty_conv)
      ultimately show ?thesis by blast
    next
      case False
      then have full: "unat (nevents k) = PROCESS_CONF_NUMEVENTS" and ex: "\<exists>x \<in> set xs. timer_expired now (et_timer s x)"
        using \<open>_ \<or> ?E = []\<close> by (auto simp: pending_def filter_empty_conv)
      then have "poll_scan now ep None (timerlist s) (s, k) = Some (s, etimer_request_poll ep k)"
        using poll_scan_full [of s "timerlist s" xs k now ep None] less.prems(1) by (simp add: timers_def)
      moreover have "poll_result now ep xs (s, k) (s, etimer_request_poll ep k)"
        using due less.prems
        by (auto simp: poll_result_def request_poll_requested)
      ultimately show ?thesis by blast
    qed
  next
    case False
    then have room: "length (pending k) < PROCESS_CONF_NUMEVENTS" using le by simp
    from False obtain y ys where "?E = y # ys" by (cases ?E) auto
    then obtain us vs where xs: "xs = us @ y # vs" and us: "\<forall>u \<in> set us. \<not> timer_expired now (et_timer s u)"
      and y: "timer_expired now (et_timer s y)" and ys: "filter (\<lambda>x. timer_expired now (et_timer s x)) vs = ys"
      by (rule filter_first)
    from poll_scan_step [OF less.prems(1) [unfolded xs] us y less.prems(2) room, of ep] obtain s1 k1 where
      1: "poll_scan now ep None (timerlist s) (s, k) = poll_scan now ep None (timerlist s1) (s1, k1)"
      "timers s1 (us @ vs)" "earliest now s1 (us @ vs)" "et_timer s1 = et_timer s" "et_p s1 = (et_p s)(y := None)"
      "kernel_inv k1" "pending k1 = pending k @ [timer_event s y]" "p_state k1 = p_state k" by blast
    have "length (us @ vs) < length xs" using xs by simp
    from less.hyps [OF this 1(2,6)] obtain r where
      r: "poll_scan now ep None (timerlist s1) (s1, k1) = Some r" "poll_result now ep (us @ vs) (s1, k1) r" by blast
    have d: "distinct xs" using less.prems(1) by (rule timers_distinct)
    have fu: "filter (\<lambda>x. timer_expired now (et_timer s x)) us = []" using us by (simp add: filter_empty_conv)
    obtain m where m: "PROCESS_CONF_NUMEVENTS - length (pending k) = Suc m" using room by (metis Suc_diff_Suc)
    then have m1: "PROCESS_CONF_NUMEVENTS - length (pending k1) = m" using 1(7) by simp
    let ?D = "due now s1 k1 (us @ vs)"
    have D: "?D = take m ys" "due now s k xs = y # ?D"
      using m m1 xs y ys fu 1(4) by (simp_all add: due_def)
    have yD: "y \<notin> set ?D" using D(1) ys d xs by (auto dest: in_set_takeD)
    have f: "filter (\<lambda>x. x \<notin> set (y # ?D)) xs = filter (\<lambda>x. x \<notin> set ?D) (us @ vs)"
    proof -
      have "filter (\<lambda>x. x \<notin> set (y # ?D)) xs = filter (\<lambda>x. x \<notin> set (y # ?D)) (us @ vs)" using xs by simp
      also have "\<dots> = filter (\<lambda>x. x \<notin> set ?D) (us @ vs)" using d xs by (intro filter_cong) auto
      finally show ?thesis .
    qed
    have ev: "map (timer_event s1) ?D = map (timer_event s) ?D"
      using yD 1(5) by (auto simp: timer_event_def)
    obtain s2 k2 where r2: "r = (s2, k2)" by force
    note R = r(2) [unfolded r2 poll_result_def prod.case]
    have "poll_result now ep xs (s, k) (s2, k2)"
      unfolding poll_result_def prod.case D(2) f
    proof (intro conjI)
      show "pending k2 = pending k @ map (timer_event s) (y # ?D)" using R 1(7) ev by simp
      show "\<forall>x. et_p s2 x = (if x \<in> set (y # ?D) then None else et_p s x)" using R 1(5) by simp
      show "y # ?D \<noteq> [] \<longrightarrow> earliest now s2 (filter (\<lambda>x. x \<notin> set ?D) (us @ vs))"
        using R 1(3,4) by (cases "?D = []") (auto simp: earliest_def etimer_expiration_time_def)
      show "(\<exists>x \<in> set xs - set (y # ?D). timer_expired now (et_timer s x)) \<longrightarrow>
          p_state k ep \<in> {PROCESS_STATE_RUNNING, PROCESS_STATE_CALLED} \<longrightarrow>
          poll_requested k2 = 1 \<and> p_needspoll k2 ep = 1"
        using R xs 1(4,8) by auto
    qed (use R 1(4) in simp_all)
    with 1(1) r(1) r2 show ?thesis by simp
  qed
qed

section \<open>A timer set outside of any process\<close>

lemma tdist_loop_cyclic:
  assumes "et_next s x = Some x"
  shows "tdist_loop now s d (Some x) = None"
proof -
  have "t = Some x \<longrightarrow> et_next s x = Some x \<longrightarrow> False" if "tdist_loop now s d t = Some r" for d t r
  proof (rule tdist_loop.raw_induct [where P = "\<lambda>now s d t r. t = Some x \<longrightarrow> et_next s x = Some x \<longrightarrow> False",
        OF _ that])
    fix rec now and s :: "('a, 'b) etimers" and d t r
    assume IH: "\<And>now s d t r. rec now s d t = Some r \<Longrightarrow> t = Some x \<longrightarrow> et_next s x = Some x \<longrightarrow> False"
      and eq: "(case t of None \<Rightarrow> Some d
        | Some t \<Rightarrow> rec now s (if distance now s t < d then distance now s t else d) (et_next s t)) = Some r"
    show "t = Some x \<longrightarrow> et_next s x = Some x \<longrightarrow> False"
      using IH eq by (cases t) (simp, fastforce)
  qed
  then show ?thesis using assms by (cases "tdist_loop now s d (Some x)") auto
qed

section \<open>Properties\<close>

definition etimers0 :: "(nat, nat) etimers" where
  "etimers0 = \<lparr>et_timer = (\<lambda>_. \<lparr>t_start = 0, t_interval = 0\<rparr>), et_next = (\<lambda>_. None), et_p = (\<lambda>_. None),
     timerlist = None, next_expiration = 0\<rparr>"

lemma etimers0_inv: "etimers_inv etimers0 []" "timers etimers0 []"
  by (simp_all add: etimers_inv_def timers_def etimers0_def)

lemma etimer_set_spec:
  assumes i: "etimers_inv s xs" and cur: "process_current k = Some p"
  shows "\<exists>s'. etimer_set now ep t interval (s, k) = Some (s', etimer_request_poll ep k) \<and>
    etimers_inv s' (if t \<in> set xs then xs else t # xs) \<and>
    earliest now s' (if t \<in> set xs then xs else t # xs) \<and>
    et_p s' t = Some p \<and> et_timer s' t = \<lparr>t_start = now, t_interval = interval\<rparr> \<and>
    (\<forall>x. x \<noteq> t \<longrightarrow> et_timer s' x = et_timer s x \<and> et_p s' x = et_p s x)"
proof -
  let ?s = "s\<lparr>et_timer := (et_timer s)(t := timer_set now interval (et_timer s t))\<rparr>"
  have "etimers_inv ?s xs" using i by (simp add: etimers_inv_def)
  from add_timer_correct [OF this, of k now ep t] cur obtain s' where
    "add_timer now ep t (?s, k) = Some (s', etimer_request_poll ep k)"
    "etimers_inv s' (if t \<in> set xs then xs else t # xs)" "earliest now s' (if t \<in> set xs then xs else t # xs)"
    "et_timer s' = et_timer ?s" "et_p s' = (et_p s)(t := Some p)" by auto
  then show ?thesis by (auto simp: etimer_set_def timer_set_def)
qed

text \<open>
  C36. Setting an event timer from a process keeps the list proper, puts the
  timer on it exactly once, gives it to the process, and makes
  \<open>next_expiration\<close> the earliest expiration on the list, as distances from now on
  the wrapping clock.
\<close>

theorem etimer_set_correct:
  assumes i: "etimers_inv s xs" and cur: "process_current k = Some p"
  shows "\<exists>s'. etimer_set now ep t interval (s, k) = Some (s', etimer_request_poll ep k) \<and>
    etimers_inv s' (if t \<in> set xs then xs else t # xs) \<and>
    earliest now s' (if t \<in> set xs then xs else t # xs) \<and>
    et_p s' t = Some p \<and> et_timer s' t = \<lparr>t_start = now, t_interval = interval\<rparr> \<and>
    (\<forall>x. x \<noteq> t \<longrightarrow> et_timer s' x = et_timer s x \<and> et_p s' x = et_p s x)"
  using assms by (rule etimer_set_spec)

lemma etimer_set_correct_witness:
  "\<exists>s'. etimer_set 0xfffffff0 0 7 100 (etimers0, boot_kernel\<lparr>process_current := Some 1\<rparr>) =
       Some (s', etimer_request_poll 0 (boot_kernel\<lparr>process_current := Some 1\<rparr>)) \<and> etimers_inv s' [7]"
  using etimer_set_correct [OF etimers0_inv(1), of "boot_kernel\<lparr>process_current := Some 1\<rparr>" 1 "0xfffffff0" 0 7 100] by auto

text \<open>
  Stopping a timer takes it off the list wherever it is, marks it expired and
  leaves the rest in order; stopping one that is not on the list changes no list.
\<close>

theorem etimer_stop_removes:
  assumes "etimers_inv s xs"
  shows "\<exists>s'. etimer_stop now t s = Some s' \<and> etimers_inv s' (remove1 t xs) \<and> t \<notin> set (remove1 t xs) \<and>
    etimer_expired t s' \<and> (t \<in> set xs \<longrightarrow> earliest now s' (remove1 t xs)) \<and> et_timer s' = et_timer s"
  using etimer_stop_correct [OF assms, of now t] timers_distinct [of s xs] assms
  by (auto simp: etimers_inv_def)

lemma etimer_stop_removes_witness:
  "\<exists>s'. etimer_stop 5 7 etimers0 = Some s' \<and> etimer_expired 7 s'"
  using etimer_stop_removes [OF etimers0_inv(1), of 5 7] by blast

text \<open>
  C10. On a poll the event timer process posts one timer event for each expired
  timer, in list order, to the process that set it, as long as the event ring
  has room; it takes exactly those timers off the list, and when expired timers
  are left it has asked to be polled again. The scan returns although it starts
  again after every post.
\<close>

theorem etimer_poll_posts_due:
  assumes "timers s xs" and "kernel_inv k"
  shows "\<exists>r. etimer_process now ep PROCESS_EVENT_POLL data (s, k) = Some r \<and> poll_result now ep xs (s, k) r"
  using poll_scan_result [OF assms, of now ep]
  by (simp add: etimer_process_def PROCESS_EVENT_POLL_def PROCESS_EVENT_EXITED_def)

lemma etimer_poll_posts_due_witness:
  "\<exists>r. etimer_process 9 0 PROCESS_EVENT_POLL DNull
        (etimers0\<lparr>timerlist := Some 3, et_p := (\<lambda>_. Some 1)\<rparr>, boot_kernel) = Some r \<and>
     poll_result 9 0 [3] (etimers0\<lparr>timerlist := Some 3, et_p := (\<lambda>_. Some 1)\<rparr>, boot_kernel) r"
  by (rule etimer_poll_posts_due) (simp_all add: timers_def etimers0_def boot_kernel_inv)

text \<open>
  When a process exits, exactly its timers leave the list, and the others
  stay in order.
\<close>

theorem etimer_process_exited:
  assumes "timers s xs"
  shows "\<exists>s'. etimer_process now ep PROCESS_EVENT_EXITED (DProc p) (s, k) = Some (s', k) \<and>
    timers s' (filter (\<lambda>x. et_p s x \<noteq> Some p) xs)"
  using etimer_exited_timers [OF assms, of "Some p"] by (auto simp: etimer_process_def)

lemma etimer_process_exited_witness:
  "\<exists>s'. etimer_process 9 0 PROCESS_EVENT_EXITED (DProc 1)
        (etimers0\<lparr>timerlist := Some 3, et_p := (\<lambda>_. Some 1)\<rparr>, boot_kernel) = Some (s', boot_kernel) \<and> timers s' []"
  using etimer_process_exited [of "etimers0\<lparr>timerlist := Some 3, et_p := (\<lambda>_. Some 1)\<rparr>" "[3]" 9 0 1 boot_kernel]
  by (simp add: timers_def etimers0_def)

text \<open>
  With no current process, setting the same timer twice links it to itself
  and the second call never returns: \<open>add_timer\<close> looks for the timer on the list
  only when the timer has a process.
\<close>

theorem etimer_set_twice_outside_process:
  assumes "process_current k = None" and "et_p s t = None" and "timers s []"
  shows "\<exists>s' k'. etimer_set now ep t i (s, k) = Some (s', k') \<and> process_current k' = None \<and>
    etimer_set now' ep t i' (s', k') = None"
proof -
  let ?k = "etimer_request_poll ep k"
  have k: "process_current ?k = None" using assms(1) by (simp add: etimer_request_poll_def process_poll_def)
  let ?s = "s\<lparr>et_timer := (et_timer s)(t := timer_set now i (et_timer s t)), et_p := (et_p s)(t := None),
    et_next := (et_next s)(t := None), timerlist := Some t\<rparr>"
  have l: "timerlist s = None" using assms(3) by (simp add: timers_def)
  have "timers ?s [t]" by (simp add: timers_def)
  from update_time_earliest [OF this, of now] obtain n where
    n: "update_time now ?s = Some (?s\<lparr>next_expiration := n\<rparr>)" by blast
  have 1: "etimer_set now ep t i (s, k) = Some (?s\<lparr>next_expiration := n\<rparr>, ?k)"
    using assms(2) k l n by (simp add: etimer_set_def add_timer_def Let_def)
  have "update_time now' s' = None" if "timerlist s' = Some t" "et_next s' t = Some t" for s' :: "('b, 'a) etimers"
    using that tdist_loop_cyclic [of s' t now' "distance now' s' t"] by (simp add: update_time_def)
  then have "etimer_set now' ep t i' (?s\<lparr>next_expiration := n\<rparr>, ?k) = None"
    by (simp add: etimer_set_def add_timer_def Let_def)
  with 1 k show ?thesis by blast
qed

lemma etimer_set_twice_outside_process_witness:
  "\<exists>s' k'. etimer_set 0 0 7 100 (etimers0, boot_kernel) = Some (s', k') \<and> etimer_set 1 0 7 100 (s', k') = None"
  using etimer_set_twice_outside_process [of boot_kernel etimers0 7 0 0 100 1 100]
  by (auto simp: boot_kernel_def process_init_def etimers0_def timers_def)

end
