(* ===== verification/Ctimer.thy ===== *)
theory Ctimer
  imports Etimer
begin

text \<open>
  The callback timers, \<open>core/sys/ctimer.c\<close>: a list of timers, each with an
  event timer inside it that belongs to \<open>ctimer_process\<close>. A callback timer and
  the event timer inside it have the same address here. The callback with its
  argument, of type \<open>'f\<close>, is application code: \<open>call\<close> runs it on the whole
  state. \<open>cp\<close> is \<open>&ctimer_process\<close>, \<open>ep\<close> is \<open>&etimer_process\<close>.
\<close>

section \<open>State and operations\<close>

record ('e, 'p, 'f) ctimers =
  ctimer_list :: "'e clist"
  ct_p :: "'e \<Rightarrow> 'p ptr"
  ct_f :: "'e \<Rightarrow> 'f option"
  ct_initialized :: bool

type_synonym ('e, 'p, 'f) csys = "('e, 'p, 'f) ctimers \<times> ('e, 'p) esys"

text \<open>\<open>PROCESS_CONTEXT_BEGIN\<close> and \<open>PROCESS_CONTEXT_END\<close> around an operation on the event timers.\<close>

definition in_context :: "'p ptr \<Rightarrow> (('e, 'p) esys \<Rightarrow> ('e, 'p) esys option) \<Rightarrow> ('e, 'p) esys \<Rightarrow> ('e, 'p) esys option" where
  "in_context p f es = (let (s, k) = es; tmp_current = process_current k in do {
     (s, k) \<leftarrow> f (s, k\<lparr>process_current := p\<rparr>);
     Some (s, k\<lparr>process_current := tmp_current\<rparr>)
   })"

definition ctimer_list_add :: "'e \<Rightarrow> ('e, 'p, 'f) ctimers \<Rightarrow> ('e, 'p, 'f) ctimers option" where
  "ctimer_list_add c cs = map_option (\<lambda>l. cs\<lparr>ctimer_list := l\<rparr>) (list_add (ctimer_list cs) c)"

definition ctimer_set :: "clock_time_t \<Rightarrow> 'p \<Rightarrow> 'p \<Rightarrow> 'e \<Rightarrow> clock_time_t \<Rightarrow> 'f option \<Rightarrow>
    ('e, 'p, 'f) csys \<Rightarrow> ('e, 'p, 'f) csys option" where
  "ctimer_set now ep cp c t f st = (let (cs, s, k) = st;
     cs = cs\<lparr>ct_p := (ct_p cs)(c := process_current k), ct_f := (ct_f cs)(c := f)\<rparr> in do {
     (s, k) \<leftarrow>
       (if ct_initialized cs then in_context (Some cp) (etimer_set now ep c t) (s, k)
        else Some (s\<lparr>et_timer := (et_timer s)(c := (et_timer s c)\<lparr>t_interval := t\<rparr>)\<rparr>, k));
     cs \<leftarrow> ctimer_list_add c cs;
     Some (cs, s, k)
   })"

definition ctimer_reset :: "clock_time_t \<Rightarrow> 'p \<Rightarrow> 'p \<Rightarrow> 'e \<Rightarrow> ('e, 'p, 'f) csys \<Rightarrow> ('e, 'p, 'f) csys option" where
  "ctimer_reset now ep cp c st = (let (cs, s, k) = st in do {
     (s, k) \<leftarrow> (if ct_initialized cs then in_context (Some cp) (etimer_reset now ep c) (s, k) else Some (s, k));
     cs \<leftarrow> ctimer_list_add c cs;
     Some (cs, s, k)
   })"

definition ctimer_restart :: "clock_time_t \<Rightarrow> 'p \<Rightarrow> 'p \<Rightarrow> 'e \<Rightarrow> ('e, 'p, 'f) csys \<Rightarrow> ('e, 'p, 'f) csys option" where
  "ctimer_restart now ep cp c st = (let (cs, s, k) = st in do {
     (s, k) \<leftarrow> (if ct_initialized cs then in_context (Some cp) (etimer_restart now ep c) (s, k) else Some (s, k));
     cs \<leftarrow> ctimer_list_add c cs;
     Some (cs, s, k)
   })"

definition ctimer_stop :: "clock_time_t \<Rightarrow> 'e \<Rightarrow> ('e, 'p, 'f) csys \<Rightarrow> ('e, 'p, 'f) csys option" where
  "ctimer_stop now c st = (let (cs, s, k) = st in do {
     s \<leftarrow> (if ct_initialized cs then etimer_stop now c s
           else Some (s\<lparr>et_next := (et_next s)(c := None), et_p := (et_p s)(c := None)\<rparr>));
     l \<leftarrow> list_remove (ctimer_list cs) c;
     Some (cs\<lparr>ctimer_list := l\<rparr>, s, k)
   })"

partial_function (option) ctimer_search :: "('e \<Rightarrow> 'e ptr) \<Rightarrow> 'e \<Rightarrow> 'e ptr \<Rightarrow> bool option" where
  "ctimer_search nx c t = (case t of
       None \<Rightarrow> Some False
     | Some x \<Rightarrow> if x = c then Some True else ctimer_search nx c (nx x))"

definition ctimer_expired :: "'e \<Rightarrow> ('e, 'p, 'f) csys \<Rightarrow> bool option" where
  "ctimer_expired c st = (let (cs, s, k) = st in
     if ct_initialized cs then Some (etimer_expired c s)
     else map_option Not (ctimer_search (lnext (ctimer_list cs)) c (list_head (ctimer_list cs))))"

section \<open>The callback timer process\<close>

text \<open>Its first run starts the event timers of the timers set so far.\<close>

partial_function (option) ctimer_start_loop :: "clock_time_t \<Rightarrow> 'p \<Rightarrow> ('e \<Rightarrow> 'e ptr) \<Rightarrow> 'e ptr \<Rightarrow>
    ('e, 'p) esys \<Rightarrow> ('e, 'p) esys option" where
  "ctimer_start_loop now ep nx c es = (case c of
       None \<Rightarrow> Some es
     | Some x \<Rightarrow> Option.bind (etimer_set now ep x (t_interval (et_timer (fst es) x)) es)
         (\<lambda>es. ctimer_start_loop now ep nx (nx x) es))"

definition ctimer_process_init :: "clock_time_t \<Rightarrow> 'p \<Rightarrow> ('e, 'p, 'f) csys \<Rightarrow> ('e, 'p, 'f) csys option" where
  "ctimer_process_init now ep st = (let (cs, es) = st in do {
     es \<leftarrow> ctimer_start_loop now ep (lnext (ctimer_list cs)) (list_head (ctimer_list cs)) es;
     Some (cs\<lparr>ct_initialized := True\<rparr>, es)
   })"

text \<open>On a timer event the callback of the timer, if it is on the list, is called once.\<close>

definition run_callback :: "('f \<Rightarrow> ('e, 'p, 'f) csys \<Rightarrow> ('e, 'p, 'f) csys option) \<Rightarrow> 'e \<Rightarrow>
    ('e, 'p, 'f) csys \<Rightarrow> ('e, 'p, 'f) csys option" where
  "run_callback call c st = (let (cs, s, k) = st; tmp_current = process_current k in do {
     (cs, s, k) \<leftarrow> (case ct_f cs c of
         None \<Rightarrow> Some (cs, s, k)
       | Some f \<Rightarrow> call f (cs, s, k\<lparr>process_current := ct_p cs c\<rparr>));
     Some (cs, s, k\<lparr>process_current := tmp_current\<rparr>)
   })"

definition ctimer_process :: "('f \<Rightarrow> ('e, 'p, 'f) csys \<Rightarrow> ('e, 'p, 'f) csys option) \<Rightarrow> u8 \<Rightarrow> ('p, 'e) pdata \<Rightarrow>
    ('e, 'p, 'f) csys \<Rightarrow> ('e, 'p, 'f) csys option" where
  "ctimer_process call ev data st = (let (cs, s, k) = st in
     if ev \<noteq> PROCESS_EVENT_TIMER then Some st
     else (case data of
         DPtr c \<Rightarrow> do {
           found \<leftarrow> ctimer_search (lnext (ctimer_list cs)) c (list_head (ctimer_list cs));
           if found then do {
             l \<leftarrow> list_remove (ctimer_list cs) c;
             run_callback call c (cs\<lparr>ctimer_list := l\<rparr>, s, k)
           } else Some st
         }
       | _ \<Rightarrow> Some st))"

text \<open>\<open>ctimer_init\<close> up to the start of the process.\<close>

definition ctimer_init :: "('e, 'p, 'f) ctimers \<Rightarrow> ('e, 'p, 'f) ctimers" where
  "ctimer_init cs = cs\<lparr>ct_initialized := False, ctimer_list := list_init (ctimer_list cs)\<rparr>"

section \<open>Correctness\<close>

lemma ctimer_search_seg: "seg nx t xs None \<Longrightarrow> ctimer_search nx c t = Some (c \<in> set xs)"
  by (induction xs arbitrary: t) (auto simp: ctimer_search.simps)

text \<open>
  Once the process has initialised, the callback timers form a proper list and
  so do the event timers, each of which has a process.
\<close>

definition ctimer_inv :: "('e, 'p, 'f) csys \<Rightarrow> 'e list \<Rightarrow> 'e list \<Rightarrow> bool" where
  "ctimer_inv st cxs exs = (let (cs, s, k) = st in
     lrep (ctimer_list cs) cxs \<and> ct_initialized cs \<and> etimers_inv s exs)"

definition ctimers0 :: "(nat, nat, unit) csys" where
  "ctimers0 = (\<lparr>ctimer_list = \<lparr>lhead = None, lnext = (\<lambda>_. None)\<rparr>, ct_p = (\<lambda>_. None), ct_f = (\<lambda>_. None),
     ct_initialized = True\<rparr>, etimers0, boot_kernel)"

lemma ctimers0_inv: "ctimer_inv ctimers0 [] []"
  by (simp add: ctimers0_def ctimer_inv_def lrep_def etimers0_inv)

lemma ctimer_set_spec:
  assumes "ctimer_inv (cs, s, k) cxs exs"
  shows "\<exists>cs' s' k'. ctimer_set now ep cp c t f (cs, s, k) = Some (cs', s', k') \<and>
    ctimer_inv (cs', s', k') (remove1 c cxs @ [c]) (if c \<in> set exs then exs else c # exs) \<and>
    earliest now s' (if c \<in> set exs then exs else c # exs) \<and>
    et_p s' c = Some cp \<and> et_timer s' c = \<lparr>t_start = now, t_interval = t\<rparr> \<and>
    ct_p cs' c = process_current k \<and> ct_f cs' c = f \<and> process_current k' = process_current k"
proof -
  have i: "lrep (ctimer_list cs) cxs" "ct_initialized cs" "etimers_inv s exs"
    using assms by (simp_all add: ctimer_inv_def)
  let ?k = "k\<lparr>process_current := Some cp\<rparr>"
  have "\<exists>s'. etimer_set now ep c t (s, ?k) = Some (s', etimer_request_poll ep ?k) \<and>
    etimers_inv s' (if c \<in> set exs then exs else c # exs) \<and>
    earliest now s' (if c \<in> set exs then exs else c # exs) \<and>
    et_p s' c = Some cp \<and> et_timer s' c = \<lparr>t_start = now, t_interval = t\<rparr>"
    using etimer_set_spec [OF i(3), of ?k cp now ep c t] by auto
  then obtain s' where
    s': "etimer_set now ep c t (s, ?k) = Some (s', etimer_request_poll ep ?k)"
    "etimers_inv s' (if c \<in> set exs then exs else c # exs)"
    "earliest now s' (if c \<in> set exs then exs else c # exs)"
    "et_p s' c = Some cp" "et_timer s' c = \<lparr>t_start = now, t_interval = t\<rparr>" by blast
  from list_add_rep [OF i(1), of c] obtain l where
    l: "list_add (ctimer_list cs) c = Some l" "lrep l (remove1 c cxs @ [c])" by blast
  show ?thesis
    using s' l i by (auto simp: ctimer_set_def in_context_def Let_def ctimer_list_add_def ctimer_inv_def)
qed

text \<open>
  Setting a callback timer puts it last on the callback list, once; starts
  its event timer for the callback process with the earliest expiration kept;
  remembers the calling process; and leaves the current process as it was.
\<close>

theorem ctimer_set_correct:
  assumes "ctimer_inv (cs, s, k) cxs exs"
  shows "\<exists>cs' s' k'. ctimer_set now ep cp c t f (cs, s, k) = Some (cs', s', k') \<and>
    ctimer_inv (cs', s', k') (remove1 c cxs @ [c]) (if c \<in> set exs then exs else c # exs) \<and>
    earliest now s' (if c \<in> set exs then exs else c # exs) \<and>
    et_p s' c = Some cp \<and> et_timer s' c = \<lparr>t_start = now, t_interval = t\<rparr> \<and>
    ct_p cs' c = process_current k \<and> ct_f cs' c = f \<and> process_current k' = process_current k"
  using assms by (rule ctimer_set_spec)

lemma ctimer_set_correct_witness:
  "\<exists>cs s k. ctimer_set 5 0 1 7 100 (Some ()) ctimers0 = Some (cs, s, k) \<and> ctimer_inv (cs, s, k) [7] [7]"
  using ctimer_set_correct [OF ctimers0_inv [unfolded ctimers0_def], of 5 0 1 7 100 "Some ()"]
  by (auto simp: ctimers0_def)

text \<open>
  C37. A timer event for a listed callback timer takes it off the list and then
  calls its callback, exactly once and in the context of the process that set
  it; the callback process's context is restored after it. An event for a timer
  that was stopped meanwhile calls nothing.
\<close>

theorem ctimer_fires_once:
  assumes "ctimer_inv (cs, s, k) cxs exs"
  shows "if c \<in> set cxs
    then \<exists>l. lrep l (remove1 c cxs) \<and>
      ctimer_process call PROCESS_EVENT_TIMER (DPtr c) (cs, s, k) =
        (case ct_f cs c of
           None \<Rightarrow> Some (cs\<lparr>ctimer_list := l\<rparr>, s, k)
         | Some f \<Rightarrow> map_option (\<lambda>(cs, s, k'). (cs, s, k'\<lparr>process_current := process_current k\<rparr>))
             (call f (cs\<lparr>ctimer_list := l\<rparr>, s, k\<lparr>process_current := ct_p cs c\<rparr>)))
    else ctimer_process call PROCESS_EVENT_TIMER (DPtr c) (cs, s, k) = Some (cs, s, k)"
proof -
  have i: "lrep (ctimer_list cs) cxs" using assms by (simp add: ctimer_inv_def)
  then have search: "ctimer_search (lnext (ctimer_list cs)) c (list_head (ctimer_list cs)) = Some (c \<in> set cxs)"
    by (simp add: lrep_def list_head_def ctimer_search_seg)
  from list_remove_rep [OF i, of c] obtain l where
    l: "list_remove (ctimer_list cs) c = Some l" "lrep l (remove1 c cxs)" by blast
  have "run_callback call c (cs\<lparr>ctimer_list := l\<rparr>, s, k) =
      (case ct_f cs c of
         None \<Rightarrow> Some (cs\<lparr>ctimer_list := l\<rparr>, s, k)
       | Some f \<Rightarrow> map_option (\<lambda>(cs, s, k'). (cs, s, k'\<lparr>process_current := process_current k\<rparr>))
           (call f (cs\<lparr>ctimer_list := l\<rparr>, s, k\<lparr>process_current := ct_p cs c\<rparr>)))"
    by (auto simp: run_callback_def Let_def map_option_case split: option.split)
  with search l show ?thesis by (auto simp: ctimer_process_def)
qed

text \<open>
  Timers 9 and 7 are listed, 7 set by process 3 with a callback that sets timer
  8. The event for timer 7 arrives at the callback process 1: timer 7 leaves the
  list, the callback runs in process 3, which becomes the process of timer 8,
  and afterwards the current process is 1 again. The event comes a second time
  and calls nothing.
\<close>

definition set_timer_8 :: "nat \<Rightarrow> (nat, nat, nat) csys \<Rightarrow> (nat, nat, nat) csys option" where
  "set_timer_8 arg = ctimer_set 20 0 1 8 50 (Some arg)"

definition ctimers97 :: "(nat, nat, nat) csys" where
  "ctimers97 = (\<lparr>ctimer_list = \<lparr>lhead = Some 9, lnext = (\<lambda>_. None)(9 := Some 7)\<rparr>, ct_p = (\<lambda>_. None)(7 := Some 3),
     ct_f = (\<lambda>_. None)(7 := Some 5), ct_initialized = True\<rparr>, etimers0, boot_kernel\<lparr>process_current := Some 1\<rparr>)"

lemma ctimers97_inv: "ctimer_inv ctimers97 [9, 7] []"
  by (simp add: ctimers97_def ctimer_inv_def lrep_def etimers0_inv)

lemma ctimer_fires_once_witness:
  "\<exists>cs s k. ctimer_process set_timer_8 PROCESS_EVENT_TIMER (DPtr 7) ctimers97 = Some (cs, s, k) \<and>
     lrep (ctimer_list cs) [9, 8] \<and> ct_p cs 8 = Some 3 \<and> ct_f cs 8 = Some 5 \<and> process_current k = Some 1 \<and>
     ctimer_process set_timer_8 PROCESS_EVENT_TIMER (DPtr 7) (cs, s, k) = Some (cs, s, k)"
proof -
  obtain cs0 s0 k0 where st: "ctimers97 = (cs0, s0, k0)" by (metis prod.collapse)
  then have c7: "ct_f cs0 7 = Some 5" "ct_p cs0 7 = Some 3" "process_current k0 = Some 1" and i0: "ctimer_inv (cs0, s0, k0) [9, 7] []"
    using ctimers97_inv by (auto simp: ctimers97_def)
  from ctimer_fires_once [OF i0, of 7 set_timer_8] c7 obtain l where
    l: "lrep l [9]" "ctimer_process set_timer_8 PROCESS_EVENT_TIMER (DPtr 7) (cs0, s0, k0) =
      map_option (\<lambda>(cs, s, k'). (cs, s, k'\<lparr>process_current := Some 1\<rparr>))
        (set_timer_8 5 (cs0\<lparr>ctimer_list := l\<rparr>, s0, k0\<lparr>process_current := Some 3\<rparr>))" by auto
  have "ctimer_inv (cs0\<lparr>ctimer_list := l\<rparr>, s0, k0\<lparr>process_current := Some 3\<rparr>) [9] []"
    using i0 l(1) by (simp add: ctimer_inv_def)
  from ctimer_set_spec [OF this, of 20 0 1 8 50 "Some 5"] obtain cs s k where
    r: "set_timer_8 5 (cs0\<lparr>ctimer_list := l\<rparr>, s0, k0\<lparr>process_current := Some 3\<rparr>) = Some (cs, s, k)"
      "ctimer_inv (cs, s, k) [9, 8] [8]" "ct_p cs 8 = Some 3" "ct_f cs 8 = Some 5"
    by (auto simp: set_timer_8_def)
  let ?k = "k\<lparr>process_current := Some 1\<rparr>"
  have i: "ctimer_inv (cs, s, ?k) [9, 8] [8]" using r(2) by (simp add: ctimer_inv_def)
  have "ctimer_process set_timer_8 PROCESS_EVENT_TIMER (DPtr 7) (cs, s, ?k) = Some (cs, s, ?k)"
    using ctimer_fires_once [OF i, of 7 set_timer_8] by simp
  moreover have "lrep (ctimer_list cs) [9, 8]" using r(2) by (simp add: ctimer_inv_def)
  ultimately show ?thesis using l(2) r st by (intro exI [of _ cs] exI [of _ s] exI [of _ ?k]) simp
qed

text \<open>
  Stopping a callback timer takes it off the callback list and its event
  timer off the event timer list; it then counts as expired.
\<close>

theorem ctimer_stop_correct:
  assumes "ctimer_inv (cs, s, k) cxs exs"
  shows "\<exists>cs' s'. ctimer_stop now c (cs, s, k) = Some (cs', s', k) \<and>
    ctimer_inv (cs', s', k) (remove1 c cxs) (remove1 c exs) \<and> ctimer_expired c (cs', s', k) = Some True"
proof -
  have i: "lrep (ctimer_list cs) cxs" "ct_initialized cs" "etimers_inv s exs"
    using assms by (simp_all add: ctimer_inv_def)
  from list_remove_rep [OF i(1), of c] obtain l where
    l: "list_remove (ctimer_list cs) c = Some l" "lrep l (remove1 c cxs)" by blast
  from etimer_stop_correct [OF i(3), of now c] obtain s' where
    "etimer_stop now c s = Some s'" "etimers_inv s' (remove1 c exs)" "etimer_expired c s'" by blast
  with l i(2) show ?thesis by (auto simp: ctimer_stop_def ctimer_inv_def ctimer_expired_def)
qed

lemma ctimer_stop_correct_witness:
  "\<exists>cs s. ctimer_stop 5 7 ctimers0 = Some (cs, s, boot_kernel) \<and> ctimer_expired 7 (cs, s, boot_kernel) = Some True"
  using ctimer_stop_correct [OF ctimers0_inv [unfolded ctimers0_def], of 5 7] by (auto simp: ctimers0_def)

end
