(* ===== verification/Trickle.thy ===== *)
theory Trickle
  imports Ctimer
begin

text \<open>
  The trickle timers (RFC 6206) of \<open>core/lib/trickle-timer.c\<close>, in their default
  configuration: error checking, drift compensation and wide random numbers.
  Each has a callback timer inside it, at the same address here, whose callback
  is \<open>fire\<close> or \<open>double_interval\<close>. A random number is the argument \<open>r\<close>; the
  clock does not tick within an operation. Division by zero and a shift by the
  width or more are undefined in C: \<^term>\<open>None\<close>.
\<close>

section \<open>State\<close>

record ('a, 'b) trickle_timer =
  tt_i_min :: clock_time_t
  tt_i_cur :: clock_time_t
  tt_i_start :: clock_time_t
  tt_i_max_abs :: clock_time_t
  tt_cb :: "'b option"
  tt_cb_arg :: 'a
  tt_i_max :: u8
  tt_k :: u8
  tt_c :: u8

datatype 'e trickle_callback = Fire 'e | Double_interval 'e

type_synonym ('e, 'p, 'a, 'b) tsys =
  "('e \<Rightarrow> ('a, 'b) trickle_timer) \<times> ('e, 'p, 'e trickle_callback) csys"

definition TRICKLE_TIMER_CLOCK_MAX :: clock_time_t where "TRICKLE_TIMER_CLOCK_MAX = NOT 0"
definition TRICKLE_TIMER_ERROR :: u8 where "TRICKLE_TIMER_ERROR = 0"
definition TRICKLE_TIMER_SUCCESS :: u8 where "TRICKLE_TIMER_SUCCESS = 1"

definition wide_rand :: "u16 \<Rightarrow> u16 \<Rightarrow> u32" where
  "wide_rand a b = push_bit 16 (ucast a) OR ucast b"

definition TRICKLE_TIMER_INTERVAL_END :: "('a, 'b) trickle_timer \<Rightarrow> clock_time_t" where
  "TRICKLE_TIMER_INTERVAL_END tt = tt_i_start tt + tt_i_cur tt"

definition TRICKLE_TIMER_PROTO_TX_ALLOW :: "('a, 'b) trickle_timer \<Rightarrow> bool" where
  "TRICKLE_TIMER_PROTO_TX_ALLOW tt \<longleftrightarrow> tt_k tt = 0 \<or> tt_c tt < tt_k tt"

definition TRICKLE_TIMER_IMIN_IS_BAD :: "clock_time_t \<Rightarrow> bool" where
  "TRICKLE_TIMER_IMIN_IS_BAD imin \<longleftrightarrow> imin < 2 \<or> imin > drop_bit 1 TRICKLE_TIMER_CLOCK_MAX"

definition TRICKLE_TIMER_IPAIR_IS_BAD :: "clock_time_t \<Rightarrow> u8 \<Rightarrow> bool" where
  "TRICKLE_TIMER_IPAIR_IS_BAD i_min i_max \<longleftrightarrow> drop_bit (unat i_max + 1) TRICKLE_TIMER_CLOCK_MAX < i_min - 1"

definition trickle_timer_is_running :: "('a, 'b) trickle_timer \<Rightarrow> bool" where
  "trickle_timer_is_running tt \<longleftrightarrow> tt_i_cur tt \<noteq> 0"

section \<open>Operations\<close>

text \<open>The generic variant of \<open>max_imax\<close>: \<open>i\<close> runs through 16, 8, 4, 2, 1.\<close>

definition max_imax_step :: "nat \<Rightarrow> u8 \<times> clock_time_t \<times> clock_time_t \<Rightarrow> u8 \<times> clock_time_t \<times> clock_time_t" where
  "max_imax_step i = (\<lambda>(zeros, mask, value).
     let mask = push_bit i mask
     in if value AND mask = 0 then (zeros + of_nat i, mask, push_bit i value) else (zeros, mask, value))"

definition max_imax :: "clock_time_t \<Rightarrow> u8" where
  "max_imax value = fst (fold max_imax_step [16, 8, 4, 2, 1] (0, 0xFFFF, value - 1)) - 1"

definition get_t :: "u32 \<Rightarrow> clock_time_t \<Rightarrow> clock_time_t option" where
  "get_t r i_cur = (let i_cur = drop_bit 1 i_cur in if i_cur = 0 then None else Some (i_cur + r mod i_cur))"

definition in_past :: "clock_time_t \<Rightarrow> bool" where
  "in_past loc_clock \<longleftrightarrow> loc_clock > drop_bit 1 TRICKLE_TIMER_CLOCK_MAX"

definition schedule_for_end :: "clock_time_t \<Rightarrow> 'p \<Rightarrow> 'p \<Rightarrow> 'e \<Rightarrow> ('e, 'p, 'a, 'b) tsys \<Rightarrow> ('e, 'p, 'a, 'b) tsys option" where
  "schedule_for_end now ep cp tt st = (let (ts, cs) = st;
     loc_clock = TRICKLE_TIMER_INTERVAL_END (ts tt) - now;
     loc_clock = (if in_past loc_clock then 0 else loc_clock) in
     map_option (Pair ts) (ctimer_set now ep cp tt loc_clock (Some (Double_interval tt)) cs))"

definition double_interval :: "clock_time_t \<Rightarrow> u32 \<Rightarrow> 'p \<Rightarrow> 'p \<Rightarrow> 'e \<Rightarrow> ('e, 'p, 'a, 'b) tsys \<Rightarrow> ('e, 'p, 'a, 'b) tsys option" where
  "double_interval now r ep cp loctt st = (let (ts, cs) = st;
     tt = (ts loctt)\<lparr>tt_c := 0\<rparr>;
     last_end = TRICKLE_TIMER_INTERVAL_END tt;
     tt = (if tt_i_cur tt \<le> drop_bit 1 (tt_i_max_abs tt)
           then tt\<lparr>tt_i_cur := push_bit 1 (tt_i_cur tt)\<rparr>
           else tt\<lparr>tt_i_cur := tt_i_max_abs tt\<rparr>) in do {
     t \<leftarrow> get_t r (tt_i_cur tt);
     let loc_clock = (last_end + t) - now;
     let loc_clock = (if in_past loc_clock then 0 else loc_clock);
     cs \<leftarrow> ctimer_set now ep cp loctt loc_clock (Some (Fire loctt)) cs;
     Some (ts(loctt := tt\<lparr>tt_i_start := last_end\<rparr>), cs)
   })"

text \<open>The protocol callback gets its argument and the suppression status; it may act on any state.\<close>

definition fire :: "clock_time_t \<Rightarrow> ('b \<Rightarrow> 'a \<Rightarrow> bool \<Rightarrow> ('e, 'p, 'a, 'b) tsys \<Rightarrow> ('e, 'p, 'a, 'b) tsys option) \<Rightarrow>
    'p \<Rightarrow> 'p \<Rightarrow> 'e \<Rightarrow> ('e, 'p, 'a, 'b) tsys \<Rightarrow> ('e, 'p, 'a, 'b) tsys option" where
  "fire now proto ep cp loctt st = do {
     st \<leftarrow> (case tt_cb (fst st loctt) of
         None \<Rightarrow> Some st
       | Some cb \<Rightarrow> proto cb (tt_cb_arg (fst st loctt)) (TRICKLE_TIMER_PROTO_TX_ALLOW (fst st loctt)) st);
     (if trickle_timer_is_running (fst st loctt) then schedule_for_end now ep cp loctt st else Some st)
   }"

definition new_interval :: "clock_time_t \<Rightarrow> u32 \<Rightarrow> 'p \<Rightarrow> 'p \<Rightarrow> 'e \<Rightarrow> ('e, 'p, 'a, 'b) tsys \<Rightarrow> ('e, 'p, 'a, 'b) tsys option" where
  "new_interval now r ep cp tt st = (let (ts, cs) = st; ts = ts(tt := (ts tt)\<lparr>tt_c := 0\<rparr>) in do {
     loc_clock \<leftarrow> get_t r (tt_i_cur (ts tt));
     (cs, s, k) \<leftarrow> ctimer_set now ep cp tt loc_clock (Some (Fire tt)) cs;
     Some (ts(tt := (ts tt)\<lparr>tt_i_start := t_start (et_timer s tt)\<rparr>), cs, s, k)
   })"

definition trickle_timer_consistency :: "('a, 'b) trickle_timer \<Rightarrow> ('a, 'b) trickle_timer" where
  "trickle_timer_consistency tt = (if tt_c tt < 0xFF then tt\<lparr>tt_c := tt_c tt + 1\<rparr> else tt)"

definition trickle_timer_inconsistency :: "clock_time_t \<Rightarrow> u32 \<Rightarrow> 'p \<Rightarrow> 'p \<Rightarrow> 'e \<Rightarrow>
    ('e, 'p, 'a, 'b) tsys \<Rightarrow> ('e, 'p, 'a, 'b) tsys option" where
  "trickle_timer_inconsistency now r ep cp tt st = (let (ts, cs) = st in
     if tt_i_cur (ts tt) \<noteq> tt_i_min (ts tt)
     then new_interval now r ep cp tt (ts(tt := (ts tt)\<lparr>tt_i_cur := tt_i_min (ts tt)\<rparr>), cs)
     else Some st)"

definition trickle_timer_stop :: "clock_time_t \<Rightarrow> 'e \<Rightarrow> ('e, 'p, 'a, 'b) tsys \<Rightarrow> ('e, 'p, 'a, 'b) tsys option" where
  "trickle_timer_stop now tt st = (let (ts, cs) = st in
     map_option (Pair (ts(tt := (ts tt)\<lparr>tt_i_cur := 0\<rparr>))) (ctimer_stop now tt cs))"

text \<open>A \<open>NULL\<close> timer is the argument \<^term>\<open>None\<close>.\<close>

definition trickle_timer_config :: "('a, 'b) trickle_timer option \<Rightarrow> clock_time_t \<Rightarrow> u8 \<Rightarrow> u8 \<Rightarrow>
    (u8 \<times> ('a, 'b) trickle_timer option) option" where
  "trickle_timer_config tt i_min i_max k =
     (if TRICKLE_TIMER_IMIN_IS_BAD i_min then Some (TRICKLE_TIMER_ERROR, tt)
      else (case tt of
          None \<Rightarrow> Some (TRICKLE_TIMER_ERROR, tt)
        | Some t \<Rightarrow>
          if i_max = 0 \<or> k = 0 then Some (TRICKLE_TIMER_ERROR, tt)
          else if unat i_max + 1 \<ge> 32 then None
          else (let i_max = (if TRICKLE_TIMER_IPAIR_IS_BAD i_min i_max then max_imax i_min else i_max)
            in Some (TRICKLE_TIMER_SUCCESS,
                 Some (t\<lparr>tt_i_min := i_min, tt_i_max := i_max, tt_i_max_abs := push_bit (unat i_max) i_min,
                         tt_k := k\<rparr>)))))"

definition trickle_timer_set :: "clock_time_t \<Rightarrow> u32 \<Rightarrow> u32 \<Rightarrow> 'p \<Rightarrow> 'p \<Rightarrow> 'e option \<Rightarrow> 'b option \<Rightarrow> 'a \<Rightarrow>
    ('e, 'p, 'a, 'b) tsys \<Rightarrow> (u8 \<times> ('e, 'p, 'a, 'b) tsys) option" where
  "trickle_timer_set now r1 r2 ep cp tt proto_cb ptr st =
     (case (tt, proto_cb) of
        (Some tt, Some cb) \<Rightarrow>
          (let (ts, cs) = st;
               t = (ts tt)\<lparr>tt_cb := Some cb, tt_cb_arg := ptr\<rparr>;
               range = tt_i_max_abs t - tt_i_min t + 1
           in if range = 0 then None
              else map_option (Pair TRICKLE_TIMER_SUCCESS)
                (new_interval now r2 ep cp tt (ts(tt := t\<lparr>tt_i_cur := tt_i_min t + r1 mod range\<rparr>), cs)))
      | _ \<Rightarrow> Some (TRICKLE_TIMER_ERROR, st))"

section \<open>The largest interval\<close>

lemma unat_push_bit_u32: "n < 32 \<Longrightarrow> unat (v :: u32) * 2 ^ n < 2 ^ 32 \<Longrightarrow> unat (push_bit n v) = unat v * 2 ^ n"
proof -
  assume "n < 32" and lt: "unat v * 2 ^ n < 2 ^ 32"
  then have "(2 :: nat) ^ n < 2 ^ 32" by (intro power_strict_increasing) simp_all
  then have "unat (of_nat (2 ^ n) :: u32) = 2 ^ n" by (rule unat_of_nat_u32)
  then have "unat (2 ^ n :: u32) = 2 ^ n" by simp
  with lt show ?thesis by (simp add: push_bit_eq_mult unat_word_ariths)
qed

lemma and_not_mask_0: "((v :: u32) AND NOT (mask n) = 0) = (unat v < 2 ^ n)"
proof -
  have "(v AND NOT (mask n) = 0) = (take_bit n v = v)"
  proof
    assume a: "v AND NOT (mask n) = 0"
    have "v = (v AND mask n) OR (v AND NOT (mask n))" by (rule bit_word_eqI) (auto simp: bit_simps)
    with a show "take_bit n v = v" by (simp add: take_bit_eq_mask)
  next
    assume "take_bit n v = v"
    then have "v AND mask n = v" by (simp add: take_bit_eq_mask)
    then show "v AND NOT (mask n) = 0" by (metis and.right_idem and.assoc bit.conj_cancel_right and_zero_eq)
  qed
  also have "\<dots> = (unat v < 2 ^ n)"
    by (metis take_bit_nat_eq_self_iff unsigned_take_bit_eq unsigned_word_eqI word_unat_eq_iff)
  finally show ?thesis .
qed

text \<open>One halving step of the count of leading zeros, on the numbers.\<close>

lemma max_imax_step_correct:
  assumes mask: "push_bit i msk = NOT (mask (32 - i))" and "i \<le> 16"
    and v: "2 ^ (32 - 2 * i) \<le> unat value" and z: "unat zeros + i < 256"
  shows "\<exists>zeros' value'. max_imax_step i (zeros, msk, value) = (zeros', push_bit i msk, value') \<and>
    (\<exists>d \<le> i. unat zeros' = unat zeros + d \<and> unat value' = unat value * 2 ^ d) \<and> 2 ^ (32 - i) \<le> unat value'"
proof (cases "unat value < 2 ^ (32 - i)")
  case True
  then have "unat value * 2 ^ i < 2 ^ (32 - i) * 2 ^ i" by simp
  also have "\<dots> = 2 ^ 32" using assms(2) by (simp flip: power_add)
  finally have p: "unat (push_bit i value) = unat value * 2 ^ i"
    using assms(2) by (intro unat_push_bit_u32) simp_all
  have "(2 :: nat) ^ (32 - i) = 2 ^ (32 - 2 * i) * 2 ^ i" using assms(2) by (simp flip: power_add)
  also have "\<dots> \<le> unat value * 2 ^ i" using v by simp
  finally have "2 ^ (32 - i) \<le> unat (push_bit i value)" using p by simp
  moreover have "unat (zeros + of_nat i) = unat zeros + i"
    using z by (simp add: unat_word_ariths unat_of_nat)
  ultimately show ?thesis
    using True p by (auto simp: max_imax_step_def mask and_not_mask_0 intro!: exI [of _ i])
next
  case False
  then show ?thesis
    by (auto simp: max_imax_step_def mask and_not_mask_0 intro!: exI [of _ 0])
qed

lemma max_imax_stepE:
  assumes "push_bit i msk = msk'" and "msk' = NOT (mask (32 - i))" and "i \<le> 16"
    and "2 ^ (32 - 2 * i) \<le> unat value" and "unat zeros + i < 256"
  obtains zeros' value' d where "max_imax_step i (zeros, msk, value) = (zeros', msk', value')"
    and "d \<le> i" and "unat zeros' = unat zeros + d" and "unat value' = unat value * 2 ^ d"
    and "2 ^ (32 - i) \<le> unat value'"
proof -
  have "push_bit i msk = NOT (mask (32 - i))" using assms(1,2) by simp
  from max_imax_step_correct [OF this assms(3,4,5)] assms(1) that show thesis by blast
qed

lemma max_imax_zeros:
  assumes "0 < unat w"
  obtains z where "fst (fold max_imax_step [16, 8, 4, 2, 1] (0, 0xFFFF, w)) = z"
    and "unat z \<le> 31" and "2 ^ 31 \<le> unat w * 2 ^ unat z" and "unat w * 2 ^ unat z < 2 ^ 32"
proof -
  note masks = mask_eq_exp_minus_1 push_bit_eq_mult
  obtain z1 v1 d1 where 1: "max_imax_step 16 (0, 0xFFFF, w) = (z1, 0xFFFF0000, v1)" "d1 \<le> 16"
    "unat z1 = 0 + d1" "unat v1 = unat w * 2 ^ d1" "2 ^ 16 \<le> unat v1"
    by (rule max_imax_stepE [of 16 "0xFFFF" "0xFFFF0000" w 0]) (use assms in \<open>simp_all add: masks\<close>)
  obtain z2 v2 d2 where 2: "max_imax_step 8 (z1, 0xFFFF0000, v1) = (z2, 0xFF000000, v2)" "d2 \<le> 8"
    "unat z2 = unat z1 + d2" "unat v2 = unat v1 * 2 ^ d2" "2 ^ 24 \<le> unat v2"
    by (rule max_imax_stepE [of 8 "0xFFFF0000" "0xFF000000" v1 z1]) (use 1 in \<open>simp_all add: masks\<close>)
  obtain z3 v3 d3 where 3: "max_imax_step 4 (z2, 0xFF000000, v2) = (z3, 0xF0000000, v3)" "d3 \<le> 4"
    "unat z3 = unat z2 + d3" "unat v3 = unat v2 * 2 ^ d3" "2 ^ 28 \<le> unat v3"
    by (rule max_imax_stepE [of 4 "0xFF000000" "0xF0000000" v2 z2]) (use 1(2,3) 2 in \<open>simp_all add: masks\<close>)
  obtain z4 v4 d4 where 4: "max_imax_step 2 (z3, 0xF0000000, v3) = (z4, 0xC0000000, v4)" "d4 \<le> 2"
    "unat z4 = unat z3 + d4" "unat v4 = unat v3 * 2 ^ d4" "2 ^ 30 \<le> unat v4"
    by (rule max_imax_stepE [of 2 "0xF0000000" "0xC0000000" v3 z3]) (use 1(2,3) 2(2,3) 3 in \<open>simp_all add: masks\<close>)
  obtain z5 v5 d5 where 5: "max_imax_step 1 (z4, 0xC0000000, v4) = (z5, 0x80000000, v5)" "d5 \<le> 1"
    "unat z5 = unat z4 + d5" "unat v5 = unat v4 * 2 ^ d5" "2 ^ 31 \<le> unat v5"
    by (rule max_imax_stepE [of 1 "0xC0000000" "0x80000000" v4 z4])
      (use 1(2,3) 2(2,3) 3(2,3) 4 in \<open>simp_all add: masks\<close>)
  have "unat v5 = unat w * 2 ^ unat z5"
    using 1(3,4) 2(3,4) 3(3,4) 4(3,4) 5(3,4) by (simp add: power_add)
  with 5(5) unat_u32 [of v5] 1 2 3 4 5(1,2,3) show thesis
    by (intro that [of z5]) simp_all
qed

lemma max_imax_correct:
  assumes "2 \<le> unat v" and "unat v \<le> 2 ^ 31"
  shows "unat (max_imax v) \<le> 30 \<and> unat v \<le> 2 ^ (31 - unat (max_imax v)) \<and> 2 ^ (30 - unat (max_imax v)) < unat v"
proof -
  let ?w = "v - 1"
  have "v \<noteq> 0" using assms(1) by auto
  then have w: "unat ?w = unat v - 1" by (rule unat_minus_one)
  then have "0 < unat ?w" using assms(1) by simp
  then obtain z where z: "fst (fold max_imax_step [16, 8, 4, 2, 1] (0, 0xFFFF, ?w)) = z" "unat z \<le> 31"
    "2 ^ 31 \<le> unat ?w * 2 ^ unat z" "unat ?w * 2 ^ unat z < 2 ^ 32" by (rule max_imax_zeros)
  have "unat z \<noteq> 0"
  proof
    assume "unat z = 0"
    with z(3) have "2 ^ 31 \<le> unat ?w" by simp
    with w assms show False by linarith
  qed
  then obtain k where k: "unat z = Suc k" by (cases "unat z") auto
  then have "z \<noteq> 0" by auto
  then have mx: "unat (max_imax v) = k" using z(1) k by (simp add: max_imax_def unat_minus_one)
  have "(2 :: nat) ^ 32 = 2 ^ (31 - k) * 2 ^ Suc k" using k z(2) by (simp flip: power_add)
  with z(4) k have "unat ?w < 2 ^ (31 - k)" by (metis mult_less_cancel2)
  moreover have "(2 :: nat) ^ 31 = 2 ^ (30 - k) * 2 ^ Suc k" using k z(2) by (simp flip: power_add)
  with z(3) k have "2 ^ (30 - k) \<le> unat ?w" by (metis mult_le_cancel2 zero_less_numeral zero_less_power)
  ultimately show ?thesis using mx w assms k z(2) by auto
qed

section \<open>Intervals\<close>

text \<open>What \<open>trickle_timer_config\<close> establishes, and the interval of a running timer.\<close>

definition tt_configured :: "('a, 'b) trickle_timer \<Rightarrow> bool" where
  "tt_configured t \<longleftrightarrow> 2 \<le> unat (tt_i_min t) \<and> tt_i_min t \<le> tt_i_max_abs t \<and> unat (tt_i_max_abs t) \<le> 2 ^ 31"

definition tt_running :: "('a, 'b) trickle_timer \<Rightarrow> bool" where
  "tt_running t \<longleftrightarrow> tt_configured t \<and> tt_i_min t \<le> tt_i_cur t \<and> tt_i_cur t \<le> tt_i_max_abs t"

lemma unat_half: "unat (drop_bit 1 (v :: u32)) = unat v div 2"
  by (subst unat_drop_bit_eq) (simp add: drop_bit_eq_div)

lemma get_t_bounds:
  assumes "2 \<le> unat i"
  obtains t where "get_t r i = Some t" and "unat i div 2 \<le> unat t" and "unat t < unat i"
proof -
  let ?h = "drop_bit 1 i"
  have h: "unat ?h = unat i div 2" by (rule unat_half)
  have nz: "?h \<noteq> 0" using h assms by (metis div_eq_0_iff not_less unat_0 zero_neq_numeral)
  have m: "unat (r mod ?h) < unat ?h" using nz by (metis unat_mod mod_less_divisor unat_gt_0)
  have "unat ?h + unat (r mod ?h) < 2 ^ 32" using m h unat_u32 [of i] by linarith
  then have "unat (?h + r mod ?h) = unat ?h + unat (r mod ?h)" by (simp add: unat_word_ariths)
  moreover have "get_t r i = Some (?h + r mod ?h)" by (simp only: get_t_def Let_def nz if_False)
  ultimately show thesis using m h assms by (intro that [of "?h + r mod ?h"]) simp_all
qed

text \<open>The callback timer of \<open>tt\<close> is set to run \<open>cb\<close> in \<open>t\<close> ticks from \<open>now\<close>.\<close>

definition scheduled :: "clock_time_t \<Rightarrow> clock_time_t \<Rightarrow> 'e trickle_callback \<Rightarrow> 'e \<Rightarrow> ('e, 'p, 'e trickle_callback) csys \<Rightarrow> bool" where
  "scheduled now t cb tt = (\<lambda>(cs, s, k).
     (\<exists>cxs exs. ctimer_inv (cs, s, k) cxs exs \<and> tt \<in> set cxs \<and> tt \<in> set exs) \<and>
     ct_f cs tt = Some cb \<and> et_timer s tt = \<lparr>t_start = now, t_interval = t\<rparr>)"

definition ctimers_ok :: "('e, 'p, 'f) csys \<Rightarrow> bool" where
  "ctimers_ok cs \<longleftrightarrow> (\<exists>cxs exs. ctimer_inv cs cxs exs)"

lemma ctimer_set_scheduled:
  assumes "ctimers_ok (cs, s, k)"
  obtains cs' s' k' where "ctimer_set now ep cp tt t (Some cb) (cs, s, k) = Some (cs', s', k')"
    and "scheduled now t cb tt (cs', s', k')"
proof -
  obtain cxs exs where "ctimer_inv (cs, s, k) cxs exs" using assms by (auto simp: ctimers_ok_def)
  from ctimer_set_spec [OF this, of now ep cp tt t "Some cb"] that show thesis
    by (auto simp: scheduled_def split: if_splits) (metis in_set_conv_decomp list.set_intros(1))+
qed

lemma new_interval_correct:
  assumes "ctimers_ok (cs, s, k)" and "2 \<le> unat (tt_i_cur (ts tt))"
  obtains cs' t where "new_interval now r ep cp tt (ts, cs, s, k) =
      Some (ts(tt := (ts tt)\<lparr>tt_c := 0, tt_i_start := now\<rparr>), cs')"
    and "scheduled now t (Fire tt) tt cs'" and "unat (tt_i_cur (ts tt)) div 2 \<le> unat t"
    and "unat t < unat (tt_i_cur (ts tt))"
proof -
  obtain t where t: "get_t r (tt_i_cur (ts tt)) = Some t" "unat (tt_i_cur (ts tt)) div 2 \<le> unat t"
    "unat t < unat (tt_i_cur (ts tt))" using assms(2) by (rule get_t_bounds)
  obtain cs' s' k' where c: "ctimer_set now ep cp tt t (Some (Fire tt)) (cs, s, k) = Some (cs', s', k')"
    "scheduled now t (Fire tt) tt (cs', s', k')" using assms(1) by (rule ctimer_set_scheduled)
  have "t_start (et_timer s' tt) = now" using c(2) by (simp add: scheduled_def)
  with t c that show thesis by (simp add: new_interval_def Let_def)
qed

section \<open>Properties\<close>

lemma unat_max_shift: "n \<le> 32 \<Longrightarrow> unat (drop_bit n TRICKLE_TIMER_CLOCK_MAX) = 2 ^ (32 - n) - 1"
proof -
  assume "n \<le> 32"
  then have "(2 :: nat) ^ 32 = 2 ^ n * 2 ^ (32 - n)" by (simp flip: power_add)
  then have "(2 :: nat) ^ 32 - 1 = (2 ^ n - 1) + 2 ^ n * (2 ^ (32 - n) - 1)"
  proof -
    assume e: "(2 :: nat) ^ 32 = 2 ^ n * 2 ^ (32 - n)"
    have "(1 :: nat) \<le> 2 ^ n" "(2 :: nat) ^ n \<le> 2 ^ n * 2 ^ (32 - n)" by simp_all
    then show ?thesis unfolding e right_diff_distrib' mult_1_right by linarith
  qed
  moreover have d: "(r + 2 ^ n * b) div 2 ^ n = b" if "r < 2 ^ n" for r b :: nat using that by simp
  have "((2 :: nat) ^ n - 1 + 2 ^ n * (2 ^ (32 - n) - 1)) div 2 ^ n = 2 ^ (32 - n) - 1" by (rule d) simp
  ultimately have "(2 ^ 32 - 1) div 2 ^ n = (2 :: nat) ^ (32 - n) - 1" by (simp only:)
  then show ?thesis
    using unat_max_u32 unfolding TRICKLE_TIMER_CLOCK_MAX_def
    by (subst unat_drop_bit_eq) (simp add: drop_bit_eq_div)
qed

text \<open>
  C22. When \<open>trickle_timer_config\<close> accepts its arguments, the largest interval
  \<open>Imin << Imax\<close> it stores is exact, no bit is lost, and at most half the clock
  range; \<open>Imax\<close> is the requested one, or the largest that has this property
  when the requested one is too large: the halving search of \<open>max_imax\<close> is
  right.
\<close>

theorem trickle_config_exact:
  assumes "trickle_timer_config (Some t) i_min i_max k = Some (TRICKLE_TIMER_SUCCESS, Some t')"
  shows "tt_configured t' \<and> unat (tt_i_max_abs t') = unat i_min * 2 ^ unat (tt_i_max t') \<and>
    (tt_i_max t' = i_max \<or> tt_i_max t' < i_max \<and> 2 ^ 31 < unat i_min * 2 ^ (unat (tt_i_max t') + 1))"
proof -
  let ?m = "if TRICKLE_TIMER_IPAIR_IS_BAD i_min i_max then max_imax i_min else i_max"
  have ok: "\<not> TRICKLE_TIMER_IMIN_IS_BAD i_min" and i: "unat i_max \<le> 30"
    and t': "t' = t\<lparr>tt_i_min := i_min, tt_i_max := ?m, tt_i_max_abs := push_bit (unat ?m) i_min, tt_k := k\<rparr>"
    using assms by (auto simp: trickle_timer_config_def Let_def TRICKLE_TIMER_ERROR_def TRICKLE_TIMER_SUCCESS_def
        split: if_splits)
  have min: "2 \<le> unat i_min" "unat i_min \<le> 2 ^ 31"
    using ok unat_max_shift [of 1] by (auto simp: TRICKLE_TIMER_IMIN_IS_BAD_def word_less_nat_alt word_le_nat_alt not_less)
  have m1: "unat (i_min - 1) = unat i_min - 1" using min(1) by (intro unat_minus_one) auto
  have bad: "TRICKLE_TIMER_IPAIR_IS_BAD i_min i_max = (2 ^ (31 - unat i_max) < unat i_min)"
    using i unat_max_shift [of "unat i_max + 1"] m1 min(1)
    by (auto simp: TRICKLE_TIMER_IPAIR_IS_BAD_def word_less_nat_alt)
  note mx = max_imax_correct [OF min]
  have m: "unat ?m \<le> 30" "unat i_min \<le> 2 ^ (31 - unat ?m)" using bad mx i by (auto split: if_splits)
  have "unat i_min * 2 ^ unat ?m \<le> 2 ^ (31 - unat ?m) * 2 ^ unat ?m" using m(2) by simp
  also have "\<dots> = 2 ^ 31" using m(1) by (simp flip: power_add)
  finally have le: "unat i_min * 2 ^ unat ?m \<le> 2 ^ 31" .
  then have abs: "unat (push_bit (unat ?m) i_min) = unat i_min * 2 ^ unat ?m"
    using m(1) by (intro unat_push_bit_u32) simp_all
  have "i_min \<le> push_bit (unat ?m) i_min" using abs by (simp add: word_le_nat_alt)
  then have "tt_configured t'" using t' min(1) abs le by (simp add: tt_configured_def)
  moreover have "max_imax i_min < i_max \<and> 2 ^ 31 < unat i_min * 2 ^ (unat (max_imax i_min) + 1)"
    if "TRICKLE_TIMER_IPAIR_IS_BAD i_min i_max"
  proof
    have "(2 :: nat) ^ (31 - unat i_max) < 2 ^ (31 - unat (max_imax i_min))" using that bad mx by linarith
    then have "31 - unat i_max < 31 - unat (max_imax i_min)" by (simp add: power_strict_increasing_iff)
    then show "max_imax i_min < i_max" by (simp add: word_less_nat_alt)
    have "(2 :: nat) ^ 31 = 2 ^ (30 - unat (max_imax i_min)) * 2 ^ (unat (max_imax i_min) + 1)"
      using mx by (simp flip: power_add)
    also have "\<dots> < unat i_min * 2 ^ (unat (max_imax i_min) + 1)" using mx by simp
    finally show "2 ^ 31 < unat i_min * 2 ^ (unat (max_imax i_min) + 1)" .
  qed
  ultimately show ?thesis using t' abs by (auto split: if_splits)
qed

lemma trickle_config_exact_witness:
  "\<exists>t'. trickle_timer_config (Some \<lparr>tt_i_min = 0, tt_i_cur = 0, tt_i_start = 0, tt_i_max_abs = 0, tt_cb = (None :: unit option),
      tt_cb_arg = (), tt_i_max = 0, tt_k = 0, tt_c = 0\<rparr>) 1024 30 3 = Some (TRICKLE_TIMER_SUCCESS, Some t') \<and> tt_configured t'"
proof -
  let ?t = "\<lparr>tt_i_min = 0, tt_i_cur = 0, tt_i_start = 0, tt_i_max_abs = 0, tt_cb = (None :: unit option),
      tt_cb_arg = (), tt_i_max = 0, tt_k = 0, tt_c = 0\<rparr>"
  obtain t' where "trickle_timer_config (Some ?t) 1024 30 3 = Some (TRICKLE_TIMER_SUCCESS, Some t')"
    by (simp add: trickle_timer_config_def TRICKLE_TIMER_IMIN_IS_BAD_def TRICKLE_TIMER_CLOCK_MAX_def Let_def
        mask_eq_exp_minus_1)
  with trickle_config_exact [OF this] show ?thesis by blast
qed

definition tsys0 :: "(nat, nat, unit, unit) tsys" where
  "tsys0 = ((\<lambda>_. \<lparr>tt_i_min = 8, tt_i_cur = 8, tt_i_start = 0, tt_i_max_abs = 64, tt_cb = Some (),
      tt_cb_arg = (), tt_i_max = 3, tt_k = 1, tt_c = 2\<rparr>),
    \<lparr>ctimer_list = \<lparr>lhead = None, lnext = (\<lambda>_. None)\<rparr>, ct_p = (\<lambda>_. None), ct_f = (\<lambda>_. None),
     ct_initialized = True\<rparr>, etimers0, boot_kernel)"

lemma tsys0_ok: "ctimers_ok (snd tsys0)" "tt_running (fst tsys0 tt)"
proof -
  have "ctimer_inv (snd tsys0) [] []"
    by (simp add: tsys0_def ctimer_inv_def lrep_def etimers0_inv)
  then show "ctimers_ok (snd tsys0)" unfolding ctimers_ok_def by blast
  show "tt_running (fst tsys0 tt)" by (simp add: tsys0_def tt_running_def tt_configured_def word_le_nat_alt)
qed

lemma trickle_set_spec:
  assumes "ctimers_ok (cs, s, k)" and conf: "tt_configured (ts tt)"
  obtains t i ts' cs' where "trickle_timer_set now r1 r2 ep cp (Some tt) (Some cb) a (ts, cs, s, k) =
      Some (TRICKLE_TIMER_SUCCESS, ts', cs')"
    and "ts' tt = (ts tt)\<lparr>tt_cb := Some cb, tt_cb_arg := a, tt_i_cur := i, tt_c := 0, tt_i_start := now\<rparr>"
    and "tt_running (ts' tt)" and "scheduled now t (Fire tt) tt cs'" and "unat i div 2 \<le> unat t" and "unat t < unat i"
proof -
  let ?t = "ts tt"
  let ?range = "tt_i_max_abs ?t - tt_i_min ?t + 1"
  let ?i = "tt_i_min ?t + r1 mod ?range"
  let ?ts = "ts(tt := ?t\<lparr>tt_cb := Some cb, tt_cb_arg := a, tt_i_cur := ?i\<rparr>)"
  have c: "2 \<le> unat (tt_i_min ?t)" "unat (tt_i_min ?t) \<le> unat (tt_i_max_abs ?t)" "unat (tt_i_max_abs ?t) \<le> 2 ^ 31"
    using conf by (auto simp: tt_configured_def word_le_nat_alt)
  have "unat (tt_i_max_abs ?t - tt_i_min ?t) = unat (tt_i_max_abs ?t) - unat (tt_i_min ?t)"
    using c(2) by (simp add: unat_sub word_le_nat_alt)
  then have range: "unat ?range = unat (tt_i_max_abs ?t) - unat (tt_i_min ?t) + 1"
    using c by (simp add: unat_word_ariths)
  then have nz: "?range \<noteq> 0" by (metis add_is_0 unat_0 zero_neq_one)
  have m: "unat (r1 mod ?range) < unat ?range" using nz by (metis unat_mod mod_less_divisor unat_gt_0)
  have i: "unat ?i = unat (tt_i_min ?t) + unat (r1 mod ?range)"
    using c m range by (simp add: unat_word_ariths)
  then have two: "2 \<le> unat (tt_i_cur (?ts tt))" using c(1) by simp
  obtain cs' t where n: "new_interval now r2 ep cp tt (?ts, cs, s, k) =
      Some (?ts(tt := (?ts tt)\<lparr>tt_c := 0, tt_i_start := now\<rparr>), cs')"
    "scheduled now t (Fire tt) tt cs'" "unat ?i div 2 \<le> unat t" "unat t < unat ?i" by (rule new_interval_correct [where ts = ?ts and tt = tt and now = now and r = r2 and ep = ep and cp = cp,
        OF assms(1) two]) (rule that, simp_all)
  have "tt_running ((?ts(tt := (?ts tt)\<lparr>tt_c := 0, tt_i_start := now\<rparr>)) tt)"
    using conf i m range c by (auto simp: tt_running_def tt_configured_def word_le_nat_alt)
  then show thesis using n nz
    by (intro that [where t = t and i = ?i and cs' = cs' and ts' = "?ts(tt := (?ts tt)\<lparr>tt_c := 0, tt_i_start := now\<rparr>)"])
      (simp_all add: trickle_timer_set_def Let_def)
qed

lemma trickle_inconsistency_spec:
  assumes "ctimers_ok (cs, s, k)" and "tt_configured (ts tt)" and "tt_i_cur (ts tt) \<noteq> tt_i_min (ts tt)"
  obtains t ts' cs' where "trickle_timer_inconsistency now r ep cp tt (ts, cs, s, k) = Some (ts', cs')"
    and "ts' tt = (ts tt)\<lparr>tt_i_cur := tt_i_min (ts tt), tt_c := 0, tt_i_start := now\<rparr>"
    and "tt_running (ts' tt)" and "scheduled now t (Fire tt) tt cs'"
    and "unat (tt_i_min (ts tt)) div 2 \<le> unat t" and "unat t < unat (tt_i_min (ts tt))"
proof -
  let ?ts = "ts(tt := (ts tt)\<lparr>tt_i_cur := tt_i_min (ts tt)\<rparr>)"
  have two: "2 \<le> unat (tt_i_cur (?ts tt))" using assms(2) by (simp add: tt_configured_def)
  obtain cs' t where n: "new_interval now r ep cp tt (?ts, cs, s, k) =
      Some (?ts(tt := (?ts tt)\<lparr>tt_c := 0, tt_i_start := now\<rparr>), cs')"
    "scheduled now t (Fire tt) tt cs'" "unat (tt_i_min (ts tt)) div 2 \<le> unat t" "unat t < unat (tt_i_min (ts tt))"
    by (rule new_interval_correct [where ts = ?ts and tt = tt and now = now and r = r and ep = ep and cp = cp,
        OF assms(1) two]) (rule that, simp_all)
  have "tt_running ((?ts(tt := (?ts tt)\<lparr>tt_c := 0, tt_i_start := now\<rparr>)) tt)"
    using assms(2) by (auto simp: tt_running_def tt_configured_def)
  then show thesis using n assms(3)
    by (intro that [where t = t and cs' = cs' and ts' = "?ts(tt := (?ts tt)\<lparr>tt_c := 0, tt_i_start := now\<rparr>)"])
      (simp_all add: trickle_timer_inconsistency_def Let_def)
qed

text \<open>
  C38. Setting a configured trickle timer starts a first interval between \<open>Imin\<close>
  and \<open>Imax\<close> with a cleared counter, and schedules the transmission in its
  second half, for any random numbers; an inconsistency does so with the
  interval \<open>Imin\<close> unless that is the interval already, when it changes nothing.
\<close>

theorem trickle_interval_started:
  assumes "ctimers_ok (cs, s, k)" and "tt_configured (ts tt)"
  shows "(\<exists>t i ts' cs'. trickle_timer_set now r1 r2 ep cp (Some tt) (Some cb) a (ts, cs, s, k) =
      Some (TRICKLE_TIMER_SUCCESS, ts', cs') \<and>
    ts' tt = (ts tt)\<lparr>tt_cb := Some cb, tt_cb_arg := a, tt_i_cur := i, tt_c := 0, tt_i_start := now\<rparr> \<and>
    tt_running (ts' tt) \<and> scheduled now t (Fire tt) tt cs' \<and> unat i div 2 \<le> unat t \<and> unat t < unat i) \<and>
    (\<exists>t ts' cs'. trickle_timer_inconsistency now r2 ep cp tt (ts, cs, s, k) = Some (ts', cs') \<and>
      (if tt_i_cur (ts tt) = tt_i_min (ts tt) then (ts', cs') = (ts, cs, s, k)
       else ts' tt = (ts tt)\<lparr>tt_i_cur := tt_i_min (ts tt), tt_c := 0, tt_i_start := now\<rparr> \<and>
         tt_running (ts' tt) \<and> scheduled now t (Fire tt) tt cs' \<and>
         unat (tt_i_min (ts tt)) div 2 \<le> unat t \<and> unat t < unat (tt_i_min (ts tt))))" (is "?set \<and> ?inconsistency")
proof
  show ?set using assms by (rule trickle_set_spec) blast
  show ?inconsistency
  proof (cases "tt_i_cur (ts tt) = tt_i_min (ts tt)")
    case True
    then show ?thesis by (simp add: trickle_timer_inconsistency_def)
  next
    case False
    with assms show ?thesis
      by (rule trickle_inconsistency_spec [where now = now and r = r2 and ep = ep and cp = cp]) (use False in \<open>simp, blast\<close>)
  qed
qed

lemma trickle_interval_started_witness:
  "\<exists>cs s k. snd tsys0 = (cs, s, k) \<and> (\<exists>t ts' cs'. scheduled 5 t (Fire 2) 2 cs' \<and>
    trickle_timer_set 5 77 99 1 0 (Some 2) (Some ()) () (fst tsys0, cs, s, k) = Some (TRICKLE_TIMER_SUCCESS, ts', cs'))"
proof -
  obtain cs s k where e: "snd tsys0 = (cs, s, k)" by (cases "snd tsys0")
  have "ctimers_ok (cs, s, k)" "tt_configured (fst tsys0 2)"
    using tsys0_ok(1) tsys0_ok(2) [of 2] e by (simp_all add: tt_running_def)
  from trickle_interval_started [where ts = "fst tsys0" and tt = 2 and now = 5 and ?r1.0 = 77 and ?r2.0 = 99 and ep = 1 and cp = 0
      and cb = "()" and a = "()", OF this] e
  show ?thesis by blast
qed

text \<open>
  When an interval ends the next one begins at that very instant, however
  late the callback runs: it is twice as long, but at most \<open>Imax\<close>, its counter
  is clear, the timer stays well-formed, and the transmission is scheduled.
  Called in time, the transmission falls into the second half of the new
  interval, counted from its start.
\<close>

theorem trickle_double_interval:
  assumes "ctimers_ok (cs, s, k)" and run: "tt_running (ts tt)"
  shows "\<exists>i t d ts' cs'. double_interval now r ep cp tt (ts, cs, s, k) = Some (ts', cs') \<and>
    unat i = min (2 * unat (tt_i_cur (ts tt))) (unat (tt_i_max_abs (ts tt))) \<and>
    ts' = ts(tt := (ts tt)\<lparr>tt_c := 0, tt_i_cur := i, tt_i_start := TRICKLE_TIMER_INTERVAL_END (ts tt)\<rparr>) \<and>
    tt_running (ts' tt) \<and> scheduled now d (Fire tt) tt cs' \<and> unat i div 2 \<le> unat t \<and> unat t < unat i \<and>
    (d = 0 \<or> now + d = tt_i_start (ts' tt) + t)"
proof -
  let ?t = "ts tt"
  let ?i = "if tt_i_cur ?t \<le> drop_bit 1 (tt_i_max_abs ?t) then push_bit 1 (tt_i_cur ?t) else tt_i_max_abs ?t"
  have c: "2 \<le> unat (tt_i_cur ?t)" "unat (tt_i_cur ?t) \<le> unat (tt_i_max_abs ?t)" "unat (tt_i_max_abs ?t) \<le> 2 ^ 31"
    using run by (auto simp: tt_running_def tt_configured_def word_le_nat_alt)
  have half: "(tt_i_cur ?t \<le> drop_bit 1 (tt_i_max_abs ?t)) = (2 * unat (tt_i_cur ?t) \<le> unat (tt_i_max_abs ?t))"
    unfolding word_le_nat_alt unat_half by linarith
  have "unat (push_bit 1 (tt_i_cur ?t)) = 2 * unat (tt_i_cur ?t)"
    if "2 * unat (tt_i_cur ?t) \<le> unat (tt_i_max_abs ?t)"
    using unat_push_bit_u32 [of 1 "tt_i_cur ?t"] that c(3) by simp
  then have i: "unat ?i = min (2 * unat (tt_i_cur ?t)) (unat (tt_i_max_abs ?t))" using half by (simp add: min_def)
  then have "2 \<le> unat ?i" using c by simp
  then obtain t where t: "get_t r ?i = Some t" "unat ?i div 2 \<le> unat t" "unat t < unat ?i" by (rule get_t_bounds)
  let ?d = "TRICKLE_TIMER_INTERVAL_END ?t + t - now"
  let ?d' = "if in_past ?d then 0 else ?d"
  obtain cs' s' k' where s: "ctimer_set now ep cp tt ?d' (Some (Fire tt)) (cs, s, k) = Some (cs', s', k')"
    "scheduled now ?d' (Fire tt) tt (cs', s', k')" using assms(1) by (rule ctimer_set_scheduled)
  let ?t' = "?t\<lparr>tt_c := 0, tt_i_cur := ?i, tt_i_start := TRICKLE_TIMER_INTERVAL_END ?t\<rparr>"
  have "double_interval now r ep cp tt (ts, cs, s, k) = Some (ts(tt := ?t'), cs', s', k')"
    using t(1) s(1) by (auto simp: double_interval_def Let_def TRICKLE_TIMER_INTERVAL_END_def split: if_splits)
  moreover have "tt_running ?t'"
    using run i c by (auto simp: tt_running_def tt_configured_def word_le_nat_alt)
  moreover have "?d' = 0 \<or> now + ?d' = TRICKLE_TIMER_INTERVAL_END ?t + t" by simp
  ultimately show ?thesis using i t(2,3) s(2)
    by (intro exI [of _ ?i] exI [of _ t] exI [of _ ?d'] exI [of _ "ts(tt := ?t')"] exI [of _ "(cs', s', k')"]) simp
qed

lemma trickle_double_interval_witness:
  "\<exists>cs s k. snd tsys0 = (cs, s, k) \<and> (\<exists>ts' cs'. double_interval 8 77 1 0 2 (fst tsys0, cs, s, k) = Some (ts', cs') \<and>
    unat (tt_i_cur (ts' 2)) = 16 \<and> tt_i_start (ts' 2) = 8)"
proof -
  obtain cs s k where e: "snd tsys0 = (cs, s, k)" by (cases "snd tsys0")
  have "ctimers_ok (cs, s, k)" "tt_running (fst tsys0 2)" using tsys0_ok(1) tsys0_ok(2) [of 2] e by simp_all
  from trickle_double_interval [where ts = "fst tsys0" and tt = 2 and now = 8 and r = 77 and ep = 1 and cp = 0, OF this] e
  show ?thesis by (auto simp: tsys0_def TRICKLE_TIMER_INTERVAL_END_def)
qed

end
