(* ===== verification/Bytes.thy ===== *)
theory Bytes
  imports Prelude
begin

text \<open>
  Byte buffers as C uses them: checked reads and writes at an offset, \<open>memcpy\<close>,
  the \<open>buf[pos++] = b\<close> idiom of the encoders, and numbers in network byte order.
  An access outside of the buffer is \<^term>\<open>None\<close>.
\<close>

section \<open>Reading and copying\<close>

definition get :: "u8 list \<Rightarrow> nat \<Rightarrow> u8 option" where
  "get buf i = (if i < length buf then Some (buf ! i) else None)"

definition read_bytes :: "nat \<Rightarrow> nat \<Rightarrow> u8 list \<Rightarrow> u8 list option" where
  "read_bytes p n buf = (if p + n \<le> length buf then Some (take n (drop p buf)) else None)"

definition write_bytes :: "nat \<Rightarrow> u8 list \<Rightarrow> u8 list \<Rightarrow> u8 list option" where
  "write_bytes p bs buf =
     (if p + length bs \<le> length buf then Some (take p buf @ bs @ drop (p + length bs) buf) else None)"

lemma get_append1 [simp]: "i < length xs \<Longrightarrow> get (xs @ ys) i = Some (xs ! i)"
  by (simp add: get_def nth_append)

lemma get_append2 [simp]: "get (xs @ ys) (length xs + i) = get ys i"
  by (simp add: get_def nth_append)

lemma get_append3 [simp]: "get (xs @ ys) (length xs) = get ys 0"
  using get_append2 [of xs ys 0] by simp

lemma get_Cons_0 [simp]: "get (x # xs) 0 = Some x"
  by (simp add: get_def)

lemma get_Cons_Suc [simp]: "get (x # xs) (Suc i) = get xs i"
  by (simp add: get_def)

lemma get_Cons_numeral [simp]: "get (x # xs) (numeral v) = get xs (pred_numeral v)"
  by (simp add: get_def numeral_eq_Suc)

lemma get_Nil [simp]: "get [] i = None"
  by (simp add: get_def)

lemma read_bytes_append [simp]:
  "n = length bs \<Longrightarrow> read_bytes (length xs) n (xs @ bs @ ys) = Some bs"
  by (simp add: read_bytes_def)

lemma write_bytes_length: "write_bytes p bs buf = Some buf' \<Longrightarrow> length buf' = length buf"
  by (auto simp: write_bytes_def split: if_splits)

lemma write_bytes_append [simp]:
  "length bs = length old \<Longrightarrow> write_bytes (length xs) bs (xs @ old @ ys) = Some (xs @ bs @ ys)"
  by (simp add: write_bytes_def)

section \<open>Writing byte by byte\<close>

definition put :: "u8 \<Rightarrow> u8 list \<times> nat \<Rightarrow> (u8 list \<times> nat) option" where
  "put b = (\<lambda>(buf, pos). if pos < length buf then Some (buf[pos := b], pos + 1) else None)"

fun puts :: "u8 list \<Rightarrow> u8 list \<times> nat \<Rightarrow> (u8 list \<times> nat) option" where
  "puts [] s = Some s"
| "puts (b # bs) s = Option.bind (put b s) (puts bs)"

lemma puts_append: "puts (as @ bs) s = Option.bind (puts as s) (puts bs)"
proof (induction as arbitrary: s)
  case (Cons a as)
  then show ?case by (cases "put a s") auto
qed simp

lemma put_puts: "put b s = puts [b] s"
  by (cases "put b s") auto

text \<open>Sequences of writes as one.\<close>

lemma puts_bind: "Option.bind (puts as s) (puts bs) = puts (as @ bs) s"
  by (rule puts_append [symmetric])

lemma puts_bind2: "Option.bind (puts as s) (\<lambda>x. Option.bind (puts bs x) f) = Option.bind (puts (as @ bs) s) f"
  by (simp add: puts_append)

lemma put_eq_puts: "put b = puts [b]"
  by (rule ext) (rule put_puts)

lemma if_puts: "(if b then puts as s else Some s) = puts (if b then as else []) s"
  by simp

lemmas puts_collect = put_eq_puts puts_bind puts_bind2

lemma puts_at:
  "puts bs (pre @ rest, length pre) =
     (if length bs \<le> length rest then Some (pre @ bs @ drop (length bs) rest, length pre + length bs) else None)"
proof (induction bs arbitrary: pre rest)
  case (Cons b bs)
  show ?case
  proof (cases rest)
    case (Cons r rest')
    have "put b (pre @ r # rest', length pre) = Some ((pre @ [b]) @ rest', length (pre @ [b]))"
      by (simp add: put_def)
    then show ?thesis using Cons.IH [of "pre @ [b]" rest'] Cons by simp
  qed (simp add: put_def)
qed simp

lemma puts_0: "puts bs (buf, 0) =
    (if length bs \<le> length buf then Some (bs @ drop (length bs) buf, length bs) else None)"
  using puts_at [of bs "[]" buf] by simp

section \<open>Network byte order\<close>

definition be16 :: "u16 \<Rightarrow> u8 list" where
  "be16 w = [ucast (drop_bit 8 w), ucast w]"

definition of_be16 :: "u8 \<Rightarrow> u8 \<Rightarrow> u16" where
  "of_be16 hi lo = push_bit 8 (ucast hi) OR ucast lo"

lemma of_be16_be16: "of_be16 (ucast (drop_bit 8 w)) (ucast w) = w"
  by (rule bit_word_eqI) (auto simp: of_be16_def bit_ops)

lemma be16_of_be16 [simp]: "be16 (of_be16 hi lo) = [hi, lo]"
proof -
  have "ucast (drop_bit 8 (of_be16 hi lo)) = hi" "ucast (of_be16 hi lo) = lo"
    by (rule bit_word_eqI, auto simp: of_be16_def bit_ops dest: bit_u8_less)+
  then show ?thesis by (simp add: be16_def)
qed

lemma length_be16 [simp]: "length (be16 w) = 2"
  by (simp add: be16_def)

lemma shift_add_eq_or: "ucast (lo :: u8) + push_bit 8 (ucast (hi :: u8)) = of_be16 hi lo"
proof -
  have "(push_bit 8 (ucast hi) :: u16) AND ucast lo = 0"
    by (rule bit_word_eqI) (auto simp: bit_ops dest: bit_u8_less)
  then show ?thesis
    unfolding of_be16_def by (subst add.commute) (rule disjunctive_add_eq_or)
qed

end
