(* ===== verification/Packetbuf.thy ===== *)
theory Packetbuf
  imports Bytes
begin

text \<open>
  The packet buffer of \<open>core/net/packetbuf.c\<close> with the link addresses of
  \<open>core/net/linkaddr.c\<close>, in the configuration of an IPv6 node with link-layer
  security: 8-byte link addresses, no Rime attributes, explicit keys. One packet
  is kept in a buffer with room for headers in front: headers of outgoing
  packets grow downwards from \<open>PACKETBUF_HDR_SIZE\<close>, headers of incoming packets
  are skipped by \<open>bufptr\<close>. The source's \<open>packetbufptr\<close> is the address of the
  byte \<open>PACKETBUF_HDR_SIZE\<close> from the first \<open>packetbuf_clear\<close> on.
\<close>

section \<open>Link addresses\<close>

type_synonym linkaddr = "u8 list"

definition LINKADDR_SIZE :: nat where "LINKADDR_SIZE = 8"

definition linkaddr_null :: linkaddr where "linkaddr_null = replicate LINKADDR_SIZE 0"

definition linkaddr_copy :: "linkaddr \<Rightarrow> linkaddr \<Rightarrow> linkaddr" where
  "linkaddr_copy dest src = take LINKADDR_SIZE src @ drop LINKADDR_SIZE dest"

definition linkaddr_cmp :: "linkaddr \<Rightarrow> linkaddr \<Rightarrow> bool" where
  "linkaddr_cmp addr1 addr2 \<longleftrightarrow> take LINKADDR_SIZE addr1 = take LINKADDR_SIZE addr2"

section \<open>State\<close>

definition PACKETBUF_SIZE :: nat where "PACKETBUF_SIZE = 128"
definition PACKETBUF_HDR_SIZE :: nat where "PACKETBUF_HDR_SIZE = 48"

text \<open>The attributes in the order of the enumeration; the addresses come last.\<close>

definition PACKETBUF_ATTR_MAC_SEQNO :: u8 where "PACKETBUF_ATTR_MAC_SEQNO = 10"
definition PACKETBUF_ATTR_MAC_ACK :: u8 where "PACKETBUF_ATTR_MAC_ACK = 11"
definition PACKETBUF_ATTR_PENDING :: u8 where "PACKETBUF_ATTR_PENDING = 13"
definition PACKETBUF_ATTR_FRAME_TYPE :: u8 where "PACKETBUF_ATTR_FRAME_TYPE = 14"
definition PACKETBUF_ATTR_SECURITY_LEVEL :: u8 where "PACKETBUF_ATTR_SECURITY_LEVEL = 15"
definition PACKETBUF_ATTR_FRAME_COUNTER_BYTES_0_1 :: u8 where "PACKETBUF_ATTR_FRAME_COUNTER_BYTES_0_1 = 16"
definition PACKETBUF_ATTR_FRAME_COUNTER_BYTES_2_3 :: u8 where "PACKETBUF_ATTR_FRAME_COUNTER_BYTES_2_3 = 17"
definition PACKETBUF_ATTR_KEY_ID_MODE :: u8 where "PACKETBUF_ATTR_KEY_ID_MODE = 18"
definition PACKETBUF_ATTR_KEY_INDEX :: u8 where "PACKETBUF_ATTR_KEY_INDEX = 19"
definition PACKETBUF_ATTR_KEY_SOURCE_BYTES_0_1 :: u8 where "PACKETBUF_ATTR_KEY_SOURCE_BYTES_0_1 = 20"
definition PACKETBUF_ADDR_SENDER :: u8 where "PACKETBUF_ADDR_SENDER = 21"
definition PACKETBUF_ADDR_RECEIVER :: u8 where "PACKETBUF_ADDR_RECEIVER = 22"
definition PACKETBUF_ADDR_FIRST :: u8 where "PACKETBUF_ADDR_FIRST = PACKETBUF_ADDR_SENDER"
definition PACKETBUF_ATTR_MAX :: nat where "PACKETBUF_ATTR_MAX = 23"
definition PACKETBUF_NUM_ADDRS :: nat where "PACKETBUF_NUM_ADDRS = 2"
definition PACKETBUF_NUM_ATTRS :: nat where "PACKETBUF_NUM_ATTRS = PACKETBUF_ATTR_MAX - PACKETBUF_NUM_ADDRS"

record packetbuf =
  packetbuf_bytes :: "u8 list"
  buflen :: u16
  bufptr :: u16
  hdrptr :: u8
  packetbuf_attrs :: "u16 list"
  packetbuf_addrs :: "linkaddr list"

section \<open>Attributes\<close>

definition packetbuf_attr_clear :: "packetbuf \<Rightarrow> packetbuf" where
  "packetbuf_attr_clear pb = pb\<lparr>
     packetbuf_attrs := fold (\<lambda>i as. as[i := 0]) [0..<PACKETBUF_NUM_ATTRS] (packetbuf_attrs pb),
     packetbuf_addrs := fold (\<lambda>i as. as[i := linkaddr_copy (as ! i) linkaddr_null]) [0..<PACKETBUF_NUM_ADDRS]
       (packetbuf_addrs pb)\<rparr>"

definition packetbuf_attr_copyto :: "packetbuf \<Rightarrow> u16 list \<times> linkaddr list" where
  "packetbuf_attr_copyto pb = (packetbuf_attrs pb, packetbuf_addrs pb)"

definition packetbuf_attr_copyfrom :: "u16 list \<Rightarrow> linkaddr list \<Rightarrow> packetbuf \<Rightarrow> packetbuf" where
  "packetbuf_attr_copyfrom attrs addrs pb =
     pb\<lparr>packetbuf_attrs := take PACKETBUF_NUM_ATTRS attrs, packetbuf_addrs := take PACKETBUF_NUM_ADDRS addrs\<rparr>"

definition packetbuf_set_attr :: "u8 \<Rightarrow> u16 \<Rightarrow> packetbuf \<Rightarrow> packetbuf option" where
  "packetbuf_set_attr type val pb = (if unat type < length (packetbuf_attrs pb)
     then Some (pb\<lparr>packetbuf_attrs := (packetbuf_attrs pb)[unat type := val]\<rparr>) else None)"

definition packetbuf_attr :: "u8 \<Rightarrow> packetbuf \<Rightarrow> u16 option" where
  "packetbuf_attr type pb = (if unat type < length (packetbuf_attrs pb)
     then Some (packetbuf_attrs pb ! unat type) else None)"

definition packetbuf_set_addr :: "u8 \<Rightarrow> linkaddr \<Rightarrow> packetbuf \<Rightarrow> packetbuf option" where
  "packetbuf_set_addr type addr pb = (let i = unat type - unat PACKETBUF_ADDR_FIRST in
     if PACKETBUF_ADDR_FIRST \<le> type \<and> i < length (packetbuf_addrs pb)
     then Some (pb\<lparr>packetbuf_addrs := (packetbuf_addrs pb)[i := linkaddr_copy (packetbuf_addrs pb ! i) addr]\<rparr>)
     else None)"

definition packetbuf_addr :: "u8 \<Rightarrow> packetbuf \<Rightarrow> linkaddr option" where
  "packetbuf_addr type pb = (let i = unat type - unat PACKETBUF_ADDR_FIRST in
     if PACKETBUF_ADDR_FIRST \<le> type \<and> i < length (packetbuf_addrs pb) then Some (packetbuf_addrs pb ! i) else None)"

definition packetbuf_holds_broadcast :: "packetbuf \<Rightarrow> bool option" where
  "packetbuf_holds_broadcast pb = map_option (\<lambda>a. linkaddr_cmp a linkaddr_null) (packetbuf_addr PACKETBUF_ADDR_RECEIVER pb)"

section \<open>The buffer\<close>

definition packetbuf_clear :: "packetbuf \<Rightarrow> packetbuf" where
  "packetbuf_clear pb = packetbuf_attr_clear (pb\<lparr>buflen := 0, bufptr := 0, hdrptr := of_nat PACKETBUF_HDR_SIZE\<rparr>)"

definition packetbuf_clear_hdr :: "packetbuf \<Rightarrow> packetbuf" where
  "packetbuf_clear_hdr pb = pb\<lparr>hdrptr := of_nat PACKETBUF_HDR_SIZE\<rparr>"

definition packetbuf_datalen :: "packetbuf \<Rightarrow> u16" where
  "packetbuf_datalen pb = buflen pb"

definition packetbuf_hdrlen :: "packetbuf \<Rightarrow> u8" where
  "packetbuf_hdrlen pb = (let hdrlen = of_nat PACKETBUF_HDR_SIZE - hdrptr pb in
     if hdrlen \<noteq> 0 then hdrlen else ucast (bufptr pb))"

definition packetbuf_totlen :: "packetbuf \<Rightarrow> u16" where
  "packetbuf_totlen pb = ucast (packetbuf_hdrlen pb) + packetbuf_datalen pb"

text \<open>\<open>memcpy\<close> of \<open>l\<close> bytes of the source array, which has at least \<open>len\<close> bytes.\<close>

definition packetbuf_copyfrom :: "u8 list \<Rightarrow> u16 \<Rightarrow> packetbuf \<Rightarrow> (nat \<times> packetbuf) option" where
  "packetbuf_copyfrom frm len pb = (let pb = packetbuf_clear pb;
     l = (if unat len > PACKETBUF_SIZE then PACKETBUF_SIZE else unat len) in do {
     bs \<leftarrow> read_bytes 0 l frm;
     buf \<leftarrow> write_bytes PACKETBUF_HDR_SIZE bs (packetbuf_bytes pb);
     Some (l, pb\<lparr>packetbuf_bytes := buf, buflen := of_nat l\<rparr>)
   })"

fun compact_loop :: "nat \<Rightarrow> nat \<Rightarrow> nat \<Rightarrow> u8 list \<Rightarrow> u8 list option" where
  "compact_loop off i 0 buf = Some buf"
| "compact_loop off i (Suc n) buf = do {
     b \<leftarrow> get buf (off + i);
     (if i < length buf then compact_loop off (Suc i) n (buf[i := b]) else None)
   }"

definition packetbuf_compact :: "packetbuf \<Rightarrow> packetbuf option" where
  "packetbuf_compact pb = (if bufptr pb > 0
     then map_option (\<lambda>buf. pb\<lparr>packetbuf_bytes := buf, bufptr := 0\<rparr>)
       (compact_loop (unat (bufptr pb)) PACKETBUF_HDR_SIZE (unat (packetbuf_datalen pb)) (packetbuf_bytes pb))
     else Some pb)"

text \<open>The copies return the bytes stored at \<open>to\<close>; a negative length is undefined.\<close>

definition packetbuf_copyto_hdr :: "packetbuf \<Rightarrow> u8 list option" where
  "packetbuf_copyto_hdr pb = (if unat (hdrptr pb) \<le> PACKETBUF_HDR_SIZE
     then read_bytes (unat (hdrptr pb)) (PACKETBUF_HDR_SIZE - unat (hdrptr pb)) (packetbuf_bytes pb) else None)"

definition packetbuf_copyto :: "packetbuf \<Rightarrow> (int \<times> u8 list) option" where
  "packetbuf_copyto pb = (let len = int PACKETBUF_HDR_SIZE - uint (hdrptr pb) + uint (buflen pb) in
     if len > int PACKETBUF_SIZE then Some (0, [])
     else do {
       hdr \<leftarrow> packetbuf_copyto_hdr pb;
       dat \<leftarrow> read_bytes (PACKETBUF_HDR_SIZE + unat (bufptr pb)) (unat (buflen pb)) (packetbuf_bytes pb);
       Some (len, hdr @ dat)
     })"

definition packetbuf_hdralloc :: "int \<Rightarrow> packetbuf \<Rightarrow> int \<times> packetbuf" where
  "packetbuf_hdralloc sz pb =
     (if uint (hdrptr pb) \<ge> sz \<and> uint (packetbuf_totlen pb) + sz \<le> int PACKETBUF_SIZE
      then (1, pb\<lparr>hdrptr := hdrptr pb - word_of_int sz\<rparr>) else (0, pb))"

definition packetbuf_hdr_remove :: "int \<Rightarrow> packetbuf \<Rightarrow> packetbuf" where
  "packetbuf_hdr_remove sz pb = pb\<lparr>hdrptr := hdrptr pb + word_of_int sz\<rparr>"

definition packetbuf_hdrreduce :: "int \<Rightarrow> packetbuf \<Rightarrow> int \<times> packetbuf" where
  "packetbuf_hdrreduce sz pb = (if uint (buflen pb) < sz then (0, pb)
     else (1, pb\<lparr>bufptr := bufptr pb + word_of_int sz, buflen := buflen pb - word_of_int sz\<rparr>))"

definition packetbuf_set_datalen :: "u16 \<Rightarrow> packetbuf \<Rightarrow> packetbuf" where
  "packetbuf_set_datalen len pb = pb\<lparr>buflen := len\<rparr>"

text \<open>The pointers into the buffer, as offsets.\<close>

definition packetbuf_dataptr :: "packetbuf \<Rightarrow> nat" where
  "packetbuf_dataptr pb = unat (bufptr pb) + PACKETBUF_HDR_SIZE"

definition packetbuf_hdrptr :: "packetbuf \<Rightarrow> nat" where
  "packetbuf_hdrptr pb = unat (hdrptr pb)"

section \<open>The packet in the buffer\<close>

text \<open>
  The buffer is well-formed when the header lies in front of the data, the
  data in the buffer, and both together do not exceed the size of a packet.
\<close>

definition pb_ok :: "packetbuf \<Rightarrow> bool" where
  "pb_ok pb \<longleftrightarrow> length (packetbuf_bytes pb) = PACKETBUF_HDR_SIZE + PACKETBUF_SIZE \<and>
     unat (hdrptr pb) \<le> PACKETBUF_HDR_SIZE \<and>
     unat (bufptr pb) + unat (buflen pb) \<le> PACKETBUF_SIZE \<and>
     PACKETBUF_HDR_SIZE + unat (buflen pb) \<le> PACKETBUF_SIZE + unat (hdrptr pb) \<and>
     length (packetbuf_attrs pb) = PACKETBUF_NUM_ATTRS \<and> length (packetbuf_addrs pb) = PACKETBUF_NUM_ADDRS"

text \<open>A packet: the header in front, the number of bytes stripped from the data, and the data.\<close>

type_synonym packet = "u8 list \<times> nat \<times> u8 list"

definition pkt :: "packetbuf \<Rightarrow> packet" where
  "pkt pb = (drop (unat (hdrptr pb)) (take PACKETBUF_HDR_SIZE (packetbuf_bytes pb)), unat (bufptr pb),
     take (unat (buflen pb)) (drop (PACKETBUF_HDR_SIZE + unat (bufptr pb)) (packetbuf_bytes pb)))"

text \<open>
  What a protocol layer does: it fills the buffer, puts its header in front
  (\<open>packetbuf_hdralloc\<close> and a copy to \<open>packetbuf_hdrptr\<close>), takes a header of an
  incoming packet off, or moves the data to the front.
\<close>

datatype pb_op = Clear | Fill "u8 list" | Push "u8 list" | Strip nat | Pop nat | Compact

definition pb_push :: "u8 list \<Rightarrow> packetbuf \<Rightarrow> (int \<times> packetbuf) option" where
  "pb_push bs pb = (case packetbuf_hdralloc (int (length bs)) pb of (r, pb) \<Rightarrow>
     if r = 0 then Some (0, pb)
     else map_option (\<lambda>buf. (1, pb\<lparr>packetbuf_bytes := buf\<rparr>)) (write_bytes (packetbuf_hdrptr pb) bs (packetbuf_bytes pb)))"

fun pb_exec :: "pb_op \<Rightarrow> packetbuf \<Rightarrow> (int \<times> packetbuf) option" where
  "pb_exec Clear pb = Some (0, packetbuf_clear pb)"
| "pb_exec (Fill bs) pb = map_option (\<lambda>(n, pb). (int n, pb)) (packetbuf_copyfrom bs (of_nat (length bs)) pb)"
| "pb_exec (Push bs) pb = pb_push bs pb"
| "pb_exec (Strip n) pb = Some (packetbuf_hdrreduce (int n) pb)"
| "pb_exec (Pop n) pb = Some (0, packetbuf_hdr_remove (int n) pb)"
| "pb_exec Compact pb = map_option (Pair 0) (packetbuf_compact pb)"

text \<open>The same on packets.\<close>

fun pkt_exec :: "pb_op \<Rightarrow> packet \<Rightarrow> int \<times> packet" where
  "pkt_exec Clear (h, c, d) = (0, [], 0, [])"
| "pkt_exec (Fill bs) (h, c, d) = (int (min 128 (length bs)), [], 0, take 128 bs)"
| "pkt_exec (Push bs) (h, c, d) =
     (if length h + length bs \<le> 48 \<and> (if h = [] then c else length h) + length d + length bs \<le> 128
      then (1, bs @ h, c, d) else (0, h, c, d))"
| "pkt_exec (Strip n) (h, c, d) = (if length d < n then (0, h, c, d) else (1, h, c + n, drop n d))"
| "pkt_exec (Pop n) (h, c, d) = (0, drop n h, c, d)"
| "pkt_exec Compact (h, c, d) = (0, h, 0, d)"

text \<open>What the callers have to see to: buffers of less than 64 kB, and only pushed headers are popped.\<close>

fun pb_pre :: "pb_op \<Rightarrow> packet \<Rightarrow> bool" where
  "pb_pre (Fill bs) p = (length bs < 2 ^ 16)"
| "pb_pre (Pop n) (h, c, d) = (n \<le> length h)"
| "pb_pre _ p = True"

section \<open>Each operation on the packet\<close>

lemmas pb_defs = PACKETBUF_SIZE_def PACKETBUF_HDR_SIZE_def

lemma uint_less_int: "(uint (w :: 'a::len word) < int n) = (unat w < n)"
  by (simp flip: of_nat_less_iff [where 'a = int])

lemma int_le_uint: "(int n \<le> uint (w :: 'a::len word)) = (n \<le> unat w)"
  by (simp flip: of_nat_le_iff [where 'a = int])

lemma uint_add_int_le: "(uint (w :: 'a::len word) + int n \<le> int m) = (unat w + n \<le> m)"
  by (simp flip: of_nat_le_iff [where 'a = int])

lemma unat_sub_of_nat: "n \<le> unat (w :: 'a::len word) \<Longrightarrow> unat (w - of_nat n) = unat w - n"
proof -
  assume n: "n \<le> unat w"
  then have "n < 2 ^ LENGTH('a)"
    using unsigned_less [of w, where 'a = nat] by (rule le_less_trans)
  then have "unat (of_nat n :: 'a word) = n" by (simp add: unat_of_nat)
  with n show ?thesis by (subst unat_sub) (simp_all add: word_le_nat_alt)
qed

lemma unat_add_of_nat: "unat (w :: 'a::len word) + n < 2 ^ LENGTH('a) \<Longrightarrow> unat (w + of_nat n) = unat w + n"
  by (simp add: unat_word_ariths unat_of_nat mod_simps)

lemma pb_hdrlen:
  assumes "pb_ok pb"
  shows "unat (packetbuf_hdrlen pb) = (if unat (hdrptr pb) = 48 then unat (bufptr pb) else 48 - unat (hdrptr pb))"
proof -
  have b: "unat (hdrptr pb) \<le> 48" "unat (bufptr pb) \<le> 128" using assms by (simp_all add: pb_ok_def pb_defs)
  have "unat (48 - hdrptr pb) = 48 - unat (hdrptr pb)"
    using b(1) by (subst unat_sub) (simp_all add: word_le_nat_alt)
  moreover have "unat (ucast (bufptr pb) :: u8) = unat (bufptr pb)"
    using b(2) by (simp add: unsigned_ucast_eq take_bit_nat_eq_self_iff)
  moreover have "(48 - hdrptr pb = 0) = (unat (48 - hdrptr pb) = 0)" by (simp add: unat_eq_0)
  ultimately show ?thesis using b(1) by (simp add: packetbuf_hdrlen_def Let_def pb_defs)
qed

lemma pb_totlen:
  assumes "pb_ok pb"
  shows "unat (packetbuf_totlen pb) = unat (packetbuf_hdrlen pb) + unat (buflen pb)"
proof -
  have "unat (packetbuf_hdrlen pb) < 256" "unat (buflen pb) \<le> 128"
    using assms unat_u8 by (auto simp: pb_ok_def pb_defs)
  then show ?thesis
    by (simp add: packetbuf_totlen_def packetbuf_datalen_def unat_word_ariths unsigned_ucast_eq take_bit_nat_eq_self)
qed

text \<open>The fields as numbers, and the layout of the buffer.\<close>

lemma pktE:
  assumes "pb_ok pb" and "pkt pb = (h, c, d)"
  obtains pre gap post where "packetbuf_bytes pb = pre @ h @ gap @ d @ post" "unat (hdrptr pb) = length pre"
    "length pre + length h = 48" "length gap = c" "unat (bufptr pb) = c" "unat (buflen pb) = length d"
    "c + length d + length post = 128" "length h + length d \<le> 128"
proof -
  let ?b = "packetbuf_bytes pb" and ?H = "unat (hdrptr pb)" and ?P = "unat (bufptr pb)" and ?L = "unat (buflen pb)"
  have ok: "length ?b = 176" "?H \<le> 48" "?P + ?L \<le> 128" "48 + ?L \<le> 128 + ?H"
    using assms(1) by (simp_all add: pb_ok_def pb_defs)
  have p: "h = drop ?H (take 48 ?b)" "c = ?P" "d = take ?L (drop (48 + ?P) ?b)"
    using assms(2) by (auto simp: pkt_def pb_defs)
  have "?b = take 48 ?b @ drop 48 ?b" by simp
  also have "take 48 ?b = take ?H ?b @ drop ?H (take 48 ?b)"
    using ok(2) by (metis append_take_drop_id min.absorb1 take_take)
  also have "drop 48 ?b = take ?P (drop 48 ?b) @ drop (48 + ?P) ?b"
    by (metis add.commute append_take_drop_id drop_drop)
  also have "drop (48 + ?P) ?b = d @ drop (48 + ?P + ?L) ?b"
    using p(3) by (metis add.commute append_take_drop_id drop_drop)
  finally have layout: "?b = take ?H ?b @ drop ?H (take 48 ?b) @ take ?P (drop 48 ?b) @ d @ drop (48 + ?P + ?L) ?b"
    by simp
  show thesis
    by (rule that [OF layout [folded p(1)]]) (use ok p in \<open>auto simp: min_def\<close>)
qed

lemma pktI:
  assumes "packetbuf_bytes pb = pre @ h @ gap @ d @ post" and "unat (hdrptr pb) = length pre"
    and "length pre + length h = 48" and "length gap = c" and "unat (bufptr pb) = c" and "unat (buflen pb) = length d"
    and "c + length d + length post = 128" and "length h + length d \<le> 128"
    and "length (packetbuf_attrs pb) = PACKETBUF_NUM_ATTRS" and "length (packetbuf_addrs pb) = PACKETBUF_NUM_ADDRS"
  shows "pb_ok pb \<and> pkt pb = (h, c, d)"
proof -
  have "take 48 (pre @ h @ gap @ d @ post) = pre @ h" using assms(3) by simp
  moreover have "drop (48 + c) (pre @ h @ gap @ d @ post) = d @ post" using assms(3,4) by simp
  ultimately show ?thesis using assms by (auto simp: pb_ok_def pkt_def pb_defs)
qed

lemma pb_ok_attrs: "pb_ok pb \<Longrightarrow> length (packetbuf_attrs pb) = PACKETBUF_NUM_ATTRS \<and> length (packetbuf_addrs pb) = PACKETBUF_NUM_ADDRS"
  by (simp add: pb_ok_def)

text \<open>An operation does on the buffer what it does on the packet.\<close>

definition refines :: "(int \<times> packetbuf) option \<Rightarrow> int \<times> packet \<Rightarrow> bool" where
  "refines res p \<longleftrightarrow> (\<exists>pb. res = Some (fst p, pb) \<and> pb_ok pb \<and> pkt pb = snd p)"

lemma pb_push_correct:
  assumes "pb_ok pb" and "pkt pb = (h, c, d)"
  shows "refines (pb_push bs pb) (pkt_exec (Push bs) (h, c, d))"
proof -
  let ?n = "length bs"
  obtain pre gap post where l: "packetbuf_bytes pb = pre @ h @ gap @ d @ post" "unat (hdrptr pb) = length pre"
    "length pre + length h = 48" "length gap = c" "unat (bufptr pb) = c" "unat (buflen pb) = length d"
    "c + length d + length post = 128" "length h + length d \<le> 128" using assms by (rule pktE)
  have "unat (packetbuf_totlen pb) = (if h = [] then c else length h) + length d"
    using l(2-6) by (cases h) (simp_all add: pb_totlen [OF assms(1)] pb_hdrlen [OF assms(1)])
  with uint_add_int_le [of "packetbuf_totlen pb" ?n 128] have fit: "(int ?n \<le> uint (hdrptr pb) \<and> uint (packetbuf_totlen pb) + int ?n \<le> 128) =
      (length h + ?n \<le> 48 \<and> (if h = [] then c else length h) + length d + ?n \<le> 128)" (is "?code = ?spec")
    using l(2,3) by (auto simp: int_le_uint)
  show ?thesis
  proof (cases ?spec)
    case True
    then have n: "?n \<le> length pre" using l(3) by simp
    then obtain pre1 old where pre: "pre = pre1 @ old" "length old = ?n"
      by (metis append_take_drop_id diff_diff_cancel length_drop)
    let ?pb = "pb\<lparr>hdrptr := hdrptr pb - of_nat ?n, packetbuf_bytes := pre1 @ (bs @ h) @ gap @ d @ post\<rparr>"
    have hp: "unat (hdrptr pb - of_nat ?n) = length pre1" using n l(2) pre by (simp add: unat_sub_of_nat)
    have "pb_push bs pb = Some (1, ?pb)"
      using True fit hp l(1) pre
      by (simp add: pb_push_def packetbuf_hdralloc_def pb_defs packetbuf_hdrptr_def)
    moreover have "pb_ok ?pb \<and> pkt ?pb = (bs @ h, c, d)"
      using hp l pre True pb_ok_attrs [OF assms(1)] by (intro pktI) (auto split: if_splits)
    ultimately show ?thesis using True by (simp add: refines_def)
  next
    case False
    with fit have "\<not> ?code" by blast
    then have "pb_push bs pb = Some (0, pb)" by (auto simp: pb_push_def packetbuf_hdralloc_def pb_defs)
    with False assms show ?thesis by (auto simp: refines_def)
  qed
qed

lemma compact_loop_correct:
  assumes "length pre = i"
  shows "compact_loop (length gap) i (length d) (pre @ gap @ d @ post) = Some (pre @ d @ drop (length d) (gap @ d) @ post)"
  using assms
proof (induction d arbitrary: pre gap i)
  case (Cons b d)
  have g: "get (pre @ gap @ b # d @ post) (length gap + i) = Some b"
    using get_append3 [of "pre @ gap" "b # d @ post"] Cons.prems by (simp add: add.commute)
  show ?case
  proof (cases gap)
    case Nil
    then show ?thesis using Cons.IH [of "pre @ [b]" "Suc i" "[]"] Cons.prems g by (simp add: list_update_append)
  next
    case (Cons x gap')
    then have "(pre @ gap @ (b # d) @ post)[i := b] = (pre @ [b]) @ (gap' @ [b]) @ d @ post"
      using Cons.prems by (simp add: list_update_append)
    moreover have "length gap = length (gap' @ [b])" using Cons by simp
    moreover have "drop (length d) ((gap' @ [b]) @ d) = drop (length (b # d)) (gap @ b # d)" using Cons by simp
    ultimately show ?thesis
      using Cons.IH [of "pre @ [b]" "Suc i" "gap' @ [b]"] Cons.prems g by simp
  qed
qed simp

lemma pb_compact_correct:
  assumes "pb_ok pb" and "pkt pb = (h, c, d)"
  shows "refines (map_option (Pair 0) (packetbuf_compact pb)) (0, h, 0, d)"
proof -
  obtain pre gap post where l: "packetbuf_bytes pb = pre @ h @ gap @ d @ post" "unat (hdrptr pb) = length pre"
    "length pre + length h = 48" "length gap = c" "unat (bufptr pb) = c" "unat (buflen pb) = length d"
    "c + length d + length post = 128" "length h + length d \<le> 128" using assms by (rule pktE)
  show ?thesis
  proof (cases "bufptr pb = 0")
    case True
    then show ?thesis using assms l(5) by (simp add: packetbuf_compact_def refines_def)
  next
    case False
    then have "bufptr pb > 0" by (simp add: word_neq_0_conv)
    let ?b = "pre @ h @ [] @ d @ drop (length d) (gap @ d) @ post"
    have "compact_loop c 48 (length d) (packetbuf_bytes pb) = Some ?b"
      using compact_loop_correct [of "pre @ h" 48 gap d post] l by simp
    then have "packetbuf_compact pb = Some (pb\<lparr>packetbuf_bytes := ?b, bufptr := 0\<rparr>)" (is "_ = Some ?pb")
      using \<open>bufptr pb > 0\<close> l(5,6) by (simp add: packetbuf_compact_def packetbuf_datalen_def pb_defs)
    moreover have "pb_ok ?pb \<and> pkt ?pb = (h, 0, d)"
      using l pb_ok_attrs [OF assms(1)] by (intro pktI) auto
    ultimately show ?thesis by (simp add: refines_def)
  qed
qed

lemma pb_strip_correct:
  assumes "pb_ok pb" and "pkt pb = (h, c, d)"
  shows "refines (Some (packetbuf_hdrreduce (int n) pb)) (pkt_exec (Strip n) (h, c, d))"
proof -
  obtain pre gap post where l: "packetbuf_bytes pb = pre @ h @ gap @ d @ post" "unat (hdrptr pb) = length pre"
    "length pre + length h = 48" "length gap = c" "unat (bufptr pb) = c" "unat (buflen pb) = length d"
    "c + length d + length post = 128" "length h + length d \<le> 128" using assms by (rule pktE)
  show ?thesis
  proof (cases "length d < n")
    case True
    then show ?thesis using assms l(6) by (simp add: packetbuf_hdrreduce_def uint_less_int refines_def)
  next
    case False
    let ?pb = "pb\<lparr>bufptr := bufptr pb + of_nat n, buflen := buflen pb - of_nat n\<rparr>"
    have "unat (bufptr pb + of_nat n) = c + n" using l False by (subst unat_add_of_nat) auto
    moreover have "unat (buflen pb - of_nat n) = length d - n" using l False by (simp add: unat_sub_of_nat)
    ultimately have "pb_ok ?pb \<and> pkt ?pb = (h, c + n, drop n d)"
      using l False pb_ok_attrs [OF assms(1)]
      by (intro pktI [where pre = pre and gap = "gap @ take n d" and post = post]) auto
    moreover have "packetbuf_hdrreduce (int n) pb = (1, ?pb)"
      using False l(6) by (simp add: packetbuf_hdrreduce_def uint_less_int)
    ultimately show ?thesis using False by (simp add: refines_def)
  qed
qed

lemma pb_pop_correct:
  assumes "pb_ok pb" and "pkt pb = (h, c, d)" and "n \<le> length h"
  shows "refines (Some (0, packetbuf_hdr_remove (int n) pb)) (0, drop n h, c, d)"
proof -
  obtain pre gap post where l: "packetbuf_bytes pb = pre @ h @ gap @ d @ post" "unat (hdrptr pb) = length pre"
    "length pre + length h = 48" "length gap = c" "unat (bufptr pb) = c" "unat (buflen pb) = length d"
    "c + length d + length post = 128" "length h + length d \<le> 128" using assms(1,2) by (rule pktE)
  let ?pb = "pb\<lparr>hdrptr := hdrptr pb + of_nat n\<rparr>"
  have "unat (hdrptr pb + of_nat n) = length pre + n" using l assms(3) by (subst unat_add_of_nat) auto
  then have "pb_ok ?pb \<and> pkt ?pb = (drop n h, c, d)"
    using l assms(3) pb_ok_attrs [OF assms(1)]
    by (intro pktI [where pre = "pre @ take n h" and gap = gap and post = post]) auto
  then show ?thesis by (simp add: packetbuf_hdr_remove_def refines_def)
qed

lemma fold_upd_length [simp]: "length (fold (\<lambda>i as. as[i := f i as]) is as) = length as"
  by (induction "is" arbitrary: as) simp_all

lemma pb_clear_correct:
  assumes "pb_ok pb"
  shows "pb_ok (packetbuf_clear pb)" and "pkt (packetbuf_clear pb) = ([], 0, [])"
    and "packetbuf_bytes (packetbuf_clear pb) = packetbuf_bytes pb"
  using assms by (simp_all add: packetbuf_clear_def packetbuf_attr_clear_def pb_ok_def pkt_def pb_defs)

lemma pb_fill_correct:
  assumes "pb_ok pb" and "length bs < 2 ^ 16"
  shows "refines (pb_exec (Fill bs) pb) (pkt_exec (Fill bs) (h, c, d))"
proof -
  let ?c = "packetbuf_clear pb" and ?l = "min 128 (length bs)"
  obtain pre post where l: "packetbuf_bytes ?c = pre @ post" "unat (hdrptr ?c) = 48" "length pre = 48"
    "length post = 128" "unat (bufptr ?c) = 0"
    using pb_clear_correct(1,2) [OF assms(1)] by (rule pktE) (rule that, simp_all)
  let ?pb = "?c\<lparr>packetbuf_bytes := pre @ take ?l bs @ drop ?l post, buflen := of_nat ?l\<rparr>"
  have "unat (of_nat (length bs) :: u16) = length bs" using assms(2) by (simp add: unat_of_nat)
  moreover have "read_bytes 0 ?l bs = Some (take ?l bs)" by (simp add: read_bytes_def)
  moreover have "write_bytes 48 (take ?l bs) (packetbuf_bytes ?c) = Some (pre @ take ?l bs @ drop ?l post)"
    using l by (simp add: write_bytes_def min_def)
  moreover have "(if 128 < length bs then 128 else length bs) = ?l" by simp
  ultimately have "packetbuf_copyfrom bs (of_nat (length bs)) pb = Some (?l, ?pb)"
    by (simp only: packetbuf_copyfrom_def Let_def pb_defs) simp
  moreover have "pb_ok ?pb \<and> pkt ?pb = ([], 0, take 128 bs)"
  proof (rule pktI)
    show "packetbuf_bytes ?pb = pre @ [] @ [] @ take 128 bs @ drop ?l post" by (simp add: min_def)
    show "unat (buflen ?pb) = length (take 128 bs)" by (simp add: unat_of_nat min_def)
  qed (use l pb_ok_attrs [OF pb_clear_correct(1) [OF assms(1)]] in \<open>simp_all add: min_def\<close>)
  ultimately show ?thesis by (simp add: refines_def)
qed

lemma pb_exec_refines:
  assumes "pb_ok pb" and "pb_pre op (pkt pb)"
  shows "refines (pb_exec op pb) (pkt_exec op (pkt pb))"
proof -
  obtain h c d where p: "pkt pb = (h, c, d)" by (cases "pkt pb")
  show ?thesis
  proof (cases op)
    case Clear
    then show ?thesis using pb_clear_correct [OF assms(1)] p by (simp add: refines_def)
  next
    case (Fill bs)
    then show ?thesis using pb_fill_correct [OF assms(1)] assms(2) p by simp
  next
    case (Push bs)
    then show ?thesis using pb_push_correct [OF assms(1) p, of bs] p by (simp only: pb_exec.simps)
  next
    case (Strip n)
    then show ?thesis using pb_strip_correct [OF assms(1) p, of n] p by (simp only: pb_exec.simps)
  next
    case (Pop n)
    then show ?thesis using pb_pop_correct [OF assms(1) p, of n] assms(2) p by simp
  next
    case Compact
    then show ?thesis using pb_compact_correct [OF assms(1) p] p by simp
  qed
qed

text \<open>The copy for the radio is the header followed by the data.\<close>

lemma packetbuf_copyto_pkt:
  assumes "pb_ok pb" and "pkt pb = (h, c, d)"
  shows "packetbuf_copyto pb = Some (int (length h + length d), h @ d)"
proof -
  obtain pre gap post where l: "packetbuf_bytes pb = pre @ h @ gap @ d @ post" "unat (hdrptr pb) = length pre"
    "length pre + length h = 48" "length gap = c" "unat (bufptr pb) = c" "unat (buflen pb) = length d"
    "c + length d + length post = 128" "length h + length d \<le> 128" using assms by (rule pktE)
  have len: "48 - uint (hdrptr pb) + uint (buflen pb) = int (length h + length d)"
    using l(3) by (simp only: uint_nat l(2,6))
  have "read_bytes (length pre) (length h) (packetbuf_bytes pb) = Some h" using l(1) by simp
  moreover have "read_bytes (48 + c) (length d) (packetbuf_bytes pb) = Some d"
    using read_bytes_append [of "length d" d "pre @ h @ gap" post] l(1,3,4) by (simp add: add.commute add.left_commute)
  moreover have "48 - length pre = length h" using l(3) by simp
  ultimately show ?thesis
    using l(2,3,5,6,8) len by (simp add: packetbuf_copyto_def packetbuf_copyto_hdr_def pb_defs)
qed

section \<open>Properties\<close>

text \<open>A sequence of operations with their results, on the buffer and on the packet.\<close>

fun pb_run :: "pb_op list \<Rightarrow> packetbuf \<Rightarrow> (int list \<times> packetbuf) option" where
  "pb_run [] pb = Some ([], pb)"
| "pb_run (op # ops) pb = do {
     (r, pb) \<leftarrow> pb_exec op pb;
     (rs, pb) \<leftarrow> pb_run ops pb;
     Some (r # rs, pb)
   }"

fun pkt_run :: "pb_op list \<Rightarrow> packet \<Rightarrow> int list \<times> packet" where
  "pkt_run [] p = ([], p)"
| "pkt_run (op # ops) p = (let (r, p) = pkt_exec op p; (rs, p) = pkt_run ops p in (r # rs, p))"

fun pre_run :: "pb_op list \<Rightarrow> packet \<Rightarrow> bool" where
  "pre_run [] p \<longleftrightarrow> True"
| "pre_run (op # ops) p \<longleftrightarrow> pb_pre op p \<and> pre_run ops (snd (pkt_exec op p))"

text \<open>
  C24. Whatever the protocol layers do to the packet buffer - fill it, put
  headers in front, strip and compact, in any order - its operations return and
  report what they would on an abstract packet of header and data; and the copy
  that goes to the radio is at every time exactly the header followed by the data.
\<close>

theorem packetbuf_refines_packet:
  assumes "pb_ok pb" and "pre_run ops (pkt pb)"
  shows "\<exists>rs h c d pb'. pb_run ops pb = Some (rs, pb') \<and> pkt_run ops (pkt pb) = (rs, h, c, d) \<and> pb_ok pb' \<and>
    packetbuf_copyto pb' = Some (int (length h + length d), h @ d)"
  using assms
proof (induction ops arbitrary: pb)
  case Nil
  obtain h c d where p: "pkt pb = (h, c, d)" by (cases "pkt pb")
  then show ?case using Nil(1) packetbuf_copyto_pkt [OF Nil(1) p] by simp
next
  case (Cons op ops)
  then have "refines (pb_exec op pb) (pkt_exec op (pkt pb))" by (simp add: pb_exec_refines)
  then obtain pb1 where 1: "pb_exec op pb = Some (fst (pkt_exec op (pkt pb)), pb1)" "pb_ok pb1"
    "pkt pb1 = snd (pkt_exec op (pkt pb))" by (auto simp: refines_def)
  then show ?case using Cons.IH [OF 1(2)] Cons.prems(2) by (auto simp: split_beta Let_def)
qed

definition packetbuf0 :: packetbuf where
  "packetbuf0 = \<lparr>packetbuf_bytes = replicate 176 0, buflen = 0, bufptr = 0, hdrptr = 48,
     packetbuf_attrs = replicate 21 0, packetbuf_addrs = [linkaddr_null, linkaddr_null]\<rparr>"

lemma packetbuf_refines_packet_witness:
  "\<exists>rs pb'. pb_run [Fill [1, 2, 3, 4], Push [9], Push [7, 8], Strip 1, Compact] packetbuf0 = Some (rs, pb') \<and>
     packetbuf_copyto pb' = Some (6, [7, 8, 9, 2, 3, 4])"
proof -
  have "pb_ok packetbuf0" by (simp add: packetbuf0_def pb_ok_def pb_defs PACKETBUF_NUM_ATTRS_def
        PACKETBUF_NUM_ADDRS_def PACKETBUF_ATTR_MAX_def)
  moreover have "pkt packetbuf0 = ([], 0, [])" by (simp add: packetbuf0_def pkt_def pb_defs)
  ultimately show ?thesis
    using packetbuf_refines_packet [of packetbuf0 "[Fill [1, 2, 3, 4], Push [9], Push [7, 8], Strip 1, Compact]"]
    by (simp del: pb_run.simps) (auto)
qed

end
