(* ===== verification/MacLayer.thy ===== *)
theory MacLayer
  imports Packetbuf
begin

text \<open>
  Two filters on incoming frames, both reading the packet buffer: the duplicate
  filter of \<open>core/net/mac/mac-sequence.c\<close> (the last sequence number of each of
  the sixteen most recent senders) and the replay protection of
  \<open>core/net/llsec/anti-replay.c\<close> (frame counters that have to grow) on a
  little-endian machine.
\<close>

section \<open>The duplicate filter\<close>

record seqno =
  sender :: linkaddr
  seq :: u8

definition MAX_SEQNOS :: nat where "MAX_SEQNOS = 16"

fun duplicate_loop :: "linkaddr \<Rightarrow> u16 \<Rightarrow> seqno list \<Rightarrow> bool" where
  "duplicate_loop a s [] = False"
| "duplicate_loop a s (e # es) = (if linkaddr_cmp a (sender e) then s = ucast (seq e) else duplicate_loop a s es)"

definition mac_sequence_is_duplicate :: "packetbuf \<Rightarrow> seqno list \<Rightarrow> bool option" where
  "mac_sequence_is_duplicate pb received_seqnos = do {
     a \<leftarrow> packetbuf_addr PACKETBUF_ADDR_SENDER pb;
     s \<leftarrow> packetbuf_attr PACKETBUF_ATTR_MAC_SEQNO pb;
     Some (duplicate_loop a s received_seqnos)
   }"

fun locate_loop :: "linkaddr \<Rightarrow> seqno list \<Rightarrow> nat" where
  "locate_loop a [] = 0"
| "locate_loop a (e # es) = (if linkaddr_cmp a (sender e) then 1 else Suc (locate_loop a es))"

definition mac_sequence_register_seqno :: "packetbuf \<Rightarrow> seqno list \<Rightarrow> seqno list option" where
  "mac_sequence_register_seqno pb received_seqnos = do {
     a \<leftarrow> packetbuf_addr PACKETBUF_ADDR_SENDER pb;
     s \<leftarrow> packetbuf_attr PACKETBUF_ATTR_MAC_SEQNO pb;
     let i = locate_loop a received_seqnos;
     let t = fold (\<lambda>j t. t[j := t ! (j - 1)]) (rev [1..<i]) received_seqnos;
     Some (t[0 := \<lparr>sender = linkaddr_copy (sender (t ! 0)) a, seq = ucast s\<rparr>])
   }"

section \<open>Replay protection\<close>

record anti_replay_info =
  last_broadcast_counter :: u32
  last_unicast_counter :: u32

text \<open>The halves of the union: \<open>u16[0]\<close> is the low one; \<open>LLSEC802154_HTONL\<close> is the identity.\<close>

definition anti_replay_set_counter :: "u32 \<Rightarrow> packetbuf \<Rightarrow> (u32 \<times> packetbuf) option" where
  "anti_replay_set_counter counter pb = (let counter = counter + 1 in do {
     pb \<leftarrow> packetbuf_set_attr PACKETBUF_ATTR_FRAME_COUNTER_BYTES_0_1 (ucast counter) pb;
     pb \<leftarrow> packetbuf_set_attr PACKETBUF_ATTR_FRAME_COUNTER_BYTES_2_3 (ucast (drop_bit 16 counter)) pb;
     Some (counter, pb)
   })"

definition anti_replay_get_counter :: "packetbuf \<Rightarrow> u32 option" where
  "anti_replay_get_counter pb = do {
     lo \<leftarrow> packetbuf_attr PACKETBUF_ATTR_FRAME_COUNTER_BYTES_0_1 pb;
     hi \<leftarrow> packetbuf_attr PACKETBUF_ATTR_FRAME_COUNTER_BYTES_2_3 pb;
     Some (push_bit 16 (ucast hi) OR ucast lo)
   }"

definition anti_replay_init_info :: "packetbuf \<Rightarrow> anti_replay_info option" where
  "anti_replay_init_info pb = map_option (\<lambda>c. \<lparr>last_broadcast_counter = c, last_unicast_counter = c\<rparr>)
     (anti_replay_get_counter pb)"

definition anti_replay_was_replayed :: "packetbuf \<Rightarrow> anti_replay_info \<Rightarrow> (bool \<times> anti_replay_info) option" where
  "anti_replay_was_replayed pb info = do {
     received_counter \<leftarrow> anti_replay_get_counter pb;
     broadcast \<leftarrow> packetbuf_holds_broadcast pb;
     Some (if broadcast
       then if received_counter \<le> last_broadcast_counter info then (True, info)
            else (False, info\<lparr>last_broadcast_counter := received_counter\<rparr>)
       else if received_counter \<le> last_unicast_counter info then (True, info)
            else (False, info\<lparr>last_unicast_counter := received_counter\<rparr>))
   }"

section \<open>The table of sequence numbers\<close>

text \<open>Well-formed packet buffers and tables hold addresses of the fixed size.\<close>

definition frame_ok :: "packetbuf \<Rightarrow> bool" where
  "frame_ok pb \<longleftrightarrow> length (packetbuf_attrs pb) = PACKETBUF_NUM_ATTRS \<and> length (packetbuf_addrs pb) = PACKETBUF_NUM_ADDRS \<and>
     (\<forall>a \<in> set (packetbuf_addrs pb). length a = LINKADDR_SIZE)"

definition frame_sender :: "packetbuf \<Rightarrow> linkaddr" where
  "frame_sender pb = packetbuf_addrs pb ! 0"

definition frame_seqno :: "packetbuf \<Rightarrow> u16" where
  "frame_seqno pb = packetbuf_attrs pb ! 10"

lemma frame_fields:
  assumes "frame_ok pb"
  shows "packetbuf_addr PACKETBUF_ADDR_SENDER pb = Some (frame_sender pb)"
    and "packetbuf_attr PACKETBUF_ATTR_MAC_SEQNO pb = Some (frame_seqno pb)" and "length (frame_sender pb) = 8"
  using assms by (auto simp: frame_ok_def packetbuf_addr_def packetbuf_attr_def frame_sender_def frame_seqno_def
      PACKETBUF_ADDR_FIRST_def PACKETBUF_ATTR_MAC_SEQNO_def PACKETBUF_NUM_ATTRS_def PACKETBUF_ATTR_MAX_def
      PACKETBUF_NUM_ADDRS_def LINKADDR_SIZE_def)

definition table_ok :: "seqno list \<Rightarrow> bool" where
  "table_ok t \<longleftrightarrow> length t = MAX_SEQNOS \<and> (\<forall>e \<in> set t. length (sender e) = LINKADDR_SIZE)"

lemma linkaddr_cmp_eq: "length a = 8 \<Longrightarrow> length b = 8 \<Longrightarrow> linkaddr_cmp a b = (a = b)"
  by (simp add: linkaddr_cmp_def LINKADDR_SIZE_def)

text \<open>Moving the entries up to a position one up.\<close>

lemma shift_up:
  "k \<le> length t \<Longrightarrow> 0 < k \<Longrightarrow> (fold (\<lambda>j t. t[j := t ! (j - 1)]) (rev [1..<k]) t)[0 := x] = x # take (k - 1) t @ drop k t"
proof (induction k arbitrary: t)
  case (Suc k)
  show ?case
  proof (cases "k = 0")
    case True
    then show ?thesis using Suc.prems by (cases t) auto
  next
    case False
    let ?t = "t[k := t ! (k - 1)]"
    have "rev [1..<Suc k] = k # rev [1..<k]" using False by simp
    then have "(fold (\<lambda>j t. t[j := t ! (j - 1)]) (rev [1..<Suc k]) t)[0 := x] = x # take (k - 1) ?t @ drop k ?t"
      using Suc.IH [of ?t] Suc.prems False by simp
    moreover have "drop k ?t = t ! (k - 1) # drop (Suc k) t"
      using Suc.prems by (simp add: Cons_nth_drop_Suc [symmetric])
    moreover have "take k t = take (k - 1) t @ [t ! (k - 1)]"
      using Suc.prems False take_Suc_conv_app_nth [of "k - 1" t] by simp
    ultimately show ?thesis by simp
  qed
qed simp

lemma locate_append:
  assumes "\<forall>e \<in> set u. length (sender e) = 8 \<and> sender e \<noteq> a" and "length a = 8"
  shows "locate_loop a (u @ v) = length u + locate_loop a v"
  using assms by (induction u) (auto simp: linkaddr_cmp_eq)

lemma duplicate_append:
  assumes "\<forall>e \<in> set u. length (sender e) = 8 \<and> sender e \<noteq> a" and "length a = 8"
  shows "duplicate_loop a s (u @ v) = duplicate_loop a s v"
  using assms by (induction u) (auto simp: linkaddr_cmp_eq)

lemma locate_bounds: "t \<noteq> [] \<Longrightarrow> 0 < locate_loop a t \<and> locate_loop a t \<le> length t"
proof (induction t)
  case (Cons e t)
  then show ?case by (cases t) auto
qed simp

lemma table_ok_parts:
  "table_ok (u @ v) = (length u + length v = 16 \<and> (\<forall>e \<in> set u \<union> set v. length (sender e) = 8))"
  by (auto simp: table_ok_def MAX_SEQNOS_def LINKADDR_SIZE_def)

abbreviation entry :: "packetbuf \<Rightarrow> seqno" where
  "entry pb \<equiv> \<lparr>sender = frame_sender pb, seq = ucast (frame_seqno pb)\<rparr>"

lemma shift_fold:
  "\<forall>j \<in> set js. j < length t \<Longrightarrow> length (fold (\<lambda>j t. t[j := t ! (j - 1)]) js t) = length t \<and>
     set (fold (\<lambda>j t. t[j := t ! (j - 1)]) js t) \<subseteq> set t"
proof (induction js arbitrary: t)
  case (Cons j js)
  have "set (t[j := t ! (j - 1)]) \<subseteq> set t"
    using Cons.prems by (intro set_update_subsetI) auto
  then show ?case using Cons.IH [of "t[j := t ! (j - 1)]"] Cons.prems by auto
qed simp

lemma register_moves_to_front:
  assumes "frame_ok pb" and "table_ok t"
  shows "mac_sequence_register_seqno pb t = Some (entry pb # take (locate_loop (frame_sender pb) t - 1) t @
    drop (locate_loop (frame_sender pb) t) t)"
proof -
  let ?a = "frame_sender pb" and ?k = "locate_loop (frame_sender pb) t"
  have t: "length t = 16" "\<forall>e \<in> set t. length (sender e) = 8"
    using assms(2) by (auto simp: table_ok_def MAX_SEQNOS_def LINKADDR_SIZE_def)
  then have k: "0 < ?k" "?k \<le> 16" using locate_bounds [of t ?a] by (cases t, auto)+
  have copy: "linkaddr_copy (sender (u ! 0)) ?a = ?a" if "length (sender (u ! 0)) = 8" for u :: "seqno list"
    using that frame_fields(3) [OF assms(1)] by (simp add: linkaddr_copy_def LINKADDR_SIZE_def)
  let ?u = "fold (\<lambda>j t. t[j := t ! (j - 1)]) (rev [1..<?k]) t"
  have js: "\<forall>j \<in> set (rev [1..<?k]). j < length t" using k t(1) by simp
  have "length ?u = 16" "set ?u \<subseteq> set t" using shift_fold [OF js] t(1) by (simp_all only:)
  then have "?u ! 0 \<in> set t" by (intro subsetD [OF \<open>set ?u \<subseteq> set t\<close>] nth_mem) simp
  then have "length (sender (?u ! 0)) = 8" using t(2) by blast
  then have "mac_sequence_register_seqno pb t = Some (?u[0 := entry pb])"
    using frame_fields(1,2) [OF assms(1)] copy by (simp add: mac_sequence_register_seqno_def Let_def)
  then show ?thesis using shift_up [of ?k t "entry pb"] k t(1) by simp
qed

lemma register_table_ok:
  assumes "frame_ok pb" and "table_ok t" and "mac_sequence_register_seqno pb t = Some t'"
  shows "table_ok t'"
proof -
  have t: "length t = 16" "\<forall>e \<in> set t. length (sender e) = 8"
    using assms(2) by (auto simp: table_ok_def MAX_SEQNOS_def LINKADDR_SIZE_def)
  then have "0 < locate_loop (frame_sender pb) t" "locate_loop (frame_sender pb) t \<le> 16"
    using locate_bounds [of t "frame_sender pb"] by (cases t, auto)+
  moreover have "length (sender e) = 8" if "e \<in> set (take m t)" for m e
    using that t(2) by (metis in_set_takeD)
  moreover have "length (sender e) = 8" if "e \<in> set (drop n t)" for n e
    using that t(2) by (metis in_set_dropD)
  ultimately show ?thesis using t(1) assms(3) register_moves_to_front [OF assms(1,2)] frame_fields(3) [OF assms(1)]
    by (auto simp: table_ok_def MAX_SEQNOS_def LINKADDR_SIZE_def)
qed

text \<open>
  The entry of a sender is behind one entry for each other sender registered
  since.
\<close>

definition tracked :: "linkaddr \<Rightarrow> u8 \<Rightarrow> linkaddr set \<Rightarrow> seqno list \<Rightarrow> bool" where
  "tracked a s A t \<longleftrightarrow> (\<exists>u v. t = u @ \<lparr>sender = a, seq = s\<rparr> # v \<and> distinct (map sender u) \<and> sender ` set u = A \<and> a \<notin> A)"

lemma tracked_step:
  assumes "frame_ok pb" and "table_ok t" and "tracked a s A t" and "frame_sender pb \<noteq> a" and "card (insert (frame_sender pb) A) \<le> 15"
  shows "\<exists>t'. mac_sequence_register_seqno pb t = Some t' \<and> table_ok t' \<and> tracked a s (insert (frame_sender pb) A) t'"
proof -
  let ?b = "frame_sender pb"
  obtain u v where t: "t = u @ \<lparr>sender = a, seq = s\<rparr> # v" "distinct (map sender u)" "sender ` set u = A" "a \<notin> A"
    using assms(3) by (auto simp: tracked_def)
  have b: "length ?b = 8" by (rule frame_fields(3) [OF assms(1)])
  have len: "length u + Suc (length v) = 16" "\<forall>e \<in> set u. length (sender e) = 8" "length a = 8" "\<forall>e \<in> set v. length (sender e) = 8"
    using assms(2) unfolding t(1) table_ok_parts by auto
  define t' where "t' = entry pb # take (locate_loop ?b t - 1) t @ drop (locate_loop ?b t) t"
  have reg: "mac_sequence_register_seqno pb t = Some t'"
    using register_moves_to_front [OF assms(1,2)] by (simp add: t'_def)
  have "tracked a s (insert ?b A) t'"
  proof (cases "?b \<in> A")
    case True
    then obtain e where "e \<in> set u" "sender e = ?b" using t(3) by auto
    then obtain u1 u2 where u: "u = u1 @ e # u2" by (auto simp: in_set_conv_decomp)
    have n: "\<forall>e \<in> set u1. length (sender e) = 8 \<and> sender e \<noteq> ?b"
      using len(2) t(2) u \<open>sender e = ?b\<close> by (auto simp: image_iff)
    have "locate_loop ?b t = Suc (length u1)"
      unfolding t(1) u using locate_append [OF n b] \<open>sender e = ?b\<close> b by (simp add: linkaddr_cmp_eq)
    then have "t' = (entry pb # u1 @ u2) @ \<lparr>sender = a, seq = s\<rparr> # v" by (simp add: t'_def t(1) u)
    moreover have "distinct (map sender (entry pb # u1 @ u2))" "sender ` set (entry pb # u1 @ u2) = insert ?b A"
      using t(2,3) u \<open>sender e = ?b\<close> by auto
    ultimately show ?thesis using t(4) assms(4) unfolding tracked_def by blast
  next
    case False
    have n: "\<forall>e \<in> set u. length (sender e) = 8 \<and> sender e \<noteq> ?b" using len(2) t(3) False by (metis imageI)
    have l: "locate_loop ?b t = Suc (length u + locate_loop ?b v)"
      unfolding t(1) using locate_append [OF n b] assms(4) len(3) b by (simp add: linkaddr_cmp_eq)
    have "card A = length u" using t(2,3) distinct_card [of "map sender u"] by simp
    moreover have "finite A" using t(3) by auto
    ultimately have "length u \<le> 14" using assms(5) False by simp
    then have "v \<noteq> []" using len(1) by auto
    then have "0 < locate_loop ?b v" using locate_bounds by blast
    then obtain m where m: "locate_loop ?b v = Suc m" using gr0_implies_Suc by blast
    have "t' = (entry pb # u) @ \<lparr>sender = a, seq = s\<rparr> # take m v @ drop (Suc m) v"
      unfolding t'_def l by (simp add: t(1) m)
    moreover have "distinct (map sender (entry pb # u))" "sender ` set (entry pb # u) = insert ?b A"
      using t(2,3) False by auto
    ultimately show ?thesis using t(4) assms(4) unfolding tracked_def by blast
  qed
  with reg register_table_ok [OF assms(1,2) reg] show ?thesis by blast
qed

fun register_all :: "packetbuf list \<Rightarrow> seqno list \<Rightarrow> seqno list option" where
  "register_all [] t = Some t"
| "register_all (pb # pbs) t = Option.bind (mac_sequence_register_seqno pb t) (register_all pbs)"

lemma tracked_run:
  assumes "\<forall>pb \<in> set pbs. frame_ok pb \<and> frame_sender pb \<noteq> a" and "table_ok t" and "tracked a s A t"
    and "card (frame_sender ` set pbs \<union> A) \<le> 15"
  shows "\<exists>t'. register_all pbs t = Some t' \<and> table_ok t' \<and> tracked a s (frame_sender ` set pbs \<union> A) t'"
  using assms
proof (induction pbs arbitrary: t A)
  case (Cons pb pbs)
  have "finite A" using Cons.prems(3) by (auto simp: tracked_def)
  then have "card (insert (frame_sender pb) A) \<le> card (frame_sender ` set (pb # pbs) \<union> A)" by (intro card_mono) auto
  then obtain t1 where 1: "mac_sequence_register_seqno pb t = Some t1" "table_ok t1" "tracked a s (insert (frame_sender pb) A) t1"
    using tracked_step [of pb t a s A] Cons.prems by auto
  moreover have "frame_sender ` set pbs \<union> insert (frame_sender pb) A = frame_sender ` set (pb # pbs) \<union> A" by auto
  ultimately show ?case using Cons.IH [OF _ 1(2,3)] Cons.prems by auto
qed simp

lemma tracked_duplicate:
  assumes "frame_ok pb" and "table_ok t" and "tracked (frame_sender pb) s A t"
  shows "mac_sequence_is_duplicate pb t = Some (frame_seqno pb = ucast s)"
proof -
  let ?a = "frame_sender pb"
  obtain u v where t: "t = u @ \<lparr>sender = ?a, seq = s\<rparr> # v" "sender ` set u = A" "?a \<notin> A"
    using assms(3) by (auto simp: tracked_def)
  have "\<forall>e \<in> set u. length (sender e) = 8 \<and> sender e \<noteq> ?a" using assms(2) t(2,3) unfolding t(1) table_ok_parts by (metis UnCI imageI)
  then show ?thesis using frame_fields [OF assms(1)] t(1)
    by (simp add: mac_sequence_is_duplicate_def duplicate_append linkaddr_cmp_eq)
qed

section \<open>Frame counters\<close>

definition frame_ctr :: "packetbuf \<Rightarrow> u32" where
  "frame_ctr pb = push_bit 16 (ucast (packetbuf_attrs pb ! 17)) OR ucast (packetbuf_attrs pb ! 16)"

definition frame_broadcast :: "packetbuf \<Rightarrow> bool" where
  "frame_broadcast pb \<longleftrightarrow> packetbuf_addrs pb ! 1 = linkaddr_null"

lemma frame_security:
  assumes "frame_ok pb"
  shows "anti_replay_get_counter pb = Some (frame_ctr pb)"
    and "packetbuf_holds_broadcast pb = Some (frame_broadcast pb)"
proof -
  have "length (packetbuf_addrs pb ! 1) = 8"
    using assms by (simp add: frame_ok_def LINKADDR_SIZE_def PACKETBUF_NUM_ADDRS_def)
  with assms show "packetbuf_holds_broadcast pb = Some (frame_broadcast pb)"
    by (simp add: frame_ok_def packetbuf_holds_broadcast_def packetbuf_addr_def PACKETBUF_ADDR_FIRST_def
        PACKETBUF_ADDR_RECEIVER_def PACKETBUF_ADDR_SENDER_def PACKETBUF_NUM_ADDRS_def frame_broadcast_def
        linkaddr_cmp_eq linkaddr_null_def LINKADDR_SIZE_def)
  show "anti_replay_get_counter pb = Some (frame_ctr pb)"
    using assms by (simp add: frame_ok_def anti_replay_get_counter_def packetbuf_attr_def frame_ctr_def
        PACKETBUF_ATTR_FRAME_COUNTER_BYTES_0_1_def PACKETBUF_ATTR_FRAME_COUNTER_BYTES_2_3_def PACKETBUF_NUM_ATTRS_def
        PACKETBUF_ATTR_MAX_def PACKETBUF_NUM_ADDRS_def)
qed

text \<open>The frames of a sender that pass the check, in order.\<close>

fun accepted :: "packetbuf list \<Rightarrow> anti_replay_info \<Rightarrow> packetbuf list option" where
  "accepted [] info = Some []"
| "accepted (pb # pbs) info = do {
     (replayed, info) \<leftarrow> anti_replay_was_replayed pb info;
     acc \<leftarrow> accepted pbs info;
     Some (if replayed then acc else pb # acc)
   }"

abbreviation counters :: "bool \<Rightarrow> packetbuf list \<Rightarrow> u32 list" where
  "counters b pbs \<equiv> map frame_ctr (filter (\<lambda>pb. frame_broadcast pb = b) pbs)"

lemma accepted_spec:
  assumes "\<forall>pb \<in> set pbs. frame_ok pb"
  shows "\<exists>acc. accepted pbs info = Some acc \<and> set acc \<subseteq> set pbs \<and>
    sorted_wrt (<) (last_broadcast_counter info # counters True acc) \<and>
    sorted_wrt (<) (last_unicast_counter info # counters False acc)"
  using assms
proof (induction pbs arbitrary: info)
  case (Cons pb pbs)
  note f = frame_security [of pb] and IH = Cons.IH
  have pb: "frame_ok pb" and pbs: "\<forall>pb \<in> set pbs. frame_ok pb" using Cons.prems by auto
  obtain r info' where r: "anti_replay_was_replayed pb info = Some (r, info')"
    and old: "r \<Longrightarrow> info' = info"
    and new: "\<not> r \<Longrightarrow> frame_broadcast pb \<and> last_broadcast_counter info < frame_ctr pb \<and>
        info' = info\<lparr>last_broadcast_counter := frame_ctr pb\<rparr> \<or>
      \<not> frame_broadcast pb \<and> last_unicast_counter info < frame_ctr pb \<and>
        info' = info\<lparr>last_unicast_counter := frame_ctr pb\<rparr>"
    by (rule that [of "(if frame_broadcast pb then frame_ctr pb \<le> last_broadcast_counter info
        else frame_ctr pb \<le> last_unicast_counter info)"
        "if frame_broadcast pb
         then if frame_ctr pb \<le> last_broadcast_counter info then info else info\<lparr>last_broadcast_counter := frame_ctr pb\<rparr>
         else if frame_ctr pb \<le> last_unicast_counter info then info else info\<lparr>last_unicast_counter := frame_ctr pb\<rparr>"])
      (auto simp: anti_replay_was_replayed_def f [OF pb] not_le split: if_splits)
  obtain acc where acc: "accepted pbs info' = Some acc" "set acc \<subseteq> set pbs"
    "sorted_wrt (<) (last_broadcast_counter info' # counters True acc)"
    "sorted_wrt (<) (last_unicast_counter info' # counters False acc)"
    using IH [OF pbs, of info'] by blast
  show ?case
  proof (cases r)
    case True
    then show ?thesis using r acc old by (intro exI [of _ acc]) auto
  next
    case False
    from new [OF this] False r acc show ?thesis
      by (intro exI [of _ "pb # acc"]) (auto intro: order.strict_trans)
  qed
qed simp

section \<open>Properties\<close>

text \<open>
  C39. The duplicate filter remembers a sender: whatever the table held, after a
  frame of it has been registered and then frames of up to fifteen other
  senders, any number of each, a frame of the first sender counts as duplicate
  exactly when it has the sequence number of that frame (of which the table
  keeps the low byte).
\<close>

theorem mac_sequence_duplicates:
  assumes "table_ok t" and "frame_ok pb" and "\<forall>p \<in> set pbs. frame_ok p \<and> frame_sender p \<noteq> frame_sender pb"
    and "card (frame_sender ` set pbs) \<le> 15" and "frame_ok q" and "frame_sender q = frame_sender pb"
  shows "\<exists>t'. register_all (pb # pbs) t = Some t' \<and> table_ok t' \<and>
    mac_sequence_is_duplicate q t' = Some (frame_seqno q = ucast (ucast (frame_seqno pb) :: u8))"
proof -
  obtain t1 where t1: "mac_sequence_register_seqno pb t = Some t1"
    "t1 = [] @ entry pb # take (locate_loop (frame_sender pb) t - 1) t @ drop (locate_loop (frame_sender pb) t) t"
    using register_moves_to_front [OF assms(2,1)] by simp
  have "tracked (frame_sender pb) (ucast (frame_seqno pb)) {} t1" unfolding tracked_def using t1(2) by force
  from tracked_run [OF assms(3) register_table_ok [OF assms(2,1) t1(1)] this] assms(4)
  obtain t' where t': "register_all pbs t1 = Some t'" "table_ok t'"
    "tracked (frame_sender pb) (ucast (frame_seqno pb)) (frame_sender ` set pbs) t'" by auto
  then show ?thesis using tracked_duplicate [of q t'] assms(5,6) t1(1) by simp
qed

definition frame0 :: "u8 \<Rightarrow> u16 \<Rightarrow> u16 \<Rightarrow> packetbuf" where
  "frame0 a s c = \<lparr>packetbuf_bytes = [], buflen = 0, bufptr = 0, hdrptr = 48,
     packetbuf_attrs = (replicate 21 0)[10 := s, 16 := c], packetbuf_addrs = [replicate 8 a, replicate 8 1]\<rparr>"

lemma frame0_ok: "frame_ok (frame0 a s c)" "frame_sender (frame0 a s c) = replicate 8 a"
  "frame_seqno (frame0 a s c) = s" "frame_ctr (frame0 a s c) = ucast c" "\<not> frame_broadcast (frame0 a s c)"
  by (simp_all add: frame0_def frame_ok_def frame_sender_def frame_seqno_def frame_ctr_def frame_broadcast_def
      linkaddr_null_def LINKADDR_SIZE_def PACKETBUF_NUM_ATTRS_def PACKETBUF_ATTR_MAX_def PACKETBUF_NUM_ADDRS_def)

lemma mac_sequence_duplicates_witness:
  "\<exists>t'. register_all [frame0 1 5 0, frame0 2 7 0, frame0 3 9 0] (replicate 16 \<lparr>sender = replicate 8 0, seq = 0\<rparr>) = Some t' \<and>
     mac_sequence_is_duplicate (frame0 1 5 0) t' = Some True"
  using mac_sequence_duplicates [of "replicate 16 \<lparr>sender = replicate 8 0, seq = 0\<rparr>" "frame0 1 5 0"
      "[frame0 2 7 0, frame0 3 9 0]" "frame0 1 5 0"]
  by (auto simp: frame0_ok table_ok_def MAX_SEQNOS_def LINKADDR_SIZE_def card_insert_if simp del: register_all.simps)

text \<open>
  C27. No frame of a sender passes the replay check twice: of any sequence of
  received frames those that pass have strictly growing counters, all beyond
  the last one seen before, for broadcasts and for unicasts separately.
\<close>

theorem anti_replay_growing:
  assumes "\<forall>pb \<in> set pbs. frame_ok pb"
  shows "\<exists>acc. accepted pbs info = Some acc \<and> set acc \<subseteq> set pbs \<and>
    sorted_wrt (<) (last_broadcast_counter info # counters True acc) \<and>
    sorted_wrt (<) (last_unicast_counter info # counters False acc)"
  using assms by (rule accepted_spec)

lemma anti_replay_growing_witness:
  "\<exists>acc. accepted [frame0 1 0 5, frame0 1 0 5, frame0 1 0 6] \<lparr>last_broadcast_counter = 0, last_unicast_counter = 4\<rparr> = Some acc \<and>
     sorted_wrt (<) (4 # counters False acc)"
  using anti_replay_growing [of "[frame0 1 0 5, frame0 1 0 5, frame0 1 0 6]"
      "\<lparr>last_broadcast_counter = 0, last_unicast_counter = 4\<rparr>"]
  by (auto simp: frame0_ok simp del: accepted.simps)

end
