(* ===== verification/Frame802154.thy ===== *)
theory Frame802154
  imports Bytes
begin

text \<open>
  Creation and parsing of IEEE 802.15.4 frame headers,
  \<open>core/net/mac/frame802154.c\<close>, with link-layer security, explicit keys and 8-byte
  link addresses compiled in. The write position \<open>pos\<close> is an offset into the buffer; the read pointer \<open>p\<close> of
  the parser is the list of the bytes from it on, and a read past the end of the
  array is \<^term>\<open>None\<close>.
\<close>

section \<open>Frames\<close>

definition FRAME802154_DATAFRAME :: u8 where "FRAME802154_DATAFRAME = 1"
definition FRAME802154_SHORTADDRMODE :: u8 where "FRAME802154_SHORTADDRMODE = 2"
definition FRAME802154_LONGADDRMODE :: u8 where "FRAME802154_LONGADDRMODE = 3"
definition FRAME802154_IEEE802154_2006 :: u8 where "FRAME802154_IEEE802154_2006 = 1"
definition FRAME802154_BROADCASTPANDID :: u16 where "FRAME802154_BROADCASTPANDID = 0xffff"

lemmas mode_defs = FRAME802154_SHORTADDRMODE_def FRAME802154_LONGADDRMODE_def

record frame802154_fcf =
  frame_type :: u8
  security_enabled :: u8
  frame_pending :: u8
  ack_required :: u8
  panid_compression :: u8
  dest_addr_mode :: u8
  frame_version :: u8
  src_addr_mode :: u8

record frame802154_aux_hdr =
  security_level :: u8
  key_id_mode :: u8
  frame_counter :: "u8 list"
  key_source :: "u8 list"
  key_index :: u8

record frame802154 =
  dest_addr :: "u8 list"
  src_addr :: "u8 list"
  fcf :: frame802154_fcf
  seq :: u8
  dest_pid :: u16
  src_pid :: u16
  aux_hdr :: frame802154_aux_hdr
  payload :: "u8 list"
  payload_len :: int

record field_length =
  dest_pid_len :: nat
  dest_addr_len :: nat
  src_pid_len :: nat
  src_addr_len :: nat
  aux_sec_len :: nat

section \<open>Lengths\<close>

definition addr_len :: "u8 \<Rightarrow> nat" where
  "addr_len mode = (if mode = FRAME802154_SHORTADDRMODE then 2 else if mode = FRAME802154_LONGADDRMODE then 8 else 0)"

definition get_key_id_len :: "u8 \<Rightarrow> nat" where
  "get_key_id_len mode = (if mode = 1 then 1 else if mode = 2 then 5 else if mode = 3 then 9 else 0)"

definition field_len :: "frame802154 \<Rightarrow> frame802154 \<times> field_length" where
  "field_len p = (let f = fcf p;
     compress = dest_addr_mode f AND 3 \<noteq> 0 \<and> src_addr_mode f AND 3 \<noteq> 0 \<and> src_pid p = dest_pid p in
     (p\<lparr>fcf := f\<lparr>panid_compression := (if compress then 1 else 0)\<rparr>\<rparr>,
      \<lparr>dest_pid_len = (if dest_addr_mode f AND 3 \<noteq> 0 then 2 else 0),
       dest_addr_len = addr_len (dest_addr_mode f AND 3),
       src_pid_len = (if compress then 0 else if src_addr_mode f AND 3 \<noteq> 0 then 2 else 0),
       src_addr_len = addr_len (src_addr_mode f AND 3),
       aux_sec_len = (if security_enabled f AND 1 \<noteq> 0 then 5 + get_key_id_len (key_id_mode (aux_hdr p)) else 0)\<rparr>))"

definition frame802154_hdrlen :: "frame802154 \<Rightarrow> frame802154 \<times> nat" where
  "frame802154_hdrlen p = (let (p, flen) = field_len p in
     (p, 3 + dest_pid_len flen + dest_addr_len flen + src_pid_len flen + src_addr_len flen + aux_sec_len flen))"

section \<open>Creation\<close>

text \<open>\<open>buf[pos++] = addr[c - 1]\<close> for \<open>c\<close> down to 1.\<close>

fun put_addr :: "nat \<Rightarrow> u8 list \<Rightarrow> u8 list \<times> nat \<Rightarrow> (u8 list \<times> nat) option" where
  "put_addr 0 a s = Some s"
| "put_addr (Suc c) a s = Option.bind (put (a ! c) s) (put_addr c a)"

definition put_pid :: "u16 \<Rightarrow> u8 list \<times> nat \<Rightarrow> (u8 list \<times> nat) option" where
  "put_pid pid s = Option.bind (put (ucast (pid AND 0xff)) s) (put (ucast (drop_bit 8 pid AND 0xff)))"

definition fcf_byte0 :: "frame802154_fcf \<Rightarrow> u8" where
  "fcf_byte0 f = (frame_type f AND 7) OR push_bit 3 (security_enabled f AND 1) OR push_bit 4 (frame_pending f AND 1) OR
     push_bit 5 (ack_required f AND 1) OR push_bit 6 (panid_compression f AND 1)"

definition fcf_byte1 :: "frame802154_fcf \<Rightarrow> u8" where
  "fcf_byte1 f = push_bit 2 (dest_addr_mode f AND 3) OR push_bit 4 (frame_version f AND 3) OR push_bit 6 (src_addr_mode f AND 3)"

definition put_aux :: "frame802154_aux_hdr \<Rightarrow> u8 list \<times> nat \<Rightarrow> (u8 list \<times> nat) option" where
  "put_aux aux s = do {
     s \<leftarrow> put (security_level aux OR push_bit 3 (key_id_mode aux)) s;
     ctr \<leftarrow> read_bytes 0 4 (frame_counter aux);
     s \<leftarrow> puts ctr s;
     (if key_id_mode aux \<noteq> 0 then do {
        src \<leftarrow> read_bytes 0 ((unat (key_id_mode aux) - 1) * 4) (key_source aux);
        s \<leftarrow> puts src s;
        put (key_index aux) s
      } else Some s)
   }"

definition frame802154_create :: "frame802154 \<Rightarrow> u8 list \<Rightarrow> (frame802154 \<times> u8 list \<times> nat) option" where
  "frame802154_create p buf = (let (p, flen) = field_len p in do {
     s \<leftarrow> put (fcf_byte0 (fcf p)) (buf, 0);
     s \<leftarrow> put (fcf_byte1 (fcf p)) s;
     s \<leftarrow> put (seq p) s;
     s \<leftarrow> (if dest_pid_len flen = 2 then put_pid (dest_pid p) s else Some s);
     s \<leftarrow> put_addr (dest_addr_len flen) (dest_addr p) s;
     s \<leftarrow> (if src_pid_len flen = 2 then put_pid (src_pid p) s else Some s);
     s \<leftarrow> put_addr (src_addr_len flen) (src_addr p) s;
     (buf, pos) \<leftarrow> (if aux_sec_len flen \<noteq> 0 then put_aux (aux_hdr p) s else Some s);
     Some (p, buf, pos)
   })"

section \<open>Parsing\<close>

definition parse_fcf :: "u8 \<Rightarrow> u8 \<Rightarrow> frame802154_fcf" where
  "parse_fcf b0 b1 = \<lparr>frame_type = b0 AND 7, security_enabled = drop_bit 3 b0 AND 1, frame_pending = drop_bit 4 b0 AND 1,
     ack_required = drop_bit 5 b0 AND 1, panid_compression = drop_bit 6 b0 AND 1,
     dest_addr_mode = drop_bit 2 b1 AND 3, frame_version = drop_bit 4 b1 AND 3, src_addr_mode = drop_bit 6 b1 AND 3\<rparr>"

fun parse_pid :: "u8 list \<Rightarrow> (u16 \<times> u8 list) option" where
  "parse_pid (lo # hi # p) = Some (ucast lo + push_bit 8 (ucast hi), p)"
| "parse_pid _ = None"

text \<open>A short address clears the link address, the reserved mode leaves the address as it was.\<close>

definition parse_addr :: "u8 \<Rightarrow> u8 list \<Rightarrow> u8 list \<Rightarrow> (u8 list \<times> u8 list) option" where
  "parse_addr mode addr p =
     (if mode = FRAME802154_SHORTADDRMODE then do {
        p1 \<leftarrow> get p 1;
        p0 \<leftarrow> get p 0;
        Some ((replicate 8 0)[0 := p1, 1 := p0], drop 2 p)
      } else if mode = FRAME802154_LONGADDRMODE then
        (if length p < 8 then None else Some (map (\<lambda>c. p ! (7 - c)) [0..<8], drop 8 p))
      else Some (addr, p))"

definition parse_dest :: "u8 list \<Rightarrow> frame802154 \<Rightarrow> (frame802154 \<times> u8 list) option" where
  "parse_dest p pf = (if dest_addr_mode (fcf pf) \<noteq> 0 then do {
      (pid, p) \<leftarrow> parse_pid p;
      (a, p) \<leftarrow> parse_addr (dest_addr_mode (fcf pf)) (dest_addr pf) p;
      Some (pf\<lparr>dest_pid := pid, dest_addr := a\<rparr>, p)
    } else Some (pf\<lparr>dest_addr := replicate 8 0, dest_pid := 0\<rparr>, p))"

definition parse_src :: "u8 list \<Rightarrow> frame802154 \<Rightarrow> (frame802154 \<times> u8 list) option" where
  "parse_src p pf = (if src_addr_mode (fcf pf) \<noteq> 0 then do {
      (pid, p) \<leftarrow> (if panid_compression (fcf pf) = 0 then parse_pid p else Some (dest_pid pf, p));
      (a, p) \<leftarrow> parse_addr (src_addr_mode (fcf pf)) (src_addr pf) p;
      Some (pf\<lparr>src_pid := pid, src_addr := a\<rparr>, p)
    } else Some (pf\<lparr>src_addr := replicate 8 0, src_pid := 0\<rparr>, p))"

definition parse_aux :: "u8 list \<Rightarrow> frame802154 \<Rightarrow> (frame802154 \<times> u8 list) option" where
  "parse_aux p pf = (if security_enabled (fcf pf) \<noteq> 0 then do {
      b \<leftarrow> get p 0;
      let aux = (aux_hdr pf)\<lparr>security_level := b AND 7, key_id_mode := drop_bit 3 b AND 3\<rparr>;
      ctr \<leftarrow> read_bytes 1 4 p;
      let aux = aux\<lparr>frame_counter := ctr\<rparr>;
      let p = drop 5 p;
      (if key_id_mode aux \<noteq> 0 then do {
         let c = (unat (key_id_mode aux) - 1) * 4;
         src \<leftarrow> read_bytes 0 c p;
         i \<leftarrow> get p c;
         Some (pf\<lparr>aux_hdr := aux\<lparr>key_source := src @ drop c (key_source aux), key_index := i\<rparr>\<rparr>, drop (c + 1) p)
       } else Some (pf\<lparr>aux_hdr := aux\<rparr>, p))
    } else Some (pf, p))"

definition frame802154_parse :: "u8 list \<Rightarrow> int \<Rightarrow> frame802154 \<Rightarrow> (int \<times> frame802154) option" where
  "frame802154_parse data len pf = (if len < 3 then Some (0, pf) else do {
     b0 \<leftarrow> get data 0;
     b1 \<leftarrow> get data 1;
     b2 \<leftarrow> get data 2;
     let pf = pf\<lparr>fcf := parse_fcf b0 b1, seq := b2\<rparr>;
     (pf, p) \<leftarrow> parse_dest (drop 3 data) pf;
     (pf, p) \<leftarrow> parse_src p pf;
     (pf, p) \<leftarrow> parse_aux p pf;
     let c = int (length data - length p);
     Some (if c > len then 0 else c, pf\<lparr>payload_len := len - c, payload := p\<rparr>)
   })"

section \<open>The bytes of a header\<close>

text \<open>What the callers have to see to: values in the range of their fields, and no reserved address mode.\<close>

definition fcf_wf :: "frame802154_fcf \<Rightarrow> bool" where
  "fcf_wf f \<longleftrightarrow> frame_type f < 8 \<and> security_enabled f \<le> 1 \<and> frame_pending f \<le> 1 \<and> ack_required f \<le> 1 \<and>
     dest_addr_mode f \<in> {0, FRAME802154_SHORTADDRMODE, FRAME802154_LONGADDRMODE} \<and> frame_version f < 4 \<and>
     src_addr_mode f \<in> {0, FRAME802154_SHORTADDRMODE, FRAME802154_LONGADDRMODE}"

definition aux_wf :: "frame802154_aux_hdr \<Rightarrow> bool" where
  "aux_wf aux \<longleftrightarrow> security_level aux < 8 \<and> key_id_mode aux < 4 \<and> length (frame_counter aux) = 4 \<and> length (key_source aux) = 8"

definition frame_wf :: "frame802154 \<Rightarrow> bool" where
  "frame_wf p \<longleftrightarrow> fcf_wf (fcf p) \<and> aux_wf (aux_hdr p) \<and> length (dest_addr p) = 8 \<and> length (src_addr p) = 8"

definition compressed :: "frame802154 \<Rightarrow> bool" where
  "compressed p \<longleftrightarrow> dest_addr_mode (fcf p) \<noteq> 0 \<and> src_addr_mode (fcf p) \<noteq> 0 \<and> src_pid p = dest_pid p"

definition pid_bytes :: "u16 \<Rightarrow> u8 list" where
  "pid_bytes pid = rev (be16 pid)"

definition aux_bytes :: "frame802154_aux_hdr \<Rightarrow> u8 list" where
  "aux_bytes aux = (security_level aux OR push_bit 3 (key_id_mode aux)) # frame_counter aux @
     (if key_id_mode aux \<noteq> 0 then take ((unat (key_id_mode aux) - 1) * 4) (key_source aux) @ [key_index aux] else [])"

definition sent_fcf :: "frame802154 \<Rightarrow> frame802154_fcf" where
  "sent_fcf p = (fcf p)\<lparr>panid_compression := (if compressed p then 1 else 0)\<rparr>"

definition dest_bytes :: "frame802154 \<Rightarrow> u8 list" where
  "dest_bytes p = (if dest_addr_mode (fcf p) \<noteq> 0
     then pid_bytes (dest_pid p) @ rev (take (addr_len (dest_addr_mode (fcf p))) (dest_addr p)) else [])"

definition src_bytes :: "frame802154 \<Rightarrow> u8 list" where
  "src_bytes p = (if src_addr_mode (fcf p) \<noteq> 0
     then (if compressed p then [] else pid_bytes (src_pid p)) @ rev (take (addr_len (src_addr_mode (fcf p))) (src_addr p))
     else [])"

definition frame_bytes :: "frame802154 \<Rightarrow> u8 list" where
  "frame_bytes p = [fcf_byte0 (sent_fcf p), fcf_byte1 (sent_fcf p), seq p] @ dest_bytes p @ src_bytes p @
     (if security_enabled (fcf p) \<noteq> 0 then aux_bytes (aux_hdr p) else [])"

section \<open>Bit fields\<close>

lemma and_masks: "(x :: u8) AND 7 = take_bit 3 x" "x AND 3 = take_bit 2 x" "x AND 1 = take_bit 1 x"
  by (simp_all add: take_bit_eq_mask mask_eq_exp_minus_1)

lemma take_bit_range: "unat (x :: u8) < 2 ^ n \<Longrightarrow> take_bit n x = x"
  by (metis take_bit_nat_eq_self_iff unsigned_take_bit_eq word_unat_eq_iff)

lemma le_1_mod_2: "(x :: u8) \<le> 1 \<Longrightarrow> x mod 2 = x"
  using take_bit_range [of x 1] by (simp add: word_le_nat_alt)

lemma parse_fcf_bytes:
  assumes "fcf_wf f" and "panid_compression f \<le> 1"
  shows "parse_fcf (fcf_byte0 f) (fcf_byte1 f) = f"
proof -
  have b0: "take_bit 3 (fcf_byte0 f) = take_bit 3 (frame_type f)"
    "take_bit 1 (drop_bit 3 (fcf_byte0 f)) = take_bit 1 (security_enabled f)"
    "take_bit 1 (drop_bit 4 (fcf_byte0 f)) = take_bit 1 (frame_pending f)"
    "take_bit 1 (drop_bit 5 (fcf_byte0 f)) = take_bit 1 (ack_required f)"
    "take_bit 1 (drop_bit 6 (fcf_byte0 f)) = take_bit 1 (panid_compression f)"
    "take_bit 2 (drop_bit 2 (fcf_byte1 f)) = take_bit 2 (dest_addr_mode f)"
    "take_bit 2 (drop_bit 4 (fcf_byte1 f)) = take_bit 2 (frame_version f)"
    "take_bit 2 (drop_bit 6 (fcf_byte1 f)) = take_bit 2 (src_addr_mode f)"
    by ((rule bit_word_eqI, simp only: fcf_byte0_def fcf_byte1_def and_masks bit_ops bit_take_bit_iff, auto)[1])+
  have "take_bit 3 (frame_type f) = frame_type f" "take_bit 2 (frame_version f) = frame_version f"
    using assms(1) by (auto simp: fcf_wf_def word_less_nat_alt intro!: take_bit_range)
  moreover have "take_bit 2 (dest_addr_mode f) = dest_addr_mode f" "take_bit 2 (src_addr_mode f) = src_addr_mode f"
    using assms(1) by (auto simp: fcf_wf_def mode_defs)
  ultimately show ?thesis
    unfolding parse_fcf_def and_masks b0 using assms by (cases f) (simp add: fcf_wf_def le_1_mod_2)
qed

section \<open>Creation writes the bytes of the header\<close>

lemma put_addr_puts: "c \<le> length a \<Longrightarrow> put_addr c a s = puts (rev (take c a)) s"
proof (induction c arbitrary: s)
  case (Suc c)
  then have "rev (take (Suc c) a) = a ! c # rev (take c a)" by (simp add: take_Suc_conv_app_nth)
  with Suc show ?case by (cases "put (a ! c) s") auto
qed simp

lemma put_pid_puts: "put_pid pid s = puts (pid_bytes pid) s"
proof -
  have "ucast (pid AND 0xff) = (ucast pid :: u8)" "ucast (drop_bit 8 pid AND 0xff) = (ucast (drop_bit 8 pid) :: u8)"
    by ((rule bit_word_eqI, simp only: bit_ops bit_0xff, auto)[1])+
  then show ?thesis by (simp add: put_pid_def pid_bytes_def be16_def puts_collect del: puts.simps)
qed

lemma put_aux_puts:
  assumes "aux_wf aux"
  shows "put_aux aux s = puts (aux_bytes aux) s"
proof -
  have "unat (key_id_mode aux) < 4" using assms by (simp add: aux_wf_def word_less_nat_alt)
  then have "read_bytes 0 ((unat (key_id_mode aux) - 1) * 4) (key_source aux) =
      Some (take ((unat (key_id_mode aux) - 1) * 4) (key_source aux))"
    "read_bytes 0 4 (frame_counter aux) = Some (frame_counter aux)"
    using assms by (auto simp: aux_wf_def read_bytes_def)
  then show ?thesis 
    by (simp add: put_aux_def puts_collect aux_bytes_def del: puts.simps)
qed

lemma mode_cases:
  assumes "m \<in> {0, FRAME802154_SHORTADDRMODE, FRAME802154_LONGADDRMODE}"
  shows "m AND 3 = m" and "addr_len m \<le> 8" and "m = 0 \<Longrightarrow> addr_len m = 0"
  using assms by (auto simp: mode_defs addr_len_def)

lemma flag_and_1: "(x :: u8) \<le> 1 \<Longrightarrow> x AND 1 = x"
  unfolding and_masks by (rule take_bit_range) (simp add: word_le_nat_alt)

lemma field_len_wf:
  assumes "frame_wf p"
  shows "field_len p = (p\<lparr>fcf := sent_fcf p\<rparr>,
      \<lparr>dest_pid_len = (if dest_addr_mode (fcf p) \<noteq> 0 then 2 else 0), dest_addr_len = addr_len (dest_addr_mode (fcf p)),
       src_pid_len = (if compressed p then 0 else if src_addr_mode (fcf p) \<noteq> 0 then 2 else 0),
       src_addr_len = addr_len (src_addr_mode (fcf p)),
       aux_sec_len = (if security_enabled (fcf p) \<noteq> 0 then 5 + get_key_id_len (key_id_mode (aux_hdr p)) else 0)\<rparr>)"
  using assms by (auto simp: field_len_def Let_def frame_wf_def fcf_wf_def mode_cases flag_and_1 sent_fcf_def compressed_def)

lemma frame_create_bytes:
  assumes "frame_wf p"
  shows "frame802154_create p buf = map_option (\<lambda>(buf, pos). (p\<lparr>fcf := sent_fcf p\<rparr>, buf, pos)) (puts (frame_bytes p) (buf, 0))"
proof -
  have m: "dest_addr_mode (fcf p) = 0 \<Longrightarrow> addr_len (dest_addr_mode (fcf p)) = 0"
    "src_addr_mode (fcf p) = 0 \<Longrightarrow> addr_len (src_addr_mode (fcf p)) = 0"
    by (auto simp: addr_len_def mode_defs)
  have a: "put_addr (addr_len (dest_addr_mode (fcf p))) (dest_addr p) = puts (rev (take (addr_len (dest_addr_mode (fcf p))) (dest_addr p)))"
    "put_addr (addr_len (src_addr_mode (fcf p))) (src_addr p) = puts (rev (take (addr_len (src_addr_mode (fcf p))) (src_addr p)))"
    using assms by (auto simp: frame_wf_def fcf_wf_def mode_cases intro!: put_addr_puts)
  have aux: "put_aux (aux_hdr p) = puts (aux_bytes (aux_hdr p))"
    using assms by (auto simp: frame_wf_def put_aux_puts)
  have pid: "put_pid pid = puts (pid_bytes pid)" for pid by (rule ext) (rule put_pid_puts)
  have n: "((if b then 2 else (0 :: nat)) = 2) = b" "((if b then 5 + k else (0 :: nat)) \<noteq> 0) = b"
    "((if b then 0 else if c then 2 else (0 :: nat)) = 2) = (\<not> b \<and> c)" for b c k by auto
  have sel: "fcf (p\<lparr>fcf := f\<rparr>) = f" "seq (p\<lparr>fcf := f\<rparr>) = seq p" "dest_pid (p\<lparr>fcf := f\<rparr>) = dest_pid p"
    "dest_addr (p\<lparr>fcf := f\<rparr>) = dest_addr p" "src_pid (p\<lparr>fcf := f\<rparr>) = src_pid p"
    "src_addr (p\<lparr>fcf := f\<rparr>) = src_addr p" "aux_hdr (p\<lparr>fcf := f\<rparr>) = aux_hdr p" for f by simp_all
  let ?bytes = "[fcf_byte0 (sent_fcf p), fcf_byte1 (sent_fcf p), seq p] @
    (if dest_addr_mode (fcf p) \<noteq> 0 then pid_bytes (dest_pid p) else []) @
    rev (take (addr_len (dest_addr_mode (fcf p))) (dest_addr p)) @
    (if \<not> compressed p \<and> src_addr_mode (fcf p) \<noteq> 0 then pid_bytes (src_pid p) else []) @
    rev (take (addr_len (src_addr_mode (fcf p))) (src_addr p)) @
    (if security_enabled (fcf p) \<noteq> 0 then aux_bytes (aux_hdr p) else [])"
  have "frame802154_create p buf =
      Option.bind (puts ?bytes (buf, 0)) (\<lambda>(buf, pos). Some (p\<lparr>fcf := sent_fcf p\<rparr>, buf, pos))"
    unfolding frame802154_create_def field_len_wf [OF assms] Let_def prod.case field_length.simps sel
      n a aux pid if_puts puts_collect append_assoc by (simp only: append.simps)
  moreover have "?bytes = frame_bytes p" using m by (simp add: frame_bytes_def dest_bytes_def src_bytes_def)
  ultimately have "frame802154_create p buf =
      Option.bind (puts (frame_bytes p) (buf, 0)) (\<lambda>(buf, pos). Some (p\<lparr>fcf := sent_fcf p\<rparr>, buf, pos))" by (simp only:)
  then show ?thesis by (cases "puts (frame_bytes p) (buf, 0)") auto
qed

section \<open>Parsing reads the bytes of the header back\<close>

lemma parse_pid_bytes: "parse_pid (pid_bytes pid @ r) = Some (pid, r)"
  by (simp add: pid_bytes_def be16_def shift_add_eq_or of_be16_be16)

lemma list8: "length a = 8 \<Longrightarrow> a = map ((!) a) [0, 1, 2, 3, 4, 5, 6, 7]"
  by (rule nth_equalityI) (auto simp: less_Suc_eq eval_nat_numeral)

text \<open>A short address is received with its rest cleared.\<close>

definition received_addr :: "u8 \<Rightarrow> u8 list \<Rightarrow> u8 list" where
  "received_addr mode a = (if mode = 0 then replicate 8 0
     else if mode = FRAME802154_SHORTADDRMODE then take 2 a @ replicate 6 0 else a)"

lemma parse_addr_bytes:
  assumes "length a = 8" and "mode \<in> {0, FRAME802154_SHORTADDRMODE, FRAME802154_LONGADDRMODE}" and "mode \<noteq> 0"
  shows "parse_addr mode old (rev (take (addr_len mode) a) @ r) = Some (received_addr mode a, r)"
proof -
  obtain a0 a1 a2 a3 a4 a5 a6 a7 where a: "a = [a0, a1, a2, a3, a4, a5, a6, a7]"
    using list8 [OF assms(1)] by auto
  show ?thesis using assms(2,3)
    by (auto simp: a parse_addr_def addr_len_def mode_defs received_addr_def upt_rec eval_nat_numeral)
qed

definition received :: "frame802154 \<Rightarrow> u8 list \<Rightarrow> int \<Rightarrow> frame802154 \<Rightarrow> frame802154" where
  "received p data len pf = (let dm = dest_addr_mode (fcf p); sm = src_addr_mode (fcf p);
     aux = aux_hdr p; k = (unat (key_id_mode aux) - 1) * 4 in
   pf\<lparr>fcf := sent_fcf p, seq := seq p,
      dest_pid := (if dm \<noteq> 0 then dest_pid p else 0), dest_addr := received_addr dm (dest_addr p),
      src_pid := (if sm \<noteq> 0 then src_pid p else 0), src_addr := received_addr sm (src_addr p),
      aux_hdr := (if security_enabled (fcf p) = 0 then aux_hdr pf
        else if key_id_mode aux = 0 then (aux_hdr pf)\<lparr>security_level := security_level aux, key_id_mode := 0,
          frame_counter := frame_counter aux\<rparr>
        else aux\<lparr>key_source := take k (key_source aux) @ drop k (key_source (aux_hdr pf))\<rparr>),
      payload := data, payload_len := len - int (length (frame_bytes p))\<rparr>)"

lemma parse_dest_bytes:
  assumes "frame_wf p" and "fcf pf = sent_fcf p"
  shows "parse_dest (dest_bytes p @ r) pf = Some (pf\<lparr>dest_pid := (if dest_addr_mode (fcf p) \<noteq> 0 then dest_pid p else 0),
    dest_addr := received_addr (dest_addr_mode (fcf p)) (dest_addr p)\<rparr>, r)"
  using assms parse_addr_bytes [of "dest_addr p" "dest_addr_mode (fcf p)"]
  by (auto simp: parse_dest_def dest_bytes_def sent_fcf_def parse_pid_bytes frame_wf_def fcf_wf_def received_addr_def)

lemma parse_src_bytes:
  assumes "frame_wf p" and "fcf pf = sent_fcf p" and "dest_addr_mode (fcf p) \<noteq> 0 \<Longrightarrow> dest_pid pf = dest_pid p"
  shows "parse_src (src_bytes p @ r) pf = Some (pf\<lparr>src_pid := (if src_addr_mode (fcf p) \<noteq> 0 then src_pid p else 0),
    src_addr := received_addr (src_addr_mode (fcf p)) (src_addr p)\<rparr>, r)"
  using assms parse_addr_bytes [of "src_addr p" "src_addr_mode (fcf p)"]
  by (auto simp: parse_src_def src_bytes_def sent_fcf_def parse_pid_bytes frame_wf_def fcf_wf_def received_addr_def compressed_def)

lemma security_control_bits:
  assumes "level < (8 :: u8)" and "mode < (4 :: u8)"
  shows "(level OR push_bit 3 mode) AND 7 = level" and "drop_bit 3 (level OR push_bit 3 mode) AND 3 = mode"
proof -
  have r: "take_bit 3 level = level" "take_bit 2 mode = mode"
    using assms by (auto simp: word_less_nat_alt intro!: take_bit_range)
  have "take_bit 3 (take_bit 3 level OR push_bit 3 (take_bit 2 mode)) = take_bit 3 level"
    by (rule bit_word_eqI, simp only: bit_ops bit_take_bit_iff, auto)
  moreover have "take_bit 2 (drop_bit 3 (take_bit 3 level OR push_bit 3 (take_bit 2 mode))) = take_bit 2 mode"
    by (rule bit_word_eqI, simp only: bit_ops bit_take_bit_iff, auto)
  ultimately show "(level OR push_bit 3 mode) AND 7 = level" "drop_bit 3 (level OR push_bit 3 mode) AND 3 = mode"
    unfolding and_masks r by simp_all
qed

lemma parse_aux_eq:
  assumes "security_enabled (fcf pf) \<noteq> 0"
  shows "parse_aux (b # c0 # c1 # c2 # c3 # p) pf =
    (let aux = (aux_hdr pf)\<lparr>security_level := b AND 7, key_id_mode := drop_bit 3 b AND 3, frame_counter := [c0, c1, c2, c3]\<rparr>;
         c = (unat (drop_bit 3 b AND 3) - 1) * 4 in
     if drop_bit 3 b AND 3 \<noteq> 0 then do {
       src \<leftarrow> read_bytes 0 c p;
       i \<leftarrow> get p c;
       Some (pf\<lparr>aux_hdr := aux\<lparr>key_source := src @ drop c (key_source aux), key_index := i\<rparr>\<rparr>, drop (c + 1) p)
     } else Some (pf\<lparr>aux_hdr := aux\<rparr>, p))"
proof -
  have "read_bytes (Suc 0) 4 (b # c0 # c1 # c2 # c3 # p) = Some [c0, c1, c2, c3]" by (simp add: read_bytes_def)
  then show ?thesis using assms by (simp add: parse_aux_def Let_def)
qed

lemma parse_aux_bytes:
  assumes "aux_wf aux" and "security_enabled (fcf pf) \<noteq> 0" and "length (key_source (aux_hdr pf)) = 8"
  shows "parse_aux (aux_bytes aux @ r) pf = Some (pf\<lparr>aux_hdr :=
    (if key_id_mode aux = 0 then (aux_hdr pf)\<lparr>security_level := security_level aux, key_id_mode := 0,
       frame_counter := frame_counter aux\<rparr>
     else aux\<lparr>key_source := take ((unat (key_id_mode aux) - 1) * 4) (key_source aux) @
       drop ((unat (key_id_mode aux) - 1) * 4) (key_source (aux_hdr pf))\<rparr>)\<rparr>, r)"
proof -
  let ?k = "(unat (key_id_mode aux) - 1) * 4"
  have w: "length (frame_counter aux) = 4" "length (key_source aux) = 8" "unat (key_id_mode aux) < 4"
    using assms(1) by (auto simp: aux_wf_def word_less_nat_alt)
  then obtain c0 c1 c2 c3 where c: "frame_counter aux = [c0, c1, c2, c3]"
    by (auto simp: numeral_eq_Suc length_Suc_conv)
  have bits: "(security_level aux OR push_bit 3 (key_id_mode aux)) AND 7 = security_level aux"
    "drop_bit 3 (security_level aux OR push_bit 3 (key_id_mode aux)) AND 3 = key_id_mode aux"
    using assms(1) security_control_bits [of "security_level aux" "key_id_mode aux"] unfolding aux_wf_def by blast+
  have k: "?k \<le> 8" using w(3) by linarith
  let ?src = "take ?k (key_source aux)"
  have src: "read_bytes 0 ?k (?src @ key_index aux # r) = Some ?src" "get (?src @ key_index aux # r) ?k = Some (key_index aux)"
    "drop (?k + 1) (?src @ key_index aux # r) = r"
  proof -
    have l: "length ?src = ?k" using k w(2) by simp
    show "read_bytes 0 ?k (?src @ key_index aux # r) = Some ?src" using read_bytes_append [of ?k ?src "[]" "key_index aux # r"] l by simp
    show "get (?src @ key_index aux # r) ?k = Some (key_index aux)"
      using get_append3 [of ?src "key_index aux # r"] unfolding l by simp
    have "drop (length ?src + 1) (?src @ key_index aux # r) = r" by simp
    then show "drop (?k + 1) (?src @ key_index aux # r) = r" unfolding l .
  qed
  show ?thesis
  proof (cases "key_id_mode aux = 0")
    case True
    then show ?thesis using bits assms(2) by (simp add: parse_aux_def aux_bytes_def c read_bytes_def)
  next
    case False
    have rec: "(aux_hdr pf)\<lparr>security_level := security_level aux, key_id_mode := key_id_mode aux,
        frame_counter := [c0, c1, c2, c3], key_source := ks, key_index := key_index aux\<rparr> = aux\<lparr>key_source := ks\<rparr>" for ks
      using c by (cases aux; cases "aux_hdr pf") simp
    have "aux_bytes aux @ r = (security_level aux OR push_bit 3 (key_id_mode aux)) # c0 # c1 # c2 # c3 # ?src @ key_index aux # r"
      using False by (simp add: aux_bytes_def c)
    then show ?thesis using False
      by (simp only: parse_aux_eq [OF assms(2)] bits src Let_def if_True Option.bind.simps simp_thms if_False
          frame802154_aux_hdr.simps rec) (simp add: rec)
  qed
qed

lemma frame_parse_bytes:
  assumes "frame_wf p" and "length (key_source (aux_hdr pf)) = 8" and "int (length (frame_bytes p)) \<le> len"
  shows "frame802154_parse (frame_bytes p @ r) len pf = Some (int (length (frame_bytes p)), received p r len pf)"
proof -
  let ?b0 = "fcf_byte0 (sent_fcf p)" and ?b1 = "fcf_byte1 (sent_fcf p)"
  let ?aux = "if security_enabled (fcf p) \<noteq> 0 then aux_bytes (aux_hdr p) else []"
  have "fcf_wf (sent_fcf p)" "panid_compression (sent_fcf p) \<le> 1"
    using assms(1) by (auto simp: frame_wf_def fcf_wf_def sent_fcf_def)
  then have fcf: "parse_fcf ?b0 ?b1 = sent_fcf p" by (rule parse_fcf_bytes)
  let ?pf1 = "pf\<lparr>fcf := sent_fcf p, seq := seq p\<rparr>"
  let ?pf2 = "?pf1\<lparr>dest_pid := (if dest_addr_mode (fcf p) \<noteq> 0 then dest_pid p else 0),
    dest_addr := received_addr (dest_addr_mode (fcf p)) (dest_addr p)\<rparr>"
  let ?pf3 = "?pf2\<lparr>src_pid := (if src_addr_mode (fcf p) \<noteq> 0 then src_pid p else 0),
    src_addr := received_addr (src_addr_mode (fcf p)) (src_addr p)\<rparr>"
  have 1: "parse_dest (dest_bytes p @ src_bytes p @ ?aux @ r) ?pf1 = Some (?pf2, src_bytes p @ ?aux @ r)"
    using assms(1) by (subst parse_dest_bytes) simp_all
  have 2: "parse_src (src_bytes p @ ?aux @ r) ?pf2 = Some (?pf3, ?aux @ r)"
    using assms(1) by (subst parse_src_bytes) simp_all
  have len: "length (frame_bytes p) = 3 + length (dest_bytes p) + length (src_bytes p) + length ?aux"
    by (simp add: frame_bytes_def)
  have data: "frame_bytes p @ r = [?b0, ?b1, seq p] @ dest_bytes p @ src_bytes p @ ?aux @ r"
    by (simp add: frame_bytes_def)
  have l: "\<not> len < 3" using assms(3) len by linarith
  have s: "security_enabled (sent_fcf p) = security_enabled (fcf p)" by (simp add: sent_fcf_def)
  show ?thesis
  proof (cases "security_enabled (fcf p) = 0")
    case True
    then have "parse_aux (?aux @ r) ?pf3 = Some (?pf3, r)" by (simp add: parse_aux_def s)
    then show ?thesis using 1 2 l len True assms(3) unfolding data frame802154_parse_def
      by (simp add: fcf received_def Let_def)
  next
    case False
    then have "parse_aux (?aux @ r) ?pf3 = Some (?pf3\<lparr>aux_hdr := aux_hdr (received p r len pf)\<rparr>, r)"
      using assms(1,2) s parse_aux_bytes [of "aux_hdr p" ?pf3 r]
      by (simp add: frame_wf_def received_def Let_def)
    then show ?thesis using 1 2 l len False assms(3) unfolding data frame802154_parse_def
      by (simp add: fcf received_def Let_def)
  qed
qed

section \<open>Properties\<close>

lemma frame_hdrlen:
  assumes "frame_wf p"
  shows "frame802154_hdrlen p = (p\<lparr>fcf := sent_fcf p\<rparr>, length (frame_bytes p))"
    and "length (frame_bytes p) \<le> 37" and "3 \<le> length (frame_bytes p)"
proof -
  have a: "length (dest_addr p) = 8" "length (src_addr p) = 8" "addr_len (dest_addr_mode (fcf p)) \<le> 8"
    "addr_len (src_addr_mode (fcf p)) \<le> 8" "addr_len 0 = 0"
    using assms by (auto simp: frame_wf_def addr_len_def mode_defs)
  have aux: "aux_wf (aux_hdr p)" using assms by (simp add: frame_wf_def)
  then have k: "unat (key_id_mode (aux_hdr p)) < 4" "length (key_source (aux_hdr p)) = 8" "length (frame_counter (aux_hdr p)) = 4"
    by (auto simp: aux_wf_def word_less_nat_alt)
  have "key_id_mode (aux_hdr p) \<in> {0, 1, 2, 3}"
  proof -
    have "unat (key_id_mode (aux_hdr p)) \<in> {0, 1, 2, 3}" using k(1) by auto
    then show ?thesis by (auto simp: word_unat_eq_iff)
  qed
  then have aux_len: "length (aux_bytes (aux_hdr p)) = 5 + get_key_id_len (key_id_mode (aux_hdr p))"
    "get_key_id_len (key_id_mode (aux_hdr p)) \<le> 9"
    using k by (auto simp: aux_bytes_def get_key_id_len_def)
  have d: "length (dest_bytes p) = (if dest_addr_mode (fcf p) \<noteq> 0 then 2 else 0) + addr_len (dest_addr_mode (fcf p))"
    "length (src_bytes p) = (if compressed p then 0 else if src_addr_mode (fcf p) \<noteq> 0 then 2 else 0) +
      addr_len (src_addr_mode (fcf p))"
    using a by (auto simp: dest_bytes_def src_bytes_def pid_bytes_def compressed_def)
  show "frame802154_hdrlen p = (p\<lparr>fcf := sent_fcf p\<rparr>, length (frame_bytes p))"
    by (simp add: frame802154_hdrlen_def field_len_wf [OF assms] frame_bytes_def d aux_len)
  show "length (frame_bytes p) \<le> 37" "3 \<le> length (frame_bytes p)"
    using a(3,4) aux_len(2) by (auto simp: frame_bytes_def d aux_len(1) a(5))
qed

text \<open>
  C18. A header that is created for fields in their ranges takes exactly the
  bytes \<open>frame802154_hdrlen\<close> announces, at most 37, and leaves the buffer behind
  them alone; and parsing the buffer gives the fields back - PAN identifiers
  restored from their compressed form, addresses, frame counter and key source
  included - and the position of the payload.
\<close>

theorem frame802154_roundtrip:
  assumes "frame_wf p" and "length (key_source (aux_hdr pf)) = 8" and "37 \<le> length buf" and "37 \<le> len"
  shows "\<exists>p' n buf'. frame802154_hdrlen p = (p', n) \<and> frame802154_create p buf = Some (p', buf', n) \<and> n \<le> 37 \<and>
    length buf' = length buf \<and> drop n buf' = drop n buf \<and>
    frame802154_parse buf' len pf = Some (int n, received p (drop n buf) len pf)"
proof -
  let ?n = "length (frame_bytes p)" and ?buf' = "frame_bytes p @ drop (length (frame_bytes p)) buf"
  note h = frame_hdrlen [OF assms(1)]
  have "frame802154_create p buf = Some (p\<lparr>fcf := sent_fcf p\<rparr>, ?buf', ?n)"
    using h(2) assms(3) by (simp add: frame_create_bytes [OF assms(1)] puts_0)
  moreover have "frame802154_parse ?buf' len pf = Some (int ?n, received p (drop ?n buf) len pf)"
    using h(2) assms by (intro frame_parse_bytes) simp_all
  ultimately show ?thesis using h assms(3)
    by (intro exI [of _ "p\<lparr>fcf := sent_fcf p\<rparr>"] exI [of _ ?n] exI [of _ ?buf']) simp
qed

definition example_frame :: frame802154 where
  "example_frame = \<lparr>dest_addr = [1, 2, 3, 4, 5, 6, 7, 8], src_addr = [9, 8, 7, 6, 5, 4, 3, 2],
     fcf = \<lparr>frame_type = 1, security_enabled = 1, frame_pending = 0, ack_required = 1, panid_compression = 0,
       dest_addr_mode = 3, frame_version = 1, src_addr_mode = 2\<rparr>,
     seq = 42, dest_pid = 0xabcd, src_pid = 0xabcd,
     aux_hdr = \<lparr>security_level = 5, key_id_mode = 2, frame_counter = [1, 0, 0, 0], key_source = [1, 2, 3, 4, 0, 0, 0, 0], key_index = 7\<rparr>,
     payload = [], payload_len = 0\<rparr>"

lemma frame802154_roundtrip_witness:
  "\<exists>buf' pf'. frame802154_create example_frame (replicate 40 0) = Some (example_frame\<lparr>fcf := sent_fcf example_frame\<rparr>, buf', 25) \<and>
     frame802154_parse buf' 40 example_frame = Some (25, pf') \<and> src_pid pf' = 0xabcd \<and> key_index (aux_hdr pf') = 7"
proof -
  have wf: "frame_wf example_frame" by (simp add: example_frame_def frame_wf_def fcf_wf_def aux_wf_def mode_defs)
  have n: "length (frame_bytes example_frame) = 25"
    by (simp add: example_frame_def frame_bytes_def dest_bytes_def src_bytes_def compressed_def pid_bytes_def addr_len_def
        aux_bytes_def mode_defs)
  have "length (key_source (aux_hdr example_frame)) = 8" by (simp add: example_frame_def)
  from frame802154_roundtrip [of example_frame example_frame "replicate 40 0" 40, OF wf this] frame_hdrlen(1) [OF wf] n
  show ?thesis by (auto simp: received_def Let_def) (simp_all add: example_frame_def)
qed

text \<open>
  The parser compares the length only after it has read the header: on a frame
  that ends right behind the sequence number, but announces a destination, it
  reads past the end of the array.
\<close>

lemma frame802154_parse_overread:
  "drop_bit 2 b1 AND 3 \<noteq> 0 \<Longrightarrow> frame802154_parse [b0, b1, b2] 3 pf = None"
  by (simp add: frame802154_parse_def parse_dest_def parse_fcf_def)

end
