(* ===== verification/Framer.thy ===== *)
theory Framer
  imports Packetbuf Frame802154
begin

text \<open>
  The 802.15.4 framer, \<open>core/net/mac/framer-802154.c\<close>: it puts the frame header
  described by the attributes of the packet buffer in front of the packet, and
  takes the header of a received frame off into the attributes. The counters
  and the key source are unions: their 16-bit halves are little-endian.
\<close>

section \<open>State\<close>

record framer =
  mac_dsn :: u8
  initialized :: bool

definition IEEE802154_PANID :: u16 where "IEEE802154_PANID = 0xABCD"
definition FRAMER_FAILED :: int where "FRAMER_FAILED = - 1"

definition u16_bytes :: "u16 \<Rightarrow> u8 list" where
  "u16_bytes w = [ucast w, ucast (drop_bit 8 w)]"

definition bytes_u16 :: "nat \<Rightarrow> u8 list \<Rightarrow> u16" where
  "bytes_u16 i bs = of_be16 (bs ! (2 * i + 1)) (bs ! (2 * i))"

section \<open>Operations\<close>

fun all_ff :: "nat \<Rightarrow> u8 list \<Rightarrow> bool" where
  "all_ff 0 addr = True"
| "all_ff (Suc i) addr = (if addr ! i \<noteq> 0xff then False else all_ff i addr)"

definition is_broadcast_addr :: "u8 \<Rightarrow> u8 list \<Rightarrow> bool" where
  "is_broadcast_addr mode addr = all_ff (if mode = FRAME802154_SHORTADDRMODE then 2 else 8) addr"

text \<open>The sequence number of a frame to be created; 0 is not used.\<close>

definition next_seqno :: "bool \<Rightarrow> framer \<Rightarrow> packetbuf \<Rightarrow> (u8 \<times> framer \<times> packetbuf) option" where
  "next_seqno do_create fr pb = (if \<not> do_create then Some (0, fr, pb) else do {
     s \<leftarrow> packetbuf_attr PACKETBUF_ATTR_MAC_SEQNO pb;
     (if s \<noteq> 0 then Some (ucast s, fr, pb)
      else let dsn = (if mac_dsn fr = 0 then mac_dsn fr + 1 else mac_dsn fr) in do {
        pb \<leftarrow> packetbuf_set_attr PACKETBUF_ATTR_MAC_SEQNO (ucast dsn) pb;
        Some (dsn, fr\<lparr>mac_dsn := dsn + 1\<rparr>, pb)
      })
   })"

text \<open>The parameters of the frame, from the attributes; \<open>type\<close> is not used.\<close>

definition frame_params :: "linkaddr \<Rightarrow> u8 \<Rightarrow> packetbuf \<Rightarrow> frame802154 option" where
  "frame_params node_addr sq pb = do {
     ftype \<leftarrow> packetbuf_attr PACKETBUF_ATTR_FRAME_TYPE pb;
     pending \<leftarrow> packetbuf_attr PACKETBUF_ATTR_PENDING pb;
     broadcast \<leftarrow> packetbuf_holds_broadcast pb;
     ack \<leftarrow> packetbuf_attr PACKETBUF_ATTR_MAC_ACK pb;
     level \<leftarrow> packetbuf_attr PACKETBUF_ATTR_SECURITY_LEVEL pb;
     ctr0 \<leftarrow> packetbuf_attr PACKETBUF_ATTR_FRAME_COUNTER_BYTES_0_1 pb;
     ctr1 \<leftarrow> packetbuf_attr PACKETBUF_ATTR_FRAME_COUNTER_BYTES_2_3 pb;
     mode \<leftarrow> packetbuf_attr PACKETBUF_ATTR_KEY_ID_MODE pb;
     index \<leftarrow> packetbuf_attr PACKETBUF_ATTR_KEY_INDEX pb;
     source \<leftarrow> packetbuf_attr PACKETBUF_ATTR_KEY_SOURCE_BYTES_0_1 pb;
     receiver \<leftarrow> packetbuf_addr PACKETBUF_ADDR_RECEIVER pb;
     Some \<lparr>
       dest_addr = (if broadcast then (replicate 8 0)[0 := 0xff, 1 := 0xff] else linkaddr_copy (replicate 8 0) receiver),
       src_addr = linkaddr_copy (replicate 8 0) node_addr,
       fcf = \<lparr>frame_type = ucast ftype, security_enabled = (if level \<noteq> 0 then 1 else 0), frame_pending = ucast pending,
         ack_required = (if broadcast then 0 else ucast ack), panid_compression = 0,
         dest_addr_mode = (if broadcast then FRAME802154_SHORTADDRMODE
           else if LINKADDR_SIZE = 2 then FRAME802154_SHORTADDRMODE else FRAME802154_LONGADDRMODE),
         frame_version = FRAME802154_IEEE802154_2006,
         src_addr_mode = (if LINKADDR_SIZE = 2 then FRAME802154_SHORTADDRMODE else FRAME802154_LONGADDRMODE)\<rparr>,
       seq = sq, dest_pid = IEEE802154_PANID, src_pid = IEEE802154_PANID,
       aux_hdr = \<lparr>security_level = ucast level, key_id_mode = ucast mode, frame_counter = u16_bytes ctr0 @ u16_bytes ctr1,
         key_source = u16_bytes source @ replicate 6 0, key_index = ucast index\<rparr>,
       payload = drop (packetbuf_dataptr pb) (packetbuf_bytes pb), payload_len = uint (packetbuf_datalen pb)\<rparr>
   }"

definition create_frame :: "u16 \<Rightarrow> linkaddr \<Rightarrow> u8 \<Rightarrow> bool \<Rightarrow> framer \<Rightarrow> packetbuf \<Rightarrow> (int \<times> framer \<times> packetbuf) option" where
  "create_frame rnd node_addr type do_create fr pb = (
     let fr = (if initialized fr then fr else fr\<lparr>initialized := True, mac_dsn := ucast (rnd AND 0xff)\<rparr>) in do {
       (sq, fr, pb) \<leftarrow> next_seqno do_create fr pb;
       params \<leftarrow> frame_params node_addr sq pb;
       let (params, hdr_len) = frame802154_hdrlen params;
       (if \<not> do_create then Some (int hdr_len, fr, pb)
        else let (r, pb) = packetbuf_hdralloc (int hdr_len) pb in
          if r \<noteq> 0 then do {
            (_, buf, _) \<leftarrow> frame802154_create params (drop (packetbuf_hdrptr pb) (packetbuf_bytes pb));
            Some (int hdr_len, fr, pb\<lparr>packetbuf_bytes := take (packetbuf_hdrptr pb) (packetbuf_bytes pb) @ buf\<rparr>)
          } else Some (FRAMER_FAILED, fr, pb))
     })"

definition hdr_length :: "u16 \<Rightarrow> linkaddr \<Rightarrow> framer \<Rightarrow> packetbuf \<Rightarrow> (int \<times> framer \<times> packetbuf) option" where
  "hdr_length rnd node_addr = create_frame rnd node_addr FRAME802154_DATAFRAME False"

definition create :: "u16 \<Rightarrow> linkaddr \<Rightarrow> framer \<Rightarrow> packetbuf \<Rightarrow> (int \<times> framer \<times> packetbuf) option" where
  "create rnd node_addr = create_frame rnd node_addr FRAME802154_DATAFRAME True"

text \<open>The local variable \<open>frame\<close> starts out with any contents.\<close>

definition set_security :: "frame802154 \<Rightarrow> packetbuf \<Rightarrow> packetbuf option" where
  "set_security frame pb = (if security_enabled (fcf frame) \<noteq> 0 then do {
     pb \<leftarrow> packetbuf_set_attr PACKETBUF_ATTR_SECURITY_LEVEL (ucast (security_level (aux_hdr frame))) pb;
     pb \<leftarrow> packetbuf_set_attr PACKETBUF_ATTR_FRAME_COUNTER_BYTES_0_1 (bytes_u16 0 (frame_counter (aux_hdr frame))) pb;
     pb \<leftarrow> packetbuf_set_attr PACKETBUF_ATTR_FRAME_COUNTER_BYTES_2_3 (bytes_u16 1 (frame_counter (aux_hdr frame))) pb;
     pb \<leftarrow> packetbuf_set_attr PACKETBUF_ATTR_KEY_ID_MODE (ucast (key_id_mode (aux_hdr frame))) pb;
     pb \<leftarrow> packetbuf_set_attr PACKETBUF_ATTR_KEY_INDEX (ucast (key_index (aux_hdr frame))) pb;
     packetbuf_set_attr PACKETBUF_ATTR_KEY_SOURCE_BYTES_0_1 (bytes_u16 0 (key_source (aux_hdr frame))) pb
   } else Some pb)"

definition parse :: "frame802154 \<Rightarrow> packetbuf \<Rightarrow> (int \<times> packetbuf) option" where
  "parse frame pb = do {
     (hdr_len, frame) \<leftarrow> frame802154_parse (drop (packetbuf_dataptr pb) (packetbuf_bytes pb)) (uint (packetbuf_datalen pb)) frame;
     let (r, pb) = (if hdr_len \<noteq> 0 then packetbuf_hdrreduce hdr_len pb else (0, pb));
     (if hdr_len \<noteq> 0 \<and> r \<noteq> 0 then do {
        pb \<leftarrow> packetbuf_set_attr PACKETBUF_ATTR_FRAME_TYPE (ucast (frame_type (fcf frame))) pb;
        (if dest_addr_mode (fcf frame) \<noteq> 0 \<and> dest_pid frame \<noteq> IEEE802154_PANID \<and> dest_pid frame \<noteq> FRAME802154_BROADCASTPANDID
         then Some (FRAMER_FAILED, pb)
         else do {
           pb \<leftarrow> (if dest_addr_mode (fcf frame) \<noteq> 0 \<and> \<not> is_broadcast_addr (dest_addr_mode (fcf frame)) (dest_addr frame)
             then packetbuf_set_addr PACKETBUF_ADDR_RECEIVER (dest_addr frame) pb else Some pb);
           pb \<leftarrow> packetbuf_set_addr PACKETBUF_ADDR_SENDER (src_addr frame) pb;
           pb \<leftarrow> packetbuf_set_attr PACKETBUF_ATTR_PENDING (ucast (frame_pending (fcf frame))) pb;
           pb \<leftarrow> packetbuf_set_attr PACKETBUF_ATTR_MAC_SEQNO (ucast (seq frame)) pb;
           pb \<leftarrow> set_security frame pb;
           Some (hdr_len, pb)
         })
      } else Some (FRAMER_FAILED, pb))
   }"

section \<open>Attributes\<close>

lemmas attr_consts = PACKETBUF_ATTR_MAC_SEQNO_def PACKETBUF_ATTR_MAC_ACK_def PACKETBUF_ATTR_PENDING_def
  PACKETBUF_ATTR_FRAME_TYPE_def PACKETBUF_ATTR_SECURITY_LEVEL_def PACKETBUF_ATTR_FRAME_COUNTER_BYTES_0_1_def
  PACKETBUF_ATTR_FRAME_COUNTER_BYTES_2_3_def PACKETBUF_ATTR_KEY_ID_MODE_def PACKETBUF_ATTR_KEY_INDEX_def
  PACKETBUF_ATTR_KEY_SOURCE_BYTES_0_1_def PACKETBUF_ADDR_FIRST_def PACKETBUF_ADDR_SENDER_def PACKETBUF_ADDR_RECEIVER_def

lemmas attr_ops = packetbuf_attr_def packetbuf_set_attr_def packetbuf_addr_def packetbuf_set_addr_def Let_def

text \<open>What the upper layers have to see to: attributes in the range of their fields.\<close>

definition attrs_ok :: "packetbuf \<Rightarrow> bool" where
  "attrs_ok pb \<longleftrightarrow> pb_ok pb \<and> length (packetbuf_addrs pb ! 1) = 8 \<and> packetbuf_addrs pb ! 1 \<noteq> replicate 8 0xff \<and>
     packetbuf_attrs pb ! 14 < 8 \<and> packetbuf_attrs pb ! 13 \<le> 1 \<and> packetbuf_attrs pb ! 11 \<le> 1 \<and>
     packetbuf_attrs pb ! 15 < 8 \<and> packetbuf_attrs pb ! 18 < 4 \<and> packetbuf_attrs pb ! 19 < 256 \<and>
     packetbuf_attrs pb ! 10 < 256"

lemma pb_lengths: "pb_ok pb \<Longrightarrow> length (packetbuf_attrs pb) = 21 \<and> length (packetbuf_addrs pb) = 2"
  by (simp add: pb_ok_def PACKETBUF_NUM_ATTRS_def PACKETBUF_NUM_ADDRS_def PACKETBUF_ATTR_MAX_def)

definition sent_frame :: "linkaddr \<Rightarrow> u8 \<Rightarrow> packetbuf \<Rightarrow> frame802154" where
  "sent_frame node sq pb = (let as = packetbuf_attrs pb; to = packetbuf_addrs pb ! 1; bc = (to = linkaddr_null) in
     \<lparr>dest_addr = (if bc then [0xff, 0xff, 0, 0, 0, 0, 0, 0] else to), src_addr = node,
      fcf = \<lparr>frame_type = ucast (as ! 14), security_enabled = (if as ! 15 \<noteq> 0 then 1 else 0), frame_pending = ucast (as ! 13),
         ack_required = (if bc then 0 else ucast (as ! 11)), panid_compression = 0,
         dest_addr_mode = (if bc then 2 else 3), frame_version = 1, src_addr_mode = 3\<rparr>,
       seq = sq, dest_pid = 0xABCD, src_pid = 0xABCD,
       aux_hdr = \<lparr>security_level = ucast (as ! 15), key_id_mode = ucast (as ! 18),
         frame_counter = u16_bytes (as ! 16) @ u16_bytes (as ! 17),
         key_source = u16_bytes (as ! 20) @ replicate 6 0, key_index = ucast (as ! 19)\<rparr>,
       payload = drop (packetbuf_dataptr pb) (packetbuf_bytes pb), payload_len = uint (packetbuf_datalen pb)\<rparr>)"

lemma frame_params_sent:
  assumes "attrs_ok pb" and "length node = 8"
  shows "frame_params node sq pb = Some (sent_frame node sq pb)"
proof -
  have l: "length (packetbuf_attrs pb) = 21" "length (packetbuf_addrs pb) = 2" "length (packetbuf_addrs pb ! 1) = 8"
    using assms(1) pb_lengths by (auto simp: attrs_ok_def)
  have bc: "packetbuf_holds_broadcast pb = Some (packetbuf_addrs pb ! 1 = linkaddr_null)"
    using l by (simp add: packetbuf_holds_broadcast_def attr_ops attr_consts linkaddr_cmp_def linkaddr_null_def LINKADDR_SIZE_def)
  have ff: "(replicate 8 (0 :: u8))[0 := 0xff, Suc 0 := 0xff] = [0xff, 0xff, 0, 0, 0, 0, 0, 0]"
    by (simp add: eval_nat_numeral)
  show ?thesis
    using l assms(2) by (simp add: ff frame_params_def bc attr_ops attr_consts sent_frame_def linkaddr_copy_def LINKADDR_SIZE_def
        mode_defs FRAME802154_IEEE802154_2006_def IEEE802154_PANID_def)
qed

lemma ucast_back: "unat (w :: u16) < 256 \<Longrightarrow> ucast (ucast w :: u8) = w"
  by (simp add: word_unat_eq_iff unsigned_ucast_eq unsigned_take_bit_eq take_bit_nat_eq_self)

lemma unat_ucast_u8: "unat (ucast (w :: u8) :: u16) = unat w"
  using unat_u8 [of w] by (simp add: unsigned_ucast_eq take_bit_nat_eq_self)

lemma attrs_small:
  assumes "attrs_ok pb"
  shows "unat (packetbuf_attrs pb ! 14) < 8" "unat (packetbuf_attrs pb ! 13) \<le> 1" "unat (packetbuf_attrs pb ! 11) \<le> 1"
    "unat (packetbuf_attrs pb ! 15) < 8" "unat (packetbuf_attrs pb ! 18) < 4" "unat (packetbuf_attrs pb ! 19) < 256"
    "unat (packetbuf_attrs pb ! 10) < 256"
  using assms by (auto simp: attrs_ok_def word_less_nat_alt word_le_nat_alt)

lemma unat_ucast_small: "unat (w :: u16) < 256 \<Longrightarrow> unat (ucast w :: u8) = unat w"
  by (simp add: unsigned_ucast_eq take_bit_nat_eq_self)

lemma sent_frame_wf:
  assumes "attrs_ok pb" and "length node = 8"
  shows "frame_wf (sent_frame node sq pb)"
proof -
  note a = attrs_small [OF assms(1)]
  have "unat (ucast (packetbuf_attrs pb ! i) :: u8) = unat (packetbuf_attrs pb ! i)" if "i \<in> {11, 13, 14, 15, 18}" for i
    using that a by (auto intro!: unat_ucast_small)
  then show ?thesis using a assms
    by (auto simp: sent_frame_def Let_def frame_wf_def fcf_wf_def aux_wf_def mode_defs attrs_ok_def u16_bytes_def
        word_less_nat_alt word_le_nat_alt)
qed

section \<open>Creating\<close>

lemma create_in_place:
  assumes "frame_wf p" and "pb_ok pb" and "pkt pb = (h, c, d)"
    and "packetbuf_hdralloc (int (length (frame_bytes p))) pb = (1, pb1)"
  shows "\<exists>p' n buf. frame802154_create p (drop (packetbuf_hdrptr pb1) (packetbuf_bytes pb1)) = Some (p', buf, n) \<and>
    pb_push (frame_bytes p) pb = Some (1, pb1\<lparr>packetbuf_bytes := take (packetbuf_hdrptr pb1) (packetbuf_bytes pb1) @ buf\<rparr>)"
proof -
  let ?n = "length (frame_bytes p)" and ?q = "packetbuf_hdrptr pb1" and ?b = "packetbuf_bytes pb1"
  have h: "int ?n \<le> uint (hdrptr pb)" "pb1 = pb\<lparr>hdrptr := hdrptr pb - of_nat ?n\<rparr>"
    using assms(4) by (auto simp: packetbuf_hdralloc_def split: if_splits)
  then have n: "?n \<le> unat (hdrptr pb)" by (simp add: int_le_uint)
  then have "?q = unat (hdrptr pb) - ?n" using h(2) by (simp add: packetbuf_hdrptr_def unat_sub_of_nat)
  moreover have "unat (hdrptr pb) \<le> 48" "length ?b = 176" using assms(2) h(2) by (auto simp: pb_ok_def pb_defs)
  ultimately have le: "?q + ?n \<le> length ?b" using n by linarith
  then have "frame802154_create p (drop ?q ?b) = Some (p\<lparr>fcf := sent_fcf p\<rparr>, frame_bytes p @ drop ?n (drop ?q ?b), ?n)"
    by (simp add: frame_create_bytes [OF assms(1)] puts_0)
  moreover have "write_bytes ?q (frame_bytes p) ?b = Some (take ?q ?b @ frame_bytes p @ drop ?n (drop ?q ?b))"
    using le by (simp add: write_bytes_def add.commute)
  ultimately show ?thesis using assms(4) by (simp add: pb_push_def)
qed

lemma sent_again:
  assumes "frame_wf p" and "frame802154_create p buf = Some (p', buf', n)"
  obtains p'' where "frame802154_create (p\<lparr>fcf := sent_fcf p\<rparr>) buf = Some (p'', buf', n)"
proof -
  let ?p = "p\<lparr>fcf := sent_fcf p\<rparr>"
  have "frame_wf ?p" using assms(1) by (simp add: frame_wf_def fcf_wf_def sent_fcf_def)
  moreover have "compressed ?p = compressed p" by (simp add: compressed_def sent_fcf_def)
  then have "sent_fcf ?p = sent_fcf p" "dest_bytes ?p = dest_bytes p" "src_bytes ?p = src_bytes p"
    by (simp_all add: sent_fcf_def dest_bytes_def src_bytes_def)
  then have "frame_bytes ?p = frame_bytes p" by (simp add: frame_bytes_def) (simp add: sent_fcf_def)
  ultimately show thesis using assms that
    by (cases "puts (frame_bytes p) (buf, 0)") (auto simp: frame_create_bytes)
qed

text \<open>
  What creating a frame does: it fails when the header does not fit, or puts
  the header in front of the packet.
\<close>

lemma create_correct:
  assumes "attrs_ok pb" and "length node = 8" and "pkt pb = (h, c, d)"
  shows "\<exists>sq fr' pb' n. create rnd node fr pb = Some (n, fr', pb') \<and> sq \<noteq> 0 \<and>
    (packetbuf_attrs pb ! 10 \<noteq> 0 \<longrightarrow> ucast sq = packetbuf_attrs pb ! 10) \<and>
    (n = FRAMER_FAILED \<and> (11 < length h \<or> 91 < (if h = [] then c else length h) + length d) \<or>
     n = int (length (frame_bytes (sent_frame node sq pb))) \<and> pb_ok pb' \<and> packetbuf_attrs pb' = (packetbuf_attrs pb)[10 := ucast sq] \<and>
     pkt pb' = (frame_bytes (sent_frame node sq pb) @ h, c, d))"
proof -
  have l: "length (packetbuf_attrs pb) = 21" "length (packetbuf_addrs pb) = 2" and ok: "pb_ok pb"
    using assms(1) pb_lengths by (auto simp: attrs_ok_def)
  define fr0 where "fr0 = (if initialized fr then fr else fr\<lparr>initialized := True, mac_dsn := ucast (rnd AND 0xff)\<rparr>)"
  obtain sq fr1 pb1 where seqno: "next_seqno True fr0 pb = Some (sq, fr1, pb1)" "sq \<noteq> 0"
    "packetbuf_attrs pb ! 10 \<noteq> 0 \<longrightarrow> ucast sq = packetbuf_attrs pb ! 10"
    "pb1 = pb\<lparr>packetbuf_attrs := (packetbuf_attrs pb)[10 := ucast sq]\<rparr>"
  proof (cases "packetbuf_attrs pb ! 10 = 0")
    case True
    then show ?thesis using l
      by (intro that [of "if mac_dsn fr0 = 0 then 1 else mac_dsn fr0"
          "fr0\<lparr>mac_dsn := (if mac_dsn fr0 = 0 then 1 else mac_dsn fr0) + 1\<rparr>"]) (auto simp: next_seqno_def attr_ops attr_consts)
  next
    case False
    have uu: "ucast (ucast (packetbuf_attrs pb ! 10) :: u8) = packetbuf_attrs pb ! 10"
      using attrs_small(7) [OF assms(1)] by (rule ucast_back)
    then have "ucast (packetbuf_attrs pb ! 10) \<noteq> (0 :: u8)" using False by auto
    with False uu show ?thesis using l
      by (intro that [of "ucast (packetbuf_attrs pb ! 10)"]) (auto simp: next_seqno_def attr_ops attr_consts list_update_id)
  qed
  let ?P = "sent_frame node sq pb"
  have "(ucast sq :: u16) < 256" using unat_u8 [of sq] by (simp add: word_less_nat_alt unat_ucast_u8)
  moreover have "pb_ok pb1" using ok seqno(4) by (simp add: pb_ok_def)
  ultimately have "attrs_ok pb1" using assms(1) l unfolding seqno(4) attrs_ok_def by (simp add: nth_list_update)
  moreover have same: "sent_frame node sq pb1 = ?P" unfolding seqno(4) using l
    by (simp add: sent_frame_def Let_def nth_list_update packetbuf_dataptr_def packetbuf_datalen_def)
  ultimately have params: "frame_params node sq pb1 = Some ?P" using frame_params_sent [of pb1 node sq] assms(2) by simp
  have wf: "frame_wf ?P" using assms(1,2) by (rule sent_frame_wf)
  have ok1: "pb_ok pb1" "pkt pb1 = (h, c, d)" using ok assms(3) l unfolding seqno(4)
    by (auto simp: pb_ok_def pkt_def)
  let ?n = "length (frame_bytes ?P)"
  note code = create_def create_frame_def fr0_def [symmetric] seqno(1) params Let_def frame_hdrlen(1) [OF wf]
  show ?thesis
  proof (cases "packetbuf_hdralloc (int ?n) pb1")
    case (Pair r pb2)
    show ?thesis
    proof (cases "r = 0")
      case True
      have "create rnd node fr pb = Some (FRAMER_FAILED, fr1, pb2)" using Pair True by (simp add: code)
      moreover have "pb_push (frame_bytes ?P) pb1 = Some (0, pb2)" using Pair True by (simp add: pb_push_def)
      then have "refines (Some (0, pb2)) (pkt_exec (Push (frame_bytes ?P)) (h, c, d))"
        using pb_push_correct [OF ok1, of "frame_bytes ?P"] by simp
      then have "\<not> (length h + ?n \<le> 48 \<and> (if h = [] then c else length h) + length d + ?n \<le> 128)"
        by (auto simp: refines_def split: if_splits)
      with frame_hdrlen(2) [OF wf] have "(11 < length h \<or> 91 < (if h = [] then c else length h) + length d)" by auto
      ultimately show ?thesis using seqno(2,3) by blast
    next
      case False
      then have r: "r = 1" using Pair by (auto simp: packetbuf_hdralloc_def split: if_splits)
      from create_in_place [OF wf ok1 Pair [unfolded r]]
      obtain p' n buf where c: "frame802154_create ?P (drop (packetbuf_hdrptr pb2) (packetbuf_bytes pb2)) = Some (p', buf, n)"
        "pb_push (frame_bytes ?P) pb1 = Some (1, pb2\<lparr>packetbuf_bytes := take (packetbuf_hdrptr pb2) (packetbuf_bytes pb2) @ buf\<rparr>)"
        by blast
      let ?pb3 = "pb2\<lparr>packetbuf_bytes := take (packetbuf_hdrptr pb2) (packetbuf_bytes pb2) @ buf\<rparr>"
      have "create rnd node fr pb = Some (int ?n, fr1, ?pb3)"
        using Pair r by (rule_tac sent_again [OF wf c(1)]) (simp add: code)
      moreover have "refines (Some (1, ?pb3)) (pkt_exec (Push (frame_bytes ?P)) (h, c, d))"
        using pb_push_correct [OF ok1, of "frame_bytes ?P"] c(2) by (simp only:)
      then have "pb_ok ?pb3" "pkt ?pb3 = (frame_bytes ?P @ h, c, d)"
        by (auto simp: refines_def split: if_splits)
      moreover have "packetbuf_attrs ?pb3 = packetbuf_attrs pb1"
        using Pair r by (auto simp: packetbuf_hdralloc_def split: if_splits)
      then have "packetbuf_attrs ?pb3 = (packetbuf_attrs pb)[10 := ucast sq]" using seqno(4) by simp
      ultimately show ?thesis using seqno(2,3) by blast
    qed
  qed
qed

section \<open>Parsing\<close>

lemma set_attr_pkt: "packetbuf_set_attr t v pb = Some pb' \<Longrightarrow> pkt pb' = pkt pb"
  by (auto simp: packetbuf_set_attr_def pkt_def split: if_splits)

lemma bytes_u16_halves: "bytes_u16 0 (u16_bytes a @ u16_bytes b) = a" "bytes_u16 1 (u16_bytes a @ u16_bytes b) = b"
  "bytes_u16 (Suc 0) (u16_bytes a @ u16_bytes b) = b" "bytes_u16 0 (u16_bytes a @ bs) = a"
  by (simp_all add: bytes_u16_def u16_bytes_def of_be16_be16)

lemma all_ff_8: "length a = 8 \<Longrightarrow> all_ff 8 a = (a = replicate 8 0xff)"
proof -
  assume "length a = 8"
  then obtain a0 a1 a2 a3 a4 a5 a6 a7 where "a = [a0, a1, a2, a3, a4, a5, a6, a7]" using list8 [of a] by auto
  then show ?thesis by (auto simp: eval_nat_numeral)
qed

text \<open>The fields a received frame shares with the sent one; keys only as far as they are sent.\<close>

definition same_fields :: "packetbuf \<Rightarrow> packetbuf \<Rightarrow> bool" where
  "same_fields pa pb \<longleftrightarrow> (let as = packetbuf_attrs pa; bs = packetbuf_attrs pb in
     (\<forall>i \<in> {10, 13, 14}. bs ! i = as ! i) \<and>
     (as ! 15 \<noteq> 0 \<longrightarrow> (\<forall>i \<in> {15, 16, 17, 18}. bs ! i = as ! i) \<and>
       (as ! 18 \<noteq> 0 \<longrightarrow> bs ! 19 = as ! 19) \<and> (1 < as ! 18 \<longrightarrow> bs ! 20 = as ! 20)))"

lemma parse_correct:
  assumes "attrs_ok pa" and "length node = 8" and "packetbuf_attrs pa' = (packetbuf_attrs pa)[10 := ucast sq]"
    and "pb_ok pb" and "pkt pb = ([], 0, frame_bytes (sent_frame node sq pa) @ r)"
    and "packetbuf_addrs pb ! 1 = linkaddr_null" and "length (key_source (aux_hdr frame)) = 8"
    and "\<forall>a \<in> set (packetbuf_addrs pb). length a = 8"
  shows "\<exists>pb'. parse frame pb = Some (int (length (frame_bytes (sent_frame node sq pa))), pb') \<and>
    pkt pb' = ([], length (frame_bytes (sent_frame node sq pa)), r) \<and> packetbuf_addrs pb' = [node, packetbuf_addrs pa ! 1] \<and>
    same_fields pa' pb'"
proof -
  let ?P = "sent_frame node sq pa" and ?n = "length (frame_bytes (sent_frame node sq pa))"
  note wf = sent_frame_wf [OF assms(1,2), of sq]
  have l: "length (packetbuf_attrs pa) = 21" "length (packetbuf_addrs pa) = 2"
    "length (packetbuf_attrs pb) = 21" "length (packetbuf_addrs pb) = 2"
    using assms(1,4) pb_lengths by (auto simp: attrs_ok_def)
  obtain pre gap post where b: "packetbuf_bytes pb = pre @ [] @ gap @ (frame_bytes ?P @ r) @ post" "unat (hdrptr pb) = length pre"
    "length pre + length ([] :: u8 list) = 48" "length gap = 0" "unat (bufptr pb) = 0" "unat (buflen pb) = length (frame_bytes ?P @ r)"
    "0 + length (frame_bytes ?P @ r) + length post = 128" "length ([] :: u8 list) + length (frame_bytes ?P @ r) \<le> 128"
    using assms(4,5) by (rule pktE)
  have data: "drop (packetbuf_dataptr pb) (packetbuf_bytes pb) = frame_bytes ?P @ r @ post"
    using b by (simp add: packetbuf_dataptr_def pb_defs)
  have len: "uint (packetbuf_datalen pb) = int (?n + length r)"
    by (simp only: packetbuf_datalen_def uint_nat b(6) length_append)
  define F where "F = received ?P (r @ post) (int (?n + length r)) frame"
  have pf: "frame802154_parse (frame_bytes ?P @ r @ post) (int (?n + length r)) frame = Some (int ?n, F)"
    unfolding F_def using wf assms(7) by (intro frame_parse_bytes) simp_all
  have "refines (Some (packetbuf_hdrreduce (int ?n) pb)) (1, [], ?n, r)"
    using pb_strip_correct [OF assms(4,5), of ?n] by simp
  then obtain pb1 where pb1: "packetbuf_hdrreduce (int ?n) pb = (1, pb1)" "pb_ok pb1" "pkt pb1 = ([], ?n, r)"
    by (auto simp: refines_def)
  then have same: "packetbuf_attrs pb1 = packetbuf_attrs pb" "packetbuf_addrs pb1 = packetbuf_addrs pb"
    by (auto simp: packetbuf_hdrreduce_def split: if_splits)
  let ?as = "packetbuf_attrs pa" and ?to = "packetbuf_addrs pa ! 1"
  let ?bc = "?to = linkaddr_null"
  have to: "length ?to = 8" "?to \<noteq> replicate 8 0xff" using assms(1) by (auto simp: attrs_ok_def)
  have rep6: "replicate 6 (0 :: u8) = [0, 0, 0, 0, 0, 0]" by (simp add: eval_nat_numeral)
  have F: "frame_type (fcf F) = ucast (?as ! 14)" "frame_pending (fcf F) = ucast (?as ! 13)"
    "security_enabled (fcf F) = (if ?as ! 15 \<noteq> 0 then 1 else 0)" "dest_addr_mode (fcf F) = (if ?bc then 2 else 3)"
    "dest_pid F = 0xABCD" "seq F = sq" "src_addr F = node"
    "dest_addr F = (if ?bc then [0xff, 0xff, 0, 0, 0, 0, 0, 0] else ?to)"
    by (simp_all add: F_def received_def sent_frame_def sent_fcf_def Let_def received_addr_def mode_defs rep6)
  have bc: "is_broadcast_addr (dest_addr_mode (fcf F)) (dest_addr F) = ?bc"
    using to all_ff_8 [of ?to] unfolding F is_broadcast_addr_def by (simp add: mode_defs) (simp add: eval_nat_numeral)
  obtain a0 where addrs: "packetbuf_addrs pb = [a0, linkaddr_null]" "length a0 = 8" "length linkaddr_null = 8"
    using l(4) assms(6,8) by (auto simp: numeral_2_eq_2 length_Suc_conv)
  let ?as1 = "(packetbuf_attrs pb)[14 := ?as ! 14, 13 := ?as ! 13, 10 := ucast sq]"
  let ?A = "aux_hdr F"
  let ?as2 = "if ?as ! 15 \<noteq> 0 then ?as1[15 := ucast (security_level ?A), 16 := bytes_u16 0 (frame_counter ?A),
    17 := bytes_u16 1 (frame_counter ?A), 18 := ucast (key_id_mode ?A), 19 := ucast (key_index ?A),
    20 := bytes_u16 0 (key_source ?A)] else ?as1"
  let ?pb' = "pb1\<lparr>packetbuf_addrs := [node, ?to], packetbuf_attrs := ?as2\<rparr>"
  have small: "ucast (ucast (?as ! 14) :: u8) = ?as ! 14" "ucast (ucast (?as ! 13) :: u8) = ?as ! 13"
    using attrs_small [OF assms(1)] by (auto intro!: ucast_back)
  have copy: "linkaddr_copy a b = b" if "length a = 8" "length b = 8" for a b
    using that by (simp add: linkaddr_copy_def LINKADDR_SIZE_def)
  have sec: "set_security F (pb1\<lparr>packetbuf_addrs := [node, ?to], packetbuf_attrs := ?as1\<rparr>) = Some ?pb'"
    using l by (simp add: set_security_def F attr_ops attr_consts)
  have n: "?n \<noteq> 0" using frame_hdrlen(3) [OF wf] by auto
  have "parse frame pb = Some (int ?n, ?pb')"
  proof (cases ?bc)
    case True
    with n l small addrs to assms(2) bc sec show ?thesis
      unfolding parse_def data len pf by (simp add: pb1(1) F attr_ops attr_consts same copy IEEE802154_PANID_def)
  next
    case False
    with n l small addrs to assms(2) bc sec show ?thesis
      unfolding parse_def data len pf by (simp add: pb1(1) F attr_ops attr_consts same copy IEEE802154_PANID_def)
  qed
  moreover have "pkt ?pb' = ([], ?n, r)" using pb1(3) by (auto simp: pkt_def)
  moreover have "same_fields pa' ?pb'"
  proof -
    have u: "unat (ucast (?as ! i) :: u8) = unat (?as ! i)" "ucast (ucast (?as ! i) :: u8) = ?as ! i" if "i \<in> {15, 18, 19}" for i
      using that attrs_small [OF assms(1)] by (auto intro!: ucast_back unat_ucast_small)
    have A: "security_level ?A = ucast (?as ! 15)" "key_id_mode ?A = ucast (?as ! 18)"
      "frame_counter ?A = u16_bytes (?as ! 16) @ u16_bytes (?as ! 17)"
      "?as ! 18 \<noteq> 0 \<Longrightarrow> key_index ?A = ucast (?as ! 19)"
      "1 < ?as ! 18 \<Longrightarrow> bytes_u16 0 (key_source ?A) = ?as ! 20" if "?as ! 15 \<noteq> 0"
    proof -
      let ?x = "aux_hdr (sent_frame node sq pa)"
      have x: "?x = \<lparr>security_level = ucast (?as ! 15), key_id_mode = ucast (?as ! 18),
         frame_counter = u16_bytes (?as ! 16) @ u16_bytes (?as ! 17),
         key_source = u16_bytes (?as ! 20) @ replicate 6 0, key_index = ucast (?as ! 19)\<rparr>"
        by (simp add: sent_frame_def Let_def)
      have e: "?A = (if key_id_mode ?x = 0 then (aux_hdr frame)\<lparr>security_level := security_level ?x, key_id_mode := 0,
          frame_counter := frame_counter ?x\<rparr>
        else ?x\<lparr>key_source := take ((unat (key_id_mode ?x) - 1) * 4) (key_source ?x) @
          drop ((unat (key_id_mode ?x) - 1) * 4) (key_source (aux_hdr frame))\<rparr>)"
        using that by (simp add: F_def received_def Let_def) (simp add: sent_frame_def Let_def)
      show "security_level ?A = ucast (?as ! 15)" "key_id_mode ?A = ucast (?as ! 18)"
        "frame_counter ?A = u16_bytes (?as ! 16) @ u16_bytes (?as ! 17)"
        unfolding e x by simp_all
      have z: "(ucast (?as ! 18) :: u8) \<noteq> 0" if "?as ! 18 \<noteq> 0" using u(2) [of 18] that by auto
      show "key_index ?A = ucast (?as ! 19)" if "?as ! 18 \<noteq> 0" unfolding e x using z [OF that] by simp
      show "bytes_u16 0 (key_source ?A) = ?as ! 20" if "1 < ?as ! 18"
      proof -
        have "1 < unat (?as ! 18)" "?as ! 18 \<noteq> 0" using that by (auto simp: word_less_nat_alt)
        then obtain k where k: "(unat (key_id_mode ?x) - 1) * 4 = Suc (Suc k)" "key_id_mode ?x \<noteq> 0"
          using z u(1) [of 18] by (intro that [of "(unat (?as ! 18) - 1) * 4 - 2"]) (auto simp: x)
        have "key_source ?A = u16_bytes (?as ! 20) @ take k (replicate 6 0) @ drop (Suc (Suc k)) (key_source (aux_hdr frame))"
          unfolding e k(1) using k(2) by (simp add: x u16_bytes_def)
        then show ?thesis by (simp add: bytes_u16_halves)
      qed
    qed
    show ?thesis using l A u assms(3)
      by (auto simp: same_fields_def Let_def bytes_u16_halves)
  qed
  ultimately show ?thesis by (intro exI [of _ ?pb']) simp
qed

section \<open>Receiving\<close>

lemma copyfrom_addrs:
  assumes "packetbuf_copyfrom bs len pb = Some (n, pb')" and "pb_ok pb" and "\<forall>a \<in> set (packetbuf_addrs pb). length a = 8"
  shows "packetbuf_addrs pb' = [linkaddr_null, linkaddr_null]"
proof -
  obtain a b where "packetbuf_addrs pb = [a, b]" "length a = 8" "length b = 8"
    using pb_lengths [OF assms(2)] assms(3) by (auto simp: numeral_2_eq_2 length_Suc_conv)
  then have "packetbuf_addrs (packetbuf_clear pb) = [linkaddr_null, linkaddr_null]"
    by (simp add: packetbuf_clear_def packetbuf_attr_clear_def PACKETBUF_NUM_ADDRS_def linkaddr_copy_def linkaddr_null_def
        LINKADDR_SIZE_def numeral_2_eq_2)
  moreover have "packetbuf_addrs pb' = packetbuf_addrs (packetbuf_clear pb)"
    using assms(1) by (auto simp: packetbuf_copyfrom_def Let_def bind_eq_Some_conv)
  ultimately show ?thesis by simp
qed

lemma receive_bytes:
  assumes "pb_ok pb" and "\<forall>a \<in> set (packetbuf_addrs pb). length a = 8" and "length bytes \<le> 128"
  obtains pb1 where "packetbuf_copyfrom bytes (of_nat (length bytes)) pb = Some (length bytes, pb1)" and "pb_ok pb1"
    and "pkt pb1 = ([], 0, bytes)" and "packetbuf_addrs pb1 = [linkaddr_null, linkaddr_null]"
proof -
  have "refines (pb_exec (Fill bytes) pb) (pkt_exec (Fill bytes) ([], 0, []))"
    using assms(3) by (intro pb_fill_correct [OF assms(1)]) simp
  then obtain pb1 where "packetbuf_copyfrom bytes (of_nat (length bytes)) pb = Some (length bytes, pb1)" "pb_ok pb1"
    "pkt pb1 = ([], 0, bytes)" using assms(3) by (auto simp: refines_def min_def split: if_splits)
  with copyfrom_addrs [OF this(1) assms(1,2)] that show thesis by blast
qed

section \<open>Properties\<close>

text \<open>
  C8. What one node sends another receives: creating a frame either fails, only
  for lack of room, or puts the header in front of the packet, and then the bytes
  that go to the radio, received into the packet buffer of another node and
  parsed there, leave exactly the packet of the sender, with the sender's
  address, the receiver's address (none for a broadcast), the sequence number,
  the frame type and all security fields restored from the header.
\<close>

theorem framer_roundtrip:
  assumes "attrs_ok pa" and "length node = 8" and "pkt pa = (h, c, d)" and "pb_ok pb"
    and "\<forall>a \<in> set (packetbuf_addrs pb). length a = 8" and "length (key_source (aux_hdr frame)) = 8"
  shows "\<exists>n fr' pa'. create rnd node fr pa = Some (n, fr', pa') \<and>
    (n = FRAMER_FAILED \<and> (11 < length h \<or> 91 < (if h = [] then c else length h) + length d) \<or>
    (\<exists>len bytes pb1 pb2. packetbuf_copyto pa' = Some (int len, bytes) \<and>
      packetbuf_copyfrom bytes (of_nat len) pb = Some (len, pb1) \<and> parse frame pb1 = Some (n, pb2) \<and>
      pkt pb2 = ([], nat n, h @ d) \<and> packetbuf_addrs pb2 = [node, packetbuf_addrs pa ! 1] \<and> same_fields pa' pb2))"
proof -
  obtain sq fr' pa' n where c: "create rnd node fr pa = Some (n, fr', pa')"
    "n = FRAMER_FAILED \<and> (11 < length h \<or> 91 < (if h = [] then c else length h) + length d) \<or> n = int (length (frame_bytes (sent_frame node sq pa))) \<and> pb_ok pa' \<and>
      packetbuf_attrs pa' = (packetbuf_attrs pa)[10 := ucast sq] \<and> pkt pa' = (frame_bytes (sent_frame node sq pa) @ h, c, d)"
    using create_correct [OF assms(1-3)] by blast
  show ?thesis
  proof (cases "n = FRAMER_FAILED")
    case True
    with c show ?thesis by (auto simp: FRAMER_FAILED_def)
  next
    case False
    let ?f = "frame_bytes (sent_frame node sq pa)"
    let ?bytes = "(?f @ h) @ d"
    have ok: "n = int (length ?f)" "pb_ok pa'" "packetbuf_attrs pa' = (packetbuf_attrs pa)[10 := ucast sq]"
      "pkt pa' = (?f @ h, c, d)" using c(2) False by auto
    have "length ?bytes \<le> 128" by (rule pktE [OF ok(2,4)]) simp
    with assms(4,5) obtain pb1 where pb1: "packetbuf_copyfrom ?bytes (of_nat (length ?bytes)) pb = Some (length ?bytes, pb1)"
      "pb_ok pb1" "pkt pb1 = ([], 0, ?bytes)" "packetbuf_addrs pb1 = [linkaddr_null, linkaddr_null]"
      by (rule receive_bytes)
    have "length linkaddr_null = 8" by (simp add: linkaddr_null_def LINKADDR_SIZE_def)
    with parse_correct [OF assms(1,2) ok(3) pb1(2), of "h @ d" frame] pb1(3,4) assms(6)
    obtain pb2 where "parse frame pb1 = Some (n, pb2)" "pkt pb2 = ([], nat n, h @ d)"
      "packetbuf_addrs pb2 = [node, packetbuf_addrs pa ! 1]" "same_fields pa' pb2" using ok(1) by auto
    then show ?thesis using c(1) pb1(1) packetbuf_copyto_pkt [OF ok(2,4)]
      by (intro exI [of _ n] exI [of _ fr'] exI [of _ pa'] conjI disjI2 exI [of _ "length ?bytes"] exI [of _ ?bytes]
          exI [of _ pb1] exI [of _ pb2]) simp_all
  qed
qed

definition sender0 :: packetbuf where
  "sender0 = \<lparr>packetbuf_bytes = replicate 48 0 @ [1, 2, 3] @ replicate 125 0, buflen = 3, bufptr = 0, hdrptr = 48,
     packetbuf_attrs = (replicate 21 0)[14 := 1, 10 := 9], packetbuf_addrs = [linkaddr_null, replicate 8 7]\<rparr>"

lemma framer_roundtrip_witness:
  "\<exists>n fr' pa'. create 5 (replicate 8 6) \<lparr>mac_dsn = 0, initialized = False\<rparr> sender0 = Some (n, fr', pa') \<and>
    (\<exists>len bytes pb1 pb2. packetbuf_copyto pa' = Some (int len, bytes) \<and>
      packetbuf_copyfrom bytes (of_nat len) packetbuf0 = Some (len, pb1) \<and> parse example_frame pb1 = Some (n, pb2) \<and>
      pkt pb2 = ([], nat n, [1, 2, 3]) \<and> packetbuf_addrs pb2 = [replicate 8 6, replicate 8 7] \<and> same_fields pa' pb2)"
proof -
  note sizes = pb_defs PACKETBUF_NUM_ATTRS_def PACKETBUF_NUM_ADDRS_def PACKETBUF_ATTR_MAX_def linkaddr_null_def LINKADDR_SIZE_def
  have "attrs_ok sender0" by (simp add: sender0_def attrs_ok_def pb_ok_def sizes)
  moreover have "pkt sender0 = ([], 0, [1, 2, 3])" by (simp add: sender0_def pkt_def pb_defs)
  moreover have "pb_ok packetbuf0" by (simp add: packetbuf0_def pb_ok_def sizes)
  moreover have "\<forall>a \<in> set (packetbuf_addrs packetbuf0). length a = 8" by (simp add: packetbuf0_def sizes)
  moreover have "length (key_source (aux_hdr example_frame)) = 8" by (simp add: example_frame_def)
  moreover have "packetbuf_addrs sender0 ! 1 = replicate 8 7" by (simp add: sender0_def)
  ultimately show ?thesis
    using framer_roundtrip [of sender0 "replicate 8 6" "[]" 0 "[1, 2, 3]" packetbuf0 example_frame 5 "\<lparr>mac_dsn = 0, initialized = False\<rparr>"]
    by simp
qed

end
