(* ===== verification/Scheduler.thy ===== *)
theory Scheduler
  imports Process
begin

text \<open>
  The scheduler of \<open>core/sys/process.c\<close> returns, with threads that call each
  other synchronously, exit processes and start them, nested in any way. The
  fuel of the model is then no restriction: there is a result, and with more
  fuel it stays the same. A thread that starts processes may only start those
  of a set \<open>S\<close> that nobody ever exits; without this the kernel itself may loop
  (a broadcast goes round for ever when a handler exits and restarts processes
  that the loop has passed).
\<close>

declare find_process.simps [code] unlink_process_loop.simps [code]

section \<open>Threads\<close>

fun may_exit :: "'p set \<Rightarrow> 'p ptr \<Rightarrow> bool" where
  "may_exit S None = (S = {})"
| "may_exit S (Some p) = (p \<notin> S)"

fun permitted :: "'p set \<Rightarrow> ('p, 'd) syscall \<Rightarrow> bool" where
  "permitted S (SPost p ev data) = (ev = PROCESS_EVENT_EXIT \<longrightarrow> may_exit S p)"
| "permitted S (SPostSynch p ev data) = (ev = PROCESS_EVENT_EXIT \<longrightarrow> p \<notin> S)"
| "permitted S (SStart p data) = (p \<in> S)"
| "permitted S (SExit p) = (p \<notin> S)"
| "permitted S sc = True"

inductive tame :: "'p set \<Rightarrow> 'p \<Rightarrow> ('p, 'd, 'u) prog \<Rightarrow> bool" for S p where
  tame_Ret: "p \<notin> S \<or> status \<noteq> PT_EXITED \<and> status \<noteq> PT_ENDED \<Longrightarrow> tame S p (Ret status lc u)"
| tame_Call: "permitted S sc \<Longrightarrow> (\<And>r u. tame S p (c r u)) \<Longrightarrow> tame S p (Call sc u c)"

definition tame_threads :: "'p set \<Rightarrow> ('p, 'd, 'u) threads \<Rightarrow> bool" where
  "tame_threads S th \<longleftrightarrow> (\<forall>p t lc ev data u. th p = Some t \<longrightarrow> tame S p (t lc ev data u))"

section \<open>Results with enough fuel\<close>

definition runs :: "('p, 'd, 'u) threads \<Rightarrow> ('p, 'd, 'u) job \<Rightarrow> ('p, 'd, 'u) sys \<Rightarrow>
    'p sysres \<times> ('p, 'd, 'u) sys \<Rightarrow> bool" where
  "runs th j s x \<longleftrightarrow> (\<exists>n. kexec th n j s = Some x)"

text \<open>A job returns when the jobs it runs do.\<close>

lemma runs_step0: "(\<And>rec. kstep th rec j s = Some x) \<Longrightarrow> runs th j s x"
  unfolding runs_def by (rule exI [of _ "Suc 0"]) simp

lemma runs_step1:
  assumes "runs th j1 s1 x1" and "\<And>rec. rec j1 s1 = Some x1 \<Longrightarrow> kstep th rec j s = Some x"
  shows "runs th j s x"
proof -
  obtain n where "kexec th n j1 s1 = Some x1" using assms(1) by (auto simp: runs_def)
  then have "kexec th (Suc n) j s = Some x" using assms(2) by simp
  then show ?thesis unfolding runs_def by blast
qed

lemma runs_step2:
  assumes "runs th j1 s1 x1" and "runs th j2 s2 x2"
    and "\<And>rec. rec j1 s1 = Some x1 \<Longrightarrow> rec j2 s2 = Some x2 \<Longrightarrow> kstep th rec j s = Some x"
  shows "runs th j s x"
proof -
  obtain n m where "kexec th n j1 s1 = Some x1" "kexec th m j2 s2 = Some x2"
    using assms(1,2) by (auto simp: runs_def)
  then have "kexec th (max n m) j1 s1 = Some x1" "kexec th (max n m) j2 s2 = Some x2"
    by (auto intro: kexec_mono)
  then have "kexec th (Suc (max n m)) j s = Some x" using assms(3) by simp
  then show ?thesis unfolding runs_def by blast
qed

section \<open>What a call leaves of the kernel\<close>

definition spared :: "'p set \<Rightarrow> ('p, 'd) kernel \<Rightarrow> bool" where
  "spared S k \<longleftrightarrow> kernel_inv k \<and>
     (\<forall>e \<in> set (pending k). ed_ev e = PROCESS_EVENT_EXIT \<longrightarrow> may_exit S (ed_p e))"

definition listed :: "('p, 'd) kernel \<Rightarrow> 'p \<Rightarrow> bool" where
  "listed k p \<longleftrightarrow> (\<exists>xs. procs k xs \<and> p \<in> set xs)"

text \<open>
  The weight of a process goes down when it is called, exited or started and is
  never more after a call than before: two for one that runs, one for one
  that is called, and three more for one that is to be started.
\<close>

definition weight :: "'p set \<Rightarrow> ('p, 'd) kernel \<Rightarrow> 'p \<Rightarrow> nat" where
  "weight S k p = (if p \<in> S \<and> \<not> listed k p then 3 else 0) +
     (if p_state k p AND PROCESS_STATE_RUNNING \<noteq> 0 then 2
      else if p_state k p \<noteq> PROCESS_STATE_NONE then 1 else 0)"

text \<open>
  The loops over the process list follow the next pointers from processes
  that were on the list when the loop started, \<open>V\<close>; the pointers lead from each
  of them to one further on, also from one that was taken off the list.
\<close>

definition falling :: "'p set \<Rightarrow> 'p set \<Rightarrow> ('p \<Rightarrow> nat) \<Rightarrow> ('p, 'd) kernel \<Rightarrow> bool" where
  "falling S V f k \<longleftrightarrow> (\<forall>p \<in> V. \<forall>q. p_next k p = Some q \<longrightarrow> q \<in> V \<and> f q < f p) \<and> (\<forall>p \<in> V \<inter> S. listed k p)"

definition after :: "'p set \<Rightarrow> ('p, 'd) kernel \<Rightarrow> ('p, 'd) kernel \<Rightarrow> bool" where
  "after S k k' \<longleftrightarrow> (spared S k \<longrightarrow> spared S k' \<and> (\<forall>p. weight S k' p \<le> weight S k p) \<and>
     (\<forall>V f. falling S V f k \<longrightarrow> falling S V f k'))"

lemma kernel_cong [simp]:
  "listed (k\<lparr>process_current := c\<rparr>) = listed k" "listed (k\<lparr>p_state := s\<rparr>) = listed k"
  "listed (k\<lparr>p_lc := l\<rparr>) = listed k" "listed (k\<lparr>p_needspoll := b\<rparr>) = listed k"
  "listed (k\<lparr>poll_requested := q\<rparr>) = listed k" "listed (k\<lparr>lastevent := e\<rparr>) = listed k"
  "spared S (k\<lparr>process_current := c\<rparr>) = spared S k" "spared S (k\<lparr>p_state := s\<rparr>) = spared S k"
  "spared S (k\<lparr>p_lc := l\<rparr>) = spared S k" "spared S (k\<lparr>p_needspoll := b\<rparr>) = spared S k"
  "spared S (k\<lparr>poll_requested := q\<rparr>) = spared S k" "spared S (k\<lparr>lastevent := e\<rparr>) = spared S k"
  by (simp_all add: listed_def procs_def spared_def pending_def fun_eq_iff)

lemma weight_cong [simp]:
  "weight S (k\<lparr>process_current := c\<rparr>) = weight S k" "weight S (k\<lparr>p_lc := l\<rparr>) = weight S k"
  "weight S (k\<lparr>p_needspoll := b\<rparr>) = weight S k" "weight S (k\<lparr>poll_requested := q\<rparr>) = weight S k"
  "weight S (k\<lparr>lastevent := e\<rparr>) = weight S k"
  by (simp_all add: weight_def fun_eq_iff)

lemma falling_cong [simp]:
  "falling S V f (k\<lparr>process_current := c\<rparr>) = falling S V f k" "falling S V f (k\<lparr>p_state := s\<rparr>) = falling S V f k"
  "falling S V f (k\<lparr>p_lc := l\<rparr>) = falling S V f k" "falling S V f (k\<lparr>p_needspoll := b\<rparr>) = falling S V f k"
  "falling S V f (k\<lparr>poll_requested := q\<rparr>) = falling S V f k" "falling S V f (k\<lparr>lastevent := e\<rparr>) = falling S V f k"
  by (simp_all add: falling_def)

lemma after_cong [simp]: "after S k k"
  "after S (k\<lparr>process_current := c\<rparr>) k' = after S k k'" "after S k (k'\<lparr>process_current := c\<rparr>) = after S k k'"
  "after S k (k'\<lparr>p_lc := l\<rparr>) = after S k k'" "after S k (k'\<lparr>lastevent := e\<rparr>) = after S k k'"
  by (simp_all add: after_def)

lemma after_trans: "after S k1 k2 \<Longrightarrow> after S k2 k3 \<Longrightarrow> after S k1 k3"
  unfolding after_def by (meson order_trans)

lemma afterD:
  assumes "after S k k'" and "spared S k"
  shows "spared S k'" "weight S k' p \<le> weight S k p" "falling S V f k \<Longrightarrow> falling S V f k'"
  using assms by (simp_all add: after_def)

lemma procs_unique: "procs k xs \<Longrightarrow> procs k ys \<Longrightarrow> xs = ys"
  unfolding procs_def
proof -
  have "seg nx q xs None \<Longrightarrow> seg nx q ys None \<Longrightarrow> xs = ys" for nx :: "'a \<Rightarrow> 'a ptr" and q xs ys
    by (induction xs arbitrary: q ys) (case_tac ys; force)+
  then show "seg (p_next k) (process_list k) xs None \<Longrightarrow> seg (p_next k) (process_list k) ys None \<Longrightarrow> xs = ys"
    by blast
qed

lemma listed_procs: "procs k xs \<Longrightarrow> listed k p = (p \<in> set xs)"
  by (auto simp: listed_def dest: procs_unique)

section \<open>The steps\<close>

lemma process_post_after:
  assumes "ev = PROCESS_EVENT_EXIT \<longrightarrow> may_exit S p"
  shows "after S k (snd (process_post p ev data k))"
proof -
  let ?k = "snd (process_post p ev data k)"
  have same: "process_list ?k = process_list k" "p_next ?k = p_next k" "p_state ?k = p_state k"
    by (simp_all add: process_post_def Let_def)
  have l: "listed ?k = listed k" by (intro ext) (simp add: listed_def procs_def same)
  have "spared S ?k" if sp: "spared S k"
  proof (cases "length (pending k) < PROCESS_CONF_NUMEVENTS")
    case True
    have "kernel_inv k" using sp by (simp add: spared_def)
    from post_accepted [OF this True, of p ev data] obtain k1 where
      "?k = k1" "kernel_inv k1" "pending k1 = pending k @ [\<lparr>ed_ev = ev, ed_data = data, ed_p = p\<rparr>]" by (metis snd_conv)
    with sp assms show ?thesis by (auto simp: spared_def)
  next
    case False
    with sp post_refused [of k p ev data] show ?thesis by (simp add: spared_def)
  qed
  with same l show ?thesis by (simp add: after_def weight_def falling_def)
qed

lemma process_poll_after: "after S k (process_poll p k)"
  by (auto simp: process_poll_def after_def split: option.split)

lemma weight_call:
  assumes "p_state k p AND PROCESS_STATE_RUNNING \<noteq> 0"
  shows "weight S (k\<lparr>p_state := (p_state k)(p := PROCESS_STATE_CALLED)\<rparr>) p < weight S k p"
    and "weight S (k\<lparr>p_state := (p_state k)(p := PROCESS_STATE_CALLED)\<rparr>) q \<le> weight S k q"
  using assms by (auto simp: weight_def PROCESS_STATE_CALLED_def PROCESS_STATE_RUNNING_def PROCESS_STATE_NONE_def)

lemma weight_return:
  assumes "p_state k p AND PROCESS_STATE_RUNNING \<noteq> 0" and "spared S k"
    and "after S (k\<lparr>p_state := (p_state k)(p := PROCESS_STATE_CALLED)\<rparr>) k'"
  shows "after S k (k'\<lparr>p_state := (p_state k')(p := PROCESS_STATE_RUNNING)\<rparr>)"
proof -
  let ?k = "k\<lparr>p_state := (p_state k)(p := PROCESS_STATE_CALLED)\<rparr>"
  have a: "weight S k' q \<le> weight S ?k q" "falling S V f k \<Longrightarrow> falling S V f k'" "spared S k'" for q V f
    using afterD [OF assms(3)] assms(2) by simp_all
  have "weight S (k'\<lparr>p_state := (p_state k')(p := PROCESS_STATE_RUNNING)\<rparr>) q \<le> weight S k q" for q
  proof (cases "q = p")
    case False
    then have "weight S (k'\<lparr>p_state := (p_state k')(p := PROCESS_STATE_RUNNING)\<rparr>) q = weight S k' q"
      "weight S ?k q = weight S k q" by (simp_all add: weight_def)
    with a(1) [of q] show ?thesis by simp
  next
    case True
    have "p \<in> S \<and> \<not> listed k' p \<longrightarrow> p \<in> S \<and> \<not> listed k p"
      using a(1) [of p] by (auto simp: weight_def PROCESS_STATE_CALLED_def PROCESS_STATE_RUNNING_def
          PROCESS_STATE_NONE_def split: if_splits)
    with True assms(1) show ?thesis by (auto simp: weight_def)
  qed
  with a(2,3) show ?thesis by (simp add: after_def)
qed

lemma weight_exit:
  assumes "p_state k p \<noteq> PROCESS_STATE_NONE"
  shows "weight S (k\<lparr>p_state := (p_state k)(p := PROCESS_STATE_NONE)\<rparr>) p < weight S k p"
    and "after S k (k\<lparr>p_state := (p_state k)(p := PROCESS_STATE_NONE)\<rparr>)"
  using assms by (auto simp: after_def weight_def PROCESS_STATE_NONE_def)

lemma start_after:
  fixes k :: "('p, 'd) kernel"
  assumes "p \<in> S" and "spared S k" and "\<not> listed k p"
    and k': "k' = k\<lparr>p_next := (p_next k)(p := process_list k), process_list := Some p,
      p_state := (p_state k)(p := PROCESS_STATE_RUNNING), p_lc := (p_lc k)(p := 0)\<rparr>"
  shows "after S k k'" and "weight S k' p < weight S k p"
proof -
  obtain xs where xs: "procs k xs" using assms(2) by (auto simp: spared_def kernel_inv_def)
  then have p: "p \<notin> set xs" using assms(3) by (simp add: listed_procs)
  with xs have xs': "procs k' (p # xs)" by (simp add: procs_def k')
  have l: "listed k' q = (q = p \<or> listed k q)" for q
    by (simp add: listed_procs [OF xs] listed_procs [OF xs'])
  show "weight S k' p < weight S k p"
    using assms(1,3) l by (simp add: weight_def k')
  then have "weight S k' q \<le> weight S k q" for q
    by (cases "q = p") (simp_all add: weight_def l, simp add: k')
  moreover have "spared S k'"
    using assms(2) xs' unfolding spared_def kernel_inv_def by (auto simp: k' pending_def)
  moreover have "falling S V f k'" if fall: "falling S V f k" for V f
  proof -
    have "p \<notin> V" using fall assms(1,3) by (auto simp: falling_def)
    then show ?thesis using fall l by (auto simp: falling_def k')
  qed
  ultimately show "after S k k'" by (simp add: after_def)
qed

lemma unlink_next:
  assumes "procs k xs" and "unlink_process p k = Some k'"
  shows "p_next k' = p_next k \<or> (\<exists>x. p_next k x = Some p \<and> p_next k' = (p_next k)(x := p_next k p))"
proof (cases "process_list k = Some p")
  case True
  with assms(2) show ?thesis by (auto simp: unlink_process_def)
next
  case False
  have "p_next k' = p_next k \<or> (\<exists>x. p_next k x = Some p \<and> p_next k' = (p_next k)(x := p_next k p))"
    if "seg (p_next k) q ys None" "unlink_process_loop p k q = Some k'" for q ys
    using that
  proof (induction ys arbitrary: q)
    case Nil
    then show ?case by (auto simp: unlink_process_loop.simps)
  next
    case (Cons y ys)
    then show ?case by (subst (asm) unlink_process_loop.simps) (auto split: if_splits)
  qed
  with False assms show ?thesis by (auto simp: unlink_process_def procs_def)
qed

lemma unlink_after:
  assumes "p \<notin> S" and "spared S k"
  obtains k' where "unlink_process p k = Some k'" and "after S k k'"
proof -
  obtain xs where xs: "procs k xs" using assms(2) by (auto simp: spared_def kernel_inv_def)
  from unlink_process_procs [OF xs, of p] obtain h nx where
    u: "unlink_process p k = Some (k\<lparr>process_list := h, p_next := nx\<rparr>)"
      "procs (k\<lparr>process_list := h, p_next := nx\<rparr>) (remove1 p xs)" by blast
  let ?k = "k\<lparr>process_list := h, p_next := nx\<rparr>"
  have l: "q \<noteq> p \<Longrightarrow> listed ?k q = listed k q" for q
    by (simp add: listed_procs [OF xs] listed_procs [OF u(2)])
  have lS: "listed ?k q = listed k q" if "q \<in> S" for q using l [of q] that assms(1) by (cases "q = p") auto
  have "weight S ?k q = weight S k q" for q
    by (cases "q \<in> S") (simp_all add: weight_def lS)
  moreover have "spared S ?k"
    using assms(2) u(2) unfolding spared_def kernel_inv_def by (auto simp: pending_def)
  moreover have "falling S V f ?k" if fall: "falling S V f k" for V f
  proof -
    from unlink_next [OF xs u(1)] have "nx = p_next k \<or> (\<exists>x. p_next k x = Some p \<and> nx = (p_next k)(x := p_next k p))"
      by simp
    then have "\<forall>q \<in> V. \<forall>r. nx q = Some r \<longrightarrow> r \<in> V \<and> f r < f q"
    proof
      assume "\<exists>x. p_next k x = Some p \<and> nx = (p_next k)(x := p_next k p)"
      then obtain x where x: "p_next k x = Some p" "nx = (p_next k)(x := p_next k p)" by blast
      show ?thesis
      proof (intro ballI allI impI)
        fix q r
        assume q: "q \<in> V" "nx q = Some r"
        show "r \<in> V \<and> f r < f q"
        proof (cases "q = x")
          case True
          with x q fall have "p \<in> V" "f p < f q" by (auto simp: falling_def)
          moreover from this x q True fall have "r \<in> V \<and> f r < f p" by (auto simp: falling_def)
          ultimately show ?thesis by simp
        next
          case False
          with x q fall show ?thesis by (simp add: falling_def)
        qed
      qed
    qed (use fall in \<open>simp add: falling_def\<close>)
    moreover have "\<forall>q \<in> V \<inter> S. listed ?k q" using fall by (simp add: falling_def lS)
    ultimately show ?thesis by (simp add: falling_def)
  qed
  ultimately have "after S k ?k" by (simp add: after_def)
  with u(1) that show thesis by blast
qed

section \<open>Calls return\<close>

text \<open>The processes outside of \<open>F\<close> are stopped; the measure is the weight of the others.\<close>

definition within :: "'p set \<Rightarrow> 'p set \<Rightarrow> ('p, 'd) kernel \<Rightarrow> bool" where
  "within S F k \<longleftrightarrow> finite F \<and> spared S k \<and> (\<forall>p. p \<notin> F \<longrightarrow> weight S k p = 0)"

definition total_weight :: "'p set \<Rightarrow> 'p set \<Rightarrow> ('p, 'd) kernel \<Rightarrow> nat" where
  "total_weight S F k = (\<Sum>p \<in> F. weight S k p)"

lemma within_after:
  assumes "within S F k" and "after S k k'"
  shows "within S F k'"
proof -
  have sp: "spared S k" using assms(1) by (simp add: within_def)
  have "weight S k' p = 0" if "p \<notin> F" for p
    using assms(1) afterD(2) [OF assms(2) sp, of p] that by (simp add: within_def)
  with assms(1) afterD(1) [OF assms(2) sp] show ?thesis by (simp add: within_def)
qed

lemma total_weight_after: "within S F k \<Longrightarrow> after S k k' \<Longrightarrow> total_weight S F k' \<le> total_weight S F k"
  unfolding total_weight_def within_def using afterD(2) [of S k k'] by (auto intro: sum_mono)

lemma total_weight_less:
  assumes "within S F k" and "after S k k'" and "weight S k' p < weight S k p"
  shows "total_weight S F k' < total_weight S F k"
  unfolding total_weight_def
proof (rule sum_strict_mono_ex1)
  have "p \<in> F" using assms(1,3) by (cases "p \<in> F") (auto simp: within_def)
  with assms(3) show "\<exists>p \<in> F. weight S k' p < weight S k p" by blast
qed (use assms(1,2) afterD(2) [of S k k'] in \<open>simp_all add: within_def\<close>)

lemma within_cong [simp]:
  "within S F (k\<lparr>process_current := c\<rparr>) = within S F k" "total_weight S F (k\<lparr>process_current := c\<rparr>) = total_weight S F k"
  by (simp_all add: within_def total_weight_def)

definition returns :: "('p, 'd, 'u) threads \<Rightarrow> 'p set \<Rightarrow> ('p, 'd, 'u) job \<Rightarrow> ('p, 'd) kernel \<Rightarrow> bool" where
  "returns th S j k \<longleftrightarrow> (\<forall>u. \<exists>r k' u'. runs th j (k, u) (r, k', u') \<and> after S k k')"

definition calls_return :: "('p, 'd, 'u) threads \<Rightarrow> 'p set \<Rightarrow> 'p set \<Rightarrow> nat \<Rightarrow> bool" where
  "calls_return th S F b \<longleftrightarrow> (\<forall>k. within S F k \<longrightarrow> total_weight S F k < b \<longrightarrow>
     (\<forall>p ev data. (ev = PROCESS_EVENT_EXIT \<longrightarrow> p \<notin> S) \<longrightarrow> returns th S (JCall p ev data) k) \<and>
     (\<forall>p frm. p \<notin> S \<longrightarrow> returns th S (JExit p frm) k))"

lemma synch_returns:
  fixes k :: "('p, 'd) kernel"
  assumes "returns th S (JCall p ev data) k"
  shows "returns th S (JSynch p ev data) k"
  unfolding returns_def
proof
  fix u
  obtain r k' u' where r: "runs th (JCall p ev data) (k, u) (r, k', u')" "after S k k'"
    using assms unfolding returns_def by blast
  have "runs th (JSynch p ev data) (k, u) (RInt 0, k'\<lparr>process_current := process_current k\<rparr>, u')"
    by (rule runs_step1 [OF r(1)]) (simp add: process_post_synch_def)
  with r(2) show "\<exists>r k' u'. runs th (JSynch p ev data) (k, u) (r, k', u') \<and> after S k k'"
    by (metis after_cong(3))
qed

lemma INIT_not_EXIT: "PROCESS_EVENT_INIT \<noteq> PROCESS_EVENT_EXIT" "PROCESS_EVENT_EXITED \<noteq> PROCESS_EVENT_EXIT"
  "PROCESS_EVENT_POLL \<noteq> PROCESS_EVENT_EXIT"
  by (simp_all add: process_consts)

lemma start_returns:
  fixes k :: "('p, 'd) kernel"
  assumes c: "calls_return th S F b" and k: "within S F k" "total_weight S F k < b" and p: "p \<in> S"
  shows "returns th S (JStart p data) k"
  unfolding returns_def
proof
  fix u
  have sp: "spared S k" using k(1) by (simp add: within_def)
  then obtain xs where xs: "procs k xs" by (auto simp: spared_def kernel_inv_def)
  then have find: "find_process (p_next k) p (process_list k) = Some (if listed k p then Some p else None)"
    by (simp add: listed_procs find_process_seg procs_def)
  show "\<exists>r k' u'. runs th (JStart p data) (k, u) (r, k', u') \<and> after S k k'"
  proof (cases "listed k p")
    case True
    with find have "runs th (JStart p data) (k, u) (RInt 0, k, u)"
      by (intro runs_step0) (simp add: process_start_def)
    then show ?thesis by (metis after_cong(1))
  next
    case False
    let ?k = "k\<lparr>p_next := (p_next k)(p := process_list k), process_list := Some p,
      p_state := (p_state k)(p := PROCESS_STATE_RUNNING), p_lc := (p_lc k)(p := 0)\<rparr>"
    note a = start_after [OF p sp False, of ?k, OF refl]
    have "total_weight S F ?k < b" using total_weight_after [OF k(1) a(1)] k(2) by simp
    with c within_after [OF k(1) a(1)] INIT_not_EXIT(1) have "returns th S (JCall p PROCESS_EVENT_INIT data) ?k"
      unfolding calls_return_def by blast
    from synch_returns [OF this] obtain r k' u' where
      r: "runs th (JSynch p PROCESS_EVENT_INIT data) (?k, u) (r, k', u')" "after S ?k k'"
      unfolding returns_def by blast
    have "runs th (JStart p data) (k, u) (r, k', u')"
      by (rule runs_step1 [OF r(1)]) (simp add: process_start_def find False)
    with after_trans [OF a(1) r(2)] show ?thesis by blast
  qed
qed

lemma syscall_returns:
  fixes k :: "('p, 'd) kernel"
  assumes c: "calls_return th S F b" and k: "within S F k" "total_weight S F k < b" and sc: "permitted S sc"
  shows "returns th S (JSys sc) k"
  unfolding returns_def
proof
  fix u
  have one: "\<exists>r k' u'. runs th (JSys sc) (k, u) (r, k', u') \<and> after S k k'"
    if "returns th S j k" and "\<And>rec. run_syscall rec sc (k, u) = rec j (k, u)" for j
  proof -
    obtain r k' u' where r: "runs th j (k, u) (r, k', u')" "after S k k'"
      using \<open>returns th S j k\<close> unfolding returns_def by blast
    have "runs th (JSys sc) (k, u) (r, k', u')" by (rule runs_step1 [OF r(1)]) (simp add: that(2))
    with r(2) show ?thesis by blast
  qed
  have zero: "\<exists>r k' u'. runs th (JSys sc) (k, u) (r, k', u') \<and> after S k k'"
    if "\<And>rec. run_syscall rec sc (k, u) = Some (r, k', u)" and "after S k k'" for r k'
    using that runs_step0 [of th "JSys sc" "(k, u)" "(r, k', u)"] by auto
  show "\<exists>r k' u'. runs th (JSys sc) (k, u) (r, k', u') \<and> after S k k'"
  proof (cases sc)
    case (SPost p ev data)
    then show ?thesis using process_post_after [of ev S p k data] sc
      by (intro zero [of "RInt (fst (process_post p ev data k))" "snd (process_post p ev data k)"])
        (simp_all add: split_beta)
  next
    case (SPostSynch p ev data)
    have "returns th S (JCall p ev data) k" using c k sc SPostSynch by (simp add: calls_return_def)
    from one [OF synch_returns [OF this]] SPostSynch show ?thesis by simp
  next
    case (SStart p data)
    with one [OF start_returns [OF c k, of p data]] sc show ?thesis by simp
  next
    case (SExit p)
    have "returns th S (JExit p (process_current k)) k" using c k sc SExit by (simp add: calls_return_def)
    from one [OF this] SExit show ?thesis by simp
  next
    case (SPoll p)
    then show ?thesis by (intro zero [OF _ process_poll_after]) simp
  qed (use zero [of _ k] zero [of _ "snd (process_alloc_event k)"] in
      \<open>simp_all add: process_alloc_event_def\<close>)
qed

lemma thread_returns:
  assumes c: "calls_return th S F b"
  shows "tame S p prog \<Longrightarrow> within S F k \<Longrightarrow> total_weight S F k < b \<Longrightarrow>
    \<exists>st k' u'. runs th (JThread p prog) (k, u) (RInt st, k', u') \<and> after S k k' \<and>
      (st = PT_EXITED \<or> st = PT_ENDED \<longrightarrow> p \<notin> S)"
proof (induction prog arbitrary: k u rule: tame.induct)
  case (tame_Ret status lc u')
  have "runs th (JThread p (Ret status lc u')) (k, u) (RInt status, k\<lparr>p_lc := (p_lc k)(p := lc)\<rparr>, u')"
    by (rule runs_step0) simp
  moreover have "after S k (k\<lparr>p_lc := (p_lc k)(p := lc)\<rparr>)" by simp
  ultimately show ?case using tame_Ret.hyps by blast
next
  case (tame_Call sc prg u')
  obtain r k1 u1 where 1: "runs th (JSys sc) (k, u') (r, k1, u1)" "after S k k1"
    using syscall_returns [OF c tame_Call.prems tame_Call.hyps(1)] unfolding returns_def by blast
  have "total_weight S F k1 < b"
    using total_weight_after [OF tame_Call.prems(1) 1(2)] tame_Call.prems(2) by simp
  from tame_Call.IH [OF within_after [OF tame_Call.prems(1) 1(2)] this, of r u1 u1]
  obtain st k2 u2 where 2: "runs th (JThread p (prg r u1)) (k1, u1) (RInt st, k2, u2)" "after S k1 k2"
    "st = PT_EXITED \<or> st = PT_ENDED \<longrightarrow> p \<notin> S" by blast
  have "runs th (JThread p (Call sc u' prg)) (k, u) (RInt st, k2, u2)"
    by (rule runs_step2 [OF 1(1) 2(1)]) simp
  with after_trans [OF 1(2) 2(2)] 2(3) show ?case by blast
qed

text \<open>The loop that tells the others, from a process of the list onwards.\<close>

lemma notify_returns:
  assumes c: "calls_return th S F b"
  shows "within S F k \<Longrightarrow> total_weight S F k < b \<Longrightarrow> falling S V f k \<Longrightarrow>
    (case q of None \<Rightarrow> True | Some x \<Rightarrow> x \<in> V) \<Longrightarrow>
    \<exists>r k' u'. runs th (JNotify p q) (k, u) (r, k', u') \<and> after S k k'"
proof (induction "case q of None \<Rightarrow> 0 | Some x \<Rightarrow> Suc (f x)" arbitrary: q k u rule: less_induct)
  case less
  show ?case
  proof (cases q)
    case None
    have "runs th (JNotify p q) (k, u) (RInt 0, k, u)" using None by (intro runs_step0) (simp add: notify_exited_def)
    then show ?thesis by (metis after_cong(1))
  next
    case (Some x)
    have sp: "spared S k" using less.prems(1) by (simp add: within_def)
    have next1: "p_next k' x = Some y \<Longrightarrow> y \<in> V \<and> f y < f x" if "after S k k'" for k' y
      using afterD(3) [OF that sp less.prems(3)] less.prems(4) Some by (simp add: falling_def)
    have later: "\<exists>r k2 u2. runs th (JNotify p (p_next k1 x)) (k1, u1) (r, k2, u2) \<and> after S k1 k2"
      if a: "after S k k1" for k1 u1
    proof (rule less.hyps)
      show "(case p_next k1 x of None \<Rightarrow> 0 | Some y \<Rightarrow> Suc (f y)) < (case q of None \<Rightarrow> 0 | Some x \<Rightarrow> Suc (f x))"
        "case p_next k1 x of None \<Rightarrow> True | Some y \<Rightarrow> y \<in> V"
        using next1 [OF a] Some by (auto split: option.split)
      show "within S F k1" "total_weight S F k1 < b" "falling S V f k1"
        using within_after [OF less.prems(1) a] total_weight_after [OF less.prems(1) a] less.prems(2)
          afterD(3) [OF a sp less.prems(3)] by simp_all
    qed
    show ?thesis
    proof (cases "p = x")
      case True
      obtain r k2 u2 where 2: "runs th (JNotify p (p_next k x)) (k, u) (r, k2, u2)" "after S k k2"
        using later [of k u] by auto
      have "runs th (JNotify p q) (k, u) (r, k2, u2)"
        using True Some by (intro runs_step1 [OF 2(1)]) (simp add: notify_exited_def)
      with 2(2) show ?thesis by blast
    next
      case False
      have "returns th S (JCall x PROCESS_EVENT_EXITED (DProc p)) k"
        using c less.prems(1,2) INIT_not_EXIT(2) unfolding calls_return_def by blast
      then obtain r1 k1 u1 where 1: "runs th (JCall x PROCESS_EVENT_EXITED (DProc p)) (k, u) (r1, k1, u1)" "after S k k1"
        unfolding returns_def by blast
      obtain r k2 u2 where 2: "runs th (JNotify p (p_next k1 x)) (k1, u1) (r, k2, u2)" "after S k1 k2"
        using later [OF 1(2), of u1] by auto
      have "runs th (JNotify p q) (k, u) (r, k2, u2)"
        using False Some by (intro runs_step2 [OF 1(1) 2(1)]) (simp add: notify_exited_def)
      with after_trans [OF 1(2) 2(2)] show ?thesis by blast
    qed
  qed
qed

lemma seg_falling:
  "seg nx q xs None \<Longrightarrow> \<exists>f :: 'p \<Rightarrow> nat. \<forall>p \<in> set xs. \<forall>r. nx p = Some r \<longrightarrow> r \<in> set xs \<and> f r < f p"
proof (induction xs arbitrary: q)
  case (Cons x xs)
  then have "seg nx (nx x) xs None" by simp
  from Cons.IH [OF this] obtain f :: "'p \<Rightarrow> nat" where
    f: "\<forall>p \<in> set xs. \<forall>r. nx p = Some r \<longrightarrow> r \<in> set xs \<and> f r < f p" by blast
  have x: "x \<notin> set xs" using Cons.prems seg_distinct [OF Cons.prems] by simp
  have h: "nx x = Some r \<Longrightarrow> r \<in> set xs" for r using Cons.prems by (cases xs) auto
  let ?f = "f(x := Suc (case nx x of None \<Rightarrow> 0 | Some r \<Rightarrow> f r))"
  have "\<forall>p \<in> set (x # xs). \<forall>r. nx p = Some r \<longrightarrow> r \<in> set (x # xs) \<and> ?f r < ?f p"
    using f x h by auto
  then show ?case by blast
qed simp

lemma procs_falling:
  assumes "procs k xs"
  obtains f where "falling S (set xs) f k" and "case process_list k of None \<Rightarrow> True | Some x \<Rightarrow> x \<in> set xs"
proof -
  from seg_falling [of "p_next k" "process_list k" xs] assms obtain f :: "'a \<Rightarrow> nat"
    where "falling S (set xs) f k" by (auto simp: falling_def procs_def listed_procs [OF assms])
  moreover have "case process_list k of None \<Rightarrow> True | Some x \<Rightarrow> x \<in> set xs"
    using assms by (cases xs) (auto simp: procs_def)
  ultimately show thesis by (rule that)
qed

lemma call_returns:
  fixes k :: "('p, 'd) kernel"
  assumes th: "tame_threads S th" and c: "calls_return th S F (total_weight S F k)"
    and k: "within S F k" and ev: "ev = PROCESS_EVENT_EXIT \<longrightarrow> p \<notin> S"
  shows "returns th S (JCall p ev data) k"
  unfolding returns_def
proof
  fix u
  have sp: "spared S k" using k by (simp add: within_def)
  show "\<exists>r k' u'. runs th (JCall p ev data) (k, u) (r, k', u') \<and> after S k k'"
  proof (cases "th p = None \<or> p_state k p AND PROCESS_STATE_RUNNING = 0")
    case True
    then have "runs th (JCall p ev data) (k, u) (RInt 0, k, u)"
      by (intro runs_step0) (auto simp: call_process_def split: option.split)
    then show ?thesis by (metis after_cong(1))
  next
    case False
    then obtain t where t: "th p = Some t" "p_state k p AND PROCESS_STATE_RUNNING \<noteq> 0" by auto
    let ?k = "k\<lparr>p_state := (p_state k)(p := PROCESS_STATE_CALLED)\<rparr>"
    have a: "after S k ?k" using weight_call(2) [OF t(2)] sp by (simp add: after_def)
    note less = total_weight_less [OF k a weight_call(1) [OF t(2)]] within_after [OF k a]
    have "tame S p (t (p_lc k p) ev data u)" using th t(1) by (auto simp: tame_threads_def)
    from thread_returns [OF c this, of "?k\<lparr>process_current := Some p\<rparr>" u] less obtain st k1 u1 where
      1: "runs th (JThread p (t (p_lc k p) ev data u)) (?k\<lparr>process_current := Some p\<rparr>, u) (RInt st, k1, u1)"
        "after S ?k k1" "st = PT_EXITED \<or> st = PT_ENDED \<longrightarrow> p \<notin> S" by auto
    have "?k\<lparr>process_current := Some p\<rparr> = k\<lparr>process_current := Some p, p_state := p_state ?k\<rparr>" by simp
    note run = 1(1) [unfolded this]
    show ?thesis
    proof (cases "st = PT_EXITED \<or> st = PT_ENDED \<or> ev = PROCESS_EVENT_EXIT")
      case True
      have "total_weight S F k1 < total_weight S F k"
        using total_weight_after [OF less(2) 1(2)] less(1) by simp
      then have "returns th S (JExit p (Some p)) k1"
        using c within_after [OF less(2) 1(2)] True 1(3) ev unfolding calls_return_def by blast
      then obtain r k2 u2 where 2: "runs th (JExit p (Some p)) (k1, u1) (r, k2, u2)" "after S k1 k2"
        unfolding returns_def by blast
      have "runs th (JCall p ev data) (k, u) (r, k2, u2)"
        using True t by (intro runs_step2 [OF run 2(1)]) (auto simp: call_process_def Let_def)
      with after_trans [OF after_trans [OF a 1(2)] 2(2)] show ?thesis by blast
    next
      case False
      have "runs th (JCall p ev data) (k, u) (RInt 0, k1\<lparr>p_state := (p_state k1)(p := PROCESS_STATE_RUNNING)\<rparr>, u1)"
        using False t by (intro runs_step1 [OF run]) (simp add: call_process_def Let_def)
      with weight_return [OF t(2) sp 1(2)] show ?thesis by blast
    qed
  qed
qed

lemma exit_running_returns:
  fixes k :: "('p, 'd) kernel"
  assumes th: "tame_threads S th" and c: "calls_return th S F (total_weight S F k)"
    and k: "within S F k" and p: "p \<notin> S" and st: "p_state k p \<noteq> PROCESS_STATE_NONE"
  obtains n r k' u' where "exit_running th (kexec th n) p frm (k, u) = Some (r, k', u')" and "after S k k'"
proof -
  let ?k = "k\<lparr>p_state := (p_state k)(p := PROCESS_STATE_NONE)\<rparr>"
  note a = weight_exit(2) [OF st, of S]
  note less = total_weight_less [OF k a weight_exit(1) [OF st]] within_after [OF k a]
  obtain xs where "procs ?k xs" using less(2) by (auto simp: within_def spared_def kernel_inv_def)
  from procs_falling [OF this] obtain f where "falling S (set xs) f ?k"
    "case process_list ?k of None \<Rightarrow> True | Some x \<Rightarrow> x \<in> set xs" by blast
  from notify_returns [OF c less(2,1) this, of p u] obtain r1 k1 u1 where
    1: "runs th (JNotify p (process_list k)) (?k, u) (r1, k1, u1)" "after S ?k k1" by auto
  then obtain n1 where n1: "kexec th n1 (JNotify p (process_list k)) (?k, u) = Some (r1, k1, u1)"
    by (auto simp: runs_def)
  show thesis
  proof (cases "th p = None \<or> Some p = frm")
    case True
    then have "exit_running th (kexec th n1) p frm (k, u) = Some (RInt 0, k1, u1)"
      using n1 by (auto simp: exit_running_def Let_def split: option.split)
    with that after_trans [OF a 1(2)] show thesis by blast
  next
    case False
    then obtain t where t: "th p = Some t" "Some p \<noteq> frm" by auto
    have "tame S p (t (p_lc k1 p) PROCESS_EVENT_EXIT DNull u1)" using th t(1) by (auto simp: tame_threads_def)
    from thread_returns [OF c this, of "k1\<lparr>process_current := Some p\<rparr>" u1]
      within_after [OF less(2) 1(2)] total_weight_after [OF less(2) 1(2)] less(1)
    obtain st k2 u2 where
      2: "runs th (JThread p (t (p_lc k1 p) PROCESS_EVENT_EXIT DNull u1)) (k1\<lparr>process_current := Some p\<rparr>, u1)
          (RInt st, k2, u2)" "after S k1 k2" by auto
    then obtain n2 where n2: "kexec th n2 (JThread p (t (p_lc k1 p) PROCESS_EVENT_EXIT DNull u1))
        (k1\<lparr>process_current := Some p\<rparr>, u1) = Some (RInt st, k2, u2)" by (auto simp: runs_def)
    have "exit_running th (kexec th (max n1 n2)) p frm (k, u) = Some (RInt st, k2, u2)"
      using t kexec_mono [OF n1, of "max n1 n2"] kexec_mono [OF n2, of "max n1 n2"]
      by (simp add: exit_running_def Let_def)
    with that after_trans [OF after_trans [OF a 1(2)] 2(2)] show thesis by blast
  qed
qed

lemma exit_returns:
  fixes k :: "('p, 'd) kernel"
  assumes th: "tame_threads S th" and c: "calls_return th S F (total_weight S F k)"
    and k: "within S F k" and p: "p \<notin> S"
  shows "returns th S (JExit p frm) k"
  unfolding returns_def
proof
  fix u
  have sp: "spared S k" using k by (simp add: within_def)
  then obtain xs where xs: "procs k xs" by (auto simp: spared_def kernel_inv_def)
  then have find: "find_process (p_next k) p (process_list k) = Some (if p \<in> set xs then Some p else None)"
    by (simp add: find_process_seg procs_def)
  show "\<exists>r k' u'. runs th (JExit p frm) (k, u) (r, k', u') \<and> after S k k'"
  proof (cases "p \<in> set xs")
    case False
    with find have "runs th (JExit p frm) (k, u) (RInt 0, k, u)"
      by (intro runs_step0) (simp add: exit_process_def)
    then show ?thesis by (metis after_cong(1))
  next
    case True
    obtain n r k1 u1 where
      1: "(if process_is_running p k then exit_running th (kexec th n) p frm (k, u) else Some (RInt 0, k, u)) =
          Some (r, k1, u1)" "after S k k1"
    proof (cases "process_is_running p k")
      case True
      then have "p_state k p \<noteq> PROCESS_STATE_NONE" by (simp add: process_is_running_def)
      from exit_running_returns [OF th c k p this, of frm u] True that show thesis by auto
    qed (use that [of _ "RInt 0" k u] in auto)
    from unlink_after [OF p afterD(1) [OF 1(2) sp]] obtain k2 where
      2: "unlink_process p k1 = Some k2" "after S k1 k2" .
    have "kexec th (Suc n) (JExit p frm) (k, u) = Some (RInt 0, k2\<lparr>process_current := process_current k\<rparr>, u1)"
      using find True 1(1) 2(1) by (simp add: exit_process_def Let_def)
    then have "runs th (JExit p frm) (k, u) (RInt 0, k2\<lparr>process_current := process_current k\<rparr>, u1)"
      unfolding runs_def by blast
    with after_trans [OF 1(2) 2(2)] show ?thesis by (metis after_cong(3))
  qed
qed

lemma all_calls_return:
  assumes "tame_threads S th"
  shows "calls_return th S F b"
proof (induction b)
  case 0
  show ?case by (simp add: calls_return_def)
next
  case (Suc b)
  have "calls_return th S F (total_weight S F k)" if "total_weight S F k < Suc b" for k :: "('a, 'b) kernel"
    using Suc that by (auto simp: calls_return_def)
  with call_returns [OF assms] exit_returns [OF assms] show ?case
    unfolding calls_return_def by blast
qed

section \<open>The loops of the scheduler return\<close>

text \<open>
  A kernel the scheduler can go on with: well-formed, with finitely many
  processes that run, and no exit event pending for a process that nobody exits.
\<close>

definition settled :: "'p set \<Rightarrow> ('p, 'd) kernel \<Rightarrow> bool" where
  "settled S k \<longleftrightarrow> spared S k \<and> finite S \<and> finite {p. p_state k p \<noteq> PROCESS_STATE_NONE}"

definition keeps :: "'p set \<Rightarrow> ('p, 'd) kernel \<Rightarrow> ('p, 'd) kernel \<Rightarrow> bool" where
  "keeps S k k' \<longleftrightarrow> settled S k' \<and> (\<forall>V f. falling S V f k \<longrightarrow> falling S V f k')"

lemma settled_inv: "settled S k \<Longrightarrow> kernel_inv k"
  by (simp add: settled_def spared_def)

lemma settled_cong [simp]:
  "settled S (k\<lparr>poll_requested := q\<rparr>) = settled S k" "settled S (k\<lparr>p_needspoll := b\<rparr>) = settled S k"
  "settled S (k\<lparr>process_current := c\<rparr>) = settled S k"
  by (simp_all add: settled_def)

lemma settled_run:
  assumes "settled S k"
  shows "settled S (k\<lparr>p_state := (p_state k)(p := PROCESS_STATE_RUNNING)\<rparr>)"
proof -
  have "{q. ((p_state k)(p := PROCESS_STATE_RUNNING)) q \<noteq> PROCESS_STATE_NONE} \<subseteq>
      insert p {q. p_state k q \<noteq> PROCESS_STATE_NONE}" by auto
  from finite_subset [OF this] assms show ?thesis by (simp add: settled_def)
qed

lemma settled_within: "settled S k \<Longrightarrow> within S (S \<union> {p. p_state k p \<noteq> PROCESS_STATE_NONE}) k"
  by (simp add: settled_def within_def weight_def PROCESS_STATE_NONE_def)

lemma settled_after:
  assumes "settled S k" and "after S k k'"
  shows "keeps S k k'"
proof -
  note sp = settled_within [OF assms(1)] within_after [OF settled_within [OF assms(1)] assms(2)]
  have "p_state k' p = PROCESS_STATE_NONE" if "p \<notin> S" "p_state k p = PROCESS_STATE_NONE" for p
    using sp(2) that by (auto simp: within_def weight_def split: if_splits)
  then have "{p. p_state k' p \<noteq> PROCESS_STATE_NONE} \<subseteq> S \<union> {p. p_state k p \<noteq> PROCESS_STATE_NONE}" by auto
  then have "finite {p. p_state k' p \<noteq> PROCESS_STATE_NONE}"
    using assms(1) by (auto simp: settled_def intro: finite_subset)
  moreover have "spared S k" using assms(1) by (simp add: settled_def)
  ultimately show ?thesis
    using assms(1) afterD(1,3) [OF assms(2)] by (simp add: keeps_def settled_def)
qed

lemma keeps_trans: "keeps S k1 k2 \<Longrightarrow> keeps S k2 k3 \<Longrightarrow> keeps S k1 k3"
  by (simp add: keeps_def)

lemma keeps_refl: "settled S k \<Longrightarrow> keeps S k k"
  by (simp add: keeps_def)

lemma settled_call:
  assumes "tame_threads S th" and "settled S k" and "ev = PROCESS_EVENT_EXIT \<longrightarrow> p \<notin> S"
  obtains n k' u' where "map_option snd (kexec th n (JCall p ev data) (k, u)) = Some (k', u')" and "keeps S k k'"
proof -
  have "returns th S (JCall p ev data) k"
    using call_returns [OF assms(1) all_calls_return [OF assms(1)] settled_within [OF assms(2)] assms(3)] .
  then obtain r k' u' where "runs th (JCall p ev data) (k, u) (r, k', u')" "after S k k'"
    unfolding returns_def by blast
  with that settled_after [OF assms(2)] show thesis by (auto simp: runs_def)
qed

lemma poll_loop_total:
  assumes th: "tame_threads S th"
  shows "settled S k \<Longrightarrow> falling S V f k \<Longrightarrow> (case q of None \<Rightarrow> True | Some x \<Rightarrow> x \<in> V) \<Longrightarrow>
    \<exists>n k' u'. poll_loop th n q (k, u) = Some (k', u') \<and> keeps S k k'"
proof (induction "case q of None \<Rightarrow> 0 | Some x \<Rightarrow> Suc (f x)" arbitrary: q k u rule: less_induct)
  case less
  show ?case
  proof (cases q)
    case None
    then show ?thesis using keeps_refl [OF less.prems(1)] by (intro exI [of _ "Suc 0"]) simp
  next
    case (Some p)
    let ?k = "k\<lparr>p_state := (p_state k)(p := PROCESS_STATE_RUNNING), p_needspoll := (p_needspoll k)(p := 0)\<rparr>"
    obtain n k1 u1 where
      1: "(if p_needspoll k p \<noteq> 0 then map_option snd (kexec th n (JCall p PROCESS_EVENT_POLL DNull) (?k, u))
           else Some (k, u)) = Some (k1, u1)" "keeps S k k1"
    proof (cases "p_needspoll k p \<noteq> 0")
      case True
      have "settled S ?k" using settled_run [OF less.prems(1), of p] by simp
      from settled_call [OF th this, of PROCESS_EVENT_POLL p DNull u] INIT_not_EXIT(3) obtain n k1 u1 where
        "map_option snd (kexec th n (JCall p PROCESS_EVENT_POLL DNull) (?k, u)) = Some (k1, u1)" "keeps S ?k k1" by blast
      with True that show ?thesis by (simp add: keeps_def del: map_option_eq_Some)
    qed (use that [of _ k u] keeps_refl [OF less.prems(1)] in auto)
    have k1: "settled S k1" "falling S V f k1" using 1(2) less.prems(2) by (simp_all add: keeps_def)
    have x: "p_next k1 p = Some y \<Longrightarrow> y \<in> V \<and> f y < f p" for y
      using k1(2) less.prems(3) Some by (simp add: falling_def)
    obtain m k2 u2 where 2: "poll_loop th m (p_next k1 p) (k1, u1) = Some (k2, u2)" "keeps S k1 k2"
      using less.hyps [of "p_next k1 p" k1 u1] k1 x Some by (fastforce split: option.splits)
    have "(if p_needspoll k p \<noteq> 0
           then map_option snd (kexec th (max n m) (JCall p PROCESS_EVENT_POLL DNull) (?k, u))
           else Some (k, u)) = Some (k1, u1)"
      using 1(1) kexec_sys_mono [of th n _ _ _ "max n m"] by (auto simp del: map_option_eq_Some split: if_splits)
    moreover have "poll_loop th (max n m) (p_next k1 p) (k1, u1) = Some (k2, u2)"
      using poll_loop_mono [OF 2(1)] by simp
    ultimately have "poll_loop th (Suc (max n m)) q (k, u) = Some (k2, u2)"
      using Some by (simp del: map_option_eq_Some)
    with keeps_trans [OF 1(2) 2(2)] show ?thesis by blast
  qed
qed

lemma do_poll_total:
  assumes "tame_threads S th" and "settled S k"
  obtains n k' u' where "do_poll th n (k, u) = Some (k', u')" and "keeps S k k'"
proof -
  let ?k = "k\<lparr>poll_requested := 0\<rparr>"
  have k: "settled S ?k" using assms(2) by simp
  obtain xs where "procs ?k xs" using settled_inv [OF k] by (auto simp: kernel_inv_def)
  from procs_falling [OF this] obtain f where "falling S (set xs) f ?k"
    "case process_list ?k of None \<Rightarrow> True | Some x \<Rightarrow> x \<in> set xs" by blast
  from poll_loop_total [OF assms(1) k this, of u] obtain n k' u' where
    "poll_loop th n (process_list ?k) (?k, u) = Some (k', u')" "keeps S ?k k'" by blast
  with that show thesis by (simp add: do_poll_def keeps_def)
qed

lemma poll_if_total:
  assumes "tame_threads S th" and "settled S k"
  obtains n k' u' where "(if poll_requested k \<noteq> 0 then do_poll th n (k, u) else Some (k, u)) = Some (k', u')"
    and "keeps S k k'"
proof (cases "poll_requested k \<noteq> 0")
  case True
  with do_poll_total [OF assms, of u] that show thesis by (metis (full_types))
qed (use that [of _ k u] keeps_refl [OF assms(2)] in simp)

lemma broadcast_loop_total:
  assumes th: "tame_threads S th" and ev: "ev = PROCESS_EVENT_EXIT \<longrightarrow> S = {}"
  shows "settled S k \<Longrightarrow> falling S V f k \<Longrightarrow> (case q of None \<Rightarrow> True | Some x \<Rightarrow> x \<in> V) \<Longrightarrow>
    \<exists>n k' u'. broadcast_loop th n ev data q (k, u) = Some (k', u') \<and> keeps S k k'"
proof (induction "case q of None \<Rightarrow> 0 | Some x \<Rightarrow> Suc (f x)" arbitrary: q k u rule: less_induct)
  case less
  show ?case
  proof (cases q)
    case None
    then show ?thesis using keeps_refl [OF less.prems(1)] by (intro exI [of _ "Suc 0"]) simp
  next
    case (Some p)
    obtain n1 k1 u1 where
      1: "(if poll_requested k \<noteq> 0 then do_poll th n1 (k, u) else Some (k, u)) = Some (k1, u1)" "keeps S k k1"
      using poll_if_total [OF th less.prems(1)] by blast
    have "settled S k1" using 1(2) by (simp add: keeps_def)
    moreover have "ev = PROCESS_EVENT_EXIT \<longrightarrow> p \<notin> S" using ev by auto
    ultimately obtain n2 k2 u2 where
      2: "map_option snd (kexec th n2 (JCall p ev data) (k1, u1)) = Some (k2, u2)" "keeps S k1 k2"
      using settled_call [OF th, of k1 ev p data u1] by blast
    note a = keeps_trans [OF 1(2) 2(2)]
    then have k2: "settled S k2" "falling S V f k2" using less.prems(2) by (simp_all add: keeps_def)
    have x: "p_next k2 p = Some y \<Longrightarrow> y \<in> V \<and> f y < f p" for y
      using k2(2) less.prems(3) Some by (simp add: falling_def)
    obtain n3 k3 u3 where 3: "broadcast_loop th n3 ev data (p_next k2 p) (k2, u2) = Some (k3, u3)" "keeps S k2 k3"
      using less.hyps [of "p_next k2 p" k2 u2] k2 x Some by (fastforce split: option.splits)
    let ?n = "max n1 (max n2 n3)"
    have "(if poll_requested k \<noteq> 0 then do_poll th ?n (k, u) else Some (k, u)) = Some (k1, u1)"
      using 1(1) opt_le_Some [OF do_poll_opt_le [of n1 ?n th "(k, u)"]] by (auto split: if_splits)
    moreover have "map_option snd (kexec th ?n (JCall p ev data) (k1, u1)) = Some (k2, u2)"
      using opt_le_Some [OF kexec_opt_le 2(1), of ?n] by simp
    moreover have "broadcast_loop th ?n ev data (p_next k2 p) (k2, u2) = Some (k3, u3)"
      using opt_le_Some [OF broadcast_loop_opt_le 3(1), of ?n] by simp
    ultimately have "broadcast_loop th (Suc ?n) ev data q (k, u) = Some (k3, u3)"
      using Some by (simp del: map_option_eq_Some)
    with keeps_trans [OF a 3(2)] show ?thesis by blast
  qed
qed

lemma do_event_total:
  assumes th: "tame_threads S th" and k: "settled S k"
  shows "\<exists>n k' u'. do_event th n (k, u) = Some (k', u') \<and> settled S k'"
proof (cases "pending k")
  case Nil
  from next_event_Nil [OF settled_inv [OF k] this] k show ?thesis by (simp add: do_event_def)
next
  case (Cons e q)
  from next_event_Cons [OF settled_inv [OF k] this] obtain k1 where
    k1: "next_event k = (Some e, k1)" "kernel_inv k1" "pending k1 = q" .
  then have "p_state k1 = p_state k" by (auto simp: next_event_def split: if_splits)
  then have s1: "settled S k1" using k k1 Cons by (simp add: settled_def spared_def)
  have e: "ed_ev e = PROCESS_EVENT_EXIT \<longrightarrow> may_exit S (ed_p e)"
    using k Cons by (simp add: settled_def spared_def)
  show ?thesis
  proof (cases "ed_p e")
    case None
    obtain xs where "procs k1 xs" using k1(2) by (auto simp: kernel_inv_def)
    from procs_falling [OF this] obtain f where "falling S (set xs) f k1"
      "case process_list k1 of None \<Rightarrow> True | Some x \<Rightarrow> x \<in> set xs" by blast
    from broadcast_loop_total [OF th _ s1 this, of "ed_ev e" "ed_data e" u] None e k1(1) show ?thesis
      by (auto simp: do_event_def keeps_def)
  next
    case (Some p)
    let ?k = "if ed_ev e = PROCESS_EVENT_INIT
      then k1\<lparr>p_state := (p_state k1)(p := PROCESS_STATE_RUNNING)\<rparr> else k1"
    have "settled S ?k" using settled_run [OF s1, of p] s1 by simp
    moreover have "ed_ev e = PROCESS_EVENT_EXIT \<longrightarrow> p \<notin> S" using e Some by simp
    ultimately obtain n k2 u2 where
      "map_option snd (kexec th n (JCall p (ed_ev e) (ed_data e)) (?k, u)) = Some (k2, u2)" "keeps S ?k k2"
      using settled_call [OF th] by blast
    then have "do_event th n (k, u) = Some (k2, u2)" "settled S k2"
      using Some k1(1) by (simp_all add: do_event_def Let_def keeps_def del: map_option_eq_Some)
    then show ?thesis by blast
  qed
qed

lemma process_run_opt_le: "n \<le> m \<Longrightarrow> opt_le (process_run th n s) (process_run th m s)"
  by (auto simp: process_run_def intro!: opt_le_intros do_poll_opt_le do_event_opt_le opt_le_refl)

lemma process_run_total:
  assumes th: "tame_threads S th" and k: "settled S k"
  obtains n r k' u' where "process_run th n (k, u) = Some (r, k', u')" and "settled S k'"
proof -
  obtain n1 k1 u1 where
    1: "(if poll_requested k \<noteq> 0 then do_poll th n1 (k, u) else Some (k, u)) = Some (k1, u1)" "keeps S k k1"
    using poll_if_total [OF th k] by blast
  have "settled S k1" using 1(2) by (simp add: keeps_def)
  from do_event_total [OF th this, of u1] obtain n2 k2 u2 where
    2: "do_event th n2 (k1, u1) = Some (k2, u2)" "settled S k2" by blast
  have "(if poll_requested k \<noteq> 0 then do_poll th (max n1 n2) (k, u) else Some (k, u)) = Some (k1, u1)"
    using 1(1) opt_le_Some [OF do_poll_opt_le [of n1 "max n1 n2" th "(k, u)"]] by (auto split: if_splits)
  moreover have "do_event th (max n1 n2) (k1, u1) = Some (k2, u2)"
    using opt_le_Some [OF do_event_opt_le 2(1), of "max n1 n2"] by simp
  ultimately have "process_run th (max n1 n2) (k, u) = Some (process_nevents k2, k2, u2)"
    by (simp add: process_run_def)
  with 2(2) that show thesis by blast
qed

section \<open>Exits among quiet threads\<close>

lemma runs_unique: "runs th j s x \<Longrightarrow> runs th j s y \<Longrightarrow> x = y"
  unfolding runs_def by (metis kexec_mono max.cobounded1 max.cobounded2 option.inject)

lemma quiet_notify:
  assumes "quiet_threads th"
  shows "seg (p_next k) q xs None \<Longrightarrow>
    \<exists>r k' u'. runs th (JNotify p q) (k, u) (r, k', u') \<and> same_list k k'"
proof (induction xs arbitrary: q k u)
  case Nil
  then have "runs th (JNotify p q) (k, u) (RInt 0, k, u)" by (intro runs_step0) (simp add: notify_exited_def)
  then show ?case using same_list_simps(1) by blast
next
  case (Cons x xs)
  obtain k1 u1 where
    1: "p = x \<and> k1 = k \<and> u1 = u \<or>
      p \<noteq> x \<and> (\<exists>r. runs th (JCall x PROCESS_EVENT_EXITED (DProc p)) (k, u) (r, k1, u1))" "same_list k k1"
    using quiet_call_returns [OF assms INIT_not_EXIT(2), of x "DProc p" k u]
    by (cases "p = x") (auto simp: runs_def)
  have "seg (p_next k1) (p_next k1 x) xs None" using Cons.prems 1(2) by (simp add: same_list_def)
  from Cons.IH [OF this, of u1] obtain r k2 u2 where
    2: "runs th (JNotify p (p_next k1 x)) (k1, u1) (r, k2, u2)" "same_list k1 k2" by blast
  have "runs th (JNotify p q) (k, u) (r, k2, u2)"
    using 1(1)
  proof (elim disjE conjE exE)
    assume "p = x" "k1 = k" "u1 = u"
    then show ?thesis using Cons.prems by (intro runs_step1 [OF 2(1)]) (simp add: notify_exited_def)
  next
    fix r1
    assume "p \<noteq> x" and r1: "runs th (JCall x PROCESS_EVENT_EXITED (DProc p)) (k, u) (r1, k1, u1)"
    then show ?thesis using Cons.prems by (intro runs_step2 [OF r1 2(1)]) (simp add: notify_exited_def)
  qed
  with same_list_trans [OF 1(2) 2(2)] show ?case by blast
qed

lemma quiet_exit:
  assumes th: "quiet_threads th" and xs: "procs k xs"
  shows "\<exists>k' u'. runs th (JExit p frm) (k, u) (RInt 0, k', u') \<and> procs k' (remove1 p xs)"
proof -
  have find: "find_process (p_next k) p (process_list k) = Some (if p \<in> set xs then Some p else None)"
    using xs by (simp add: find_process_seg procs_def)
  obtain n r k1 u1 where
    1: "(if process_is_running p k then exit_running th (kexec th n) p frm (k, u) else Some (RInt 0, k, u)) =
        Some (r, k1, u1)" "same_list k k1"
  proof (cases "process_is_running p k")
    case True
    let ?k = "k\<lparr>p_state := (p_state k)(p := PROCESS_STATE_NONE)\<rparr>"
    obtain r1 k1 u1 n1 where
      1: "kexec th n1 (JNotify p (process_list k)) (?k, u) = Some (r1, k1, u1)" "same_list k k1"
      using quiet_notify [OF th, of ?k "process_list k" xs p u] xs by (auto simp: procs_def runs_def)
    show thesis
    proof (cases "th p = None \<or> Some p = frm")
      case True
      then have "exit_running th (kexec th n1) p frm (k, u) = Some (RInt 0, k1, u1)"
        using 1(1) by (auto simp: exit_running_def Let_def split: option.split)
      with that 1(2) \<open>process_is_running p k\<close> show thesis by auto
    next
      case False
      then obtain t where t: "th p = Some t" "Some p \<noteq> frm" by auto
      then have "quiet (t (p_lc k1 p) PROCESS_EVENT_EXIT DNull u1)" using th by (auto simp: quiet_threads_def)
      from quiet_thread_returns [OF this, of th p "k1\<lparr>process_current := Some p\<rparr>" u1] obtain n2 st k2 u2 where
        2: "kexec th n2 (JThread p (t (p_lc k1 p) PROCESS_EVENT_EXIT DNull u1)) (k1\<lparr>process_current := Some p\<rparr>, u1) =
          Some (RInt st, k2, u2)" "same_list k1 k2" by auto
      have "exit_running th (kexec th (max n1 n2)) p frm (k, u) = Some (RInt st, k2, u2)"
        using t kexec_mono [OF 1(1), of "max n1 n2"] kexec_mono [OF 2(1), of "max n1 n2"]
        by (simp add: exit_running_def Let_def)
      with that same_list_trans [OF 1(2) 2(2)] \<open>process_is_running p k\<close> show thesis by auto
    qed
  qed (use that [of _ "RInt 0" k u] in simp)
  have k1: "procs k1 xs" using xs 1(2) by (simp add: procs_def same_list_def)
  from unlink_process_procs [OF k1, of p] obtain k2 where
    2: "unlink_process p k1 = Some k2" "procs k2 (remove1 p xs)" by blast
  show ?thesis
  proof (cases "p \<in> set xs")
    case True
    have "kexec th (Suc n) (JExit p frm) (k, u) = Some (RInt 0, k2\<lparr>process_current := process_current k\<rparr>, u1)"
      using find True 1(1) 2(1) by (simp add: exit_process_def Let_def)
    then have "runs th (JExit p frm) (k, u) (RInt 0, k2\<lparr>process_current := process_current k\<rparr>, u1)"
      unfolding runs_def by blast
    moreover have "procs (k2\<lparr>process_current := process_current k\<rparr>) (remove1 p xs)"
      using 2(2) by (simp add: procs_def)
    ultimately show ?thesis by blast
  next
    case False
    with find have "runs th (JExit p frm) (k, u) (RInt 0, k, u)"
      by (intro runs_step0) (simp add: exit_process_def)
    with xs False show ?thesis by (metis remove1_idem)
  qed
qed

section \<open>Properties\<close>

text \<open>
  C9. With threads that post, call each other synchronously, exit each other or
  themselves, end, poll and start processes of \<open>S\<close>, nested in any way, a
  scheduler run returns: there is a result, the same for all larger fuel. It
  leaves the process list a proper list and the event ring well-formed, so that
  the next run returns as well, and the number returned counts the pending
  events and the poll request. Only finitely many processes run, and a process
  of \<open>S\<close>, which is all that may be started, is never exited.
\<close>

theorem process_run_invariant:
  assumes "tame_threads S th" and "settled S k"
  shows "\<exists>n r k' u'. (\<forall>m \<ge> n. process_run th m (k, u) = Some (r, k', u')) \<and>
    settled S k' \<and> kernel_inv k' \<and> r = int (length (pending k')) + uint (poll_requested k')"
proof -
  obtain n r k' u' where r: "process_run th n (k, u) = Some (r, k', u')" "settled S k'"
    using process_run_total [OF assms] by blast
  have "\<forall>m \<ge> n. process_run th m (k, u) = Some (r, k', u')"
    using opt_le_Some [OF process_run_opt_le r(1)] by blast
  moreover have "r = int (length (pending k')) + uint (poll_requested k')"
    using process_run_inv [OF _ r(1)] settled_inv [OF assms(2)] by simp
  ultimately show ?thesis using r(2) settled_inv [OF r(2)] by blast
qed

text \<open>
  Processes 1, 2, 3 and 6 run and an event 7 is broadcast. Process 1 calls 2,
  which exits 3 and starts 4; 6 is told of the exit, 3 ends, and 4 asks to be
  polled. Each thread adds its number and the event to a log.
\<close>

definition demo_threads :: "(nat, unit, (nat \<times> u8) list) threads" where
  "demo_threads = (\<lambda>p.
     if p = 1 then Some (\<lambda>lc ev data u. if ev = 7
       then Call (SPostSynch 2 5 DNull) (u @ [(1, ev)]) (\<lambda>r u. Ret PT_YIELDED lc u)
       else Ret PT_YIELDED lc (u @ [(1, ev)]))
     else if p = 2 then Some (\<lambda>lc ev data u. if ev = 5
       then Call (SExit 3) (u @ [(2, ev)]) (\<lambda>r u. Call (SStart 4 DNull) u (\<lambda>r u. Ret PT_YIELDED lc u))
       else Ret PT_YIELDED lc (u @ [(2, ev)]))
     else if p = 3 then Some (\<lambda>lc ev data u. Ret PT_ENDED lc (u @ [(3, ev)]))
     else if p = 4 then Some (\<lambda>lc ev data u. if ev = PROCESS_EVENT_INIT
       then Call (SPoll (Some 4)) (u @ [(4, ev)]) (\<lambda>r u. Ret PT_YIELDED lc u)
       else Ret PT_YIELDED lc (u @ [(4, ev)]))
     else if p = 6 then Some (\<lambda>lc ev data u. Ret PT_YIELDED lc (u @ [(6, ev)]))
     else None)"

definition demo_kernel :: "(nat, unit) kernel" where
  "demo_kernel = snd (process_post None 7 DNull (boot_kernel\<lparr>process_list := Some 1,
     p_next := (\<lambda>_. None)(1 := Some 2, 2 := Some 3, 3 := Some 6),
     p_state := (\<lambda>_. 0)(1 := 1, 2 := 1, 3 := 1, 6 := 1)\<rparr>))"

lemma demo_tame: "tame_threads {4} demo_threads"
  by (auto simp: tame_threads_def demo_threads_def process_consts intro!: tame.intros split: if_splits)

lemma demo_settled:
  assumes "finite S"
  shows "settled S demo_kernel"
proof -
  let ?k = "(boot_kernel :: (nat, unit) kernel)\<lparr>process_list := Some 1,
     p_next := (\<lambda>_. None)(1 := Some 2, 2 := Some 3, 3 := Some 6),
     p_state := (\<lambda>_. 0)(1 := 1, 2 := 1, 3 := 1, 6 := 1)\<rparr>"
  have "procs ?k [1, 2, 3, 6]" by (simp add: procs_def)
  then have "kernel_inv ?k" using boot_kernel_inv(1) unfolding kernel_inv_def by auto
  moreover have "pending ?k = []" using boot_kernel_inv(2) by (simp add: pending_def)
  ultimately have "spared S ?k" by (simp add: spared_def)
  moreover have "after S ?k demo_kernel"
    using process_post_after [of 7 S None ?k DNull] by (simp add: demo_kernel_def PROCESS_EVENT_EXIT_def)
  ultimately have "spared S demo_kernel" by (rule afterD(1) [rotated])
  moreover have "p_state demo_kernel = (\<lambda>_. 0)(1 := 1, 2 := 1, 3 := 1, 6 := 1)"
    by (simp add: demo_kernel_def process_post_def Let_def)
  moreover have "finite {p :: nat. ((\<lambda>_. 0)(1 := 1, 2 := 1, 3 := 1, 6 := 1 :: u8)) p \<noteq> 0}"
    by (rule finite_subset [of _ "{1, 2, 3, 6}"]) auto
  ultimately show ?thesis using assms by (simp add: settled_def PROCESS_STATE_NONE_def)
qed

lemma demo_run:
  "map_option (\<lambda>(r, k, u). (r, process_list k, map (p_next k) [4, 1, 2, 6], p_state k 3, u))
     (process_run demo_threads 30 (demo_kernel, [])) =
   Some (0, Some 4, [Some 1, Some 2, Some 6, None], PROCESS_STATE_NONE,
     [(1, 7), (2, 5), (6, PROCESS_EVENT_EXITED), (3, PROCESS_EVENT_EXIT), (4, PROCESS_EVENT_INIT),
      (4, PROCESS_EVENT_POLL), (2, 7), (6, 7)])"
  by code_simp

theorem process_run_invariant_witness:
  "\<exists>n k'. (\<forall>m \<ge> n. process_run demo_threads m (demo_kernel, []) = Some (0, k',
       [(1, 7), (2, 5), (6, PROCESS_EVENT_EXITED), (3, PROCESS_EVENT_EXIT), (4, PROCESS_EVENT_INIT),
        (4, PROCESS_EVENT_POLL), (2, 7), (6, 7)])) \<and>
     kernel_inv k' \<and> pending k' = [] \<and> procs k' [4, 1, 2, 6]"
proof -
  obtain n r k' u' where r: "\<forall>m \<ge> n. process_run demo_threads m (demo_kernel, []) = Some (r, k', u')"
    "kernel_inv k'" "r = int (length (pending k')) + uint (poll_requested k')"
    using process_run_invariant [OF demo_tame demo_settled, of "[]"] by blast
  then have "process_run demo_threads (max n 30) (demo_kernel, []) = Some (r, k', u')" by simp
  moreover obtain x where x: "process_run demo_threads 30 (demo_kernel, []) = Some x"
    using demo_run by (cases "process_run demo_threads 30 (demo_kernel, [])") simp_all
  ultimately have "process_run demo_threads 30 (demo_kernel, []) = Some (r, k', u')"
    using opt_le_Some [OF process_run_opt_le x, of "max n 30"] by simp
  with demo_run have o: "r = 0" "process_list k' = Some 4" "map (p_next k') [4, 1, 2, 6] = [Some 1, Some 2, Some 6, None]"
    "u' = [(1, 7), (2, 5), (6, PROCESS_EVENT_EXITED), (3, PROCESS_EVENT_EXIT), (4, PROCESS_EVENT_INIT),
      (4, PROCESS_EVENT_POLL), (2, 7), (6, 7)]" by simp_all
  moreover have "pending k' = []" using r(3) o(1) uint_ge_0 [of "poll_requested k'"] by (simp add: add_nonneg_eq_0_iff)
  moreover have "procs k' [4, 1, 2, 6]" using o(2,3) by (simp add: procs_def)
  ultimately show ?thesis using r(1,2) by blast
qed

text \<open>
  C17. \<open>process_exit\<close> of a process that may be exited returns, whatever the other
  processes do when they are told and whatever the thread itself does with its
  exit event: they may call, start and exit others, the process itself too. It
  is off the list then, the kernel can go on and \<open>process_current\<close> is what it
  was. When the threads make asynchronous calls only, exactly the process is
  taken off the list.
\<close>

theorem process_exit_off_list:
  assumes "tame_threads S th" and "settled S k" and "p \<notin> S" and "procs k xs"
  shows "\<exists>n k' u'. (\<forall>m \<ge> n. process_exit (kexec th m) p (k, u) = Some (RInt 0, k', u')) \<and>
    settled S k' \<and> (\<exists>ys. procs k' ys \<and> p \<notin> set ys \<and> (quiet_threads th \<longrightarrow> ys = remove1 p xs)) \<and>
    process_current k' = process_current k"
proof -
  have "returns th S (JExit p (process_current k)) k"
    using exit_returns [OF assms(1) all_calls_return [OF assms(1)] settled_within [OF assms(2)] assms(3)] .
  then obtain r k' u' where r: "runs th (JExit p (process_current k)) (k, u) (r, k', u')" "after S k k'"
    unfolding returns_def by blast
  then obtain n where n: "process_exit (kexec th n) p (k, u) = Some (r, k', u')"
    by (auto simp: runs_def process_exit_def)
  then have "r = RInt 0"
    by (cases n) (auto simp: process_exit_def exit_process_def Let_def bind_eq_Some_conv split: if_splits)
  moreover have "\<forall>m \<ge> n. process_exit (kexec th m) p (k, u) = Some (r, k', u')"
    using n unfolding process_exit_def by (auto intro: kexec_mono)
  moreover have "settled S k'" using settled_after [OF assms(2) r(2)] by (simp add: keeps_def)
  moreover from process_exit_removed [OF settled_inv [OF assms(2)] n]
  obtain ys where "procs k' ys" "p \<notin> set ys" "process_current k' = process_current k" by blast
  moreover have "ys = remove1 p xs" if q: "quiet_threads th" and ys: "procs k' ys"
    using quiet_exit [OF q assms(4), of p "process_current k" u] runs_unique [OF r(1)] procs_unique [OF ys] by blast
  ultimately show ?thesis by blast
qed

definition logging_threads :: "(nat, unit, (nat \<times> u8) list) threads" where
  "logging_threads = (\<lambda>p. Some (\<lambda>lc ev data u. Ret PT_YIELDED lc (u @ [(p, ev)])))"

lemma logging_exit:
  "map_option (\<lambda>(r, k, u). u) (process_exit (kexec logging_threads 30) 3 (demo_kernel, [])) =
   Some [(1, PROCESS_EVENT_EXITED), (2, PROCESS_EVENT_EXITED), (6, PROCESS_EVENT_EXITED), (3, PROCESS_EVENT_EXIT)]"
  by code_simp

theorem process_exit_off_list_witness:
  "\<exists>n k'. (\<forall>m \<ge> n. process_exit (kexec logging_threads m) 3 (demo_kernel, []) = Some (RInt 0, k',
       [(1, PROCESS_EVENT_EXITED), (2, PROCESS_EVENT_EXITED), (6, PROCESS_EVENT_EXITED), (3, PROCESS_EVENT_EXIT)])) \<and>
     procs k' [1, 2, 6]"
proof -
  have tame: "tame_threads {} logging_threads"
    by (auto simp: tame_threads_def logging_threads_def intro!: tame_Ret)
  have quiet: "quiet_threads logging_threads"
    by (auto simp: quiet_threads_def logging_threads_def process_consts intro!: quiet_Ret)
  have xs: "procs demo_kernel [1, 2, 3, 6]"
    by (simp add: procs_def demo_kernel_def process_post_def Let_def)
  from process_exit_off_list [OF tame demo_settled _ xs, of 3 "[]"] quiet obtain n k' u' where
    r: "\<forall>m \<ge> n. process_exit (kexec logging_threads m) 3 (demo_kernel, []) = Some (RInt 0, k', u')"
    "procs k' [1, 2, 6]" by auto
  obtain x where x: "process_exit (kexec logging_threads 30) 3 (demo_kernel, []) = Some x"
    using logging_exit by (cases "process_exit (kexec logging_threads 30) 3 (demo_kernel, [])") simp_all
  then have "process_exit (kexec logging_threads (max n 30)) 3 (demo_kernel, []) = Some x"
    unfolding process_exit_def by (auto intro: kexec_mono)
  with r(1) x logging_exit have "u' = [(1, PROCESS_EVENT_EXITED), (2, PROCESS_EVENT_EXITED),
      (6, PROCESS_EVENT_EXITED), (3, PROCESS_EVENT_EXIT)]" by auto
  with r show ?thesis by blast
qed

end
