(* ===== verification/Iphc.thy ===== *)
theory Iphc
  imports Packetbuf
begin

text \<open>
  The header compression of \<open>core/net/ipv6/sicslowpan.c\<close> (HC06, that is LOWPAN_IPHC
  with LOWPAN_UDP) in the configuration of the nodes: 8-byte link addresses,
  UDP, no additional next header compressor. The packet in \<open>uip_buf\<close> and the
  packet assembled in \<open>sicslowpan_buf\<close> are byte lists with the IPv6 header in the
  first 40 bytes and a UDP header in the next 8; \<open>hc06_ptr\<close> is an offset from
  \<open>packetbuf_ptr\<close>.
\<close>

section \<open>Constants\<close>

definition UIP_IPH_LEN :: nat where "UIP_IPH_LEN = 40"
definition UIP_UDPH_LEN :: nat where "UIP_UDPH_LEN = 8"
definition UIP_PROTO_TCP :: u8 where "UIP_PROTO_TCP = 6"
definition UIP_PROTO_UDP :: u8 where "UIP_PROTO_UDP = 17"
definition UIP_PROTO_ICMP6 :: u8 where "UIP_PROTO_ICMP6 = 58"

definition SICSLOWPAN_DISPATCH_IPV6 :: u8 where "SICSLOWPAN_DISPATCH_IPV6 = 0x41"
definition SICSLOWPAN_DISPATCH_IPHC :: u8 where "SICSLOWPAN_DISPATCH_IPHC = 0x60"
definition SICSLOWPAN_IPV6_HDR_LEN :: nat where "SICSLOWPAN_IPV6_HDR_LEN = 1"

definition SICSLOWPAN_IPHC_FL_C :: u8 where "SICSLOWPAN_IPHC_FL_C = 0x10"
definition SICSLOWPAN_IPHC_TC_C :: u8 where "SICSLOWPAN_IPHC_TC_C = 0x08"
definition SICSLOWPAN_IPHC_NH_C :: u8 where "SICSLOWPAN_IPHC_NH_C = 0x04"
definition SICSLOWPAN_IPHC_TTL_1 :: u8 where "SICSLOWPAN_IPHC_TTL_1 = 0x01"
definition SICSLOWPAN_IPHC_TTL_64 :: u8 where "SICSLOWPAN_IPHC_TTL_64 = 0x02"
definition SICSLOWPAN_IPHC_TTL_255 :: u8 where "SICSLOWPAN_IPHC_TTL_255 = 0x03"
definition SICSLOWPAN_IPHC_TTL_I :: u8 where "SICSLOWPAN_IPHC_TTL_I = 0x00"
definition SICSLOWPAN_IPHC_CID :: u8 where "SICSLOWPAN_IPHC_CID = 0x80"
definition SICSLOWPAN_IPHC_SAC :: u8 where "SICSLOWPAN_IPHC_SAC = 0x40"
definition SICSLOWPAN_IPHC_SAM_00 :: u8 where "SICSLOWPAN_IPHC_SAM_00 = 0x00"
definition SICSLOWPAN_IPHC_SAM_11 :: u8 where "SICSLOWPAN_IPHC_SAM_11 = 0x30"
definition SICSLOWPAN_IPHC_SAM_BIT :: nat where "SICSLOWPAN_IPHC_SAM_BIT = 4"
definition SICSLOWPAN_IPHC_M :: u8 where "SICSLOWPAN_IPHC_M = 0x08"
definition SICSLOWPAN_IPHC_DAC :: u8 where "SICSLOWPAN_IPHC_DAC = 0x04"
definition SICSLOWPAN_IPHC_DAM_00 :: u8 where "SICSLOWPAN_IPHC_DAM_00 = 0x00"
definition SICSLOWPAN_IPHC_DAM_01 :: u8 where "SICSLOWPAN_IPHC_DAM_01 = 0x01"
definition SICSLOWPAN_IPHC_DAM_10 :: u8 where "SICSLOWPAN_IPHC_DAM_10 = 0x02"
definition SICSLOWPAN_IPHC_DAM_11 :: u8 where "SICSLOWPAN_IPHC_DAM_11 = 0x03"
definition SICSLOWPAN_IPHC_DAM_BIT :: nat where "SICSLOWPAN_IPHC_DAM_BIT = 0"

definition SICSLOWPAN_NHC_UDP_MASK :: u8 where "SICSLOWPAN_NHC_UDP_MASK = 0xF8"
definition SICSLOWPAN_NHC_UDP_ID :: u8 where "SICSLOWPAN_NHC_UDP_ID = 0xF0"
definition SICSLOWPAN_NHC_UDP_CHECKSUMC :: u8 where "SICSLOWPAN_NHC_UDP_CHECKSUMC = 0x04"
definition SICSLOWPAN_NHC_UDP_CS_P_00 :: u8 where "SICSLOWPAN_NHC_UDP_CS_P_00 = 0xF0"
definition SICSLOWPAN_NHC_UDP_CS_P_01 :: u8 where "SICSLOWPAN_NHC_UDP_CS_P_01 = 0xF1"
definition SICSLOWPAN_NHC_UDP_CS_P_10 :: u8 where "SICSLOWPAN_NHC_UDP_CS_P_10 = 0xF2"
definition SICSLOWPAN_NHC_UDP_CS_P_11 :: u8 where "SICSLOWPAN_NHC_UDP_CS_P_11 = 0xF3"
definition SICSLOWPAN_UDP_4_BIT_PORT_MIN :: u16 where "SICSLOWPAN_UDP_4_BIT_PORT_MIN = 0xF0B0"
definition SICSLOWPAN_UDP_8_BIT_PORT_MIN :: u16 where "SICSLOWPAN_UDP_8_BIT_PORT_MIN = 0xF000"

definition unc_llconf :: "u8 list" where "unc_llconf = [0x0f, 0x28, 0x22, 0x20]"
definition unc_ctxconf :: "u8 list" where "unc_ctxconf = [0x00, 0x88, 0x82, 0x80]"
definition unc_mxconf :: "u8 list" where "unc_mxconf = [0x0f, 0x25, 0x23, 0x21]"
definition llprefix :: "u8 list" where "llprefix = [0xfe, 0x80]"
definition ttl_values :: "u8 list" where "ttl_values = [0, 1, 64, 255]"

section \<open>Addresses\<close>

type_synonym ipaddr = "u8 list"

text \<open>A 16-bit part of an address is zero (\<open>u16[i] == 0\<close>).\<close>

definition u16_zero :: "nat \<Rightarrow> ipaddr \<Rightarrow> bool" where
  "u16_zero i a \<longleftrightarrow> a ! (2 * i) = 0 \<and> a ! (2 * i + 1) = 0"

definition uip_is_addr_unspecified :: "ipaddr \<Rightarrow> bool" where
  "uip_is_addr_unspecified a \<longleftrightarrow> u16_zero 0 a \<and> u16_zero 1 a \<and> u16_zero 2 a \<and> u16_zero 3 a \<and>
     u16_zero 4 a \<and> u16_zero 5 a \<and> u16_zero 6 a \<and> u16_zero 7 a"

definition uip_is_addr_link_local :: "ipaddr \<Rightarrow> bool" where
  "uip_is_addr_link_local a \<longleftrightarrow> a ! 0 = 0xFE \<and> a ! 1 = 0x80"

definition uip_is_addr_mcast :: "ipaddr \<Rightarrow> bool" where
  "uip_is_addr_mcast a \<longleftrightarrow> a ! 0 = 0xFF"

definition uip_is_addr_mac_addr_based :: "ipaddr \<Rightarrow> linkaddr \<Rightarrow> bool" where
  "uip_is_addr_mac_addr_based a m \<longleftrightarrow> a ! 8 = m ! 0 XOR 0x02 \<and> a ! 9 = m ! 1 \<and> a ! 10 = m ! 2 \<and> a ! 11 = m ! 3 \<and>
     a ! 12 = m ! 4 \<and> a ! 13 = m ! 5 \<and> a ! 14 = m ! 6 \<and> a ! 15 = m ! 7"

definition uip_ipaddr_prefixcmp :: "ipaddr \<Rightarrow> ipaddr \<Rightarrow> nat \<Rightarrow> bool" where
  "uip_ipaddr_prefixcmp addr1 addr2 n \<longleftrightarrow> take (n div 8) addr1 = take (n div 8) addr2"

definition uip_ds6_set_addr_iid :: "ipaddr \<Rightarrow> linkaddr \<Rightarrow> ipaddr" where
  "uip_ds6_set_addr_iid a m = (let a = take 8 a @ take 8 m @ drop 16 a in a[8 := a ! 8 XOR 0x02])"

definition sicslowpan_is_iid_16_bit_compressable :: "ipaddr \<Rightarrow> bool" where
  "sicslowpan_is_iid_16_bit_compressable a \<longleftrightarrow>
     u16_zero 4 a \<and> a ! 10 = 0 \<and> a ! 11 = 0xff \<and> a ! 12 = 0xfe \<and> a ! 13 = 0"

definition sicslowpan_is_mcast_addr_compressable48 :: "ipaddr \<Rightarrow> bool" where
  "sicslowpan_is_mcast_addr_compressable48 a \<longleftrightarrow> u16_zero 1 a \<and> u16_zero 2 a \<and> u16_zero 3 a \<and> u16_zero 4 a \<and> a ! 10 = 0"

definition sicslowpan_is_mcast_addr_compressable32 :: "ipaddr \<Rightarrow> bool" where
  "sicslowpan_is_mcast_addr_compressable32 a \<longleftrightarrow>
     u16_zero 1 a \<and> u16_zero 2 a \<and> u16_zero 3 a \<and> u16_zero 4 a \<and> u16_zero 5 a \<and> a ! 12 = 0"

definition sicslowpan_is_mcast_addr_compressable8 :: "ipaddr \<Rightarrow> bool" where
  "sicslowpan_is_mcast_addr_compressable8 a \<longleftrightarrow> a ! 1 = 2 \<and> u16_zero 1 a \<and> u16_zero 2 a \<and> u16_zero 3 a \<and>
     u16_zero 4 a \<and> u16_zero 5 a \<and> u16_zero 6 a \<and> a ! 14 = 0"

record addr_context =
  ctx_used :: u8
  ctx_number :: u8
  ctx_prefix :: "u8 list"

definition addr_context_lookup_by_prefix :: "addr_context list \<Rightarrow> ipaddr \<Rightarrow> addr_context ptr" where
  "addr_context_lookup_by_prefix addr_contexts a =
     find (\<lambda>c. ctx_used c = 1 \<and> uip_ipaddr_prefixcmp (ctx_prefix c) a 64) addr_contexts"

definition addr_context_lookup_by_number :: "addr_context list \<Rightarrow> u8 \<Rightarrow> addr_context ptr" where
  "addr_context_lookup_by_number addr_contexts number = find (\<lambda>c. ctx_used c = 1 \<and> ctx_number c = number) addr_contexts"

section \<open>The IPv6 and UDP headers\<close>

definition ip_vtc :: "u8 list \<Rightarrow> u8" where "ip_vtc ip = ip ! 0"
definition ip_tcflow :: "u8 list \<Rightarrow> u8" where "ip_tcflow ip = ip ! 1"
definition ip_flow :: "u8 list \<Rightarrow> u8 list" where "ip_flow ip = take 2 (drop 2 ip)"
definition ip_proto :: "u8 list \<Rightarrow> u8" where "ip_proto ip = ip ! 6"
definition ip_ttl :: "u8 list \<Rightarrow> u8" where "ip_ttl ip = ip ! 7"
definition ip_srcipaddr :: "u8 list \<Rightarrow> ipaddr" where "ip_srcipaddr ip = take 16 (drop 8 ip)"
definition ip_destipaddr :: "u8 list \<Rightarrow> ipaddr" where "ip_destipaddr ip = take 16 (drop 24 ip)"

text \<open>The ports in host byte order (\<open>UIP_HTONS\<close>).\<close>

definition udp_srcport :: "u8 list \<Rightarrow> u16" where "udp_srcport ip = of_be16 (ip ! 40) (ip ! 41)"
definition udp_destport :: "u8 list \<Rightarrow> u16" where "udp_destport ip = of_be16 (ip ! 42) (ip ! 43)"

section \<open>Compression\<close>

text \<open>
  The parts of \<open>compress_hdr_hc06\<close> in their order: each gives the flags it sets in
  its encoding byte and the bytes it writes at \<open>hc06_ptr\<close>.
\<close>

definition compress_addr_64 :: "nat \<Rightarrow> ipaddr \<Rightarrow> linkaddr \<Rightarrow> u8 \<times> u8 list" where
  "compress_addr_64 bitpos a lladdr =
     (if uip_is_addr_mac_addr_based a lladdr then (push_bit bitpos 3, [])
      else if sicslowpan_is_iid_16_bit_compressable a then (push_bit bitpos 2, take 2 (drop 14 a))
      else (push_bit bitpos 1, take 8 (drop 8 a)))"

definition compress_tf :: "u8 list \<Rightarrow> u8 \<times> u8 list" where
  "compress_tf ip = (let
     tmp = push_bit 4 (ip_vtc ip) OR drop_bit 4 (ip_tcflow ip);
     tmp = push_bit 6 (tmp AND 0x03) OR drop_bit 2 tmp in
     if ip_tcflow ip AND 0x0F = 0 \<and> ip_flow ip = [0, 0] then
       if ip_vtc ip AND 0x0F = 0 \<and> ip_tcflow ip AND 0xF0 = 0 then (SICSLOWPAN_IPHC_FL_C OR SICSLOWPAN_IPHC_TC_C, [])
       else (SICSLOWPAN_IPHC_FL_C, [tmp])
     else if ip_vtc ip AND 0x0F = 0 \<and> ip_tcflow ip AND 0xF0 = 0
       then (SICSLOWPAN_IPHC_TC_C, ((tmp AND 0xc0) OR (ip_tcflow ip AND 0x0F)) # ip_flow ip)
       else (0, tmp # tl (take 4 ip)))"

definition compress_nh :: "u8 list \<Rightarrow> u8 \<times> u8 list" where
  "compress_nh ip = (if ip_proto ip = UIP_PROTO_UDP then (SICSLOWPAN_IPHC_NH_C, []) else (0, [ip_proto ip]))"

definition compress_ttl :: "u8 list \<Rightarrow> u8 \<times> u8 list" where
  "compress_ttl ip = (
     if ip_ttl ip = 1 then (SICSLOWPAN_IPHC_TTL_1, [])
     else if ip_ttl ip = 64 then (SICSLOWPAN_IPHC_TTL_64, [])
     else if ip_ttl ip = 255 then (SICSLOWPAN_IPHC_TTL_255, [])
     else (0, [ip_ttl ip]))"

text \<open>The addresses give in addition what is or-ed into the context byte.\<close>

definition compress_src :: "addr_context list \<Rightarrow> linkaddr \<Rightarrow> u8 list \<Rightarrow> u8 \<times> u8 \<times> u8 list" where
  "compress_src addr_contexts uip_lladdr ip = (let src = ip_srcipaddr ip; dest = ip_destipaddr ip in
     if uip_is_addr_unspecified src then (SICSLOWPAN_IPHC_SAC OR SICSLOWPAN_IPHC_SAM_00, 0, [])
     else case addr_context_lookup_by_prefix addr_contexts src of
       Some context \<Rightarrow> (let (m, bs) = compress_addr_64 SICSLOWPAN_IPHC_SAM_BIT src uip_lladdr in
         (SICSLOWPAN_IPHC_CID OR SICSLOWPAN_IPHC_SAC OR m, push_bit 4 (ctx_number context), bs))
     | None \<Rightarrow>
       if uip_is_addr_link_local src \<and> u16_zero 1 dest \<and> u16_zero 2 dest \<and> u16_zero 3 dest
       then (let (m, bs) = compress_addr_64 SICSLOWPAN_IPHC_SAM_BIT src uip_lladdr in (m, 0, bs))
       else (SICSLOWPAN_IPHC_SAM_00, 0, src))"

definition compress_dest :: "addr_context list \<Rightarrow> linkaddr \<Rightarrow> u8 list \<Rightarrow> u8 \<times> u8 \<times> u8 list" where
  "compress_dest addr_contexts link_destaddr ip = (let dest = ip_destipaddr ip in
     if uip_is_addr_mcast dest then
       if sicslowpan_is_mcast_addr_compressable8 dest
         then (SICSLOWPAN_IPHC_M OR SICSLOWPAN_IPHC_DAM_11, 0, [dest ! 15])
       else if sicslowpan_is_mcast_addr_compressable32 dest
         then (SICSLOWPAN_IPHC_M OR SICSLOWPAN_IPHC_DAM_10, 0, dest ! 1 # take 3 (drop 13 dest))
       else if sicslowpan_is_mcast_addr_compressable48 dest
         then (SICSLOWPAN_IPHC_M OR SICSLOWPAN_IPHC_DAM_01, 0, dest ! 1 # take 5 (drop 11 dest))
       else (SICSLOWPAN_IPHC_M OR SICSLOWPAN_IPHC_DAM_00, 0, dest)
     else case addr_context_lookup_by_prefix addr_contexts dest of
       Some context \<Rightarrow> (let (m, bs) = compress_addr_64 SICSLOWPAN_IPHC_DAM_BIT dest link_destaddr in
         (SICSLOWPAN_IPHC_DAC OR m, ctx_number context, bs))
     | None \<Rightarrow>
       if uip_is_addr_link_local dest \<and> u16_zero 1 dest \<and> u16_zero 2 dest \<and> u16_zero 3 dest
       then (let (m, bs) = compress_addr_64 SICSLOWPAN_IPHC_DAM_BIT dest link_destaddr in (m, 0, bs))
       else (SICSLOWPAN_IPHC_DAM_00, 0, dest))"

definition compress_udp :: "u8 list \<Rightarrow> u8 list" where
  "compress_udp ip = (let s = udp_srcport ip; d = udp_destport ip in
     (if s AND 0xfff0 = SICSLOWPAN_UDP_4_BIT_PORT_MIN \<and> d AND 0xfff0 = SICSLOWPAN_UDP_4_BIT_PORT_MIN
      then [SICSLOWPAN_NHC_UDP_CS_P_11,
        ucast (push_bit 4 (s - SICSLOWPAN_UDP_4_BIT_PORT_MIN)) + ucast (d - SICSLOWPAN_UDP_4_BIT_PORT_MIN)]
      else if d AND 0xff00 = SICSLOWPAN_UDP_8_BIT_PORT_MIN
      then SICSLOWPAN_NHC_UDP_CS_P_01 # take 2 (drop 40 ip) @ [ucast (d - SICSLOWPAN_UDP_8_BIT_PORT_MIN)]
      else if s AND 0xff00 = SICSLOWPAN_UDP_8_BIT_PORT_MIN
      then SICSLOWPAN_NHC_UDP_CS_P_10 # ucast (s - SICSLOWPAN_UDP_8_BIT_PORT_MIN) # take 2 (drop 42 ip)
      else SICSLOWPAN_NHC_UDP_CS_P_00 # take 4 (drop 40 ip)) @ take 2 (drop 46 ip))"

text \<open>
  The result: the packet buffer from \<open>packetbuf_ptr\<close> on, \<open>packetbuf_hdr_len\<close> and
  \<open>uncomp_hdr_len\<close>. \<open>packetbuf_hdr_len\<close> is zero at the start (\<open>output\<close> has reset it).
\<close>

definition compress_hdr_hc06 :: "addr_context list \<Rightarrow> linkaddr \<Rightarrow> linkaddr \<Rightarrow> u8 list \<Rightarrow> u8 list \<Rightarrow> (u8 list \<times> u8 \<times> u8) option" where
  "compress_hdr_hc06 addr_contexts uip_lladdr link_destaddr ip buf = do {
     let iphc1 = (if addr_context_lookup_by_prefix addr_contexts (ip_destipaddr ip) \<noteq> None \<or>
         addr_context_lookup_by_prefix addr_contexts (ip_srcipaddr ip) \<noteq> None
       then SICSLOWPAN_IPHC_CID else 0);
     let hc06_ptr = (if iphc1 AND SICSLOWPAN_IPHC_CID \<noteq> 0 then 3 else 2);
     let (tf, tf_bytes) = compress_tf ip;
     let (nh, nh_bytes) = compress_nh ip;
     let (ttl, ttl_bytes) = compress_ttl ip;
     let (sam, sci, src_bytes) = compress_src addr_contexts uip_lladdr ip;
     let (dam, dci, dest_bytes) = compress_dest addr_contexts link_destaddr ip;
     let iphc0 = SICSLOWPAN_DISPATCH_IPHC OR tf OR nh OR ttl;
     let iphc1 = iphc1 OR sam OR dam;
     buf \<leftarrow> write_bytes 2 [0] buf;
     (buf, hc06_ptr) \<leftarrow> puts tf_bytes (buf, hc06_ptr);
     (buf, hc06_ptr) \<leftarrow> puts nh_bytes (buf, hc06_ptr);
     (buf, hc06_ptr) \<leftarrow> puts ttl_bytes (buf, hc06_ptr);
     buf \<leftarrow> (if sci = 0 then Some buf else write_bytes 2 [buf ! 2 OR sci] buf);
     (buf, hc06_ptr) \<leftarrow> puts src_bytes (buf, hc06_ptr);
     buf \<leftarrow> (if dci = 0 then Some buf else write_bytes 2 [buf ! 2 OR dci] buf);
     (buf, hc06_ptr) \<leftarrow> puts dest_bytes (buf, hc06_ptr);
     (buf, hc06_ptr) \<leftarrow> (if ip_proto ip = UIP_PROTO_UDP then puts (compress_udp ip) (buf, hc06_ptr) else Some (buf, hc06_ptr));
     buf \<leftarrow> write_bytes 0 [iphc0, iphc1] buf;
     Some (buf, of_nat hc06_ptr, of_nat UIP_IPH_LEN + (if ip_proto ip = UIP_PROTO_UDP then of_nat UIP_UDPH_LEN else 0))
   }"

definition compress_hdr_ipv6 :: "u8 list \<Rightarrow> u8 list \<Rightarrow> (u8 list \<times> u8 \<times> u8) option" where
  "compress_hdr_ipv6 ip buf = do {
     buf \<leftarrow> write_bytes 0 [SICSLOWPAN_DISPATCH_IPV6] buf;
     buf \<leftarrow> write_bytes SICSLOWPAN_IPV6_HDR_LEN (take UIP_IPH_LEN ip) buf;
     Some (buf, of_nat (SICSLOWPAN_IPV6_HDR_LEN + UIP_IPH_LEN), of_nat UIP_IPH_LEN)
   }"

section \<open>Decompression\<close>

text \<open>A bit field of \<open>pref_post_count\<close>, with 15 for 16.\<close>

definition full_nibble :: "u8 \<Rightarrow> nat" where
  "full_nibble w = (if w = 15 then 16 else unat w)"

definition uncompress_addr :: "ipaddr \<Rightarrow> u8 list \<Rightarrow> u8 \<Rightarrow> linkaddr \<Rightarrow> u8 list \<times> nat \<Rightarrow> (ipaddr \<times> nat) option" where
  "uncompress_addr ipaddr pref pref_post_count lladdr = (\<lambda>(buf, hc06_ptr). let
     prefcount = full_nibble (drop_bit 4 pref_post_count);
     postcount = full_nibble (pref_post_count AND 0x0f) in do {
     ipaddr \<leftarrow> (if prefcount > 0 then Option.bind (read_bytes 0 prefcount pref) (\<lambda>bs. write_bytes 0 bs ipaddr) else Some ipaddr);
     ipaddr \<leftarrow> (if prefcount + postcount < 16
       then write_bytes prefcount (replicate (16 - (prefcount + postcount)) 0) ipaddr else Some ipaddr);
     (if postcount > 0 then do {
        bs \<leftarrow> read_bytes hc06_ptr postcount buf;
        ipaddr \<leftarrow> write_bytes (16 - postcount) bs ipaddr;
        ipaddr \<leftarrow> (if postcount = 2 \<and> prefcount < 11 then write_bytes 11 [0xff, 0xfe] ipaddr else Some ipaddr);
        Some (ipaddr, hc06_ptr + postcount)
      } else if prefcount > 0 then Some (uip_ds6_set_addr_iid ipaddr lladdr, hc06_ptr)
      else Some (ipaddr, hc06_ptr))
   })"

text \<open>
  The parts of \<open>uncompress_hdr_hc06\<close>: each reads the packet at \<open>hc06_ptr\<close> and writes
  its fields of the header in \<open>sicslowpan_buf\<close>.
\<close>

definition uncompress_tf :: "u8 \<Rightarrow> u8 list \<Rightarrow> nat \<times> u8 list \<Rightarrow> (nat \<times> u8 list) option" where
  "uncompress_tf iphc0 buf = (\<lambda>(hc06_ptr, sb).
     if iphc0 AND SICSLOWPAN_IPHC_FL_C = 0 then
       if iphc0 AND SICSLOWPAN_IPHC_TC_C = 0 then do {
         bs \<leftarrow> read_bytes (hc06_ptr + 1) 3 buf;
         sb \<leftarrow> write_bytes 1 bs sb;
         tmp \<leftarrow> get buf hc06_ptr;
         sb \<leftarrow> write_bytes 0 [0x60 OR (drop_bit 2 tmp AND 0x0f)] sb;
         sb \<leftarrow> write_bytes 1 [(drop_bit 2 tmp AND 0x30) OR push_bit 6 tmp OR (ip_tcflow sb AND 0x0f)] sb;
         Some (hc06_ptr + 4, sb)
       } else do {
         sb \<leftarrow> write_bytes 0 [0x60] sb;
         b \<leftarrow> get buf hc06_ptr;
         sb \<leftarrow> write_bytes 1 [(b AND 0x0F) OR (drop_bit 2 b AND 0x30)] sb;
         bs \<leftarrow> read_bytes (hc06_ptr + 1) 2 buf;
         sb \<leftarrow> write_bytes 2 bs sb;
         Some (hc06_ptr + 3, sb)
       }
     else
       if iphc0 AND SICSLOWPAN_IPHC_TC_C = 0 then do {
         b \<leftarrow> get buf hc06_ptr;
         sb \<leftarrow> write_bytes 0 [0x60 OR (drop_bit 2 b AND 0x0f)] sb;
         sb \<leftarrow> write_bytes 1 [(push_bit 6 b AND 0xC0) OR (drop_bit 2 b AND 0x30)] sb;
         sb \<leftarrow> write_bytes 2 [0, 0] sb;
         Some (hc06_ptr + 1, sb)
       } else map_option (Pair hc06_ptr) (write_bytes 0 [0x60, 0, 0, 0] sb))"

definition uncompress_nh :: "u8 \<Rightarrow> u8 list \<Rightarrow> nat \<times> u8 list \<Rightarrow> (nat \<times> u8 list) option" where
  "uncompress_nh iphc0 buf = (\<lambda>(hc06_ptr, sb).
     if iphc0 AND SICSLOWPAN_IPHC_NH_C = 0
     then do { b \<leftarrow> get buf hc06_ptr; sb \<leftarrow> write_bytes 6 [b] sb; Some (hc06_ptr + 1, sb) }
     else Some (hc06_ptr, sb))"

definition uncompress_ttl :: "u8 \<Rightarrow> u8 list \<Rightarrow> nat \<times> u8 list \<Rightarrow> (nat \<times> u8 list) option" where
  "uncompress_ttl iphc0 buf = (\<lambda>(hc06_ptr, sb).
     if iphc0 AND 0x03 \<noteq> SICSLOWPAN_IPHC_TTL_I
     then map_option (Pair hc06_ptr) (write_bytes 7 [ttl_values ! unat (iphc0 AND 0x03)] sb)
     else do { b \<leftarrow> get buf hc06_ptr; sb \<leftarrow> write_bytes 7 [b] sb; Some (hc06_ptr + 1, sb) })"

text \<open>The inner \<^term>\<open>None\<close> is the return on a missing context. \<open>base\<close> is \<open>packetbuf_hdr_len\<close>.\<close>

definition uncompress_src :: "addr_context list \<Rightarrow> linkaddr \<Rightarrow> nat \<Rightarrow> u8 \<Rightarrow> u8 list \<Rightarrow> nat \<times> u8 list \<Rightarrow> (nat \<times> u8 list) option option" where
  "uncompress_src addr_contexts sender base iphc1 buf = (\<lambda>(hc06_ptr, sb). let
     tmp = unat (drop_bit SICSLOWPAN_IPHC_SAM_BIT (iphc1 AND SICSLOWPAN_IPHC_SAM_11) AND 0x03);
     src = ip_srcipaddr sb;
     store = (\<lambda>(a, p). map_option (\<lambda>sb. Some (p, sb)) (write_bytes 8 a sb)) in
     if iphc1 AND SICSLOWPAN_IPHC_SAC \<noteq> 0 then do {
       b \<leftarrow> (if iphc1 AND SICSLOWPAN_IPHC_CID \<noteq> 0 then get buf (base + 2) else Some 0);
       let sci = drop_bit 4 b;
       (if tmp \<noteq> 0 then
          (case addr_context_lookup_by_number addr_contexts sci of
             None \<Rightarrow> Some None
           | Some context \<Rightarrow> Option.bind (uncompress_addr src (ctx_prefix context) (unc_ctxconf ! tmp) sender (buf, hc06_ptr)) store)
        else Option.bind (uncompress_addr src [] (unc_ctxconf ! tmp) sender (buf, hc06_ptr)) store)
     } else Option.bind (uncompress_addr src llprefix (unc_llconf ! tmp) sender (buf, hc06_ptr)) store)"

definition uncompress_dest :: "addr_context list \<Rightarrow> linkaddr \<Rightarrow> nat \<Rightarrow> u8 \<Rightarrow> u8 list \<Rightarrow> nat \<times> u8 list \<Rightarrow> (nat \<times> u8 list) option option" where
  "uncompress_dest addr_contexts receiver base iphc1 buf = (\<lambda>(hc06_ptr, sb). let
     tmp = unat (drop_bit SICSLOWPAN_IPHC_DAM_BIT (iphc1 AND SICSLOWPAN_IPHC_DAM_11) AND 0x03);
     dest = ip_destipaddr sb;
     store = (\<lambda>(a, p). map_option (\<lambda>sb. Some (p, sb)) (write_bytes 24 a sb)) in
     if iphc1 AND SICSLOWPAN_IPHC_M \<noteq> 0 then
       if iphc1 AND SICSLOWPAN_IPHC_DAC \<noteq> 0 then Some (Some (hc06_ptr, sb))
       else do {
         (pref, hc06_ptr) \<leftarrow> (if tmp > 0 \<and> tmp < 3 then map_option (\<lambda>b. ([0xff, b], hc06_ptr + 1)) (get buf hc06_ptr)
           else Some ([0xff, 0x02], hc06_ptr));
         Option.bind (uncompress_addr dest pref (unc_mxconf ! tmp) [] (buf, hc06_ptr)) store
       }
     else if iphc1 AND SICSLOWPAN_IPHC_DAC \<noteq> 0 then do {
       b \<leftarrow> (if iphc1 AND SICSLOWPAN_IPHC_CID \<noteq> 0 then get buf (base + 2) else Some 0);
       let dci = b AND 0x0f;
       (case addr_context_lookup_by_number addr_contexts dci of
          None \<Rightarrow> Some None
        | Some context \<Rightarrow> Option.bind (uncompress_addr dest (ctx_prefix context) (unc_ctxconf ! tmp) receiver (buf, hc06_ptr)) store)
     } else Option.bind (uncompress_addr dest llprefix (unc_llconf ! tmp) receiver (buf, hc06_ptr)) store)"

text \<open>The UDP header; the flag says whether \<open>uncomp_hdr_len\<close> grows by it.\<close>

definition uncompress_udp :: "u8 \<Rightarrow> u8 list \<Rightarrow> nat \<times> u8 list \<Rightarrow> (bool \<times> nat \<times> u8 list) option" where
  "uncompress_udp iphc0 buf = (\<lambda>(hc06_ptr, sb).
     if iphc0 AND SICSLOWPAN_IPHC_NH_C \<noteq> 0 then do {
       b \<leftarrow> get buf hc06_ptr;
       (if b AND SICSLOWPAN_NHC_UDP_MASK = SICSLOWPAN_NHC_UDP_ID then do {
          sb \<leftarrow> write_bytes 6 [UIP_PROTO_UDP] sb;
          let c = b AND SICSLOWPAN_NHC_UDP_CS_P_11;
          (ports, hc06_ptr) \<leftarrow>
            (if c = SICSLOWPAN_NHC_UDP_CS_P_00 then map_option (\<lambda>bs. (bs, hc06_ptr + 5)) (read_bytes (hc06_ptr + 1) 4 buf)
             else if c = SICSLOWPAN_NHC_UDP_CS_P_01 then do {
               bs \<leftarrow> read_bytes (hc06_ptr + 1) 2 buf; d \<leftarrow> get buf (hc06_ptr + 3);
               Some (bs @ be16 (SICSLOWPAN_UDP_8_BIT_PORT_MIN + ucast d), hc06_ptr + 4) }
             else if c = SICSLOWPAN_NHC_UDP_CS_P_10 then do {
               d \<leftarrow> get buf (hc06_ptr + 1); bs \<leftarrow> read_bytes (hc06_ptr + 2) 2 buf;
               Some (be16 (SICSLOWPAN_UDP_8_BIT_PORT_MIN + ucast d) @ bs, hc06_ptr + 4) }
             else do {
               d \<leftarrow> get buf (hc06_ptr + 1);
               Some (be16 (SICSLOWPAN_UDP_4_BIT_PORT_MIN + ucast (drop_bit 4 d)) @ be16 (SICSLOWPAN_UDP_4_BIT_PORT_MIN + ucast (d AND 0x0F)),
                 hc06_ptr + 2) });
          sb \<leftarrow> write_bytes 40 ports sb;
          (if b AND SICSLOWPAN_NHC_UDP_CHECKSUMC = 0
           then do { bs \<leftarrow> read_bytes hc06_ptr 2 buf; sb \<leftarrow> write_bytes 46 bs sb; Some (True, hc06_ptr + 2, sb) }
           else Some (True, hc06_ptr, sb))
        } else Some (False, hc06_ptr, sb))
     } else Some (False, hc06_ptr, sb))"

text \<open>The length fields: of the whole datagram when this is a first fragment, otherwise computed from the frame.\<close>

definition set_lengths :: "u16 \<Rightarrow> u16 \<Rightarrow> u8 \<Rightarrow> u8 \<Rightarrow> u8 list \<Rightarrow> u8 list option" where
  "set_lengths ip_len datalen hdr_len uncomp sb = do {
     let len = (if ip_len = 0 then uint datalen - uint hdr_len + uint uncomp - int UIP_IPH_LEN else uint ip_len - int UIP_IPH_LEN);
     sb \<leftarrow> write_bytes 4 [word_of_int (len div 256), word_of_int len] sb;
     (if ip_proto sb = UIP_PROTO_UDP then write_bytes 44 (take 2 (drop 4 sb)) sb else Some sb)
   }"

text \<open>
  The function returns no status: the result is \<open>sicslowpan_buf\<close>, \<open>packetbuf_hdr_len\<close>
  and \<open>uncomp_hdr_len\<close>, the latter two as they were when it returned early.
\<close>

definition uncompress_hdr_hc06 :: "addr_context list \<Rightarrow> linkaddr \<Rightarrow> linkaddr \<Rightarrow> u16 \<Rightarrow> u16 \<Rightarrow> u8 list \<Rightarrow> u8 \<Rightarrow> u8 \<Rightarrow> u8 list \<Rightarrow>
    (u8 list \<times> u8 \<times> u8) option" where
  "uncompress_hdr_hc06 addr_contexts sender receiver ip_len datalen buf hdr_len uncomp sb = do {
     let base = unat hdr_len;
     iphc0 \<leftarrow> get buf base;
     iphc1 \<leftarrow> get buf (base + 1);
     let hc06_ptr = base + 2 + (if iphc1 AND SICSLOWPAN_IPHC_CID \<noteq> 0 then 1 else 0);
     (hc06_ptr, sb) \<leftarrow> uncompress_tf iphc0 buf (hc06_ptr, sb);
     (hc06_ptr, sb) \<leftarrow> uncompress_nh iphc0 buf (hc06_ptr, sb);
     (hc06_ptr, sb) \<leftarrow> uncompress_ttl iphc0 buf (hc06_ptr, sb);
     r \<leftarrow> uncompress_src addr_contexts sender base iphc1 buf (hc06_ptr, sb);
     (case r of None \<Rightarrow> Some (sb, hdr_len, uncomp)
      | Some (hc06_ptr, sb) \<Rightarrow> do {
          r \<leftarrow> uncompress_dest addr_contexts receiver base iphc1 buf (hc06_ptr, sb);
          (case r of None \<Rightarrow> Some (sb, hdr_len, uncomp)
           | Some (hc06_ptr, sb) \<Rightarrow> do {
               (udp, hc06_ptr, sb) \<leftarrow> uncompress_udp iphc0 buf (hc06_ptr, sb);
               let uncomp = uncomp + of_nat UIP_IPH_LEN + (if udp then of_nat UIP_UDPH_LEN else 0);
               sb \<leftarrow> set_lengths ip_len datalen (of_nat hc06_ptr) uncomp sb;
               Some (sb, of_nat hc06_ptr, uncomp)
             })
        })
   }"

end
