(* ===== verification/Queuebuf.thy ===== *)
theory Queuebuf
  imports Memb Packetbuf
begin

text \<open>
  Packets put aside while the packet buffer is used for others,
  \<open>core/net/queuebuf.c\<close>, without swapping, statistics and the debug list: a
  descriptor from one block allocator points to the data in a block of another.
  The blocks are addressed as in theory Memb; what is stored in them is a
  function of the address. The null pointer is the address 0.
\<close>

section \<open>State and operations\<close>

record queuebuf_data =
  qdata :: "u8 list"
  qlen :: u16
  qattrs :: "u16 list"
  qaddrs :: "linkaddr list"

record queuebufs =
  bufmem :: memb
  buframmem :: memb
  ram_ptr :: "nat \<Rightarrow> nat"
  qram :: "nat \<Rightarrow> queuebuf_data"

definition queuebuf_load_to_ram :: "nat \<Rightarrow> queuebufs \<Rightarrow> nat" where
  "queuebuf_load_to_ram b q = ram_ptr q b"

definition queuebuf_init :: "queuebufs \<Rightarrow> queuebufs" where
  "queuebuf_init q = q\<lparr>buframmem := memb_init (buframmem q), bufmem := memb_init (bufmem q)\<rparr>"

definition queuebuf_numfree :: "queuebufs \<Rightarrow> int" where
  "queuebuf_numfree q = memb_numfree (bufmem q)"

text \<open>The packet is copied to the front of the data array; the attributes are copied as a whole.\<close>

definition store_packet :: "packetbuf \<Rightarrow> queuebuf_data \<Rightarrow> queuebuf_data option" where
  "store_packet pb d = do {
     (len, bs) \<leftarrow> packetbuf_copyto pb;
     bytes \<leftarrow> write_bytes 0 bs (qdata d);
     Some (d\<lparr>qlen := word_of_int len, qdata := bytes\<rparr>)
   }"

definition store_attrs :: "packetbuf \<Rightarrow> queuebuf_data \<Rightarrow> queuebuf_data" where
  "store_attrs pb d = (let (attrs, addrs) = packetbuf_attr_copyto pb in d\<lparr>qattrs := attrs, qaddrs := addrs\<rparr>)"

definition queuebuf_new_from_packetbuf :: "packetbuf \<Rightarrow> queuebufs \<Rightarrow> (nat ptr \<times> queuebufs) option" where
  "queuebuf_new_from_packetbuf pb q =
     (case memb_alloc (bufmem q) of
        (None, m) \<Rightarrow> Some (None, q\<lparr>bufmem := m\<rparr>)
      | (Some buf, m) \<Rightarrow>
          (case memb_alloc (buframmem q) of
             (None, r) \<Rightarrow> Some (None, q\<lparr>bufmem := snd (memb_free buf m), buframmem := r,
               ram_ptr := (ram_ptr q)(buf := 0)\<rparr>)
           | (Some ram, r) \<Rightarrow> do {
               d \<leftarrow> store_packet pb (qram q ram);
               Some (Some buf, q\<lparr>bufmem := m, buframmem := r, ram_ptr := (ram_ptr q)(buf := ram),
                 qram := (qram q)(ram := store_attrs pb d)\<rparr>)
             }))"

definition queuebuf_update_attr_from_packetbuf :: "nat \<Rightarrow> packetbuf \<Rightarrow> queuebufs \<Rightarrow> queuebufs" where
  "queuebuf_update_attr_from_packetbuf b pb q = (let r = queuebuf_load_to_ram b q in
     q\<lparr>qram := (qram q)(r := store_attrs pb (qram q r))\<rparr>)"

definition queuebuf_update_from_packetbuf :: "nat \<Rightarrow> packetbuf \<Rightarrow> queuebufs \<Rightarrow> queuebufs option" where
  "queuebuf_update_from_packetbuf b pb q = (let r = queuebuf_load_to_ram b q in do {
     d \<leftarrow> store_packet pb (store_attrs pb (qram q r));
     Some (q\<lparr>qram := (qram q)(r := d)\<rparr>)
   })"

definition queuebuf_free :: "nat \<Rightarrow> queuebufs \<Rightarrow> queuebufs" where
  "queuebuf_free b q = (if memb_inmemb (bufmem q) b \<noteq> 0
     then q\<lparr>buframmem := snd (memb_free (ram_ptr q b) (buframmem q)), bufmem := snd (memb_free b (bufmem q))\<rparr> else q)"

definition queuebuf_to_packetbuf :: "nat \<Rightarrow> queuebufs \<Rightarrow> packetbuf \<Rightarrow> packetbuf option" where
  "queuebuf_to_packetbuf b q pb = (if memb_inmemb (bufmem q) b \<noteq> 0
     then (let d = qram q (queuebuf_load_to_ram b q) in
       map_option (\<lambda>(_, pb). packetbuf_attr_copyfrom (qattrs d) (qaddrs d) pb) (packetbuf_copyfrom (qdata d) (qlen d) pb))
     else Some pb)"

definition queuebuf_dataptr :: "nat \<Rightarrow> queuebufs \<Rightarrow> u8 list option" where
  "queuebuf_dataptr b q = (if memb_inmemb (bufmem q) b \<noteq> 0 then Some (qdata (qram q (queuebuf_load_to_ram b q))) else None)"

definition queuebuf_datalen :: "nat \<Rightarrow> queuebufs \<Rightarrow> u16" where
  "queuebuf_datalen b q = qlen (qram q (queuebuf_load_to_ram b q))"

definition queuebuf_addr :: "nat \<Rightarrow> u8 \<Rightarrow> queuebufs \<Rightarrow> linkaddr option" where
  "queuebuf_addr b type q = (let as = qaddrs (qram q (queuebuf_load_to_ram b q)); i = unat type - unat PACKETBUF_ADDR_FIRST in
     if PACKETBUF_ADDR_FIRST \<le> type \<and> i < length as then Some (as ! i) else None)"

definition queuebuf_attr :: "nat \<Rightarrow> u8 \<Rightarrow> queuebufs \<Rightarrow> u16 option" where
  "queuebuf_attr b type q = (let as = qattrs (qram q (queuebuf_load_to_ram b q)) in
     if unat type < length as then Some (as ! unat type) else None)"

section \<open>Invariant\<close>

text \<open>
  Both pools are sound, every descriptor in use points to a data block in use,
  and no two to the same. \<open>kept q\<close> are the packets that are put aside.
\<close>

definition pool_ok :: "memb \<Rightarrow> bool" where
  "pool_ok m \<longleftrightarrow> memb_inv (mmem m) (msize m) (mnum m) m"

definition q_inv :: "queuebufs \<Rightarrow> bool" where
  "q_inv q \<longleftrightarrow> pool_ok (bufmem q) \<and> pool_ok (buframmem q) \<and>
     inj_on (ram_ptr q) (memb_used (bufmem q)) \<and> ram_ptr q ` memb_used (bufmem q) = memb_used (buframmem q) \<and>
     (\<forall>r. length (qdata (qram q r)) = PACKETBUF_SIZE)"

definition kept :: "queuebufs \<Rightarrow> nat \<Rightarrow> queuebuf_data option" where
  "kept q b = (if b \<in> memb_used (bufmem q) then Some (qram q (ram_ptr q b)) else None)"

lemma memb_alloc_same: "memb_alloc m = (r, m') \<Longrightarrow> mmem m' = mmem m \<and> msize m' = msize m \<and> mnum m' = mnum m"
  by (auto simp: memb_alloc_def split: option.splits)

lemma memb_free_same: "mmem (snd (memb_free p m)) = mmem m \<and> msize (snd (memb_free p m)) = msize m \<and> mnum (snd (memb_free p m)) = mnum m"
  by (auto simp: memb_free_def Let_def split: option.splits)

lemma alloc_pool_ok:
  assumes "pool_ok m" and "memb_alloc m = (Some p, m')"
  shows "pool_ok m' \<and> p \<notin> memb_used m \<and> memb_used m' = insert p (memb_used m)"
  using memb_alloc_Some [OF assms(1) [unfolded pool_ok_def] assms(2)] memb_alloc_same [OF assms(2)] by (simp add: pool_ok_def)

lemma alloc_None_same: "memb_alloc m = (None, m') \<Longrightarrow> m' = m"
  by (auto simp: memb_alloc_def split: option.splits)

lemma free_pool_ok: "pool_ok m \<Longrightarrow> pool_ok (snd (memb_free p m)) \<and> memb_used (snd (memb_free p m)) = memb_used m - {p}"
  using memb_free_used [of "mmem m" "msize m" "mnum m" m p] memb_free_same [of p m] by (simp add: pool_ok_def)

lemma used_inmemb: "pool_ok m \<Longrightarrow> b \<in> memb_used m \<Longrightarrow> memb_inmemb m b \<noteq> 0"
proof -
  assume p: "pool_ok m" and b: "b \<in> memb_used m"
  then obtain i where i: "i < mnum m" "b = mmem m + i * msize m" by (auto simp: memb_used_def)
  have "0 < msize m" using p by (simp add: pool_ok_def memb_inv_def memb_wf_def)
  then have "i * msize m < mnum m * msize m" using i(1) by simp
  then show ?thesis using i(2) by (simp add: memb_inmemb_def)
qed

lemma store_packet_ok:
  assumes "pb_ok pb" and "pkt pb = (h, c, d)" and "length (qdata x) = PACKETBUF_SIZE"
  shows "store_packet pb x = Some (x\<lparr>qlen := of_nat (length h + length d), qdata := h @ d @ drop (length h + length d) (qdata x)\<rparr>)"
proof -
  have "length h + length d \<le> 128" using pktE [OF assms(1,2)] by metis
  then show ?thesis using assms(3) by (simp add: store_packet_def packetbuf_copyto_pkt [OF assms(1,2)] write_bytes_def pb_defs)
qed


text \<open>The data of a packet that is put aside.\<close>

definition saved :: "packetbuf \<Rightarrow> queuebuf_data \<Rightarrow> bool" where
  "saved pb x \<longleftrightarrow> (case pkt pb of (h, c, d) \<Rightarrow> unat (qlen x) = length (h @ d) \<and> take (length (h @ d)) (qdata x) = h @ d) \<and>
     qattrs x = packetbuf_attrs pb \<and> qaddrs x = packetbuf_addrs pb \<and> length (qdata x) = PACKETBUF_SIZE"

lemma store_saved:
  assumes "pb_ok pb" and "length (qdata x) = PACKETBUF_SIZE"
  shows "\<exists>y. store_packet pb x = Some y \<and> saved pb (store_attrs pb y) \<and> length (qdata y) = PACKETBUF_SIZE \<and> qattrs y = qattrs x \<and> qaddrs y = qaddrs x"
proof -
  obtain h c d where p: "pkt pb = (h, c, d)" by (metis prod.collapse)
  have "length h + length d \<le> 128" using pktE [OF assms(1) p] by metis
  then show ?thesis
    using store_packet_ok [OF assms(1) p assms(2)] p assms(2)
    by (simp add: saved_def store_attrs_def packetbuf_attr_copyto_def unat_of_nat pb_defs flip: of_nat_add)
qed

lemma queuebuf_new_cases:
  assumes inv: "q_inv q" and pb: "pb_ok pb"
  shows "(\<exists>q'. queuebuf_new_from_packetbuf pb q = Some (None, q') \<and> q_inv q' \<and> kept q' = kept q \<and> memb_used (bufmem q') = memb_used (bufmem q)) \<or>
    (\<exists>b q' x. queuebuf_new_from_packetbuf pb q = Some (Some b, q') \<and> q_inv q' \<and> kept q b = None \<and> kept q' = (kept q)(b \<mapsto> x) \<and> saved pb x)"
proof -
  have qi: "pool_ok (bufmem q)" "pool_ok (buframmem q)" "inj_on (ram_ptr q) (memb_used (bufmem q))"
    "ram_ptr q ` memb_used (bufmem q) = memb_used (buframmem q)" "\<And>r. length (qdata (qram q r)) = PACKETBUF_SIZE"
    using inv by (auto simp: q_inv_def)
  obtain r m where a: "memb_alloc (bufmem q) = (r, m)" by force
  show ?thesis
  proof (cases r)
    case None
    then have "queuebuf_new_from_packetbuf pb q = Some (None, q)"
      using a alloc_None_same [of "bufmem q" m] by (simp add: queuebuf_new_from_packetbuf_def)
    then show ?thesis using inv by blast
  next
    case (Some b)
    note m = alloc_pool_ok [OF qi(1) a [unfolded Some]]
    obtain r' m' where a': "memb_alloc (buframmem q) = (r', m')" by force
    show ?thesis
    proof (cases r')
      case None
      let ?q = "q\<lparr>bufmem := snd (memb_free b m), ram_ptr := (ram_ptr q)(b := 0)\<rparr>"
      have u: "memb_used (bufmem ?q) = memb_used (bufmem q)" "pool_ok (bufmem ?q)" using free_pool_ok [of m b] m by auto
      have "queuebuf_new_from_packetbuf pb q = Some (None, ?q)"
        using a a' None \<open>r = Some b\<close> alloc_None_same [of "buframmem q" m'] by (simp add: queuebuf_new_from_packetbuf_def)
      moreover have "q_inv ?q"
        using qi u m by (auto simp: q_inv_def inj_on_def)
      moreover have "kept ?q = kept q" using u m by (auto simp: kept_def fun_eq_iff)
      ultimately show ?thesis using u(1) by blast
    next
      case (Some ram)
      note m' = alloc_pool_ok [OF qi(2) a' [unfolded Some]]
      obtain y where y: "store_packet pb (qram q ram) = Some y" "saved pb (store_attrs pb y)"
        using store_saved [OF pb qi(5)] by blast
      let ?x = "store_attrs pb y"
      let ?q = "q\<lparr>bufmem := m, buframmem := m', ram_ptr := (ram_ptr q)(b := ram), qram := (qram q)(ram := ?x)\<rparr>"
      have n: "queuebuf_new_from_packetbuf pb q = Some (Some b, ?q)"
        using a a' Some \<open>r = Some b\<close> y(1) by (simp add: queuebuf_new_from_packetbuf_def)
      have fresh: "ram \<notin> ram_ptr q ` memb_used (bufmem q)" using m' qi(4) by simp
      have "q_inv ?q"
        unfolding q_inv_def using m m' qi y(2) fresh by (auto simp: saved_def inj_on_def image_iff)
      moreover have "kept ?q = (kept q)(b \<mapsto> ?x)"
        using m fresh by (auto simp: kept_def fun_eq_iff)
      moreover have "kept q b = None" using m by (simp add: kept_def)
      ultimately show ?thesis using n y(2) by blast
    qed
  qed
qed

lemma queuebuf_free_kept:
  assumes inv: "q_inv q" and b: "kept q b \<noteq> None"
  shows "q_inv (queuebuf_free b q) \<and> kept (queuebuf_free b q) = (kept q)(b := None)"
proof -
  have qi: "pool_ok (bufmem q)" "pool_ok (buframmem q)" "inj_on (ram_ptr q) (memb_used (bufmem q))"
    "ram_ptr q ` memb_used (bufmem q) = memb_used (buframmem q)" "\<And>r. length (qdata (qram q r)) = PACKETBUF_SIZE"
    using inv by (auto simp: q_inv_def)
  have u: "b \<in> memb_used (bufmem q)" using b by (auto simp: kept_def split: if_splits)
  let ?q = "q\<lparr>buframmem := snd (memb_free (ram_ptr q b) (buframmem q)), bufmem := snd (memb_free b (bufmem q))\<rparr>"
  have f: "queuebuf_free b q = ?q" using used_inmemb [OF qi(1) u] by (simp add: queuebuf_free_def)
  note m = free_pool_ok [OF qi(1), of b] and m' = free_pool_ok [OF qi(2), of "ram_ptr q b"]
  have "ram_ptr q ` (memb_used (bufmem q) - {b}) = memb_used (buframmem q) - {ram_ptr q b}"
    using inj_on_image_set_diff [OF qi(3), of "memb_used (bufmem q)" "{b}"] u qi(4) by simp
  then have "q_inv ?q" unfolding q_inv_def using m m' qi by (auto simp: inj_on_diff)
  moreover have "kept ?q = (kept q)(b := None)" using m by (auto simp: kept_def fun_eq_iff)
  ultimately show ?thesis using f by simp
qed

lemma q_inv_write:
  assumes inv: "q_inv q" and b: "kept q b \<noteq> None" and x: "length (qdata x) = PACKETBUF_SIZE"
  shows "q_inv (q\<lparr>qram := (qram q)(ram_ptr q b := x)\<rparr>) \<and> kept (q\<lparr>qram := (qram q)(ram_ptr q b := x)\<rparr>) = (kept q)(b \<mapsto> x)"
proof -
  have u: "b \<in> memb_used (bufmem q)" using b by (auto simp: kept_def split: if_splits)
  have "ram_ptr q c = ram_ptr q b \<longleftrightarrow> c = b" if "c \<in> memb_used (bufmem q)" for c
    using inv u that unfolding q_inv_def by (meson inj_on_eq_iff)
  then show ?thesis using inv u x by (auto simp: q_inv_def kept_def fun_eq_iff)
qed


lemma packetbuf_copyfrom_take:
  "unat n \<le> length frm \<Longrightarrow> packetbuf_copyfrom frm n pb = packetbuf_copyfrom (take (unat n) frm) n pb"
  by (simp add: packetbuf_copyfrom_def read_bytes_def Let_def min_def)

lemma queuebuf_restore:
  assumes inv: "q_inv q" and b: "kept q b = Some x" and x: "saved pb x" and ok: "pb_ok pb" "pb_ok pb0" and p: "pkt pb = (h, c, d)"
  shows "\<exists>pb'. queuebuf_to_packetbuf b q pb0 = Some pb' \<and> pb_ok pb' \<and> pkt pb' = ([], 0, h @ d) \<and>
    packetbuf_attrs pb' = packetbuf_attrs pb \<and> packetbuf_addrs pb' = packetbuf_addrs pb"
proof -
  have u: "b \<in> memb_used (bufmem q)" "qram q (ram_ptr q b) = x" using b by (auto simp: kept_def split: if_splits)
  have "pool_ok (bufmem q)" using inv by (simp add: q_inv_def)
  then have m: "memb_inmemb (bufmem q) b \<noteq> 0" using u(1) by (rule used_inmemb)
  have s: "unat (qlen x) = length (h @ d)" "take (length (h @ d)) (qdata x) = h @ d" "qattrs x = packetbuf_attrs pb" "qaddrs x = packetbuf_addrs pb"
    using x p by (simp_all add: saved_def)
  have l: "length (h @ d) \<le> 128" using pktE [OF ok(1) p] by (metis length_append)
  have "refines (pb_exec (Fill (h @ d)) pb0) (pkt_exec (Fill (h @ d)) ([], 0, []))"
    by (rule pb_fill_correct [OF ok(2)]) (use l in simp)
  moreover have "(of_nat (length (h @ d)) :: u16) = qlen x" using s(1) by (metis of_nat_unat ucast_id)
  moreover have "packetbuf_copyfrom (qdata x) (qlen x) pb0 = packetbuf_copyfrom (h @ d) (qlen x) pb0"
    using packetbuf_copyfrom_take [of "qlen x" "qdata x" pb0] s(1,2) by (metis length_take min.cobounded1 min_def)
  ultimately obtain n pb1 where c: "packetbuf_copyfrom (qdata x) (qlen x) pb0 = Some (n, pb1)" "pb_ok pb1" "pkt pb1 = ([], 0, h @ d)"
    using l by (auto simp: refines_def)
  let ?pb = "packetbuf_attr_copyfrom (packetbuf_attrs pb) (packetbuf_addrs pb) pb1"
  have a: "length (packetbuf_attrs pb) = PACKETBUF_NUM_ATTRS" "length (packetbuf_addrs pb) = PACKETBUF_NUM_ADDRS"
    using pb_ok_attrs [OF ok(1)] by auto
  have same: "pkt ?pb = pkt pb1" by (simp add: packetbuf_attr_copyfrom_def pkt_def)
  have "queuebuf_to_packetbuf b q pb0 = Some ?pb"
    using m u(2) c(1) s(3,4) by (simp add: queuebuf_to_packetbuf_def queuebuf_load_to_ram_def Let_def)
  moreover have "pb_ok ?pb" "pkt ?pb = ([], 0, h @ d)" "packetbuf_attrs ?pb = packetbuf_attrs pb" "packetbuf_addrs ?pb = packetbuf_addrs pb"
    using c(2,3) a unfolding same by (simp_all add: packetbuf_attr_copyfrom_def pb_ok_def)
  ultimately show ?thesis by blast
qed

section \<open>Properties\<close>

text \<open>What the protocols do with the other buffers meanwhile.\<close>

datatype q_op = QNew packetbuf | QFree nat | QUpdate nat packetbuf | QUpdateAttr nat packetbuf

fun q_exec :: "q_op \<Rightarrow> queuebufs \<Rightarrow> queuebufs option" where
  "q_exec (QNew pb) q = map_option snd (queuebuf_new_from_packetbuf pb q)"
| "q_exec (QFree b) q = Some (queuebuf_free b q)"
| "q_exec (QUpdate b pb) q = queuebuf_update_from_packetbuf b pb q"
| "q_exec (QUpdateAttr b pb) q = Some (queuebuf_update_attr_from_packetbuf b pb q)"

fun q_run :: "q_op list \<Rightarrow> queuebufs \<Rightarrow> queuebufs option" where
  "q_run [] q = Some q"
| "q_run (op # ops) q = Option.bind (q_exec op q) (q_run ops)"

text \<open>They use buffers that they own, that is, buffers in use and not \<open>b\<close>, at the time of each operation.\<close>

fun q_pre :: "nat \<Rightarrow> q_op \<Rightarrow> queuebufs \<Rightarrow> bool" where
  "q_pre b (QNew pb) q \<longleftrightarrow> pb_ok pb"
| "q_pre b (QFree c) q \<longleftrightarrow> c \<noteq> b \<and> kept q c \<noteq> None"
| "q_pre b (QUpdate c pb) q \<longleftrightarrow> c \<noteq> b \<and> kept q c \<noteq> None \<and> pb_ok pb"
| "q_pre b (QUpdateAttr c pb) q \<longleftrightarrow> c \<noteq> b \<and> kept q c \<noteq> None"

fun q_owned :: "nat \<Rightarrow> q_op list \<Rightarrow> queuebufs \<Rightarrow> bool" where
  "q_owned b [] q \<longleftrightarrow> True"
| "q_owned b (op # ops) q \<longleftrightarrow> q_pre b op q \<and> (case q_exec op q of None \<Rightarrow> True | Some q' \<Rightarrow> q_owned b ops q')"

lemma q_exec_keeps:
  assumes inv: "q_inv q" and b: "kept q b = Some x" and pre: "q_pre b op q"
  shows "\<exists>q'. q_exec op q = Some q' \<and> q_inv q' \<and> kept q' b = Some x"
proof (cases op)
  case (QNew pb)
  then show ?thesis using queuebuf_new_cases [OF inv, of pb] pre b by (auto split: if_splits)
next
  case (QFree c)
  then show ?thesis using queuebuf_free_kept [OF inv, of c] pre b by auto
next
  case (QUpdate c pb)
  have l: "length (qdata (qram q r)) = PACKETBUF_SIZE" for r using inv by (simp add: q_inv_def)
  have "length (qdata (store_attrs pb (qram q (ram_ptr q c)))) = PACKETBUF_SIZE" using l by (simp add: store_attrs_def packetbuf_attr_copyto_def)
  then obtain y where y: "store_packet pb (store_attrs pb (qram q (ram_ptr q c))) = Some y" "length (qdata y) = PACKETBUF_SIZE"
    using store_saved [of pb] pre QUpdate by (metis q_pre.simps(3))
  show ?thesis
    using q_inv_write [OF inv, of c y] y pre b QUpdate by (auto simp: queuebuf_update_from_packetbuf_def queuebuf_load_to_ram_def Let_def)
next
  case (QUpdateAttr c pb)
  have "length (qdata (store_attrs pb (qram q (ram_ptr q c)))) = PACKETBUF_SIZE"
    using inv by (simp add: q_inv_def store_attrs_def packetbuf_attr_copyto_def)
  from q_inv_write [OF inv _ this] show ?thesis
    using pre b QUpdateAttr by (auto simp: queuebuf_update_attr_from_packetbuf_def queuebuf_load_to_ram_def Let_def)
qed

lemma q_run_keeps:
  assumes "q_inv q" and "kept q b = Some x" and "q_owned b ops q"
  shows "\<exists>q'. q_run ops q = Some q' \<and> q_inv q' \<and> kept q' b = Some x"
  using assms
proof (induction ops arbitrary: q)
  case Nil
  then show ?case by simp
next
  case (Cons op ops)
  obtain q' where "q_exec op q = Some q'" "q_inv q'" "kept q' b = Some x"
    using q_exec_keeps [OF Cons.prems(1,2)] Cons.prems(3) by auto
  with Cons.IH [of q'] Cons.prems(3) show ?case by simp
qed

text \<open>
  C16. A packet that is put aside comes back unchanged: the header and data as
  one piece of data, with all attributes and addresses, whatever is put aside,
  updated and freed in between through other buffers, and whatever is in the packet
  buffer by then. Putting aside never takes a buffer that is in use, and when no
  buffer can be had, nothing changes for the packets that are kept.
\<close>

theorem queuebuf_keeps_packet:
  assumes "q_inv q" and "pb_ok pb" and "pb_ok pb0" and "pkt pb = (h, c, d)"
  shows "case queuebuf_new_from_packetbuf pb q of
      None \<Rightarrow> False
    | Some (None, q1) \<Rightarrow> q_inv q1 \<and> kept q1 = kept q
    | Some (Some b, q1) \<Rightarrow> kept q b = None \<and> q_inv q1 \<and>
        (\<forall>ops. q_owned b ops q1 \<longrightarrow> (\<exists>q2 pb'. q_run ops q1 = Some q2 \<and> queuebuf_to_packetbuf b q2 pb0 = Some pb' \<and>
           pb_ok pb' \<and> pkt pb' = ([], 0, h @ d) \<and> packetbuf_attrs pb' = packetbuf_attrs pb \<and> packetbuf_addrs pb' = packetbuf_addrs pb))"
  using queuebuf_new_cases [OF assms(1,2)]
proof (elim disjE exE conjE)
  fix q1 assume "queuebuf_new_from_packetbuf pb q = Some (None, q1)" "q_inv q1" "kept q1 = kept q"
  then show ?thesis by simp
next
  fix b q1 x
  assume n: "queuebuf_new_from_packetbuf pb q = Some (Some b, q1)" "q_inv q1" "kept q b = None" "kept q1 = (kept q)(b \<mapsto> x)" "saved pb x"
  have "\<exists>q2 pb'. q_run ops q1 = Some q2 \<and> queuebuf_to_packetbuf b q2 pb0 = Some pb' \<and>
       pb_ok pb' \<and> pkt pb' = ([], 0, h @ d) \<and> packetbuf_attrs pb' = packetbuf_attrs pb \<and> packetbuf_addrs pb' = packetbuf_addrs pb"
    if "q_owned b ops q1" for ops
    using q_run_keeps [OF n(2) _ that] n(4) queuebuf_restore [OF _ _ n(5) assms(2,3,4)] by fastforce
  then show ?thesis using n by auto
qed

lemma queuebuf_init_inv:
  assumes "memb_wf (bufmem q)" and "memb_wf (buframmem q)" and "\<forall>r. length (qdata (qram q r)) = PACKETBUF_SIZE"
  shows "q_inv (queuebuf_init q) \<and> kept (queuebuf_init q) = (\<lambda>_. None)"
proof -
  have same: "mmem (memb_init m) = mmem m" "msize (memb_init m) = msize m" "mnum (memb_init m) = mnum m" for m
    by (simp_all add: memb_init_def)
  show ?thesis
    using assms memb_init_inv [OF assms(1)] memb_init_inv [OF assms(2)] memb_init_used [OF assms(1)] memb_init_used [OF assms(2)]
    by (auto simp: q_inv_def kept_def queuebuf_init_def pool_ok_def same)
qed

definition queuebufs0 :: queuebufs where
  "queuebufs0 = (let m = (\<lambda>base sz. \<lparr>msize = sz, mnum = 2, mcount = [0, 0], mmem = base, mbytes = []\<rparr>) in
     queuebuf_init \<lparr>bufmem = m 100 4, buframmem = m 200 150, ram_ptr = (\<lambda>_. 0),
       qram = (\<lambda>_. \<lparr>qdata = replicate 128 0, qlen = 0, qattrs = [], qaddrs = []\<rparr>)\<rparr>)"

definition queued_packet :: packetbuf where
  "queued_packet = \<lparr>packetbuf_bytes = replicate 47 0 @ [1, 2, 3] @ replicate 126 0, buflen = 2, bufptr = 0, hdrptr = 47,
     packetbuf_attrs = replicate PACKETBUF_NUM_ATTRS 5, packetbuf_addrs = replicate PACKETBUF_NUM_ADDRS [9]\<rparr>"

lemma queued_packet_pkt: "pkt queued_packet = ([1], 0, [2, 3])" "pb_ok queued_packet"
  by (simp_all add: queued_packet_def pkt_def pb_ok_def pb_defs)

lemma queuebufs0_inv: "q_inv queuebufs0"
  unfolding queuebufs0_def Let_def by (rule queuebuf_init_inv [THEN conjunct1]) (simp_all add: memb_wf_def pb_defs)

theorem queuebuf_keeps_packet_witness:
  "\<exists>b q1 q2 pb'. queuebuf_new_from_packetbuf queued_packet queuebufs0 = Some (Some b, q1) \<and>
     q_run [QNew queued_packet] q1 = Some q2 \<and> queuebuf_to_packetbuf b q2 queued_packet = Some pb' \<and> pkt pb' = ([], 0, [1, 2, 3])"
proof -
  have n: "queuebuf_new_from_packetbuf queued_packet queuebufs0 \<noteq> Some (None, q)" for q
    by (auto simp: queuebuf_new_from_packetbuf_def queuebufs0_def Let_def queuebuf_init_def memb_init_def memb_alloc_def upt_rec bind_eq_Some_conv)
  note t = queuebuf_keeps_packet [OF queuebufs0_inv queued_packet_pkt(2,2,1)]
  have "queuebuf_new_from_packetbuf queued_packet queuebufs0 \<noteq> None"
  proof
    assume e: "queuebuf_new_from_packetbuf queued_packet queuebufs0 = None"
    show False using t unfolding e by simp
  qed
  then obtain r q1 where r: "queuebuf_new_from_packetbuf queued_packet queuebufs0 = Some (r, q1)" by auto
  then obtain b where b: "r = Some b" using n by (cases r) blast+
  have "q_owned b [QNew queued_packet] q1"
    using queued_packet_pkt(2) by (simp split: option.split)
  with t [unfolded r b option.case prod.case] r b show ?thesis by fastforce
qed

end
