(* ===== verification/Sicslowpan.thy ===== *)
theory Sicslowpan
  imports Iphc Queuebuf Timer
begin

text \<open>
  Sending and receiving of \<open>core/net/ipv6/sicslowpan.c\<close>: header compression,
  fragmentation and reassembly, in the configuration of the sky nodes
  (HC06, fragments, packets below 63 bytes uncompressed) and without a sniffer.
  The buffer for IP packets has the default size of \<open>uipopt.h\<close>, the 1280 bytes of
  a link MTU, rather than the 240 bytes \<open>UIP_CONF_BUFFER_SIZE\<close> leaves on sky.
  The MAC layer below is a parameter: \<open>llsec_send\<close> takes the packet buffer,
  the queue buffers and the destination and may change the first two; when it calls
  \<open>packet_sent\<close> back before it returns, it gives the status as well.
\<close>

section \<open>Constants and state\<close>

definition SICSLOWPAN_DISPATCH_FRAG1 :: u8 where "SICSLOWPAN_DISPATCH_FRAG1 = 0xc0"
definition SICSLOWPAN_DISPATCH_FRAGN :: u8 where "SICSLOWPAN_DISPATCH_FRAGN = 0xe0"
definition SICSLOWPAN_FRAG1_HDR_LEN :: nat where "SICSLOWPAN_FRAG1_HDR_LEN = 4"
definition SICSLOWPAN_FRAGN_HDR_LEN :: nat where "SICSLOWPAN_FRAGN_HDR_LEN = 5"
definition MAC_MAX_PAYLOAD :: int where "MAC_MAX_PAYLOAD = 127 - 2"
definition COMPRESSION_THRESHOLD :: nat where "COMPRESSION_THRESHOLD = 63"
definition SICSLOWPAN_MAX_MAC_TRANSMISSIONS :: u16 where "SICSLOWPAN_MAX_MAC_TRANSMISSIONS = 5"
definition SICSLOWPAN_REASS_MAXAGE :: u32 where "SICSLOWPAN_REASS_MAXAGE = 8"
definition CLOCK_SECOND :: u32 where "CLOCK_SECOND = 128"
definition UIP_BUFSIZE :: nat where "UIP_BUFSIZE = 1280"
definition PACKETBUF_ATTR_MAX_MAC_TRANSMISSIONS :: u8 where "PACKETBUF_ATTR_MAX_MAC_TRANSMISSIONS = 9"

definition PACKETBUF_ATTR_RSSI :: u8 where "PACKETBUF_ATTR_RSSI = 4"

definition MAC_TX_OK :: int where "MAC_TX_OK = 0"
definition MAC_TX_COLLISION :: int where "MAC_TX_COLLISION = 1"
definition MAC_TX_ERR :: int where "MAC_TX_ERR = 4"
definition MAC_TX_ERR_FATAL :: int where "MAC_TX_ERR_FATAL = 5"

record sicslowpan =
  addr_contexts :: "addr_context list"
  uip_lladdr :: linkaddr
  uip_buf :: "u8 list"
  uip_len :: u16
  sicslowpan_buf :: "u8 list"
  sicslowpan_len :: u16
  processed_ip_in_len :: u16
  my_tag :: u16
  reass_tag :: u16
  frag_sender :: linkaddr
  reass_timer :: timer
  last_tx_status :: int
  last_rssi :: int
  pktbuf :: packetbuf
  qbufs :: queuebufs

text \<open>The packet buffer from \<open>packetbuf_ptr\<close> on, an offset into its bytes.\<close>

definition from_ptr :: "nat \<Rightarrow> packetbuf \<Rightarrow> u8 list" where
  "from_ptr ptr pb = drop ptr (packetbuf_bytes pb)"

definition set_from_ptr :: "nat \<Rightarrow> u8 list \<Rightarrow> packetbuf \<Rightarrow> packetbuf" where
  "set_from_ptr ptr bs pb = pb\<lparr>packetbuf_bytes := take ptr (packetbuf_bytes pb) @ bs\<rparr>"

definition GET16 :: "u8 list \<Rightarrow> nat \<Rightarrow> u16 option" where
  "GET16 buf i = do { hi \<leftarrow> get buf i; lo \<leftarrow> get buf (i + 1); Some (of_be16 hi lo) }"

definition SET16 :: "u8 list \<Rightarrow> nat \<Rightarrow> u16 \<Rightarrow> u8 list option" where
  "SET16 buf i v = write_bytes i (be16 v) buf"

section \<open>Output\<close>

type_synonym llsec = "packetbuf \<Rightarrow> queuebufs \<Rightarrow> packetbuf \<times> queuebufs \<times> int ptr"

definition packet_sent :: "int \<Rightarrow> sicslowpan \<Rightarrow> sicslowpan" where
  "packet_sent status s = s\<lparr>last_tx_status := status\<rparr>"

text \<open>The frame that is handed to the link layer is part of the result.\<close>

definition send_packet :: "llsec \<Rightarrow> linkaddr \<Rightarrow> sicslowpan \<Rightarrow> (packetbuf \<times> sicslowpan) option" where
  "send_packet llsec_send dest s = do {
     pb \<leftarrow> packetbuf_set_addr PACKETBUF_ADDR_RECEIVER dest (pktbuf s);
     let (pb', q, status) = llsec_send pb (qbufs s);
     let s = s\<lparr>pktbuf := pb', qbufs := q\<rparr>;
     Some (pb, case status of None \<Rightarrow> s | Some st \<Rightarrow> packet_sent st s)
   }"

text \<open>
  Copy a part of the packet behind the headers and send it through a queue
  buffer; the inner \<^term>\<open>None\<close> is the lack of one, and otherwise the packet buffer is restored.
\<close>

definition send_fragment :: "llsec \<Rightarrow> nat \<Rightarrow> linkaddr \<Rightarrow> nat \<Rightarrow> nat \<Rightarrow> int \<Rightarrow> sicslowpan \<Rightarrow> (packetbuf option \<times> sicslowpan) option" where
  "send_fragment llsec_send ptr dest hdr_len off payload_len s = (if payload_len < 0 then None else do {
     bs \<leftarrow> read_bytes off (nat payload_len) (uip_buf s);
     buf \<leftarrow> write_bytes hdr_len bs (from_ptr ptr (pktbuf s));
     let s = s\<lparr>pktbuf := packetbuf_set_datalen (word_of_int (payload_len + int hdr_len)) (set_from_ptr ptr buf (pktbuf s))\<rparr>;
     (q, qs) \<leftarrow> queuebuf_new_from_packetbuf (pktbuf s) (qbufs s);
     let s = s\<lparr>qbufs := qs\<rparr>;
     (case q of
        None \<Rightarrow> Some (None, s)
      | Some q \<Rightarrow> do {
          (frame, s) \<leftarrow> send_packet llsec_send dest s;
          pb \<leftarrow> queuebuf_to_packetbuf q (qbufs s) (pktbuf s);
          Some (Some frame, s\<lparr>pktbuf := pb, qbufs := queuebuf_free q (qbufs s)\<rparr>)
        })
   })"

definition tx_failed :: "sicslowpan \<Rightarrow> bool" where
  "tx_failed s \<longleftrightarrow> last_tx_status s = MAC_TX_COLLISION \<or> last_tx_status s = MAC_TX_ERR \<or> last_tx_status s = MAC_TX_ERR_FATAL"

text \<open>The loop over the following fragments. It does not end when a fragment has no room for payload.\<close>

partial_function (option) fragment_loop ::
    "llsec \<Rightarrow> nat \<Rightarrow> linkaddr \<Rightarrow> u16 \<Rightarrow> int \<Rightarrow> sicslowpan \<Rightarrow> (u8 \<times> packetbuf list \<times> sicslowpan) option" where
  "fragment_loop llsec_send ptr dest processed payload_len s =
     (if processed < uip_len s then do {
        buf \<leftarrow> write_bytes 4 [ucast (drop_bit 3 processed)] (from_ptr ptr (pktbuf s));
        let s = s\<lparr>pktbuf := set_from_ptr ptr buf (pktbuf s)\<rparr>;
        let payload_len = (if uint (uip_len s) - uint processed < payload_len then uint (uip_len s) - uint processed else payload_len);
        (frame, s) \<leftarrow> send_fragment llsec_send ptr dest SICSLOWPAN_FRAGN_HDR_LEN (unat processed) payload_len s;
        (case frame of
           None \<Rightarrow> Some (0, [], s)
         | Some f \<Rightarrow>
             if tx_failed s then Some (0, [f], s)
             else do {
               (r, fs, s) \<leftarrow> fragment_loop llsec_send ptr dest (processed + word_of_int payload_len) payload_len s;
               Some (r, f # fs, s)
             })
      } else Some (1, [], s))"

text \<open>A multiple of 8 (\<open>& 0xfffffff8\<close>).\<close>

definition whole_units :: "int \<Rightarrow> int" where
  "whole_units n = n div 8 * 8"

definition output_fragments :: "llsec \<Rightarrow> nat \<Rightarrow> linkaddr \<Rightarrow> int \<Rightarrow> u8 \<Rightarrow> u8 \<Rightarrow> sicslowpan \<Rightarrow> (u8 \<times> packetbuf list \<times> sicslowpan) option" where
  "output_fragments llsec_send ptr dest max_payload hdr_len uncomp s = (
     let estimated_fragments = uint (uip_len s) div (MAC_MAX_PAYLOAD - int SICSLOWPAN_FRAGN_HDR_LEN) + 1;
         freebuf = queuebuf_numfree (qbufs s) - 1 in
     if freebuf < estimated_fragments then Some (0, [], s)
     else do {
       hdr \<leftarrow> read_bytes 0 (unat hdr_len) (from_ptr ptr (pktbuf s));
       buf \<leftarrow> write_bytes SICSLOWPAN_FRAG1_HDR_LEN hdr (from_ptr ptr (pktbuf s));
       buf \<leftarrow> SET16 buf 0 (push_bit 8 (ucast SICSLOWPAN_DISPATCH_FRAG1) OR uip_len s);
       buf \<leftarrow> SET16 buf 2 (my_tag s);
       let s = s\<lparr>pktbuf := set_from_ptr ptr buf (pktbuf s), my_tag := my_tag s + 1\<rparr>;
       let hdr_len = hdr_len + of_nat SICSLOWPAN_FRAG1_HDR_LEN;
       let payload_len = whole_units (max_payload - uint hdr_len);
       (frame, s) \<leftarrow> send_fragment llsec_send ptr dest (unat hdr_len) (unat uncomp) payload_len s;
       (case frame of
          None \<Rightarrow> Some (0, [], s)
        | Some f \<Rightarrow>
            if tx_failed s then Some (0, [f], s)
            else do {
              let processed = word_of_int (payload_len + uint uncomp);
              buf \<leftarrow> SET16 (from_ptr ptr (pktbuf s)) 0 (push_bit 8 (ucast SICSLOWPAN_DISPATCH_FRAGN) OR uip_len s);
              let s = s\<lparr>pktbuf := set_from_ptr ptr buf (pktbuf s)\<rparr>;
              (r, fs, s) \<leftarrow> fragment_loop llsec_send ptr dest processed (whole_units (max_payload - int SICSLOWPAN_FRAGN_HDR_LEN)) s;
              Some (r, f # fs, s)
            })
     })"

text \<open>
  \<open>framer_length\<close> and \<open>overhead\<close> are \<open>NETSTACK_FRAMER.length\<close> and \<open>NETSTACK_LLSEC.get_overhead\<close>.
  The result is the return value and the frames in the order in which they are sent.
\<close>

definition sicslowpan_output :: "llsec \<Rightarrow> (packetbuf \<Rightarrow> int) \<Rightarrow> int \<Rightarrow> linkaddr ptr \<Rightarrow> sicslowpan \<Rightarrow> (u8 \<times> packetbuf list \<times> sicslowpan) option" where
  "sicslowpan_output llsec_send framer_length overhead localdest s = do {
     let pb = packetbuf_clear (pktbuf s);
     let ptr = packetbuf_dataptr pb;
     pb \<leftarrow> packetbuf_set_attr PACKETBUF_ATTR_MAX_MAC_TRANSMISSIONS SICSLOWPAN_MAX_MAC_TRANSMISSIONS pb;
     let dest = (case localdest of None \<Rightarrow> linkaddr_null | Some a \<Rightarrow> a);
     (buf, hdr_len, uncomp) \<leftarrow> (if COMPRESSION_THRESHOLD \<le> unat (uip_len s)
       then compress_hdr_hc06 (addr_contexts s) (uip_lladdr s) dest (uip_buf s) (from_ptr ptr pb)
       else compress_hdr_ipv6 (uip_buf s) (from_ptr ptr pb));
     pb \<leftarrow> packetbuf_set_addr PACKETBUF_ADDR_RECEIVER dest (set_from_ptr ptr buf pb);
     let framer_hdrlen = (if framer_length pb < 0 then 21 else framer_length pb);
     let max_payload = MAC_MAX_PAYLOAD - framer_hdrlen - overhead;
     let s = s\<lparr>pktbuf := pb\<rparr>;
     (if uint (uip_len s) - uint uncomp > max_payload - uint hdr_len
      then output_fragments llsec_send ptr dest max_payload hdr_len uncomp s
      else if uip_len s < ucast uncomp then None
      else do {
        bs \<leftarrow> read_bytes (unat uncomp) (unat (uip_len s) - unat uncomp) (uip_buf s);
        buf \<leftarrow> write_bytes (unat hdr_len) bs (from_ptr ptr pb);
        let pb = packetbuf_set_datalen (uip_len s - ucast uncomp + ucast hdr_len) (set_from_ptr ptr buf pb);
        (frame, s) \<leftarrow> send_packet llsec_send dest (s\<lparr>pktbuf := pb\<rparr>);
        Some (1, [frame], s)
      })
   }"

section \<open>Input\<close>

text \<open>The fragment header: size, tag, offset, header length, and whether this is a first, a following or the last fragment.\<close>

record frag_info =
  frag_size :: u16
  frag_tag :: u16
  frag_offset :: u8
  frag_hdr_len :: u8
  is_fragment :: bool
  first_fragment :: bool
  last_fragment :: bool

definition no_fragment :: frag_info where
  "no_fragment = \<lparr>frag_size = 0, frag_tag = 0, frag_offset = 0, frag_hdr_len = 0, is_fragment = False, first_fragment = False, last_fragment = False\<rparr>"

definition parse_fragment :: "u8 list \<Rightarrow> sicslowpan \<Rightarrow> frag_info option" where
  "parse_fragment buf s = do {
     w \<leftarrow> GET16 buf 0;
     let d = drop_bit 8 (w AND 0xf800);
     (if d = ucast SICSLOWPAN_DISPATCH_FRAG1 then do {
        tag \<leftarrow> GET16 buf 2;
        Some (no_fragment\<lparr>frag_size := w AND 0x07ff, frag_tag := tag, frag_hdr_len := of_nat SICSLOWPAN_FRAG1_HDR_LEN,
          is_fragment := True, first_fragment := True\<rparr>)
      }
      else if d = ucast SICSLOWPAN_DISPATCH_FRAGN then do {
        off \<leftarrow> get buf 4;
        tag \<leftarrow> GET16 buf 2;
        Some (no_fragment\<lparr>frag_size := w AND 0x07ff, frag_tag := tag, frag_offset := off, frag_hdr_len := of_nat SICSLOWPAN_FRAGN_HDR_LEN,
          is_fragment := True,
          last_fragment := uint (processed_ip_in_len s) + uint (packetbuf_datalen (pktbuf s)) - int SICSLOWPAN_FRAGN_HDR_LEN \<ge> uint (w AND 0x07ff)\<rparr>)
      }
      else Some no_fragment)
   }"

definition stop_reassembly :: "sicslowpan \<Rightarrow> sicslowpan" where
  "stop_reassembly s = s\<lparr>sicslowpan_len := 0, processed_ip_in_len := 0\<rparr>"

text \<open>The checks before the frame is processed; False is the return that drops it.\<close>

definition reassembly_check :: "clock_time_t \<Rightarrow> linkaddr \<Rightarrow> frag_info \<Rightarrow> sicslowpan \<Rightarrow> bool \<times> sicslowpan" where
  "reassembly_check now sender f s = (let
     s = (if \<not> is_fragment f then stop_reassembly s
          else if processed_ip_in_len s > 0 \<and> first_fragment f \<and> \<not> linkaddr_cmp (frag_sender s) sender then stop_reassembly s
          else s) in
     if processed_ip_in_len s > 0 then
       if frag_size f > 0 \<and> (frag_size f \<noteq> sicslowpan_len s \<or> reass_tag s \<noteq> frag_tag f \<or> \<not> linkaddr_cmp (frag_sender s) sender) \<or> frag_size f = 0
       then (False, s) else (True, s)
     else if frag_size f > 0 \<and> unat (frag_size f) \<le> UIP_BUFSIZE then
       if is_fragment f \<and> \<not> first_fragment f then (False, s)
       else (let s = s\<lparr>sicslowpan_len := frag_size f, reass_tag := frag_tag f,
               reass_timer := timer_set now (SICSLOWPAN_REASS_MAXAGE * CLOCK_SECOND) (reass_timer s),
               frag_sender := linkaddr_copy (frag_sender s) sender\<rparr> in (True, s))
     else (True, s))"

text \<open>The header behind the fragment header: the buffer and both header lengths, or \<^term>\<open>None\<close> for an unknown dispatch.\<close>

definition process_dispatch :: "linkaddr \<Rightarrow> linkaddr \<Rightarrow> frag_info \<Rightarrow> u8 list \<Rightarrow> sicslowpan \<Rightarrow> (u8 list \<times> u8 \<times> u8) option option" where
  "process_dispatch sender receiver f buf s = (
     if frag_hdr_len f = of_nat SICSLOWPAN_FRAGN_HDR_LEN then Some (Some (sicslowpan_buf s, frag_hdr_len f, 0))
     else do {
       b \<leftarrow> get buf (unat (frag_hdr_len f));
       (if b AND 0xe0 = SICSLOWPAN_DISPATCH_IPHC
        then map_option Some (uncompress_hdr_hc06 (addr_contexts s) sender receiver (frag_size f) (packetbuf_datalen (pktbuf s))
          buf (frag_hdr_len f) 0 (sicslowpan_buf s))
        else if b = SICSLOWPAN_DISPATCH_IPV6 then do {
          let hdr_len = frag_hdr_len f + of_nat SICSLOWPAN_IPV6_HDR_LEN;
          bs \<leftarrow> read_bytes (unat hdr_len) UIP_IPH_LEN buf;
          sb \<leftarrow> write_bytes 0 bs (sicslowpan_buf s);
          Some (Some (sb, hdr_len + of_nat UIP_IPH_LEN, of_nat UIP_IPH_LEN))
        } else Some None)
     })"

text \<open>Delivery of a complete packet to \<open>tcpip_input\<close>; the packet is part of the result.\<close>

definition deliver :: "sicslowpan \<Rightarrow> (u8 list option \<times> sicslowpan) option" where
  "deliver s = (if processed_ip_in_len s = 0 \<or> processed_ip_in_len s = sicslowpan_len s
     then do {
       bs \<leftarrow> read_bytes 0 (unat (sicslowpan_len s)) (sicslowpan_buf s);
       ub \<leftarrow> write_bytes 0 bs (uip_buf s);
       Some (Some bs, stop_reassembly (s\<lparr>uip_buf := ub, uip_len := sicslowpan_len s\<rparr>))
     } else Some (None, s))"

definition copy_payload :: "frag_info \<Rightarrow> u8 list \<Rightarrow> u8 \<Rightarrow> u8 \<Rightarrow> sicslowpan \<Rightarrow> (u8 list option \<times> sicslowpan) option" where
  "copy_payload f buf hdr_len uncomp s = (let datalen = packetbuf_datalen (pktbuf s) in
     if datalen < ucast hdr_len then Some (None, s)
     else let payload_len = unat datalen - unat hdr_len; off = unat uncomp + 8 * unat (frag_offset f) in
     if off + payload_len > UIP_BUFSIZE then Some (None, s)
     else do {
       bs \<leftarrow> read_bytes (unat hdr_len) payload_len buf;
       sb \<leftarrow> write_bytes off bs (sicslowpan_buf s);
       let s = s\<lparr>sicslowpan_buf := sb\<rparr>;
       let s = (if frag_size f > 0 then
           let n = (if first_fragment f then processed_ip_in_len s + ucast uncomp else processed_ip_in_len s) in
           s\<lparr>processed_ip_in_len := (if last_fragment f then frag_size f else n + of_nat payload_len)\<rparr>
         else s\<lparr>sicslowpan_len := of_nat payload_len + ucast uncomp\<rparr>);
       deliver s
     })"

definition sicslowpan_input :: "clock_time_t \<Rightarrow> sicslowpan \<Rightarrow> (u8 list option \<times> sicslowpan) option" where
  "sicslowpan_input now s = do {
     rssi \<leftarrow> packetbuf_attr PACKETBUF_ATTR_RSSI (pktbuf s);
     let s = s\<lparr>last_rssi := sint rssi\<rparr>;
     let buf = from_ptr (packetbuf_dataptr (pktbuf s)) (pktbuf s);
     let s = (if timer_expired now (reass_timer s) then stop_reassembly s else s);
     f \<leftarrow> parse_fragment buf s;
     sender \<leftarrow> packetbuf_addr PACKETBUF_ADDR_SENDER (pktbuf s);
     receiver \<leftarrow> packetbuf_addr PACKETBUF_ADDR_RECEIVER (pktbuf s);
     (case reassembly_check now sender f s of
        (False, s) \<Rightarrow> Some (None, s)
      | (True, s) \<Rightarrow> do {
          r \<leftarrow> process_dispatch sender receiver f buf s;
          (case r of
             None \<Rightarrow> Some (None, s)
           | Some (sb, hdr_len, uncomp) \<Rightarrow> copy_payload f buf hdr_len uncomp (s\<lparr>sicslowpan_buf := sb\<rparr>))
        })
   }"

definition sicslowpan_get_last_rssi :: "sicslowpan \<Rightarrow> int" where
  "sicslowpan_get_last_rssi s = last_rssi s"

definition sicslowpan_init :: "sicslowpan \<Rightarrow> sicslowpan" where
  "sicslowpan_init s = s\<lparr>addr_contexts := (let c = addr_contexts s; p = ctx_prefix (c ! 0) in
     [(c ! 0)\<lparr>ctx_used := 1, ctx_number := 0, ctx_prefix := p[0 := 0xaa, 1 := 0xaa]\<rparr>, (c ! 1)\<lparr>ctx_used := 0\<rparr>])\<rparr>"

end
