(* ===== verification/IphcRoundtrip.thy ===== *)
theory IphcRoundtrip
  imports Iphc
begin

text \<open>
  What one node compresses, another decompresses: the header restored in
  \<open>sicslowpan_buf\<close> is the header that was in \<open>uip_buf\<close>.
\<close>

section \<open>Traffic class, next header and hop limit\<close>

lemma u8_eq_bits: "(v = w) = (word_bits 8 v = word_bits 8 (w :: u8))"
  using word_bits_8_inj by blast

lemma get_at [simp]: "n = length pre \<Longrightarrow> get (pre @ b # post) n = Some b"
  by simp

lemma get_at_Suc [simp]: "get (pre @ bs) (Suc (length pre)) = get bs 1"
  using get_append2 [of pre bs 1] by simp

lemma get_at_add [simp]: "get (pre @ bs) (length pre + n) = get bs n"
  by simp

lemma read_at: "read_bytes (length pre + i) n (pre @ bs) = read_bytes i n bs"
  by (simp add: read_bytes_def)

lemma read_at_Suc: "read_bytes (Suc (length pre)) n (pre @ bs) = read_bytes 1 n bs"
  using read_at [of pre 1 n bs] by simp

lemmas hc06_consts = SICSLOWPAN_IPHC_FL_C_def SICSLOWPAN_IPHC_TC_C_def SICSLOWPAN_IPHC_NH_C_def SICSLOWPAN_IPHC_TTL_1_def
  SICSLOWPAN_IPHC_TTL_64_def SICSLOWPAN_IPHC_TTL_255_def SICSLOWPAN_IPHC_TTL_I_def SICSLOWPAN_IPHC_CID_def SICSLOWPAN_IPHC_SAC_def
  SICSLOWPAN_IPHC_SAM_00_def SICSLOWPAN_IPHC_SAM_11_def SICSLOWPAN_IPHC_SAM_BIT_def SICSLOWPAN_IPHC_M_def SICSLOWPAN_IPHC_DAC_def
  SICSLOWPAN_IPHC_DAM_00_def SICSLOWPAN_IPHC_DAM_01_def SICSLOWPAN_IPHC_DAM_10_def SICSLOWPAN_IPHC_DAM_11_def SICSLOWPAN_IPHC_DAM_BIT_def

lemmas ip_fields = ip_vtc_def ip_tcflow_def ip_flow_def ip_proto_def ip_ttl_def ip_srcipaddr_def ip_destipaddr_def

lemma tf_bits1:
  assumes "vtc AND 0xF0 = 0x60" and "tmp = push_bit 4 vtc OR drop_bit 4 tcf" and "b = push_bit 6 (tmp AND 0x03) OR drop_bit 2 tmp"
  shows "0x60 OR (drop_bit 2 b AND 0x0f) = (vtc :: u8)"
    and "(drop_bit 2 b AND 0x30) OR push_bit 6 b OR (tcf AND 0x0f) = (tcf :: u8)"
    and "tcf AND 0x0F = 0 \<Longrightarrow> (push_bit 6 b AND 0xC0) OR (drop_bit 2 b AND 0x30) = tcf"
  using assms(1) unfolding assms(2,3) by (simp_all add: u8_eq_bits word_bits_8 bit_ops)

lemma tf_bits2:
  assumes "vtc AND 0xF0 = 0x60" and "vtc AND 0x0F = 0"
  shows "vtc = (0x60 :: u8)"
  using assms by (simp add: u8_eq_bits word_bits_8 bit_ops)

lemma tf_bits3:
  assumes "tcf AND 0xF0 = 0" and "tmp = push_bit 4 vtc OR drop_bit 4 tcf" and "b = push_bit 6 (tmp AND 0x03) OR drop_bit 2 tmp"
  shows "(((b AND 0xc0) OR (tcf AND 0x0F)) AND 0x0F) OR (drop_bit 2 ((b AND 0xc0) OR (tcf AND 0x0F)) AND 0x30) = (tcf :: u8)"
  using assms(1) unfolding assms(2,3) by (simp add: u8_eq_bits word_bits_8 bit_ops)

lemma tf_bits4: "tcf AND 0xF0 = 0 \<Longrightarrow> tcf AND 0x0F = 0 \<Longrightarrow> tcf = (0 :: u8)"
  by (simp add: u8_eq_bits word_bits_8 bit_ops)

lemma tf_roundtrip:
  assumes vtc: "vtc AND 0xF0 = 0x60" and ip: "ip = vtc # tcf # f0 # f1 # ip'" and c: "compress_tf ip = (f, bs)"
    and fl: "iphc0 AND 0x10 = f AND 0x10" "iphc0 AND 0x08 = f AND 0x08" and buf: "buf = pre @ bs @ post"
  shows "uncompress_tf iphc0 buf (length pre, v # t # a # b # sb) = Some (length pre + length bs, vtc # tcf # f0 # f1 # sb)"
proof -
  define tmp where "tmp = push_bit 4 vtc OR drop_bit 4 tcf"
  define e where "e = push_bit 6 (tmp AND 0x03) OR drop_bit 2 tmp"
  note b1 = tf_bits1 [OF vtc tmp_def e_def]
  have "compress_tf ip = (if tcf AND 0x0F = 0 \<and> [f0, f1] = [0, 0] then
       if vtc AND 0x0F = 0 \<and> tcf AND 0xF0 = 0 then (0x18, []) else (0x10, [e])
     else if vtc AND 0x0F = 0 \<and> tcf AND 0xF0 = 0 then (0x08, ((e AND 0xc0) OR (tcf AND 0x0F)) # [f0, f1])
       else (0, [e, tcf, f0, f1]))"
    unfolding ip compress_tf_def Let_def ip_fields hc06_consts e_def tmp_def by simp
  note c' = this [unfolded c]
  show ?thesis
  proof (cases "tcf AND 0x0F = 0 \<and> [f0, f1] = [0, 0]")
    case True
    show ?thesis
    proof (cases "vtc AND 0x0F = 0 \<and> tcf AND 0xF0 = 0")
      case T: True
      then show ?thesis
        using c' True fl vtc tf_bits2 [of vtc] tf_bits4 [of tcf] by (simp add: uncompress_tf_def hc06_consts write_bytes_def)
    next
      case False
      then have cc: "f = 0x10" "bs = [e]" using c' True by auto
      show ?thesis
        using True fl b1(1) b1(3) by (simp add: cc uncompress_tf_def hc06_consts write_bytes_def buf)
    qed
  next
    case False
    show ?thesis
    proof (cases "vtc AND 0x0F = 0 \<and> tcf AND 0xF0 = 0")
      case T: True
      define k where "k = (e AND 0xc0) OR (tcf AND 0x0F)"
      have cc: "f = 0x08" "bs = [k, f0, f1]" using c' False T unfolding k_def by auto
      have "(k AND 0x0F) OR (drop_bit 2 k AND 0x30) = tcf" unfolding k_def by (rule tf_bits3 [OF _ tmp_def e_def]) (use T in simp)
      then show ?thesis
        using fl tf_bits2 [OF vtc] T by (simp add: cc uncompress_tf_def hc06_consts write_bytes_def buf read_at_Suc, simp add: read_bytes_def)
    next
      case F: False
      have cc: "f = 0" "bs = [e, tcf, f0, f1]" using c' False F by auto
      show ?thesis
        using fl b1(1,2) by (simp add: cc uncompress_tf_def hc06_consts write_bytes_def buf read_at_Suc, simp add: read_bytes_def ip_fields)
    qed
  qed
qed

lemma nh_roundtrip:
  assumes c: "compress_nh ip = (f, bs)" and fl: "iphc0 AND 0x04 = f AND 0x04" and buf: "buf = pre @ bs @ post"
    and sb: "length sb6 = 6"
  shows "uncompress_nh iphc0 buf (length pre, sb6 @ p # sb) =
    Some (length pre + length bs, sb6 @ (if ip_proto ip = UIP_PROTO_UDP then p else ip_proto ip) # sb)"
  using c fl sb by (auto simp: compress_nh_def uncompress_nh_def hc06_consts write_bytes_def buf split: if_splits)

lemma ttl_roundtrip:
  assumes c: "compress_ttl ip = (f, bs)" and fl: "iphc0 AND 0x03 = f" and buf: "buf = pre @ bs @ post"
    and sb: "length sb7 = 7"
  shows "uncompress_ttl iphc0 buf (length pre, sb7 @ p # sb) = Some (length pre + length bs, sb7 @ ip_ttl ip # sb)"
  using c fl sb by (auto simp: compress_ttl_def uncompress_ttl_def hc06_consts ttl_values_def write_bytes_def buf split: if_splits)


section \<open>Addresses\<close>

text \<open>The interface identifier behind an address mode: from the packet, from a short address, or from the link address.\<close>

definition iid_expand :: "nat \<Rightarrow> u8 list \<Rightarrow> linkaddr \<Rightarrow> u8 list" where
  "iid_expand m bs ll = (if m = 3 then ll[0 := ll ! 0 XOR 0x02] else if m = 2 then [0, 0, 0, 0xff, 0xfe, 0] @ bs else bs)"

definition iid_mode :: "nat \<Rightarrow> u8 list \<Rightarrow> bool" where
  "iid_mode m bs \<longleftrightarrow> m = 1 \<and> length bs = 8 \<or> m = 2 \<and> length bs = 2 \<or> m = 3 \<and> bs = []"

lemma length_4E: "length a = 4 \<Longrightarrow> a = [a ! 0, a ! 1, a ! 2, a ! 3]"
  by (auto simp: length_Suc_conv eval_nat_numeral)

lemma length_8E: "length a = 8 \<Longrightarrow> a = [a ! 0, a ! 1, a ! 2, a ! 3, a ! 4, a ! 5, a ! 6, a ! 7]"
  by (auto simp: length_Suc_conv eval_nat_numeral)

lemma length_16E: "length a = 16 \<Longrightarrow> a = [a ! 0, a ! 1, a ! 2, a ! 3, a ! 4, a ! 5, a ! 6, a ! 7,
    a ! 8, a ! 9, a ! 10, a ! 11, a ! 12, a ! 13, a ! 14, a ! 15]"
  by (auto simp: length_Suc_conv eval_nat_numeral)

lemma compress_addr_64_mode:
  assumes "length a = 16" and "length ll = 8" and "compress_addr_64 bitpos a ll = (f, bs)"
  shows "\<exists>m. iid_mode m bs \<and> f = push_bit bitpos (of_nat m) \<and> iid_expand m bs ll = drop 8 a"
proof -
  note a = length_16E [OF assms(1)] and l = length_8E [OF assms(2)]
  consider "uip_is_addr_mac_addr_based a ll" "f = push_bit bitpos 3" "bs = []"
    | "sicslowpan_is_iid_16_bit_compressable a" "f = push_bit bitpos 2" "bs = take 2 (drop 14 a)"
    | "f = push_bit bitpos 1" "bs = take 8 (drop 8 a)"
    using assms(3) by (auto simp: compress_addr_64_def split: if_splits)
  then show ?thesis
  proof cases
    case 1
    have "ll[0 := ll ! 0 XOR 2] = drop 8 a"
      using 1(1) by (subst a, subst l) (simp add: uip_is_addr_mac_addr_based_def)
    then show ?thesis using 1 by (intro exI [of _ 3]) (simp add: iid_mode_def iid_expand_def)
  next
    case 2
    have "[0, 0, 0, 0xff, 0xfe, 0] @ take 2 (drop 14 a) = drop 8 a"
      using 2(1) by (subst a, subst (2) a) (simp add: sicslowpan_is_iid_16_bit_compressable_def u16_zero_def)
    then show ?thesis using 2 assms(1) by (intro exI [of _ 2]) (simp add: iid_mode_def iid_expand_def)
  next
    case 3
    then show ?thesis using assms(1) by (intro exI [of _ 1]) (simp add: iid_mode_def iid_expand_def)
  qed
qed

lemma write_mid: "length xs = n \<Longrightarrow> length old = length bs \<Longrightarrow> write_bytes n bs (xs @ old @ ys) = Some (xs @ bs @ ys)"
  by (simp add: write_bytes_def)

lemma write_take_drop: "n + length bs \<le> length xs \<Longrightarrow> write_bytes n bs xs = Some (take n xs @ bs @ drop (n + length bs) xs)"
  by (simp add: write_bytes_def)

lemma uncompress_addr_post:
  assumes n: "full_nibble (drop_bit 4 c) = n" and k: "full_nibble (c AND 0x0f) = k" "0 < k" "n + k \<le> 16"
    and l: "length old = 16" "n \<le> length p" "length bs = k" and buf: "buf = pre @ bs @ post"
  shows "uncompress_addr old p c ll (buf, length pre) =
    Some ((let a = take n p @ replicate (16 - (n + k)) 0 @ bs in if k = 2 \<and> n < 11 then take 11 a @ [0xff, 0xfe] @ drop 13 a else a), length pre + k)"
proof -
  let ?a1 = "take n p @ drop n old" and ?a2 = "take n p @ replicate (16 - (n + k)) 0 @ drop (16 - k) old"
  have 1: "(if n > 0 then Option.bind (read_bytes 0 n p) (\<lambda>bs. write_bytes 0 bs old) else Some old) = Some ?a1"
    using l k(3) by (simp add: read_bytes_def write_bytes_def)
  have 2: "(if n + k < 16 then write_bytes n (replicate (16 - (n + k)) 0) ?a1 else Some ?a1) = Some ?a2"
    using l k(3) by (auto simp: write_bytes_def intro!: arg_cong [where f = "\<lambda>i. drop i old"])
  have r: "read_bytes (length pre) k buf = Some bs" by (simp add: buf l(3))
  have 3: "write_bytes (16 - k) bs ?a2 = Some (take n p @ replicate (16 - (n + k)) 0 @ bs)"
    using write_mid [of "take n p @ replicate (16 - (n + k)) 0" "16 - k" "drop (16 - k) old" bs "[]"] l k(3) by simp
  show ?thesis
    unfolding uncompress_addr_def n k(1) Let_def prod.case 1 2 option.simps Option.bind.simps r 3
    using k(2,3) l by (simp add: write_bytes_def)
qed

lemma uncompress_addr_iid:
  assumes n: "full_nibble (drop_bit 4 c) = n" "0 < n" "n \<le> 8" and k: "full_nibble (c AND 0x0f) = 0"
    and l: "length old = 16" "n \<le> length p" "length ll = 8"
  shows "uncompress_addr old p c ll (buf, q) = Some (take n p @ replicate (8 - n) 0 @ ll[0 := ll ! 0 XOR 0x02], q)"
proof -
  let ?a1 = "take n p @ drop n old" and ?a2 = "take n p @ replicate (16 - n) 0"
  have 1: "(if n > 0 then Option.bind (read_bytes 0 n p) (\<lambda>bs. write_bytes 0 bs old) else Some old) = Some ?a1"
    using l n(2,3) by (simp add: read_bytes_def write_bytes_def)
  have 2: "(if n + 0 < 16 then write_bytes n (replicate (16 - (n + 0)) 0) ?a1 else Some ?a1) = Some ?a2"
    using l n(3) by (simp add: write_bytes_def)
  have "uip_ds6_set_addr_iid ?a2 ll = take n p @ replicate (8 - n) 0 @ ll[0 := ll ! 0 XOR 0x02]"
    using l n by (simp add: uip_ds6_set_addr_iid_def nth_append list_update_append)
  then show ?thesis
    unfolding uncompress_addr_def n(1) k Let_def prod.case 1 2 option.simps Option.bind.simps using n(2) by simp
qed

lemma uncompress_addr_prefix:
  assumes "length old = 16" and "length ll = 8" and "length p = n" and conf: "(n, conf) = (8, unc_ctxconf) \<or> (n, conf) = (2, unc_llconf)"
    and m: "iid_mode m bs" and buf: "buf = pre @ bs @ post"
  shows "uncompress_addr old p (conf ! m) ll (buf, length pre) =
    Some (p @ replicate (8 - n) 0 @ iid_expand m bs ll, length pre + length bs)"
proof -
  have n: "0 < n" "n \<le> 8" using conf by auto
  consider "m = 1" "length bs = 8" | "m = 2" "length bs = 2" | "m = 3" "bs = []" using m by (auto simp: iid_mode_def)
  then show ?thesis
  proof cases
    case 1
    have "full_nibble (drop_bit 4 (conf ! 1)) = n" "full_nibble (conf ! 1 AND 0x0f) = 8"
      using conf by (auto simp: unc_ctxconf_def unc_llconf_def full_nibble_def)
    from uncompress_addr_post [OF this _ _ assms(1) _ 1(2) buf, of p ll] show ?thesis
      using 1 n assms(3) by (simp add: iid_expand_def)
  next
    case 2
    have f: "full_nibble (drop_bit 4 (conf ! 2)) = n" "full_nibble (conf ! 2 AND 0x0f) = 2"
      using conf by (auto simp: unc_ctxconf_def unc_llconf_def full_nibble_def)
    have z: "replicate (14 - n) (0::u8) = replicate (8 - n) 0 @ [0, 0, 0, 0, 0, 0]"
      using conf by (auto simp: eval_nat_numeral)
    from uncompress_addr_post [OF f _ _ assms(1) _ 2(2) buf, of p ll] show ?thesis
      using 2 n assms(3) by (simp add: iid_expand_def z Let_def)
  next
    case 3
    have "full_nibble (drop_bit 4 (conf ! 3)) = n" "full_nibble (conf ! 3 AND 0x0f) = 0"
      using conf by (auto simp: unc_ctxconf_def unc_llconf_def full_nibble_def)
    from uncompress_addr_iid [OF this(1) n this(2) assms(1) _ assms(2)] show ?thesis
      using 3 assms(3) by (simp add: iid_expand_def)
  qed
qed


text \<open>The contexts that the nodes share: numbers fit the nibble and are not used twice.\<close>

definition contexts_ok :: "addr_context list \<Rightarrow> bool" where
  "contexts_ok cs \<longleftrightarrow> (\<forall>c \<in> set cs. ctx_used c = 1 \<longrightarrow> ctx_number c < 16 \<and> length (ctx_prefix c) = 8 \<and>
     (\<forall>d \<in> set cs. ctx_used d = 1 \<and> ctx_number d = ctx_number c \<longrightarrow> ctx_prefix d = ctx_prefix c))"

lemma lookup_number:
  assumes "contexts_ok cs" and "addr_context_lookup_by_prefix cs a = Some c" and "length a = 16"
  shows "ctx_number c < 16 \<and> length (ctx_prefix c) = 8 \<and> ctx_prefix c = take 8 a \<and>
    (\<exists>d. addr_context_lookup_by_number cs (ctx_number c) = Some d \<and> ctx_prefix d = take 8 a)"
proof -
  have c: "c \<in> set cs" "ctx_used c = 1" "take 8 (ctx_prefix c) = take 8 a"
    using assms(2) by (auto simp: addr_context_lookup_by_prefix_def find_Some_iff uip_ipaddr_prefixcmp_def)
  obtain d where d: "addr_context_lookup_by_number cs (ctx_number c) = Some d"
    using c(1,2) by (cases "addr_context_lookup_by_number cs (ctx_number c)") (auto simp: addr_context_lookup_by_number_def find_None_iff)
  then have "d \<in> set cs" "ctx_used d = 1" "ctx_number d = ctx_number c"
    by (auto simp: addr_context_lookup_by_number_def find_Some_iff)
  then have "ctx_number c < 16" "length (ctx_prefix c) = 8" "ctx_prefix d = ctx_prefix c"
    using assms(1) c(1,2) unfolding contexts_ok_def by blast+
  then show ?thesis using c(3) d by simp
qed

lemma nibble_bits: "number < 16 \<Longrightarrow> drop_bit 4 (push_bit 4 number OR (x AND 0x0f)) = (number :: u8)"
  "number < 16 \<Longrightarrow> (y AND 0xf0 OR number) AND 0x0f = (number :: u8)"
proof -
  assume "number < 16"
  then have "unat (take_bit 4 number) = unat number"
    by (simp add: unsigned_take_bit_eq take_bit_nat_eq_self_iff word_less_nat_alt)
  then have "take_bit 4 number = number" by (rule unsigned_word_eqI)
  then have "n < 4" if "bit number n" for n using that by (metis bit_take_bit_iff)
  from this [of 4] this [of 5] this [of 6] this [of 7]
  have "\<not> bit number 4" "\<not> bit number 5" "\<not> bit number 6" "\<not> bit number 7" by auto
  then show "drop_bit 4 (push_bit 4 number OR (x AND 0x0f)) = number" "(y AND 0xf0 OR number) AND 0x0f = number"
    by (simp_all add: u8_eq_bits word_bits_8 bit_ops)
qed

text \<open>What the source address compression loses: bits 16 to 63 of a link-local source without context.\<close>

definition src_compressible :: "addr_context list \<Rightarrow> u8 list \<Rightarrow> bool" where
  "src_compressible cs ip \<longleftrightarrow> (let src = ip_srcipaddr ip; dest = ip_destipaddr ip in
     addr_context_lookup_by_prefix cs src = None \<and> uip_is_addr_link_local src \<and>
     u16_zero 1 dest \<and> u16_zero 2 dest \<and> u16_zero 3 dest \<longrightarrow> u16_zero 1 src \<and> u16_zero 2 src \<and> u16_zero 3 src)"

lemma link_local_prefix:
  assumes "length a = 16" and "uip_is_addr_link_local a" and "u16_zero 1 a" and "u16_zero 2 a" and "u16_zero 3 a"
  shows "llprefix @ replicate 6 0 = take 8 a"
  using assms(2-) by (subst length_16E [OF assms(1)]) (simp add: llprefix_def uip_is_addr_link_local_def u16_zero_def eval_nat_numeral)

lemma append_halves: "x = drop 8 a \<Longrightarrow> take 8 a @ x = a"
  by simp

lemma unspecified_zero:
  assumes "length a = 16"
  shows "uip_is_addr_unspecified a = (a = replicate 16 0)"
proof -
  have "uip_is_addr_unspecified a = list_all (\<lambda>i. a ! i = 0) [0..<16]"
    by (simp add: uip_is_addr_unspecified_def u16_zero_def upt_rec eval_nat_numeral)
  also have "\<dots> = (a = replicate 16 0)"
    using assms by (auto simp: list_all_iff list_eq_iff_nth_eq)
  finally show ?thesis .
qed

lemma iid_mode_cases: "iid_mode m bs \<Longrightarrow> m = 1 \<or> m = 2 \<or> m = 3"
  by (auto simp: iid_mode_def)

lemma src_roundtrip:
  assumes c: "compress_src cs ll ip = (sam, sci, bs)" and ip: "length (ip_srcipaddr ip) = 16" and ll: "length ll = 8"
    and cs: "contexts_ok cs" and sc: "src_compressible cs ip"
    and fl: "iphc1 AND 0x70 = sam AND 0x70" "addr_context_lookup_by_prefix cs (ip_srcipaddr ip) \<noteq> None \<Longrightarrow> iphc1 AND 0x80 \<noteq> 0"
    and buf: "buf = pre @ bs @ post" and cb: "iphc1 AND 0x80 \<noteq> 0 \<Longrightarrow> get buf (base + 2) = Some (sci OR (x AND 0x0f))"
    and sb: "length h = 8" "length old = 16"
  shows "uncompress_src cs ll base iphc1 buf (length pre, h @ old @ sb) = Some (Some (length pre + length bs, h @ ip_srcipaddr ip @ sb))"
proof -
  let ?src = "ip_srcipaddr ip"
  have w: "ip_srcipaddr (h @ old @ sb) = old" "\<And>a. length a = 16 \<Longrightarrow> write_bytes 8 a (h @ old @ sb) = Some (h @ a @ sb)"
    using sb by (simp_all add: ip_srcipaddr_def write_bytes_def)
  have m4: "drop_bit 4 (push_bit 4 (of_nat m) :: u8) AND 3 = of_nat m" "push_bit 4 (of_nat m) AND 0x30 = (push_bit 4 (of_nat m) :: u8)"
    "unat (of_nat m :: u8) = m" "m \<noteq> 0" if "iid_mode m bs'" for m bs'
    using iid_mode_cases [OF that] by auto
  show ?thesis
  proof (cases "uip_is_addr_unspecified ?src")
    case True
    then have r: "sam = 0x40" "bs = []" and s: "?src = replicate 16 0"
      using c unspecified_zero [OF ip] by (auto simp: compress_src_def hc06_consts)
    have f: "iphc1 AND 0x40 \<noteq> 0" "iphc1 AND 0x30 = 0"
      using fl(1) unfolding r(1) by (simp_all add: u8_eq_bits word_bits_8 bit_ops)
    have u: "uncompress_addr old [] 0 ll (buf, length pre) = Some (?src, length pre)"
      using sb(2) by (simp add: uncompress_addr_def Let_def full_nibble_def write_bytes_def s)
    obtain b where b: "(if iphc1 AND SICSLOWPAN_IPHC_CID \<noteq> 0 then get buf (base + 2) else Some 0) = Some b"
      using cb by (cases "iphc1 AND 0x80 = 0") (simp_all add: hc06_consts)
    show ?thesis
      unfolding uncompress_src_def b prod.case Let_def using f u w ip r(2) by (simp add: hc06_consts unc_ctxconf_def)
  next
    case ns: False
    show ?thesis
    proof (cases "addr_context_lookup_by_prefix cs ?src")
      case (Some ctx)
      obtain f where f: "compress_addr_64 4 ?src ll = (f, bs)" "sam = 0x80 OR 0x40 OR f" "sci = push_bit 4 (ctx_number ctx)"
        using c ns Some by (auto simp: compress_src_def hc06_consts Let_def split: prod.splits)
      obtain m where m: "iid_mode m bs" "f = push_bit 4 (of_nat m)" "iid_expand m bs ll = drop 8 ?src"
        using compress_addr_64_mode [OF ip ll f(1)] by blast
      obtain d where d: "ctx_number ctx < 16" "addr_context_lookup_by_number cs (ctx_number ctx) = Some d" "ctx_prefix d = take 8 ?src"
        using lookup_number [OF cs Some ip] by blast
      have fl': "iphc1 AND 0x40 \<noteq> 0" "iphc1 AND 0x30 = f" "iphc1 AND 0x80 \<noteq> 0"
        using fl Some iid_mode_cases [OF m(1)] unfolding f(2) m(2) by (auto simp: u8_eq_bits word_bits_8 bit_ops)
      have u: "uncompress_addr old (ctx_prefix d) (unc_ctxconf ! m) ll (buf, length pre) = Some (?src, length pre + length bs)"
        using uncompress_addr_prefix [OF sb(2) ll _ disjI1 [OF refl] m(1) buf, of "ctx_prefix d"] d(3) ip m(3) by simp
      have b: "get buf (base + 2) = Some (sci OR (x AND 0x0f))" using cb fl'(3) .
      show ?thesis
        unfolding uncompress_src_def prod.case Let_def
        using fl' u w ip b d(2) nibble_bits(1) [OF d(1), of x] m4 [OF m(1)] by (simp add: hc06_consts f(3) m(2))
    next
      case None
      show ?thesis
      proof (cases "uip_is_addr_link_local ?src \<and> u16_zero 1 (ip_destipaddr ip) \<and> u16_zero 2 (ip_destipaddr ip) \<and> u16_zero 3 (ip_destipaddr ip)")
        case True
        obtain f where f: "compress_addr_64 4 ?src ll = (f, bs)" "sam = f"
          using c ns None True by (auto simp: compress_src_def hc06_consts Let_def split: prod.splits)
        obtain m where m: "iid_mode m bs" "f = push_bit 4 (of_nat m)" "iid_expand m bs ll = drop 8 ?src"
          using compress_addr_64_mode [OF ip ll f(1)] by blast
        have fl': "iphc1 AND 0x40 = 0" "iphc1 AND 0x30 = f"
          using fl(1) iid_mode_cases [OF m(1)] unfolding f(2) m(2) by (auto simp: u8_eq_bits word_bits_8 bit_ops)
        have "llprefix @ replicate 6 0 = take 8 ?src"
          by (rule link_local_prefix [OF ip]) (use True None sc in \<open>auto simp: src_compressible_def Let_def\<close>)
        then have "llprefix @ replicate 6 0 @ iid_expand m bs ll = ?src"
          unfolding m(3) by (metis append.assoc append_take_drop_id)
        then have u: "uncompress_addr old llprefix (unc_llconf ! m) ll (buf, length pre) = Some (?src, length pre + length bs)"
          using uncompress_addr_prefix [OF sb(2) ll _ disjI2 [OF refl] m(1) buf, of llprefix] by (simp add: llprefix_def)
        show ?thesis
          unfolding uncompress_src_def prod.case Let_def using fl' u w ip m4 [OF m(1)] by (simp add: hc06_consts m(2))
      next
        case False
        then have r: "sam = 0" "bs = ?src" using c ns None by (auto simp: compress_src_def hc06_consts Let_def)
        have fl': "iphc1 AND 0x40 = 0" "iphc1 AND 0x30 = 0"
          using fl(1) unfolding r(1) by (simp_all add: u8_eq_bits word_bits_8 bit_ops)
        have "full_nibble (drop_bit 4 0x0f) = 0" "full_nibble (0x0f AND 0x0f) = 16" by (simp_all add: full_nibble_def)
        from uncompress_addr_post [OF this _ _ sb(2) _ _ buf, of llprefix ll]
        have u: "uncompress_addr old llprefix 0x0f ll (buf, length pre) = Some (?src, length pre + length bs)"
          using ip r(2) by simp
        show ?thesis
          unfolding uncompress_src_def prod.case Let_def using fl' u w ip by (simp add: hc06_consts unc_llconf_def)
      qed
    qed
  qed
qed


lemma mcast_bytes:
  assumes "length a = 16" and "uip_is_addr_mcast a"
  shows "sicslowpan_is_mcast_addr_compressable8 a \<Longrightarrow> [0xff, 0x02] @ replicate 13 0 @ [a ! 15] = a"
    and "sicslowpan_is_mcast_addr_compressable32 a \<Longrightarrow> [0xff, a ! 1] @ replicate 11 0 @ take 3 (drop 13 a) = a"
    and "sicslowpan_is_mcast_addr_compressable48 a \<Longrightarrow> [0xff, a ! 1] @ replicate 9 0 @ take 5 (drop 11 a) = a"
proof -
  define b where "b = (\<lambda>i. a ! i)"
  have a: "a = [b 0, b 1, b 2, b 3, b 4, b 5, b 6, b 7, b 8, b 9, b 10, b 11, b 12, b 13, b 14, b 15]"
    unfolding b_def by (rule length_16E [OF assms(1)])
  show "sicslowpan_is_mcast_addr_compressable8 a \<Longrightarrow> [0xff, 0x02] @ replicate 13 0 @ [a ! 15] = a"
    and "sicslowpan_is_mcast_addr_compressable32 a \<Longrightarrow> [0xff, a ! 1] @ replicate 11 0 @ take 3 (drop 13 a) = a"
    and "sicslowpan_is_mcast_addr_compressable48 a \<Longrightarrow> [0xff, a ! 1] @ replicate 9 0 @ take 5 (drop 11 a) = a"
    using assms(2) unfolding a
    by (simp_all add: uip_is_addr_mcast_def sicslowpan_is_mcast_addr_compressable8_def sicslowpan_is_mcast_addr_compressable32_def
        sicslowpan_is_mcast_addr_compressable48_def u16_zero_def eval_nat_numeral)
qed

lemma mcast_roundtrip:
  assumes c: "compress_dest cs rl ip = (dam, dci, bs)" and ip: "length (ip_destipaddr ip) = 16" and mc: "uip_is_addr_mcast (ip_destipaddr ip)"
    and fl: "iphc1 AND 0x0F = dam" and buf: "buf = pre @ bs @ post"
    and sb: "length h = 24" "length old = 16"
  shows "uncompress_dest cs rl' base iphc1 buf (length pre, h @ old @ sb) = Some (Some (length pre + length bs, h @ ip_destipaddr ip @ sb))"
proof -
  let ?d = "ip_destipaddr ip"
  have w: "ip_destipaddr (h @ old @ sb) = old" "write_bytes 24 ?d (h @ old @ sb) = Some (h @ ?d @ sb)"
    using sb ip by (simp_all add: ip_destipaddr_def write_bytes_def)
  have f: "iphc1 AND 0x08 = dam AND 0x08" "iphc1 AND 0x04 = dam AND 0x04" "iphc1 AND 0x03 = dam AND 0x03"
    unfolding fl [symmetric] by (simp_all add: u8_eq_bits word_bits_8 bit_ops)
  have nib: "full_nibble (drop_bit 4 0x21) = 2" "full_nibble (0x21 AND 0x0f) = 1" "full_nibble (drop_bit 4 0x23) = 2" "full_nibble (0x23 AND 0x0f) = 3"
    "full_nibble (drop_bit 4 0x25) = 2" "full_nibble (0x25 AND 0x0f) = 5" "full_nibble (drop_bit 4 0x0f) = 0" "full_nibble (0x0f AND 0x0f) = 16"
    by (simp_all add: full_nibble_def)
  note mb = mcast_bytes [OF ip mc]
  consider "sicslowpan_is_mcast_addr_compressable8 ?d" "dam = 0x0B" "bs = [?d ! 15]"
    | "sicslowpan_is_mcast_addr_compressable32 ?d" "dam = 0x0A" "bs = ?d ! 1 # take 3 (drop 13 ?d)"
    | "sicslowpan_is_mcast_addr_compressable48 ?d" "dam = 0x09" "bs = ?d ! 1 # take 5 (drop 11 ?d)"
    | "dam = 0x08" "bs = ?d"
    using c mc by (auto simp: compress_dest_def hc06_consts Let_def split: if_splits)
  then show ?thesis
  proof cases
    case 1
    have "uncompress_addr old [0xff, 0x02] 0x21 [] (buf, length pre) = Some (?d, length pre + 1)"
      using uncompress_addr_post [OF nib(1,2) _ _ sb(2) _ _ buf, of "[0xff, 0x02]" "[]"] 1(3) mb(1) [OF 1(1)] by simp
    then show ?thesis
      unfolding uncompress_dest_def prod.case Let_def w(1) using f w(2) 1(2,3) by (simp add: hc06_consts unc_mxconf_def)
  next
    case 2
    have b: "buf = (pre @ [?d ! 1]) @ take 3 (drop 13 ?d) @ post" using buf 2(3) by simp
    have "uncompress_addr old [0xff, ?d ! 1] 0x23 [] (buf, length (pre @ [?d ! 1])) = Some (?d, length pre + 4)"
      using uncompress_addr_post [OF nib(3,4) _ _ sb(2) _ _ b, of "[0xff, ?d ! 1]" "[]"] ip mb(2) [OF 2(1)] by simp
    then show ?thesis
      unfolding uncompress_dest_def prod.case Let_def w(1) using f w(2) 2(2,3) buf ip by (simp add: hc06_consts unc_mxconf_def)
  next
    case 3
    have b: "buf = (pre @ [?d ! 1]) @ take 5 (drop 11 ?d) @ post" using buf 3(3) by simp
    have "uncompress_addr old [0xff, ?d ! 1] 0x25 [] (buf, length (pre @ [?d ! 1])) = Some (?d, length pre + 6)"
      using uncompress_addr_post [OF nib(5,6) _ _ sb(2) _ _ b, of "[0xff, ?d ! 1]" "[]"] ip mb(3) [OF 3(1)] by simp
    then show ?thesis
      unfolding uncompress_dest_def prod.case Let_def w(1) using f w(2) 3(2,3) buf ip by (simp add: hc06_consts unc_mxconf_def)
  next
    case 4
    have "uncompress_addr old [0xff, 0x02] 0x0f [] (buf, length pre) = Some (?d, length pre + 16)"
      using uncompress_addr_post [OF nib(7,8) _ _ sb(2) _ _ buf, of "[0xff, 0x02]" "[]"] ip 4(2) by simp
    then show ?thesis
      unfolding uncompress_dest_def prod.case Let_def w(1) using f w(2) 4 ip by (simp add: hc06_consts unc_mxconf_def)
  qed
qed

lemma dest_roundtrip:
  assumes c: "compress_dest cs rl ip = (dam, dci, bs)" and ip: "length (ip_destipaddr ip) = 16" and rl: "length rl = 8"
    and cs: "contexts_ok cs"
    and fl: "iphc1 AND 0x0F = dam" "addr_context_lookup_by_prefix cs (ip_destipaddr ip) \<noteq> None \<Longrightarrow> iphc1 AND 0x80 \<noteq> 0"
    and buf: "buf = pre @ bs @ post" and cb: "iphc1 AND 0x80 \<noteq> 0 \<Longrightarrow> get buf (base + 2) = Some ((y AND 0xf0) OR dci)"
    and sb: "length h = 24" "length old = 16"
  shows "uncompress_dest cs rl base iphc1 buf (length pre, h @ old @ sb) = Some (Some (length pre + length bs, h @ ip_destipaddr ip @ sb))"
proof (cases "uip_is_addr_mcast (ip_destipaddr ip)")
  case True
  show ?thesis by (rule mcast_roundtrip [OF c ip True fl(1) buf sb])
next
  case nm: False
  let ?d = "ip_destipaddr ip"
  have w: "ip_destipaddr (h @ old @ sb) = old" "write_bytes 24 ?d (h @ old @ sb) = Some (h @ ?d @ sb)"
    using sb ip by (simp_all add: ip_destipaddr_def write_bytes_def)
  have f: "iphc1 AND 0x08 = dam AND 0x08" "iphc1 AND 0x04 = dam AND 0x04" "iphc1 AND 0x03 = dam AND 0x03"
    unfolding fl(1) [symmetric] by (simp_all add: u8_eq_bits word_bits_8 bit_ops)
  show ?thesis
  proof (cases "addr_context_lookup_by_prefix cs ?d")
    case (Some ctx)
    obtain g where g: "compress_addr_64 0 ?d rl = (g, bs)" "dam = 0x04 OR g" "dci = ctx_number ctx"
      using c nm Some by (auto simp: compress_dest_def hc06_consts Let_def split: prod.splits)
    obtain m where m: "iid_mode m bs" "g = of_nat m" "iid_expand m bs rl = drop 8 ?d"
      using compress_addr_64_mode [OF ip rl g(1)] by auto
    obtain d where d: "ctx_number ctx < 16" "addr_context_lookup_by_number cs (ctx_number ctx) = Some d" "ctx_prefix d = take 8 ?d"
      using lookup_number [OF cs Some ip] by blast
    have u: "uncompress_addr old (ctx_prefix d) (unc_ctxconf ! m) rl (buf, length pre) = Some (?d, length pre + length bs)"
      using uncompress_addr_prefix [OF sb(2) rl _ disjI1 [OF refl] m(1) buf, of "ctx_prefix d"] d(3) ip m(3) by simp
    have b: "get buf (base + 2) = Some ((y AND 0xf0) OR dci)" using cb fl(2) Some by simp
    show ?thesis
      unfolding uncompress_dest_def prod.case Let_def w(1)
      using f fl(2) Some u w(2) b d(2) nibble_bits(2) [OF d(1), of y] iid_mode_cases [OF m(1)] g m(2) by (auto simp: hc06_consts)
  next
    case None
    show ?thesis
    proof (cases "uip_is_addr_link_local ?d \<and> u16_zero 1 ?d \<and> u16_zero 2 ?d \<and> u16_zero 3 ?d")
      case True
      obtain g where g: "compress_addr_64 0 ?d rl = (g, bs)" "dam = g"
        using c nm None True by (auto simp: compress_dest_def hc06_consts Let_def split: prod.splits)
      obtain m where m: "iid_mode m bs" "g = of_nat m" "iid_expand m bs rl = drop 8 ?d"
        using compress_addr_64_mode [OF ip rl g(1)] by auto
      have "llprefix @ replicate 6 0 = take 8 ?d" by (rule link_local_prefix [OF ip]) (use True in auto)
      then have "llprefix @ replicate 6 0 @ iid_expand m bs rl = ?d"
        unfolding m(3) by (metis append.assoc append_take_drop_id)
      then have u: "uncompress_addr old llprefix (unc_llconf ! m) rl (buf, length pre) = Some (?d, length pre + length bs)"
        using uncompress_addr_prefix [OF sb(2) rl _ disjI2 [OF refl] m(1) buf, of llprefix] by (simp add: llprefix_def)
      show ?thesis
        unfolding uncompress_dest_def prod.case Let_def w(1)
        using f u w(2) iid_mode_cases [OF m(1)] g m(2) by (auto simp: hc06_consts)
    next
      case False
      then have r: "dam = 0" "bs = ?d" using c nm None by (auto simp: compress_dest_def hc06_consts Let_def)
      have "full_nibble (drop_bit 4 0x0f) = 0" "full_nibble (0x0f AND 0x0f) = 16" by (simp_all add: full_nibble_def)
      from uncompress_addr_post [OF this _ _ sb(2) _ _ buf, of llprefix rl]
      have u: "uncompress_addr old llprefix 0x0f rl (buf, length pre) = Some (?d, length pre + length bs)"
        using ip r(2) by simp
      show ?thesis
        unfolding uncompress_dest_def prod.case Let_def w(1) using f u w(2) r by (simp add: hc06_consts unc_llconf_def)
    qed
  qed
qed


section \<open>UDP\<close>

lemma u16_eq_bits: "(v = w) = (word_bits 16 v = word_bits 16 (w :: u16))"
proof
  assume e: "word_bits 16 v = word_bits 16 w"
  have "bit v n = bit w n" if "n < 16" for n
    using arg_cong [OF e, of "\<lambda>xs. xs ! n"] that by (simp add: word_bits_def)
  then show "v = w" by (auto intro!: bit_word_eqI)
qed simp

lemmas port_bits = u8_eq_bits u16_eq_bits word_bits_8 word_bits_16 bit_ops

lemma port_minus:
  "s AND 0xfff0 = 0xF0B0 \<Longrightarrow> s - 0xF0B0 = (s AND 0x0f :: u16)"
  "s AND 0xff00 = 0xF000 \<Longrightarrow> s - 0xF000 = (s AND 0xff :: u16)"
proof -
  have d: "(s AND m :: u16) AND n = 0 \<Longrightarrow> (s AND m) OR (s AND n) = s \<Longrightarrow> s - (s AND m) = s AND n" for m n
    using disjunctive_add_eq_or [of "s AND m" "s AND n"] by (metis add_diff_cancel_left' and.assoc and.left_commute and_zero_eq)
  have h: "(s AND 0xfff0) AND 0x0f = 0" "(s AND 0xfff0) OR (s AND 0x0f) = s" "(s AND 0xff00) AND 0xff = 0" "(s AND 0xff00) OR (s AND 0xff) = s"
    by (simp_all add: port_bits)
  show "s AND 0xfff0 = 0xF0B0 \<Longrightarrow> s - 0xF0B0 = s AND 0x0f" "s AND 0xff00 = 0xF000 \<Longrightarrow> s - 0xF000 = s AND 0xff"
    using d [OF h(1,2)] d [OF h(3,4)] by simp_all
qed

lemma port_plus: "s AND 0xff00 = 0xF000 \<Longrightarrow> 0xF000 + ucast (ucast (s AND 0xff :: u16) :: u8) = (s :: u16)"
proof -
  assume a: "s AND 0xff00 = 0xF000"
  have "ucast (ucast (s AND 0xff :: u16) :: u8) = s AND 0xff" by (simp add: port_bits)
  with port_minus(2) [OF a] show ?thesis by (simp flip: port_minus(2) [OF a])
qed

lemma port_nibbles:
  fixes s d :: u16
  assumes s: "s AND 0xfff0 = 0xF0B0" and d: "d AND 0xfff0 = (0xF0B0 :: u16)"
    and b: "b = ucast (push_bit 4 (s - 0xF0B0)) + ucast (d - 0xF0B0)"
  shows "0xF0B0 + ucast (drop_bit 4 b :: u8) = s \<and> 0xF0B0 + ucast (b AND 0x0F) = d"
proof -
  have b': "b = ucast (push_bit 4 (s AND 0x0f)) OR ucast (d AND 0x0f)"
    unfolding b port_minus(1) [OF s] port_minus(1) [OF d]
    by (rule disjunctive_add_eq_or) (simp add: port_bits)
  have "ucast (drop_bit 4 b) = s AND 0x0f" "ucast (b AND 0x0F) = d AND 0x0f"
    unfolding b' by (simp_all add: port_bits)
  then show ?thesis by (simp flip: port_minus(1) [OF s] port_minus(1) [OF d])
qed

lemmas udp_consts = SICSLOWPAN_NHC_UDP_MASK_def SICSLOWPAN_NHC_UDP_ID_def SICSLOWPAN_NHC_UDP_CHECKSUMC_def
  SICSLOWPAN_NHC_UDP_CS_P_00_def SICSLOWPAN_NHC_UDP_CS_P_01_def SICSLOWPAN_NHC_UDP_CS_P_10_def SICSLOWPAN_NHC_UDP_CS_P_11_def
  SICSLOWPAN_UDP_4_BIT_PORT_MIN_def SICSLOWPAN_UDP_8_BIT_PORT_MIN_def

lemma read_Cons [simp]:
  "read_bytes (Suc i) n (x # xs) = read_bytes i n xs" "read_bytes (numeral v) n (x # xs) = read_bytes (pred_numeral v) n xs"
  "read_bytes 0 2 (x # y # xs) = Some [x, y]" "read_bytes 0 4 (x # y # z # w # xs) = Some [x, y, z, w]"
  by (simp_all add: read_bytes_def numeral_eq_Suc)

text \<open>The header at the end: the next header field in front of \<open>h33\<close>, the ports, the length, which is not sent, and the checksum.\<close>

lemma udp_roundtrip:
  assumes bs: "compress_udp ip = bs" and ip: "ip = ih @ [s1, s2, d1, d2, l1, l2, c1, c2] @ ip'" "length ih = 40"
    and fl: "iphc0 AND 0x04 \<noteq> 0" and buf: "buf = pre @ bs @ post"
    and sb: "length h6 = 6" "length h33 = 33" "length ports = 4" "length ul = 2" "length cs = 2"
  shows "uncompress_udp iphc0 buf (length pre, h6 @ p # h33 @ ports @ ul @ cs @ sb) =
    Some (True, length pre + length bs, h6 @ UIP_PROTO_UDP # h33 @ [s1, s2, d1, d2] @ ul @ [c1, c2] @ sb)"
proof -
  let ?s = "of_be16 s1 s2" and ?d = "of_be16 d1 d2"
  have n: "ip ! 40 = s1" "ip ! 41 = s2" "ip ! 42 = d1" "ip ! 43 = d2" "take 2 (drop 46 ip) = [c1, c2]"
    "take 4 (drop 40 ip) = [s1, s2, d1, d2]" "take 2 (drop 40 ip) = [s1, s2]" "take 2 (drop 42 ip) = [d1, d2]"
    unfolding ip(1) using ip(2) by (simp_all add: nth_append)
  have w1: "write_bytes 6 [x] (h6 @ p # h33 @ rest) = Some (h6 @ x # h33 @ rest)" for x rest
    using sb(1) by (simp add: write_bytes_def)
  have w2: "write_bytes 40 x (h6 @ q # h33 @ ports @ rest) = Some (h6 @ q # h33 @ x @ rest)" if "length x = 4" for x q rest
    using sb that by (simp add: write_bytes_def)
  have w3: "write_bytes 46 [x, y] (h6 @ q # h33 @ a # b # c # d # ul @ cs @ rest) = Some (h6 @ q # h33 @ a # b # c # d # ul @ [x, y] @ rest)" for x y a b c d q rest
    using sb by (simp add: write_bytes_def)
  have r: "read_bytes (length pre + i) k buf = read_bytes i k (bs @ post)" "get buf (length pre + i) = get (bs @ post) i" for i k
    unfolding buf by (simp_all add: read_at)
  note r' = r [of 0] r [of 1] r [of 2] r [of 3] r [of 4] r [of 5]
  consider "?s AND 0xfff0 = 0xF0B0" "?d AND 0xfff0 = 0xF0B0" "bs = [0xF3, ucast (push_bit 4 (?s - 0xF0B0)) + ucast (?d - 0xF0B0), c1, c2]"
    | "?d AND 0xff00 = 0xF000" "bs = [0xF1, s1, s2, ucast (?d - 0xF000), c1, c2]"
    | "?s AND 0xff00 = 0xF000" "bs = [0xF2, ucast (?s - 0xF000), d1, d2, c1, c2]"
    | "bs = [0xF0, s1, s2, d1, d2, c1, c2]"
    using bs unfolding compress_udp_def udp_srcport_def udp_destport_def n Let_def udp_consts by (auto split: if_splits)
  then show ?thesis
  proof cases
    case 1
    obtain b where b: "bs = [0xF3, b, c1, c2]" "0xF0B0 + ucast (drop_bit 4 b) = ?s" "0xF0B0 + ucast (b AND 0x0F) = ?d"
      using 1 port_nibbles [OF 1(1,2) refl] by blast
    show ?thesis
      unfolding uncompress_udp_def prod.case udp_consts hc06_consts using fl r' r b w1 w2 w3
      by simp
  next
    case 2
    obtain b where b: "bs = [0xF1, s1, s2, b, c1, c2]" "0xF000 + ucast b = ?d"
      using 2 port_plus [OF 2(1)] port_minus(2) [OF 2(1)] by simp
    show ?thesis
      unfolding uncompress_udp_def prod.case udp_consts hc06_consts using fl r' r b w1 w2 w3
      by simp
  next
    case 3
    obtain b where b: "bs = [0xF2, b, d1, d2, c1, c2]" "0xF000 + ucast b = ?s"
      using 3 port_plus [OF 3(1)] port_minus(2) [OF 3(1)] by simp
    show ?thesis
      unfolding uncompress_udp_def prod.case udp_consts hc06_consts using fl r' r b w1 w2 w3
      by simp
  next
    case 4
    show ?thesis
      unfolding uncompress_udp_def prod.case udp_consts hc06_consts using fl r' r 4 w1 w2 w3
      by simp
  qed
qed


section \<open>The compressed header\<close>

definition compress_cid :: "addr_context list \<Rightarrow> u8 list \<Rightarrow> u8" where
  "compress_cid cs ip = (if addr_context_lookup_by_prefix cs (ip_destipaddr ip) \<noteq> None \<or>
     addr_context_lookup_by_prefix cs (ip_srcipaddr ip) \<noteq> None then 0x80 else 0)"

definition hc06_fields :: "addr_context list \<Rightarrow> linkaddr \<Rightarrow> linkaddr \<Rightarrow> u8 list \<Rightarrow> u8 list" where
  "hc06_fields cs ll rl ip = snd (compress_tf ip) @ snd (compress_nh ip) @ snd (compress_ttl ip) @
     snd (snd (compress_src cs ll ip)) @ snd (snd (compress_dest cs rl ip)) @
     (if ip_proto ip = UIP_PROTO_UDP then compress_udp ip else [])"

definition hc06_header :: "addr_context list \<Rightarrow> linkaddr \<Rightarrow> linkaddr \<Rightarrow> u8 list \<Rightarrow> u8 list" where
  "hc06_header cs ll rl ip =
     (0x60 OR fst (compress_tf ip) OR fst (compress_nh ip) OR fst (compress_ttl ip)) #
     (compress_cid cs ip OR fst (compress_src cs ll ip) OR fst (compress_dest cs rl ip)) #
     (if compress_cid cs ip = 0 then [] else [fst (snd (compress_src cs ll ip)) OR fst (snd (compress_dest cs rl ip))]) @
     hc06_fields cs ll rl ip"

lemma length_compress_addr_64: "length a = 16 \<Longrightarrow> length (snd (compress_addr_64 p a ll)) \<le> 8"
  by (simp add: compress_addr_64_def)

lemma length_fields:
  assumes "40 \<le> length ip"
  shows "length (snd (compress_tf ip)) \<le> 4" "length (snd (compress_nh ip)) \<le> 1" "length (snd (compress_ttl ip)) \<le> 1"
    "length (compress_udp ip) \<le> 7"
proof -
  show "length (snd (compress_tf ip)) \<le> 4" using assms by (auto simp: compress_tf_def ip_fields Let_def min_def)
  show "length (snd (compress_nh ip)) \<le> 1" "length (snd (compress_ttl ip)) \<le> 1"
    by (simp_all add: compress_nh_def compress_ttl_def)
  show "length (compress_udp ip) \<le> 7"
    by (auto simp: compress_udp_def Let_def min_def)
qed

lemma length_addr_fields:
  assumes "40 \<le> length ip"
  shows "length (snd (snd (compress_src cs ll ip))) \<le> 16 \<and> length (snd (snd (compress_dest cs rl ip))) \<le> 16"
proof -
  have l: "length (ip_srcipaddr ip) = 16" "length (ip_destipaddr ip) = 16" using assms by (simp_all add: ip_srcipaddr_def ip_destipaddr_def)
  have "length (snd (snd (compress_src cs ll ip))) \<le> 16"
    using l(1) length_compress_addr_64 [OF l(1), of SICSLOWPAN_IPHC_SAM_BIT ll]
    by (auto simp: compress_src_def Let_def split: option.split prod.split)
  moreover have "length (snd (snd (compress_dest cs rl ip))) \<le> 16"
    using l(2) length_compress_addr_64 [OF l(2), of SICSLOWPAN_IPHC_DAM_BIT rl]
    by (auto simp: compress_dest_def Let_def split: option.split prod.split)
  ultimately show ?thesis ..
qed

lemma length_hc06_fields: "40 \<le> length ip \<Longrightarrow> length (hc06_fields cs ll rl ip) \<le> 45"
  using length_fields [of ip] length_addr_fields [of ip cs ll rl] by (simp add: hc06_fields_def)

lemma no_context_0:
  assumes "compress_cid cs ip = 0"
  shows "fst (snd (compress_src cs ll ip)) = 0" "fst (snd (compress_dest cs rl ip)) = 0"
  using assms by (auto simp: compress_cid_def compress_src_def compress_dest_def Let_def split: prod.split if_splits)

lemma puts_next: "length bs \<le> length rest \<Longrightarrow> length pre = n \<Longrightarrow>
    puts bs (pre @ rest, n) = Some ((pre @ bs) @ drop (length bs) rest, n + length bs)"
  using puts_at [of bs pre rest] by simp

lemma compress_hdr_hc06_header:
  assumes ip: "40 \<le> length ip" and buf: "48 \<le> length buf"
  shows "\<exists>rest. compress_hdr_hc06 cs ll rl ip buf = Some (hc06_header cs ll rl ip @ rest, of_nat (length (hc06_header cs ll rl ip)),
      if ip_proto ip = UIP_PROTO_UDP then 48 else 40) \<and> length (hc06_header cs ll rl ip @ rest) = length buf"
proof -
  obtain tf tfb where tf: "compress_tf ip = (tf, tfb)" by force
  obtain nh nhb where nh: "compress_nh ip = (nh, nhb)" by force
  obtain ttl ttlb where ttl: "compress_ttl ip = (ttl, ttlb)" by force
  obtain sam sci srcb where src: "compress_src cs ll ip = (sam, sci, srcb)" by (metis prod.collapse)
  obtain dam dci destb where dest: "compress_dest cs rl ip = (dam, dci, destb)" by (metis prod.collapse)
  define udpb where "udpb = (if ip_proto ip = UIP_PROTO_UDP then compress_udp ip else [])"
  define cid where "cid = compress_cid cs ip"
  obtain a b c rest where b: "buf = a # b # c # rest" using buf by (cases buf rule: list.exhaust; auto simp: neq_Nil_conv Suc_le_length_iff eval_nat_numeral)
  have lens: "length tfb \<le> 4" "length nhb \<le> 1" "length ttlb \<le> 1" "length srcb \<le> 16" "length destb \<le> 16" "length udpb \<le> 7"
    using length_fields [OF ip] length_addr_fields [OF ip, of cs ll rl] by (simp_all add: tf nh ttl src dest udpb_def)
  have hdr: "hc06_header cs ll rl ip = (0x60 OR tf OR nh OR ttl) # (cid OR sam OR dam) # (if cid = 0 then [] else [sci OR dci]) @ tfb @ nhb @ ttlb @ srcb @ destb @ udpb"
    by (simp add: hc06_header_def hc06_fields_def tf nh ttl src dest udpb_def cid_def)
  have u: "(if ip_proto ip = UIP_PROTO_UDP then puts (compress_udp ip) s else Some s) = puts udpb s" for s
    by (simp add: udpb_def)
  have e: "compress_hdr_hc06 cs ll rl ip buf = do {
     buf \<leftarrow> write_bytes 2 [0] buf;
     (buf, hc06_ptr) \<leftarrow> puts tfb (buf, if cid = 0 then 2 else 3);
     (buf, hc06_ptr) \<leftarrow> puts nhb (buf, hc06_ptr);
     (buf, hc06_ptr) \<leftarrow> puts ttlb (buf, hc06_ptr);
     buf \<leftarrow> (if sci = 0 then Some buf else write_bytes 2 [buf ! 2 OR sci] buf);
     (buf, hc06_ptr) \<leftarrow> puts srcb (buf, hc06_ptr);
     buf \<leftarrow> (if dci = 0 then Some buf else write_bytes 2 [buf ! 2 OR dci] buf);
     (buf, hc06_ptr) \<leftarrow> puts destb (buf, hc06_ptr);
     (buf, hc06_ptr) \<leftarrow> puts udpb (buf, hc06_ptr);
     buf \<leftarrow> write_bytes 0 [0x60 OR tf OR nh OR ttl, cid OR sam OR dam] buf;
     Some (buf, of_nat hc06_ptr, if ip_proto ip = UIP_PROTO_UDP then 48 else 40)
   }"
    unfolding compress_hdr_hc06_def tf nh ttl src dest prod.case Let_def u
    by (simp add: cid_def compress_cid_def hc06_consts SICSLOWPAN_DISPATCH_IPHC_def UIP_IPH_LEN_def UIP_UDPH_LEN_def)
  have fin: "write_bytes 0 [x, y] (a # b # zs) = Some (x # y # zs)" for x y zs by (simp add: write_bytes_def)
  show ?thesis
  proof (cases "cid = 0")
    case True
    then have z: "sci = 0" "dci = 0" using no_context_0(1) [of cs ip ll] no_context_0(2) [of cs ip rl] by (auto simp: cid_def src dest)
    define r where "r = 0 # rest"
    define bs where "bs = tfb @ nhb @ ttlb @ srcb @ destb @ udpb"
    have l: "length bs \<le> length r" using lens buf b by (simp add: bs_def r_def)
    have c: "puts bs ([a, b] @ r, 2) = Some (([a, b] @ bs) @ drop (length bs) r, 2 + length bs)"
      by (rule puts_next [OF l]) simp
    have w: "write_bytes 2 [0] buf = Some ([a, b] @ r)" unfolding b r_def by (simp add: write_bytes_def)
    have "compress_hdr_hc06 cs ll rl ip buf = do { (buf, p) \<leftarrow> puts bs ([a, b] @ r, 2); buf \<leftarrow> write_bytes 0 [0x60 OR tf OR nh OR ttl, cid OR sam OR dam] buf;
        Some (buf, of_nat p, if ip_proto ip = UIP_PROTO_UDP then 48 else 40) }"
      unfolding e w bs_def by (simp add: True z puts_append case_prod_beta' del: append_Cons)
    also have "\<dots> = Some ((0x60 OR tf OR nh OR ttl) # (cid OR sam OR dam) # bs @ drop (length bs) r, of_nat (2 + length bs), if ip_proto ip = UIP_PROTO_UDP then 48 else 40)"
      unfolding c by (simp add: fin)
    finally show ?thesis using l b by (intro exI [of _ "drop (length bs) r"]) (simp add: hdr True bs_def r_def)
  next
    case False
    define bs where "bs = tfb @ nhb @ ttlb"
    define r where "r = drop (length bs) rest"
    define bs' where "bs' = destb @ udpb"
    have l: "length bs \<le> length rest" "length srcb \<le> length r" "length bs' \<le> length (drop (length srcb) r)"
      using lens buf b by (simp_all add: bs_def r_def bs'_def)
    have w: "write_bytes 2 [0] buf = Some ([a, b, 0] @ rest)" unfolding b by (simp add: write_bytes_def)
    have c1: "puts bs ([a, b, 0] @ rest, 3) = Some (([a, b, 0] @ bs) @ r, 3 + length bs)"
      unfolding r_def by (rule puts_next [OF l(1)]) simp
    have c2: "puts srcb (([a, b, x] @ bs) @ r, 3 + length bs) = Some ((([a, b, x] @ bs) @ srcb) @ drop (length srcb) r, 3 + length bs + length srcb)" for x
      by (rule puts_next [OF l(2)]) simp
    have c3: "puts bs' ((([a, b, x] @ bs) @ srcb) @ drop (length srcb) r, 3 + length bs + length srcb) =
        Some (((([a, b, x] @ bs) @ srcb) @ bs') @ drop (length bs') (drop (length srcb) r), 3 + length bs + length srcb + length bs')" for x
      by (rule puts_next [OF l(3)]) simp
    have o1: "(if i = 0 then Some (([a, b, x] @ bs) @ r) else write_bytes 2 [((([a, b, x] @ bs) @ r) ! 2) OR i] (([a, b, x] @ bs) @ r)) = Some (([a, b, x OR i] @ bs) @ r)" for x i r bs
      by (simp add: write_bytes_def)
    have o2: "(if i = 0 then Some ((([a, b, x] @ bs) @ s') @ r) else write_bytes 2 [(((([a, b, x] @ bs) @ s') @ r) ! 2) OR i] ((([a, b, x] @ bs) @ s') @ r)) =
        Some ((([a, b, x OR i] @ bs) @ s') @ r)" for x i r bs s'
      by (simp add: write_bytes_def)
    have "compress_hdr_hc06 cs ll rl ip buf = do { (buf, p) \<leftarrow> puts bs ([a, b, 0] @ rest, 3);
        buf \<leftarrow> (if sci = 0 then Some buf else write_bytes 2 [buf ! 2 OR sci] buf);
        (buf, p) \<leftarrow> puts srcb (buf, p);
        buf \<leftarrow> (if dci = 0 then Some buf else write_bytes 2 [buf ! 2 OR dci] buf);
        (buf, p) \<leftarrow> puts bs' (buf, p);
        buf \<leftarrow> write_bytes 0 [0x60 OR tf OR nh OR ttl, cid OR sam OR dam] buf;
        Some (buf, of_nat p, if ip_proto ip = UIP_PROTO_UDP then 48 else 40) }"
      unfolding e w bs_def bs'_def by (simp add: False puts_append case_prod_beta' del: append_Cons)
    also have "\<dots> = Some ((0x60 OR tf OR nh OR ttl) # (cid OR sam OR dam) # (sci OR dci) # bs @ srcb @ bs' @ drop (length bs') (drop (length srcb) r),
        of_nat (3 + length bs + length srcb + length bs'), if ip_proto ip = UIP_PROTO_UDP then 48 else 40)"
      unfolding c1 Option.bind.simps prod.case o1 c2 o2 c3 by (simp add: fin write_bytes_def)
    finally show ?thesis using l b by (intro exI [of _ "drop (length bs') (drop (length srcb) r)"]) (simp add: hdr False bs_def bs'_def r_def)
  qed
qed


section \<open>Decompression of the header\<close>

lemma compress_addr_64_flags: "fst (compress_addr_64 4 a ll) AND 0x0F = 0 \<and> fst (compress_addr_64 4 a ll) AND 0x80 = 0"
  "fst (compress_addr_64 0 a ll) AND 0xF0 = 0"
  by (simp_all add: compress_addr_64_def)

lemma src_flags:
  assumes "compress_src cs ll ip = (sam, sci, bs)"
  shows "sam AND 0x0F = 0 \<and> sci AND 0x0F = 0 \<and> (sam AND 0x80 \<noteq> 0 \<longrightarrow> addr_context_lookup_by_prefix cs (ip_srcipaddr ip) \<noteq> None)"
proof -
  have p: "push_bit 4 n AND 0x0F = (0 :: u8)" for n by (simp add: port_bits)
  have o: "(0x80 OR 0x40 OR m) AND 0x0F = m AND (0x0F :: u8)" for m by (simp add: port_bits)
  show ?thesis
    using assms compress_addr_64_flags(1) [of "ip_srcipaddr ip" ll] p o
    by (cases "compress_addr_64 4 (ip_srcipaddr ip) ll")
      (auto simp: compress_src_def hc06_consts Let_def split: if_splits option.splits)
qed

lemma dest_flags:
  assumes "compress_dest cs rl ip = (dam, dci, bs)" and "contexts_ok cs" and "length (ip_destipaddr ip) = 16"
  shows "dam AND 0xF0 = 0 \<and> dci AND 0xF0 = 0"
proof -
  have o: "(0x04 OR m) AND 0xF0 = m AND (0xF0 :: u8)" for m by (simp add: port_bits)
  have n: "ctx_number c AND 0xF0 = 0" if "addr_context_lookup_by_prefix cs (ip_destipaddr ip) = Some c" for c
  proof -
    have "ctx_number c < 16" using lookup_number [OF assms(2) that assms(3)] by blast
    from nibble_bits(2) [OF this, of 0] have e: "ctx_number c AND 0x0f = ctx_number c" by simp
    have "(ctx_number c AND 0x0f) AND 0xF0 = 0" by (simp add: port_bits)
    then show ?thesis by (simp add: e)
  qed
  show ?thesis
    using assms(1) compress_addr_64_flags(2) [of "ip_destipaddr ip" rl] n o
    by (cases "compress_addr_64 0 (ip_destipaddr ip) rl")
      (auto simp: compress_dest_def hc06_consts Let_def split: if_splits option.splits)
qed

lemma iphc1_flags:
  fixes cid sam dam sci dci :: u8
  assumes "cid = 0 \<or> cid = 0x80" and "sam AND 0x0F = 0" and "sci AND 0x0F = 0" and "dam AND 0xF0 = 0" and "dci AND 0xF0 = 0"
    and "sam AND 0x80 \<noteq> 0 \<Longrightarrow> cid = 0x80"
  shows "(cid OR sam OR dam) AND 0x70 = sam AND 0x70" and "(cid OR sam OR dam) AND 0x0F = dam"
    and "((cid OR sam OR dam) AND 0x80 \<noteq> 0) = (cid \<noteq> 0)"
    and "sci OR dci = sci OR (dci AND 0x0f)" and "sci OR dci = (sci AND 0xf0) OR dci"
  using assms by (auto simp: port_bits)

lemma iphc0_flags:
  assumes "compress_tf ip = (tf, tfb)" and "compress_nh ip = (nh, nhb)" and "compress_ttl ip = (ttl, ttlb)"
  shows "(0x60 OR tf OR nh OR ttl) AND 0x10 = tf AND 0x10" and "(0x60 OR tf OR nh OR ttl) AND 0x08 = tf AND 0x08"
    and "(0x60 OR tf OR nh OR ttl) AND 0x04 = nh AND 0x04" and "(0x60 OR tf OR nh OR ttl) AND 0x03 = ttl"
    and "(0x60 OR tf OR nh OR ttl) AND 0xe0 = 0x60" and "(nh AND 0x04 \<noteq> 0) = (ip_proto ip = UIP_PROTO_UDP)"
proof -
  have t: "tf = 0x18 \<or> tf = 0x10 \<or> tf = 0x08 \<or> tf = 0"
    using assms(1) by (auto simp: compress_tf_def hc06_consts Let_def split: if_splits)
  have n: "nh = 0x04 \<or> nh = 0" and h: "ttl = 1 \<or> ttl = 2 \<or> ttl = 3 \<or> ttl = 0"
    using assms(2,3) by (auto simp: compress_nh_def compress_ttl_def hc06_consts split: if_splits)
  show "(nh AND 0x04 \<noteq> 0) = (ip_proto ip = UIP_PROTO_UDP)"
    using assms(2) by (auto simp: compress_nh_def hc06_consts split: if_splits)
  show "(0x60 OR tf OR nh OR ttl) AND 0x10 = tf AND 0x10" "(0x60 OR tf OR nh OR ttl) AND 0x08 = tf AND 0x08"
    "(0x60 OR tf OR nh OR ttl) AND 0x04 = nh AND 0x04" "(0x60 OR tf OR nh OR ttl) AND 0x03 = ttl"
    "(0x60 OR tf OR nh OR ttl) AND 0xe0 = 0x60"
    using t n h by (elim disjE; simp)+
qed


lemma be16_int: "[word_of_int (uint w div 256), word_of_int (uint w)] = be16 w"
proof -
  have "ucast (drop_bit 8 w) = (word_of_int (uint (drop_bit 8 w)) :: u8)" "ucast w = (word_of_int (uint w) :: u8)"
    by (simp_all add: word_of_int_uint)
  moreover have "uint (drop_bit 8 w) = uint w div 256" by (simp add: drop_bit_eq_div uint_div)
  ultimately show ?thesis by (simp add: be16_def)
qed

lemma set_lengths_fields:
  assumes len: "(if ip_len = 0 then uint datalen - uint hdr_len + uint uncomp - 40 else uint ip_len - 40) = uint plen"
    and sb: "length h4 = 4" "length old = 2" "length h33 = 33" "length ports = 4" "length ul = 2"
  shows "set_lengths ip_len datalen hdr_len uncomp (h4 @ old @ p # h33 @ ports @ ul @ rest) =
    Some (h4 @ be16 plen @ p # h33 @ ports @ (if p = UIP_PROTO_UDP then be16 plen else ul) @ rest)"
proof -
  obtain l1 l2 where l: "be16 plen = [l1, l2]" by (simp add: be16_def)
  have w: "write_bytes 4 [l1, l2] (h4 @ old @ p # h33 @ ports @ ul @ rest) = Some (h4 @ [l1, l2] @ p # h33 @ ports @ ul @ rest)"
    using sb by (simp add: write_bytes_def)
  have w2: "write_bytes 44 [l1, l2] (h4 @ [l1, l2] @ p # h33 @ ports @ ul @ rest) = Some (h4 @ [l1, l2] @ p # h33 @ ports @ [l1, l2] @ rest)"
    using sb by (simp add: write_bytes_def)
  have p: "ip_proto (h4 @ [l1, l2] @ p # h33 @ ports @ ul @ rest) = p" "take 2 (drop 4 (h4 @ [l1, l2] @ p # h33 @ ports @ ul @ rest)) = [l1, l2]"
    using sb by (simp_all add: ip_proto_def nth_append)
  show ?thesis
    unfolding set_lengths_def UIP_IPH_LEN_def Let_def of_nat_numeral len be16_int l
    by (simp only: w p w2 Option.bind.simps split: if_split) simp
qed

lemma split_16: "16 \<le> length xs \<Longrightarrow> \<exists>a r. xs = a @ r \<and> length a = 16"
  by (rule exI [of _ "take 16 xs"], rule exI [of _ "drop 16 xs"]) simp

lemma drop_take_split: "drop n xs = take k (drop n xs) @ drop (k + n) xs"
  by (metis append_take_drop_id drop_drop)

lemma header_split:
  assumes "48 \<le> length sb"
  obtains v t a b l1 l2 p h src dest ports ul ck rest where
    "sb = v # t # a # b # l1 # l2 # p # h # src @ dest @ ports @ ul @ ck @ rest"
    "length src = 16" "length dest = 16" "length ports = 4" "length ul = 2" "length ck = 2"
proof -
  have h: "take 8 sb = [sb ! 0, sb ! 1, sb ! 2, sb ! 3, sb ! 4, sb ! 5, sb ! 6, sb ! 7]"
    using length_8E [of "take 8 sb"] assms by simp
  note d = drop_take_split [of _ sb]
  have "sb = take 8 sb @ drop 8 sb" by simp
  also have "drop 8 sb = take 16 (drop 8 sb) @ drop 24 sb" using d [of 8 16] by simp
  also have "drop 24 sb = take 16 (drop 24 sb) @ drop 40 sb" using d [of 24 16] by simp
  also have "drop 40 sb = take 4 (drop 40 sb) @ drop 44 sb" using d [of 40 4] by simp
  also have "drop 44 sb = take 2 (drop 44 sb) @ drop 46 sb" using d [of 44 2] by simp
  also have "drop 46 sb = take 2 (drop 46 sb) @ drop 48 sb" using d [of 46 2] by simp
  finally have "sb = take 8 sb @ take 16 (drop 8 sb) @ take 16 (drop 24 sb) @ take 4 (drop 40 sb) @ take 2 (drop 44 sb) @ take 2 (drop 46 sb) @ drop 48 sb" .
  then show thesis
    using h that [of "sb ! 0" "sb ! 1" "sb ! 2" "sb ! 3" "sb ! 4" "sb ! 5" "sb ! 6" "sb ! 7" "take 16 (drop 8 sb)" "take 16 (drop 24 sb)"
        "take 4 (drop 40 sb)" "take 2 (drop 44 sb)" "take 2 (drop 46 sb)" "drop 48 sb"] assms by simp
qed


lemma take_40:
  assumes "40 \<le> length ip"
  shows "take 40 ip = take 4 ip @ take 2 (drop 4 ip) @ ip_proto ip # ip_ttl ip # ip_srcipaddr ip @ ip_destipaddr ip"
proof -
  have "take 1 (drop 6 ip) = [ip ! 6]" "take 1 (drop 7 ip) = [ip ! 7]"
    using assms by (simp_all add: take_Suc_conv_app_nth hd_drop_conv_nth take_Suc)
  then show ?thesis
    using take_add [of 4 36 ip] take_add [of 2 34 "drop 4 ip"] take_add [of 1 33 "drop 6 ip"] take_add [of 1 32 "drop 7 ip"] take_add [of 16 16 "drop 8 ip"]
    by (simp add: ip_fields)
qed

lemma length_hc06_header: "40 \<le> length ip \<Longrightarrow> length (hc06_header cs ll rl ip) \<le> 48"
  using length_hc06_fields [of ip cs ll rl] by (simp add: hc06_header_def)

lemma hc06_roundtrip:
  fixes ip sb :: "u8 list"
  defines "ulen \<equiv> (if ip_proto ip = UIP_PROTO_UDP then 48 else 40)"
  assumes ip: "ulen \<le> length ip" "ip_vtc ip AND 0xF0 = 0x60"
    and plen: "take 2 (drop 4 ip) = be16 plen" "ip_proto ip = UIP_PROTO_UDP \<Longrightarrow> take 2 (drop 44 ip) = be16 plen"
    and addrs: "length ll = 8" "length rl = 8" "contexts_ok cs" "src_compressible cs ip"
    and frame: "frame = pre @ hc06_header cs ll rl ip @ payload" "length pre \<le> 5"
    and len: "(if ip_len = 0 then uint datalen - int (length pre + length (hc06_header cs ll rl ip)) + int ulen - 40 else uint ip_len - 40) = uint plen"
    and sb: "48 \<le> length sb"
  shows "uncompress_hdr_hc06 cs ll rl ip_len datalen frame (of_nat (length pre)) 0 sb =
    Some (take ulen ip @ drop ulen sb, of_nat (length pre + length (hc06_header cs ll rl ip)), of_nat ulen)"
proof -
  obtain tf tfb where tf: "compress_tf ip = (tf, tfb)" by force
  obtain nh nhb where nh: "compress_nh ip = (nh, nhb)" by force
  obtain ttl ttlb where ttl: "compress_ttl ip = (ttl, ttlb)" by force
  obtain sam sci srcb where src: "compress_src cs ll ip = (sam, sci, srcb)" by (metis prod.collapse)
  obtain dam dci destb where dest: "compress_dest cs rl ip = (dam, dci, destb)" by (metis prod.collapse)
  define udpb where "udpb = (if ip_proto ip = UIP_PROTO_UDP then compress_udp ip else [])"
  define cid where "cid = compress_cid cs ip"
  have ip40: "40 \<le> length ip" using ip(1) by (simp add: ulen_def split: if_splits)
  then have la: "length (ip_srcipaddr ip) = 16" "length (ip_destipaddr ip) = 16" by (simp_all add: ip_srcipaddr_def ip_destipaddr_def)
  define iphc0 where "iphc0 = 0x60 OR tf OR nh OR ttl"
  define iphc1 where "iphc1 = cid OR sam OR dam"
  define ctx where "ctx = (if cid = 0 then [] else [sci OR dci])"
  define P where "P = pre @ [iphc0, iphc1] @ ctx"
  have hdr: "hc06_header cs ll rl ip = [iphc0, iphc1] @ ctx @ tfb @ nhb @ ttlb @ srcb @ destb @ udpb"
    by (simp add: hc06_header_def hc06_fields_def tf nh ttl src dest udpb_def cid_def iphc0_def iphc1_def ctx_def)
  have fr: "frame = P @ tfb @ nhb @ ttlb @ srcb @ destb @ udpb @ payload" by (simp add: frame(1) hdr P_def)
  note f0 = iphc0_flags [OF tf nh ttl, folded iphc0_def]
  have c1: "cid = 0 \<or> cid = 0x80" "addr_context_lookup_by_prefix cs (ip_srcipaddr ip) \<noteq> None \<Longrightarrow> cid = 0x80"
    "addr_context_lookup_by_prefix cs (ip_destipaddr ip) \<noteq> None \<Longrightarrow> cid = 0x80"
    by (auto simp: cid_def compress_cid_def)
  have sf0: "sam AND 0x0F = 0" "sci AND 0x0F = 0" "sam AND 0x80 \<noteq> 0 \<Longrightarrow> cid = 0x80" using src_flags [OF src] c1(2) by auto
  have df0: "dam AND 0xF0 = 0" "dci AND 0xF0 = 0" using dest_flags [OF dest addrs(3) la(2)] by auto
  have f1: "iphc1 AND 0x70 = sam AND 0x70" "iphc1 AND 0x0F = dam" "(iphc1 AND 0x80 \<noteq> 0) = (cid \<noteq> 0)"
    "sci OR dci = sci OR (dci AND 0x0f)" "sci OR dci = (sci AND 0xf0) OR dci"
    unfolding iphc1_def by (rule iphc1_flags [OF c1(1) sf0(1,2) df0 sf0(3)], assumption)+
  have g0: "get frame (length pre) = Some iphc0" "get frame (length pre + 1) = Some iphc1" unfolding frame(1) hdr by simp_all
  have g2: "get frame (length pre + 2) = Some (sci OR dci)" if "iphc1 AND 0x80 \<noteq> 0"
    using that f1(3) get_append2 [of pre "iphc0 # iphc1 # (sci OR dci) # tfb @ nhb @ ttlb @ srcb @ destb @ udpb @ payload" 2]
    unfolding frame(1) hdr ctx_def by simp
  have ptr: "length pre + 2 + (if iphc1 AND SICSLOWPAN_IPHC_CID \<noteq> 0 then 1 else 0) = length P"
    using f1(3) by (simp add: P_def ctx_def hc06_consts)
  obtain v0 t0 a0 b0 k0 k1 p0 h0 so dd po uo co sb' where s: "sb = v0 # t0 # a0 # b0 # k0 # k1 # p0 # h0 # so @ dd @ po @ uo @ co @ sb'"
    "length so = 16" "length dd = 16" "length po = 4" "length uo = 2" "length co = 2"
    using header_split [OF sb] by blast
  define b1 where "b1 = ip ! 0" define b2 where "b2 = ip ! 1" define b3 where "b3 = ip ! 2" define b4 where "b4 = ip ! 3"
  have t4: "take 4 ip = [b1, b2, b3, b4]" using length_4E [of "take 4 ip"] ip40 by (simp add: b1_def b2_def b3_def b4_def)
  have i4: "ip = b1 # b2 # b3 # b4 # drop 4 ip" using append_take_drop_id [of 4 ip] unfolding t4 by simp
  have s1: "uncompress_tf iphc0 frame (length P, sb) = Some (length (P @ tfb), b1 # b2 # b3 # b4 # k0 # k1 # p0 # h0 # so @ dd @ po @ uo @ co @ sb')"
    using tf_roundtrip [OF _ i4 tf f0(1,2) fr] ip(2) by (simp add: s(1) b1_def ip_vtc_def)
  define p1 where "p1 = (if ip_proto ip = UIP_PROTO_UDP then p0 else ip_proto ip)"
  have s2: "uncompress_nh iphc0 frame (length (P @ tfb), b1 # b2 # b3 # b4 # k0 # k1 # p0 # h0 # so @ dd @ po @ uo @ co @ sb') =
      Some (length (P @ tfb @ nhb), b1 # b2 # b3 # b4 # k0 # k1 # p1 # h0 # so @ dd @ po @ uo @ co @ sb')"
    using nh_roundtrip [OF nh f0(3), of frame "P @ tfb" "ttlb @ srcb @ destb @ udpb @ payload" "[b1, b2, b3, b4, k0, k1]" p0] fr by (simp add: p1_def)
  have s3: "uncompress_ttl iphc0 frame (length (P @ tfb @ nhb), b1 # b2 # b3 # b4 # k0 # k1 # p1 # h0 # so @ dd @ po @ uo @ co @ sb') =
      Some (length (P @ tfb @ nhb @ ttlb), [b1, b2, b3, b4, k0, k1, p1, ip_ttl ip] @ so @ dd @ po @ uo @ co @ sb')"
    using ttl_roundtrip [OF ttl f0(4), of frame "P @ tfb @ nhb" "srcb @ destb @ udpb @ payload" "[b1, b2, b3, b4, k0, k1, p1]" h0] fr by simp
  let ?s = "ip_srcipaddr ip" and ?d = "ip_destipaddr ip" and ?h = "[b1, b2, b3, b4, k0, k1, p1, ip_ttl ip]"
  have s4: "uncompress_src cs ll (length pre) iphc1 frame (length (P @ tfb @ nhb @ ttlb), ?h @ so @ dd @ po @ uo @ co @ sb') =
      Some (Some (length (P @ tfb @ nhb @ ttlb @ srcb), (?h @ ?s) @ dd @ po @ uo @ co @ sb'))"
    using src_roundtrip [OF src la(1) addrs(1,3,4) f1(1), of frame "P @ tfb @ nhb @ ttlb" "destb @ udpb @ payload" "length pre" dci ?h so]
      fr f1(3) c1(2) g2 f1(4) s(2) by simp
  have s5: "uncompress_dest cs rl (length pre) iphc1 frame (length (P @ tfb @ nhb @ ttlb @ srcb), (?h @ ?s) @ dd @ po @ uo @ co @ sb') =
      Some (Some (length (P @ tfb @ nhb @ ttlb @ srcb @ destb), ?h @ ?s @ ?d @ po @ uo @ co @ sb'))"
    using dest_roundtrip [OF dest la(2) addrs(2,3) f1(2), of frame "P @ tfb @ nhb @ ttlb @ srcb" "udpb @ payload" "length pre" sci "?h @ ?s" dd]
      fr f1(3) c1(3) g2 f1(5) s(3) la(1) by simp
  let ?q = "P @ tfb @ nhb @ ttlb @ srcb @ destb" and ?h6 = "[b1, b2, b3, b4, k0, k1]" and ?h33 = "[ip_ttl ip] @ ?s @ ?d"
  obtain c udp po' co' where s6: "uncompress_udp iphc0 frame (length ?q, ?h6 @ p1 # ?h33 @ po @ uo @ co @ sb') =
      Some (udp, length (?q @ udpb), ?h6 @ ip_proto ip # ?h33 @ po' @ uo @ co' @ sb')"
    and udp: "udp = (ip_proto ip = UIP_PROTO_UDP)" "length po' = 4" "length co' = 2"
    and u: "if udp then po' = take 4 (drop 40 ip) \<and> co' = take 2 (drop 46 ip) else po' = po \<and> co' = co"
  proof (cases "ip_proto ip = UIP_PROTO_UDP")
    case True
    then have ip48: "48 \<le> length ip" using ip(1) by (simp add: ulen_def)
    have t8: "take 8 (drop 40 ip) = [ip ! 40, ip ! 41, ip ! 42, ip ! 43, ip ! 44, ip ! 45, ip ! 46, ip ! 47]"
      using length_8E [of "take 8 (drop 40 ip)"] ip48 by simp
    have i48: "ip = take 40 ip @ [ip ! 40, ip ! 41, ip ! 42, ip ! 43, ip ! 44, ip ! 45, ip ! 46, ip ! 47] @ drop 48 ip"
      unfolding t8 [symmetric] using drop_take_split [of 40 ip 8] append_take_drop_id [of 40 ip] by simp
    have "take 4 (drop 40 ip) = take 4 (take 8 (drop 40 ip))" "take 2 (drop 46 ip) = drop 6 (take 8 (drop 40 ip))" by (simp_all add: drop_take)
    then have t: "take 4 (drop 40 ip) = [ip ! 40, ip ! 41, ip ! 42, ip ! 43]" "take 2 (drop 46 ip) = [ip ! 46, ip ! 47]" unfolding t8 by simp_all
    have "iphc0 AND 0x04 \<noteq> 0" using f0(3,6) True by simp
    from udp_roundtrip [OF refl i48 _ this, of frame ?q payload ?h6 ?h33 po uo co p1 sb'] True show thesis
      using that [of True "take 4 (drop 40 ip)" "take 2 (drop 46 ip)"] fr ip48 la s(4,5,6) unfolding t by (simp add: udpb_def)
  next
    case False
    then have "iphc0 AND 0x04 = 0" using f0(3,6) by simp
    then show thesis using that [of False po co] False s(4,6) by (simp add: uncompress_udp_def hc06_consts udpb_def p1_def)
  qed
  have len_q: "length (?q @ udpb) = length pre + length (hc06_header cs ll rl ip)" by (simp add: P_def hdr)
  have small: "length pre + length (hc06_header cs ll rl ip) < 256" using length_hc06_header [OF ip40, of cs ll rl] frame(2) by simp
  have unc: "0 + of_nat UIP_IPH_LEN + (if udp then of_nat UIP_UDPH_LEN else 0) = (of_nat ulen :: u8)"
    unfolding udp ulen_def by (simp add: UIP_IPH_LEN_def UIP_UDPH_LEN_def)
  have "uint (of_nat (length pre + length (hc06_header cs ll rl ip)) :: u8) = int (length pre + length (hc06_header cs ll rl ip))"
    "uint (of_nat ulen :: u8) = int ulen"
    using small unfolding ulen_def by (simp_all add: uint_nat unat_of_nat flip: of_nat_add)
  then have "set_lengths ip_len datalen (of_nat (length (?q @ udpb))) (of_nat ulen) ([b1, b2, b3, b4] @ [k0, k1] @ ip_proto ip # ?h33 @ po' @ uo @ co' @ sb') =
      Some ([b1, b2, b3, b4] @ be16 plen @ ip_proto ip # ?h33 @ po' @ (if ip_proto ip = UIP_PROTO_UDP then be16 plen else uo) @ co' @ sb')"
    using len la s(5) udp(2) unfolding len_q by (intro set_lengths_fields) (auto split: if_splits)
  moreover have "[b1, b2, b3, b4] @ be16 plen @ ip_proto ip # ?h33 @ po' @ (if ip_proto ip = UIP_PROTO_UDP then be16 plen else uo) @ co' @ sb' =
      take ulen ip @ drop ulen sb"
  proof (cases "ip_proto ip = UIP_PROTO_UDP")
    case True
    then have "take 48 ip = take 40 ip @ take 4 (drop 40 ip) @ take 2 (drop 44 ip) @ take 2 (drop 46 ip)"
      using take_add [of 40 8 ip] take_add [of 4 4 "drop 40 ip"] take_add [of 2 2 "drop 44 ip"] by simp
    moreover have "drop 48 sb = sb'" unfolding s(1) using s(2-) by simp
    ultimately show ?thesis using True u plen udp(1) t4 by (simp add: ulen_def take_40 [OF ip40])
  next
    case False
    moreover have "drop 40 sb = po @ uo @ co @ sb'" unfolding s(1) using s(2-) by simp
    ultimately show ?thesis using u plen(1) udp(1) t4 by (simp add: ulen_def take_40 [OF ip40])
  qed
  ultimately have fin: "set_lengths ip_len datalen (of_nat (length (?q @ udpb))) (of_nat ulen) (?h6 @ ip_proto ip # ?h33 @ po' @ uo @ co' @ sb') =
      Some (take ulen ip @ drop ulen sb)" by simp
  have base: "unat (of_nat (length pre) :: u8) = length pre" using frame(2) by (simp add: unat_of_nat)
  have s5': "?h @ ?s @ ?d @ po @ uo @ co @ sb' = ?h6 @ p1 # ?h33 @ po @ uo @ co @ sb'" by simp
  show ?thesis
    unfolding uncompress_hdr_hc06_def Let_def base
    by (simp only: g0 ptr s1 s2 s3 s4 s5 s5' s6 unc fin [unfolded len_q] len_q prod.case option.case Option.bind.simps)
qed


section \<open>Properties\<close>

text \<open>An IPv6 packet whose length field (and the one of UDP, which has to follow the header directly) says how long it is.\<close>

definition ipv6_packet :: "u8 list \<Rightarrow> bool" where
  "ipv6_packet ip \<longleftrightarrow> 40 \<le> length ip \<and> length ip < 2 ^ 16 \<and> ip_vtc ip AND 0xF0 = 0x60 \<and>
     take 2 (drop 4 ip) = be16 (of_nat (length ip - 40)) \<and>
     (ip_proto ip = UIP_PROTO_UDP \<longrightarrow> 48 \<le> length ip \<and> take 2 (drop 44 ip) = be16 (of_nat (length ip - 40)))"

lemma ipv6_packet_plen: "ipv6_packet ip \<Longrightarrow> uint (of_nat (length ip - 40) :: u16) = int (length ip) - 40"
proof -
  assume "ipv6_packet ip"
  then have l: "40 \<le> length ip" "length ip < 2 ^ 16" by (simp_all add: ipv6_packet_def)
  then have "length ip - 40 < 2 ^ 16" by linarith
  then have "unat (of_nat (length ip - 40) :: u16) = length ip - 40" by (simp add: unat_of_nat)
  then show ?thesis using l(1) by (simp add: uint_nat of_nat_diff)
qed

text \<open>
  C4. A packet whose header one node compresses for a frame of its own is
  restored by the node that receives the frame: the header in
  \<open>sicslowpan_buf\<close> is byte for byte the one that was sent, the UDP header
  included, the rest of the buffer is untouched, and both nodes agree on the
  lengths of the compressed and of the uncompressed header. This holds for
  every traffic class, flow label, next header, hop limit, port and address,
  with a shared table of contexts, except for link-local sources that are not
  in \<open>FE80::/64\<close>.
\<close>

theorem iphc_header_roundtrip:
  assumes "compress_hdr_hc06 cs ll rl ip buf = Some (buf', hdr_len, uncomp)" and "48 \<le> length buf"
    and "ipv6_packet ip" and "length ll = 8" and "length rl = 8" and "contexts_ok cs" and "src_compressible cs ip"
    and "frame = take (unat hdr_len) buf' @ drop (unat uncomp) ip" and "length frame < 2 ^ 16" and "48 \<le> length sb"
  shows "uncompress_hdr_hc06 cs ll rl 0 (of_nat (length frame)) frame 0 0 sb =
    Some (take (unat uncomp) ip @ drop (unat uncomp) sb, hdr_len, uncomp)"
proof -
  let ?h = "hc06_header cs ll rl ip" and ?u = "(if ip_proto ip = UIP_PROTO_UDP then 48 else 40) :: nat"
  have p: "40 \<le> length ip" "?u \<le> length ip" "ip_vtc ip AND 0xF0 = 0x60" using assms(3) by (auto simp: ipv6_packet_def)
  obtain rest where c: "buf' = ?h @ rest" "hdr_len = of_nat (length ?h)" "uncomp = of_nat ?u"
    using compress_hdr_hc06_header [OF p(1) assms(2), of cs ll rl] assms(1) by (auto split: if_splits)
  have u: "unat hdr_len = length ?h" "unat uncomp = ?u"
    using length_hc06_header [OF p(1), of cs ll rl] unfolding c(2,3) by (simp_all add: unat_of_nat)
  have f: "frame = [] @ ?h @ drop ?u ip" using assms(8) u c(1) by simp
  have "int (length frame) - int (length ([] :: u8 list) + length ?h) + int ?u - 40 = int (length ip) - 40"
    using p(2) unfolding f by (simp add: of_nat_diff)
  moreover have "uint (of_nat (length frame) :: u16) = int (length frame)" using assms(9) by (simp add: uint_nat unat_of_nat)
  ultimately show ?thesis
    using hc06_roundtrip [of ip "of_nat (length ip - 40)" ll rl cs frame "[]" "drop ?u ip" 0 "of_nat (length frame)" sb]
      assms(3-7,10) p f ipv6_packet_plen [OF assms(3)] u c(2,3) by (auto simp: ipv6_packet_def)
qed

definition sample_ip :: "u8 list" where
  "sample_ip = [0x61, 0x23, 0x45, 0x67, 0, 10, 17, 64] @ [0xfe, 0x80, 0, 0, 0, 0, 0, 0, 2, 1, 1, 1, 1, 1, 1, 1] @
     [0xaa, 0xaa, 0, 0, 0, 0, 0, 0, 0, 0, 0, 0xff, 0xfe, 0, 0x12, 0x34] @ [0xF0, 0xB1, 0xF0, 0xB2, 0, 10, 0xAB, 0xCD] @ [7, 8]"

definition sample_contexts :: "addr_context list" where
  "sample_contexts = [\<lparr>ctx_used = 1, ctx_number = 0, ctx_prefix = [0xaa, 0xaa, 0, 0, 0, 0, 0, 0]\<rparr>, \<lparr>ctx_used = 0, ctx_number = 0, ctx_prefix = replicate 8 0\<rparr>]"

lemmas compress_defs = compress_tf_def compress_nh_def compress_ttl_def compress_src_def compress_dest_def compress_udp_def compress_addr_64_def
  ip_fields udp_srcport_def udp_destport_def Let_def hc06_consts udp_consts addr_context_lookup_by_prefix_def uip_ipaddr_prefixcmp_def
  uip_is_addr_unspecified_def uip_is_addr_link_local_def u16_zero_def uip_is_addr_mac_addr_based_def uip_is_addr_mcast_def
  sicslowpan_is_iid_16_bit_compressable_def UIP_PROTO_UDP_def of_be16_def

lemma sample_header:
  "hc06_header sample_contexts [0, 1, 1, 1, 1, 1, 1, 1] (replicate 8 9) sample_ip =
    [0x66, 0xB6, 0, 0x84, 0x23, 0x45, 0x67, 0x12, 0x34, 0xF3, 0x12, 0xAB, 0xCD]"
  by (simp add: hc06_header_def hc06_fields_def compress_cid_def sample_ip_def sample_contexts_def compress_defs)

lemma length_sample: "length sample_ip = 50"
  by (simp add: sample_ip_def)

theorem iphc_header_roundtrip_witness:
  "\<exists>buf'. compress_hdr_hc06 sample_contexts [0, 1, 1, 1, 1, 1, 1, 1] (replicate 8 9) sample_ip (replicate 64 0) = Some (buf', 13, 48) \<and>
     uncompress_hdr_hc06 sample_contexts [0, 1, 1, 1, 1, 1, 1, 1] (replicate 8 9) 0 15 (take 13 buf' @ [7, 8]) 0 0 (replicate 60 3) =
     Some (take 48 sample_ip @ replicate 12 3, 13, 48)"
proof -
  let ?ll = "[0, 1, 1, 1, 1, 1, 1, 1] :: u8 list" and ?rl = "replicate 8 9 :: u8 list"
  have u: "ip_proto sample_ip = UIP_PROTO_UDP" by (simp add: sample_ip_def ip_fields UIP_PROTO_UDP_def)
  obtain rest where c: "compress_hdr_hc06 sample_contexts ?ll ?rl sample_ip (replicate 64 0) =
      Some (hc06_header sample_contexts ?ll ?rl sample_ip @ rest, 13, 48)"
    using compress_hdr_hc06_header [of sample_ip "replicate 64 0" sample_contexts ?ll ?rl] u by (auto simp: sample_header length_sample)
  let ?b = "hc06_header sample_contexts ?ll ?rl sample_ip @ rest"
  have "uncompress_hdr_hc06 sample_contexts ?ll ?rl 0 (of_nat (length (take 13 ?b @ [7, 8]))) (take 13 ?b @ [7, 8]) 0 0 (replicate 60 3) =
     Some (take (unat (48 :: u8)) sample_ip @ drop (unat (48 :: u8)) (replicate 60 3), 13, 48)"
  proof (rule iphc_header_roundtrip [OF c])
    show "ipv6_packet sample_ip"
      by (simp add: ipv6_packet_def sample_ip_def ip_fields UIP_PROTO_UDP_def be16_def)
    show "contexts_ok sample_contexts" by (simp add: contexts_ok_def sample_contexts_def)
    show "src_compressible sample_contexts sample_ip"
      by (simp add: src_compressible_def sample_ip_def sample_contexts_def compress_defs)
  qed (simp_all add: sample_ip_def)
  then show ?thesis using c by (intro exI [of _ ?b]) (simp add: sample_header)
qed

text \<open>
  A link-local source outside of \<open>FE80::/64\<close> is sent as if it was inside of it,
  because the code tests bits 16 to 63 of the destination address in place of
  those of the source: two packets from different sources are compressed to the same bytes.
\<close>

lemma iphc_source_test_of_destination:
  "compress_src [] (replicate 8 0)
      ([0x60, 0, 0, 0, 0, 0, 58, 255] @ [0xfe, 0x80, 0, 0, 0, 0, 0, 77, 1, 2, 3, 4, 5, 6, 7, 8] @ [0xff, 2, 0, 0, 0, 0, 0, 0, 0, 0, 0, 0, 0, 0, 0, 1]) =
   compress_src [] (replicate 8 0)
      ([0x60, 0, 0, 0, 0, 0, 58, 255] @ [0xfe, 0x80, 0, 0, 0, 0, 0, 0, 1, 2, 3, 4, 5, 6, 7, 8] @ [0xff, 2, 0, 0, 0, 0, 0, 0, 0, 0, 0, 0, 0, 0, 0, 1])"
  by (simp add: compress_defs)

end
