(* ===== verification/SicslowpanOutput.thy ===== *)
theory SicslowpanOutput
  imports Sicslowpan IphcRoundtrip
begin

text \<open>
  Datagrams across one hop: what \<open>output\<close> sends, as one frame or in fragments,
  \<open>input\<close> of the neighbour delivers to its IP layer.
\<close>

section \<open>A queue buffer for every fragment\<close>

text \<open>As many data blocks as descriptors; then a descriptor that is free comes with a data block.\<close>

definition q_ok :: "queuebufs \<Rightarrow> bool" where
  "q_ok q \<longleftrightarrow> q_inv q \<and> mnum (bufmem q) \<le> mnum (buframmem q)"

lemma q_numfree: "q_inv q \<Longrightarrow> queuebuf_numfree q = int (mnum (bufmem q)) - int (card (memb_used (bufmem q)))"
  unfolding queuebuf_numfree_def q_inv_def pool_ok_def by (rule memb_numfree_used) blast

lemma kept_used: "memb_used (bufmem q) = dom (kept q)"
  by (auto simp: kept_def dom_def split: if_splits)

lemma finite_used: "finite (memb_used m)"
  by (simp add: memb_used_def)

lemma card_blocks: "0 < sz \<Longrightarrow> card (memb_blocks base sz n) = n"
  by (simp add: memb_blocks_def card_image inj_on_def)

lemma pool_full: "pool_ok m \<Longrightarrow> memb_alloc m = (None, m') \<Longrightarrow> card (memb_used m) = mnum m"
  using memb_alloc_None [of "mmem m" "msize m" "mnum m" m m'] card_blocks [of "msize m" "mmem m" "mnum m"]
  by (simp add: pool_ok_def memb_inv_def memb_wf_def)

lemma new_mnum: "queuebuf_new_from_packetbuf pb q = Some (r, q') \<Longrightarrow> mnum (bufmem q') = mnum (bufmem q) \<and> mnum (buframmem q') = mnum (buframmem q)"
  by (auto simp: queuebuf_new_from_packetbuf_def memb_free_same bind_eq_Some_conv dest!: memb_alloc_same split: prod.splits option.splits)

lemma free_mnum: "mnum (bufmem (queuebuf_free b q)) = mnum (bufmem q) \<and> mnum (buframmem (queuebuf_free b q)) = mnum (buframmem q)"
  by (simp add: queuebuf_free_def memb_free_same)

lemma queuebuf_new_succeeds:
  assumes ok: "q_ok q" and free: "1 \<le> queuebuf_numfree q" and pb: "pb_ok pb"
  shows "\<exists>b q' x. queuebuf_new_from_packetbuf pb q = Some (Some b, q') \<and> q_inv q' \<and> kept q b = None \<and> kept q' = (kept q)(b \<mapsto> x) \<and> saved pb x"
proof -
  have inv: "q_inv q" using ok by (simp add: q_ok_def)
  then have qi: "pool_ok (bufmem q)" "pool_ok (buframmem q)" "inj_on (ram_ptr q) (memb_used (bufmem q))"
    "ram_ptr q ` memb_used (bufmem q) = memb_used (buframmem q)" by (auto simp: q_inv_def)
  have c: "card (memb_used (bufmem q)) < mnum (bufmem q)" using q_numfree [OF inv] free by simp
  have c': "card (memb_used (buframmem q)) < mnum (buframmem q)"
    using c ok card_image [OF qi(3)] unfolding qi(4) q_ok_def by simp
  have "fst (memb_alloc (bufmem q)) \<noteq> None" "fst (memb_alloc (buframmem q)) \<noteq> None"
    using pool_full [OF qi(1)] pool_full [OF qi(2)] c c' by (metis less_irrefl_nat prod.collapse)+
  then have "queuebuf_new_from_packetbuf pb q \<noteq> Some (None, q')" for q'
    by (auto simp: queuebuf_new_from_packetbuf_def bind_eq_Some_conv split: prod.splits option.splits)
  then show ?thesis using queuebuf_new_cases [OF inv pb] by blast
qed

text \<open>Putting aside, restoring and freeing leaves the pools as they were.\<close>

lemma q_cycle:
  assumes ok: "q_ok q" and free: "1 \<le> queuebuf_numfree q" and pb: "pb_ok pb" and p: "pkt pb = (h, c, d)"
  shows "\<exists>b q'. queuebuf_new_from_packetbuf pb q = Some (Some b, q') \<and> q_inv q' \<and>
    (\<forall>pb0. pb_ok pb0 \<longrightarrow> (\<exists>pb'. queuebuf_to_packetbuf b q' pb0 = Some pb' \<and> pb_ok pb' \<and> pkt pb' = ([], 0, h @ d) \<and>
      packetbuf_attrs pb' = packetbuf_attrs pb \<and> packetbuf_addrs pb' = packetbuf_addrs pb)) \<and>
    q_ok (queuebuf_free b q') \<and> queuebuf_numfree (queuebuf_free b q') = queuebuf_numfree q"
proof -
  obtain b q' x where n: "queuebuf_new_from_packetbuf pb q = Some (Some b, q')" "q_inv q'" "kept q b = None" "kept q' = (kept q)(b \<mapsto> x)" "saved pb x"
    using queuebuf_new_succeeds [OF assms(1-3)] by blast
  have f: "q_inv (queuebuf_free b q')" "kept (queuebuf_free b q') = kept q"
    using queuebuf_free_kept [OF n(2), of b] n(3,4) by (auto simp: fun_eq_iff)
  note m = new_mnum [OF n(1)] free_mnum [of b q']
  have "q_ok (queuebuf_free b q')" using f(1) m ok by (simp add: q_ok_def)
  moreover have "queuebuf_numfree (queuebuf_free b q') = queuebuf_numfree q"
    using q_numfree [OF f(1)] q_numfree [of q] ok m f(2) by (simp add: q_ok_def kept_used)
  moreover have "\<exists>pb'. queuebuf_to_packetbuf b q' pb0 = Some pb' \<and> pb_ok pb' \<and> pkt pb' = ([], 0, h @ d) \<and>
      packetbuf_attrs pb' = packetbuf_attrs pb \<and> packetbuf_addrs pb' = packetbuf_addrs pb" if "pb_ok pb0" for pb0
    using queuebuf_restore [OF n(2) _ n(5) pb that p] n(4) by simp
  ultimately show ?thesis using n(1,2) by blast
qed

section \<open>Sending one fragment\<close>

text \<open>The packet buffer of the sender, with nothing stripped and no header in front; its 128 bytes of data.\<close>

definition out_pb :: "packetbuf \<Rightarrow> bool" where
  "out_pb pb \<longleftrightarrow> length (packetbuf_bytes pb) = 176 \<and> unat (hdrptr pb) = 48 \<and> unat (bufptr pb) = 0 \<and>
     length (packetbuf_attrs pb) = PACKETBUF_NUM_ATTRS \<and> length (packetbuf_addrs pb) = PACKETBUF_NUM_ADDRS \<and>
     (\<forall>a \<in> set (packetbuf_addrs pb). length a = LINKADDR_SIZE)"

definition area :: "packetbuf \<Rightarrow> u8 list" where
  "area pb = from_ptr 48 pb"

lemma length_area: "out_pb pb \<Longrightarrow> length (area pb) = 128"
  by (simp add: out_pb_def area_def from_ptr_def)

lemma area_set [simp]: "out_pb pb \<Longrightarrow> area (set_from_ptr 48 bs pb) = bs"
  by (simp add: out_pb_def area_def from_ptr_def set_from_ptr_def)

lemma out_pb_set: "out_pb pb \<Longrightarrow> length bs = 128 \<Longrightarrow> out_pb (set_from_ptr 48 bs pb)"
  by (simp add: out_pb_def set_from_ptr_def)

lemma out_pb_datalen: "out_pb (packetbuf_set_datalen n pb) = out_pb pb" "area (packetbuf_set_datalen n pb) = area pb"
  by (simp_all add: out_pb_def packetbuf_set_datalen_def area_def from_ptr_def)

lemma out_pb_pkt: "out_pb pb \<Longrightarrow> unat (buflen pb) \<le> 128 \<Longrightarrow> pb_ok pb \<and> pkt pb = ([], 0, take (unat (buflen pb)) (area pb))"
  by (simp add: out_pb_def pb_ok_def pkt_def pb_defs area_def from_ptr_def)

text \<open>
  The MAC layer sends at once and successfully, and has given back its queue buffers by the time it returns.
\<close>

definition mac_ok :: "llsec \<Rightarrow> bool" where
  "mac_ok llsec_send \<longleftrightarrow> (\<forall>pb q. pb_ok pb \<and> q_inv q \<longrightarrow> (\<exists>pb'. llsec_send pb q = (pb', q, Some MAC_TX_OK) \<and> pb_ok pb'))"

lemma set_receiver:
  assumes "out_pb pb" and "length dest = LINKADDR_SIZE"
  shows "\<exists>pb'. packetbuf_set_addr PACKETBUF_ADDR_RECEIVER dest pb = Some pb' \<and> out_pb pb' \<and> area pb' = area pb \<and> buflen pb' = buflen pb \<and>
    packetbuf_addr PACKETBUF_ADDR_RECEIVER pb' = Some dest"
proof -
  obtain x y where a: "packetbuf_addrs pb = [x, y]" "length x = 8" "length y = 8"
    using assms(1) by (auto simp: out_pb_def PACKETBUF_NUM_ADDRS_def LINKADDR_SIZE_def numeral_eq_Suc length_Suc_conv)
  then show ?thesis
    using assms by (auto simp: packetbuf_set_addr_def packetbuf_addr_def PACKETBUF_ADDR_RECEIVER_def PACKETBUF_ADDR_FIRST_def PACKETBUF_ADDR_SENDER_def
        linkaddr_copy_def LINKADDR_SIZE_def out_pb_def area_def from_ptr_def PACKETBUF_NUM_ADDRS_def)
qed


lemma pkt_out_pb:
  assumes "pb_ok pb" and "pkt pb = ([], 0, d)" and "\<forall>a \<in> set (packetbuf_addrs pb). length a = LINKADDR_SIZE"
  shows "out_pb pb \<and> take (length d) (area pb) = d"
proof -
  have ok: "length (packetbuf_bytes pb) = 176" "unat (hdrptr pb) \<le> 48" "unat (buflen pb) \<le> 128"
    "length (packetbuf_attrs pb) = PACKETBUF_NUM_ATTRS" "length (packetbuf_addrs pb) = PACKETBUF_NUM_ADDRS"
    using assms(1) by (simp_all add: pb_ok_def pb_defs)
  have p: "48 \<le> unat (hdrptr pb)" "unat (bufptr pb) = 0" and d: "d = take (unat (buflen pb)) (drop 48 (packetbuf_bytes pb))"
    using assms(2) ok(1) by (auto simp: pkt_def pb_defs min_def)
  have "length d = unat (buflen pb)" using d ok(1,3) by simp
  then show ?thesis using ok p d assms(3) by (simp add: out_pb_def area_def from_ptr_def)
qed

lemma send_fragment_ok:
  assumes mac: "mac_ok llsec_send" and pb: "out_pb (pktbuf s)" and dest: "length dest = LINKADDR_SIZE"
    and q: "q_ok (qbufs s)" "1 \<le> queuebuf_numfree (qbufs s)"
    and n: "hdr_len + n \<le> 128" "off + n \<le> length (uip_buf s)"
  shows "\<exists>f pb q. send_fragment llsec_send 48 dest hdr_len off (int n) s =
      Some (Some f, s\<lparr>pktbuf := pb, qbufs := q, last_tx_status := MAC_TX_OK\<rparr>) \<and>
    pkt f = ([], 0, take hdr_len (area (pktbuf s)) @ take n (drop off (uip_buf s))) \<and> packetbuf_addr PACKETBUF_ADDR_RECEIVER f = Some dest \<and>
    out_pb pb \<and> take hdr_len (area pb) = take hdr_len (area (pktbuf s)) \<and> q_ok q \<and> queuebuf_numfree q = queuebuf_numfree (qbufs s)"
proof -
  let ?a = "area (pktbuf s)" and ?bs = "take n (drop off (uip_buf s))"
  let ?buf = "take hdr_len ?a @ ?bs @ drop (hdr_len + n) ?a"
  define pb1 where "pb1 = packetbuf_set_datalen (of_nat (hdr_len + n)) (set_from_ptr 48 ?buf (pktbuf s))"
  have la: "length ?a = 128" using length_area [OF pb] .
  have lbs: "length ?bs = n" using n(2) by simp
  have r: "read_bytes off n (uip_buf s) = Some ?bs" using n(2) by (simp add: read_bytes_def)
  have w: "write_bytes hdr_len ?bs (from_ptr 48 (pktbuf s)) = Some ?buf"
    using n(1) la lbs by (simp add: write_bytes_def area_def)
  have e: "packetbuf_set_datalen (word_of_int (int n + int hdr_len)) (set_from_ptr 48 ?buf (pktbuf s)) = pb1"
    by (simp add: pb1_def add.commute)
  have o1: "out_pb pb1" unfolding pb1_def out_pb_datalen by (rule out_pb_set [OF pb]) (use n(1) la lbs in simp)
  have a1: "area pb1 = ?buf" unfolding pb1_def out_pb_datalen by (rule area_set [OF pb])
  have l1: "unat (buflen pb1) = hdr_len + n" using n(1) by (simp add: pb1_def packetbuf_set_datalen_def unat_of_nat flip: of_nat_add)
  have p1: "pb_ok pb1" "pkt pb1 = ([], 0, take hdr_len ?a @ ?bs)"
    using out_pb_pkt [OF o1] l1 n(1) la lbs by (simp_all add: a1)
  obtain b q' where c: "queuebuf_new_from_packetbuf pb1 (qbufs s) = Some (Some b, q')" "q_inv q'"
    "\<And>pb0. pb_ok pb0 \<Longrightarrow> \<exists>pb'. queuebuf_to_packetbuf b q' pb0 = Some pb' \<and> pb_ok pb' \<and> pkt pb' = ([], 0, take hdr_len ?a @ ?bs) \<and>
      packetbuf_attrs pb' = packetbuf_attrs pb1 \<and> packetbuf_addrs pb' = packetbuf_addrs pb1"
    "q_ok (queuebuf_free b q')" "queuebuf_numfree (queuebuf_free b q') = queuebuf_numfree (qbufs s)"
    using q_cycle [OF q p1] by auto
  obtain f where f: "packetbuf_set_addr PACKETBUF_ADDR_RECEIVER dest pb1 = Some f" "out_pb f" "area f = area pb1" "buflen f = buflen pb1"
    "packetbuf_addr PACKETBUF_ADDR_RECEIVER f = Some dest" using set_receiver [OF o1 dest] by blast
  have pf: "pb_ok f" "pkt f = ([], 0, take hdr_len ?a @ ?bs)"
    using out_pb_pkt [OF f(2)] l1 n(1) la lbs by (simp_all add: f(3,4) a1)
  obtain pb3 where m: "llsec_send f q' = (pb3, q', Some MAC_TX_OK)" "pb_ok pb3" using mac pf(1) c(2) by (auto simp: mac_ok_def)
  obtain pb4 where r4: "queuebuf_to_packetbuf b q' pb3 = Some pb4" "pb_ok pb4" "pkt pb4 = ([], 0, take hdr_len ?a @ ?bs)" "packetbuf_addrs pb4 = packetbuf_addrs pb1"
    using c(3) [OF m(2)] by blast
  have o4: "out_pb pb4" "take (length (take hdr_len ?a @ ?bs)) (area pb4) = take hdr_len ?a @ ?bs"
    using pkt_out_pb [OF r4(2,3)] o1 r4(4) by (auto simp: out_pb_def)
  have "length (take hdr_len ?a @ ?bs) = hdr_len + n" using la lbs n(1) by simp
  with o4(2) have "take (hdr_len + n) (area pb4) = take hdr_len ?a @ ?bs" by simp
  then have "take hdr_len (take (hdr_len + n) (area pb4)) = take hdr_len ?a" using la n(1) by simp
  then have t4: "take hdr_len (area pb4) = take hdr_len ?a" by simp
  have "send_fragment llsec_send 48 dest hdr_len off (int n) s =
      Some (Some f, s\<lparr>pktbuf := pb4, qbufs := queuebuf_free b q', last_tx_status := MAC_TX_OK\<rparr>)"
    using r w c(1) f(1) m(1) r4(1) e by (simp add: send_fragment_def send_packet_def packet_sent_def Let_def)
  then show ?thesis using pf(2) f(5) o4(1) t4 c(4,5) by blast
qed


section \<open>All fragments of a packet\<close>

definition fragn_header :: "u16 \<Rightarrow> nat \<Rightarrow> nat \<Rightarrow> u8 list" where
  "fragn_header tag len k = be16 (0xe000 OR of_nat len) @ be16 tag @ [of_nat (k div 8)]"

text \<open>The frames for the packet from offset \<open>k\<close> on, with at most \<open>p\<close> bytes each.\<close>

function fragments :: "u16 \<Rightarrow> u8 list \<Rightarrow> nat \<Rightarrow> nat \<Rightarrow> u8 list list" where
  "fragments tag ip p k = (if k < length ip \<and> 0 < p
     then (fragn_header tag (length ip) k @ take p (drop k ip)) # fragments tag ip p (k + p) else [])"
  by pat_completeness auto
termination by (relation "measure (\<lambda>(tag, ip, p, k). length ip - k)") auto

declare fragments.simps [simp del]

definition carries :: "linkaddr \<Rightarrow> packetbuf \<Rightarrow> u8 list \<Rightarrow> bool" where
  "carries dest f d \<longleftrightarrow> pkt f = ([], 0, d) \<and> packetbuf_addr PACKETBUF_ADDR_RECEIVER f = Some dest"

lemma unat_u16: "n < 65536 \<Longrightarrow> unat (of_nat n :: u16) = n"
  by (simp add: unat_of_nat)

lemma of_nat_u8: "n < 256 \<Longrightarrow> unat (of_nat n :: u8) = n \<and> uint (of_nat n :: u8) = int n"
  by (simp add: uint_nat unat_of_nat)

lemma unat_drop3: "unat (drop_bit 3 (w :: u16)) = unat w div 8"
  by (simp add: drop_bit_eq_div unat_div)

lemma fragment_loop_step:
  assumes "processed < uip_len s"
    and "write_bytes 4 [ucast (drop_bit 3 processed)] (from_ptr ptr (pktbuf s)) = Some buf"
    and "n = (if uint (uip_len s) - uint processed < p then uint (uip_len s) - uint processed else p)"
    and "send_fragment llsec_send ptr dest 5 (unat processed) n (s\<lparr>pktbuf := set_from_ptr ptr buf (pktbuf s)\<rparr>) = Some (Some f, s')"
    and "\<not> tx_failed s'"
  shows "fragment_loop llsec_send ptr dest processed p s = do {
    (r, fs, s) \<leftarrow> fragment_loop llsec_send ptr dest (processed + word_of_int n) n s'; Some (r, f # fs, s) }"
  using assms by (cases "uint (uip_len s) - uint processed < p"; subst fragment_loop.simps)
    (simp_all add: SICSLOWPAN_FRAGN_HDR_LEN_def Let_def)

lemma fragment_loop_ok:
  assumes mac: "mac_ok llsec_send" and dest: "length dest = LINKADDR_SIZE"
    and p: "0 < p" "p mod 8 = 0" "5 + p \<le> 128" and ip: "length ip < 2048"
    and pb: "out_pb (pktbuf s)" "take 4 (area (pktbuf s)) = be16 (0xe000 OR of_nat (length ip)) @ be16 tag"
    and q: "q_ok (qbufs s)" "1 \<le> queuebuf_numfree (qbufs s)"
    and s: "uip_len s = of_nat (length ip)" "take (length ip) (uip_buf s) = ip" and k: "k mod 8 = 0" "k \<le> length ip"
  shows "\<exists>fs pb q st. fragment_loop llsec_send 48 dest (of_nat k) (int p) s = Some (1, fs, s\<lparr>pktbuf := pb, qbufs := q, last_tx_status := st\<rparr>) \<and>
    list_all2 (carries dest) fs (fragments tag ip p k) \<and> q_ok q \<and> queuebuf_numfree q = queuebuf_numfree (qbufs s)"
  using pb q s k
proof (induction "length ip - k" arbitrary: k s rule: less_induct)
  case less
  have ul: "uint (uip_len s) = int (length ip)" "unat (uip_len s) = length ip" using less.prems(5) ip by (simp_all add: uint_nat unat_u16)
  have uk: "unat (of_nat k :: u16) = k" "uint (of_nat k :: u16) = int k" using less.prems(8) ip by (simp_all add: uint_nat unat_u16)
  have lt: "(of_nat k < uip_len s) = (k < length ip)" using uk(1) ul(2) by (simp add: word_less_nat_alt)
  show ?case
  proof (cases "k < length ip")
    case False
    then have "fragment_loop llsec_send 48 dest (of_nat k) (int p) s = Some (1, [], s\<lparr>pktbuf := pktbuf s, qbufs := qbufs s, last_tx_status := last_tx_status s\<rparr>)"
      using lt by (subst fragment_loop.simps) simp
    moreover have "fragments tag ip p k = []" using False by (simp add: fragments.simps)
    ultimately show ?thesis using less.prems(3)
      by (intro exI [of _ "[]"] exI [of _ "pktbuf s"] exI [of _ "qbufs s"] exI [of _ "last_tx_status s"]) simp
  next
    case True
    define n where "n = min p (length ip - k)"
    have n: "0 < n" "k + n \<le> length ip" "5 + n \<le> 128" using True p by (auto simp: n_def)
    let ?a = "area (pktbuf s)"
    have la: "length ?a = 128" using length_area [OF less.prems(1)] .
    define o8 where "o8 = (ucast (drop_bit 3 (of_nat k :: u16)) :: u8)"
    have o8: "o8 = of_nat (k div 8)"
    proof -
      have "unat (drop_bit 3 (of_nat k :: u16)) = k div 8" using uk(1) by (simp add: unat_drop3)
      moreover have "of_nat (unat (drop_bit 3 (of_nat k :: u16))) = o8" unfolding o8_def by simp
      ultimately show ?thesis by simp
    qed
    let ?buf = "take 4 ?a @ [o8] @ drop 5 ?a"
    have w: "write_bytes 4 [o8] (from_ptr 48 (pktbuf s)) = Some ?buf" using la by (simp add: write_bytes_def area_def)
    define s1 where "s1 = s\<lparr>pktbuf := set_from_ptr 48 ?buf (pktbuf s)\<rparr>"
    have o1: "out_pb (pktbuf s1)" "area (pktbuf s1) = ?buf"
      unfolding s1_def using out_pb_set [OF less.prems(1), of ?buf] area_set [OF less.prems(1)] la by simp_all
    have t5: "take 5 ?buf = fragn_header tag (length ip) k" using la less.prems(2) o8 by (simp add: fragn_header_def)
    have drk: "take n (drop k (uip_buf s)) = take p (drop k ip)"
    proof -
      have "take p (drop k ip) = take n (drop k ip)" unfolding n_def by (cases "p \<le> length ip - k") simp_all
      also have "\<dots> = take n (drop k (take (length ip) (uip_buf s)))" using less.prems(6) by simp
      also have "\<dots> = take n (drop k (uip_buf s))" using n(2) by (simp add: drop_take)
      finally show ?thesis by simp
    qed
    have lu: "k + n \<le> length (uip_buf s)" using n(2) less.prems(6) by (metis length_take min.bounded_iff)
    obtain f pb q where sf: "send_fragment llsec_send 48 dest 5 k (int n) s1 = Some (Some f, s1\<lparr>pktbuf := pb, qbufs := q, last_tx_status := MAC_TX_OK\<rparr>)"
      and f: "pkt f = ([], 0, take 5 (area (pktbuf s1)) @ take n (drop k (uip_buf s1)))" "packetbuf_addr PACKETBUF_ADDR_RECEIVER f = Some dest"
      and pb: "out_pb pb" "take 5 (area pb) = take 5 (area (pktbuf s1))" and q: "q_ok q" "queuebuf_numfree q = queuebuf_numfree (qbufs s1)"
      using send_fragment_ok [OF mac o1(1) dest, of 5 n k] less.prems(3,4) n(3) lu by (auto simp: s1_def)
    define s2 where "s2 = s1\<lparr>pktbuf := pb, qbufs := q, last_tx_status := MAC_TX_OK\<rparr>"
    have ca: "carries dest f (fragn_header tag (length ip) k @ take p (drop k ip))"
      using f t5 drk by (simp add: carries_def o1(2)) (simp add: s1_def)
    have s2: "uip_len s2 = of_nat (length ip)" "take (length ip) (uip_buf s2) = ip" using less.prems(5,6) by (simp_all add: s2_def s1_def)
    have step: "fragment_loop llsec_send 48 dest (of_nat k) (int p) s = do {
        (r, fs, s) \<leftarrow> fragment_loop llsec_send 48 dest (of_nat (k + n)) (int n) s2; Some (r, f # fs, s) }"
    proof -
      have "tx_failed s2 = False" by (simp add: s2_def tx_failed_def MAC_TX_OK_def MAC_TX_COLLISION_def MAC_TX_ERR_def MAC_TX_ERR_FATAL_def)
      moreover have "int n = (if uint (uip_len s) - uint (of_nat k :: u16) < int p then uint (uip_len s) - uint (of_nat k :: u16) else int p)"
        using ul(1) uk(2) True by (auto simp: n_def)
      moreover have "(of_nat k :: u16) + word_of_int (int n) = of_nat (k + n)" by simp
      ultimately show ?thesis
        using fragment_loop_step [of "of_nat k" s 48 ?buf "int n" "int p" llsec_send dest f s2] sf w True lt
        unfolding uk(1) o8_def [symmetric] s1_def [symmetric] s2_def [symmetric] by simp
    qed
    show ?thesis
    proof (cases "p \<le> length ip - k")
      case pk: True
      then have np: "n = p" by (simp add: n_def)
      have "take 4 (take 5 (area pb)) = take 4 (take 5 (take 4 ?a @ [o8] @ drop 5 ?a))" unfolding pb(2) o1(2) ..
      then have "take 4 (area pb) = take 4 ?a" using la by simp
      then have t: "take 4 (area (pktbuf s2)) = be16 (0xe000 OR of_nat (length ip)) @ be16 tag" using less.prems(2) by (simp add: s2_def)
      have "8 dvd k + p" using p(2) less.prems(7) by (intro dvd_add) (simp_all add: dvd_eq_mod_eq_0)
      then have ex: "\<exists>fs pb q st. fragment_loop llsec_send 48 dest (of_nat (k + p)) (int p) s2 = Some (1, fs, s2\<lparr>pktbuf := pb, qbufs := q, last_tx_status := st\<rparr>) \<and>
        list_all2 (carries dest) fs (fragments tag ip p (k + p)) \<and> q_ok q \<and> queuebuf_numfree q = queuebuf_numfree (qbufs s2)"
        using p(1) pk True t s2 pb(1) q less.prems(4) by (intro less.hyps) (simp_all add: s2_def s1_def)
      obtain fs pb' q' st where r: "fragment_loop llsec_send 48 dest (of_nat (k + p)) (int p) s2 = Some (1, fs, s2\<lparr>pktbuf := pb', qbufs := q', last_tx_status := st\<rparr>)"
        "list_all2 (carries dest) fs (fragments tag ip p (k + p))" "q_ok q'" "queuebuf_numfree q' = queuebuf_numfree (qbufs s2)"
        using ex by blast
      have "fragments tag ip p k = (fragn_header tag (length ip) k @ take p (drop k ip)) # fragments tag ip p (k + p)"
        using True p(1) by (subst fragments.simps) simp
      then show ?thesis
        using step r(1) ca r(2,3,4) q(2) unfolding np by (intro exI [of _ "f # fs"] exI [of _ pb'] exI [of _ q'] exI [of _ st]) (simp add: s2_def s1_def)
    next
      case False
      then have kn: "k + n = length ip" using True by (simp add: n_def)
      have "fragment_loop llsec_send 48 dest (of_nat (k + n)) (int n) s2 = Some (1, [], s2)"
        unfolding kn by (subst fragment_loop.simps) (simp add: s2)
      moreover have "fragments tag ip p k = [fragn_header tag (length ip) k @ take p (drop k ip)]"
        using True False p(1) by (subst fragments.simps, subst fragments.simps) simp
      ultimately show ?thesis using step ca q by (auto simp: s2_def s1_def)
    qed
  qed
qed

lemma SET16_append: "length a = i \<Longrightarrow> length b = 2 \<Longrightarrow> SET16 (a @ b @ c) i w = Some (a @ be16 w @ c)"
  by (auto simp: SET16_def)

lemma whole_units_nat: "whole_units (int n) = int (n div 8 * 8)"
  by (simp add: whole_units_def zdiv_int)

text \<open>The frames for a packet whose first \<open>u\<close> bytes are compressed to \<open>H\<close>, when a frame carries \<open>M\<close> bytes.\<close>

definition datagram_frames :: "u16 \<Rightarrow> u8 list \<Rightarrow> nat \<Rightarrow> nat \<Rightarrow> u8 list \<Rightarrow> u8 list list" where
  "datagram_frames tag H u M ip = (let n = (M - (length H + 4)) div 8 * 8 in
     if length H + (length ip - u) \<le> M then [H @ drop u ip]
     else (be16 (0xc000 OR of_nat (length ip)) @ be16 tag @ H @ take n (drop u ip)) # fragments tag ip ((M - 5) div 8 * 8) (u + n))"

lemma output_fragments_ok:
  assumes mac: "mac_ok llsec_send" and dest: "length dest = LINKADDR_SIZE" and ip: "length ip < 2048"
    and pb: "out_pb (pktbuf s)" "area (pktbuf s) = H @ rest"
    and q: "q_ok (qbufs s)" "int (length ip div 120) + 2 \<le> queuebuf_numfree (qbufs s)"
    and s: "uip_len s = of_nat (length ip)" "take (length ip) (uip_buf s) = ip"
    and u: "u mod 8 = 0" "u \<le> 48" and H: "length H \<le> 48" and M: "52 \<le> M" "M \<le> 125" "M < length H + (length ip - u)"
  shows "\<exists>fs s'. output_fragments llsec_send 48 dest (int M) (of_nat (length H)) (of_nat u) s = Some (1, fs, s') \<and>
    list_all2 (carries dest) fs (datagram_frames (my_tag s) H u M ip)"
proof -
  let ?h = "length H + 4"
  define n where "n = (M - ?h) div 8 * 8"
  define p where "p = (M - 5) div 8 * 8"
  have n: "?h + n \<le> M" "n mod 8 = 0" and p: "0 < p" "p mod 8 = 0" "5 + p \<le> 128"
    using M(1,2) H by (simp_all add: n_def p_def)
  have un: "u + n \<le> length ip" "u < length ip" using n M(3) by simp_all
  have la: "length H + length rest = 128" using length_area [OF pb(1)] pb(2) by simp
  define b1 where "b1 = take 4 (H @ rest) @ H @ drop ?h (H @ rest)"
  define b3 where "b3 = be16 (0xc000 OR of_nat (length ip)) @ be16 (my_tag s) @ H @ drop ?h (H @ rest)"
  have frm: "from_ptr 48 (pktbuf s) = H @ rest" using pb(2) by (simp add: area_def)
  have r: "read_bytes 0 (length H) (H @ rest) = Some H" by (simp add: read_bytes_def)
  have w1: "write_bytes 4 H (H @ rest) = Some b1" using la H by (simp add: write_bytes_def b1_def add.commute)
  obtain x1 x2 x3 x4 where x: "take 4 (H @ rest) = [x1, x2, x3, x4]"
    using la length_take [of 4 "H @ rest"] by (auto simp: numeral_eq_Suc length_Suc_conv simp del: take_append length_take)
  have w2: "SET16 b1 0 (0xc000 OR of_nat (length ip)) = Some (be16 (0xc000 OR of_nat (length ip)) @ [x3, x4] @ H @ drop ?h (H @ rest))"
    unfolding b1_def x using SET16_append [of "[]" 0 "[x1, x2]" "[x3, x4] @ H @ drop ?h (H @ rest)"] by simp
  have w3: "SET16 (be16 (0xc000 OR of_nat (length ip)) @ [x3, x4] @ H @ drop ?h (H @ rest)) 2 (my_tag s) = Some b3"
    unfolding b3_def by (rule SET16_append) simp_all
  define s1 where "s1 = s\<lparr>pktbuf := set_from_ptr 48 b3 (pktbuf s), my_tag := my_tag s + 1\<rparr>"
  have l3: "length b3 = 128" using la H by (simp add: b3_def)
  have o1: "out_pb (pktbuf s1)" "area (pktbuf s1) = b3" unfolding s1_def using out_pb_set [OF pb(1) l3] area_set [OF pb(1)] by simp_all
  have t3: "take ?h b3 = be16 (0xc000 OR of_nat (length ip)) @ be16 (my_tag s) @ H" using H by (simp add: b3_def)
  have lu: "u + n \<le> length (uip_buf s)" using un s(2) by (metis length_take min.bounded_iff)
  have dr: "take n (drop u (uip_buf s)) = take n (drop u ip)"
  proof -
    have "take n (drop u ip) = take n (drop u (take (length ip) (uip_buf s)))" using s(2) by simp
    also have "\<dots> = take n (drop u (uip_buf s))" using un(1) by (simp add: drop_take)
    finally show ?thesis by simp
  qed
  obtain f pb' q' where sf: "send_fragment llsec_send 48 dest ?h u (int n) s1 = Some (Some f, s1\<lparr>pktbuf := pb', qbufs := q', last_tx_status := MAC_TX_OK\<rparr>)"
    and f: "pkt f = ([], 0, take ?h (area (pktbuf s1)) @ take n (drop u (uip_buf s1)))" "packetbuf_addr PACKETBUF_ADDR_RECEIVER f = Some dest"
    and pb': "out_pb pb'" "take ?h (area pb') = take ?h (area (pktbuf s1))" and q': "q_ok q'" "queuebuf_numfree q' = queuebuf_numfree (qbufs s1)"
    using send_fragment_ok [OF mac o1(1) dest, of ?h n u] q n(1) M(2) lu by (auto simp: s1_def)
  define s2 where "s2 = s1\<lparr>pktbuf := pb', qbufs := q', last_tx_status := MAC_TX_OK\<rparr>"
  have ca: "carries dest f (be16 (0xc000 OR of_nat (length ip)) @ be16 (my_tag s) @ H @ take n (drop u ip))"
    using f t3 dr by (simp add: carries_def o1(2)) (simp add: s1_def)
  have "take 4 (take ?h (area pb')) = take 4 (take ?h b3)" unfolding pb'(2) o1(2) ..
  then have t4: "take 4 (area pb') = be16 (0xc000 OR of_nat (length ip)) @ be16 (my_tag s)" using H by (simp add: b3_def)
  define a4 where "a4 = drop 4 (area pb')"
  have ap: "area pb' = be16 (0xc000 OR of_nat (length ip)) @ be16 (my_tag s) @ a4"
    using t4 append_take_drop_id [of 4 "area pb'"] by (simp add: a4_def)
  have w4: "SET16 (area pb') 0 (0xe000 OR of_nat (length ip)) = Some (be16 (0xe000 OR of_nat (length ip)) @ be16 (my_tag s) @ a4)"
    unfolding ap using SET16_append [of "[]" 0 "be16 (0xc000 OR of_nat (length ip))" "be16 (my_tag s) @ a4"] by simp
  define s3 where "s3 = s2\<lparr>pktbuf := set_from_ptr 48 (be16 (0xe000 OR of_nat (length ip)) @ be16 (my_tag s) @ a4) pb'\<rparr>"
  have la4: "length (be16 (0xe000 OR of_nat (length ip)) @ be16 (my_tag s) @ a4) = 128"
    using length_area [OF pb'(1)] unfolding ap by simp
  have o3: "out_pb (pktbuf s3)" "take 4 (area (pktbuf s3)) = be16 (0xe000 OR of_nat (length ip)) @ be16 (my_tag s)"
    unfolding s3_def using out_pb_set [OF pb'(1) la4] area_set [OF pb'(1)] by simp_all
  have "(u + n) mod 8 = 0" using u(1) n(2) by (simp add: mod_add_eq [symmetric])
  then have "\<exists>fs pb q st. fragment_loop llsec_send 48 dest (of_nat (u + n)) (int p) s3 = Some (1, fs, s3\<lparr>pktbuf := pb, qbufs := q, last_tx_status := st\<rparr>) \<and>
    list_all2 (carries dest) fs (fragments (my_tag s) ip p (u + n)) \<and> q_ok q \<and> queuebuf_numfree q = queuebuf_numfree (qbufs s3)"
    using q' q s un(1) by (intro fragment_loop_ok [OF mac dest p ip o3]) (simp_all add: s3_def s2_def s1_def)
  then obtain fs s4 where lp: "fragment_loop llsec_send 48 dest (of_nat (u + n)) (int p) s3 = Some (1, fs, s4)"
    and fs: "list_all2 (carries dest) fs (fragments (my_tag s) ip p (u + n))" by blast
  have hl: "of_nat (length H) + of_nat SICSLOWPAN_FRAG1_HDR_LEN = (of_nat ?h :: u8)" by (simp add: SICSLOWPAN_FRAG1_HDR_LEN_def)
  have wd: "uint (of_nat ?h :: u8) = int ?h" "unat (of_nat ?h :: u8) = ?h" "unat (of_nat (length H) :: u8) = length H"
    "uint (of_nat u :: u8) = int u" "unat (of_nat u :: u8) = u"
    using H u(2) of_nat_u8 [of ?h] of_nat_u8 [of "length H"] of_nat_u8 [of u] by (simp_all del: of_nat_add)
  have wu: "whole_units (int M - int ?h) = int n" "whole_units (int M - int SICSLOWPAN_FRAGN_HDR_LEN) = int p"
    using whole_units_nat [of "M - ?h"] whole_units_nat [of "M - 5"] M(1) H
    by (simp_all add: n_def p_def SICSLOWPAN_FRAGN_HDR_LEN_def of_nat_diff)
  have ul: "uint (uip_len s) = int (length ip)" using s(1) ip by (simp add: uint_nat unat_u16)
  have est: "\<not> queuebuf_numfree (qbufs s) - 1 < uint (uip_len s) div (MAC_MAX_PAYLOAD - int SICSLOWPAN_FRAGN_HDR_LEN) + 1"
    using q(2) unfolding ul by (simp add: MAC_MAX_PAYLOAD_def SICSLOWPAN_FRAGN_HDR_LEN_def zdiv_int)
  have pr: "word_of_int (int n + int u) = (of_nat (u + n) :: u16)" by (simp add: add.commute)
  have dsp: "push_bit 8 (ucast SICSLOWPAN_DISPATCH_FRAG1) OR uip_len s = 0xc000 OR of_nat (length ip)"
    "push_bit 8 (ucast SICSLOWPAN_DISPATCH_FRAGN) OR uip_len s2 = 0xe000 OR of_nat (length ip)"
    using s(1) by (simp_all add: SICSLOWPAN_DISPATCH_FRAG1_def SICSLOWPAN_DISPATCH_FRAGN_def s2_def s1_def)
  have ok: "\<not> tx_failed s2" by (simp add: s2_def tx_failed_def MAC_TX_OK_def MAC_TX_COLLISION_def MAC_TX_ERR_def MAC_TX_ERR_FATAL_def)
  have sf': "send_fragment llsec_send 48 dest ?h u (int n) s1 = Some (Some f, s2)" using sf by (simp add: s2_def)
  have pk: "from_ptr 48 (pktbuf s2) = area pb'" "s2\<lparr>pktbuf := set_from_ptr 48 (be16 (0xe000 OR of_nat (length ip)) @ be16 (my_tag s) @ a4) (pktbuf s2)\<rparr> = s3"
    by (simp_all add: s2_def s3_def area_def)
  have "output_fragments llsec_send 48 dest (int M) (of_nat (length H)) (of_nat u) s = Some (1, f # fs, s4)"
    unfolding output_fragments_def Let_def frm hl wd wu r pr Option.bind.simps
    using est w1 w2 w3 sf' ok w4 lp
    by (simp add: dsp pk SICSLOWPAN_FRAG1_HDR_LEN_def s1_def [symmetric])
  moreover have "datagram_frames (my_tag s) H u M ip =
      (be16 (0xc000 OR of_nat (length ip)) @ be16 (my_tag s) @ H @ take n (drop u ip)) # fragments (my_tag s) ip p (u + n)"
    using M(3) by (simp add: datagram_frames_def n_def p_def Let_def)
  ultimately show ?thesis using ca fs by auto
qed

section \<open>Output of a packet\<close>

text \<open>The header that is sent in place of the first \<open>u\<close> bytes of a packet of \<open>len\<close> bytes.\<close>

definition datagram_header :: "addr_context list \<Rightarrow> linkaddr \<Rightarrow> linkaddr \<Rightarrow> nat \<Rightarrow> u8 list \<Rightarrow> u8 list \<times> nat" where
  "datagram_header cs ll rl len ip = (if COMPRESSION_THRESHOLD \<le> len then (hc06_header cs ll rl ip, if ip_proto ip = UIP_PROTO_UDP then 48 else 40)
     else (0x41 # take 40 ip, 40))"

lemma compress_hdr_ipv6_header:
  assumes "40 \<le> length ip" and "48 \<le> length buf"
  shows "compress_hdr_ipv6 ip buf = Some ((0x41 # take 40 ip) @ drop 41 buf, 41, 40)"
proof -
  obtain x rest where b: "buf = x # rest" using assms(2) by (cases buf) auto
  have "write_bytes 0 [SICSLOWPAN_DISPATCH_IPV6] buf = Some (0x41 # rest)" by (simp add: b write_bytes_def SICSLOWPAN_DISPATCH_IPV6_def)
  moreover have "write_bytes SICSLOWPAN_IPV6_HDR_LEN (take UIP_IPH_LEN ip) (0x41 # rest) = Some ((0x41 # take 40 ip) @ drop 40 rest)"
    using assms b by (simp add: write_bytes_def SICSLOWPAN_IPV6_HDR_LEN_def UIP_IPH_LEN_def)
  ultimately show ?thesis
    by (simp add: compress_hdr_ipv6_def b SICSLOWPAN_IPV6_HDR_LEN_def UIP_IPH_LEN_def)
qed

lemma compress_header:
  assumes "datagram_header cs ll rl len ip = (H, u)" and "40 \<le> length ip" and "length buf = 128"
  shows "\<exists>rest. (if COMPRESSION_THRESHOLD \<le> len then compress_hdr_hc06 cs ll rl ip buf else compress_hdr_ipv6 ip buf) =
      Some (H @ rest, of_nat (length H), of_nat u) \<and> length (H @ rest) = 128" and "length H \<le> 48" and "u = 40 \<or> u = 48"
  using assms compress_hdr_hc06_header [of ip buf cs ll rl] compress_hdr_ipv6_header [of ip buf] length_hc06_header [of ip cs ll rl]
  by (auto simp: datagram_header_def split: if_splits)

definition sender_pb :: "packetbuf \<Rightarrow> bool" where
  "sender_pb pb \<longleftrightarrow> pb_ok pb \<and> (\<forall>a \<in> set (packetbuf_addrs pb). length a = LINKADDR_SIZE)"

lemma clear_out_pb: "sender_pb pb \<Longrightarrow> out_pb (packetbuf_clear pb) \<and> packetbuf_dataptr (packetbuf_clear pb) = 48"
proof -
  assume ok: "sender_pb pb"
  then obtain x y where a: "packetbuf_addrs pb = [x, y]" "length x = 8" "length y = 8"
    by (auto simp: sender_pb_def pb_ok_def PACKETBUF_NUM_ADDRS_def LINKADDR_SIZE_def numeral_eq_Suc length_Suc_conv)
  have "length (fold (\<lambda>i as. as[i := 0]) l (as :: u16 list)) = length as" for l as by (induction l arbitrary: as) auto
  then have at: "length (packetbuf_attrs (packetbuf_clear pb)) = PACKETBUF_NUM_ATTRS"
    using ok by (simp add: sender_pb_def pb_ok_def packetbuf_clear_def packetbuf_attr_clear_def)
  have "[0..<PACKETBUF_NUM_ADDRS] = [0, 1]" by (simp add: PACKETBUF_NUM_ADDRS_def upt_rec)
  then have ad: "packetbuf_addrs (packetbuf_clear pb) = [linkaddr_null, linkaddr_null]"
    using a by (simp add: packetbuf_clear_def packetbuf_attr_clear_def linkaddr_copy_def linkaddr_null_def LINKADDR_SIZE_def)
  have "packetbuf_bytes (packetbuf_clear pb) = packetbuf_bytes pb" "bufptr (packetbuf_clear pb) = 0" "unat (hdrptr (packetbuf_clear pb)) = 48"
    by (simp_all add: packetbuf_clear_def packetbuf_attr_clear_def PACKETBUF_HDR_SIZE_def)
  then show ?thesis using ok at ad
    by (simp add: sender_pb_def out_pb_def pb_ok_def pb_defs packetbuf_dataptr_def linkaddr_null_def LINKADDR_SIZE_def PACKETBUF_NUM_ADDRS_def)
qed

lemma set_attr_out_pb: "out_pb pb \<Longrightarrow> \<exists>pb'. packetbuf_set_attr PACKETBUF_ATTR_MAX_MAC_TRANSMISSIONS v pb = Some pb' \<and> out_pb pb'"
  by (simp add: out_pb_def packetbuf_set_attr_def PACKETBUF_ATTR_MAX_MAC_TRANSMISSIONS_def PACKETBUF_NUM_ATTRS_def PACKETBUF_ATTR_MAX_def PACKETBUF_NUM_ADDRS_def)

lemma whole_frame_ok:
  assumes mac: "mac_ok llsec_send" and dest: "length dest = LINKADDR_SIZE"
    and pb: "out_pb pb" "area pb = H @ rest" and q: "q_inv (qbufs s)" and n: "length H + length d \<le> 128"
    and buf: "write_bytes (length H) d (H @ rest) = Some buf" and len: "len = of_nat (length H + length d)"
  shows "\<exists>f s'. send_packet llsec_send dest (s\<lparr>pktbuf := packetbuf_set_datalen len (set_from_ptr 48 buf pb)\<rparr>) = Some (f, s') \<and>
    carries dest f (H @ d)"
proof -
  define pb1 where "pb1 = packetbuf_set_datalen len (set_from_ptr 48 buf pb)"
  have la: "length (H @ rest) = 128" using length_area [OF pb(1)] pb(2) by simp
  have b: "buf = H @ d @ drop (length d) rest" using buf la by (simp add: write_bytes_def split: if_splits)
  have o1: "out_pb pb1" unfolding pb1_def out_pb_datalen by (rule out_pb_set [OF pb(1)]) (use b la n in simp)
  have a1: "area pb1 = buf" unfolding pb1_def out_pb_datalen by (rule area_set [OF pb(1)])
  have l1: "unat (buflen pb1) = length H + length d"
    using n unat_u16 [of "length H + length d"] by (simp add: pb1_def packetbuf_set_datalen_def len)
  obtain f where f: "packetbuf_set_addr PACKETBUF_ADDR_RECEIVER dest pb1 = Some f" "out_pb f" "area f = area pb1" "buflen f = buflen pb1"
    "packetbuf_addr PACKETBUF_ADDR_RECEIVER f = Some dest" using set_receiver [OF o1 dest] by blast
  have pf: "pb_ok f" "pkt f = ([], 0, H @ d)" using out_pb_pkt [OF f(2)] l1 n by (simp_all add: f(3,4) a1 b)
  obtain pb3 where m: "llsec_send f (qbufs s) = (pb3, qbufs s, Some MAC_TX_OK)" using mac pf(1) q by (auto simp: mac_ok_def)
  show ?thesis
    using f(1,5) m pf(2) by (simp add: send_packet_def pb1_def [symmetric] carries_def)
qed

lemma sicslowpan_output_ok:
  assumes mac: "mac_ok llsec_send" and dest: "length dest = LINKADDR_SIZE"
    and pb: "sender_pb (pktbuf s)" and q: "q_ok (qbufs s)" "int (length ip div 120) + 2 \<le> queuebuf_numfree (qbufs s)"
    and s: "uip_len s = of_nat (length ip)" "take (length ip) (uip_buf s) = ip" and ip: "length ip < 2048" "u \<le> length ip" "40 \<le> length ip"
    and hdr: "datagram_header (addr_contexts s) (uip_lladdr s) dest (length ip) (uip_buf s) = (H, u)"
    and M: "52 \<le> M" "M \<le> 125" "\<And>pb. MAC_MAX_PAYLOAD - (if framer_length pb < 0 then 21 else framer_length pb) - overhead = int M"
  shows "\<exists>fs s'. sicslowpan_output llsec_send framer_length overhead (Some dest) s = Some (1, fs, s') \<and>
    list_all2 (carries dest) fs (datagram_frames (my_tag s) H u M ip)"
proof -
  have lb: "length ip \<le> length (uip_buf s)" using s(2) by (metis length_take min.cobounded1)
  have ul: "uint (uip_len s) = int (length ip)" "unat (uip_len s) = length ip" using s(1) ip(1) by (simp_all add: uint_nat unat_u16)
  define pb0 where "pb0 = packetbuf_clear (pktbuf s)"
  have c0: "out_pb pb0" "packetbuf_dataptr pb0 = 48" using clear_out_pb [OF pb] by (simp_all add: pb0_def)
  obtain pb1 where c1: "packetbuf_set_attr PACKETBUF_ATTR_MAX_MAC_TRANSMISSIONS SICSLOWPAN_MAX_MAC_TRANSMISSIONS pb0 = Some pb1" "out_pb pb1"
    using set_attr_out_pb [OF c0(1)] by blast
  obtain rest where c: "(if COMPRESSION_THRESHOLD \<le> length ip then compress_hdr_hc06 (addr_contexts s) (uip_lladdr s) dest (uip_buf s) (area pb1)
      else compress_hdr_ipv6 (uip_buf s) (area pb1)) = Some (H @ rest, of_nat (length H), of_nat u)" "length (H @ rest) = 128"
    and H: "length H \<le> 48" "u = 40 \<or> u = 48"
    using compress_header [OF hdr _ length_area [OF c1(2)]] lb ip(3) by auto
  obtain pb2 where c2: "packetbuf_set_addr PACKETBUF_ADDR_RECEIVER dest (set_from_ptr 48 (H @ rest) pb1) = Some pb2" "out_pb pb2" "area pb2 = H @ rest"
    using set_receiver [OF out_pb_set [OF c1(2) c(2)] dest] area_set [OF c1(2)] by auto
  have wd: "uint (of_nat (length H) :: u8) = int (length H)" "unat (of_nat (length H) :: u8) = length H"
    "uint (of_nat u :: u8) = int u" "unat (of_nat u :: u8) = u"
    using H of_nat_u8 [of "length H"] of_nat_u8 [of u] by auto
  define s1 where "s1 = s\<lparr>pktbuf := pb2\<rparr>"
  have c3: "out_pb (pktbuf s1)" "area (pktbuf s1) = H @ rest" and q3: "q_ok (qbufs s1)" "int (length ip div 120) + 2 \<le> queuebuf_numfree (qbufs s1)"
    and s3: "uip_len s1 = of_nat (length ip)" "take (length ip) (uip_buf s1) = ip" and um: "u mod 8 = 0" "u \<le> 48"
    using c2 q s H by (auto simp: s1_def)
  have out: "sicslowpan_output llsec_send framer_length overhead (Some dest) s =
    (if int (length ip) - int u > int M - int (length H) then output_fragments llsec_send 48 dest (int M) (of_nat (length H)) (of_nat u) s1
     else if uip_len s < ucast (of_nat u :: u8) then None
     else Option.bind (read_bytes u (length ip - u) (uip_buf s)) (\<lambda>bs. Option.bind (write_bytes (length H) bs (H @ rest)) (\<lambda>buf.
       Option.bind (send_packet llsec_send dest (s1\<lparr>pktbuf := packetbuf_set_datalen (uip_len s - ucast (of_nat u :: u8) + ucast (of_nat (length H) :: u8)) (set_from_ptr 48 buf pb2)\<rparr>))
         (\<lambda>(frame, s). Some (1, [frame], s)))))"
    unfolding sicslowpan_output_def Let_def pb0_def [symmetric] c0(2) c1(1) Option.bind.simps option.case area_def [symmetric] ul c(1) prod.case c2(1) wd M(3)
    by (simp add: s1_def ul c2(3))
  show ?thesis
  proof (cases "M < length H + (length ip - u)")
    case True
    then have big: "int (length ip) - int u > int M - int (length H)" using ip(2) by simp
    obtain fs s' where "output_fragments llsec_send 48 dest (int M) (of_nat (length H)) (of_nat u) s1 = Some (1, fs, s')"
      "list_all2 (carries dest) fs (datagram_frames (my_tag s1) H u M ip)"
      using output_fragments_ok [OF mac dest ip(1) c3(1,2) q3 s3 um H(1) M(1,2) True] by blast
    then show ?thesis using out big by (auto simp: s1_def)
  next
    case False
    define d where "d = drop u ip"
    have small: "\<not> int (length ip) - int u > int M - int (length H)" using False ip(2) by linarith
    have r: "read_bytes u (length ip - u) (uip_buf s) = Some d"
    proof -
      have "d = drop u (take (length ip) (uip_buf s))" using s(2) by (simp add: d_def)
      then show ?thesis using ip(2) lb by (simp add: read_bytes_def drop_take)
    qed
    have fit: "length H + length d \<le> 128" using False M(2) by (simp add: d_def)
    obtain buf where w: "write_bytes (length H) d (H @ rest) = Some buf" using fit c(2) by (simp add: write_bytes_def)
    have len: "uip_len s - ucast (of_nat u :: u8) + ucast (of_nat (length H) :: u8) = of_nat (length H + length d)"
    proof -
      have "ucast w = (of_nat (unat w) :: u16)" for w :: u8 by simp
      from this [of "of_nat u"] this [of "of_nat (length H)"]
      have "ucast (of_nat u :: u8) = (of_nat u :: u16)" "ucast (of_nat (length H) :: u8) = (of_nat (length H) :: u16)" unfolding wd .
      then show ?thesis using ip(2) s(1) by (simp add: d_def of_nat_diff)
    qed
    have le: "\<not> uip_len s < ucast (of_nat u :: u8)"
    proof -
      have "unat (ucast (of_nat u :: u8) :: u16) = u" using wd(4) H(2) by auto
      then show ?thesis using ul(2) ip(2) by (simp add: word_less_nat_alt)
    qed
    obtain f s' where "send_packet llsec_send dest (s1\<lparr>pktbuf := packetbuf_set_datalen (of_nat (length H + length d)) (set_from_ptr 48 buf pb2)\<rparr>) = Some (f, s')"
      "carries dest f (H @ d)"
      using whole_frame_ok [OF mac dest c2(2,3) _ fit w refl, of s1] q by (auto simp: s1_def q_ok_def)
    then have "sicslowpan_output llsec_send framer_length overhead (Some dest) s = Some (1, [f], s')" "carries dest f (H @ d)"
      using out r w le len small by simp_all
    moreover have "datagram_frames (my_tag s) H u M ip = [H @ d]" using False by (simp add: datagram_frames_def d_def Let_def)
    ultimately show ?thesis by auto
  qed
qed

end
