(* ===== verification/SicslowpanRoundtrip.thy ===== *)
theory SicslowpanRoundtrip
  imports SicslowpanOutput
begin

text \<open>
  Datagrams across one hop: what \<open>output\<close> sends, as one frame or in fragments,
  \<open>input\<close> of the neighbour delivers to its IP layer.
\<close>

section \<open>The header of a received frame\<close>

lemma fields_take:
  assumes "40 \<le> len"
  shows "ip_vtc (take len b) = ip_vtc b" "ip_proto (take len b) = ip_proto b" "take 2 (drop 4 (take len b)) = take 2 (drop 4 b)"
    "ip_srcipaddr (take len b) = ip_srcipaddr b" "ip_destipaddr (take len b) = ip_destipaddr b"
  using assms by (simp_all add: ip_vtc_def ip_proto_def ip_srcipaddr_def ip_destipaddr_def drop_take)

lemma dispatch_header:
  assumes hdr: "datagram_header (addr_contexts s) ll rl len b = (H, u)" and ip: "ipv6_packet (take len b)" "len \<le> length b"
    and addrs: "length ll = 8" "length rl = 8" "contexts_ok (addr_contexts s)" "src_compressible (addr_contexts s) (take len b)"
    and f: "frag_hdr_len f = of_nat (length pre)" "length pre = 0 \<or> length pre = 4"
      "if pre = [] then frag_size f = 0 \<and> unat (packetbuf_datalen (pktbuf s)) = length H + (len - u) else frag_size f = of_nat len"
    and sb: "48 \<le> length (sicslowpan_buf s)"
  shows "process_dispatch ll rl f (pre @ H @ rest) s =
    Some (Some (take u b @ drop u (sicslowpan_buf s), of_nat (length pre + length H), of_nat u)) \<and> u \<le> len"
proof -
  let ?cs = "addr_contexts s" and ?sb = "sicslowpan_buf s" and ?dl = "packetbuf_datalen (pktbuf s)"
  have len: "40 \<le> len" "length (take len b) = len" "len < 2 ^ 16" using ip by (simp_all add: ipv6_packet_def)
  have ul: "unat (frag_hdr_len f) = length pre" "frag_hdr_len f \<noteq> of_nat SICSLOWPAN_FRAGN_HDR_LEN"
    using f(1,2) by (auto simp: SICSLOWPAN_FRAGN_HDR_LEN_def)
  show ?thesis
  proof (cases "COMPRESSION_THRESHOLD \<le> len")
    case True
    then have H: "H = hc06_header ?cs ll rl b" and u: "u = (if ip_proto b = UIP_PROTO_UDP then 48 else 40)"
      using hdr by (simp_all add: datagram_header_def)
    define plen where "plen = (of_nat (len - 40) :: u16)"
    have pl: "uint plen = int len - 40" using ipv6_packet_plen [OF ip(1)] len(2) by (simp add: plen_def)
    have p: "ip_vtc b AND 0xF0 = 0x60" "take 2 (drop 4 b) = be16 plen" "ip_proto b = UIP_PROTO_UDP \<Longrightarrow> 48 \<le> len \<and> take 2 (drop 44 (take len b)) = be16 plen"
      using ip(1) len(2) fields_take [OF len(1), of b] by (auto simp: ipv6_packet_def plen_def)
    have p44: "ip_proto b = UIP_PROTO_UDP \<Longrightarrow> take 2 (drop 44 b) = be16 plen" using p(3) by (auto simp: drop_take min_def split: if_splits)
    have ulen: "(if ip_proto b = UIP_PROTO_UDP then 48 else 40) \<le> length b" "u \<le> len" using p(3) len(1) ip(2) u by auto
    have sc: "src_compressible ?cs b" using addrs(4) fields_take [OF len(1), of b] by (simp add: src_compressible_def)
    have lh: "length H \<le> 48" using length_hc06_header [of b ?cs ll rl] len(1) ip(2) H by simp
    have fl: "(if frag_size f = 0 then uint ?dl - int (length pre + length (hc06_header ?cs ll rl b)) + int (if ip_proto b = UIP_PROTO_UDP then 48 else 40) - 40
        else uint (frag_size f) - 40) = uint plen"
    proof (cases "pre = []")
      case True
      then have "uint ?dl = int (length H + (len - u))" using f(3) by (simp add: uint_nat)
      then show ?thesis using True f(3) ulen(2) pl u H by (simp add: of_nat_diff)
    next
      case False
      then have "uint (frag_size f) = int len" using f(3) len(3) unat_u16 [of len] by (simp add: uint_nat)
      then show ?thesis using pl len(1) by auto
    qed
    have "uncompress_hdr_hc06 ?cs ll rl (frag_size f) ?dl (pre @ H @ rest) (of_nat (length pre)) 0 ?sb =
        Some (take u b @ drop u ?sb, of_nat (length pre + length H), of_nat u)"
      unfolding H u using f(2) by (intro hc06_roundtrip [OF ulen(1) p(1,2) p44 addrs(1-3) sc refl _ fl sb]) auto
    moreover obtain tf tfb nh nhb ttl ttlb where "compress_tf b = (tf, tfb)" "compress_nh b = (nh, nhb)" "compress_ttl b = (ttl, ttlb)"
      by (metis prod.collapse)
    then have "\<exists>h H'. H = h # H' \<and> h AND 0xe0 = 0x60" using iphc0_flags(5) by (auto simp: H hc06_header_def)
    ultimately show ?thesis
      using ul f(1) ulen(2) by (auto simp: process_dispatch_def SICSLOWPAN_DISPATCH_IPHC_def)
  next
    case False
    then have H: "H = 0x41 # take 40 b" "u = 40" using hdr by (simp_all add: datagram_header_def)
    have lb: "length (take 40 b) = 40" using len(1) ip(2) by simp
    have g: "get (pre @ H @ rest) (length pre) = Some 0x41" by (simp add: H)
    have l1: "unat (of_nat (length pre) + of_nat SICSLOWPAN_IPV6_HDR_LEN :: u8) = length (pre @ [0x41])"
      using f(2) by (auto simp: SICSLOWPAN_IPV6_HDR_LEN_def)
    have r: "read_bytes (length (pre @ [0x41])) UIP_IPH_LEN (pre @ H @ rest) = Some (take 40 b)"
      using read_bytes_append [of UIP_IPH_LEN "take 40 b" "pre @ [0x41]" rest] lb by (simp add: H UIP_IPH_LEN_def)
    have w: "write_bytes 0 (take 40 b) ?sb = Some (take 40 b @ drop 40 ?sb)" using sb lb by (simp add: write_bytes_def)
    have "process_dispatch ll rl f (pre @ H @ rest) s = Some (Some (take 40 b @ drop 40 ?sb, of_nat (length pre) + of_nat SICSLOWPAN_IPV6_HDR_LEN + of_nat UIP_IPH_LEN, of_nat UIP_IPH_LEN))"
      using ul(2) unfolding process_dispatch_def f(1) ul(1) [unfolded f(1)] Let_def g Option.bind.simps l1 r w
      by (simp add: SICSLOWPAN_DISPATCH_IPV6_def SICSLOWPAN_DISPATCH_IPHC_def)
    then show ?thesis using lb len(1) by (simp add: H SICSLOWPAN_IPV6_HDR_LEN_def UIP_IPH_LEN_def)
  qed
qed

section \<open>Frames on arrival\<close>

text \<open>A packet buffer that holds a received frame with data \<open>d\<close>, whatever headers have been stripped from it.\<close>

definition arrives :: "linkaddr \<Rightarrow> linkaddr \<Rightarrow> u8 list \<Rightarrow> packetbuf \<Rightarrow> bool" where
  "arrives src dest d pb \<longleftrightarrow> pb_ok pb \<and> snd (snd (pkt pb)) = d \<and>
     packetbuf_addr PACKETBUF_ADDR_SENDER pb = Some src \<and> packetbuf_addr PACKETBUF_ADDR_RECEIVER pb = Some dest"

lemma arrivesE:
  assumes "arrives src dest d pb"
  obtains post rssi where "from_ptr (packetbuf_dataptr pb) pb = d @ post" "unat (packetbuf_datalen pb) = length d" "length d \<le> 128"
    "packetbuf_attr PACKETBUF_ATTR_RSSI pb = Some rssi" "packetbuf_addr PACKETBUF_ADDR_SENDER pb = Some src" "packetbuf_addr PACKETBUF_ADDR_RECEIVER pb = Some dest"
proof -
  obtain h c where p: "pb_ok pb" "pkt pb = (h, c, d)" using assms by (cases "pkt pb") (auto simp: arrives_def)
  obtain pre gap post where e: "packetbuf_bytes pb = pre @ h @ gap @ d @ post" "length pre + length h = 48" "length gap = c"
    "unat (bufptr pb) = c" "unat (buflen pb) = length d" "c + length d + length post = 128" by (rule pktE [OF p]) blast
  have "packetbuf_dataptr pb = length (pre @ h @ gap)" using e(2,3,4) by (simp add: packetbuf_dataptr_def PACKETBUF_HDR_SIZE_def)
  then have "from_ptr (packetbuf_dataptr pb) pb = d @ post" unfolding from_ptr_def e(1) by simp
  moreover have "\<exists>rssi. packetbuf_attr PACKETBUF_ATTR_RSSI pb = Some rssi"
    using p(1) by (simp add: pb_ok_def packetbuf_attr_def PACKETBUF_ATTR_RSSI_def PACKETBUF_NUM_ATTRS_def PACKETBUF_ATTR_MAX_def PACKETBUF_NUM_ADDRS_def)
  ultimately show ?thesis using that e(5,6) assms by (auto simp: arrives_def packetbuf_datalen_def)
qed

lemma GET16_be16: "GET16 (be16 w @ rest) 0 = Some w" "GET16 (be16 v @ be16 w @ rest) 2 = Some w"
  by (simp_all add: GET16_def be16_def of_be16_be16)

lemma dispatch_bits:
  assumes "len < 2048"
  shows "(0xc000 OR of_nat len) AND 0x07ff = (of_nat len :: u16)" "drop_bit 8 ((0xc000 OR of_nat len) AND 0xf800) = (0xc0 :: u16)"
    "(0xe000 OR of_nat len) AND 0x07ff = (of_nat len :: u16)" "drop_bit 8 ((0xe000 OR of_nat len) AND 0xf800) = (0xe0 :: u16)"
proof -
  let ?w = "of_nat len :: u16"
  have "unat ?w = len" using assms by (simp add: unat_of_nat)
  then have "take_bit 11 ?w = ?w" using assms by (simp add: word_unat_eq_iff unsigned_take_bit_eq take_bit_nat_eq_self)
  then have w: "?w AND 0x07ff = ?w" by (simp add: take_bit_eq_mask mask_eq_exp_minus_1)
  have "?w AND 0xf800 = (?w AND 0x07ff) AND 0xf800" by (simp only: w)
  then have z: "?w AND 0xf800 = 0" by (simp add: and.assoc)
  show "(0xc000 OR ?w) AND 0x07ff = ?w" "drop_bit 8 ((0xc000 OR ?w) AND 0xf800) = 0xc0"
    "(0xe000 OR ?w) AND 0x07ff = ?w" "drop_bit 8 ((0xe000 OR ?w) AND 0xf800) = 0xe0"
    by (simp_all add: bit.conj_disj_distrib2 w z)
qed

lemma uint_u16: "n < 65536 \<Longrightarrow> uint (of_nat n :: u16) = int n"
  using unat_u16 [of n] by (simp only: uint_nat)

lemma u16_inj: "m < 65536 \<Longrightarrow> n < 65536 \<Longrightarrow> (of_nat m :: u16) = of_nat n \<longleftrightarrow> m = n"
  using unat_u16 [of m] unat_u16 [of n] by metis

lemma parse_frag1:
  assumes "len < 2048"
  shows "parse_fragment (be16 (0xc000 OR of_nat len) @ be16 tag @ rest) s = Some (no_fragment\<lparr>frag_size := of_nat len, frag_tag := tag,
    frag_hdr_len := of_nat SICSLOWPAN_FRAG1_HDR_LEN, is_fragment := True, first_fragment := True\<rparr>)"
  unfolding parse_fragment_def GET16_be16 Option.bind.simps Let_def dispatch_bits [OF assms] SICSLOWPAN_DISPATCH_FRAG1_def by simp

lemma parse_fragn:
  assumes "len < 2048"
  shows "parse_fragment (fragn_header tag len k @ rest) s = Some (no_fragment\<lparr>frag_size := of_nat len, frag_tag := tag, frag_offset := of_nat (k div 8),
    frag_hdr_len := of_nat SICSLOWPAN_FRAGN_HDR_LEN, is_fragment := True,
    last_fragment := uint (processed_ip_in_len s) + uint (packetbuf_datalen (pktbuf s)) - int SICSLOWPAN_FRAGN_HDR_LEN \<ge> int len\<rparr>)"
proof -
  have "get (be16 w @ be16 tag @ of_nat (k div 8) # rest) 4 = Some (of_nat (k div 8))" for w by (simp add: be16_def)
  then show ?thesis
    using assms uint_u16 [of len]
    unfolding parse_fragment_def fragn_header_def append_assoc append_Cons append_Nil GET16_be16 Option.bind.simps Let_def dispatch_bits [OF assms]
      SICSLOWPAN_DISPATCH_FRAG1_def SICSLOWPAN_DISPATCH_FRAGN_def by simp
qed

lemma ucast_u8_inj:
  assumes "ucast x = (ucast y :: u16)"
  shows "x = (y :: u8)"
proof (rule bit_word_eqI)
  fix n assume "n < LENGTH(8)"
  moreover have "bit (ucast x :: u16) n = bit (ucast y :: u16) n" using assms by simp
  ultimately show "bit x n = bit y n" by (simp add: bit_ops)
qed

lemma dispatch_byte: "drop_bit 8 (of_be16 h h' AND 0xf800) = ucast (h AND 0xf8)"
proof -
  have "drop_bit 8 (of_be16 h h') = ucast h" by (rule bit_word_eqI) (auto simp: of_be16_def bit_ops dest: bit_u8_less)
  moreover have "(ucast (h AND 0xf8) :: u16) = ucast h AND ucast (0xf8 :: u8)" by (rule bit_word_eqI) (auto simp: bit_ops dest: bit_u8_less)
  ultimately show ?thesis by simp
qed

lemma parse_whole:
  assumes "h AND 0xe0 = 0x60 \<or> h = 0x41"
  shows "parse_fragment (h # h' # rest) s = Some no_fragment"
proof -
  have "h AND 0xf8 \<noteq> 0xc0 \<and> h AND 0xf8 \<noteq> 0xe0"
  proof (rule ccontr)
    assume "\<not> ?thesis"
    then have "(h AND 0xf8) AND 0xe0 = 0xc0 \<or> (h AND 0xf8) AND 0xe0 = 0xe0" by auto
    then show False using assms by (auto simp: and.assoc)
  qed
  then have "ucast (h AND 0xf8) \<noteq> (ucast SICSLOWPAN_DISPATCH_FRAG1 :: u16)" "ucast (h AND 0xf8) \<noteq> (ucast SICSLOWPAN_DISPATCH_FRAGN :: u16)"
    unfolding SICSLOWPAN_DISPATCH_FRAG1_def SICSLOWPAN_DISPATCH_FRAGN_def using ucast_u8_inj by metis+
  moreover have "GET16 (h # h' # rest) 0 = Some (of_be16 h h')" by (simp add: GET16_def)
  ultimately show ?thesis
    unfolding parse_fragment_def by (simp only: Option.bind.simps Let_def dispatch_byte if_False)
qed

section \<open>Reassembly\<close>

definition rcv_ok :: "sicslowpan \<Rightarrow> bool" where
  "rcv_ok s \<longleftrightarrow> length (sicslowpan_buf s) = UIP_BUFSIZE \<and> length (uip_buf s) = UIP_BUFSIZE"

text \<open>The first \<open>k\<close> bytes of the packet \<open>ip\<close> from \<open>src\<close>, whose first fragment arrived at \<open>t0\<close>, are in place.\<close>

definition reassembling :: "u16 \<Rightarrow> linkaddr \<Rightarrow> u32 \<Rightarrow> u8 list \<Rightarrow> nat \<Rightarrow> sicslowpan \<Rightarrow> bool" where
  "reassembling tag src t0 ip k s \<longleftrightarrow> rcv_ok s \<and> 0 < k \<and> k < length ip \<and>
     processed_ip_in_len s = of_nat k \<and> sicslowpan_len s = of_nat (length ip) \<and> reass_tag s = tag \<and> linkaddr_cmp (frag_sender s) src \<and>
     t_start (reass_timer s) = t0 \<and> t_interval (reass_timer s) = SICSLOWPAN_REASS_MAXAGE * CLOCK_SECOND \<and>
     take k (sicslowpan_buf s) = take k ip"

lemma not_expired:
  assumes "unat (now - t_start t) < 1024" and "t_interval t = SICSLOWPAN_REASS_MAXAGE * CLOCK_SECOND"
  shows "\<not> timer_expired now t"
  using assms by (simp add: timer_expired_elapsed SICSLOWPAN_REASS_MAXAGE_def CLOCK_SECOND_def word_le_nat_alt)

text \<open>The payload behind a header of \<open>h\<close> bytes goes to its place in the packet.\<close>

lemma copy_payload_writes:
  assumes "unat (packetbuf_datalen (pktbuf s)) = h + length d" and "unat hdr_len = h" and "buf = hdr @ d @ post" and "length hdr = h"
    and "off = unat uncomp + 8 * unat (frag_offset f)" and "off + length d \<le> UIP_BUFSIZE" and "length (sicslowpan_buf s) = UIP_BUFSIZE"
  shows "copy_payload f buf hdr_len uncomp s = (let
      s = s\<lparr>sicslowpan_buf := take off (sicslowpan_buf s) @ d @ drop (off + length d) (sicslowpan_buf s)\<rparr>;
      s = (if frag_size f > 0 then
         let n = (if first_fragment f then processed_ip_in_len s + ucast uncomp else processed_ip_in_len s) in
         s\<lparr>processed_ip_in_len := (if last_fragment f then frag_size f else n + of_nat (length d))\<rparr>
       else s\<lparr>sicslowpan_len := of_nat (length d) + ucast uncomp\<rparr>) in deliver s)"
proof -
  have l: "\<not> packetbuf_datalen (pktbuf s) < ucast hdr_len"
  proof -
    have "ucast hdr_len = (of_nat (unat hdr_len) :: u16)" by simp
    moreover have "h < 65536" using assms(2) unat_u8 [of hdr_len] by simp
    ultimately have "unat (ucast hdr_len :: u16) = h" using unat_u16 [of h] unfolding assms(2) by metis
    then show ?thesis using assms(1) by (simp add: word_less_nat_alt)
  qed
  have r: "read_bytes h (length d) buf = Some d" using assms(3,4) read_bytes_append [of "length d" d hdr post] by simp
  have w: "write_bytes off d (sicslowpan_buf s) = Some (take off (sicslowpan_buf s) @ d @ drop (off + length d) (sicslowpan_buf s))"
    using assms(6,7) by (simp add: write_bytes_def)
  have p: "unat (packetbuf_datalen (pktbuf s)) - h = length d" using assms(1) by simp
  show ?thesis
    unfolding copy_payload_def Let_def assms(2) p assms(5) [symmetric] r Option.bind.simps w
    using l assms(6) by simp
qed

lemma deliver_complete:
  assumes "rcv_ok s" and "sicslowpan_len s = of_nat n" and "n \<le> UIP_BUFSIZE" and "processed_ip_in_len s = 0 \<or> processed_ip_in_len s = of_nat n"
  shows "\<exists>s'. deliver s = Some (Some (take n (sicslowpan_buf s)), s')"
proof -
  have n: "unat (sicslowpan_len s) = n" using assms(2,3) unat_u16 [of n] by (simp add: UIP_BUFSIZE_def)
  have "read_bytes 0 n (sicslowpan_buf s) = Some (take n (sicslowpan_buf s))" using assms(1,3) by (simp add: rcv_ok_def read_bytes_def)
  moreover have "\<exists>ub. write_bytes 0 (take n (sicslowpan_buf s)) (uip_buf s) = Some ub" using assms(1,3) by (simp add: rcv_ok_def write_bytes_def)
  ultimately show ?thesis using assms(2,4) n by (auto simp: deliver_def)
qed

lemma input_run:
  assumes "from_ptr (packetbuf_dataptr (pktbuf s)) (pktbuf s) = buf" and "packetbuf_attr PACKETBUF_ATTR_RSSI (pktbuf s) = Some rssi"
    and "packetbuf_addr PACKETBUF_ADDR_SENDER (pktbuf s) = Some src" and "packetbuf_addr PACKETBUF_ADDR_RECEIVER (pktbuf s) = Some dest"
    and "s2 = (if timer_expired now (reass_timer s) then stop_reassembly (s\<lparr>last_rssi := sint rssi\<rparr>) else s\<lparr>last_rssi := sint rssi\<rparr>)"
    and "parse_fragment buf s2 = Some f" and "reassembly_check now src f s2 = (True, s3)"
    and "process_dispatch src dest f buf s3 = Some (Some (sb, hdr_len, uncomp))"
  shows "sicslowpan_input now s = copy_payload f buf hdr_len uncomp (s3\<lparr>sicslowpan_buf := sb\<rparr>)"
  using assms by (cases "timer_expired now (reass_timer s)") (simp_all add: sicslowpan_input_def stop_reassembly_def Let_def)

lemma input_next:
  assumes re: "reassembling tag src t0 ip k s" and ar: "arrives src dest (fragn_header tag (length ip) k @ take p (drop k ip)) pb"
    and k: "k mod 8 = 0" "0 < p" and len: "length ip \<le> UIP_BUFSIZE" and now: "unat (now - t0) < 1024"
  shows "if length ip \<le> k + p then \<exists>s'. sicslowpan_input now (s\<lparr>pktbuf := pb\<rparr>) = Some (Some ip, s')
    else \<exists>s'. sicslowpan_input now (s\<lparr>pktbuf := pb\<rparr>) = Some (None, s') \<and> reassembling tag src t0 ip (k + p) s'"
proof -
  define d where "d = take p (drop k ip)"
  define s1 where "s1 = s\<lparr>pktbuf := pb\<rparr>"
  have re': "rcv_ok s" "0 < k" "k < length ip" "processed_ip_in_len s = of_nat k" "sicslowpan_len s = of_nat (length ip)" "reass_tag s = tag"
    "linkaddr_cmp (frag_sender s) src" "t_start (reass_timer s) = t0" "t_interval (reass_timer s) = SICSLOWPAN_REASS_MAXAGE * CLOCK_SECOND"
    "take k (sicslowpan_buf s) = take k ip" using re by (simp_all add: reassembling_def)
  have b: "length ip \<le> 1280" using len by (simp add: UIP_BUFSIZE_def)
  have ld: "length d = min p (length ip - k)" by (simp add: d_def min.commute)
  have kd: "k + length d \<le> length ip" "(length ip \<le> k + length d) = (length ip \<le> k + p)" using re'(3) by (auto simp: ld min_def)
  have lh: "length (fragn_header tag (length ip) k) = 5" by (simp add: fragn_header_def)
  obtain post rssi where f: "from_ptr (packetbuf_dataptr pb) pb = fragn_header tag (length ip) k @ d @ post"
    "unat (packetbuf_datalen pb) = 5 + length d" "packetbuf_attr PACKETBUF_ATTR_RSSI pb = Some rssi"
    "packetbuf_addr PACKETBUF_ADDR_SENDER pb = Some src" "packetbuf_addr PACKETBUF_ADDR_RECEIVER pb = Some dest"
    using ar by (rule arrivesE) (auto simp: d_def lh)
  define s2 where "s2 = s1\<lparr>last_rssi := sint rssi\<rparr>"
  define fi where "fi = no_fragment\<lparr>frag_size := of_nat (length ip), frag_tag := tag, frag_offset := of_nat (k div 8),
      frag_hdr_len := of_nat SICSLOWPAN_FRAGN_HDR_LEN, is_fragment := True, last_fragment := length ip \<le> k + p\<rparr>"
  have "uint (processed_ip_in_len s2) + uint (packetbuf_datalen (pktbuf s2)) - int SICSLOWPAN_FRAGN_HDR_LEN = int (k + length d)"
  proof -
    have "uint (of_nat k :: u16) = int k" using re'(3) b by (intro uint_u16) simp
    moreover have "uint (packetbuf_datalen pb) = int (5 + length d)" using f(2) by (simp only: uint_nat)
    ultimately show ?thesis by (simp add: s2_def s1_def re'(4) SICSLOWPAN_FRAGN_HDR_LEN_def)
  qed
  then have "(uint (processed_ip_in_len s2) + uint (packetbuf_datalen (pktbuf s2)) - int SICSLOWPAN_FRAGN_HDR_LEN \<ge> int (length ip)) = (length ip \<le> k + p)"
    using kd(2) by linarith
  then have pf: "parse_fragment (fragn_header tag (length ip) k @ d @ post) s2 = Some fi"
    using parse_fragn [of "length ip" tag k "d @ post" s2] b unfolding fi_def by simp
  have np: "(0 :: u16) < of_nat k" "(0 :: u16) < of_nat (length ip)"
    using unat_u16 [of k] unat_u16 [of "length ip"] re'(2,3) b by (auto simp: word_less_nat_alt)
  have rc: "reassembly_check now src fi s2 = (True, s2)"
    using re'(4-7) np less_imp_neq [OF np(2)] by (simp add: Let_def reassembly_check_def fi_def no_fragment_def s2_def s1_def)
  have pd: "process_dispatch src dest fi buf s2 = Some (Some (sicslowpan_buf s2, of_nat SICSLOWPAN_FRAGN_HDR_LEN, 0))" for buf
    by (simp add: process_dispatch_def fi_def)
  have ex: "\<not> timer_expired now (reass_timer s)" by (rule not_expired) (use re'(8,9) now in simp_all)
  have sb: "length (sicslowpan_buf s2) = UIP_BUFSIZE" using re'(1) by (simp add: rcv_ok_def s2_def s1_def)
  define s3 where "s3 = s2\<lparr>sicslowpan_buf := take k (sicslowpan_buf s) @ d @ drop (k + length d) (sicslowpan_buf s),
      processed_ip_in_len := of_nat (k + length d)\<rparr>"
  have k8: "unat (of_nat (k div 8) :: u8) = k div 8" "8 * (k div 8) = k" using re'(3) b k(1) by (auto simp: unat_of_nat)
  have "copy_payload fi (fragn_header tag (length ip) k @ d @ post) (of_nat SICSLOWPAN_FRAGN_HDR_LEN) 0 s2 = deliver s3"
  proof -
    have dl: "unat (packetbuf_datalen (pktbuf s2)) = 5 + length d" using f(2) by (simp add: s2_def s1_def)
    have off: "k = unat (0 :: u8) + 8 * unat (frag_offset fi)" using k8 by (simp add: fi_def)
    have h5: "unat (of_nat SICSLOWPAN_FRAGN_HDR_LEN :: u8) = 5" by (simp add: SICSLOWPAN_FRAGN_HDR_LEN_def)
    have pe: "(if length ip \<le> k + p then of_nat (length ip) else of_nat k + of_nat (length d)) = (of_nat (k + length d) :: u16)"
      using kd by (cases "length ip \<le> k + p") (simp_all flip: of_nat_add)
    have fi: "frag_size fi = of_nat (length ip)" "\<not> first_fragment fi" "last_fragment fi = (length ip \<le> k + p)"
      by (simp_all add: fi_def no_fragment_def)
    have kl: "k + length d \<le> UIP_BUFSIZE" using kd(1) len by simp
    show ?thesis
      unfolding copy_payload_writes [OF dl h5 refl lh off kl sb] Let_def fi s3_def
      using np fi(2) pe by (cases "length ip \<le> k + p") (simp_all add: re'(4) s2_def s1_def)
  qed
  moreover have "s2 = (if timer_expired now (reass_timer s1) then stop_reassembly (s1\<lparr>last_rssi := sint rssi\<rparr>) else s1\<lparr>last_rssi := sint rssi\<rparr>)"
    "pktbuf s1 = pb" "s2\<lparr>sicslowpan_buf := sicslowpan_buf s2\<rparr> = s2" using ex by (simp_all add: s2_def s1_def)
  ultimately have inp: "sicslowpan_input now s1 = deliver s3"
    using input_run [of s1 _ rssi src dest s2 now fi s2 "sicslowpan_buf s2"] f pf rc pd by simp
  have t3: "take (k + length d) (sicslowpan_buf s3) = take (k + length d) ip"
  proof -
    have "take (k + length d) (sicslowpan_buf s3) = take k ip @ d" using re'(3,10) sb kd(1) len by (simp add: s3_def s2_def s1_def)
    also have "\<dots> = take (k + length d) ip" by (simp add: take_add d_def min_def)
    finally show ?thesis .
  qed
  have o3: "rcv_ok s3" "sicslowpan_len s3 = of_nat (length ip)" "processed_ip_in_len s3 = of_nat (k + length d)"
    using re'(1,5) sb kd(1) len by (simp_all add: rcv_ok_def s3_def s2_def s1_def)
  show ?thesis
  proof (cases "length ip \<le> k + p")
    case True
    then have "k + length d = length ip" using kd by simp
    then show ?thesis using True deliver_complete [OF o3(1,2) len] o3(3) t3 inp by (auto simp: s1_def)
  next
    case False
    then have "k + length d = k + p" by (simp add: ld)
    moreover have "(of_nat (k + p) :: u16) \<noteq> 0" "(of_nat (k + p) :: u16) \<noteq> of_nat (length ip)"
      using u16_inj [of "k + p" 0] u16_inj [of "k + p" "length ip"] False k(2) b by (simp_all del: of_nat_add)
    ultimately have "deliver s3 = Some (None, s3)" "reassembling tag src t0 ip (k + p) s3"
      using o3 t3 False re'(2,6-9) by (simp_all add: deliver_def reassembling_def) (simp_all add: s3_def s2_def s1_def)
    then show ?thesis using False inp by (simp add: s1_def)
  qed
qed

lemma header_length: "datagram_header cs ll rl len b = (H, u) \<Longrightarrow> 40 \<le> length b \<Longrightarrow> length H \<le> 48 \<and> (u = 40 \<or> u = 48)"
  using compress_header(2,3) [of cs ll rl len b H u "replicate 128 0"] by simp

lemma header_first:
  assumes "datagram_header cs ll rl len b = (H, u)" and "40 \<le> length b"
  shows "\<exists>h h' H'. H = h # h' # H' \<and> (h AND 0xe0 = 0x60 \<or> h = 0x41)"
proof (cases "COMPRESSION_THRESHOLD \<le> len")
  case True
  moreover obtain tf tfb nh nhb ttl ttlb where "compress_tf b = (tf, tfb)" "compress_nh b = (nh, nhb)" "compress_ttl b = (ttl, ttlb)"
    by (metis prod.collapse)
  ultimately show ?thesis using iphc0_flags(5) assms(1) by (auto simp: datagram_header_def hc06_header_def)
next
  case False
  moreover obtain x y where "b = x # y" using assms(2) by (cases b) auto
  ultimately show ?thesis using assms(1) by (auto simp: datagram_header_def eval_nat_numeral)
qed

lemma ucast_header: "u = 40 \<or> u = 48 \<Longrightarrow> ucast (of_nat u :: u8) = (of_nat u :: u16) \<and> unat (of_nat u :: u8) = u"
  by auto

text \<open>A frame that holds a whole packet is delivered at once, and ends a reassembly that is under way.\<close>

lemma input_whole:
  assumes s: "rcv_ok s" and hdr: "datagram_header (addr_contexts s) src dest (length ip) b = (H, u)" and ip: "ipv6_packet ip" "take (length ip) b = ip" "length ip \<le> UIP_BUFSIZE"
    and addrs: "length src = 8" "length dest = 8" "contexts_ok (addr_contexts s)" "src_compressible (addr_contexts s) ip"
    and ar: "arrives src dest (H @ drop u ip) pb"
  shows "\<exists>s'. sicslowpan_input now (s\<lparr>pktbuf := pb\<rparr>) = Some (Some ip, s')"
proof -
  define d where "d = drop u ip"
  have lb: "length ip \<le> length b" using ip(2) by (metis length_take min.cobounded1)
  have l40: "40 \<le> length ip" using ip(1) by (simp add: ipv6_packet_def)
  have H: "length H \<le> 48" "u = 40 \<or> u = 48" using header_length [OF hdr] lb l40 by auto
  have b: "length ip \<le> 1280" using ip(3) by (simp add: UIP_BUFSIZE_def)
  define s1 where "s1 = s\<lparr>pktbuf := pb\<rparr>"
  obtain post rssi where f: "from_ptr (packetbuf_dataptr pb) pb = H @ d @ post" "unat (packetbuf_datalen pb) = length H + length d"
    "packetbuf_attr PACKETBUF_ATTR_RSSI pb = Some rssi" "packetbuf_addr PACKETBUF_ADDR_SENDER pb = Some src" "packetbuf_addr PACKETBUF_ADDR_RECEIVER pb = Some dest"
    using ar by (rule arrivesE) (auto simp: d_def)
  define s2 where "s2 = (if timer_expired now (reass_timer s1) then stop_reassembly (s1\<lparr>last_rssi := sint rssi\<rparr>) else s1\<lparr>last_rssi := sint rssi\<rparr>)"
  define s3 where "s3 = stop_reassembly s2"
  have s3: "addr_contexts s3 = addr_contexts s" "pktbuf s3 = pb" "sicslowpan_buf s3 = sicslowpan_buf s" "uip_buf s3 = uip_buf s" "processed_ip_in_len s3 = 0"
    by (simp_all add: s3_def s2_def s1_def stop_reassembly_def)
  have pf: "parse_fragment (H @ d @ post) s2 = Some no_fragment"
    using header_first [OF hdr] lb l40 parse_whole by fastforce
  have rc: "reassembly_check now src no_fragment s2 = (True, s3)"
    by (simp add: reassembly_check_def no_fragment_def s3_def stop_reassembly_def Let_def)
  have pd: "process_dispatch src dest no_fragment ([] @ H @ d @ post) s3 =
      Some (Some (take u b @ drop u (sicslowpan_buf s3), of_nat (length ([] :: u8 list) + length H), of_nat u)) \<and> u \<le> length ip"
    using addrs ip(1,2) lb hdr f(2) s UIP_BUFSIZE_def
    by (intro dispatch_header) (simp_all add: s3 no_fragment_def d_def rcv_ok_def)
  then have ul: "u \<le> length ip" by simp
  have tu: "take u b = take u ip" using ul ip(2) by (metis min.absorb1 take_take)
  have sb: "length (sicslowpan_buf s) = UIP_BUFSIZE" using s by (simp add: rcv_ok_def)
  define s4 where "s4 = s3\<lparr>sicslowpan_buf := take u ip @ drop u (sicslowpan_buf s)\<rparr>"
  have l4: "length (sicslowpan_buf s4) = UIP_BUFSIZE" using ul sb ip(3) by (simp add: s4_def)
  have inp: "sicslowpan_input now s1 = copy_payload no_fragment (H @ d @ post) (of_nat (length H)) (of_nat u) s4"
    using input_run [of s1 "H @ d @ post" rssi src dest s2 now no_fragment s3] f pf rc pd tu by (simp add: s2_def s1_def s4_def s3)
  define s5 where "s5 = s4\<lparr>sicslowpan_buf := take u (sicslowpan_buf s4) @ d @ drop (u + length d) (sicslowpan_buf s4), sicslowpan_len := of_nat (length ip)\<rparr>"
  have "copy_payload no_fragment (H @ d @ post) (of_nat (length H)) (of_nat u) s4 = deliver s5"
  proof -
    have dl: "unat (packetbuf_datalen (pktbuf s4)) = length H + length d" using f(2) by (simp add: s4_def s3)
    have hl: "unat (of_nat (length H) :: u8) = length H" using H(1) by (simp add: of_nat_u8)
    have off: "u = unat (of_nat u :: u8) + 8 * unat (frag_offset no_fragment)" using ucast_header [OF H(2)] by (simp add: no_fragment_def)
    have fit: "u + length d \<le> UIP_BUFSIZE" using ul ip(3) by (simp add: d_def)
    have "of_nat (length d) + ucast (of_nat u :: u8) = (of_nat (length ip) :: u16)" using ul ucast_header [OF H(2)] by (simp add: d_def of_nat_diff)
    then show ?thesis
      unfolding copy_payload_writes [OF dl hl refl refl off fit l4] Let_def by (simp add: no_fragment_def s5_def)
  qed
  moreover have "take (length ip) (sicslowpan_buf s5) = ip"
  proof -
    have "take u (sicslowpan_buf s4) = take u ip" using ul by (simp add: s4_def)
    then have "sicslowpan_buf s5 = ip @ drop (u + length d) (sicslowpan_buf s4)" by (simp add: s5_def d_def)
    then show ?thesis by simp
  qed
  moreover have "\<exists>s'. deliver s5 = Some (Some (take (length ip) (sicslowpan_buf s5)), s')"
    by (rule deliver_complete) (use s l4 ul ip(3) in \<open>simp_all add: rcv_ok_def s5_def s4_def s3 d_def\<close>)
  ultimately show ?thesis using inp by (simp add: s1_def)
qed

text \<open>The first fragment starts the reassembly, unless one of another packet from the same node is under way.\<close>

lemma input_frag1:
  assumes s: "rcv_ok s" and hdr: "datagram_header (addr_contexts s) src dest (length ip) b = (H, u)" and ip: "ipv6_packet ip" "take (length ip) b = ip" "length ip \<le> UIP_BUFSIZE"
    and addrs: "length src = 8" "length dest = 8" "contexts_ok (addr_contexts s)" "src_compressible (addr_contexts s) ip"
    and idle: "processed_ip_in_len s = 0 \<or> \<not> linkaddr_cmp (frag_sender s) src" and n: "u + n < length ip"
    and ar: "arrives src dest (be16 (0xc000 OR of_nat (length ip)) @ be16 tag @ H @ take n (drop u ip)) pb"
  shows "\<exists>s'. sicslowpan_input now (s\<lparr>pktbuf := pb\<rparr>) = Some (None, s') \<and> reassembling tag src now ip (u + n) s'"
proof -
  define d where "d = take n (drop u ip)"
  define pre where "pre = be16 (0xc000 OR of_nat (length ip)) @ be16 tag"
  have lb: "length ip \<le> length b" using ip(2) by (metis length_take min.cobounded1)
  have l40: "40 \<le> length ip" using ip(1) by (simp add: ipv6_packet_def)
  have H: "length H \<le> 48" "u = 40 \<or> u = 48" using header_length [OF hdr] lb l40 by auto
  have b: "length ip \<le> 1280" using ip(3) by (simp add: UIP_BUFSIZE_def)
  have ld: "length d = n" using n by (simp add: d_def)
  have lp: "length pre = 4" by (simp add: pre_def)
  define s1 where "s1 = s\<lparr>pktbuf := pb\<rparr>"
  obtain post rssi where f: "from_ptr (packetbuf_dataptr pb) pb = pre @ H @ d @ post" "unat (packetbuf_datalen pb) = length (pre @ H) + length d"
    "packetbuf_attr PACKETBUF_ATTR_RSSI pb = Some rssi" "packetbuf_addr PACKETBUF_ADDR_SENDER pb = Some src" "packetbuf_addr PACKETBUF_ADDR_RECEIVER pb = Some dest"
    using ar by (rule arrivesE) (auto simp: d_def pre_def)
  define s2 where "s2 = (if timer_expired now (reass_timer s1) then stop_reassembly (s1\<lparr>last_rssi := sint rssi\<rparr>) else s1\<lparr>last_rssi := sint rssi\<rparr>)"
  define fi where "fi = no_fragment\<lparr>frag_size := of_nat (length ip), frag_tag := tag,
    frag_hdr_len := of_nat SICSLOWPAN_FRAG1_HDR_LEN, is_fragment := True, first_fragment := True\<rparr>"
  have pf: "parse_fragment (pre @ H @ d @ post) s2 = Some fi" using parse_frag1 [of "length ip" tag "H @ d @ post" s2] b by (simp add: pre_def fi_def)
  have np: "(of_nat (length ip) :: u16) \<noteq> 0" "unat (of_nat (length ip) :: u16) = length ip"
    using u16_inj [of "length ip" 0] unat_u16 [of "length ip"] l40 b by auto
  have cs: "linkaddr_cmp (linkaddr_copy x src) src" for x using addrs(1) by (simp add: linkaddr_cmp_def linkaddr_copy_def LINKADDR_SIZE_def)
  define s0 where "s0 = (if processed_ip_in_len s2 > 0 \<and> \<not> linkaddr_cmp (frag_sender s2) src then stop_reassembly s2 else s2)"
  have p0: "processed_ip_in_len s0 = 0" using idle by (auto simp: s0_def s2_def s1_def stop_reassembly_def word_gt_0)
  define s3 where "s3 = s0\<lparr>sicslowpan_len := of_nat (length ip), reass_tag := tag,
    reass_timer := timer_set now (SICSLOWPAN_REASS_MAXAGE * CLOCK_SECOND) (reass_timer s0), frag_sender := linkaddr_copy (frag_sender s0) src\<rparr>"
  have rc: "reassembly_check now src fi s2 = (True, s3)"
  proof -
    have sel: "is_fragment fi = True" "first_fragment fi = True" "frag_size fi = of_nat (length ip)" "frag_tag fi = tag"
      by (simp_all add: fi_def no_fragment_def)
    show ?thesis
      unfolding reassembly_check_def Let_def sel simp_thms if_False s0_def [symmetric]
      using p0 np ip(3) by (simp add: s3_def word_gt_0)
  qed
  have s3: "addr_contexts s3 = addr_contexts s" "pktbuf s3 = pb" "sicslowpan_buf s3 = sicslowpan_buf s" "uip_buf s3 = uip_buf s" "processed_ip_in_len s3 = 0"
    using p0 by (simp_all add: s3_def) (simp_all add: s0_def s2_def s1_def stop_reassembly_def)
  have pd: "process_dispatch src dest fi (pre @ H @ d @ post) s3 =
      Some (Some (take u b @ drop u (sicslowpan_buf s3), of_nat (length pre + length H), of_nat u)) \<and> u \<le> length ip"
    using addrs ip(1,2) lb hdr f(2) s lp
    by (intro dispatch_header) (auto simp: s3 fi_def rcv_ok_def UIP_BUFSIZE_def SICSLOWPAN_FRAG1_HDR_LEN_def)
  have ul: "u \<le> length ip" using n by simp
  have tu: "take u b = take u ip" using ul ip(2) by (metis min.absorb1 take_take)
  have sb: "length (sicslowpan_buf s) = UIP_BUFSIZE" using s by (simp add: rcv_ok_def)
  define s4 where "s4 = s3\<lparr>sicslowpan_buf := take u ip @ drop u (sicslowpan_buf s)\<rparr>"
  have l4: "length (sicslowpan_buf s4) = UIP_BUFSIZE" using ul sb ip(3) by (simp add: s4_def)
  have inp: "sicslowpan_input now s1 = copy_payload fi ((pre @ H) @ d @ post) (of_nat (length (pre @ H))) (of_nat u) s4"
    using input_run [of s1 "pre @ H @ d @ post" rssi src dest s2 now fi s3] f pf rc pd tu by (simp add: s2_def s1_def s4_def s3)
  define s5 where "s5 = s4\<lparr>sicslowpan_buf := take u (sicslowpan_buf s4) @ d @ drop (u + length d) (sicslowpan_buf s4), processed_ip_in_len := of_nat (u + n)\<rparr>"
  have "copy_payload fi ((pre @ H) @ d @ post) (of_nat (length (pre @ H))) (of_nat u) s4 = deliver s5"
  proof -
    have dl: "unat (packetbuf_datalen (pktbuf s4)) = length (pre @ H) + length d" using f(2) by (simp add: s4_def s3)
    have hl: "unat (of_nat (length (pre @ H)) :: u8) = length (pre @ H)" using H(1) lp of_nat_u8 [of "length (pre @ H)"] by (simp del: of_nat_add)
    have off: "u = unat (of_nat u :: u8) + 8 * unat (frag_offset fi)" using ucast_header [OF H(2)] by (simp add: fi_def no_fragment_def)
    have fit: "u + length d \<le> UIP_BUFSIZE" using n ip(3) by (simp add: ld)
    show ?thesis
      unfolding copy_payload_writes [OF dl hl refl refl off fit l4] Let_def
      using np(1) ucast_header [OF H(2)] by (simp add: fi_def no_fragment_def s5_def ld s4_def s3 word_gt_0)
  qed
  moreover have t5: "take (u + n) (sicslowpan_buf s5) = take (u + n) ip"
  proof -
    have "take u (sicslowpan_buf s4) = take u ip" using ul by (simp add: s4_def)
    then have "sicslowpan_buf s5 = (take u ip @ d) @ drop (u + length d) (sicslowpan_buf s4)" by (simp add: s5_def)
    also have "take u ip @ d = take (u + n) ip" by (simp add: d_def take_add)
    finally show ?thesis using n by simp
  qed
  moreover have "(of_nat (u + n) :: u16) \<noteq> 0" "(of_nat (u + n) :: u16) \<noteq> of_nat (length ip)"
    using u16_inj [of "u + n" 0] u16_inj [of "u + n" "length ip"] n H(2) b by (auto simp del: of_nat_add)
  then have "deliver s5 = Some (None, s5)" by (simp add: deliver_def s5_def s4_def s3_def)
  moreover have "reassembling tag src now ip (u + n) s5"
  proof -
    have "rcv_ok s5" using s l4 n ip(3) by (simp add: rcv_ok_def s5_def ld) (simp add: s4_def s3)
    moreover have "0 < u + n" using H(2) by auto
    ultimately show ?thesis using n t5 cs unfolding reassembling_def by (simp add: s5_def s4_def s3_def timer_set_def)
  qed
  ultimately show ?thesis using inp by (simp add: s1_def)
qed

section \<open>A datagram over one hop\<close>

text \<open>The packets that \<open>input\<close> delivers when frames arrive one after the other.\<close>

fun input_all :: "(clock_time_t \<times> packetbuf) list \<Rightarrow> sicslowpan \<Rightarrow> (u8 list list \<times> sicslowpan) option" where
  "input_all [] s = Some ([], s)"
| "input_all ((now, pb) # rs) s = do {
     (d, s) \<leftarrow> sicslowpan_input now (s\<lparr>pktbuf := pb\<rparr>);
     (ds, s) \<leftarrow> input_all rs s;
     Some (case d of None \<Rightarrow> ds | Some ip \<Rightarrow> ip # ds, s)
   }"

definition in_time :: "linkaddr \<Rightarrow> linkaddr \<Rightarrow> clock_time_t \<Rightarrow> clock_time_t \<times> packetbuf \<Rightarrow> u8 list \<Rightarrow> bool" where
  "in_time src dest t0 = (\<lambda>(now, pb) d. arrives src dest d pb \<and> unat (now - t0) < 1024)"

lemma input_fragments:
  assumes "reassembling tag src t0 ip k s" and "k mod 8 = 0" and "0 < p" and "p mod 8 = 0" and "length ip \<le> UIP_BUFSIZE"
    and "list_all2 (in_time src dest t0) rs (fragments tag ip p k)"
  shows "\<exists>s'. input_all rs s = Some ([ip], s')"
  using assms(1,2,6)
proof (induction "length ip - k" arbitrary: k s rs rule: less_induct)
  case less
  have k: "k < length ip" using less.prems(1) by (simp add: reassembling_def)
  then have f: "fragments tag ip p k = (fragn_header tag (length ip) k @ take p (drop k ip)) # fragments tag ip p (k + p)"
    using assms(3) by (subst fragments.simps) simp
  then obtain now pb rs' where rs: "rs = (now, pb) # rs'" "arrives src dest (fragn_header tag (length ip) k @ take p (drop k ip)) pb"
    "unat (now - t0) < 1024" "list_all2 (in_time src dest t0) rs' (fragments tag ip p (k + p))"
    using less.prems(3) by (cases rs) (auto simp: in_time_def)
  note step = input_next [OF less.prems(1) rs(2) less.prems(2) assms(3,5) rs(3)]
  show ?case
  proof (cases "length ip \<le> k + p")
    case True
    then have "rs' = []" using rs(4) by (simp add: fragments.simps)
    then show ?thesis using step True rs(1) by auto
  next
    case False
    then obtain s' where s': "sicslowpan_input now (s\<lparr>pktbuf := pb\<rparr>) = Some (None, s')" "reassembling tag src t0 ip (k + p) s'" using step by auto
    have "8 dvd k + p" using less.prems(2) assms(4) by (intro dvd_add) (simp_all add: dvd_eq_mod_eq_0)
    then obtain s'' where "input_all rs' s' = Some ([ip], s'')"
      using less.hyps [of "k + p" s' rs'] diff_less_mono2 [of k "k + p" "length ip"] k assms(3) s'(2) rs(4) by auto
    then show ?thesis using s'(1) rs(1) by simp
  qed
qed

lemma input_datagram:
  assumes s: "rcv_ok s" and hdr: "datagram_header (addr_contexts s) src dest (length ip) b = (H, u)" and ip: "ipv6_packet ip" "take (length ip) b = ip" "length ip \<le> UIP_BUFSIZE"
    and addrs: "length src = 8" "length dest = 8" "contexts_ok (addr_contexts s)" "src_compressible (addr_contexts s) ip"
    and idle: "processed_ip_in_len s = 0 \<or> \<not> linkaddr_cmp (frag_sender s) src" and M: "52 \<le> M"
    and rs: "list_all2 (in_time src dest (fst (hd rs))) rs (datagram_frames tag H u M ip)"
  shows "\<exists>s'. input_all rs s = Some ([ip], s')"
proof -
  define n where "n = (M - (length H + 4)) div 8 * 8"
  define p where "p = (M - 5) div 8 * 8"
  have lb: "length ip \<le> length b" using ip(2) by (metis length_take min.cobounded1)
  have l40: "40 \<le> length ip" using ip(1) by (simp add: ipv6_packet_def)
  have H: "length H \<le> 48" "u = 40 \<or> u = 48" using header_length [OF hdr] lb l40 by auto
  show ?thesis
  proof (cases "length H + (length ip - u) \<le> M")
    case True
    then have "datagram_frames tag H u M ip = [H @ drop u ip]" by (simp add: datagram_frames_def Let_def)
    then obtain now pb where "rs = [(now, pb)]" "arrives src dest (H @ drop u ip) pb"
      using rs by (cases rs) (auto simp: in_time_def)
    then show ?thesis using input_whole [OF s hdr ip addrs, of pb now] by auto
  next
    case False
    then have "datagram_frames tag H u M ip =
        (be16 (0xc000 OR of_nat (length ip)) @ be16 tag @ H @ take n (drop u ip)) # fragments tag ip p (u + n)"
      by (simp add: datagram_frames_def Let_def n_def p_def)
    then obtain now pb rs' where r: "rs = (now, pb) # rs'" "arrives src dest (be16 (0xc000 OR of_nat (length ip)) @ be16 tag @ H @ take n (drop u ip)) pb"
      "list_all2 (in_time src dest now) rs' (fragments tag ip p (u + n))"
      using rs by (cases rs) (auto simp: in_time_def)
    have nm: "length H + 4 + n \<le> M" "n mod 8 = 0" "0 < p" "p mod 8 = 0" using M H(1) by (simp_all add: n_def p_def)
    then have un: "u + n < length ip" using False by linarith
    obtain s' where s': "sicslowpan_input now (s\<lparr>pktbuf := pb\<rparr>) = Some (None, s')" "reassembling tag src now ip (u + n) s'"
      using input_frag1 [OF s hdr ip addrs idle un r(2)] by blast
    have "(u + n) mod 8 = 0" using H(2) nm(2) by (auto simp: mod_add_eq [symmetric])
    then obtain s'' where "input_all rs' s' = Some ([ip], s'')" using input_fragments [OF s'(2) _ nm(3,4) ip(3) r(3)] by metis
    then show ?thesis using s'(1) r(1) by simp
  qed
qed

text \<open>
  C2. A packet that the IP layer of one node hands to \<open>output\<close> is sent and
  arrives at the IP layer of its neighbour byte for byte, exactly once. This
  covers the choice of the compression, the cut into fragments, reassembly and the
  decompression, for every packet up to the buffer size whose length fields are
  right, if the queue has a buffer for every fragment, the two nodes share their
  contexts, all frames arrive in order within the 8 seconds of the reassembly
  timer, and the neighbour is not in the middle of another packet of the same
  sender. The MAC layer is one that sends at once and gives its buffers back.
\<close>

theorem sicslowpan_datagram_roundtrip:
  assumes "mac_ok llsec_send" and "52 \<le> M" and "M \<le> 125"
    and "\<And>pb. MAC_MAX_PAYLOAD - (if framer_length pb < 0 then 21 else framer_length pb) - overhead = int M"
    and "sender_pb (pktbuf s)" and "q_ok (qbufs s)" and "int (length ip div 120) + 2 \<le> queuebuf_numfree (qbufs s)"
    and "uip_len s = of_nat (length ip)" and "take (length ip) (uip_buf s) = ip"
    and "ipv6_packet ip" and "length ip \<le> UIP_BUFSIZE" and "src_compressible (addr_contexts s) ip"
    and "length (uip_lladdr s) = LINKADDR_SIZE" and "length dest = LINKADDR_SIZE" and "contexts_ok (addr_contexts s)"
    and "rcv_ok r" and "addr_contexts r = addr_contexts s" and "processed_ip_in_len r = 0 \<or> \<not> linkaddr_cmp (frag_sender r) (uip_lladdr s)"
  shows "\<exists>fs s'. sicslowpan_output llsec_send framer_length overhead (Some dest) s = Some (1, fs, s') \<and>
    (\<forall>rs. list_all2 (\<lambda>f. \<lambda>(now, pb). arrives (uip_lladdr s) dest (snd (snd (pkt f))) pb \<and> unat (now - fst (hd rs)) < 1024) fs rs \<longrightarrow>
      (\<exists>r'. input_all rs r = Some ([ip], r')))"
proof -
  obtain H u where h: "datagram_header (addr_contexts s) (uip_lladdr s) dest (length ip) (uip_buf s) = (H, u)" by force
  have l: "length ip < 2048" "40 \<le> length ip" "ip_proto ip = UIP_PROTO_UDP \<Longrightarrow> 48 \<le> length ip"
    using assms(10,11) by (simp_all add: ipv6_packet_def UIP_BUFSIZE_def)
  have "ip_proto (uip_buf s) = ip_proto ip" using fields_take(2) [OF l(2), of "uip_buf s"] assms(9) by simp
  then have u: "u \<le> length ip" using h l(2,3) by (auto simp: datagram_header_def split: if_splits)
  obtain fs s' where o: "sicslowpan_output llsec_send framer_length overhead (Some dest) s = Some (1, fs, s')"
    "list_all2 (carries dest) fs (datagram_frames (my_tag s) H u M ip)"
    using sicslowpan_output_ok [where framer_length = framer_length, OF assms(1,14,5-9) l(1) u l(2) h assms(2-4)] by blast
  have "\<exists>r'. input_all rs r = Some ([ip], r')"
    if rs: "list_all2 (\<lambda>f. \<lambda>(now, pb). arrives (uip_lladdr s) dest (snd (snd (pkt f))) pb \<and> unat (now - fst (hd rs)) < 1024) fs rs" for rs
  proof (rule input_datagram [OF assms(16)])
    show "list_all2 (in_time (uip_lladdr s) dest (fst (hd rs))) rs (datagram_frames (my_tag s) H u M ip)"
      using rs o(2) by (fastforce simp: list_all2_conv_all_nth in_time_def carries_def)
  qed (use h assms in \<open>simp_all add: LINKADDR_SIZE_def\<close>)
  with o(1) show ?thesis by blast
qed

text \<open>A frame as it lies in the packet buffer after the framer has taken off its header.\<close>

definition rx_frame :: "linkaddr \<Rightarrow> linkaddr \<Rightarrow> u8 list \<Rightarrow> packetbuf" where
  "rx_frame src dest d = \<lparr>packetbuf_bytes = replicate 48 0 @ d @ replicate (128 - length d) 0, buflen = of_nat (length d), bufptr = 0, hdrptr = 48,
     packetbuf_attrs = replicate PACKETBUF_NUM_ATTRS 0, packetbuf_addrs = [src, dest]\<rparr>"

lemma rx_frame_arrives: "length d \<le> 128 \<Longrightarrow> arrives src dest d (rx_frame src dest d)"
  using unat_u16 [of "length d"]
  by (simp add: arrives_def rx_frame_def pb_ok_def pkt_def pb_defs packetbuf_addr_def PACKETBUF_ADDR_SENDER_def PACKETBUF_ADDR_RECEIVER_def
      PACKETBUF_ADDR_FIRST_def PACKETBUF_NUM_ADDRS_def)

definition sample_datagram :: "u8 list" where
  "sample_datagram = [0x60, 0, 0, 0, 0, 60, 17, 64] @ [0xfe, 0x80, 0, 0, 0, 0, 0, 0, 2, 1, 1, 1, 1, 1, 1, 1] @
     [0xaa, 0xaa, 0, 0, 0, 0, 0, 0, 0, 0, 0, 0xff, 0xfe, 0, 0x12, 0x34] @ [0xF0, 0xB1, 0xF0, 0xB2, 0, 60, 0xAB, 0xCD] @ replicate 52 7"

definition sample_node :: "linkaddr \<Rightarrow> sicslowpan" where
  "sample_node ll = \<lparr>addr_contexts = sample_contexts, uip_lladdr = ll, uip_buf = sample_datagram @ replicate 1180 0, uip_len = 100,
     sicslowpan_buf = replicate 1280 0, sicslowpan_len = 0, processed_ip_in_len = 0, my_tag = 5, reass_tag = 0, frag_sender = ll,
     reass_timer = \<lparr>t_start = 0, t_interval = 0\<rparr>, last_tx_status = 0, last_rssi = 0,
     pktbuf = rx_frame ll ll [], qbufs = queuebufs0\<rparr>"

lemma length_datagram: "length sample_datagram = 100"
  by (simp add: sample_datagram_def)

lemma sample_datagram_ok: "ipv6_packet sample_datagram" "src_compressible sample_contexts sample_datagram" "contexts_ok sample_contexts"
proof -
  show "ipv6_packet sample_datagram"
    using length_datagram by (simp add: ipv6_packet_def) (simp add: sample_datagram_def ip_fields UIP_PROTO_UDP_def be16_def)
  show "src_compressible sample_contexts sample_datagram"
    by (simp add: src_compressible_def sample_datagram_def sample_contexts_def compress_defs)
  show "contexts_ok sample_contexts" by (simp add: contexts_ok_def sample_contexts_def)
qed

lemma sample_datagram_header:
  "datagram_header sample_contexts [0, 1, 1, 1, 1, 1, 1, 1] (replicate 8 9) 100 (sample_datagram @ rest) =
    ([0x7E, 0xB6, 0, 0x12, 0x34, 0xF3, 0x12, 0xAB, 0xCD], 48)"
  by (simp add: datagram_header_def COMPRESSION_THRESHOLD_def hc06_header_def hc06_fields_def compress_cid_def sample_datagram_def sample_contexts_def compress_defs)

lemma sample_frames:
  assumes "H = [0x7E, 0xB6, 0, 0x12, 0x34, 0xF3, 0x12, 0xAB, 0xCD]"
  shows "datagram_frames 5 H 48 60 sample_datagram = [be16 (0xc000 OR 100) @ be16 5 @ H @ take 40 (drop 48 sample_datagram),
    fragn_header 5 100 88 @ take 48 (drop 88 sample_datagram)]"
proof -
  have "fragments 5 sample_datagram 48 88 = [fragn_header 5 100 88 @ take 48 (drop 88 sample_datagram)]"
    using length_datagram by (subst fragments.simps, subst fragments.simps) simp
  then show ?thesis using length_datagram by (simp add: datagram_frames_def assms)
qed

lemma queuebufs0_ok: "q_ok queuebufs0" "2 \<le> queuebuf_numfree queuebufs0"
  using queuebufs0_inv by (simp_all add: q_ok_def queuebufs0_def Let_def queuebuf_init_def memb_init_def queuebuf_numfree_def memb_numfree_def upt_rec)

lemma sicslowpan_datagram_roundtrip_witness:
  "\<exists>fs s' rs r'. sicslowpan_output (\<lambda>pb q. (pb, q, Some MAC_TX_OK)) (\<lambda>_. 65) 0 (Some (replicate 8 9)) (sample_node [0, 1, 1, 1, 1, 1, 1, 1]) = Some (1, fs, s') \<and>
     length fs = 2 \<and> input_all rs (sample_node (replicate 8 9)) = Some ([sample_datagram], r')"
proof -
  let ?ll = "[0, 1, 1, 1, 1, 1, 1, 1] :: u8 list" and ?rl = "replicate 8 9 :: u8 list" and ?mac = "\<lambda>pb q. (pb, q, Some MAC_TX_OK) :: packetbuf \<times> queuebufs \<times> int ptr"
  let ?s = "sample_node ?ll" and ?r = "sample_node ?rl" and ?H = "[0x7E, 0xB6, 0, 0x12, 0x34, 0xF3, 0x12, 0xAB, 0xCD] :: u8 list"
  have mac: "mac_ok ?mac" by (simp add: mac_ok_def)
  have M: "MAC_MAX_PAYLOAD - (if (65 :: int) < 0 then 21 else 65) - 0 = int 60" by (simp add: MAC_MAX_PAYLOAD_def)
  have pb: "sender_pb (pktbuf ?s)" using rx_frame_arrives [of "[]" ?ll ?ll] by (simp add: sample_node_def sender_pb_def arrives_def) (simp add: rx_frame_def LINKADDR_SIZE_def)
  have q: "q_ok (qbufs ?s)" "int (length sample_datagram div 120) + 2 \<le> queuebuf_numfree (qbufs ?s)"
    using queuebufs0_ok length_datagram by (simp_all add: sample_node_def)
  have ip: "uip_len ?s = of_nat (length sample_datagram)" "take (length sample_datagram) (uip_buf ?s) = sample_datagram"
    using length_datagram by (simp_all add: sample_node_def)
  have hdr: "datagram_header (addr_contexts ?s) (uip_lladdr ?s) ?rl (length sample_datagram) (uip_buf ?s) = (?H, 48)"
    using sample_datagram_header [of "replicate 1180 0"] length_datagram by (simp add: sample_node_def)
  obtain fs s' where o: "sicslowpan_output ?mac (\<lambda>_. 65) 0 (Some ?rl) ?s = Some (1, fs, s')"
    "list_all2 (carries ?rl) fs (datagram_frames (my_tag ?s) ?H 48 60 sample_datagram)"
    using sicslowpan_output_ok [where framer_length = "\<lambda>_. 65", OF mac _ pb q ip _ _ _ hdr _ _ M] length_datagram by (auto simp: LINKADDR_SIZE_def)
  define D where "D = datagram_frames 5 ?H 48 60 sample_datagram"
  have D: "length D = 2" "\<forall>d \<in> set D. length d \<le> 128"
    using sample_frames [OF refl] length_datagram by (simp_all add: D_def fragn_header_def)
  have o2: "list_all2 (carries ?rl) fs D" using o(2) by (simp add: D_def sample_node_def)
  define rs where "rs = map (\<lambda>d. (0 :: clock_time_t, rx_frame ?ll ?rl d)) D"
  have hd: "fst (hd rs) = 0" using D(1) by (cases D) (simp_all add: rs_def)
  have "list_all2 (\<lambda>f. \<lambda>(now, pb). arrives (uip_lladdr ?s) ?rl (snd (snd (pkt f))) pb \<and> unat (now - fst (hd rs)) < 1024) fs rs"
    unfolding hd using o2 D(2) by (auto simp: rs_def list_all2_conv_all_nth carries_def rx_frame_arrives sample_node_def)
  then have "\<exists>r'. input_all rs ?r = Some ([sample_datagram], r')"
    using sicslowpan_datagram_roundtrip [where framer_length = "\<lambda>_. 65" and r = ?r and dest = ?rl, OF mac _ _ M pb q ip] sample_datagram_ok o(1) length_datagram
    by (simp add: sample_node_def rcv_ok_def UIP_BUFSIZE_def LINKADDR_SIZE_def)
  then show ?thesis using o(1) list_all2_lengthD [OF o2] D(1) by metis
qed

end
