(* ===== verification/Coap.thy ===== *)
theory Coap
  imports Bytes
begin

text \<open>
  CoAP messages of the Erbium implementation, \<open>apps/er-coap/er-coap.c\<close>: the
  packet structure, the helper functions, and the operations that read and set
  the options of a packet. A pointer is \<open>NULL\<close>, a position in the packet's own
  buffer (strings of a parsed message point into it), or the memory from some
  other address on; a read past the end of the memory is \<^term>\<open>None\<close>.
\<close>

section \<open>Packets\<close>

definition COAP_HEADER_LEN :: nat where "COAP_HEADER_LEN = 4"
definition COAP_TOKEN_LEN :: nat where "COAP_TOKEN_LEN = 8"
definition COAP_ETAG_LEN :: nat where "COAP_ETAG_LEN = 8"
definition COAP_DEFAULT_MAX_AGE :: u32 where "COAP_DEFAULT_MAX_AGE = 60"
definition COAP_MAX_HEADER_SIZE :: nat where
  "COAP_MAX_HEADER_SIZE = 4 + COAP_TOKEN_LEN + 3 + 1 + COAP_ETAG_LEN + 4 + 4 + 30"
definition REST_MAX_CHUNK_SIZE :: nat where "REST_MAX_CHUNK_SIZE = 64"

definition COAP_OPTION_IF_MATCH :: nat where "COAP_OPTION_IF_MATCH = 1"
definition COAP_OPTION_URI_HOST :: nat where "COAP_OPTION_URI_HOST = 3"
definition COAP_OPTION_ETAG :: nat where "COAP_OPTION_ETAG = 4"
definition COAP_OPTION_IF_NONE_MATCH :: nat where "COAP_OPTION_IF_NONE_MATCH = 5"
definition COAP_OPTION_OBSERVE :: nat where "COAP_OPTION_OBSERVE = 6"
definition COAP_OPTION_URI_PORT :: nat where "COAP_OPTION_URI_PORT = 7"
definition COAP_OPTION_LOCATION_PATH :: nat where "COAP_OPTION_LOCATION_PATH = 8"
definition COAP_OPTION_URI_PATH :: nat where "COAP_OPTION_URI_PATH = 11"
definition COAP_OPTION_CONTENT_FORMAT :: nat where "COAP_OPTION_CONTENT_FORMAT = 12"
definition COAP_OPTION_MAX_AGE :: nat where "COAP_OPTION_MAX_AGE = 14"
definition COAP_OPTION_URI_QUERY :: nat where "COAP_OPTION_URI_QUERY = 15"
definition COAP_OPTION_ACCEPT :: nat where "COAP_OPTION_ACCEPT = 17"
definition COAP_OPTION_LOCATION_QUERY :: nat where "COAP_OPTION_LOCATION_QUERY = 20"
definition COAP_OPTION_BLOCK2 :: nat where "COAP_OPTION_BLOCK2 = 23"
definition COAP_OPTION_BLOCK1 :: nat where "COAP_OPTION_BLOCK1 = 27"
definition COAP_OPTION_SIZE2 :: nat where "COAP_OPTION_SIZE2 = 28"
definition COAP_OPTION_PROXY_URI :: nat where "COAP_OPTION_PROXY_URI = 35"
definition COAP_OPTION_PROXY_SCHEME :: nat where "COAP_OPTION_PROXY_SCHEME = 39"
definition COAP_OPTION_SIZE1 :: nat where "COAP_OPTION_SIZE1 = 60"

lemmas option_numbers = COAP_OPTION_IF_MATCH_def COAP_OPTION_URI_HOST_def COAP_OPTION_ETAG_def
  COAP_OPTION_IF_NONE_MATCH_def COAP_OPTION_OBSERVE_def COAP_OPTION_URI_PORT_def COAP_OPTION_LOCATION_PATH_def
  COAP_OPTION_URI_PATH_def COAP_OPTION_CONTENT_FORMAT_def COAP_OPTION_MAX_AGE_def COAP_OPTION_URI_QUERY_def
  COAP_OPTION_ACCEPT_def COAP_OPTION_LOCATION_QUERY_def COAP_OPTION_BLOCK2_def COAP_OPTION_BLOCK1_def
  COAP_OPTION_SIZE2_def COAP_OPTION_PROXY_URI_def COAP_OPTION_PROXY_SCHEME_def COAP_OPTION_SIZE1_def

datatype cptr = Null | Buf nat | Mem "u8 list"

datatype coap_status = NO_ERROR | BAD_REQUEST_4_00 | BAD_OPTION_4_02 | PROXYING_NOT_SUPPORTED_5_05

record coap_packet =
  coap_buffer :: "u8 list"
  version :: u8
  msg_type :: u8
  code :: u8
  mid :: u16
  token_len :: nat
  token :: "u8 list"
  options :: "u8 list"
  content_format :: u32
  max_age :: u32
  etag_len :: nat
  etag :: "u8 list"
  proxy_uri_len :: nat
  proxy_uri :: cptr
  proxy_scheme_len :: nat
  proxy_scheme :: cptr
  uri_host_len :: nat
  uri_host :: cptr
  location_path_len :: nat
  location_path :: cptr
  uri_port :: u16
  location_query_len :: nat
  location_query :: cptr
  uri_path_len :: nat
  uri_path :: cptr
  observe :: u32
  accept :: u32
  if_match_len :: nat
  if_match :: "u8 list"
  block2_num :: u32
  block2_more :: u8
  block2_size :: u16
  block2_offset :: u32
  block1_num :: u32
  block1_more :: u8
  block1_size :: u16
  block1_offset :: u32
  size2 :: u32
  size1 :: u32
  uri_query_len :: nat
  uri_query :: cptr
  if_none_match :: u8
  payload_len :: nat
  payload :: cptr

text \<open>\<open>memset\<close> of the structure to zero.\<close>

definition zero_packet :: coap_packet where
  "zero_packet = \<lparr>coap_buffer = [], version = 0, msg_type = 0, code = 0, mid = 0, token_len = 0, token = replicate 8 0,
     options = replicate 8 0, content_format = 0, max_age = 0, etag_len = 0, etag = replicate 8 0,
     proxy_uri_len = 0, proxy_uri = Null, proxy_scheme_len = 0, proxy_scheme = Null, uri_host_len = 0, uri_host = Null,
     location_path_len = 0, location_path = Null, uri_port = 0, location_query_len = 0, location_query = Null,
     uri_path_len = 0, uri_path = Null, observe = 0, accept = 0, if_match_len = 0, if_match = replicate 8 0,
     block2_num = 0, block2_more = 0, block2_size = 0, block2_offset = 0,
     block1_num = 0, block1_more = 0, block1_size = 0, block1_offset = 0, size2 = 0, size1 = 0,
     uri_query_len = 0, uri_query = Null, if_none_match = 0, payload_len = 0, payload = Null\<rparr>"

text \<open>The bitmap of set options.\<close>

definition OPTION_MAP_SIZE :: nat where "OPTION_MAP_SIZE = 8"

definition SET_OPTION :: "nat \<Rightarrow> coap_packet \<Rightarrow> coap_packet" where
  "SET_OPTION opt pkt = pkt\<lparr>options := (options pkt)[opt div OPTION_MAP_SIZE :=
     options pkt ! (opt div OPTION_MAP_SIZE) OR push_bit (opt mod OPTION_MAP_SIZE) 1]\<rparr>"

definition IS_OPTION :: "coap_packet \<Rightarrow> nat \<Rightarrow> bool" where
  "IS_OPTION pkt opt \<longleftrightarrow> options pkt ! (opt div OPTION_MAP_SIZE) AND push_bit (opt mod OPTION_MAP_SIZE) 1 \<noteq> 0"

section \<open>Strings\<close>

text \<open>The memory a pointer of the packet points to.\<close>

fun pointee :: "u8 list \<Rightarrow> cptr \<Rightarrow> u8 list option" where
  "pointee buf Null = None"
| "pointee buf (Buf i) = Some (drop i buf)"
| "pointee buf (Mem s) = Some s"

definition strlen :: "u8 list \<Rightarrow> nat option" where
  "strlen s = (if 0 \<in> set s then Some (length (takeWhile (\<lambda>c. c \<noteq> 0) s)) else None)"

fun skip_char :: "u8 \<Rightarrow> u8 list \<Rightarrow> u8 list option" where
  "skip_char c [] = None"
| "skip_char c (x # s) = (if x = c then skip_char c s else Some (x # s))"

fun strchr :: "u8 list \<Rightarrow> u8 \<Rightarrow> nat option option" where
  "strchr [] c = None"
| "strchr (x # s) c = (if x = c then Some (Some 0) else if x = 0 then Some None else map_option (map_option Suc) (strchr s c))"

section \<open>Local helper functions\<close>

fun coap_log_2_loop :: "nat \<Rightarrow> u16 \<Rightarrow> u16 \<Rightarrow> u16" where
  "coap_log_2_loop 0 value result = result"
| "coap_log_2_loop (Suc n) value result = (let value = drop_bit 1 value; result = result + 1 in
     if value \<noteq> 0 then coap_log_2_loop n value result else result)"

definition coap_log_2 :: "u16 \<Rightarrow> u16" where
  "coap_log_2 value = (let result = coap_log_2_loop 16 value 0 in if result \<noteq> 0 then result - 1 else result)"

definition coap_parse_int_option :: "u8 list \<Rightarrow> u32" where
  "coap_parse_int_option bytes = fold (\<lambda>b var. push_bit 8 var OR ucast b) bytes 0"

definition coap_option_nibble :: "nat \<Rightarrow> u8" where
  "coap_option_nibble value = (if value < 13 then of_nat value else if value \<le> 0xFF + 13 then 13 else 14)"

text \<open>The two rounds of the loop over \<open>delta\<close> and \<open>length\<close>.\<close>

definition put_extended :: "nat \<Rightarrow> u8 list \<times> nat \<Rightarrow> (u8 list \<times> nat) option" where
  "put_extended x s = (if x > 268 then Option.bind (put (of_nat ((x - 269) div 256)) s) (put (of_nat (x - 269)))
     else if x > 12 then put (of_nat (x - 13)) s else Some s)"

definition coap_set_option_header :: "nat \<Rightarrow> nat \<Rightarrow> u8 list \<times> nat \<Rightarrow> (u8 list \<times> nat) option" where
  "coap_set_option_header delta len s = do {
     s \<leftarrow> put (push_bit 4 (coap_option_nibble delta) OR coap_option_nibble len) s;
     s \<leftarrow> put_extended delta s;
     put_extended len s
   }"

definition coap_serialize_int_option :: "nat \<Rightarrow> nat \<Rightarrow> u32 \<Rightarrow> u8 list \<times> nat \<Rightarrow> (u8 list \<times> nat) option" where
  "coap_serialize_int_option number current_number value s = (let
     i = (if 0xFF000000 AND value \<noteq> 0 then 1 else 0) + (if 0xFFFF0000 AND value \<noteq> 0 then 1 else 0) +
         (if 0xFFFFFF00 AND value \<noteq> 0 then 1 else 0) + (if 0xFFFFFFFF AND value \<noteq> 0 then 1 else 0) in do {
     s \<leftarrow> coap_set_option_header (number - current_number) i s;
     s \<leftarrow> (if 0xFF000000 AND value \<noteq> 0 then put (ucast (drop_bit 24 value)) s else Some s);
     s \<leftarrow> (if 0xFFFF0000 AND value \<noteq> 0 then put (ucast (drop_bit 16 value)) s else Some s);
     s \<leftarrow> (if 0xFFFFFF00 AND value \<noteq> 0 then put (ucast (drop_bit 8 value)) s else Some s);
     (if 0xFFFFFFFF AND value \<noteq> 0 then put (ucast value) s else Some s)
   })"

text \<open>
  The loop over the characters of the string; after a part it skips the
  splitter, and with the increment of the loop also the test of the character
  behind it.
\<close>

function (sequential) array_loop :: "nat \<Rightarrow> u8 list \<Rightarrow> nat \<Rightarrow> u8 \<Rightarrow> nat \<Rightarrow> nat \<Rightarrow> nat \<Rightarrow> u8 list \<times> nat \<Rightarrow> (u8 list \<times> nat) option" where
  "array_loop number a len split j start current s = (if j > len + 1 then Some s else
     case get a j of None \<Rightarrow> None | Some c \<Rightarrow>
       if c = split \<or> j = len then
         (case do {
            s \<leftarrow> coap_set_option_header (number - current) (j - start) s;
            part \<leftarrow> read_bytes start (j - start) a;
            puts part s
          } of None \<Rightarrow> None | Some s \<Rightarrow> array_loop number a len split (j + 2) (j + 1) number s)
       else array_loop number a len split (j + 1) start current s)"
  by pat_completeness auto
termination by (relation "measure (\<lambda>(_, _, len, _, j, _). len + 2 - j)") auto

declare array_loop.simps [simp del]

definition coap_serialize_array_option :: "nat \<Rightarrow> nat \<Rightarrow> u8 list \<Rightarrow> nat \<Rightarrow> u8 \<Rightarrow> u8 list \<times> nat \<Rightarrow> (u8 list \<times> nat) option" where
  "coap_serialize_array_option number current_number a len split_char s =
     (if split_char \<noteq> 0 then array_loop number a len split_char 0 0 current_number s
      else do {
        s \<leftarrow> coap_set_option_header (number - current_number) len s;
        bs \<leftarrow> read_bytes 0 len a;
        puts bs s
      })"

text \<open>
  Options that may be repeated are merged in place, in the received buffer,
  which is the only memory \<open>dst\<close> can point to.
\<close>

definition coap_merge_multi_option :: "u8 list \<Rightarrow> cptr \<Rightarrow> nat \<Rightarrow> nat \<Rightarrow> nat \<Rightarrow> u8 \<Rightarrow> (u8 list \<times> cptr \<times> nat) option" where
  "coap_merge_multi_option buf dst dst_len opt option_len separator = (if dst_len > 0
     then case dst of Buf i \<Rightarrow> do {
            buf \<leftarrow> write_bytes (i + dst_len) [separator] buf;
            bs \<leftarrow> read_bytes opt option_len buf;
            buf \<leftarrow> write_bytes (i + dst_len + 1) bs buf;
            Some (buf, dst, dst_len + 1 + option_len)
          } | _ \<Rightarrow> None
     else Some (buf, Buf opt, option_len))"

text \<open>Looking up a variable of a query string; the second result is the offset of the value.\<close>

definition ampersand :: u8 where "ampersand = 38"
definition equals_sign :: u8 where "equals_sign = 61"

function (sequential) variable_loop :: "u8 list \<Rightarrow> nat \<Rightarrow> u8 list \<Rightarrow> nat \<Rightarrow> int \<times> nat option" where
  "variable_loop buf len name start = (if start + length name < len then
      if (start = 0 \<or> buf ! (start - 1) = ampersand) \<and> buf ! (start + length name) = equals_sign \<and>
         take (length name) (drop start buf) = name
      then let start = start + length name + 1 in
        (int (length (takeWhile (\<lambda>c. c \<noteq> ampersand) (take (len - start) (drop start buf)))), Some start)
      else variable_loop buf len name (start + 1)
    else (0, None))"
  by pat_completeness auto
termination by (relation "measure (\<lambda>(_, len, _, start). len - start)") auto

declare variable_loop.simps [simp del]

definition coap_get_variable :: "u8 list \<Rightarrow> nat \<Rightarrow> u8 list \<Rightarrow> int \<times> nat option" where
  "coap_get_variable buf len name = variable_loop buf len name 0"

section \<open>Operations on packets\<close>

definition coap_get_mid :: "u16 \<Rightarrow> u16 \<times> u16" where
  "coap_get_mid current_mid = (let current_mid = current_mid + 1 in (current_mid, current_mid))"

definition coap_init_message :: "u8 \<Rightarrow> u8 \<Rightarrow> u16 \<Rightarrow> coap_packet" where
  "coap_init_message type c m = zero_packet\<lparr>msg_type := type, code := c, mid := m\<rparr>"

definition coap_get_query_variable :: "coap_packet \<Rightarrow> u8 list \<Rightarrow> (int \<times> nat option) option" where
  "coap_get_query_variable pkt name = (if IS_OPTION pkt COAP_OPTION_URI_QUERY
     then map_option (\<lambda>q. coap_get_variable q (uri_query_len pkt) name) (pointee (coap_buffer pkt) (uri_query pkt))
     else Some (0, None))"

definition coap_get_post_variable :: "coap_packet \<Rightarrow> u8 list \<Rightarrow> (int \<times> nat option) option" where
  "coap_get_post_variable pkt name = (if payload_len pkt \<noteq> 0
     then map_option (\<lambda>q. coap_get_variable q (payload_len pkt) name) (pointee (coap_buffer pkt) (payload pkt))
     else Some (0, None))"

definition coap_set_status_code :: "u32 \<Rightarrow> coap_packet \<Rightarrow> int \<times> coap_packet" where
  "coap_set_status_code c pkt = (if c \<le> 0xFF then (1, pkt\<lparr>code := ucast c\<rparr>) else (0, pkt))"

definition set_bytes :: "u8 list \<Rightarrow> nat \<Rightarrow> u8 list \<Rightarrow> u8 list option" where
  "set_bytes field len bytes = Option.bind (read_bytes 0 len bytes) (\<lambda>bs. write_bytes 0 bs field)"

definition coap_set_token :: "u8 list \<Rightarrow> nat \<Rightarrow> coap_packet \<Rightarrow> (nat \<times> coap_packet) option" where
  "coap_set_token bytes len pkt = (let n = min COAP_TOKEN_LEN len in
     map_option (\<lambda>t. (n, pkt\<lparr>token_len := n, token := t\<rparr>)) (set_bytes (token pkt) n bytes))"

definition slash :: u8 where "slash = 47"
definition question_mark :: u8 where "question_mark = 63"

definition coap_get_header_content_format :: "coap_packet \<Rightarrow> u32 \<Rightarrow> int \<times> u32" where
  "coap_get_header_content_format pkt out = (if \<not> IS_OPTION pkt COAP_OPTION_CONTENT_FORMAT then (0, out) else (1, content_format pkt))"

definition coap_set_header_content_format :: "u32 \<Rightarrow> coap_packet \<Rightarrow> int \<times> coap_packet" where
  "coap_set_header_content_format v pkt = (1, SET_OPTION COAP_OPTION_CONTENT_FORMAT (pkt\<lparr>content_format := v\<rparr>))"

definition coap_get_header_accept :: "coap_packet \<Rightarrow> u32 \<Rightarrow> int \<times> u32" where
  "coap_get_header_accept pkt out = (if \<not> IS_OPTION pkt COAP_OPTION_ACCEPT then (0, out) else (1, accept pkt))"

definition coap_set_header_accept :: "u32 \<Rightarrow> coap_packet \<Rightarrow> int \<times> coap_packet" where
  "coap_set_header_accept v pkt = (1, SET_OPTION COAP_OPTION_ACCEPT (pkt\<lparr>accept := v\<rparr>))"

definition coap_get_header_max_age :: "coap_packet \<Rightarrow> int \<times> u32" where
  "coap_get_header_max_age pkt = (1, if \<not> IS_OPTION pkt COAP_OPTION_MAX_AGE then COAP_DEFAULT_MAX_AGE else max_age pkt)"

definition coap_set_header_max_age :: "u32 \<Rightarrow> coap_packet \<Rightarrow> int \<times> coap_packet" where
  "coap_set_header_max_age age pkt = (1, SET_OPTION COAP_OPTION_MAX_AGE (pkt\<lparr>max_age := age\<rparr>))"

definition coap_get_header_etag :: "coap_packet \<Rightarrow> u8 list \<Rightarrow> nat \<times> u8 list" where
  "coap_get_header_etag pkt out = (if \<not> IS_OPTION pkt COAP_OPTION_ETAG then (0, out) else (etag_len pkt, etag pkt))"

definition coap_set_header_etag :: "u8 list \<Rightarrow> nat \<Rightarrow> coap_packet \<Rightarrow> (nat \<times> coap_packet) option" where
  "coap_set_header_etag bytes len pkt = (let n = min COAP_ETAG_LEN len in
     map_option (\<lambda>t. (n, SET_OPTION COAP_OPTION_ETAG (pkt\<lparr>etag_len := n, etag := t\<rparr>))) (set_bytes (etag pkt) n bytes))"

definition coap_get_header_if_match :: "coap_packet \<Rightarrow> u8 list \<Rightarrow> nat \<times> u8 list" where
  "coap_get_header_if_match pkt out = (if \<not> IS_OPTION pkt COAP_OPTION_IF_MATCH then (0, out) else (if_match_len pkt, if_match pkt))"

definition coap_set_header_if_match :: "u8 list \<Rightarrow> nat \<Rightarrow> coap_packet \<Rightarrow> (nat \<times> coap_packet) option" where
  "coap_set_header_if_match bytes len pkt = (let n = min COAP_ETAG_LEN len in
     map_option (\<lambda>t. (n, SET_OPTION COAP_OPTION_IF_MATCH (pkt\<lparr>if_match_len := n, if_match := t\<rparr>))) (set_bytes (if_match pkt) n bytes))"

definition coap_get_header_if_none_match :: "coap_packet \<Rightarrow> int" where
  "coap_get_header_if_none_match pkt = (if IS_OPTION pkt COAP_OPTION_IF_NONE_MATCH then 1 else 0)"

definition coap_set_header_if_none_match :: "coap_packet \<Rightarrow> int \<times> coap_packet" where
  "coap_set_header_if_none_match pkt = (1, SET_OPTION COAP_OPTION_IF_NONE_MATCH pkt)"

definition coap_get_header_proxy_uri :: "coap_packet \<Rightarrow> cptr \<Rightarrow> nat \<times> cptr" where
  "coap_get_header_proxy_uri pkt out = (if \<not> IS_OPTION pkt COAP_OPTION_PROXY_URI then (0, out) else (proxy_uri_len pkt, proxy_uri pkt))"

definition coap_set_header_proxy_uri :: "u8 list \<Rightarrow> coap_packet \<Rightarrow> (nat \<times> coap_packet) option" where
  "coap_set_header_proxy_uri s pkt = do {
     n \<leftarrow> strlen s;
     Some (n, SET_OPTION COAP_OPTION_PROXY_URI (pkt\<lparr>proxy_uri := Mem s, proxy_uri_len := n\<rparr>))
   }"

definition coap_get_header_uri_host :: "coap_packet \<Rightarrow> cptr \<Rightarrow> nat \<times> cptr" where
  "coap_get_header_uri_host pkt out = (if \<not> IS_OPTION pkt COAP_OPTION_URI_HOST then (0, out) else (uri_host_len pkt, uri_host pkt))"

definition coap_set_header_uri_host :: "u8 list \<Rightarrow> coap_packet \<Rightarrow> (nat \<times> coap_packet) option" where
  "coap_set_header_uri_host s pkt = do {
     n \<leftarrow> strlen s;
     Some (n, SET_OPTION COAP_OPTION_URI_HOST (pkt\<lparr>uri_host := Mem s, uri_host_len := n\<rparr>))
   }"

definition coap_get_header_uri_path :: "coap_packet \<Rightarrow> cptr \<Rightarrow> nat \<times> cptr" where
  "coap_get_header_uri_path pkt out = (if \<not> IS_OPTION pkt COAP_OPTION_URI_PATH then (0, out) else (uri_path_len pkt, uri_path pkt))"

definition coap_set_header_uri_path :: "u8 list \<Rightarrow> coap_packet \<Rightarrow> (nat \<times> coap_packet) option" where
  "coap_set_header_uri_path s pkt = do {
     s \<leftarrow> skip_char slash s;
     n \<leftarrow> strlen s;
     Some (n, SET_OPTION COAP_OPTION_URI_PATH (pkt\<lparr>uri_path := Mem s, uri_path_len := n\<rparr>))
   }"

definition coap_get_header_uri_query :: "coap_packet \<Rightarrow> cptr \<Rightarrow> nat \<times> cptr" where
  "coap_get_header_uri_query pkt out = (if \<not> IS_OPTION pkt COAP_OPTION_URI_QUERY then (0, out) else (uri_query_len pkt, uri_query pkt))"

definition coap_set_header_uri_query :: "u8 list \<Rightarrow> coap_packet \<Rightarrow> (nat \<times> coap_packet) option" where
  "coap_set_header_uri_query s pkt = do {
     s \<leftarrow> skip_char question_mark s;
     n \<leftarrow> strlen s;
     Some (n, SET_OPTION COAP_OPTION_URI_QUERY (pkt\<lparr>uri_query := Mem s, uri_query_len := n\<rparr>))
   }"

definition coap_get_header_location_query :: "coap_packet \<Rightarrow> cptr \<Rightarrow> nat \<times> cptr" where
  "coap_get_header_location_query pkt out = (if \<not> IS_OPTION pkt COAP_OPTION_LOCATION_QUERY then (0, out) else (location_query_len pkt, location_query pkt))"

definition coap_set_header_location_query :: "u8 list \<Rightarrow> coap_packet \<Rightarrow> (nat \<times> coap_packet) option" where
  "coap_set_header_location_query s pkt = do {
     s \<leftarrow> skip_char question_mark s;
     n \<leftarrow> strlen s;
     Some (n, SET_OPTION COAP_OPTION_LOCATION_QUERY (pkt\<lparr>location_query := Mem s, location_query_len := n\<rparr>))
   }"

definition coap_get_header_location_path :: "coap_packet \<Rightarrow> cptr \<Rightarrow> nat \<times> cptr" where
  "coap_get_header_location_path pkt out = (if \<not> IS_OPTION pkt COAP_OPTION_LOCATION_PATH then (0, out) else (location_path_len pkt, location_path pkt))"

definition coap_set_header_location_path :: "u8 list \<Rightarrow> coap_packet \<Rightarrow> (nat \<times> coap_packet) option" where
  "coap_set_header_location_path path pkt = do {
     path \<leftarrow> skip_char slash path;
     query \<leftarrow> strchr path question_mark;
     (n, pkt) \<leftarrow> (case query of
         Some q \<Rightarrow> map_option (\<lambda>(_, pkt). (q, pkt)) (coap_set_header_location_query (drop (q + 1) path) pkt)
       | None \<Rightarrow> map_option (\<lambda>n. (n, pkt)) (strlen path));
     let pkt = pkt\<lparr>location_path_len := n, location_path := Mem path\<rparr>;
     Some (n, if n > 0 then SET_OPTION COAP_OPTION_LOCATION_PATH pkt else pkt)
   }"

definition coap_get_header_observe :: "coap_packet \<Rightarrow> u32 \<Rightarrow> int \<times> u32" where
  "coap_get_header_observe pkt out = (if \<not> IS_OPTION pkt COAP_OPTION_OBSERVE then (0, out) else (1, observe pkt))"

definition coap_set_header_observe :: "u32 \<Rightarrow> coap_packet \<Rightarrow> int \<times> coap_packet" where
  "coap_set_header_observe v pkt = (1, SET_OPTION COAP_OPTION_OBSERVE (pkt\<lparr>observe := v\<rparr>))"

definition coap_get_header_block2 :: "coap_packet \<Rightarrow> u32 \<times> u8 \<times> u16 \<times> u32 \<Rightarrow> int \<times> u32 \<times> u8 \<times> u16 \<times> u32" where
  "coap_get_header_block2 pkt out = (if \<not> IS_OPTION pkt COAP_OPTION_BLOCK2 then (0, out)
     else (1, block2_num pkt, block2_more pkt, block2_size pkt, block2_offset pkt))"

definition coap_set_header_block2 :: "u32 \<Rightarrow> u8 \<Rightarrow> u16 \<Rightarrow> coap_packet \<Rightarrow> int \<times> coap_packet" where
  "coap_set_header_block2 num mo sz pkt = (if sz < 16 then (0, pkt) else if sz > 2048 then (0, pkt)
     else if num > 0x0FFFFF then (0, pkt)
     else (1, SET_OPTION COAP_OPTION_BLOCK2 (pkt\<lparr>block2_num := num, block2_more := (if mo \<noteq> 0 then 1 else 0), block2_size := sz\<rparr>)))"

definition coap_get_header_block1 :: "coap_packet \<Rightarrow> u32 \<times> u8 \<times> u16 \<times> u32 \<Rightarrow> int \<times> u32 \<times> u8 \<times> u16 \<times> u32" where
  "coap_get_header_block1 pkt out = (if \<not> IS_OPTION pkt COAP_OPTION_BLOCK1 then (0, out)
     else (1, block1_num pkt, block1_more pkt, block1_size pkt, block1_offset pkt))"

definition coap_set_header_block1 :: "u32 \<Rightarrow> u8 \<Rightarrow> u16 \<Rightarrow> coap_packet \<Rightarrow> int \<times> coap_packet" where
  "coap_set_header_block1 num mo sz pkt = (if sz < 16 then (0, pkt) else if sz > 2048 then (0, pkt)
     else if num > 0x0FFFFF then (0, pkt)
     else (1, SET_OPTION COAP_OPTION_BLOCK1 (pkt\<lparr>block1_num := num, block1_more := mo, block1_size := sz\<rparr>)))"

definition coap_get_header_size2 :: "coap_packet \<Rightarrow> u32 \<Rightarrow> int \<times> u32" where
  "coap_get_header_size2 pkt out = (if \<not> IS_OPTION pkt COAP_OPTION_SIZE2 then (0, out) else (1, size2 pkt))"

definition coap_set_header_size2 :: "u32 \<Rightarrow> coap_packet \<Rightarrow> int \<times> coap_packet" where
  "coap_set_header_size2 v pkt = (1, SET_OPTION COAP_OPTION_SIZE2 (pkt\<lparr>size2 := v\<rparr>))"

definition coap_get_header_size1 :: "coap_packet \<Rightarrow> u32 \<Rightarrow> int \<times> u32" where
  "coap_get_header_size1 pkt out = (if \<not> IS_OPTION pkt COAP_OPTION_SIZE1 then (0, out) else (1, size1 pkt))"

definition coap_set_header_size1 :: "u32 \<Rightarrow> coap_packet \<Rightarrow> int \<times> coap_packet" where
  "coap_set_header_size1 v pkt = (1, SET_OPTION COAP_OPTION_SIZE1 (pkt\<lparr>size1 := v\<rparr>))"

definition coap_get_payload :: "coap_packet \<Rightarrow> nat \<times> cptr" where
  "coap_get_payload pkt = (if payload pkt \<noteq> Null then (payload_len pkt, payload pkt) else (0, Null))"

definition coap_set_payload :: "cptr \<Rightarrow> nat \<Rightarrow> coap_packet \<Rightarrow> nat \<times> coap_packet" where
  "coap_set_payload p len pkt = (let n = min REST_MAX_CHUNK_SIZE len in (n, pkt\<lparr>payload := p, payload_len := n\<rparr>))"

end
