(* ===== verification/CoapMessage.thy ===== *)
theory CoapMessage
  imports Coap
begin

text \<open>
  Serialising and parsing of CoAP messages, \<open>coap_serialize_message\<close> and
  \<open>coap_parse_message\<close> of \<open>apps/er-coap/er-coap.c\<close>, against an abstract message:
  a header, a token, a list of numbered options, and a payload.
\<close>

section \<open>Serialising\<close>

definition COAP_SERIALIZE_INT_OPTION :: "coap_packet \<Rightarrow> nat \<Rightarrow> u32 \<Rightarrow> (u8 list \<times> nat) \<times> nat \<Rightarrow> ((u8 list \<times> nat) \<times> nat) option" where
  "COAP_SERIALIZE_INT_OPTION pkt number value = (\<lambda>(s, current_number). if IS_OPTION pkt number
     then map_option (\<lambda>s. (s, number)) (coap_serialize_int_option number current_number value s) else Some (s, current_number))"

definition COAP_SERIALIZE_BYTE_OPTION :: "coap_packet \<Rightarrow> nat \<Rightarrow> u8 list \<Rightarrow> nat \<Rightarrow> (u8 list \<times> nat) \<times> nat \<Rightarrow> ((u8 list \<times> nat) \<times> nat) option" where
  "COAP_SERIALIZE_BYTE_OPTION pkt number field len = (\<lambda>(s, current_number). if IS_OPTION pkt number
     then map_option (\<lambda>s. (s, number)) (coap_serialize_array_option number current_number field len 0 s) else Some (s, current_number))"

definition COAP_SERIALIZE_STRING_OPTION :: "coap_packet \<Rightarrow> nat \<Rightarrow> cptr \<Rightarrow> nat \<Rightarrow> u8 \<Rightarrow> (u8 list \<times> nat) \<times> nat \<Rightarrow> ((u8 list \<times> nat) \<times> nat) option" where
  "COAP_SERIALIZE_STRING_OPTION pkt number field len splitter = (\<lambda>(s, current_number). if IS_OPTION pkt number
     then do {
       a \<leftarrow> pointee (coap_buffer pkt) field;
       map_option (\<lambda>s. (s, number)) (coap_serialize_array_option number current_number a len splitter s)
     } else Some (s, current_number))"

definition block_value :: "u32 \<Rightarrow> u8 \<Rightarrow> u16 \<Rightarrow> u32" where
  "block_value num mo sz = (push_bit 4 num OR (if mo \<noteq> 0 then 0x8 else 0)) OR (0xF AND ucast (coap_log_2 (sz div 16)))"

definition COAP_SERIALIZE_BLOCK_OPTION :: "coap_packet \<Rightarrow> nat \<Rightarrow> u32 \<Rightarrow> u8 \<Rightarrow> u16 \<Rightarrow> (u8 list \<times> nat) \<times> nat \<Rightarrow> ((u8 list \<times> nat) \<times> nat) option" where
  "COAP_SERIALIZE_BLOCK_OPTION pkt number num mo sz = COAP_SERIALIZE_INT_OPTION pkt number (block_value num mo sz)"

definition serialize_options :: "coap_packet \<Rightarrow> (u8 list \<times> nat) \<times> nat \<Rightarrow> ((u8 list \<times> nat) \<times> nat) option" where
  "serialize_options p o0 = do {
     o1 \<leftarrow> COAP_SERIALIZE_BYTE_OPTION p COAP_OPTION_IF_MATCH (if_match p) (if_match_len p) o0;
     o2 \<leftarrow> COAP_SERIALIZE_STRING_OPTION p COAP_OPTION_URI_HOST (uri_host p) (uri_host_len p) 0 o1;
     o3 \<leftarrow> COAP_SERIALIZE_BYTE_OPTION p COAP_OPTION_ETAG (etag p) (etag_len p) o2;
     o4 \<leftarrow> COAP_SERIALIZE_INT_OPTION p COAP_OPTION_IF_NONE_MATCH (content_format p - content_format p) o3;
     o5 \<leftarrow> COAP_SERIALIZE_INT_OPTION p COAP_OPTION_OBSERVE (observe p) o4;
     o6 \<leftarrow> COAP_SERIALIZE_INT_OPTION p COAP_OPTION_URI_PORT (ucast (uri_port p)) o5;
     o7 \<leftarrow> COAP_SERIALIZE_STRING_OPTION p COAP_OPTION_LOCATION_PATH (location_path p) (location_path_len p) slash o6;
     o8 \<leftarrow> COAP_SERIALIZE_STRING_OPTION p COAP_OPTION_URI_PATH (uri_path p) (uri_path_len p) slash o7;
     o9 \<leftarrow> COAP_SERIALIZE_INT_OPTION p COAP_OPTION_CONTENT_FORMAT (content_format p) o8;
     o10 \<leftarrow> COAP_SERIALIZE_INT_OPTION p COAP_OPTION_MAX_AGE (max_age p) o9;
     o11 \<leftarrow> COAP_SERIALIZE_STRING_OPTION p COAP_OPTION_URI_QUERY (uri_query p) (uri_query_len p) ampersand o10;
     o12 \<leftarrow> COAP_SERIALIZE_INT_OPTION p COAP_OPTION_ACCEPT (accept p) o11;
     o13 \<leftarrow> COAP_SERIALIZE_STRING_OPTION p COAP_OPTION_LOCATION_QUERY (location_query p) (location_query_len p) ampersand o12;
     o14 \<leftarrow> COAP_SERIALIZE_BLOCK_OPTION p COAP_OPTION_BLOCK2 (block2_num p) (block2_more p) (block2_size p) o13;
     o15 \<leftarrow> COAP_SERIALIZE_BLOCK_OPTION p COAP_OPTION_BLOCK1 (block1_num p) (block1_more p) (block1_size p) o14;
     o16 \<leftarrow> COAP_SERIALIZE_INT_OPTION p COAP_OPTION_SIZE2 (size2 p) o15;
     o17 \<leftarrow> COAP_SERIALIZE_STRING_OPTION p COAP_OPTION_PROXY_URI (proxy_uri p) (proxy_uri_len p) 0 o16;
     o18 \<leftarrow> COAP_SERIALIZE_STRING_OPTION p COAP_OPTION_PROXY_SCHEME (proxy_scheme p) (proxy_scheme_len p) 0 o17;
     COAP_SERIALIZE_INT_OPTION p COAP_OPTION_SIZE1 (size1 p) o18
   }"

text \<open>
  The result is the length and the contents of the output buffer; the packet's
  own pointers still refer to the buffer it had before. Length 0 is the error
  of a header that is too long.
\<close>

definition coap_serialize_message :: "coap_packet \<Rightarrow> u8 list \<Rightarrow> (nat \<times> coap_packet \<times> u8 list) option" where
  "coap_serialize_message pkt buffer = (let p = pkt\<lparr>version := 1\<rparr>;
     b0 = 0 OR (0xC0 AND push_bit 6 (version p));
     b0 = b0 OR (0x30 AND push_bit 4 (msg_type p));
     b0 = b0 OR (0x0F AND of_nat (token_len p)) in do {
     s \<leftarrow> put b0 (buffer, 0);
     s \<leftarrow> put (code p) s;
     s \<leftarrow> put (ucast (drop_bit 8 (mid p))) s;
     s \<leftarrow> put (ucast (mid p)) s;
     (if code p = 0 then Some (4, p, fst s) else do {
       t \<leftarrow> read_bytes 0 (token_len p) (token p);
       s \<leftarrow> puts t s;
       (s, current_number) \<leftarrow> serialize_options p (s, 0);
       (if snd s \<le> COAP_MAX_HEADER_SIZE
        then if payload_len p = 0 then Some (snd s, p, fst s)
          else do {
            s \<leftarrow> put 0xFF s;
            m \<leftarrow> pointee (coap_buffer p) (payload p);
            bs \<leftarrow> read_bytes 0 (payload_len p) m;
            let opt = snd s;
            s \<leftarrow> puts bs s;
            Some (opt + payload_len p, p, fst s)
          }
        else Some (0, p, fst s))
     })
   })"

section \<open>Parsing\<close>

definition parse_ext :: "u8 list \<Rightarrow> nat \<Rightarrow> nat \<Rightarrow> (nat \<times> nat) option" where
  "parse_ext buf x pos = (if x = 13 then do { b \<leftarrow> get buf pos; Some (x + unat b, pos + 1) }
     else if x = 14 then do { hi \<leftarrow> get buf pos; lo \<leftarrow> get buf (pos + 1); Some (x + 255 + unat hi * 256 + unat lo, pos + 2) }
     else Some (x, pos))"

definition block_offset :: "u32 \<Rightarrow> u32" where
  "block_offset num = push_bit (unat (num AND 0x07)) (num AND NOT 0xF)"

text \<open>The switch over the option numbers; \<^term>\<open>Some st\<close> returns the status \<open>st\<close>.\<close>

definition int_option :: "coap_packet \<Rightarrow> nat \<Rightarrow> nat \<Rightarrow> (u32 \<Rightarrow> coap_packet) \<Rightarrow> (coap_status option \<times> coap_packet) option" where
  "int_option pkt pos len upd = map_option (\<lambda>bs. (None, upd (coap_parse_int_option bs))) (read_bytes pos len (coap_buffer pkt))"

definition tag_option :: "coap_packet \<Rightarrow> nat \<Rightarrow> nat \<Rightarrow> u8 list \<Rightarrow> (nat \<Rightarrow> u8 list \<Rightarrow> coap_packet) \<Rightarrow> (coap_status option \<times> coap_packet) option" where
  "tag_option pkt pos len field upd = (let n = min COAP_ETAG_LEN len in do {
     bs \<leftarrow> read_bytes pos n (coap_buffer pkt);
     t \<leftarrow> write_bytes 0 bs field;
     Some (None, upd n t)
   })"

definition merge_option :: "coap_packet \<Rightarrow> nat \<Rightarrow> nat \<Rightarrow> cptr \<Rightarrow> nat \<Rightarrow> u8 \<Rightarrow> (cptr \<Rightarrow> nat \<Rightarrow> coap_packet \<Rightarrow> coap_packet) \<Rightarrow>
    (coap_status option \<times> coap_packet) option" where
  "merge_option pkt pos len dst dst_len sep upd = map_option (\<lambda>(buf, dst, n). (None, upd dst n (pkt\<lparr>coap_buffer := buf\<rparr>)))
     (coap_merge_multi_option (coap_buffer pkt) dst dst_len pos len sep)"

definition handle_option :: "nat \<Rightarrow> nat \<Rightarrow> nat \<Rightarrow> coap_packet \<Rightarrow> (coap_status option \<times> coap_packet) option" where
  "handle_option num pos len p =
    (if num = COAP_OPTION_CONTENT_FORMAT then int_option p pos len (\<lambda>v. p\<lparr>content_format := v\<rparr>)
     else if num = COAP_OPTION_MAX_AGE then int_option p pos len (\<lambda>v. p\<lparr>max_age := v\<rparr>)
     else if num = COAP_OPTION_ETAG then tag_option p pos len (etag p) (\<lambda>n t. p\<lparr>etag_len := n, etag := t\<rparr>)
     else if num = COAP_OPTION_ACCEPT then int_option p pos len (\<lambda>v. p\<lparr>accept := v\<rparr>)
     else if num = COAP_OPTION_IF_MATCH then tag_option p pos len (if_match p) (\<lambda>n t. p\<lparr>if_match_len := n, if_match := t\<rparr>)
     else if num = COAP_OPTION_IF_NONE_MATCH then Some (None, p\<lparr>if_none_match := 1\<rparr>)
     else if num = COAP_OPTION_PROXY_URI then Some (Some PROXYING_NOT_SUPPORTED_5_05, p)
     else if num = COAP_OPTION_PROXY_SCHEME then Some (Some PROXYING_NOT_SUPPORTED_5_05, p)
     else if num = COAP_OPTION_URI_HOST then Some (None, p\<lparr>uri_host := Buf pos, uri_host_len := len\<rparr>)
     else if num = COAP_OPTION_URI_PORT then int_option p pos len (\<lambda>v. p\<lparr>uri_port := ucast v\<rparr>)
     else if num = COAP_OPTION_URI_PATH then merge_option p pos len (uri_path p) (uri_path_len p) slash
       (\<lambda>d n p. p\<lparr>uri_path := d, uri_path_len := n\<rparr>)
     else if num = COAP_OPTION_URI_QUERY then merge_option p pos len (uri_query p) (uri_query_len p) ampersand
       (\<lambda>d n p. p\<lparr>uri_query := d, uri_query_len := n\<rparr>)
     else if num = COAP_OPTION_LOCATION_PATH then merge_option p pos len (location_path p) (location_path_len p) slash
       (\<lambda>d n p. p\<lparr>location_path := d, location_path_len := n\<rparr>)
     else if num = COAP_OPTION_LOCATION_QUERY then merge_option p pos len (location_query p) (location_query_len p) ampersand
       (\<lambda>d n p. p\<lparr>location_query := d, location_query_len := n\<rparr>)
     else if num = COAP_OPTION_OBSERVE then int_option p pos len (\<lambda>v. p\<lparr>observe := v\<rparr>)
     else if num = COAP_OPTION_BLOCK2 then int_option p pos len (\<lambda>v. p\<lparr>block2_more := ucast (drop_bit 3 (v AND 0x08)),
       block2_size := ucast (push_bit (unat (v AND 0x07)) (16 :: u32)), block2_offset := block_offset v, block2_num := drop_bit 4 v\<rparr>)
     else if num = COAP_OPTION_BLOCK1 then int_option p pos len (\<lambda>v. p\<lparr>block1_more := ucast (drop_bit 3 (v AND 0x08)),
       block1_size := ucast (push_bit (unat (v AND 0x07)) (16 :: u32)), block1_offset := block_offset v, block1_num := drop_bit 4 v\<rparr>)
     else if num = COAP_OPTION_SIZE2 then int_option p pos len (\<lambda>v. p\<lparr>size2 := v\<rparr>)
     else if num = COAP_OPTION_SIZE1 then int_option p pos len (\<lambda>v. p\<lparr>size1 := v\<rparr>)
     else if odd num then Some (Some BAD_OPTION_4_02, p)
     else Some (None, p))"

text \<open>One round of the loop over the options, which returns or goes on behind the option.\<close>

datatype round = Stop coap_status coap_packet | Next coap_packet nat nat

definition parse_step :: "nat \<Rightarrow> coap_packet \<Rightarrow> nat \<Rightarrow> nat \<Rightarrow> round option" where
  "parse_step data_len p pos num = do {
     b \<leftarrow> get (coap_buffer p) pos;
     (if b AND 0xF0 = 0xF0 then (let n = min (data_len - (pos + 1)) REST_MAX_CHUNK_SIZE in
        map_option (\<lambda>buf. Stop NO_ERROR (p\<lparr>payload := Buf (pos + 1), payload_len := n, coap_buffer := buf\<rparr>))
          (write_bytes (pos + 1 + n) [0] (coap_buffer p)))
      else do {
        (delta, pos) \<leftarrow> parse_ext (coap_buffer p) (unat (drop_bit 4 b)) (pos + 1);
        (len, pos) \<leftarrow> parse_ext (coap_buffer p) (unat (b AND 0x0F)) pos;
        let num = num + delta;
        (if num div OPTION_MAP_SIZE < length (options p) then do {
           (st, p) \<leftarrow> handle_option num pos len (SET_OPTION num p);
           Some (case st of Some st \<Rightarrow> Stop st p | None \<Rightarrow> Next p (pos + len) num)
         } else None)
      })
   }"

lemma parse_ext_advances: "parse_ext buf x pos = Some (y, pos') \<Longrightarrow> pos \<le> pos'"
  by (auto simp: parse_ext_def bind_eq_Some_conv split: if_splits)

lemma parse_step_advances:
  assumes "parse_step data_len p pos num = Some (Next p' pos' num')"
  shows "pos < pos'"
  using assms
  by (auto simp: parse_step_def bind_eq_Some_conv Let_def split: if_splits option.splits dest!: parse_ext_advances)

function (sequential) parse_loop :: "nat \<Rightarrow> coap_packet \<Rightarrow> nat \<Rightarrow> nat \<Rightarrow> (coap_status \<times> coap_packet) option" where
  "parse_loop data_len p pos num = (if pos < data_len then
      (case parse_step data_len p pos num of
         None \<Rightarrow> None
       | Some (Stop st p) \<Rightarrow> Some (st, p)
       | Some (Next p pos num) \<Rightarrow> parse_loop data_len p pos num)
    else Some (NO_ERROR, p))"
  by pat_completeness auto
termination by (relation "measure (\<lambda>(n, _, pos, _). n - pos)") (auto dest: parse_step_advances)

declare parse_loop.simps [simp del]

definition coap_parse_message :: "u8 list \<Rightarrow> nat \<Rightarrow> (coap_status \<times> coap_packet) option" where
  "coap_parse_message data data_len = do {
     b0 \<leftarrow> get data 0;
     b1 \<leftarrow> get data 1;
     b2 \<leftarrow> get data 2;
     b3 \<leftarrow> get data 3;
     let n = min COAP_TOKEN_LEN (unat (0x0F AND b0));
     let p = zero_packet\<lparr>coap_buffer := data, version := drop_bit 6 (0xC0 AND b0), msg_type := drop_bit 4 (0x30 AND b0),
       token_len := n, code := b1, mid := push_bit 8 (ucast b2) OR ucast b3\<rparr>;
     (if version p \<noteq> 1 then Some (BAD_REQUEST_4_00, p)
      else do {
        t \<leftarrow> read_bytes COAP_HEADER_LEN n data;
        t \<leftarrow> write_bytes 0 t (token p);
        parse_loop data_len (p\<lparr>token := t\<rparr>) (COAP_HEADER_LEN + n) 0
      })
   }"

end
