(* ===== verification/CoapSerialize.thy ===== *)
theory CoapSerialize
  imports CoapMessage
begin

text \<open>
  The CoAP codec against its specification: a message is a header, a token, a
  list of numbered options with byte values, and a payload. The serialiser
  writes the encoding of the options that are set in the packet; the parser
  takes an encoding to the packet that holds the values of its options.
\<close>

section \<open>Abstract messages\<close>

text \<open>An option is its number and its value; the encoding gives the number as the difference to the one before.\<close>

type_synonym opt = "nat \<times> u8 list"

definition ext_bytes :: "nat \<Rightarrow> u8 list" where
  "ext_bytes x = (if x > 268 then [of_nat ((x - 269) div 256), of_nat (x - 269)] else if x > 12 then [of_nat (x - 13)] else [])"

definition enc_header :: "nat \<Rightarrow> nat \<Rightarrow> u8 list" where
  "enc_header delta len = (push_bit 4 (coap_option_nibble delta) OR coap_option_nibble len) # ext_bytes delta @ ext_bytes len"

fun enc_options :: "nat \<Rightarrow> opt list \<Rightarrow> u8 list" where
  "enc_options n [] = []"
| "enc_options n ((m, v) # os) = enc_header (m - n) (length v) @ v @ enc_options m os"

fun last_number :: "nat \<Rightarrow> opt list \<Rightarrow> nat" where
  "last_number n [] = n"
| "last_number n ((m, v) # os) = last_number m os"

lemma enc_options_append: "enc_options n (os @ ps) = enc_options n os @ enc_options (last_number n os) ps"
  by (induction n os rule: enc_options.induct) simp_all

lemma last_number_append: "last_number n (os @ ps) = last_number (last_number n os) ps"
  by (induction n os rule: enc_options.induct) simp_all

section \<open>The serialiser writes the encoding\<close>

lemma puts_Nil: "puts [] = Some"
  by (rule ext) simp

lemma if_puts2: "(if b then Option.bind (put u s) (put v) else if c then put w s else Some s) =
    puts (if b then [u, v] else if c then [w] else []) s"
  by (simp add: puts_Nil put_eq_puts puts_bind del: puts.simps)

lemma put_extended_puts: "put_extended x = puts (ext_bytes x)"
  by (rule ext) (unfold put_extended_def ext_bytes_def, rule if_puts2)

lemma option_header_puts: "coap_set_option_header delta len = puts (enc_header delta len)"
  by (rule ext) (simp only: coap_set_option_header_def enc_header_def put_extended_puts put_eq_puts puts_bind
    puts_bind2 append.simps append_assoc)

definition int_bytes :: "u32 \<Rightarrow> u8 list" where
  "int_bytes v = (if 0xFF000000 AND v \<noteq> 0 then [ucast (drop_bit 24 v)] else []) @
     (if 0xFFFF0000 AND v \<noteq> 0 then [ucast (drop_bit 16 v)] else []) @
     (if 0xFFFFFF00 AND v \<noteq> 0 then [ucast (drop_bit 8 v)] else []) @
     (if 0xFFFFFFFF AND v \<noteq> 0 then [ucast v] else [])"

lemma int_option_puts: "coap_serialize_int_option m n v = puts (enc_options n [(m, int_bytes v)])"
proof (rule ext)
  fix s
  have i: "(if b then put x s else Some s) = puts (if b then [x] else []) s" for b x s
    by (simp add: puts_Nil)
  have l: "(if b1 then 1 else 0) + (if b2 then 1 else 0) + (if b3 then 1 else 0) + (if b4 then 1 else (0 :: nat)) =
    length ((if b1 then [x1 :: u8] else []) @ (if b2 then [x2] else []) @ (if b3 then [x3] else []) @ (if b4 then [x4] else []))"
    for b1 b2 b3 b4 x1 x2 x3 x4 by simp
  show "coap_serialize_int_option m n v s = puts (enc_options n [(m, int_bytes v)]) s"
    unfolding coap_serialize_int_option_def Let_def option_header_puts i puts_bind2 puts_bind l
      [of _ _ _ _ "ucast (drop_bit 24 v)" "ucast (drop_bit 16 v)" "ucast (drop_bit 8 v)" "ucast v"]
    by (simp only: enc_options.simps int_bytes_def append_assoc append_Nil2)
qed

text \<open>A string option is sent as one option for every part of the string between the splitters.\<close>

fun parts :: "u8 \<Rightarrow> u8 list \<Rightarrow> u8 list list" where
  "parts c [] = [[]]"
| "parts c (x # xs) = (if x = c then [] # parts c xs else (x # hd (parts c xs)) # tl (parts c xs))"

text \<open>The strings the loop over the parts is written for: no empty part unless the string is empty.\<close>

definition no_empty_part :: "u8 \<Rightarrow> u8 list \<Rightarrow> bool" where
  "no_empty_part c s \<longleftrightarrow> s = [] \<or> [] \<notin> set (parts c s)"

lemma parts_ne [simp]: "parts c s \<noteq> []"
  by (cases s) auto

lemma parts_append: "c \<notin> set cur \<Longrightarrow> parts c (cur @ s) = (cur @ hd (parts c s)) # tl (parts c s)"
  by (induction cur) auto

lemma parts_single: "c \<notin> set cur \<Longrightarrow> parts c cur = [cur]"
  using parts_append [of c cur "[]"] by simp

lemma parts_split: "c \<notin> set cur \<Longrightarrow> parts c (cur @ c # s) = cur # parts c s"
  using parts_append [of c cur "c # s"] by simp

lemma hd_parts_Nil: "[] \<notin> set (parts c s) \<Longrightarrow> \<exists>y s'. s = y # s' \<and> y \<noteq> c"
  by (cases s) (auto split: if_splits)

lemma read_part: "read_bytes (length pre) (length cur) (pre @ cur @ rest) = Some cur"
  by simp

lemma array_loop_end: "len + 1 < j \<Longrightarrow> array_loop number a len c j start current = Some"
  by (rule ext, subst array_loop.simps) simp

lemma array_loop_emit:
  assumes "j \<le> len" and "get a j = Some x" and "x = c \<or> j = len" and "read_bytes start (j - start) a = Some part"
    and "length part = j - start"
  shows "array_loop number a len c j start current s =
    Option.bind (puts (enc_options current [(number, part)]) s) (array_loop number a len c (j + 2) (j + 1) number)"
proof -
  have "do { s \<leftarrow> coap_set_option_header (number - current) (j - start) s; part \<leftarrow> read_bytes start (j - start) a; puts part s } =
      puts (enc_options current [(number, part)]) s"
    using assms(4,5) by (simp add: option_header_puts puts_bind)
  then show ?thesis
    using assms(1-3) by (subst array_loop.simps) (simp split: option.split)
qed

lemma array_loop_next:
  "j < len \<Longrightarrow> get a j = Some x \<Longrightarrow> x \<noteq> c \<Longrightarrow> array_loop number a len c j start current s = array_loop number a len c (j + 1) start current s"
  by (subst array_loop.simps) simp

lemma array_loop_puts:
  assumes "c \<notin> set cur" and "cur = [] \<longrightarrow> rest = [] \<or> hd rest \<noteq> c" and "[] \<notin> set (tl (parts c (cur @ rest)))" and "behind \<noteq> []"
  shows "array_loop number (pre @ cur @ rest @ behind) (length pre + length cur + length rest) c (length pre + length cur)
      (length pre) current s = puts (enc_options current (map (Pair number) (parts c (cur @ rest)))) s"
  using assms
proof (induction "length rest" arbitrary: pre cur rest current s rule: less_induct)
  case less
  let ?a = "pre @ cur @ rest @ behind"
  have get_rest: "get ?a (length pre + length cur) = Some (hd (rest @ behind))"
    using less.prems(4) by (cases "rest @ behind") (auto simp: get_def nth_append)
  note emit = array_loop_emit [OF _ get_rest, where start = "length pre" and part = cur]
  show ?case
  proof (cases rest)
    case Nil
    then show ?thesis
      using less.prems(1) by (subst emit) (auto simp: parts_single array_loop_end)
  next
    case (Cons x rest')
    show ?thesis
    proof (cases "x = c")
      case True
      with Cons less.prems have ne: "[] \<notin> set (parts c rest')" "cur \<noteq> []"
        by (auto simp: parts_split)
      then obtain y r where r: "rest' = y # r" "y \<noteq> c" using hd_parts_Nil by blast
      have ih: "array_loop number ((pre @ cur @ [c]) @ [y] @ r @ behind) (length (pre @ cur @ [c]) + length [y] + length r) c
          (length (pre @ cur @ [c]) + length [y]) (length (pre @ cur @ [c])) number =
          puts (enc_options number (map (Pair number) (parts c ([y] @ r))))"
        using ne r Cons less.prems(4) by (intro ext less.hyps) (auto dest: list.set_sel(2) [rotated])
      show ?thesis
        using ih Cons True r less.prems(1)
        by (subst emit) (auto simp: parts_split puts_bind)
    next
      case False
      then show ?thesis
        using less.hyps [of rest' "cur @ [x]" pre current s] less.prems Cons get_rest
        by (subst array_loop_next) (auto simp: parts_append)
    qed
  qed
qed

lemma serialize_parts:
  assumes "no_empty_part c (take len m)" and "len < length m" and "c \<noteq> 0"
  shows "coap_serialize_array_option number current m len c = puts (enc_options current (map (Pair number) (parts c (take len m))))"
proof (rule ext)
  fix s
  have "[] \<notin> set (tl (parts c (take len m)))" and "take len m = [] \<or> hd (take len m) \<noteq> c"
    using assms(1) by (cases "take len m"; auto simp: no_empty_part_def dest: list.set_sel(2) [OF parts_ne])+
  then show "coap_serialize_array_option number current m len c s =
      puts (enc_options current (map (Pair number) (parts c (take len m)))) s"
    using array_loop_puts [of c "[]" "take len m" "drop len m" number "[]" current s] assms(2,3)
    by (simp add: coap_serialize_array_option_def)
qed

lemma serialize_whole:
  assumes "len \<le> length m"
  shows "coap_serialize_array_option number current m len 0 = puts (enc_options current [(number, take len m)])"
  using assms by (intro ext) (simp add: coap_serialize_array_option_def option_header_puts puts_bind read_bytes_def)

text \<open>The options that are set in a packet, in the order of their numbers.\<close>

definition str :: "coap_packet \<Rightarrow> cptr \<Rightarrow> nat \<Rightarrow> u8 list" where
  "str p ptr len = (case pointee (coap_buffer p) ptr of None \<Rightarrow> [] | Some m \<Rightarrow> take len m)"

definition str_ok :: "u8 \<Rightarrow> coap_packet \<Rightarrow> cptr \<Rightarrow> nat \<Rightarrow> bool" where
  "str_ok c p ptr len \<longleftrightarrow> (case pointee (coap_buffer p) ptr of None \<Rightarrow> False | Some m \<Rightarrow> len < length m) \<and>
     (c \<noteq> 0 \<longrightarrow> no_empty_part c (str p ptr len))"

definition opt_if :: "coap_packet \<Rightarrow> nat \<Rightarrow> u8 list list \<Rightarrow> opt list" where
  "opt_if p n vs = (if IS_OPTION p n then map (Pair n) vs else [])"

definition packet_opts :: "coap_packet \<Rightarrow> opt list" where
  "packet_opts p =
     opt_if p COAP_OPTION_IF_MATCH [take (if_match_len p) (if_match p)] @
     opt_if p COAP_OPTION_URI_HOST [str p (uri_host p) (uri_host_len p)] @
     opt_if p COAP_OPTION_ETAG [take (etag_len p) (etag p)] @
     opt_if p COAP_OPTION_IF_NONE_MATCH [int_bytes 0] @
     opt_if p COAP_OPTION_OBSERVE [int_bytes (observe p)] @
     opt_if p COAP_OPTION_URI_PORT [int_bytes (ucast (uri_port p))] @
     opt_if p COAP_OPTION_LOCATION_PATH (parts slash (str p (location_path p) (location_path_len p))) @
     opt_if p COAP_OPTION_URI_PATH (parts slash (str p (uri_path p) (uri_path_len p))) @
     opt_if p COAP_OPTION_CONTENT_FORMAT [int_bytes (content_format p)] @
     opt_if p COAP_OPTION_MAX_AGE [int_bytes (max_age p)] @
     opt_if p COAP_OPTION_URI_QUERY (parts ampersand (str p (uri_query p) (uri_query_len p))) @
     opt_if p COAP_OPTION_ACCEPT [int_bytes (accept p)] @
     opt_if p COAP_OPTION_LOCATION_QUERY (parts ampersand (str p (location_query p) (location_query_len p))) @
     opt_if p COAP_OPTION_BLOCK2 [int_bytes (block_value (block2_num p) (block2_more p) (block2_size p))] @
     opt_if p COAP_OPTION_BLOCK1 [int_bytes (block_value (block1_num p) (block1_more p) (block1_size p))] @
     opt_if p COAP_OPTION_SIZE2 [int_bytes (size2 p)] @
     opt_if p COAP_OPTION_PROXY_URI [str p (proxy_uri p) (proxy_uri_len p)] @
     opt_if p COAP_OPTION_PROXY_SCHEME [str p (proxy_scheme p) (proxy_scheme_len p)] @
     opt_if p COAP_OPTION_SIZE1 [int_bytes (size1 p)]"

text \<open>A packet whose options lie in memory: byte strings in their arrays, strings before a terminator.\<close>

definition str_if :: "u8 \<Rightarrow> coap_packet \<Rightarrow> nat \<Rightarrow> cptr \<Rightarrow> nat \<Rightarrow> bool" where
  "str_if c p n ptr len \<longleftrightarrow> (IS_OPTION p n \<longrightarrow> str_ok c p ptr len)"

definition packet_wf :: "coap_packet \<Rightarrow> bool" where
  "packet_wf p \<longleftrightarrow>
     if_match_len p \<le> COAP_ETAG_LEN \<and> length (if_match p) = COAP_ETAG_LEN \<and>
     etag_len p \<le> COAP_ETAG_LEN \<and> length (etag p) = COAP_ETAG_LEN \<and>
     token_len p \<le> COAP_TOKEN_LEN \<and> length (token p) = COAP_TOKEN_LEN \<and> length (options p) = 8 \<and>
     str_if 0 p COAP_OPTION_URI_HOST (uri_host p) (uri_host_len p) \<and>
     str_if slash p COAP_OPTION_LOCATION_PATH (location_path p) (location_path_len p) \<and>
     str_if slash p COAP_OPTION_URI_PATH (uri_path p) (uri_path_len p) \<and>
     str_if ampersand p COAP_OPTION_URI_QUERY (uri_query p) (uri_query_len p) \<and>
     str_if ampersand p COAP_OPTION_LOCATION_QUERY (location_query p) (location_query_len p) \<and>
     str_if 0 p COAP_OPTION_PROXY_URI (proxy_uri p) (proxy_uri_len p) \<and>
     str_if 0 p COAP_OPTION_PROXY_SCHEME (proxy_scheme p) (proxy_scheme_len p)"

text \<open>A step of the serialiser writes some options behind the ones before.\<close>

definition emits :: "((u8 list \<times> nat) \<times> nat \<Rightarrow> ((u8 list \<times> nat) \<times> nat) option) \<Rightarrow> opt list \<Rightarrow> bool" where
  "emits f os \<longleftrightarrow> (\<forall>s n. f (s, n) = map_option (\<lambda>s. (s, last_number n os)) (puts (enc_options n os) s))"

lemma emits_bind:
  assumes "emits f os" and "emits g ps"
  shows "emits (\<lambda>o0. Option.bind (f o0) g) (os @ ps)"
  using assms unfolding emits_def
  by (auto simp: enc_options_append last_number_append puts_append Option.bind_map_option comp_def map_option_bind
      intro!: arg_cong2 [where f = Option.bind])

lemma last_number_same: "vs \<noteq> [] \<Longrightarrow> last_number n (map (Pair m) vs) = m"
  by (induction vs arbitrary: n) (auto simp: neq_Nil_conv, metis list.map_disc_iff last_number.simps list.exhaust)

lemma emits_int: "emits (COAP_SERIALIZE_INT_OPTION p n v) (opt_if p n [int_bytes v])"
  by (simp add: emits_def COAP_SERIALIZE_INT_OPTION_def opt_if_def int_option_puts)

lemma emits_block: "emits (COAP_SERIALIZE_BLOCK_OPTION p n num mo sz) (opt_if p n [int_bytes (block_value num mo sz)])"
  unfolding COAP_SERIALIZE_BLOCK_OPTION_def by (rule emits_int)

lemma emits_byte: "len \<le> length field \<Longrightarrow> emits (COAP_SERIALIZE_BYTE_OPTION p n field len) (opt_if p n [take len field])"
  by (simp add: emits_def COAP_SERIALIZE_BYTE_OPTION_def opt_if_def serialize_whole)

lemma emits_whole: "str_if 0 p n ptr len \<Longrightarrow> emits (COAP_SERIALIZE_STRING_OPTION p n ptr len 0) (opt_if p n [str p ptr len])"
  by (auto simp: emits_def COAP_SERIALIZE_STRING_OPTION_def opt_if_def str_if_def str_ok_def str_def serialize_whole split: option.splits)

lemma emits_parts:
  "str_if c p n ptr len \<Longrightarrow> c \<noteq> 0 \<Longrightarrow> emits (COAP_SERIALIZE_STRING_OPTION p n ptr len c) (opt_if p n (parts c (str p ptr len)))"
  by (auto simp: emits_def COAP_SERIALIZE_STRING_OPTION_def opt_if_def str_if_def str_ok_def str_def serialize_parts last_number_same
      split: option.splits)

lemma splitters [simp]: "slash \<noteq> 0" "ampersand \<noteq> 0"
  by (simp_all add: slash_def ampersand_def)

lemma serialize_options_emits:
  assumes "packet_wf p"
  shows "emits (serialize_options p) (packet_opts p)"
proof -
  have z: "content_format p - content_format p = 0" by simp
  from assms show ?thesis
    unfolding serialize_options_def packet_opts_def packet_wf_def z
    by (intro emits_bind emits_int emits_block emits_byte emits_whole emits_parts splitters) simp_all
qed

text \<open>The bytes of a message.\<close>

definition message_header :: "coap_packet \<Rightarrow> u8 list" where
  "message_header p = [((0xC0 AND push_bit 6 1) OR (0x30 AND push_bit 4 (msg_type p))) OR (0x0F AND of_nat (token_len p)),
     code p, ucast (drop_bit 8 (mid p)), ucast (mid p)]"

definition message_options :: "coap_packet \<Rightarrow> u8 list" where
  "message_options p = message_header p @ take (token_len p) (token p) @ enc_options 0 (packet_opts p)"

definition message_payload :: "coap_packet \<Rightarrow> u8 list" where
  "message_payload p = (if payload_len p = 0 then [] else 0xFF # str p (payload p) (payload_len p))"

definition payload_ok :: "coap_packet \<Rightarrow> bool" where
  "payload_ok p \<longleftrightarrow> (payload_len p > 0 \<longrightarrow>
     (case pointee (coap_buffer p) (payload p) of None \<Rightarrow> False | Some m \<Rightarrow> payload_len p \<le> length m))"

lemma version_update [simp]:
  "packet_opts (p\<lparr>version := v\<rparr>) = packet_opts p" "packet_wf (p\<lparr>version := v\<rparr>) = packet_wf p"
  by (simp_all add: packet_opts_def packet_wf_def opt_if_def str_def str_if_def str_ok_def IS_OPTION_def)

lemma serialize_message:
  assumes "packet_wf p" and "payload_ok p" and "code p \<noteq> 0"
    and "length (message_options p) \<le> COAP_MAX_HEADER_SIZE"
    and "length (message_options p @ message_payload p) \<le> length buf"
  shows "coap_serialize_message p buf = Some (length (message_options p @ message_payload p), p\<lparr>version := 1\<rparr>,
    message_options p @ message_payload p @ drop (length (message_options p @ message_payload p)) buf)"
proof -
  let ?q = "p\<lparr>version := 1\<rparr>"
  have opts: "serialize_options ?q (s, 0) = map_option (\<lambda>s. (s, last_number 0 (packet_opts p))) (puts (enc_options 0 (packet_opts p)) s)" for s
    using serialize_options_emits [of ?q] assms(1) by (cases s) (simp add: emits_def)
  have tok: "read_bytes 0 (token_len p) (token p) = Some (take (token_len p) (token p))"
    using assms(1) by (simp add: packet_wf_def read_bytes_def)
  let ?m = "message_options p" and ?w = "message_payload p"
  have m: "message_header p @ take (token_len p) (token p) @ enc_options 0 (packet_opts p) = ?m"
    by (simp add: message_options_def)
  have step: "coap_serialize_message p buf = Option.bind (puts ?m (buf, 0)) (\<lambda>s.
      if snd s \<le> COAP_MAX_HEADER_SIZE then if payload_len p = 0 then Some (snd s, ?q, fst s)
        else do {
          s \<leftarrow> put 0xFF s;
          m \<leftarrow> pointee (coap_buffer p) (payload p);
          bs \<leftarrow> read_bytes 0 (payload_len p) m;
          let opt = snd s;
          s \<leftarrow> puts bs s;
          Some (opt + payload_len p, ?q, fst s)
        }
      else Some (0, ?q, fst s))"
    unfolding m [symmetric]
    using assms(3) by (simp add: coap_serialize_message_def Let_def opts tok message_header_def puts_append Option.bind_map_option comp_def cong: if_cong)
  show ?thesis
  proof (cases "payload_len p = 0")
    case True
    then show ?thesis using assms(4,5) by (simp add: step puts_0 message_payload_def)
  next
    case False
    then obtain pm where pm: "pointee (coap_buffer p) (payload p) = Some pm" "payload_len p \<le> length pm"
      using assms(2) by (auto simp: payload_ok_def split: option.splits)
    then have w: "?w = 0xFF # take (payload_len p) pm"
      using False by (simp add: message_payload_def str_def)
    have "put 0xFF (?m @ drop (length ?m) buf, length ?m) = Some ((?m @ [0xFF]) @ drop (length (?m @ [0xFF])) buf, length (?m @ [0xFF]))"
      using assms(5) w by (simp add: put_def list_update_append drop_Suc flip: Cons_nth_drop_Suc)
    then show ?thesis
      using False pm assms(4,5)
      by (simp add: step w puts_0 read_bytes_def Let_def puts_at [of _ "?m @ [0xFF]", simplified] add.commute)
  qed
qed

end
