(* ===== verification/CoapParse.thy ===== *)
theory CoapParse
  imports CoapSerialize
begin

text \<open>
  Parsing of encoded messages: the parser of \<open>apps/er-coap/er-coap.c\<close> takes the
  encoding of a list of options to the packet that holds their values.
\<close>

section \<open>Option headers\<close>

definition encodable :: "nat \<Rightarrow> bool" where
  "encodable x \<longleftrightarrow> x < 65805"

lemma nibble_bounds: "coap_option_nibble x \<in> set [0, 1, 2, 3, 4, 5, 6, 7, 8, 9, 10, 11, 12, 13, 14]"
proof (cases "x < 13")
  case True
  then have "x \<in> set [0..<13]" by simp
  then show ?thesis by (auto simp: upt_rec coap_option_nibble_def)
qed (simp add: coap_option_nibble_def)

lemma header_byte:
  assumes "m \<in> set [0, 1, 2, 3, 4, 5, 6, 7, 8, 9, 10, 11, 12, 13, 14]" and "n \<in> set [0, 1, 2, 3, 4, 5, 6, 7, 8, 9, 10, 11, 12, 13, 14]"
  shows "(push_bit 4 m OR n) AND 0xF0 \<noteq> (0xF0 :: u8)" "drop_bit 4 (push_bit 4 m OR n :: u8) = m" "(push_bit 4 m OR n :: u8) AND 0x0F = n"
proof -
  have "push_bit 4 m AND 0xF0 \<noteq> 0xF0" "drop_bit 4 (push_bit 4 m) = m" "push_bit 4 m AND 0x0F = 0"
    using assms(1) by auto
  moreover have "n AND 0xF0 = 0" "drop_bit 4 n = 0" "n AND 0x0F = n" using assms(2) by auto
  ultimately show "(push_bit 4 m OR n) AND 0xF0 \<noteq> (0xF0 :: u8)" "drop_bit 4 (push_bit 4 m OR n :: u8) = m"
      "(push_bit 4 m OR n :: u8) AND 0x0F = n"
    by (simp_all only: bit.conj_disj_distrib2 drop_bit_or or.right_neutral or.left_neutral not_False_eq_True)
qed

lemma ext_parse:
  assumes "encodable x"
  shows "parse_ext (pre @ ext_bytes x @ rest) (unat (coap_option_nibble x)) (length pre) = Some (x, length pre + length (ext_bytes x))"
proof -
  consider "x < 13" | "13 \<le> x" "x \<le> 268" | "268 < x" by linarith
  then show ?thesis
  proof cases
    case 1
    then have "unat (coap_option_nibble x) = x" by (simp add: coap_option_nibble_def unat_of_nat)
    then show ?thesis using 1 by (simp add: parse_ext_def ext_bytes_def)
  next
    case 2
    then have "unat (of_nat (x - 13) :: u8) = x - 13" by (simp only: unat_of_nat) simp
    then show ?thesis using 2 by (simp add: parse_ext_def ext_bytes_def coap_option_nibble_def del: of_nat_diff)
  next
    case 3
    define y where "y = x - 269"
    have y: "x = y + 269" "y < 65536" using 3 assms by (auto simp: encodable_def y_def)
    have "get (pre @ [of_nat (y div 256), of_nat y] @ rest) (Suc (length pre)) = Some (of_nat y)"
      using get_append2 [of pre "[of_nat (y div 256), of_nat y] @ rest" 1] by simp
    moreover have "269 + unat (of_nat (y div 256) :: u8) * 256 + unat (of_nat y :: u8) = x"
      using y by (simp add: unat_of_nat div_mod_decomp less_mult_imp_div_less)
    ultimately show ?thesis
      using 3 y by (simp add: parse_ext_def ext_bytes_def coap_option_nibble_def)
  qed
qed

lemma header_parse:
  assumes "encodable d" and "encodable l" and "drop pos buf = enc_header d l @ rest" and "pos \<le> length buf"
  shows "\<exists>b pos1 pos2. get buf pos = Some b \<and> b AND 0xF0 \<noteq> 0xF0 \<and>
    parse_ext buf (unat (drop_bit 4 b)) (pos + 1) = Some (d, pos1) \<and>
    parse_ext buf (unat (b AND 0x0F)) pos1 = Some (l, pos + length (enc_header d l))"
proof -
  let ?b = "push_bit 4 (coap_option_nibble d) OR coap_option_nibble l"
  have buf: "buf = take pos buf @ ?b # ext_bytes d @ ext_bytes l @ rest"
    using assms(3) append_take_drop_id [of pos buf] by (simp add: enc_header_def)
  obtain pre where pre: "buf = pre @ ?b # ext_bytes d @ ext_bytes l @ rest" "length pre = pos"
    using buf assms(4) by (metis length_take min.absorb2)
  note b = header_byte [OF nibble_bounds nibble_bounds, of d l]
  have "parse_ext buf (unat (coap_option_nibble d)) (pos + 1) = Some (d, pos + 1 + length (ext_bytes d))"
    using ext_parse [OF assms(1), of "pre @ [?b]" "ext_bytes l @ rest"] pre by simp
  moreover have "parse_ext buf (unat (coap_option_nibble l)) (pos + 1 + length (ext_bytes d)) =
      Some (l, pos + 1 + length (ext_bytes d) + length (ext_bytes l))"
    using ext_parse [OF assms(2), of "pre @ [?b] @ ext_bytes d" "rest"] pre by (simp add: ac_simps)
  moreover have "get buf pos = Some ?b" using pre by (metis get_append3 get_Cons_0)
  ultimately show ?thesis using b by (simp add: enc_header_def)
qed

section \<open>The values of options\<close>

datatype oval = Num u32 | Str "u8 list" | Flag | Block u32 bool u16

text \<open>The options with a string value; those with a splitter may be repeated, and are then joined.\<close>

definition splitter :: "nat \<Rightarrow> u8" where
  "splitter n = (if n = COAP_OPTION_URI_PATH \<or> n = COAP_OPTION_LOCATION_PATH then slash
     else if n = COAP_OPTION_URI_QUERY \<or> n = COAP_OPTION_LOCATION_QUERY then ampersand else 0)"

definition is_string :: "nat \<Rightarrow> bool" where
  "is_string n \<longleftrightarrow> n = COAP_OPTION_URI_HOST \<or> splitter n \<noteq> 0"

definition sfield :: "coap_packet \<Rightarrow> nat \<Rightarrow> cptr \<times> nat" where
  "sfield p n = (if n = COAP_OPTION_URI_HOST then (uri_host p, uri_host_len p)
     else if n = COAP_OPTION_LOCATION_PATH then (location_path p, location_path_len p)
     else if n = COAP_OPTION_URI_PATH then (uri_path p, uri_path_len p)
     else if n = COAP_OPTION_URI_QUERY then (uri_query p, uri_query_len p)
     else if n = COAP_OPTION_LOCATION_QUERY then (location_query p, location_query_len p)
     else (Null, 0))"

definition nfield :: "coap_packet \<Rightarrow> nat \<Rightarrow> oval option" where
  "nfield p n = (if n = COAP_OPTION_IF_MATCH then Some (Str (take (if_match_len p) (if_match p)))
     else if n = COAP_OPTION_ETAG then Some (Str (take (etag_len p) (etag p)))
     else if n = COAP_OPTION_IF_NONE_MATCH then Some Flag
     else if n = COAP_OPTION_OBSERVE then Some (Num (observe p))
     else if n = COAP_OPTION_URI_PORT then Some (Num (ucast (uri_port p)))
     else if n = COAP_OPTION_CONTENT_FORMAT then Some (Num (content_format p))
     else if n = COAP_OPTION_MAX_AGE then Some (Num (max_age p))
     else if n = COAP_OPTION_ACCEPT then Some (Num (accept p))
     else if n = COAP_OPTION_BLOCK2 then Some (Block (block2_num p) (block2_more p \<noteq> 0) (block2_size p))
     else if n = COAP_OPTION_BLOCK1 then Some (Block (block1_num p) (block1_more p \<noteq> 0) (block1_size p))
     else if n = COAP_OPTION_SIZE2 then Some (Num (size2 p))
     else if n = COAP_OPTION_SIZE1 then Some (Num (size1 p))
     else None)"

definition string_of :: "coap_packet \<Rightarrow> nat \<Rightarrow> u8 list" where
  "string_of p n = str p (fst (sfield p n)) (snd (sfield p n))"

text \<open>What the getters of a packet give.\<close>

definition view :: "coap_packet \<Rightarrow> nat \<Rightarrow> oval option" where
  "view p n = (if IS_OPTION p n then if is_string n then Some (Str (string_of p n)) else nfield p n else None)"

definition merge :: "u8 \<Rightarrow> oval option \<Rightarrow> u8 list \<Rightarrow> u8 list" where
  "merge c old v = (case old of Some (Str w) \<Rightarrow> if c \<noteq> 0 \<and> w \<noteq> [] then w @ c # v else v | _ \<Rightarrow> v)"

definition opt_value :: "nat \<Rightarrow> u8 list \<Rightarrow> oval option" where
  "opt_value n v = (let i = coap_parse_int_option v in
     if n = COAP_OPTION_IF_MATCH \<or> n = COAP_OPTION_ETAG then Some (Str (take COAP_ETAG_LEN v))
     else if n = COAP_OPTION_IF_NONE_MATCH then Some Flag
     else if n = COAP_OPTION_URI_PORT then Some (Num (i AND 0xFFFF))
     else if n = COAP_OPTION_BLOCK2 \<or> n = COAP_OPTION_BLOCK1 then
       Some (Block (drop_bit 4 i) (bit i 3) (push_bit (unat (i AND 0x07)) 16))
     else if n \<in> {COAP_OPTION_OBSERVE, COAP_OPTION_CONTENT_FORMAT, COAP_OPTION_MAX_AGE, COAP_OPTION_ACCEPT,
         COAP_OPTION_SIZE2, COAP_OPTION_SIZE1} then Some (Num i)
     else None)"

definition apply_opt :: "opt \<Rightarrow> (nat \<Rightarrow> oval option) \<Rightarrow> nat \<Rightarrow> oval option" where
  "apply_opt = (\<lambda>(n, v) \<sigma>. \<sigma>(n := if is_string n then Some (Str (merge (splitter n) (\<sigma> n) v)) else opt_value n v))"

text \<open>The options the parser refuses.\<close>

definition known :: "nat \<Rightarrow> bool" where
  "known n \<longleftrightarrow> is_string n \<or> opt_value n [] \<noteq> None"

definition refused :: "nat \<Rightarrow> coap_status option" where
  "refused n = (if n = COAP_OPTION_PROXY_URI \<or> n = COAP_OPTION_PROXY_SCHEME then Some PROXYING_NOT_SUPPORTED_5_05
     else if \<not> known n \<and> odd n then Some BAD_OPTION_4_02 else None)"

fun decode :: "opt list \<Rightarrow> (nat \<Rightarrow> oval option) \<Rightarrow> coap_status \<times> (nat \<Rightarrow> oval option)" where
  "decode [] \<sigma> = (NO_ERROR, \<sigma>)"
| "decode ((n, v) # os) \<sigma> = (case refused n of Some st \<Rightarrow> (st, \<sigma>) | None \<Rightarrow> decode os (apply_opt (n, v) \<sigma>))"

section \<open>One option\<close>

text \<open>The part of a packet that the options do not change.\<close>

definition message_head :: "coap_packet \<Rightarrow> u8 \<times> u8 \<times> u8 \<times> u16 \<times> nat \<times> u8 list \<times> nat \<times> cptr" where
  "message_head p = (version p, msg_type p, code p, mid p, token_len p, token p, payload_len p, payload p)"

definition tags_ok :: "coap_packet \<Rightarrow> bool" where
  "tags_ok p \<longleftrightarrow> length (etag p) = COAP_ETAG_LEN \<and> length (if_match p) = COAP_ETAG_LEN"

lemma block_fields:
  fixes v :: u32
  shows "(ucast (drop_bit 3 v AND 1) :: u8) \<noteq> 0 \<longleftrightarrow> bit v 3"
    and "(ucast (push_bit (unat (v AND 7)) (16 :: u32)) :: u16) = push_bit (unat (v AND 7)) 16"
proof -
  show "(ucast (drop_bit 3 v AND 1) :: u8) \<noteq> 0 \<longleftrightarrow> bit v 3"
    by (simp add: and_one_eq mod_2_eq_odd even_drop_bit_iff_not_bit)
next
  have "unat (v AND 7) = unat v mod 8"
    using unat_and_mask_mod [of v 3] by (simp add: mask_numeral)
  then have "unat (v AND 7) < 8" by simp
  then have "unat (v AND 7) \<in> set [0..<8]" by simp
  then show "(ucast (push_bit (unat (v AND 7)) (16 :: u32)) :: u16) = push_bit (unat (v AND 7)) 16"
    by (auto simp: upt_rec)
qed

lemma ucast_port: "ucast (ucast (v :: u32) :: u16) = v AND (0xFFFF :: u32)"
proof -
  have m: "(0xFFFF :: u32) = mask 16" by (simp add: mask_numeral)
  show ?thesis
    unfolding m by (rule bit_word_eqI) (auto simp: bit_ops bit_mask_iff)
qed

lemma tag_option_value:
  assumes "take (length v) (drop pos (coap_buffer p)) = v" and "pos + length v \<le> length (coap_buffer p)" and "length field = COAP_ETAG_LEN"
  shows "\<exists>n t. (\<forall>upd. tag_option p pos (length v) field upd = Some (None, upd n t)) \<and> take n t = take COAP_ETAG_LEN v \<and>
    length t = COAP_ETAG_LEN"
proof -
  let ?n = "min COAP_ETAG_LEN (length v)" and ?t = "take COAP_ETAG_LEN v @ drop (min COAP_ETAG_LEN (length v)) field"
  have "read_bytes pos ?n (coap_buffer p) = Some (take COAP_ETAG_LEN v)"
    using assms(1,2) by (metis (no_types, lifting) add_le_cancel_left min.cobounded2 order_trans read_bytes_def take_take)
  moreover have "write_bytes 0 (take COAP_ETAG_LEN v) field = Some ?t"
    using assms(3) by (simp add: write_bytes_def min.commute)
  ultimately have "\<forall>upd. tag_option p pos (length v) field upd = Some (None, upd ?n ?t)"
    by (simp add: tag_option_def Let_def)
  moreover have "take ?n ?t = take COAP_ETAG_LEN v"
    using take_all [of "take COAP_ETAG_LEN v" ?n] by simp
  moreover have "length ?t = COAP_ETAG_LEN" using assms(3) by auto
  ultimately show ?thesis by blast
qed

lemma handle_value:
  assumes "\<not> is_string n" and "known n" and "take (length v) (drop pos (coap_buffer p)) = v"
    and "pos + length v \<le> length (coap_buffer p)" and "tags_ok p"
  shows "\<exists>q. handle_option n pos (length v) p = Some (None, q) \<and> nfield q = (nfield p)(n := opt_value n v) \<and> sfield q = sfield p \<and>
    options q = options p \<and> coap_buffer q = coap_buffer p \<and> message_head q = message_head p \<and> tags_ok q"
proof -
  have i: "int_option p pos (length v) upd = Some (None, upd (coap_parse_int_option v))" for upd
    using assms(3,4) by (simp add: int_option_def read_bytes_def)
  note defs = handle_option_def i nfield_def sfield_def opt_value_def message_head_def tags_ok_def Let_def
  from assms(1,2) consider "n = COAP_OPTION_IF_MATCH" | "n = COAP_OPTION_ETAG" | "n = COAP_OPTION_IF_NONE_MATCH"
    | "n = COAP_OPTION_OBSERVE" | "n = COAP_OPTION_URI_PORT" | "n = COAP_OPTION_CONTENT_FORMAT" | "n = COAP_OPTION_MAX_AGE"
    | "n = COAP_OPTION_ACCEPT" | "n = COAP_OPTION_BLOCK2" | "n = COAP_OPTION_BLOCK1" | "n = COAP_OPTION_SIZE2" | "n = COAP_OPTION_SIZE1"
    by (auto simp: known_def opt_value_def Let_def split: if_splits)
  then show ?thesis
  proof cases
    case 1
    obtain k t where k: "\<And>upd. tag_option p pos (length v) (if_match p) upd = Some (None, upd k t)" "take k t = take COAP_ETAG_LEN v" "length t = COAP_ETAG_LEN"
      using tag_option_value [OF assms(3,4), of "if_match p"] assms(5) by (auto simp: tags_ok_def)
    then show ?thesis using 1 assms(5) by (simp add: defs fun_eq_iff option_numbers)
  next
    case 2
    obtain k t where k: "\<And>upd. tag_option p pos (length v) (etag p) upd = Some (None, upd k t)" "take k t = take COAP_ETAG_LEN v" "length t = COAP_ETAG_LEN"
      using tag_option_value [OF assms(3,4), of "etag p"] assms(5) by (auto simp: tags_ok_def)
    then show ?thesis using 2 assms(5) by (simp add: defs fun_eq_iff option_numbers)
  next
    case 3
    then show ?thesis using assms(5) by (simp add: defs fun_eq_iff option_numbers block_fields ucast_port)
  next
    case 4
    then show ?thesis using assms(5) by (simp add: defs fun_eq_iff option_numbers block_fields ucast_port)
  next
    case 5
    then show ?thesis using assms(5) by (simp add: defs fun_eq_iff option_numbers block_fields ucast_port)
  next
    case 6
    then show ?thesis using assms(5) by (simp add: defs fun_eq_iff option_numbers block_fields ucast_port)
  next
    case 7
    then show ?thesis using assms(5) by (simp add: defs fun_eq_iff option_numbers block_fields ucast_port)
  next
    case 8
    then show ?thesis using assms(5) by (simp add: defs fun_eq_iff option_numbers block_fields ucast_port)
  next
    case 9
    then show ?thesis using assms(5) by (simp add: defs fun_eq_iff option_numbers block_fields ucast_port)
  next
    case 10
    then show ?thesis using assms(5) by (simp add: defs fun_eq_iff option_numbers block_fields ucast_port)
  next
    case 11
    then show ?thesis using assms(5) by (simp add: defs fun_eq_iff option_numbers block_fields ucast_port)
  next
    case 12
    then show ?thesis using assms(5) by (simp add: defs fun_eq_iff option_numbers block_fields ucast_port)
  qed
qed

text \<open>Strings are merged where they lie, over bytes that are parsed already.\<close>

lemma merge_in_place:
  fixes buf v :: "u8 list" and c :: u8
  assumes "0 < l" and "i + l < pos" and "take (length v) (drop pos buf) = v" and "pos + length v \<le> length buf"
  defines "buf' \<equiv> take (i + l) buf @ c # v @ drop (i + Suc (l + length v)) buf"
  shows "coap_merge_multi_option buf (Buf i) l pos (length v) c = Some (buf', Buf i, Suc (l + length v))"
    and "length buf' = length buf" and "take (i + l) buf' = take (i + l) buf"
    and "drop (pos + length v) buf' = drop (pos + length v) buf"
    and "take (Suc (l + length v)) (drop i buf') = take l (drop i buf) @ c # v"
proof -
  let ?b1 = "take (i + l) buf @ c # drop (i + l + 1) buf"
  have "write_bytes (i + l) [c] buf = Some ?b1"
    using assms(2,4) by (simp add: write_bytes_def)
  moreover have "read_bytes pos (length v) ?b1 = Some v"
    using assms(2,3,4) by (simp add: read_bytes_def drop_Cons')
  moreover have "write_bytes (i + l + 1) v ?b1 = Some buf'"
    using assms(2,4) by (auto simp: write_bytes_def buf'_def ac_simps)
  ultimately show "coap_merge_multi_option buf (Buf i) l pos (length v) c = Some (buf', Buf i, Suc (l + length v))"
    using assms(1) by (simp add: coap_merge_multi_option_def)
  show "length buf' = length buf" "take (i + l) buf' = take (i + l) buf"
    using assms(2,4) by (simp_all add: buf'_def)
  show "drop (pos + length v) buf' = drop (pos + length v) buf"
    using assms(2,4) by (simp add: buf'_def drop_Cons')
  show "take (Suc (l + length v)) (drop i buf') = take l (drop i buf) @ c # v"
    using assms(2,4) by (simp add: buf'_def take_Cons' drop_take)
qed

definition set_sfield :: "nat \<Rightarrow> cptr \<Rightarrow> nat \<Rightarrow> coap_packet \<Rightarrow> coap_packet" where
  "set_sfield n d l p = (if n = COAP_OPTION_URI_HOST then p\<lparr>uri_host := d, uri_host_len := l\<rparr>
     else if n = COAP_OPTION_LOCATION_PATH then p\<lparr>location_path := d, location_path_len := l\<rparr>
     else if n = COAP_OPTION_URI_PATH then p\<lparr>uri_path := d, uri_path_len := l\<rparr>
     else if n = COAP_OPTION_URI_QUERY then p\<lparr>uri_query := d, uri_query_len := l\<rparr>
     else if n = COAP_OPTION_LOCATION_QUERY then p\<lparr>location_query := d, location_query_len := l\<rparr> else p)"

lemma sfield_set: "is_string n \<Longrightarrow> sfield (set_sfield n d l p) = (sfield p)(n := (d, l))"
  by (auto simp: is_string_def splitter_def sfield_def set_sfield_def fun_eq_iff option_numbers split: if_splits)

lemma nfield_strings:
  "nfield (p\<lparr>uri_host := d, uri_host_len := l\<rparr>) = nfield p" "nfield (p\<lparr>location_path := d, location_path_len := l\<rparr>) = nfield p"
  "nfield (p\<lparr>uri_path := d, uri_path_len := l\<rparr>) = nfield p" "nfield (p\<lparr>uri_query := d, uri_query_len := l\<rparr>) = nfield p"
  "nfield (p\<lparr>location_query := d, location_query_len := l\<rparr>) = nfield p"
  by (rule ext, simp add: nfield_def del: if_split cong: if_cong)+

lemma set_sfield_frame [simp]:
  "nfield (set_sfield n d l p) = nfield p" "options (set_sfield n d l p) = options p"
  "coap_buffer (set_sfield n d l p) = coap_buffer p" "message_head (set_sfield n d l p) = message_head p"
  "tags_ok (set_sfield n d l p) = tags_ok p"
  by (simp_all add: set_sfield_def nfield_strings message_head_def tags_ok_def)

lemma buffer_frame [simp]:
  "nfield (p\<lparr>coap_buffer := b\<rparr>) = nfield p" "sfield (p\<lparr>coap_buffer := b\<rparr>) = sfield p" "message_head (p\<lparr>coap_buffer := b\<rparr>) = message_head p"
  "tags_ok (p\<lparr>coap_buffer := b\<rparr>) = tags_ok p"
  by (simp_all add: nfield_def sfield_def message_head_def tags_ok_def fun_eq_iff)

lemma is_option_frame: "options q = options p \<Longrightarrow> IS_OPTION q n = IS_OPTION p n"
  by (simp add: IS_OPTION_def)

lemma handle_host:
  "handle_option COAP_OPTION_URI_HOST pos len p = Some (None, set_sfield COAP_OPTION_URI_HOST (Buf pos) len p)"
  by (simp add: handle_option_def set_sfield_def option_numbers)

lemma handle_merge:
  assumes "splitter n \<noteq> 0"
  shows "handle_option n pos len p = map_option (\<lambda>(buf, d, l). (None, set_sfield n d l (p\<lparr>coap_buffer := buf\<rparr>)))
    (coap_merge_multi_option (coap_buffer p) (fst (sfield p n)) (snd (sfield p n)) pos len (splitter n))"
proof -
  consider "n = COAP_OPTION_LOCATION_PATH" | "n = COAP_OPTION_URI_PATH" | "n = COAP_OPTION_URI_QUERY" | "n = COAP_OPTION_LOCATION_QUERY"
    using assms by (auto simp: splitter_def split: if_splits)
  then show ?thesis
    by cases (simp_all add: handle_option_def merge_option_def set_sfield_def sfield_def splitter_def option_numbers)
qed

text \<open>Where the strings of a packet lie while it is parsed.\<close>

definition region :: "coap_packet \<Rightarrow> nat \<Rightarrow> nat \<Rightarrow> nat \<Rightarrow> bool" where
  "region p n i j \<longleftrightarrow> sfield p n = (Buf i, j - i) \<and> i < j"

definition regions :: "coap_packet \<Rightarrow> nat \<Rightarrow> nat \<Rightarrow> bool" where
  "regions p num pos \<longleftrightarrow> pos \<le> length (coap_buffer p) \<and>
     (\<forall>n. snd (sfield p n) > 0 \<longrightarrow> n \<le> num \<and> IS_OPTION p n \<and> (\<exists>i j. region p n i j \<and> j \<le> pos)) \<and>
     (\<forall>m n i j i' j'. m < n \<longrightarrow> region p m i j \<longrightarrow> region p n i' j' \<longrightarrow> j \<le> i')"

lemma string_of_empty: "snd (sfield p n) = 0 \<Longrightarrow> string_of p n = []"
  by (simp add: string_of_def str_def split: option.split)

lemma string_of_region: "region p n i j \<Longrightarrow> string_of p n = take (j - i) (drop i (coap_buffer p))"
  by (simp add: region_def string_of_def str_def)

lemma string_of_cong:
  assumes "sfield q n = sfield p n" and "region p n i j" and "take j (coap_buffer q) = take j (coap_buffer p)"
  shows "string_of q n = string_of p n"
proof -
  have "region q n i j" using assms(1,2) by (simp add: region_def)
  then show ?thesis
    using string_of_region [OF assms(2)] string_of_region [of q n i j] arg_cong [OF assms(3), of "drop i"]
    by (simp add: drop_take)
qed

lemma handle_string:
  assumes n: "is_string n" and r: "regions p num at" and "at < pos" and "num \<le> n" and "IS_OPTION p n"
    and v: "take (length v) (drop pos (coap_buffer p)) = v" "pos + length v \<le> length (coap_buffer p)"
  shows "\<exists>q. handle_option n pos (length v) p = Some (None, q) \<and> nfield q = nfield p \<and> options q = options p \<and>
    message_head q = message_head p \<and> tags_ok q = tags_ok p \<and> regions q n (pos + length v) \<and>
    length (coap_buffer q) = length (coap_buffer p) \<and>
    drop (pos + length v) (coap_buffer q) = drop (pos + length v) (coap_buffer p) \<and>
    string_of q = (string_of p)(n := merge (splitter n) (Some (Str (string_of p n))) v)"
proof -
  have set_n: "m \<le> num" "m \<le> n" "IS_OPTION p m" "\<exists>i j. region p m i j \<and> j \<le> at" if "snd (sfield p m) > 0" for m
    using r that assms(4) unfolding regions_def by (blast intro: le_trans)+
  have order: "j \<le> i'" if "m < m'" "region p m i j" "region p m' i' j'" for m m' i j i' j'
    using r that unfolding regions_def by blast
  have far: "\<exists>i j. region p m i j \<and> j \<le> pos + length v" if "snd (sfield p m) > 0" for m
    using set_n(4) [OF that] assms(3) by (meson le_add1 le_trans less_imp_le)
  have region_gt: "snd (sfield p m) > 0" if "region p m i j" for m i j
    using that by (simp add: region_def)
  have region_at: "j \<le> at" if "region p m i j" for m i j
  proof -
    obtain i' j' where at: "region p m i' j'" "j' \<le> at" using set_n(4) [OF region_gt] \<open>region p m i j\<close> by blast
    with \<open>region p m i j\<close> show ?thesis by (auto simp: region_def)
  qed
  show ?thesis
  proof (cases "splitter n = 0 \<or> snd (sfield p n) = 0")
    case True
    let ?q = "set_sfield n (Buf pos) (length v) p"
    have q: "handle_option n pos (length v) p = Some (None, ?q)"
    proof (cases "splitter n = 0")
      case True
      then show ?thesis using n handle_host by (simp add: is_string_def)
    next
      case s: False
      then show ?thesis using True by (simp add: handle_merge coap_merge_multi_option_def)
    qed
    have f: "sfield ?q = (sfield p)(n := (Buf pos, length v))" using n by (rule sfield_set)
    have rq: "region ?q m i j \<longleftrightarrow> (if m = n then i = pos \<and> j = pos + length v \<and> v \<noteq> [] else region p m i j)" for m i j
      by (auto simp: region_def f)
    have "regions ?q n (pos + length v)"
      unfolding regions_def
    proof (intro conjI allI impI)
      fix m assume "snd (sfield ?q m) > 0"
      then show "m \<le> n" "IS_OPTION ?q m" "\<exists>i j. region ?q m i j \<and> j \<le> pos + length v"
        using set_n(2,3) [of m] far [of m] assms(5) by (auto simp: f rq is_option_frame [of ?q p] split: if_splits)
    next
      fix m m' i j i' j'
      assume *: "m < m'" "region ?q m i j" "region ?q m' i' j'"
      show "j \<le> i'"
      proof (cases "m' = n")
        case True
        then have "region p m i j" "i' = pos" using * by (auto simp: rq)
        with region_at assms(3) show ?thesis by fastforce
      next
        case False
        then have p: "region p m' i' j'" using * by (simp add: rq)
        then have "m' < n" using set_n(2) [OF region_gt [OF p]] False by simp
        then show ?thesis using * p order by (auto simp: rq)
      qed
    qed (use v(2) in simp)
    moreover have "string_of ?q = (string_of p)(n := merge (splitter n) (Some (Str (string_of p n))) v)"
    proof
      fix m
      show "string_of ?q m = ((string_of p)(n := merge (splitter n) (Some (Str (string_of p n))) v)) m"
      proof (cases "m = n")
        case m: True
        have "merge (splitter n) (Some (Str (string_of p n))) v = v"
          using True string_of_empty [of p n] by (auto simp: merge_def)
        moreover have "string_of ?q n = v" using v(1) by (simp add: string_of_def str_def f)
        ultimately show ?thesis using m by simp
      next
        case False
        then show ?thesis by (simp add: string_of_def str_def f)
      qed
    qed
    ultimately show ?thesis using q by (intro exI [of _ ?q]) simp
  next
    case False
    then obtain i j where ij: "region p n i j" "j \<le> at" using set_n(4) by blast
    define l where "l = snd (sfield p n)"
    have l: "0 < l" "j = i + l" "sfield p n = (Buf i, l)" using ij by (auto simp: region_def l_def)
    define buf where "buf = take (i + l) (coap_buffer p) @ splitter n # v @ drop (i + Suc (l + length v)) (coap_buffer p)"
    have lt: "i + l < pos" using ij l assms(3) by simp
    note m = merge_in_place [OF l(1) lt v, of "splitter n", folded buf_def]
    let ?q = "set_sfield n (Buf i) (Suc (l + length v)) (p\<lparr>coap_buffer := buf\<rparr>)"
    have q: "handle_option n pos (length v) p = Some (None, ?q)"
      using False m(1) l(3) by (simp add: handle_merge)
    have f: "sfield ?q = (sfield p)(n := (Buf i, Suc (l + length v)))" using n by (simp add: sfield_set)
    have rq: "region ?q m i' j' \<longleftrightarrow> (if m = n then i' = i \<and> j' = i + Suc (l + length v) else region p m i' j')" for m i' j'
      by (auto simp: region_def f)
    have "regions ?q n (pos + length v)"
      unfolding regions_def
    proof (intro conjI allI impI)
      fix m assume "snd (sfield ?q m) > 0"
      then show "m \<le> n" "IS_OPTION ?q m" "\<exists>i j. region ?q m i j \<and> j \<le> pos + length v"
        using set_n(2,3) [of m] far [of m] assms(5) lt by (auto simp: f rq is_option_frame [of ?q p] split: if_splits)
    next
      fix m m' i1 j1 i2 j2
      assume *: "m < m'" "region ?q m i1 j1" "region ?q m' i2 j2"
      show "j1 \<le> i2"
      proof (cases "m' = n")
        case True
        then have "region p m i1 j1" "i2 = i" using * by (auto simp: rq)
        with order [OF _ _ ij(1)] * True show ?thesis by blast
      next
        case False
        then have p: "region p m' i2 j2" using * by (simp add: rq)
        then have "m' < n" using set_n(2) [OF region_gt [OF p]] False by simp
        then show ?thesis using * p order by (auto simp: rq)
      qed
    qed (use v(2) m(2) in simp)
    moreover have "string_of ?q = (string_of p)(n := merge (splitter n) (Some (Str (string_of p n))) v)"
    proof
      fix m'
      show "string_of ?q m' = ((string_of p)(n := merge (splitter n) (Some (Str (string_of p n))) v)) m'"
      proof (cases "m' = n")
        case True
        have "string_of p n = take l (drop i (coap_buffer p))"
          using string_of_region [OF ij(1)] l(2) by simp
        moreover have "string_of p n \<noteq> []" using calculation l(1) lt v(2) by simp
        ultimately show ?thesis
          using True False m(5) by (simp add: string_of_def str_def f merge_def)
      next
        case other: False
        show ?thesis
        proof (cases "snd (sfield p m') > 0")
          case True
          then obtain i' j' where r': "region p m' i' j'" using set_n(4) by blast
          moreover have "m' < n" using set_n(2) [OF True] other by simp
          ultimately have "j' \<le> i" using order ij(1) by blast
          then have "take j' buf = take j' (coap_buffer p)"
            using arg_cong [OF m(3), of "take j'"] by (simp add: min_absorb1)
          then have "string_of ?q m' = string_of p m'"
            using r' other by (intro string_of_cong [of _ _ _ i' j']) (simp_all add: f)
          then show ?thesis using other by simp
        next
          case empty: False
          then show ?thesis using other string_of_empty [of p m'] string_of_empty [of ?q m'] by (simp add: f)
        qed
      qed
    qed
    ultimately show ?thesis using q m(2,4) by (intro exI [of _ ?q]) simp
  qed
qed

section \<open>The loop over the options\<close>

lemma IS_OPTION_bit: "IS_OPTION p n \<longleftrightarrow> bit (options p ! (n div 8)) (n mod 8)"
  unfolding IS_OPTION_def OPTION_MAP_SIZE_def by (simp only: bit_iff_and_push_bit_not_eq_0)

lemma IS_OPTION_SET:
  assumes "length (options p) = 8" and "n < 64"
  shows "IS_OPTION (SET_OPTION n p) m \<longleftrightarrow> m = n \<or> IS_OPTION p m"
proof -
  have "m = n \<longleftrightarrow> m div 8 = n div 8 \<and> m mod 8 = n mod 8"
    by (metis div_mod_decomp)
  moreover have "n div 8 < 8" "m mod 8 < 8" "n mod 8 < 8" using assms(2) by auto
  ultimately show ?thesis
    using assms(1) by (auto simp: IS_OPTION_bit SET_OPTION_def OPTION_MAP_SIZE_def nth_list_update bit_or_iff bit_exp_iff)
qed

lemma SET_OPTION_frame [simp]:
  "nfield (SET_OPTION n p) = nfield p" "sfield (SET_OPTION n p) = sfield p" "coap_buffer (SET_OPTION n p) = coap_buffer p"
  "message_head (SET_OPTION n p) = message_head p"
  "tags_ok (SET_OPTION n p) = tags_ok p" "length (options (SET_OPTION n p)) = length (options p)"
proof -
  show "nfield (SET_OPTION n p) = nfield p"
    by (rule ext) (simp add: SET_OPTION_def nfield_def del: if_split cong: if_cong)
  show "sfield (SET_OPTION n p) = sfield p"
    by (rule ext) (simp add: SET_OPTION_def sfield_def del: if_split cong: if_cong)
qed (simp_all add: SET_OPTION_def message_head_def tags_ok_def)

lemma string_of_SET [simp]: "string_of (SET_OPTION n p) = string_of p"
  by (rule ext) (simp add: string_of_def str_def)

lemma opt_value_known: "opt_value n v = None \<longleftrightarrow> opt_value n [] = None"
  by (simp add: opt_value_def Let_def)

lemma known_iff: "known n \<longleftrightarrow> n \<in> {COAP_OPTION_URI_HOST, COAP_OPTION_LOCATION_PATH, COAP_OPTION_URI_PATH, COAP_OPTION_URI_QUERY,
    COAP_OPTION_LOCATION_QUERY, COAP_OPTION_IF_MATCH, COAP_OPTION_ETAG, COAP_OPTION_IF_NONE_MATCH, COAP_OPTION_OBSERVE,
    COAP_OPTION_URI_PORT, COAP_OPTION_CONTENT_FORMAT, COAP_OPTION_MAX_AGE, COAP_OPTION_ACCEPT, COAP_OPTION_BLOCK2,
    COAP_OPTION_BLOCK1, COAP_OPTION_SIZE2, COAP_OPTION_SIZE1}"
  by (simp add: known_def is_string_def splitter_def opt_value_def Let_def)

lemma not_known:
  assumes "\<not> known n"
  shows "\<not> is_string n" "nfield p n = None" "opt_value n v = None"
    and "n \<noteq> COAP_OPTION_PROXY_URI \<Longrightarrow> n \<noteq> COAP_OPTION_PROXY_SCHEME \<Longrightarrow>
      handle_option n pos len p = Some (if odd n then Some BAD_OPTION_4_02 else None, p)"
proof -
  show "\<not> is_string n" using assms by (simp add: known_def)
  show "opt_value n v = None" using assms opt_value_known [of n v] by (simp add: known_def)
  have ne: "n \<noteq> COAP_OPTION_URI_HOST" "n \<noteq> COAP_OPTION_LOCATION_PATH" "n \<noteq> COAP_OPTION_URI_PATH" "n \<noteq> COAP_OPTION_URI_QUERY"
    "n \<noteq> COAP_OPTION_LOCATION_QUERY" "n \<noteq> COAP_OPTION_IF_MATCH" "n \<noteq> COAP_OPTION_ETAG" "n \<noteq> COAP_OPTION_IF_NONE_MATCH"
    "n \<noteq> COAP_OPTION_OBSERVE" "n \<noteq> COAP_OPTION_URI_PORT" "n \<noteq> COAP_OPTION_CONTENT_FORMAT" "n \<noteq> COAP_OPTION_MAX_AGE"
    "n \<noteq> COAP_OPTION_ACCEPT" "n \<noteq> COAP_OPTION_BLOCK2" "n \<noteq> COAP_OPTION_BLOCK1" "n \<noteq> COAP_OPTION_SIZE2" "n \<noteq> COAP_OPTION_SIZE1"
    using assms by (simp_all add: known_iff)
  then show "nfield p n = None" by (simp add: nfield_def)
  from ne show "n \<noteq> COAP_OPTION_PROXY_URI \<Longrightarrow> n \<noteq> COAP_OPTION_PROXY_SCHEME \<Longrightarrow>
      handle_option n pos len p = Some (if odd n then Some BAD_OPTION_4_02 else None, p)"
    by (simp add: handle_option_def)
qed

definition parse_ok :: "coap_packet \<Rightarrow> nat \<Rightarrow> nat \<Rightarrow> bool" where
  "parse_ok p num pos \<longleftrightarrow> regions p num pos \<and> tags_ok p \<and> length (options p) = 8"

lemma regions_SET:
  assumes "regions p num pos" and "length (options p) = 8" and "n < 64"
  shows "regions (SET_OPTION n p) num pos"
  using assms(1) unfolding regions_def region_def SET_OPTION_frame IS_OPTION_SET [OF assms(2,3)] by blast

lemma regions_later:
  assumes "regions p num at" and "at \<le> pos" and "num \<le> n" and "pos \<le> length (coap_buffer q)"
    and "sfield q = sfield p" and "options q = options p"
  shows "regions q n pos"
proof -
  have "region q = region p" using assms(5) by (simp add: region_def fun_eq_iff)
  then show ?thesis
    using assms is_option_frame [OF assms(6)] unfolding regions_def by (metis le_trans)
qed

lemma handle_known:
  assumes "known n" and ok: "parse_ok p num at" and "at < pos" and "num \<le> n" and "n < 64"
    and v: "take (length v) (drop pos (coap_buffer p)) = v" "pos + length v \<le> length (coap_buffer p)"
  shows "\<exists>q. handle_option n pos (length v) (SET_OPTION n p) = Some (None, q) \<and> parse_ok q n (pos + length v) \<and>
    message_head q = message_head p \<and> view q = apply_opt (n, v) (view p) \<and>
    length (coap_buffer q) = length (coap_buffer p) \<and> drop (pos + length v) (coap_buffer q) = drop (pos + length v) (coap_buffer p)"
proof -
  let ?p = "SET_OPTION n p"
  from ok have r: "regions p num at" "tags_ok p" "length (options p) = 8" by (simp_all add: parse_ok_def)
  note set = IS_OPTION_SET [OF r(3) assms(5)]
  note r' = regions_SET [OF r(1,3) assms(5)]
  show ?thesis
  proof (cases "is_string n")
    case True
    have "IS_OPTION ?p n" by (simp add: set)
    then obtain q where q: "handle_option n pos (length v) ?p = Some (None, q)" "nfield q = nfield p" "options q = options ?p"
        "message_head q = message_head p" "tags_ok q = tags_ok p" "regions q n (pos + length v)"
        "length (coap_buffer q) = length (coap_buffer p)" "drop (pos + length v) (coap_buffer q) = drop (pos + length v) (coap_buffer p)"
        "string_of q = (string_of p)(n := merge (splitter n) (Some (Str (string_of p n))) v)"
      using handle_string [OF True r' assms(3,4)] v by auto
    have "merge (splitter n) (Some (Str (string_of p n))) v = merge (splitter n) (view p n) v"
    proof (cases "IS_OPTION p n")
      case False
      then have "string_of p n = []" using r(1) string_of_empty [of p n] by (auto simp: regions_def)
      then show ?thesis using False by (simp add: view_def merge_def)
    qed (simp add: view_def True)
    then have "view q m = apply_opt (n, v) (view p) m" for m
      by (simp add: view_def [of q] view_def [of p m] apply_opt_def q(2,9) set is_option_frame [OF q(3)] True)
    then have "view q = apply_opt (n, v) (view p)" by (rule ext)
    then show ?thesis using q r by (simp add: parse_ok_def)
  next
    case False
    obtain q where q: "handle_option n pos (length v) ?p = Some (None, q)" "nfield q = (nfield p)(n := opt_value n v)" "sfield q = sfield p"
        "options q = options ?p" "coap_buffer q = coap_buffer p" "message_head q = message_head p" "tags_ok q"
      using handle_value [OF False assms(1), of v pos ?p] v r(2) by auto
    have "string_of q = string_of p" using q(3,5) by (simp add: string_of_def str_def fun_eq_iff)
    then have "view q m = apply_opt (n, v) (view p) m" for m
      by (simp add: view_def apply_opt_def q(2) set is_option_frame [OF q(4)] False)
    then have "view q = apply_opt (n, v) (view p)" by (rule ext)
    moreover have "regions q n (pos + length v)"
      using regions_later [OF r', of "pos + length v" n q] q v(2) assms(3,4) by simp
    ultimately show ?thesis using q r by (simp add: parse_ok_def)
  qed
qed

lemma parse_option:
  assumes ok: "parse_ok p num pos" and "num \<le> n" and "n < 64" and "encodable (length v)"
    and buf: "drop pos (coap_buffer p) = enc_header (n - num) (length v) @ v @ rest"
  shows "case refused n of
      Some st \<Rightarrow> \<exists>q. parse_step data_len p pos num = Some (Stop st q) \<and> message_head q = message_head p \<and> view q = view p
    | None \<Rightarrow> \<exists>q pos'. parse_step data_len p pos num = Some (Next q pos' n) \<and> pos' = pos + length (enc_header (n - num) (length v)) + length v \<and>
        parse_ok q n pos' \<and> message_head q = message_head p \<and> view q = apply_opt (n, v) (view p) \<and>
        length (coap_buffer q) = length (coap_buffer p) \<and> drop pos' (coap_buffer q) = rest"
proof -
  from ok have r: "regions p num pos" "tags_ok p" "length (options p) = 8" by (simp_all add: parse_ok_def)
  let ?at = "pos + length (enc_header (n - num) (length v))"
  have "encodable (n - num)" using assms(3) by (simp add: encodable_def)
  then obtain b pos1 where b: "get (coap_buffer p) pos = Some b" "b AND 0xF0 \<noteq> 0xF0"
      "parse_ext (coap_buffer p) (unat (drop_bit 4 b)) (pos + 1) = Some (n - num, pos1)"
      "parse_ext (coap_buffer p) (unat (b AND 0x0F)) pos1 = Some (length v, ?at)"
    using header_parse [OF _ assms(4) buf] r(1) by (auto simp: regions_def)
  have step: "parse_step data_len p pos num = map_option (\<lambda>(st, q). case st of Some st \<Rightarrow> Stop st q | None \<Rightarrow> Next q (?at + length v) n)
      (handle_option n ?at (length v) (SET_OPTION n p))"
    using b r(3) assms(2,3) by (cases "handle_option n ?at (length v) (SET_OPTION n p)") (auto simp: parse_step_def OPTION_MAP_SIZE_def)
  have drops: "drop ?at (coap_buffer p) = v @ rest" "drop (?at + length v) (coap_buffer p) = rest"
    using arg_cong [OF buf, of "drop (length (enc_header (n - num) (length v)))"]
      arg_cong [OF buf, of "drop (length (enc_header (n - num) (length v)) + length v)"] by (simp_all add: ac_simps)
  have len: "?at + length v \<le> length (coap_buffer p)"
  proof -
    have "pos \<le> length (coap_buffer p)" using r(1) by (simp add: regions_def)
    then show ?thesis using arg_cong [OF buf, of length] by simp
  qed
  have at: "pos < ?at" by (simp add: enc_header_def)
  show ?thesis
  proof (cases "known n")
    case True
    then have "refused n = None"
      by (auto simp: refused_def known_iff option_numbers)
    moreover obtain q where q: "handle_option n ?at (length v) (SET_OPTION n p) = Some (None, q)" "parse_ok q n (?at + length v)"
        "message_head q = message_head p" "view q = apply_opt (n, v) (view p)" "length (coap_buffer q) = length (coap_buffer p)"
        "drop (?at + length v) (coap_buffer q) = drop (?at + length v) (coap_buffer p)"
      using handle_known [OF True ok at assms(2,3) _ len] drops(1) by auto
    ultimately show ?thesis using drops(2) by (simp add: step)
  next
    case False
    note nk = not_known [OF False]
    have "view (SET_OPTION n p) m = view p m" for m
    proof (cases "m = n")
      case True
      then show ?thesis by (simp add: view_def nk(1,2))
    next
      case False
      then show ?thesis by (simp add: view_def IS_OPTION_SET [OF r(3) assms(3)])
    qed
    then have v: "view (SET_OPTION n p) = view p" by (rule ext)
    show ?thesis
    proof (cases "n = COAP_OPTION_PROXY_URI \<or> n = COAP_OPTION_PROXY_SCHEME")
      case True
      then have "handle_option n ?at (length v) (SET_OPTION n p) = Some (Some PROXYING_NOT_SUPPORTED_5_05, SET_OPTION n p)"
        by (elim disjE) (simp_all add: handle_option_def option_numbers)
      then show ?thesis using True v by (simp add: step refused_def)
    next
      case proxy: False
      show ?thesis
      proof (cases "odd n")
        case True
        then show ?thesis using proxy False v nk(4) by (simp add: step refused_def)
      next
        case even: False
        have "view p n = None" using nk(1,2) by (simp add: view_def)
        then have "apply_opt (n, v) (view p) = view p" using nk(1,3) by (simp add: apply_opt_def fun_upd_idem)
        moreover have "parse_ok (SET_OPTION n p) n (?at + length v)"
          using regions_later [OF regions_SET [OF r(1,3) assms(3)], of "?at + length v" n "SET_OPTION n p"] r(2,3) len assms(2)
          by (simp add: parse_ok_def)
        ultimately show ?thesis using even proxy v nk(4) drops(2) by (simp add: step refused_def)
      qed
    qed
  qed
qed

text \<open>The options of a message are in ascending order, each with a length the encoding can hold.\<close>

fun ascending :: "nat \<Rightarrow> opt list \<Rightarrow> bool" where
  "ascending n [] \<longleftrightarrow> True"
| "ascending n ((m, v) # os) \<longleftrightarrow> n \<le> m \<and> m < 64 \<and> encodable (length v) \<and> ascending m os"

lemma enc_header_Cons: "\<exists>b bs. enc_header d l = b # bs"
  by (simp add: enc_header_def)

lemma parse_options:
  assumes "parse_ok p num pos" and "ascending num os" and "drop pos (coap_buffer p) = enc_options num os @ rest"
    and "pos + length (enc_options num os) \<le> data_len"
  shows "case decode os (view p) of
     (NO_ERROR, \<sigma>) \<Rightarrow> \<exists>q. parse_loop data_len p pos num = parse_loop data_len q (pos + length (enc_options num os)) (last_number num os) \<and>
        parse_ok q (last_number num os) (pos + length (enc_options num os)) \<and> message_head q = message_head p \<and> view q = \<sigma> \<and>
        length (coap_buffer q) = length (coap_buffer p) \<and> drop (pos + length (enc_options num os)) (coap_buffer q) = rest
   | (st, \<sigma>) \<Rightarrow> \<exists>q. parse_loop data_len p pos num = Some (st, q) \<and> message_head q = message_head p \<and> view q = \<sigma>"
  using assms
proof (induction os arbitrary: p num pos)
  case Nil
  then show ?case by auto
next
  case (Cons o1 os)
  obtain n v where o1: "o1 = (n, v)" by (cases o1)
  from Cons.prems(2) o1 have a: "num \<le> n" "n < 64" "encodable (length v)" "ascending n os" by simp_all
  have lt: "pos < data_len"
    using Cons.prems(4) by (simp add: o1 enc_header_def)
  have buf: "drop pos (coap_buffer p) = enc_header (n - num) (length v) @ v @ enc_options n os @ rest"
    using Cons.prems(3) by (simp add: o1)
  note st = parse_option [OF Cons.prems(1) a(1-3) buf, of data_len]
  show ?case
  proof (cases "refused n")
    case None
    with st obtain q pos' where q: "parse_step data_len p pos num = Some (Next q pos' n)"
        "pos' = pos + length (enc_header (n - num) (length v)) + length v" "parse_ok q n pos'" "message_head q = message_head p"
        "view q = apply_opt (n, v) (view p)" "length (coap_buffer q) = length (coap_buffer p)" "drop pos' (coap_buffer q) = enc_options n os @ rest"
      by auto
    have loop: "parse_loop data_len p pos num = parse_loop data_len q pos' n"
      using lt q(1) by (subst parse_loop.simps) simp
    have pos: "pos + length (enc_options num (o1 # os)) = pos' + length (enc_options n os)"
      by (simp add: o1 q(2))
    have d: "decode (o1 # os) (view p) = decode os (view q)"
      by (simp add: o1 None q(5))
    have l: "last_number num (o1 # os) = last_number n os" by (simp add: o1)
    show ?thesis
      unfolding pos d l loop q(4) [symmetric] q(6) [symmetric]
      using Cons.prems(4) unfolding pos by (rule Cons.IH [OF q(3) a(4) q(7)])
  next
    case (Some st')
    with st obtain q where q: "parse_step data_len p pos num = Some (Stop st' q)" "message_head q = message_head p" "view q = view p"
      by auto
    have "parse_loop data_len p pos num = Some (st', q)"
      using lt q(1) by (subst parse_loop.simps) simp
    moreover have "st' \<noteq> NO_ERROR" using Some by (auto simp: refused_def split: if_splits)
    ultimately show ?thesis using Some q by (cases st') (auto simp: o1)
  qed
qed

end
