(* ===== verification/CoapRoundtrip.thy ===== *)
theory CoapRoundtrip
  imports CoapParse
begin

text \<open>
  Whole CoAP messages: the parser against the decoding of an encoded message,
  the round trip from the serialiser to the parser, and the option numbers
  that do not fit into the bitmap of the packet.
\<close>

section \<open>Headers\<close>

definition encode_header :: "u8 \<Rightarrow> u8 \<Rightarrow> u16 \<Rightarrow> u8 list \<Rightarrow> u8 list" where
  "encode_header t c m tok = [(0x40 OR (0x30 AND push_bit 4 t)) OR (0x0F AND of_nat (length tok)), c, ucast (drop_bit 8 m), ucast m] @ tok"

definition encode_message :: "u8 \<Rightarrow> u8 \<Rightarrow> u16 \<Rightarrow> u8 list \<Rightarrow> opt list \<Rightarrow> u8 list \<Rightarrow> u8 list" where
  "encode_message t c m tok os pl = encode_header t c m tok @ enc_options 0 os @ (if pl = [] then [] else 0xFF # pl)"

lemma header_parts:
  fixes t y :: u8
  defines "b \<equiv> (0x40 OR (0x30 AND push_bit 4 t)) OR (0x0F AND y)"
  shows "drop_bit 6 (0xC0 AND b) = 1" "drop_bit 4 (0x30 AND b) = 3 AND t" "0x0F AND b = 0x0F AND y"
proof -
  have a: "0xC0 AND b = 0x40" "0x30 AND b = 0x30 AND push_bit 4 t" "0x0F AND b = 0x0F AND y"
    unfolding b_def by (simp_all add: bit.conj_disj_distrib flip: and.assoc)
  show "drop_bit 6 (0xC0 AND b) = 1" "0x0F AND b = 0x0F AND y" using a by simp_all
  have "drop_bit 4 (0x30 AND push_bit 4 t) = 3 AND drop_bit 4 (push_bit 4 t)" by (simp add: drop_bit_and)
  moreover have "drop_bit 4 (push_bit 4 t) = t AND 0x0F"
  proof -
    have "drop_bit 4 (push_bit 4 t) = take_bit 4 t"
      by (rule bit_word_eqI) (auto simp: bit_ops bit_take_bit_iff)
    then show ?thesis by (simp add: take_bit_eq_mask mask_numeral)
  qed
  moreover have "3 AND (t AND 0x0F) = 3 AND t"
    unfolding and.commute [of t] by (simp flip: and.assoc)
  ultimately show "drop_bit 4 (0x30 AND b) = 3 AND t" using a by simp
qed

lemma mid_bytes: "push_bit 8 (ucast (ucast (drop_bit 8 m) :: u8)) OR ucast (ucast m :: u8) = (m :: u16)"
  using of_be16_be16 [of m] by (simp add: of_be16_def)

lemma token_length: "n \<le> 8 \<Longrightarrow> unat (0x0F AND of_nat n :: u8) = n"
proof -
  assume "n \<le> 8"
  then have "n \<in> set [0..<9]" by simp
  then show ?thesis by (auto simp: upt_rec)
qed

section \<open>The parser decodes\<close>

lemma known_less: "known n \<Longrightarrow> n < 64"
  by (auto simp: known_iff option_numbers)

lemma view_no_options:
  assumes "options p = replicate 8 0"
  shows "view p = Map.empty"
proof
  fix n
  show "view p n = None"
  proof (cases "known n")
    case True
    then have "\<not> IS_OPTION p n" using known_less [OF True] assms by (simp add: IS_OPTION_bit)
    then show ?thesis by (simp add: view_def)
  next
    case False
    then show ?thesis by (simp add: view_def not_known)
  qed
qed

lemma parse_start:
  assumes "length tok \<le> 8" and "data = encode_header t c m tok @ rest"
  shows "\<exists>p. coap_parse_message data data_len = parse_loop data_len p (4 + length tok) 0 \<and> parse_ok p 0 (4 + length tok) \<and>
    coap_buffer p = data \<and> view p = Map.empty \<and> message_head p = (1, 3 AND t, c, m, length tok, tok @ replicate (8 - length tok) 0, 0, Null)"
proof -
  let ?b0 = "(0x40 OR (0x30 AND push_bit 4 t)) OR (0x0F AND of_nat (length tok)) :: u8"
  have data: "data = [?b0, c, ucast (drop_bit 8 m), ucast m] @ tok @ rest" using assms(2) by (simp add: encode_header_def)
  let ?p = "zero_packet\<lparr>coap_buffer := data, version := 1, msg_type := 3 AND t, token_len := length tok, code := c, mid := m,
    token := tok @ replicate (8 - length tok) 0\<rparr>"
  have g: "get data 0 = Some ?b0" "get data 1 = Some c" "get data 2 = Some (ucast (drop_bit 8 m))" "get data 3 = Some (ucast m)"
    by (simp_all add: data get_def)
  have n: "min COAP_TOKEN_LEN (unat (0x0F AND of_nat (length tok) :: u8)) = length tok"
    unfolding token_length [OF assms(1)] using assms(1) by (simp add: COAP_TOKEN_LEN_def)
  have tok: "read_bytes COAP_HEADER_LEN (length tok) data = Some tok" "write_bytes 0 tok (token zero_packet) = Some (tok @ replicate (8 - length tok) 0)"
    using assms(1) by (simp_all add: data read_bytes_def write_bytes_def COAP_HEADER_LEN_def zero_packet_def)
  have "coap_parse_message data data_len = parse_loop data_len ?p (4 + length tok) 0"
    unfolding coap_parse_message_def g Let_def Option.bind.simps header_parts mid_bytes n
    by (simp add: tok [unfolded COAP_HEADER_LEN_def] COAP_HEADER_LEN_def)
  moreover have "parse_ok ?p 0 (4 + length tok)"
    using assms(1) by (simp add: data parse_ok_def regions_def tags_ok_def zero_packet_def sfield_def region_def COAP_ETAG_LEN_def)
  moreover have "view ?p = Map.empty" by (rule view_no_options) (simp add: zero_packet_def)
  ultimately show ?thesis by (intro exI [of _ ?p]) (simp add: message_head_def zero_packet_def)
qed

lemma view_cong:
  assumes "regions p num pos" and "nfield q = nfield p" and "sfield q = sfield p" and "options q = options p"
    and "take pos (coap_buffer q) = take pos (coap_buffer p)"
  shows "view q = view p"
proof
  fix n
  have "string_of q n = string_of p n"
  proof (cases "snd (sfield p n) > 0")
    case True
    then have "\<exists>i j. region p n i j \<and> j \<le> pos" using assms(1) unfolding regions_def by blast
    then obtain i j where r: "region p n i j" "j \<le> pos" by blast
    then have "take j (coap_buffer q) = take j (coap_buffer p)"
      using arg_cong [OF assms(5), of "take j"] by (simp add: min_absorb1)
    with r(1) show ?thesis by (intro string_of_cong) (simp_all add: assms(3))
  next
    case False
    then show ?thesis using string_of_empty [of p n] string_of_empty [of q n] assms(3) by simp
  qed
  then show "view q n = view p n"
    unfolding view_def is_option_frame [OF assms(4), of n] assms(2) by (rule arg_cong)
qed

lemma parse_payload:
  assumes ok: "parse_ok p num pos" and h: "message_head p = (ver, t, c, m, n, tok, 0, Null)"
    and buf: "drop pos (coap_buffer p) = (if pl = [] then [] else 0xFF # pl) @ z # slack"
    and len: "data_len = pos + (if pl = [] then 0 else 1 + length pl)"
  shows "\<exists>q. parse_loop data_len p pos num = Some (NO_ERROR, q) \<and> view q = view p \<and>
    (version q, msg_type q, code q, mid q, token_len q, token q) = (ver, t, c, m, n, tok) \<and>
    payload_len q = min (length pl) REST_MAX_CHUNK_SIZE \<and> str q (payload q) (payload_len q) = take REST_MAX_CHUNK_SIZE pl"
proof (cases "pl = []")
  case True
  then show ?thesis
    using len h by (intro exI [of _ p], subst parse_loop.simps) (simp add: message_head_def str_def)
next
  case False
  let ?n = "min (length pl) REST_MAX_CHUNK_SIZE"
  let ?at = "pos + 1 + ?n"
  let ?buf = "take ?at (coap_buffer p) @ [0] @ drop (?at + 1) (coap_buffer p)"
  let ?q = "p\<lparr>payload := Buf (pos + 1), payload_len := ?n, coap_buffer := ?buf\<rparr>"
  from ok have r: "regions p num pos" "pos \<le> length (coap_buffer p)" by (simp_all add: parse_ok_def regions_def)
  have l: "length (coap_buffer p) = pos + 1 + length pl + 1 + length slack"
    using arg_cong [OF buf, of length] r(2) False by simp
  have g: "get (coap_buffer p) pos = Some 0xFF"
    using arg_cong [OF buf, of "\<lambda>xs. xs ! 0"] False l by (simp add: get_def)
  have w: "write_bytes ?at [0] (coap_buffer p) = Some ?buf"
    using l by (simp add: write_bytes_def)
  have "min (data_len - (pos + 1)) REST_MAX_CHUNK_SIZE = ?n" using len False by simp
  then have "parse_step data_len p pos num = Some (Stop NO_ERROR ?q)"
    using g w by (simp add: parse_step_def Let_def)
  then have "parse_loop data_len p pos num = Some (NO_ERROR, ?q)"
    using len False by (subst parse_loop.simps) simp
  moreover have "view ?q = view p"
  proof (rule view_cong [OF r(1)])
    show "nfield ?q = nfield p" by (rule ext) (simp add: nfield_def del: if_split cong: if_cong)
    show "sfield ?q = sfield p" by (rule ext) (simp add: sfield_def del: if_split cong: if_cong)
    show "take pos (coap_buffer ?q) = take pos (coap_buffer p)" using l by simp
  qed simp
  moreover have "str ?q (payload ?q) (payload_len ?q) = take REST_MAX_CHUNK_SIZE pl"
  proof -
    have "str ?q (payload ?q) (payload_len ?q) = take ?n (drop (pos + 1) ?buf)" by (simp add: str_def)
    also have "\<dots> = take ?n (drop (pos + 1) (coap_buffer p))" using l by (simp add: drop_take)
    also have "\<dots> = take ?n (pl @ z # slack)" using arg_cong [OF buf, of "drop 1"] False by simp
    also have "\<dots> = take REST_MAX_CHUNK_SIZE pl" by (simp add: min_def)
    finally show ?thesis .
  qed
  ultimately show ?thesis using h by (intro exI [of _ ?q]) (simp add: message_head_def)
qed

lemma parse_message:
  assumes "length tok \<le> 8" and "ascending 0 os" and "data_len = length (encode_message t c m tok os pl)"
  shows "case decode os Map.empty of
     (NO_ERROR, \<sigma>) \<Rightarrow> \<exists>q. coap_parse_message (encode_message t c m tok os pl @ z # slack) data_len = Some (NO_ERROR, q) \<and> view q = \<sigma> \<and>
       (version q, msg_type q, code q, mid q, token_len q, token q) = (1, 3 AND t, c, m, length tok, tok @ replicate (8 - length tok) 0) \<and>
       payload_len q = min (length pl) REST_MAX_CHUNK_SIZE \<and> str q (payload q) (payload_len q) = take REST_MAX_CHUNK_SIZE pl
   | (st, \<sigma>) \<Rightarrow> \<exists>q. coap_parse_message (encode_message t c m tok os pl @ z # slack) data_len = Some (st, q) \<and> view q = \<sigma>"
proof -
  let ?pl = "if pl = [] then [] else 0xFF # pl"
  let ?data = "encode_message t c m tok os pl @ z # slack"
  obtain p where p: "coap_parse_message ?data data_len = parse_loop data_len p (4 + length tok) 0" "parse_ok p 0 (4 + length tok)"
      "coap_buffer p = ?data" "view p = Map.empty" "message_head p = (1, 3 AND t, c, m, length tok, tok @ replicate (8 - length tok) 0, 0, Null)"
    using parse_start [OF assms(1), of ?data t c m "enc_options 0 os @ ?pl @ z # slack" data_len]
    by (auto simp: encode_message_def)
  have h: "length (encode_header t c m tok) = 4 + length tok" by (simp add: encode_header_def)
  have d: "drop (4 + length tok) (coap_buffer p) = enc_options 0 os @ ?pl @ z # slack"
    using h by (simp add: p(3) encode_message_def)
  have dl: "data_len = 4 + length tok + length (enc_options 0 os) + (if pl = [] then 0 else 1 + length pl)"
    using assms(3) h by (simp add: encode_message_def)
  have o: "case decode os (view p) of
     (NO_ERROR, \<sigma>) \<Rightarrow> \<exists>q. parse_loop data_len p (4 + length tok) 0 = parse_loop data_len q (4 + length tok + length (enc_options 0 os)) (last_number 0 os) \<and>
        parse_ok q (last_number 0 os) (4 + length tok + length (enc_options 0 os)) \<and> message_head q = message_head p \<and> view q = \<sigma> \<and>
        length (coap_buffer q) = length (coap_buffer p) \<and> drop (4 + length tok + length (enc_options 0 os)) (coap_buffer q) = ?pl @ z # slack
   | (st, \<sigma>) \<Rightarrow> \<exists>q. parse_loop data_len p (4 + length tok) 0 = Some (st, q) \<and> message_head q = message_head p \<and> view q = \<sigma>"
    using dl by (intro parse_options [OF p(2) assms(2) d]) simp
  obtain st \<sigma> where s: "decode os Map.empty = (st, \<sigma>)" by fastforce
  show ?thesis
  proof (cases "st = NO_ERROR")
    case True
    with o s p(1,4) obtain q where q: "coap_parse_message ?data data_len = parse_loop data_len q (4 + length tok + length (enc_options 0 os)) (last_number 0 os)"
        "parse_ok q (last_number 0 os) (4 + length tok + length (enc_options 0 os))" "message_head q = message_head p" "view q = \<sigma>"
        "drop (4 + length tok + length (enc_options 0 os)) (coap_buffer q) = ?pl @ z # slack"
      by auto
    from parse_payload [OF q(2) _ q(5) dl] q(1,3,4) p(5) True s show ?thesis by fastforce
  next
    case False
    with o s p(1,4) show ?thesis by (cases st) auto
  qed
qed

section \<open>What the serialiser writes decodes to what was set\<close>

lemma message_options_header: "message_options p = encode_header (msg_type p) (code p) (mid p) (take (token_len p) (token p)) @ enc_options 0 (packet_opts p)"
  if "packet_wf p"
  using that by (simp add: message_options_def message_header_def encode_header_def packet_wf_def min_absorb2)

lemma mask_zero: "NOT (mask n) AND v = 0 \<longleftrightarrow> drop_bit n (v :: u32) = 0"
proof
  assume "NOT (mask n) AND v = 0"
  then have "drop_bit n (NOT (mask n) AND v) = 0" by simp
  moreover have "drop_bit n (NOT (mask n) AND v) = drop_bit n v"
    by (rule bit_word_eqI) (auto simp: bit_ops bit_not_iff bit_mask_iff dest: bit_imp_le_length)
  ultimately show "drop_bit n v = 0" by simp
next
  assume z: "drop_bit n v = 0"
  have "\<not> bit v i" if "n \<le> i" for i
    using arg_cong [OF z, of "\<lambda>w. bit w (i - n)"] that by (simp add: bit_drop_bit_eq)
  then show "NOT (mask n) AND v = 0"
    by (intro bit_word_eqI) (auto simp: bit_ops bit_not_iff bit_mask_iff)
qed

lemma int_masks:
  "0xFF000000 AND (v :: u32) = 0 \<longleftrightarrow> drop_bit 24 v = 0" "0xFFFF0000 AND v = 0 \<longleftrightarrow> drop_bit 16 v = 0"
  "0xFFFFFF00 AND v = 0 \<longleftrightarrow> drop_bit 8 v = 0" "0xFFFFFFFF AND v = 0 \<longleftrightarrow> v = 0"
proof -
  have "(0xFF000000 :: u32) = NOT (mask 24)" "(0xFFFF0000 :: u32) = NOT (mask 16)" "(0xFFFFFF00 :: u32) = NOT (mask 8)"
    "(0xFFFFFFFF :: u32) = NOT (mask 0)" by (simp_all add: mask_numeral)
  then show "0xFF000000 AND v = 0 \<longleftrightarrow> drop_bit 24 v = 0" "0xFFFF0000 AND v = 0 \<longleftrightarrow> drop_bit 16 v = 0"
      "0xFFFFFF00 AND v = 0 \<longleftrightarrow> drop_bit 8 v = 0" "0xFFFFFFFF AND v = 0 \<longleftrightarrow> v = 0"
    by (simp_all only: mask_zero drop_bit_0 id_apply)
qed

lemma four_bytes:
  "coap_parse_int_option [ucast (drop_bit 24 v), ucast (drop_bit 16 v), ucast (drop_bit 8 v), ucast v] = v"
proof (rule bit_word_eqI)
  fix n :: nat
  consider "n < 8" | "8 \<le> n" "n < 16" | "16 \<le> n" "n < 24" | "24 \<le> n" by linarith
  then show "bit (coap_parse_int_option [ucast (drop_bit 24 v), ucast (drop_bit 16 v), ucast (drop_bit 8 v), ucast v]) n = bit v n"
    by cases (auto simp: coap_parse_int_option_def bit_ops dest: bit_imp_le_length)
qed

lemma parse_int_zero: "coap_parse_int_option (0 # bs) = coap_parse_int_option bs"
  by (simp add: coap_parse_int_option_def)

lemma parse_int_bytes: "coap_parse_int_option (int_bytes v) = v"
proof -
  have e: "drop_bit 24 v = drop_bit 8 (drop_bit 16 v)" "drop_bit 16 v = drop_bit 8 (drop_bit 8 v)" by simp_all
  consider "drop_bit 24 v \<noteq> 0" | "drop_bit 24 v = 0" "drop_bit 16 v \<noteq> 0" | "drop_bit 24 v = 0" "drop_bit 16 v = 0" "drop_bit 8 v \<noteq> 0"
    | "drop_bit 24 v = 0" "drop_bit 16 v = 0" "drop_bit 8 v = 0" by blast
  then show ?thesis
  proof cases
    case 1
    then have "drop_bit 16 v \<noteq> 0" "drop_bit 8 v \<noteq> 0" "v \<noteq> 0" using e by (metis drop_bit_of_0)+
    with 1 show ?thesis using four_bytes [of v] by (simp add: int_bytes_def int_masks)
  next
    case 2
    then have "drop_bit 8 v \<noteq> 0" "v \<noteq> 0" using e by (metis drop_bit_of_0)+
    with 2 show ?thesis using four_bytes [of v] by (simp add: int_bytes_def int_masks parse_int_zero)
  next
    case 3
    then have "v \<noteq> 0" using e by (metis drop_bit_of_0)
    with 3 show ?thesis using four_bytes [of v] by (simp add: int_bytes_def int_masks parse_int_zero)
  next
    case 4
    then show ?thesis using four_bytes [of v]
      by (cases "v = 0") (simp_all add: int_bytes_def int_masks parse_int_zero)
  qed
qed

lemma enc_options_length: "(m, v) \<in> set os \<Longrightarrow> length v \<le> length (enc_options n os)"
  by (induction n os rule: enc_options.induct) fastforce+

definition sorted_opts :: "nat \<Rightarrow> opt list \<Rightarrow> bool" where
  "sorted_opts n os \<longleftrightarrow> sorted (n # map fst os) \<and> (\<forall>m \<in> fst ` set os. m < 64)"

lemma ascending_iff: "ascending n os \<longleftrightarrow> sorted_opts n os \<and> (\<forall>(m, v) \<in> set os. encodable (length v))"
  by (induction n os rule: ascending.induct) (auto simp: sorted_opts_def)

text \<open>Values that survive the encoding: block numbers of 28 bits, block sizes of 16 to 2048 that are powers of two.\<close>

definition block_ok :: "u32 \<Rightarrow> u16 \<Rightarrow> bool" where
  "block_ok num sz \<longleftrightarrow> num < 0x10000000 \<and> sz \<in> {16, 32, 64, 128, 256, 512, 1024, 2048}"

lemma log_2_step: "coap_log_2_loop (numeral k) value result = (if drop_bit 1 value \<noteq> 0
    then coap_log_2_loop (pred_numeral k) (drop_bit 1 value) (result + 1) else result + 1)"
  by (simp add: numeral_eq_Suc Let_def)

lemma block_size_log:
  assumes "sz \<in> {16, 32, 64, 128, 256, 512, 1024, 2048 :: u16}"
  shows "0xF AND ucast (coap_log_2 (sz div 16)) = (ucast (coap_log_2 (sz div 16)) :: u32) \<and> coap_log_2 (sz div 16) \<in> set [0, 1, 2, 3, 4, 5, 6, 7] \<and>
    push_bit (unat (coap_log_2 (sz div 16))) 16 = sz"
proof -
  have *: "\<forall>sz \<in> set [16, 32, 64, 128, 256, 512, 1024, 2048 :: u16].
      0xF AND ucast (coap_log_2 (sz div 16)) = (ucast (coap_log_2 (sz div 16)) :: u32) \<and> coap_log_2 (sz div 16) \<in> set [0, 1, 2, 3, 4, 5, 6, 7] \<and>
      push_bit (unat (coap_log_2 (sz div 16))) 16 = sz"
    by (simp add: coap_log_2_def log_2_step)
  show ?thesis by (rule bspec [OF *]) (use assms in simp)
qed

lemma block_bits:
  fixes num :: u32 and l :: u32
  assumes "num < 0x10000000" and "l \<in> set [0, 1, 2, 3, 4, 5, 6, 7]" and "x \<in> set [0, 8]"
  shows "drop_bit 4 ((push_bit 4 num OR x) OR (0xF AND l)) = num" "bit ((push_bit 4 num OR x) OR (0xF AND l)) 3 \<longleftrightarrow> x = 8"
    "((push_bit 4 num OR x) OR (0xF AND l)) AND 7 = l"
proof -
  have n: "drop_bit 4 (push_bit 4 num) = num"
  proof -
    have "unat num < 2 ^ 28" using assms(1) by (simp add: word_less_nat_alt)
    then have "take_bit 28 num = num"
      by (simp add: word_eq_iff_unsigned [where 'a = nat] unsigned_take_bit_eq take_bit_nat_eq_self)
    then have "i < 28" if "bit num i" for i
      using that by (metis bit_take_bit_iff)
    then show ?thesis by (intro bit_word_eqI) (auto simp: bit_ops)
  qed
  have x: "drop_bit 4 x = 0" "bit x 3 \<longleftrightarrow> x = 8" "x AND 7 = 0" using assms(3) by auto
  have l: "0xF AND l = l" "drop_bit 4 l = 0" "\<not> bit l 3" "l AND 7 = l" using assms(2) by auto
  have p: "push_bit 4 num AND 7 = 0"
  proof (rule bit_word_eqI)
    fix i
    have m: "(7 :: u32) = mask 3" by (simp add: mask_numeral)
    show "bit (push_bit 4 num AND 7) i = bit (0 :: u32) i" unfolding m by (auto simp: bit_ops bit_mask_iff)
  qed
  show "drop_bit 4 ((push_bit 4 num OR x) OR (0xF AND l)) = num"
    by (simp only: l drop_bit_or n x or.right_neutral)
  show "bit ((push_bit 4 num OR x) OR (0xF AND l)) 3 \<longleftrightarrow> x = 8"
    by (simp add: l x bit_or_iff bit_push_bit_iff)
  show "((push_bit 4 num OR x) OR (0xF AND l)) AND 7 = l"
    by (simp only: l bit.conj_disj_distrib2 p x or.right_neutral or.left_neutral)
qed

lemma refused_known: "known n \<Longrightarrow> refused n = None"
  by (auto simp: refused_def known_iff option_numbers)

lemma decode_value:
  assumes "known n" and "\<not> is_string n" and "\<sigma> n = None"
  shows "decode ((n, v) # os) \<sigma> = decode os (\<sigma>(n := opt_value n v))"
  using assms by (simp add: refused_known apply_opt_def)

lemma refused_string: "is_string n \<Longrightarrow> refused n = None"
  by (rule refused_known) (simp add: known_def)

lemma decode_string: "is_string n \<Longrightarrow> decode ((n, v) # os) \<sigma> = decode os (\<sigma>(n \<mapsto> Str (merge (splitter n) (\<sigma> n) v)))"
  by (simp add: refused_string apply_opt_def)

lemma decode_more_parts:
  assumes "is_string n" and "splitter n \<noteq> 0" and "\<sigma> n = Some (Str w)" and "w \<noteq> []"
  shows "decode (map (Pair n) ps @ os) \<sigma> = decode os (\<sigma>(n \<mapsto> Str (w @ concat (map (Cons (splitter n)) ps))))"
  using assms(3,4)
proof (induction ps arbitrary: \<sigma> w)
  case Nil
  then show ?case by (simp add: fun_upd_idem)
next
  case (Cons p ps)
  have "decode (map (Pair n) (p # ps) @ os) \<sigma> = decode (map (Pair n) ps @ os) (\<sigma>(n \<mapsto> Str (w @ splitter n # p)))"
    using Cons.prems assms(1,2) by (simp add: decode_string merge_def del: decode.simps)
  also have "\<dots> = decode os (\<sigma>(n \<mapsto> Str (w @ concat (map (Cons (splitter n)) (p # ps)))))"
    by (subst Cons.IH [of "\<sigma>(n \<mapsto> Str (w @ splitter n # p))" "w @ splitter n # p"]) simp_all
  finally show ?case .
qed

lemma parts_join: "hd (parts c s) @ concat (map (Cons c) (tl (parts c s))) = s"
proof (induction s)
  case (Cons x s)
  have "c # hd (parts c s) @ concat (map (Cons c) (tl (parts c s))) = concat (map (Cons c) (parts c s))"
    by (cases "parts c s") simp_all
  then show ?case using Cons by auto
qed simp

lemma decode_parts:
  assumes "is_string n" and "splitter n \<noteq> 0" and "\<sigma> n = None" and "no_empty_part (splitter n) s"
  shows "decode (map (Pair n) (parts (splitter n) s) @ os) \<sigma> = decode os (\<sigma>(n \<mapsto> Str s))"
proof (cases "s = []")
  case True
  then show ?thesis using assms(1,3) by (simp add: decode_string merge_def del: decode.simps)
next
  case False
  define p where "p = hd (parts (splitter n) s)"
  define ps where "ps = tl (parts (splitter n) s)"
  have pp: "parts (splitter n) s = p # ps" by (simp add: p_def ps_def)
  have "p \<noteq> []" using assms(4) False pp by (auto simp: no_empty_part_def)
  then have "decode (map (Pair n) ps @ os) (\<sigma>(n \<mapsto> Str p)) = decode os (\<sigma>(n \<mapsto> Str (p @ concat (map (Cons (splitter n)) ps))))"
    using decode_more_parts [OF assms(1,2), of "\<sigma>(n \<mapsto> Str p)" p ps os] by simp
  then show ?thesis
    using assms(1,3) parts_join [of "splitter n" s] by (simp add: pp decode_string merge_def del: decode.simps)
qed

lemma block_roundtrip:
  assumes "block_ok num sz" and "n = COAP_OPTION_BLOCK2 \<or> n = COAP_OPTION_BLOCK1"
  shows "opt_value n (int_bytes (block_value num mo sz)) = Some (Block num (mo \<noteq> 0) sz)"
proof -
  define l where "l = (ucast (coap_log_2 (sz div 16)) :: u32)"
  from assms(1) have sz: "sz \<in> {16, 32, 64, 128, 256, 512, 1024, 2048}" "num < 0x10000000" by (simp_all add: block_ok_def)
  note lg = block_size_log [OF sz(1)]
  have "coap_log_2 (sz div 16) \<in> set [0, 1, 2, 3, 4, 5, 6, 7]" using lg by blast
  then have l: "l \<in> set [0, 1, 2, 3, 4, 5, 6, 7]" "unat l = unat (coap_log_2 (sz div 16))" by (auto simp: l_def)
  have "(if mo \<noteq> 0 then 8 else 0 :: u32) \<in> set [0, 8]" by simp
  note b = block_bits [OF sz(2) l(1) this]
  have "opt_value n w = Some (Block (drop_bit 4 (coap_parse_int_option w)) (bit (coap_parse_int_option w) 3)
      (push_bit (unat (coap_parse_int_option w AND 7)) 16))" for w
    using assms(2) by (auto simp: opt_value_def Let_def option_numbers)
  note o = this
  have i: "coap_parse_int_option (int_bytes (block_value num mo sz)) = (push_bit 4 num OR (if mo \<noteq> 0 then 8 else 0)) OR (0xF AND l)"
    by (simp only: parse_int_bytes block_value_def l_def)
  show ?thesis unfolding o i b l(2) using lg by simp
qed

text \<open>The values of the options in a list, as far as they have been decoded.\<close>

definition decoded :: "coap_packet \<Rightarrow> nat list \<Rightarrow> nat \<Rightarrow> oval option" where
  "decoded p ns m = (if m \<in> set ns then view p m else None)"

lemma decoded_Cons: "n \<notin> set ns \<Longrightarrow> decoded p (n # ns) = (decoded p ns)(n := view p n)"
  by (simp add: decoded_def fun_eq_iff)

lemma decoded_unset: "\<not> IS_OPTION p n \<Longrightarrow> decoded p (n # ns) = decoded p ns"
  by (simp add: decoded_def view_def fun_eq_iff)

lemma step_value:
  assumes "n \<notin> set ns" and "known n" and "\<not> is_string n" and "IS_OPTION p n \<Longrightarrow> opt_value n v = nfield p n"
  shows "decode (opt_if p n [v] @ os) (decoded p ns) = decode os (decoded p (n # ns))"
proof (cases "IS_OPTION p n")
  case True
  have "decoded p ns n = None" using assms(1) by (simp add: decoded_def)
  then show ?thesis
    using True decode_value [OF assms(2,3), of "decoded p ns" v os] assms by (simp add: opt_if_def decoded_Cons view_def)
qed (simp add: opt_if_def decoded_unset)

lemma merge_0: "merge 0 old v = v"
  by (simp add: merge_def split: option.split oval.split)

lemma step_host:
  assumes "COAP_OPTION_URI_HOST \<notin> set ns"
  shows "decode (opt_if p COAP_OPTION_URI_HOST [str p (uri_host p) (uri_host_len p)] @ os) (decoded p ns) =
    decode os (decoded p (COAP_OPTION_URI_HOST # ns))"
proof (cases "IS_OPTION p COAP_OPTION_URI_HOST")
  case True
  have h: "is_string COAP_OPTION_URI_HOST" "splitter COAP_OPTION_URI_HOST = 0"
    by (simp_all add: is_string_def splitter_def option_numbers)
  then show ?thesis
    using True assms decode_string [OF h(1), of "str p (uri_host p) (uri_host_len p)" os "decoded p ns"]
    by (simp add: opt_if_def decoded_Cons view_def string_of_def sfield_def merge_0 del: decode.simps)
qed (simp add: opt_if_def decoded_unset)

lemma step_parts:
  assumes "n \<notin> set ns" and "sfield p n = (ptr, len)" and "c = splitter n" and "c \<noteq> 0" and "str_if c p n ptr len"
  shows "decode (opt_if p n (parts c (str p ptr len)) @ os) (decoded p ns) = decode os (decoded p (n # ns))"
proof (cases "IS_OPTION p n")
  case True
  have s: "is_string n" using assms(3,4) by (simp add: is_string_def)
  have "decoded p ns n = None" using assms(1) by (simp add: decoded_def)
  moreover have "no_empty_part c (str p ptr len)" using assms(4,5) True by (simp add: str_if_def str_ok_def)
  ultimately show ?thesis
    using True decode_parts [OF s, of "decoded p ns" "str p ptr len" os] assms
    by (simp add: opt_if_def decoded_Cons view_def string_of_def s)
qed (simp add: opt_if_def decoded_unset)

lemma decode_packet:
  assumes "packet_wf p" and "\<not> IS_OPTION p COAP_OPTION_PROXY_URI" and "\<not> IS_OPTION p COAP_OPTION_PROXY_SCHEME"
    and "IS_OPTION p COAP_OPTION_BLOCK2 \<longrightarrow> block_ok (block2_num p) (block2_size p)"
    and "IS_OPTION p COAP_OPTION_BLOCK1 \<longrightarrow> block_ok (block1_num p) (block1_size p)"
  shows "decode (packet_opts p) Map.empty = (NO_ERROR, view p)"
proof -
  have e: "Map.empty = decoded p []" by (simp add: decoded_def fun_eq_iff)
  have "opt_if p COAP_OPTION_PROXY_URI v = []" "opt_if p COAP_OPTION_PROXY_SCHEME v = []" for v
    using assms(2,3) by (simp_all add: opt_if_def)
  note none = this
  have int: "opt_value COAP_OPTION_OBSERVE (int_bytes v) = Some (Num v)" "opt_value COAP_OPTION_CONTENT_FORMAT (int_bytes v) = Some (Num v)"
      "opt_value COAP_OPTION_MAX_AGE (int_bytes v) = Some (Num v)" "opt_value COAP_OPTION_ACCEPT (int_bytes v) = Some (Num v)"
      "opt_value COAP_OPTION_SIZE2 (int_bytes v) = Some (Num v)" "opt_value COAP_OPTION_SIZE1 (int_bytes v) = Some (Num v)"
      "opt_value COAP_OPTION_URI_PORT (int_bytes v) = Some (Num (v AND 0xFFFF))" "opt_value COAP_OPTION_IF_NONE_MATCH w = Some Flag"
      "opt_value COAP_OPTION_IF_MATCH w = Some (Str (take COAP_ETAG_LEN w))" "opt_value COAP_OPTION_ETAG w = Some (Str (take COAP_ETAG_LEN w))"
    for v w
    by (simp_all add: opt_value_def Let_def parse_int_bytes option_numbers)
  have port: "(ucast v :: u32) AND 0xFFFF = ucast v" for v :: u16
    unfolding ucast_port [symmetric] by (rule bit_word_eqI) (auto simp: bit_ops dest: bit_u16_less)
  have tags: "min COAP_ETAG_LEN (if_match_len p) = if_match_len p" "min COAP_ETAG_LEN (etag_len p) = etag_len p"
    using assms(1) by (simp_all add: packet_wf_def min_absorb2)
  have nf: "nfield p COAP_OPTION_OBSERVE = Some (Num (observe p))" "nfield p COAP_OPTION_CONTENT_FORMAT = Some (Num (content_format p))"
      "nfield p COAP_OPTION_MAX_AGE = Some (Num (max_age p))" "nfield p COAP_OPTION_ACCEPT = Some (Num (accept p))"
      "nfield p COAP_OPTION_SIZE2 = Some (Num (size2 p))" "nfield p COAP_OPTION_SIZE1 = Some (Num (size1 p))"
      "nfield p COAP_OPTION_URI_PORT = Some (Num (ucast (uri_port p)))" "nfield p COAP_OPTION_IF_NONE_MATCH = Some Flag"
      "nfield p COAP_OPTION_IF_MATCH = Some (Str (take (if_match_len p) (if_match p)))"
      "nfield p COAP_OPTION_ETAG = Some (Str (take (etag_len p) (etag p)))"
      "nfield p COAP_OPTION_BLOCK2 = Some (Block (block2_num p) (block2_more p \<noteq> 0) (block2_size p))"
      "nfield p COAP_OPTION_BLOCK1 = Some (Block (block1_num p) (block1_more p \<noteq> 0) (block1_size p))"
    by (simp_all add: nfield_def option_numbers)
  have blocks: "IS_OPTION p COAP_OPTION_BLOCK2 \<Longrightarrow> opt_value COAP_OPTION_BLOCK2 (int_bytes (block_value (block2_num p) (block2_more p) (block2_size p))) =
        Some (Block (block2_num p) (block2_more p \<noteq> 0) (block2_size p))"
      "IS_OPTION p COAP_OPTION_BLOCK1 \<Longrightarrow> opt_value COAP_OPTION_BLOCK1 (int_bytes (block_value (block1_num p) (block1_more p) (block1_size p))) =
        Some (Block (block1_num p) (block1_more p \<noteq> 0) (block1_size p))"
    using assms(4,5) block_roundtrip by blast+
  have strs: "str_if slash p COAP_OPTION_LOCATION_PATH (location_path p) (location_path_len p)"
     "str_if slash p COAP_OPTION_URI_PATH (uri_path p) (uri_path_len p)"
     "str_if ampersand p COAP_OPTION_URI_QUERY (uri_query p) (uri_query_len p)"
     "str_if ampersand p COAP_OPTION_LOCATION_QUERY (location_query p) (location_query_len p)"
    using assms(1) by (simp_all add: packet_wf_def)
  note last = step_value [where os = "[]", unfolded append_Nil2]
  let ?all = "[COAP_OPTION_SIZE1, COAP_OPTION_SIZE2, COAP_OPTION_BLOCK1, COAP_OPTION_BLOCK2, COAP_OPTION_LOCATION_QUERY,
    COAP_OPTION_ACCEPT, COAP_OPTION_URI_QUERY, COAP_OPTION_MAX_AGE, COAP_OPTION_CONTENT_FORMAT, COAP_OPTION_URI_PATH,
    COAP_OPTION_LOCATION_PATH, COAP_OPTION_URI_PORT, COAP_OPTION_OBSERVE, COAP_OPTION_IF_NONE_MATCH, COAP_OPTION_ETAG,
    COAP_OPTION_URI_HOST, COAP_OPTION_IF_MATCH]"
  have "decode (packet_opts p) Map.empty = decode [] (decoded p ?all)"
    unfolding e packet_opts_def none append_Nil unfolding option_numbers
    by (simp add: step_value last step_host [unfolded option_numbers] step_parts int [unfolded option_numbers] nf [unfolded option_numbers] tags port
      blocks [unfolded option_numbers] strs [unfolded option_numbers] known_iff [unfolded option_numbers]
      is_string_def [unfolded option_numbers] splitter_def [unfolded option_numbers] sfield_def [unfolded option_numbers] del: decode.simps One_nat_def)
  moreover have "decoded p ?all = view p"
  proof
    fix n
    show "decoded p ?all n = view p n"
    proof (cases "known n")
      case True
      then have "n \<in> set ?all" unfolding known_iff list.set insert_iff empty_iff by blast
      then show ?thesis by (simp only: decoded_def if_True)
    next
      case False
      have "view p n = None" by (simp add: view_def not_known(1,2) [OF False])
      then show ?thesis by (simp only: decoded_def if_cancel)
    qed
  qed
  ultimately show ?thesis by simp
qed

section \<open>The message of a packet\<close>

lemma sorted_opt_if:
  assumes "n \<le> m" and "m < 64" and "sorted_opts m os"
  shows "sorted_opts n (opt_if p m vs @ os)"
proof -
  have "fst x = m" if "x \<in> set (map (Pair m) vs)" for x using that by auto
  moreover have "sorted (map fst (map (Pair m) vs))" by (induction vs) auto
  ultimately show ?thesis
    using assms by (auto simp: sorted_opts_def opt_if_def sorted_append)
qed

lemma sorted_packet_opts: "sorted_opts 0 (packet_opts p)"
proof -
  have "sorted_opts COAP_OPTION_SIZE1 []" by (simp add: sorted_opts_def)
  then have "sorted_opts COAP_OPTION_PROXY_SCHEME (opt_if p COAP_OPTION_SIZE1 [int_bytes (size1 p)] @ [])"
    by (intro sorted_opt_if) (simp_all add: option_numbers)
  then show ?thesis
    unfolding packet_opts_def append_Nil2 by (intro sorted_opt_if) (simp_all add: option_numbers)
qed

definition message_fits :: "coap_packet \<Rightarrow> bool" where
  "message_fits p \<longleftrightarrow> length (message_options p) \<le> COAP_MAX_HEADER_SIZE"

lemma ascending_packet_opts:
  assumes "message_fits p"
  shows "ascending 0 (packet_opts p)"
proof -
  have "encodable (length v)" if "(m, v) \<in> set (packet_opts p)" for m v
    using enc_options_length [OF that, of 0] assms
    by (simp add: message_fits_def message_options_def encodable_def COAP_MAX_HEADER_SIZE_def COAP_TOKEN_LEN_def COAP_ETAG_LEN_def)
  then show ?thesis using sorted_packet_opts by (auto simp: ascending_iff)
qed

lemma message_bytes:
  assumes "packet_wf p" and "payload_ok p"
  shows "message_options p @ message_payload p = encode_message (msg_type p) (code p) (mid p) (take (token_len p) (token p)) (packet_opts p)
    (if payload_len p = 0 then [] else str p (payload p) (payload_len p))"
  using assms by (auto simp: message_options_header encode_message_def message_payload_def payload_ok_def str_def split: option.splits)

lemma take_length_append: "take (length xs) (xs @ ys) = xs"
  by simp

text \<open>The conditions under which a packet survives the trip.\<close>

definition sendable :: "coap_packet \<Rightarrow> bool" where
  "sendable p \<longleftrightarrow> packet_wf p \<and> payload_ok p \<and> code p \<noteq> 0 \<and> message_fits p \<and> payload_len p \<le> REST_MAX_CHUNK_SIZE \<and>
     \<not> IS_OPTION p COAP_OPTION_PROXY_URI \<and> \<not> IS_OPTION p COAP_OPTION_PROXY_SCHEME \<and>
     (IS_OPTION p COAP_OPTION_BLOCK2 \<longrightarrow> block_ok (block2_num p) (block2_size p)) \<and>
     (IS_OPTION p COAP_OPTION_BLOCK1 \<longrightarrow> block_ok (block1_num p) (block1_size p))"

lemma last_number_less: "ascending n os \<Longrightarrow> n < 64 \<Longrightarrow> last_number n os < 64"
  by (induction n os rule: ascending.induct) auto

text \<open>
  C7. The option parser decodes: for every message made of a header with a token of at
  most 8 bytes, options in ascending order with numbers below 64, and a payload,
  \<open>coap_parse_message\<close> stops at the first option it must refuse with the status of that
  refusal, and otherwise returns \<open>NO_ERROR\<close> with the header fields, the first 64 bytes of
  the payload, and a packet whose options have exactly the values the list gives them.
  Repeated path and query options are joined in place, in the received buffer, without
  touching an option that is still to be parsed.
\<close>
theorem coap_parse_decodes:
  assumes "length tok \<le> 8" and "ascending 0 os" and "data_len = length (encode_message t c m tok os pl)"
  shows "case decode os Map.empty of
     (NO_ERROR, \<sigma>) \<Rightarrow> \<exists>q. coap_parse_message (encode_message t c m tok os pl @ z # slack) data_len = Some (NO_ERROR, q) \<and> view q = \<sigma> \<and>
       (version q, msg_type q, code q, mid q, token_len q, token q) = (1, 3 AND t, c, m, length tok, tok @ replicate (8 - length tok) 0) \<and>
       payload_len q = min (length pl) REST_MAX_CHUNK_SIZE \<and> str q (payload q) (payload_len q) = take REST_MAX_CHUNK_SIZE pl
   | (st, \<sigma>) \<Rightarrow> \<exists>q. coap_parse_message (encode_message t c m tok os pl @ z # slack) data_len = Some (st, q) \<and> view q = \<sigma>"
  using assms by (rule parse_message)

lemma coap_parse_decodes_witness: "let os = [(11, [0x61]), (11, [0x62, 0x63]), (12, [40]), (60, [1, 0])] in
    \<exists>q. coap_parse_message (encode_message 0 1 77 [5] os [9] @ 0 # []) (length (encode_message 0 1 77 [5] os [9])) = Some (NO_ERROR, q) \<and>
      view q 11 = Some (Str [0x61, 0x2F, 0x62, 0x63]) \<and> view q 12 = Some (Num 40) \<and> view q 60 = Some (Num 256)"
proof -
  let ?os = "[(11, [0x61]), (11, [0x62, 0x63]), (12, [40]), (60, [1, 0])]"
  have d: "decode ?os Map.empty = (NO_ERROR, Map.empty(11 \<mapsto> Str [0x61, 0x2F, 0x62, 0x63], 12 \<mapsto> Num 40, 60 \<mapsto> Num 256))"
    by (simp add: refused_def known_iff option_numbers apply_opt_def is_string_def splitter_def merge_def slash_def ampersand_def
        opt_value_def Let_def coap_parse_int_option_def fun_upd_twist)
  have "length [5 :: u8] \<le> 8" "ascending 0 ?os" by (simp_all add: encodable_def)
  from coap_parse_decodes [OF this refl, of 0 1 77 "[9]" 0 "[]"] show ?thesis
    unfolding d Let_def by auto
qed

text \<open>
  C26. The parser sets the bit of an option before it looks at its number, and the bitmap
  has 8 bytes: a message that carries any option with a number of 64 or more, behind options
  that are accepted, makes \<open>coap_parse_message\<close> write outside of the bitmap
  (\<^term>\<open>None\<close>), whatever the rest of the datagram is; the number is never refused.
\<close>
theorem coap_option_number_overflow:
  assumes "length tok \<le> 8" and "ascending 0 os" and "decode os Map.empty = (NO_ERROR, \<sigma>)"
    and n: "64 \<le> n" "encodable n" "encodable (length v)"
    and data: "data = encode_header t c m tok @ enc_options 0 (os @ [(n, v)]) @ rest"
    and "length (encode_header t c m tok @ enc_options 0 os) < data_len"
  shows "coap_parse_message data data_len = None"
proof -
  let ?h = "enc_header (n - last_number 0 os) (length v)"
  have data': "data = encode_header t c m tok @ enc_options 0 os @ ?h @ v @ rest"
    by (simp add: data enc_options_append)
  obtain p where p: "coap_parse_message data data_len = parse_loop data_len p (4 + length tok) 0" "parse_ok p 0 (4 + length tok)"
      "coap_buffer p = data" "view p = Map.empty"
    using parse_start [OF assms(1) data', of data_len] by auto
  have h: "length (encode_header t c m tok) = 4 + length tok" by (simp add: encode_header_def)
  let ?at = "4 + length tok + length (enc_options 0 os)"
  have at: "?at < data_len" using assms(8) h by simp
  have d: "drop (4 + length tok) (coap_buffer p) = enc_options 0 os @ ?h @ v @ rest"
    using h by (simp add: p(3) data')
  obtain q where q: "parse_loop data_len p (4 + length tok) 0 = parse_loop data_len q ?at (last_number 0 os)"
      "parse_ok q (last_number 0 os) ?at" "drop ?at (coap_buffer q) = ?h @ v @ rest"
    using parse_options [OF p(2) assms(2) d, of data_len] at by (auto simp: p(4) assms(3))
  have last: "last_number 0 os \<le> n" using last_number_less [OF assms(2)] n(1) by simp
  have e: "encodable (n - last_number 0 os)" using n(2) by (simp add: encodable_def)
  have r: "?at \<le> length (coap_buffer q)" "length (options q) = 8" using q(2) by (simp_all add: parse_ok_def regions_def)
  obtain b pos1 where b: "get (coap_buffer q) ?at = Some b" "b AND 0xF0 \<noteq> 0xF0"
      "parse_ext (coap_buffer q) (unat (drop_bit 4 b)) (?at + 1) = Some (n - last_number 0 os, pos1)"
      "parse_ext (coap_buffer q) (unat (b AND 0x0F)) pos1 = Some (length v, ?at + length ?h)"
    using header_parse [OF e n(3) q(3) r(1)] by auto
  have big: "\<not> n div 8 < 8" using n(1) by presburger
  have "parse_step data_len q ?at (last_number 0 os) = None"
    using b r(2) big last by (simp add: parse_step_def OPTION_MAP_SIZE_def)
  then have "parse_loop data_len q ?at (last_number 0 os) = None" using at by (subst parse_loop.simps) simp
  then show ?thesis by (simp add: p(1) q(1))
qed

lemma coap_option_number_overflow_witness:
  "coap_parse_message [0x40, 1, 0, 77, 0xB1, 0x61, 0xD0, 52] 8 = None"
proof -
  have d: "decode [(11, [0x61])] Map.empty = (NO_ERROR, Map.empty(11 \<mapsto> Str [0x61]))"
    by (simp add: refused_def known_iff option_numbers apply_opt_def is_string_def splitter_def merge_def)
  have data: "[0x40, 1, 0, 77, 0xB1, 0x61, 0xD0, 52] = encode_header 0 1 77 [] @ enc_options 0 ([(11, [0x61])] @ [(76, [])]) @ []"
    by (simp add: encode_header_def enc_header_def ext_bytes_def coap_option_nibble_def)
  show ?thesis
    by (rule coap_option_number_overflow [OF _ _ d _ _ _ data])
      (simp_all add: encodable_def encode_header_def enc_header_def ext_bytes_def)
qed

text \<open>
  C6. Round trip: a packet whose strings have no empty part, whose header fits into
  \<open>COAP_MAX_HEADER_SIZE\<close> and whose payload into a chunk is written by
  \<open>coap_serialize_message\<close> to bytes that \<open>coap_parse_message\<close> accepts, and the parsed packet
  has the same type, code, message id, token and payload and the same value for every option.
\<close>
theorem coap_message_roundtrip:
  assumes "sendable p" and "length (message_options p @ message_payload p) < length buf"
  shows "\<exists>n p' out q. coap_serialize_message p buf = Some (n, p', out) \<and> coap_parse_message out n = Some (NO_ERROR, q) \<and>
    view q = view p \<and> code q = code p \<and> mid q = mid p \<and> msg_type q = 3 AND msg_type p \<and>
    take (token_len q) (token q) = take (token_len p) (token p) \<and>
    payload_len q = payload_len p \<and> str q (payload q) (payload_len q) = str p (payload p) (payload_len p)"
proof -
  let ?tok = "take (token_len p) (token p)" and ?pl = "if payload_len p = 0 then [] else str p (payload p) (payload_len p)"
  let ?m = "message_options p @ message_payload p"
  from assms(1) have wf: "packet_wf p" "payload_ok p" "code p \<noteq> 0" "message_fits p" "payload_len p \<le> REST_MAX_CHUNK_SIZE" "token_len p \<le> 8"
    by (simp_all add: sendable_def packet_wf_def COAP_TOKEN_LEN_def)
  have ser: "coap_serialize_message p buf = Some (length ?m, p\<lparr>version := 1\<rparr>, ?m @ drop (length ?m) buf)"
    using serialize_message [of p buf] wf assms(2) by (simp add: message_fits_def)
  obtain z slack where z: "drop (length ?m) buf = z # slack"
    using assms(2) by (metis Cons_nth_drop_Suc)
  note m = message_bytes [OF wf(1,2)]
  have tok: "length ?tok = token_len p"
    using wf(1) by (simp add: packet_wf_def min_absorb2)
  have pl: "length ?pl = payload_len p" "?pl = str p (payload p) (payload_len p)"
    using wf(2) by (auto simp: payload_ok_def str_def split: option.splits)
  have d: "decode (packet_opts p) Map.empty = (NO_ERROR, view p)"
    using assms(1) by (intro decode_packet) (simp_all add: sendable_def)
  have tl: "length ?tok \<le> 8" using tok wf(6) by simp
  have "\<exists>q. coap_parse_message (?m @ z # slack) (length ?m) = Some (NO_ERROR, q) \<and> view q = view p \<and>
      (version q, msg_type q, code q, mid q, token_len q, token q) =
        (1, 3 AND msg_type p, code p, mid p, length ?tok, ?tok @ replicate (8 - length ?tok) 0) \<and>
      payload_len q = min (length ?pl) REST_MAX_CHUNK_SIZE \<and> str q (payload q) (payload_len q) = take REST_MAX_CHUNK_SIZE ?pl"
    using parse_message [OF tl ascending_packet_opts [OF wf(4)] refl, of "msg_type p" "code p" "mid p" ?pl z slack]
    unfolding d m by simp
  then obtain q where q: "coap_parse_message (?m @ z # slack) (length ?m) = Some (NO_ERROR, q)" "view q = view p"
      "msg_type q = 3 AND msg_type p" "code q = code p" "mid q = mid p" "token_len q = length ?tok"
      "token q = ?tok @ replicate (8 - length ?tok) 0" "payload_len q = min (length ?pl) REST_MAX_CHUNK_SIZE"
      "str q (payload q) (payload_len q) = take REST_MAX_CHUNK_SIZE ?pl" by auto
  have "take (token_len q) (token q) = ?tok" unfolding q(6,7) by (rule take_length_append)
  moreover have "payload_len q = payload_len p" "take REST_MAX_CHUNK_SIZE ?pl = str p (payload p) (payload_len p)"
    using q(8) wf(5) pl by simp_all
  ultimately show ?thesis using ser q(1-5,9) unfolding z by metis
qed

text \<open>A request for \<open>a/b\<close> with a second block of 64 bytes and a payload.\<close>

definition example_packet :: coap_packet where
  "example_packet = snd (coap_set_payload (Mem [9, 8]) 2 (snd (coap_set_header_block2 3 1 64
     (SET_OPTION COAP_OPTION_URI_PATH ((coap_init_message 0 1 77)\<lparr>uri_path := Mem [0x61, 0x2F, 0x62, 0], uri_path_len := 3\<rparr>)))))"

lemma replicate_8: "replicate 8 x = [x, x, x, x, x, x, x, x]"
  by (simp add: numeral_eq_Suc)

lemma example_eq: "example_packet = zero_packet\<lparr>code := 1, mid := 77, options := [0, 8, 128, 0, 0, 0, 0, 0],
    uri_path := Mem [0x61, 0x2F, 0x62, 0], uri_path_len := 3, block2_num := 3, block2_more := 1, block2_size := 64,
    payload := Mem [9, 8], payload_len := 2\<rparr>"
  by (simp add: example_packet_def coap_set_payload_def coap_set_header_block2_def SET_OPTION_def coap_init_message_def
      zero_packet_def option_numbers OPTION_MAP_SIZE_def Let_def REST_MAX_CHUNK_SIZE_def replicate_8)

lemma example_options: "options example_packet = [0, 8, 128, 0, 0, 0, 0, 0]"
  by (simp add: example_eq)

lemma example_is_option: "IS_OPTION example_packet n \<longleftrightarrow> [0, 8, 128, 0, 0, 0, 0, 0 :: u8] ! (n div 8) AND push_bit (n mod 8) 1 \<noteq> 0"
  by (simp add: IS_OPTION_def OPTION_MAP_SIZE_def example_options)

lemma example_opts: "packet_opts example_packet = [(11, [0x61]), (11, [0x62]), (23, [0x3A])]"
proof -
  have l: "coap_log_2 4 = 2" by (simp add: coap_log_2_def log_2_step)
  show ?thesis
    by (simp add: packet_opts_def opt_if_def example_is_option option_numbers del: One_nat_def)
       (simp add: example_eq str_def slash_def int_bytes_def block_value_def l)
qed

lemma example_sendable: "sendable example_packet"
  by (simp add: sendable_def packet_wf_def payload_ok_def message_fits_def message_options_def example_opts str_if_def example_is_option
      option_numbers enc_header_def ext_bytes_def message_header_def COAP_ETAG_LEN_def COAP_TOKEN_LEN_def COAP_MAX_HEADER_SIZE_def
      del: One_nat_def)
     (simp add: example_eq zero_packet_def str_ok_def no_empty_part_def str_def slash_def block_ok_def REST_MAX_CHUNK_SIZE_def)

lemma coap_message_roundtrip_witness:
  "\<exists>n p' out q. coap_serialize_message example_packet (replicate 32 0) = Some (n, p', out) \<and> coap_parse_message out n = Some (NO_ERROR, q) \<and>
      view q 11 = Some (Str [0x61, 0x2F, 0x62]) \<and> view q 23 = Some (Block 3 True 64) \<and> payload_len q = 2"
proof -
  have l: "length (message_options example_packet @ message_payload example_packet) < length (replicate 32 0)"
    by (simp add: message_options_def example_opts enc_header_def ext_bytes_def message_header_def message_payload_def)
      (simp add: example_eq zero_packet_def str_def)
  have v: "view example_packet 11 = Some (Str [0x61, 0x2F, 0x62])" "view example_packet 23 = Some (Block 3 True 64)" "payload_len example_packet = 2"
    by (simp_all add: view_def example_is_option is_string_def splitter_def option_numbers string_of_def sfield_def nfield_def)
      (simp_all add: example_eq str_def)
  show ?thesis using coap_message_roundtrip [OF example_sendable l] v by metis
qed

end
