(* ===== verification/Json.thy ===== *)
theory Json
  imports Prelude
begin

text \<open>
  The JSON parser \<open>apps/json/jsonparse.c\<close>: a push-down automaton that the
  application steps from token to token. The stack of open brackets is an array
  of 10 characters in the parser state; the text is a C string, so that the
  list holds the terminating NUL. An access outside of either is \<^term>\<open>None\<close>.
\<close>

section \<open>The parser\<close>

definition JSON_TYPE_ERROR :: char where "JSON_TYPE_ERROR = CHR 0x00"
definition JSON_TYPE_PAIR_NAME :: char where "JSON_TYPE_PAIR_NAME = CHR ''N''"
definition JSON_TYPE_STRING :: char where "JSON_TYPE_STRING = CHR 0x22"
definition JSON_TYPE_NUMBER :: char where "JSON_TYPE_NUMBER = CHR ''0''"
definition JSONPARSE_MAX_DEPTH :: nat where "JSONPARSE_MAX_DEPTH = 10"

datatype json_error = JSON_ERROR_OK | JSON_ERROR_SYNTAX | JSON_ERROR_UNEXPECTED_ARRAY | JSON_ERROR_UNEXPECTED_END_OF_ARRAY
  | JSON_ERROR_UNEXPECTED_OBJECT | JSON_ERROR_UNEXPECTED_STRING

record jsonparse_state =
  json :: string
  pos :: nat
  len :: nat
  depth :: nat
  vstart :: nat
  vlen :: nat
  vtype :: char
  error :: json_error
  stack :: "char list"

definition char_at :: "string \<Rightarrow> nat \<Rightarrow> char option" where
  "char_at s i = (if i < length s then Some (s ! i) else None)"

definition is_digit :: "char \<Rightarrow> bool" where
  "is_digit c \<longleftrightarrow> c \<in> set ''0123456789''"

definition push :: "char \<Rightarrow> jsonparse_state \<Rightarrow> (bool \<times> jsonparse_state) option" where
  "push c s = (if depth s < length (stack s)
     then Some (depth s + 1 < JSONPARSE_MAX_DEPTH, s\<lparr>stack := (stack s)[depth s := c], depth := depth s + 1, vtype := CHR 0x00\<rparr>)
     else None)"

definition pop :: "jsonparse_state \<Rightarrow> char \<times> jsonparse_state" where
  "pop s = (if depth s = 0 then (JSON_TYPE_ERROR, s) else (stack s ! (depth s - 1), s\<lparr>depth := depth s - 1\<rparr>))"

text \<open>The loop over the characters of a string gives the position behind the closing quote.\<close>

function (sequential) string_loop :: "string \<Rightarrow> nat \<Rightarrow> nat option" where
  "string_loop t p = (case char_at t p of None \<Rightarrow> None
     | Some c \<Rightarrow> if c = CHR 0x00 \<or> c = CHR 0x22 then Some (p + 1)
         else if c = CHR 0x5C then string_loop t (p + 2) else string_loop t (p + 1))"
  by pat_completeness auto
termination by (relation "measure (\<lambda>(t, p). length t - p)") (auto simp: char_at_def split: if_splits)

function (sequential) number_loop :: "string \<Rightarrow> nat \<Rightarrow> nat option" where
  "number_loop t p = (case char_at t p of None \<Rightarrow> None
     | Some c \<Rightarrow> if \<not> is_digit c \<and> c \<noteq> CHR ''.'' then Some p
         else number_loop t (p + 1))"
  by pat_completeness auto
termination by (relation "measure (\<lambda>(t, p). length t - p)") (auto simp: char_at_def split: if_splits)

declare string_loop.simps [simp del] number_loop.simps [simp del]

definition atomic :: "char \<Rightarrow> jsonparse_state \<Rightarrow> jsonparse_state option" where
  "atomic type s = (let s = s\<lparr>vstart := pos s, vtype := type\<rparr> in
     if type = JSON_TYPE_STRING \<or> type = JSON_TYPE_PAIR_NAME
     then map_option (\<lambda>p. s\<lparr>pos := p, vlen := p - vstart s - 1\<rparr>) (string_loop (json s) (pos s))
     else if type = JSON_TYPE_NUMBER
     then map_option (\<lambda>p. s\<lparr>pos := p, vstart := vstart s - 1, vlen := p - (vstart s - 1)\<rparr>) (number_loop (json s) (pos s))
     else Some s)"

function (sequential) ws_loop :: "string \<Rightarrow> nat \<Rightarrow> nat \<Rightarrow> nat option" where
  "ws_loop t n p = (if p < n then
     (case char_at t p of None \<Rightarrow> None
      | Some c \<Rightarrow> if c = CHR '' '' \<or> c = CHR 0x0A then ws_loop t n (p + 1) else Some p)
     else Some p)"
  by pat_completeness auto
termination by (relation "measure (\<lambda>(t, n, p). n - p)") auto

declare ws_loop.simps [simp del]

definition skip_ws :: "jsonparse_state \<Rightarrow> jsonparse_state option" where
  "skip_ws s = map_option (\<lambda>p. s\<lparr>pos := p\<rparr>) (ws_loop (json s) (len s) (pos s))"

text \<open>The members for the current value are not initialised.\<close>

definition jsonparse_setup :: "string \<Rightarrow> nat \<Rightarrow> jsonparse_state \<Rightarrow> jsonparse_state" where
  "jsonparse_setup t n s = s\<lparr>json := t, len := n, pos := 0, depth := 0, error := JSON_ERROR_OK, stack := (stack s)[0 := CHR 0x00]\<rparr>"

definition jsonparse_get_type :: "jsonparse_state \<Rightarrow> char" where
  "jsonparse_get_type s = (if depth s = 0 then CHR 0x00 else stack s ! (depth s - 1))"

definition jsonparse_has_next :: "jsonparse_state \<Rightarrow> bool" where
  "jsonparse_has_next s \<longleftrightarrow> pos s < len s"

definition fail :: "json_error \<Rightarrow> jsonparse_state \<Rightarrow> (char \<times> jsonparse_state) option" where
  "fail e s = Some (JSON_TYPE_ERROR, s\<lparr>error := e\<rparr>)"

definition jsonparse_next :: "jsonparse_state \<Rightarrow> (char \<times> jsonparse_state) option" where
  "jsonparse_next s = do {
     s \<leftarrow> skip_ws s;
     c \<leftarrow> char_at (json s) (pos s);
     let t = jsonparse_get_type s;
     let s = s\<lparr>pos := pos s + 1\<rparr>;
     (if c = CHR 0x7B then map_option (\<lambda>(_, s). (c, s)) (push c s)
      else if c = CHR 0x7D then
        (let (t, s) = (if t = CHR '':'' \<and> vtype s \<noteq> CHR 0x00 then let s = snd (pop s) in (jsonparse_get_type s, s) else (t, s)) in
         if t = CHR 0x7B then Some (c, snd (pop s)) else fail JSON_ERROR_SYNTAX s)
      else if c = CHR '']'' then
        (if t = CHR ''['' then Some (c, snd (pop s)) else fail JSON_ERROR_UNEXPECTED_END_OF_ARRAY s)
      else if c = CHR '':'' then map_option (\<lambda>(_, s). (c, s)) (push c s)
      else if c = CHR '','' then
        (if t = CHR '':'' \<and> vtype s \<noteq> CHR 0x00 then Some (c, snd (pop s))
         else if t = CHR ''['' then Some (c, s) else fail JSON_ERROR_SYNTAX s)
      else if c = CHR 0x22 then
        (if t = CHR 0x7B \<or> t = CHR ''['' \<or> t = CHR '':''
         then let c = (if t = CHR 0x7B then JSON_TYPE_PAIR_NAME else c) in map_option (\<lambda>s. (c, s)) (atomic c s)
         else fail JSON_ERROR_UNEXPECTED_STRING s)
      else if c = CHR ''['' then
        (if t = CHR 0x7B \<or> t = CHR ''['' \<or> t = CHR '':'' then map_option (\<lambda>(_, s). (c, s)) (push c s)
         else fail JSON_ERROR_UNEXPECTED_ARRAY s)
      else if (t = CHR '':'' \<or> t = CHR ''['') \<and> is_digit c
        then map_option (\<lambda>s. (JSON_TYPE_NUMBER, s)) (atomic JSON_TYPE_NUMBER s)
      else Some (CHR 0x00, s))
   }"

section \<open>Reading the current value\<close>

definition text_at :: "nat \<Rightarrow> nat \<Rightarrow> string \<Rightarrow> string option" where
  "text_at p n t = (if p + n \<le> length t then Some (take n (drop p t)) else None)"

definition jsonparse_copy_value :: "nat \<Rightarrow> string \<Rightarrow> jsonparse_state \<Rightarrow> (char \<times> string) option" where
  "jsonparse_copy_value sz str s = (if vtype s = CHR 0x00 then Some (CHR 0x00, str)
     else let n = (if sz \<le> vlen s then sz - 1 else vlen s) in
       if n < length str then map_option (\<lambda>v. (vtype s, v @ CHR 0x00 # drop (n + 1) str)) (text_at (vstart s) n (json s))
       else None)"

definition digit_value :: "char \<Rightarrow> int" where
  "digit_value c = of_char c - 48"

text \<open>\<open>atoi\<close> and \<open>atol\<close> on a text that starts with a digit; a value that does not fit is undefined.\<close>

definition atoi :: "nat \<Rightarrow> string \<Rightarrow> int option" where
  "atoi bits t = (let v = fold (\<lambda>c v. 10 * v + digit_value c) (takeWhile is_digit t) 0 in if v < 2 ^ (bits - 1) then Some v else None)"

definition jsonparse_get_value_as_int :: "jsonparse_state \<Rightarrow> int option" where
  "jsonparse_get_value_as_int s = (if vtype s \<noteq> JSON_TYPE_NUMBER then Some 0 else atoi 32 (drop (vstart s) (json s)))"

definition jsonparse_get_value_as_long :: "nat \<Rightarrow> jsonparse_state \<Rightarrow> int option" where
  "jsonparse_get_value_as_long bits s = (if vtype s \<noteq> JSON_TYPE_NUMBER then Some 0 else atoi bits (drop (vstart s) (json s)))"

text \<open>The sign of the result of \<open>strncmp\<close>.\<close>

fun strncmp :: "nat \<Rightarrow> string \<Rightarrow> string \<Rightarrow> int option" where
  "strncmp 0 a b = Some 0"
| "strncmp (Suc n) (x # a) (y # b) = (if x \<noteq> y then Some (sgn (of_char x - of_char y)) else if x = CHR 0x00 then Some 0 else strncmp n a b)"
| "strncmp (Suc n) _ _ = None"

definition jsonparse_strcmp_value :: "string \<Rightarrow> jsonparse_state \<Rightarrow> int option" where
  "jsonparse_strcmp_value str s = (if vtype s = CHR 0x00 then Some (- 1) else strncmp (vlen s) str (drop (vstart s) (json s)))"

definition jsonparse_get_len :: "jsonparse_state \<Rightarrow> nat" where
  "jsonparse_get_len s = vlen s"

section \<open>Documents and their tokens\<close>

datatype jval = JObj "(string \<times> jval) list" | JArr "jval list" | JStr string | JNum string

text \<open>A token is what \<^const>\<open>jsonparse_next\<close> returns, with the text of the value for strings, names and numbers.\<close>

type_synonym token = "char \<times> string"

fun obj_tokens :: "(string \<times> token list) list \<Rightarrow> token list" where
  "obj_tokens [] = []"
| "obj_tokens ((k, ts) # ps) = (JSON_TYPE_PAIR_NAME, k) # (CHR '':'', []) # ts @ (if ps = [] then [] else (CHR '','', []) # obj_tokens ps)"

fun arr_tokens :: "token list list \<Rightarrow> token list" where
  "arr_tokens [] = []"
| "arr_tokens (ts # tss) = ts @ (if tss = [] then [] else (CHR '','', []) # arr_tokens tss)"

primrec tokens :: "jval \<Rightarrow> token list" where
  "tokens (JObj ps) = (CHR 0x7B, []) # obj_tokens (map (map_prod id tokens) ps) @ [(CHR 0x7D, [])]"
| "tokens (JArr vs) = (CHR ''['', []) # arr_tokens (map tokens vs) @ [(CHR '']'', [])]"
| "tokens (JStr v) = [(JSON_TYPE_STRING, v)]"
| "tokens (JNum v) = [(JSON_TYPE_NUMBER, v)]"

fun token_text :: "token \<Rightarrow> string" where
  "token_text (c, v) = (if c = JSON_TYPE_STRING \<or> c = JSON_TYPE_PAIR_NAME then CHR 0x22 # v @ [CHR 0x22]
     else if c = JSON_TYPE_NUMBER then v else [c])"

text \<open>The text of a document has some blanks in front of every token.\<close>

definition blank :: "string \<Rightarrow> bool" where
  "blank w \<longleftrightarrow> set w \<subseteq> {CHR '' '', CHR 0x0A}"

definition render :: "string \<Rightarrow> token list \<Rightarrow> string" where
  "render w ts = concat (map (\<lambda>t. w @ token_text t) ts)"

text \<open>
  A value is recorded when it ends with a string or number; a comma or closing
  brace behind a member needs that (\<open>vtype\<close> is not zero).
\<close>

primrec recorded :: "jval \<Rightarrow> bool" where
  "recorded (JObj ps) = (ps \<noteq> [])"
| "recorded (JArr vs) = (vs \<noteq> [] \<and> last (map recorded vs))"
| "recorded (JStr v) = True"
| "recorded (JNum v) = True"

definition plain :: "string \<Rightarrow> bool" where
  "plain v \<longleftrightarrow> CHR 0x00 \<notin> set v \<and> CHR 0x22 \<notin> set v \<and> CHR 0x5C \<notin> set v"

definition number :: "string \<Rightarrow> bool" where
  "number v \<longleftrightarrow> v \<noteq> [] \<and> is_digit (hd v) \<and> (\<forall>c \<in> set v. is_digit c \<or> c = CHR ''.'')"

primrec accepted :: "jval \<Rightarrow> bool" where
  "accepted (JObj ps) = (list_all (\<lambda>(k, a). plain k \<and> a) (map (map_prod id accepted) ps) \<and> list_all (\<lambda>(k, v). recorded v) ps)"
| "accepted (JArr vs) = list_all (\<lambda>a. a) (map accepted vs)"
| "accepted (JStr v) = plain v"
| "accepted (JNum v) = number v"

text \<open>The number of stack slots a value takes.\<close>

primrec height :: "jval \<Rightarrow> nat" where
  "height (JObj ps) = 1 + foldr max (map (\<lambda>(k, h). 1 + h) (map (map_prod id height) ps)) 0"
| "height (JArr vs) = 1 + foldr max (map height vs) 0"
| "height (JStr v) = 0"
| "height (JNum v) = 0"

section \<open>The parser delivers the tokens\<close>

definition next_token :: "jsonparse_state \<Rightarrow> (token \<times> jsonparse_state) option" where
  "next_token s = do {
     (c, s) \<leftarrow> jsonparse_next s;
     v \<leftarrow> (if c = JSON_TYPE_STRING \<or> c = JSON_TYPE_PAIR_NAME \<or> c = JSON_TYPE_NUMBER
       then text_at (vstart s) (jsonparse_get_len s) (json s) else Some []);
     Some ((c, v), s)
   }"

fun run_tokens :: "nat \<Rightarrow> jsonparse_state \<Rightarrow> (token list \<times> jsonparse_state) option" where
  "run_tokens 0 s = Some ([], s)"
| "run_tokens (Suc n) s = do { (t, s) \<leftarrow> next_token s; (ts, s) \<leftarrow> run_tokens n s; Some (t # ts, s) }"

lemma run_tokens_append:
  "run_tokens m s = Some (ts, s') \<Longrightarrow> run_tokens n s' = Some (us, s'') \<Longrightarrow> run_tokens (m + n) s = Some (ts @ us, s'')"
  by (induction m arbitrary: s ts) (auto simp: bind_eq_Some_conv)

text \<open>The parser stands in front of \<open>rest\<close>, with the brackets \<open>stk\<close> open; the last \<open>L\<close> characters lie behind the document.\<close>

definition conf :: "nat \<Rightarrow> char list \<Rightarrow> bool \<Rightarrow> string \<Rightarrow> jsonparse_state \<Rightarrow> bool" where
  "conf L stk vt rest s \<longleftrightarrow> pos s \<le> length (json s) \<and> drop (pos s) (json s) = rest \<and> len s + L = length (json s) \<and> 0 < L \<and> L \<le> length rest \<and>
     depth s = length stk \<and> take (length stk) (stack s) = rev stk \<and> length (stack s) = JSONPARSE_MAX_DEPTH \<and>
     (vtype s \<noteq> CHR 0x00) = vt \<and> error s = JSON_ERROR_OK"

lemma ws_loop_blank:
  assumes "blank w" and "t = pre @ w @ c # rest" and "c \<noteq> CHR '' ''" and "c \<noteq> CHR 0x0A" and "length (pre @ w) < n"
  shows "ws_loop t n (length pre) = Some (length (pre @ w))"
  using assms
proof (induction w arbitrary: pre)
  case Nil
  then show ?case by (subst ws_loop.simps) (simp add: char_at_def)
next
  case (Cons b w)
  then have "ws_loop t n (length (pre @ [b])) = Some (length ((pre @ [b]) @ w))"
    by (intro Cons.IH) (simp_all add: blank_def)
  moreover have "b = CHR '' '' \<or> b = CHR 0x0A" using Cons.prems(1) by (simp add: blank_def)
  ultimately show ?case using Cons.prems(2,5) by (subst ws_loop.simps) (simp add: char_at_def nth_append)
qed

lemma conf_skip:
  assumes "conf L stk vt (w @ c # rest) s" and "blank w" and "c \<noteq> CHR '' ''" and "c \<noteq> CHR 0x0A" and "L \<le> length rest"
  shows "\<exists>p. skip_ws s = Some (s\<lparr>pos := p\<rparr>) \<and> char_at (json s) p = Some c \<and> drop (p + 1) (json s) = rest \<and> p + 1 \<le> length (json s)"
proof -
  let ?pre = "take (pos s) (json s)"
  have c: "pos s \<le> length (json s)" "drop (pos s) (json s) = w @ c # rest" "len s + L = length (json s)"
    using assms(1) by (simp_all add: conf_def)
  have j: "json s = ?pre @ w @ c # rest" using append_take_drop_id [of "pos s" "json s"] c(2) by simp
  have l: "length (json s) = pos s + length w + 1 + length rest"
    using arg_cong [OF c(2), of length] c(1) by simp
  have "ws_loop (json s) (len s) (length ?pre) = Some (length (?pre @ w))"
    using l c(3) assms(5) by (intro ws_loop_blank [OF assms(2) j assms(3,4)]) simp
  then have "skip_ws s = Some (s\<lparr>pos := pos s + length w\<rparr>)"
    using c(1) by (simp add: skip_ws_def)
  moreover have "drop (pos s + length w) (json s) = c # rest"
    using arg_cong [OF c(2), of "drop (length w)"] by (simp add: ac_simps)
  then have "char_at (json s) (pos s + length w) = Some c"
    using l by (simp add: char_at_def nth_via_drop)
  moreover have "drop (pos s + length w + 1) (json s) = rest"
    using arg_cong [OF c(2), of "drop (length w + 1)"] by (simp add: ac_simps)
  ultimately show ?thesis using l by (intro exI [of _ "pos s + length w"]) simp
qed

lemma conf_type: "conf L (t # stk) vt r s \<Longrightarrow> jsonparse_get_type (s\<lparr>pos := p\<rparr>) = t"
  by (simp add: conf_def jsonparse_get_type_def) (metis (no_types) append_take_drop_id length_rev nth_append_length append.assoc append_Cons append_Nil)

lemma conf_type_Nil: "conf L [] vt r s \<Longrightarrow> jsonparse_get_type (s\<lparr>pos := p\<rparr>) = CHR 0x00"
  by (simp add: conf_def jsonparse_get_type_def)

lemmas token_types = JSON_TYPE_STRING_def JSON_TYPE_PAIR_NAME_def JSON_TYPE_NUMBER_def JSON_TYPE_ERROR_def

lemma step_open:
  assumes cf: "conf L stk vt (w @ c # rest) s" and w: "blank w" and L: "L \<le> length rest" and "length stk < JSONPARSE_MAX_DEPTH"
    and c: "c = CHR 0x7B \<or> c = CHR '':'' \<or> c = CHR ''['' \<and> stk \<noteq> [] \<and> hd stk \<in> {CHR ''['', CHR '':''}"
  shows "\<exists>s'. next_token s = Some ((c, []), s') \<and> conf L (c # stk) False rest s'"
proof -
  have nb: "c \<noteq> CHR '' ''" "c \<noteq> CHR 0x0A" using c by auto
  obtain p where p: "skip_ws s = Some (s\<lparr>pos := p\<rparr>)" "char_at (json s) p = Some c" "drop (p + 1) (json s) = rest" "p + 1 \<le> length (json s)"
    using conf_skip [OF cf w nb L] by blast
  have d: "depth s = length stk" "length (stack s) = JSONPARSE_MAX_DEPTH" "take (length stk) (stack s) = rev stk"
    using cf by (simp_all add: conf_def)
  let ?s = "s\<lparr>pos := p + 1, stack := (stack s)[depth s := c], depth := depth s + 1, vtype := CHR 0x00\<rparr>"
  have t: "c = CHR ''['' \<Longrightarrow> jsonparse_get_type (s\<lparr>pos := p\<rparr>) = CHR ''['' \<or> jsonparse_get_type (s\<lparr>pos := p\<rparr>) = CHR '':''"
    using c conf_type [of L _ _ vt _ s p] cf by (cases stk) auto
  have "jsonparse_next s = Some (c, ?s)"
    using c t p(1,2) d assms(4) by (auto simp: jsonparse_next_def push_def Let_def)
  then have "next_token s = Some ((c, []), ?s)"
    using c by (auto simp: next_token_def token_types)
  moreover have "conf L (c # stk) False rest ?s"
    using cf p(3,4) L assms(4) d by (auto simp: conf_def take_Suc_conv_app_nth)
  ultimately show ?thesis by blast
qed

lemma conf_pop: "conf L (t # stk) vt r s \<Longrightarrow> drop p (json s) = rest \<Longrightarrow> p \<le> length (json s) \<Longrightarrow> L \<le> length rest \<Longrightarrow>
    conf L stk vt rest (snd (pop (s\<lparr>pos := p\<rparr>)))"
  by (auto simp: conf_def pop_def dest: arg_cong [of _ _ "take (length stk)"] simp: min_def)

lemma conf_move: "conf L stk vt r s \<Longrightarrow> drop p (json s) = rest \<Longrightarrow> p \<le> length (json s) \<Longrightarrow> L \<le> length rest \<Longrightarrow> conf L stk vt rest (s\<lparr>pos := p\<rparr>)"
  by (simp add: conf_def)

lemma step_close_array:
  assumes cf: "conf L (CHR ''['' # stk) vt (w @ CHR '']'' # rest) s" and w: "blank w" and L: "L \<le> length rest"
  shows "\<exists>s'. next_token s = Some ((CHR '']'', []), s') \<and> conf L stk vt rest s'"
proof -
  obtain p where p: "skip_ws s = Some (s\<lparr>pos := p\<rparr>)" "char_at (json s) p = Some (CHR '']'')" "drop (p + 1) (json s) = rest" "p + 1 \<le> length (json s)"
    using conf_skip [OF cf w _ _ L] by auto
  have "jsonparse_next s = Some (CHR '']'', snd (pop (s\<lparr>pos := p + 1\<rparr>)))"
    using p(1,2) conf_type [OF cf, of p] by (simp add: jsonparse_next_def Let_def)
  then show ?thesis using conf_pop [OF cf p(3,4) L] by (simp add: next_token_def token_types)
qed

lemma step_close_object:
  assumes cf: "conf L stk' vt (w @ CHR 0x7D # rest) s" and w: "blank w" and L: "L \<le> length rest"
    and stk: "stk' = CHR 0x7B # stk \<or> stk' = CHR '':'' # CHR 0x7B # stk \<and> vt"
  shows "\<exists>s'. next_token s = Some ((CHR 0x7D, []), s') \<and> conf L stk vt rest s'"
proof -
  obtain p where p: "skip_ws s = Some (s\<lparr>pos := p\<rparr>)" "char_at (json s) p = Some (CHR 0x7D)" "drop (p + 1) (json s) = rest" "p + 1 \<le> length (json s)"
    using conf_skip [OF cf w _ _ L] by auto
  show ?thesis
  proof (cases "stk' = CHR 0x7B # stk")
    case True
    then have "jsonparse_next s = Some (CHR 0x7D, snd (pop (s\<lparr>pos := p + 1\<rparr>)))"
      using p(1,2) conf_type [OF cf [unfolded True], of p] by (simp add: jsonparse_next_def Let_def)
    then show ?thesis using conf_pop [OF cf [unfolded True] p(3,4) L] by (simp add: next_token_def token_types)
  next
    case False
    with stk have f: "stk' = CHR '':'' # CHR 0x7B # stk" "vt" by auto
    let ?s = "snd (pop (s\<lparr>pos := p + 1\<rparr>))"
    have c1: "conf L (CHR 0x7B # stk) vt rest ?s" using conf_pop [OF cf [unfolded f(1)] p(3,4) L] .
    have v: "vtype s \<noteq> CHR 0x00" using cf f(2) by (simp add: conf_def)
    have q: "?s\<lparr>pos := p + 1\<rparr> = ?s" "json ?s = json s" by (simp_all add: pop_def)
    have "jsonparse_get_type ?s = CHR 0x7B" using conf_type [OF c1, of "p + 1"] q(1) by simp
    then have "jsonparse_next s = Some (CHR 0x7D, snd (pop ?s))"
      using p(1,2) v conf_type [OF cf [unfolded f(1)], of p] by (simp add: jsonparse_next_def Let_def)
    moreover have "conf L stk vt rest (snd (pop ?s))" using conf_pop [OF c1 _ _ L, of "p + 1"] p(3,4) q by simp
    ultimately show ?thesis by (simp add: next_token_def token_types)
  qed
qed

lemma step_comma:
  assumes cf: "conf L stk' vt (w @ CHR '','' # rest) s" and w: "blank w" and L: "L \<le> length rest"
    and stk: "stk' = CHR '':'' # stk \<and> vt \<or> stk' = stk \<and> stk \<noteq> [] \<and> hd stk = CHR ''[''"
  shows "\<exists>s'. next_token s = Some ((CHR '','', []), s') \<and> conf L stk vt rest s'"
proof -
  obtain p where p: "skip_ws s = Some (s\<lparr>pos := p\<rparr>)" "char_at (json s) p = Some (CHR '','')" "drop (p + 1) (json s) = rest" "p + 1 \<le> length (json s)"
    using conf_skip [OF cf w _ _ L] by auto
  show ?thesis
  proof (cases "stk' = CHR '':'' # stk \<and> vt")
    case True
    then have v: "vtype s \<noteq> CHR 0x00" using cf by (simp add: conf_def)
    have c: "conf L (CHR '':'' # stk) vt (w @ CHR '','' # rest) s" using cf True by simp
    have "jsonparse_next s = Some (CHR '','', snd (pop (s\<lparr>pos := p + 1\<rparr>)))"
      using p(1,2) v conf_type [OF c, of p] by (simp add: jsonparse_next_def Let_def)
    then show ?thesis using conf_pop [OF c p(3,4) L] by (simp add: next_token_def token_types)
  next
    case False
    with stk obtain r where f: "stk' = stk" "stk = CHR ''['' # r" by (cases stk) auto
    then have c: "conf L (CHR ''['' # r) vt (w @ CHR '','' # rest) s" using cf by simp
    have "jsonparse_next s = Some (CHR '','', s\<lparr>pos := p + 1\<rparr>)"
      using p(1,2) conf_type [OF c, of p] by (simp add: jsonparse_next_def Let_def)
    then show ?thesis using conf_move [OF c p(3,4) L] f by (simp add: next_token_def token_types)
  qed
qed

lemma string_loop_plain:
  assumes "plain v" and "drop p t = v @ CHR 0x22 # rest" and "p \<le> length t"
  shows "string_loop t p = Some (p + length v + 1)"
  using assms
proof (induction v arbitrary: p)
  case Nil
  then have "p < length t" "t ! p = CHR 0x22" by (auto simp: nth_via_drop) (metis drop_all list.distinct(1) not_le)
  then show ?case by (subst string_loop.simps) (simp add: char_at_def)
next
  case (Cons c v)
  have l: "p < length t" using Cons.prems(2,3) by (metis append_Cons drop_all list.distinct(1) not_le)
  have c: "t ! p = c" "drop (p + 1) t = v @ CHR 0x22 # rest"
    using Cons.prems(2) l by (simp_all add: nth_via_drop drop_Suc tl_drop [symmetric] flip: drop_drop)
  have "string_loop t (p + 1) = Some (p + 1 + length v + 1)"
    using Cons.prems(1) l by (intro Cons.IH [OF _ c(2)]) (simp_all add: plain_def)
  then show ?case using Cons.prems(1) c(1) l by (subst string_loop.simps) (auto simp: char_at_def plain_def)
qed

lemma number_loop_digits:
  assumes "\<forall>c \<in> set v. is_digit c \<or> c = CHR ''.''" and "drop p t = v @ d # rest" and "p \<le> length t"
    and "\<not> is_digit d" and "d \<noteq> CHR ''.''"
  shows "number_loop t p = Some (p + length v)"
  using assms(1-3)
proof (induction v arbitrary: p)
  case Nil
  then have "p < length t" "t ! p = d" by (auto simp: nth_via_drop) (metis drop_all list.distinct(1) not_le)
  then show ?case using assms(4,5) by (subst number_loop.simps) (simp add: char_at_def)
next
  case (Cons c v)
  have l: "p < length t" using Cons.prems(2,3) by (metis append_Cons drop_all list.distinct(1) not_le)
  have c: "t ! p = c" "drop (p + 1) t = v @ d # rest"
    using Cons.prems(2) l by (simp_all add: nth_via_drop drop_Suc tl_drop [symmetric] flip: drop_drop)
  have "number_loop t (p + 1) = Some (p + 1 + length v)"
    using Cons.prems(1) l by (intro Cons.IH [OF _ c(2)]) simp_all
  then show ?case using Cons.prems(1) c(1) l by (subst number_loop.simps) (auto simp: char_at_def)
qed

lemma step_string:
  assumes cf: "conf L (t # stk) vt (w @ CHR 0x22 # v @ CHR 0x22 # rest) s" and w: "blank w" and L: "L \<le> length rest"
    and t: "t \<in> {CHR 0x7B, CHR ''['', CHR '':''}" and v: "plain v"
  shows "\<exists>s'. next_token s = Some ((if t = CHR 0x7B then JSON_TYPE_PAIR_NAME else JSON_TYPE_STRING, v), s') \<and> conf L (t # stk) True rest s'"
proof -
  have L': "L \<le> length (v @ CHR 0x22 # rest)" using L by simp
  obtain p where p: "skip_ws s = Some (s\<lparr>pos := p\<rparr>)" "char_at (json s) p = Some (CHR 0x22)" "drop (p + 1) (json s) = v @ CHR 0x22 # rest"
      "p + 1 \<le> length (json s)"
    using conf_skip [OF cf w _ _ L'] by auto
  define c where "c = (if t = CHR 0x7B then JSON_TYPE_PAIR_NAME else JSON_TYPE_STRING)"
  have loop: "string_loop (json s) (p + 1) = Some (p + 1 + length v + 1)" by (rule string_loop_plain [OF v p(3,4)])
  let ?s = "s\<lparr>pos := p + 1 + length v + 1, vstart := p + 1, vtype := c, vlen := length v\<rparr>"
  have "jsonparse_next s = Some (c, ?s)"
    using p(1,2) t loop conf_type [OF cf, of p]
    by (auto simp: jsonparse_next_def Let_def atomic_def c_def token_types)
  moreover have len: "length (json s) = p + 1 + length v + 1 + length rest"
    using arg_cong [OF p(3), of length] p(4) by simp
  then have "text_at (p + 1) (length v) (json s) = Some v"
    using p(3) by (simp add: text_at_def)
  ultimately have "next_token s = Some ((c, v), ?s)"
    by (auto simp: next_token_def jsonparse_get_len_def c_def)
  moreover have "conf L (t # stk) True rest ?s"
    using cf L len arg_cong [OF p(3), of "drop (length v + 1)"]
    by (auto simp: conf_def c_def token_types ac_simps)
  ultimately show ?thesis unfolding c_def by blast
qed

lemma step_number:
  assumes cf: "conf L (t # stk) vt (w @ v @ rest) s" and w: "blank w" and L: "L \<le> length rest"
    and t: "t \<in> {CHR ''['', CHR '':''}" and v: "number v" and r: "rest \<noteq> []" "\<not> is_digit (hd rest)" "hd rest \<noteq> CHR ''.''"
  shows "\<exists>s'. next_token s = Some ((JSON_TYPE_NUMBER, v), s') \<and> conf L (t # stk) True rest s'"
proof -
  obtain c v' where cv: "v = c # v'" "is_digit c" using v by (cases v) (auto simp: number_def)
  obtain d r' where dr: "rest = d # r'" "\<not> is_digit d" "d \<noteq> CHR ''.''" using r by (cases rest) auto
  have nb: "c \<noteq> CHR '' ''" "c \<noteq> CHR 0x0A" and nc: "c \<notin> {CHR 0x7B, CHR 0x7D, CHR '']'', CHR '':'', CHR '','', CHR 0x22, CHR ''[''}"
    using cv(2) by (auto simp: is_digit_def)
  have cf': "conf L (t # stk) vt (w @ c # v' @ rest) s" using cf cv by simp
  have L': "L \<le> length (v' @ rest)" using L by simp
  obtain p where p: "skip_ws s = Some (s\<lparr>pos := p\<rparr>)" "char_at (json s) p = Some c" "drop (p + 1) (json s) = v' @ rest" "p + 1 \<le> length (json s)"
    using conf_skip [OF cf' w nb L'] by blast
  have loop: "number_loop (json s) (p + 1) = Some (p + 1 + length v')"
    using v p(3,4) dr cv(1) by (intro number_loop_digits [where d = d and rest = r']) (auto simp: number_def)
  let ?s = "s\<lparr>pos := p + length v, vstart := p, vtype := JSON_TYPE_NUMBER, vlen := length v\<rparr>"
  have "jsonparse_next s = Some (JSON_TYPE_NUMBER, ?s)"
    using p(1,2) t nc loop cv conf_type [OF cf, of p]
    by (auto simp: jsonparse_next_def Let_def atomic_def token_types)
  moreover have len: "length (json s) = p + 1 + length v' + length rest"
    using arg_cong [OF p(3), of length] p(4) by simp
  have "text_at p (length v) (json s) = Some v"
  proof -
    have "drop p (json s) = c # v' @ rest"
      using p(2,3) by (metis Cons_nth_drop_Suc Suc_eq_plus1 char_at_def option.distinct(1) option.inject)
    then show ?thesis using len by (simp add: text_at_def cv(1))
  qed
  ultimately have "next_token s = Some ((JSON_TYPE_NUMBER, v), ?s)"
    by (simp add: next_token_def jsonparse_get_len_def)
  moreover have "conf L (t # stk) True rest ?s"
    using cf L len arg_cong [OF p(3), of "drop (length v')"] cv(1)
    by (auto simp: conf_def token_types ac_simps)
  ultimately show ?thesis by blast
qed


section \<open>Whole documents\<close>

definition delivers :: "string \<Rightarrow> nat \<Rightarrow> char list \<Rightarrow> bool \<Rightarrow> token list \<Rightarrow> char list \<Rightarrow> bool \<Rightarrow> string \<Rightarrow> bool" where
  "delivers w L stk vt ts stk' vt' r \<longleftrightarrow> (\<forall>s. conf L stk vt (render w ts @ r) s \<longrightarrow>
     (\<exists>s'. run_tokens (length ts) s = Some (ts, s') \<and> conf L stk' vt' r s'))"

definition stops :: "string \<Rightarrow> bool" where
  "stops r \<longleftrightarrow> r \<noteq> [] \<and> \<not> is_digit (hd r) \<and> hd r \<noteq> CHR ''.''"

lemma stops_blank: "blank w \<Longrightarrow> \<not> is_digit c \<Longrightarrow> c \<noteq> CHR ''.'' \<Longrightarrow> stops (w @ c # r)"
  by (cases w) (auto simp: stops_def blank_def is_digit_def)

lemma delivers_Nil: "delivers w L stk vt [] stk vt r"
  by (simp add: delivers_def render_def)

lemma delivers_append:
  assumes "delivers w L stk vt ts stk1 vt1 (render w us @ r)" and "delivers w L stk1 vt1 us stk2 vt2 r"
  shows "delivers w L stk vt (ts @ us) stk2 vt2 r"
  unfolding delivers_def
proof (intro allI impI)
  fix s assume "conf L stk vt (render w (ts @ us) @ r) s"
  then have "conf L stk vt (render w ts @ render w us @ r) s" by (simp add: render_def)
  then obtain s1 where 1: "run_tokens (length ts) s = Some (ts, s1)" "conf L stk1 vt1 (render w us @ r) s1"
    using assms(1) by (auto simp: delivers_def)
  then obtain s2 where "run_tokens (length us) s1 = Some (us, s2)" "conf L stk2 vt2 r s2"
    using assms(2) by (auto simp: delivers_def)
  then show "\<exists>s'. run_tokens (length (ts @ us)) s = Some (ts @ us, s') \<and> conf L stk2 vt2 r s'"
    using run_tokens_append [OF 1(1)] by auto
qed

lemma delivers_one:
  assumes "\<And>s. conf L stk vt (w @ token_text t @ r) s \<Longrightarrow> \<exists>s'. next_token s = Some (t, s') \<and> conf L stk' vt' r s'"
  shows "delivers w L stk vt [t] stk' vt' r"
  unfolding delivers_def
proof (intro allI impI)
  fix s assume "conf L stk vt (render w [t] @ r) s"
  then have "conf L stk vt (w @ token_text t @ r) s" by (simp add: render_def del: token_text.simps)
  from assms [OF this] show "\<exists>s'. run_tokens (length [t]) s = Some ([t], s') \<and> conf L stk' vt' r s'"
    by auto
qed

lemma delivers_Cons:
  "delivers w L stk vt [t] stk1 vt1 (render w us @ r) \<Longrightarrow> delivers w L stk1 vt1 us stk2 vt2 r \<Longrightarrow>
    delivers w L stk vt (t # us) stk2 vt2 r"
  using delivers_append [of w L stk vt "[t]" stk1 vt1 us r stk2 vt2] by simp

lemma length_render [simp]: "length r \<le> length (render w ts @ r)"
  by simp

lemma delivers_open: "blank w \<Longrightarrow> L \<le> length r \<Longrightarrow> length stk < JSONPARSE_MAX_DEPTH \<Longrightarrow>
    c = CHR 0x7B \<or> c = CHR '':'' \<or> c = CHR ''['' \<and> stk \<noteq> [] \<and> hd stk \<in> {CHR ''['', CHR '':''} \<Longrightarrow>
    delivers w L stk vt [(c, [])] (c # stk) False r"
  by (rule delivers_one, rule step_open) (auto simp: token_types)

lemma delivers_close_array: "blank w \<Longrightarrow> L \<le> length r \<Longrightarrow> delivers w L (CHR ''['' # stk) vt [(CHR '']'', [])] stk vt r"
  by (rule delivers_one, rule step_close_array) (auto simp: token_types)

lemma delivers_close_object: "blank w \<Longrightarrow> L \<le> length r \<Longrightarrow>
    stk' = CHR 0x7B # stk \<or> stk' = CHR '':'' # CHR 0x7B # stk \<and> vt \<Longrightarrow> delivers w L stk' vt [(CHR 0x7D, [])] stk vt r"
  by (rule delivers_one, rule step_close_object) (auto simp: token_types)

lemma delivers_comma: "blank w \<Longrightarrow> L \<le> length r \<Longrightarrow>
    stk' = CHR '':'' # stk \<and> vt \<or> stk' = stk \<and> stk \<noteq> [] \<and> hd stk = CHR ''['' \<Longrightarrow> delivers w L stk' vt [(CHR '','', [])] stk vt r"
  by (rule delivers_one, rule step_comma) (auto simp: token_types)

lemma delivers_string: "blank w \<Longrightarrow> L \<le> length r \<Longrightarrow> t \<in> {CHR ''['', CHR '':''} \<Longrightarrow> plain v \<Longrightarrow>
    delivers w L (t # stk) vt [(JSON_TYPE_STRING, v)] (t # stk) True r"
  by (rule delivers_one) (use step_string [of L t stk vt w v r] in \<open>auto\<close>)

lemma delivers_name: "blank w \<Longrightarrow> L \<le> length r \<Longrightarrow> plain v \<Longrightarrow>
    delivers w L (CHR 0x7B # stk) vt [(JSON_TYPE_PAIR_NAME, v)] (CHR 0x7B # stk) True r"
  by (rule delivers_one) (use step_string [of L "CHR 0x7B" stk vt w v r] in \<open>auto\<close>)

lemma delivers_number: "blank w \<Longrightarrow> L \<le> length r \<Longrightarrow> t \<in> {CHR ''['', CHR '':''} \<Longrightarrow> number v \<Longrightarrow> stops r \<Longrightarrow>
    delivers w L (t # stk) vt [(JSON_TYPE_NUMBER, v)] (t # stk) True r"
  by (rule delivers_one) (use step_number [of L t stk vt w v r] in \<open>auto simp: stops_def token_types\<close>)

lemma render_stops: "blank w \<Longrightarrow> c \<in> {CHR '','', CHR '']'', CHR 0x7D} \<Longrightarrow> stops (render w ((c, []) # ts) @ r)"
  using stops_blank [of w c "render w ts @ r"] by (auto simp: render_def token_types is_digit_def)

text \<open>The two list levels, given the values in them.\<close>

lemma delivers_array:
  assumes "\<And>v vt r. v \<in> set vs \<Longrightarrow> L \<le> length r \<Longrightarrow> stops r \<Longrightarrow> delivers w L (CHR ''['' # stk) vt (tokens v) (CHR ''['' # stk) (recorded v) r"
    and "blank w" and "L \<le> length r" and "stops r"
  shows "delivers w L (CHR ''['' # stk) vt (arr_tokens (map tokens vs)) (CHR ''['' # stk) (if vs = [] then vt else last (map recorded vs)) r"
  using assms
proof (induction vs arbitrary: vt)
  case Nil
  then show ?case by (simp add: delivers_Nil)
next
  case (Cons v vs)
  show ?case
  proof (cases "vs = []")
    case True
    then show ?thesis using Cons.prems by simp
  next
    case False
    let ?us = "arr_tokens (map tokens vs)"
    have 1: "delivers w L (CHR ''['' # stk) (recorded v) ?us (CHR ''['' # stk) (last (map recorded vs)) r"
      using Cons.IH [of "recorded v"] Cons.prems False by simp
    have 2: "delivers w L (CHR ''['' # stk) (recorded v) ((CHR '','', []) # ?us) (CHR ''['' # stk) (last (map recorded vs)) r"
      by (rule delivers_Cons [OF delivers_comma 1]) (use Cons.prems in simp_all)
    have "delivers w L (CHR ''['' # stk) vt (tokens v @ (CHR '','', []) # ?us) (CHR ''['' # stk) (last (map recorded vs)) r"
      by (rule delivers_append [OF Cons.prems(1) 2]) (use Cons.prems render_stops in simp_all)
    then show ?thesis using False by simp
  qed
qed

lemma delivers_object:
  assumes "\<And>k v vt r. (k, v) \<in> set ps \<Longrightarrow> L \<le> length r \<Longrightarrow> stops r \<Longrightarrow>
      delivers w L (CHR '':'' # CHR 0x7B # stk) vt (tokens v) (CHR '':'' # CHR 0x7B # stk) True r"
    and "\<forall>p \<in> set ps. plain (fst p)"
    and "blank w" and "L \<le> length r" and "stops r" and "length stk + 1 < JSONPARSE_MAX_DEPTH" and "ps \<noteq> []"
  shows "delivers w L (CHR 0x7B # stk) vt (obj_tokens (map (map_prod id tokens) ps)) (CHR '':'' # CHR 0x7B # stk) True r"
  using assms
proof (induction ps arbitrary: vt)
  case Nil
  then show ?case by simp
next
  case (Cons p ps)
  obtain k v where p: "p = (k, v)" by (cases p)
  let ?us = "obj_tokens (map (map_prod id tokens) ps)"
  let ?r = "(if ps = [] then [] else (CHR '','', []) # ?us)"
  have 1: "delivers w L (CHR '':'' # CHR 0x7B # stk) True ?r (CHR '':'' # CHR 0x7B # stk) True r"
  proof (cases "ps = []")
    case True
    then show ?thesis by (simp add: delivers_Nil)
  next
    case False
    have rest_toks: "delivers w L (CHR 0x7B # stk) True ?us (CHR '':'' # CHR 0x7B # stk) True r"
      by (rule Cons.IH) (use Cons.prems False in auto)
    have "delivers w L (CHR '':'' # CHR 0x7B # stk) True ((CHR '','', []) # ?us) (CHR '':'' # CHR 0x7B # stk) True r"
      by (rule delivers_Cons [OF delivers_comma rest_toks]) (use Cons.prems in simp_all)
    then show ?thesis using False by simp
  qed
  have stp: "stops (render w ?r @ r)" using Cons.prems(3,5) render_stops by (auto simp: render_def)
  have value_toks: "delivers w L (CHR '':'' # CHR 0x7B # stk) False (tokens v @ ?r) (CHR '':'' # CHR 0x7B # stk) True r"
    by (rule delivers_append [OF Cons.prems(1) [of k] 1]) (use stp p Cons.prems(4) in simp_all)
  have colon_toks: "delivers w L (CHR 0x7B # stk) True ((CHR '':'', []) # tokens v @ ?r) (CHR '':'' # CHR 0x7B # stk) True r"
    by (rule delivers_Cons [OF delivers_open value_toks]) (use Cons.prems in simp_all)
  have "delivers w L (CHR 0x7B # stk) vt ((JSON_TYPE_PAIR_NAME, k) # (CHR '':'', []) # tokens v @ ?r) (CHR '':'' # CHR 0x7B # stk) True r"
    by (rule delivers_Cons [OF delivers_name colon_toks]) (use Cons.prems p in simp_all)
  then show ?case using p by (simp add: id_def split: if_splits)
qed


lemma height_array: "v \<in> set vs \<Longrightarrow> height v < height (JArr vs)"
  by (induction vs) (auto simp: less_Suc_eq_le)

lemma height_object: "(k, v) \<in> set ps \<Longrightarrow> Suc (height v) < height (JObj ps)"
  by (induction ps) (auto simp: less_Suc_eq_le)

lemma delivers_value:
  assumes "accepted v" and "blank w" and "L \<le> length r" and "stops r" and "length stk + height v \<le> JSONPARSE_MAX_DEPTH"
    and "stk \<noteq> [] \<and> hd stk \<in> {CHR ''['', CHR '':''} \<or> (\<exists>ps. v = JObj ps)"
  shows "delivers w L stk vt (tokens v) stk (recorded v) r"
  using assms
proof (induction v arbitrary: stk vt r)
  case (JStr x)
  then show ?case using delivers_string [of w L r "hd stk" x "tl stk" vt] by simp
next
  case (JNum x)
  then show ?case using delivers_number [of w L r "hd stk" x "tl stk" vt] by simp
next
  case (JArr vs)
  have "delivers w L (CHR ''['' # stk) False (arr_tokens (map tokens vs)) (CHR ''['' # stk) (recorded (JArr vs)) (render w [(CHR '']'', [])] @ r)"
  proof -
    have "delivers w L (CHR ''['' # stk) vt (tokens v) (CHR ''['' # stk) (recorded v) r" if "v \<in> set vs" "L \<le> length r" "stops r" for v vt r
      using that JArr.prems height_array [OF that(1)] by (intro JArr.IH) (auto simp: list_all_iff)
    from delivers_array [where L = L and stk = stk and w = w and vs = vs, OF this JArr.prems(2), where r = "render w [(CHR '']'', [])] @ r" and vt = False] show ?thesis
      using JArr.prems by (simp add: render_stops split: if_splits)
  qed
  then have all: "delivers w L (CHR ''['' # stk) False (arr_tokens (map tokens vs) @ [(CHR '']'', [])]) stk (recorded (JArr vs)) r"
    by (rule delivers_append) (use JArr.prems delivers_close_array in simp)
  show ?case
    unfolding tokens.simps by (rule delivers_Cons [OF delivers_open all]) (use JArr.prems in auto)
next
  case (JObj ps)
  let ?c = "[(CHR 0x7D, [])]"
  have all: "delivers w L (CHR 0x7B # stk) False (obj_tokens (map (map_prod id tokens) ps) @ ?c) stk (recorded (JObj ps)) r"
  proof (cases "ps = []")
    case True
    then show ?thesis using JObj.prems delivers_close_object [of w L r _ stk] by simp
  next
    case False
    have "delivers w L (CHR '':'' # CHR 0x7B # stk) vt (tokens v) (CHR '':'' # CHR 0x7B # stk) True r"
      if "(k, v) \<in> set ps" "L \<le> length r" "stops r" for k v vt r
    proof -
      have "recorded v" "accepted v" using that(1) JObj.prems(1) by (auto simp: list_all_iff)
      then show ?thesis
        using JObj.IH [OF that(1), of v r "CHR '':'' # CHR 0x7B # stk" vt] that JObj.prems height_object [OF that(1)] by auto
    qed
    note o = this
    have "length stk + 1 < JSONPARSE_MAX_DEPTH" using False JObj.prems(5) by (cases ps) auto
    moreover have "\<forall>p \<in> set ps. plain (fst p)" using JObj.prems(1) by (auto simp: list_all_iff)
    ultimately have "delivers w L (CHR 0x7B # stk) False (obj_tokens (map (map_prod id tokens) ps)) (CHR '':'' # CHR 0x7B # stk) True (render w ?c @ r)"
      using delivers_object [where L = L and stk = stk and ps = ps and w = w and r = "render w ?c @ r" and vt = False, OF o] JObj.prems False by (simp add: render_stops)
    then show ?thesis
      by (rule delivers_append) (use JObj.prems False delivers_close_object in simp)
  qed
  show ?case
    unfolding tokens.simps by (rule delivers_Cons [OF delivers_open all]) (use JObj.prems in auto)
qed


section \<open>Properties\<close>

lemma setup_conf:
  assumes "length (stack s) = JSONPARSE_MAX_DEPTH" and "t = doc @ CHR 0x00 # junk"
  shows "conf (length junk + 1) [] (vtype s \<noteq> CHR 0x00) t (jsonparse_setup t (length doc) s)"
  using assms by (simp add: conf_def jsonparse_setup_def)

text \<open>
  C11. The parser delivers exactly the tokens of a document, in their order and
  with the texts of the names, strings and numbers, whatever blanks stand in
  front of the tokens and whatever the parser was used for before; behind the
  last token it stands at the end of the text, no bracket is open and no error
  is recorded. This holds for every object whose brackets and colons nest at most
  ten deep and whose member values end in a string, a number or a nonempty object.
\<close>

theorem json_parser_tokens:
  assumes "accepted (JObj ps)" and "height (JObj ps) \<le> JSONPARSE_MAX_DEPTH" and "blank w"
    and "length (stack s) = JSONPARSE_MAX_DEPTH"
  shows "\<exists>s'. run_tokens (length (tokens (JObj ps)))
       (jsonparse_setup (render w (tokens (JObj ps)) @ CHR 0x00 # junk) (length (render w (tokens (JObj ps)))) s)
       = Some (tokens (JObj ps), s') \<and> depth s' = 0 \<and> error s' = JSON_ERROR_OK \<and> \<not> jsonparse_has_next s'"
proof -
  let ?doc = "render w (tokens (JObj ps))"
  have "delivers w (length junk + 1) [] (vtype s \<noteq> CHR 0x00) (tokens (JObj ps)) [] (recorded (JObj ps)) (CHR 0x00 # junk)"
    by (rule delivers_value) (use assms in \<open>auto simp: stops_def is_digit_def\<close>)
  with setup_conf [where doc = ?doc and junk = junk, OF assms(4) refl] obtain s' where
    "run_tokens (length (tokens (JObj ps))) (jsonparse_setup (?doc @ CHR 0x00 # junk) (length ?doc) s) = Some (tokens (JObj ps), s')"
    and "conf (length junk + 1) [] (recorded (JObj ps)) (CHR 0x00 # junk) s'"
    unfolding delivers_def by blast
  then show ?thesis by (intro exI [of _ s']) (auto simp: conf_def jsonparse_has_next_def dest: arg_cong [of _ _ length])
qed

definition fresh_parser :: jsonparse_state where
  "fresh_parser = \<lparr>json = [], pos = 0, len = 0, depth = 3, vstart = 0, vlen = 0, vtype = CHR ''x'', error = JSON_ERROR_SYNTAX, stack = replicate 10 CHR ''q''\<rparr>"

definition sample_members :: "(string \<times> jval) list" where
  "sample_members = [(''a'', JArr [JNum ''12.5'', JArr [], JStr ''x'']), (''bc'', JObj [(''d'', JNum ''7'')])]"

theorem json_parser_tokens_witness:
  "accepted (JObj sample_members) \<and> length (tokens (JObj sample_members)) = 20 \<and>
   (\<exists>s'. run_tokens (length (tokens (JObj sample_members)))
       (jsonparse_setup (render '' '' (tokens (JObj sample_members)) @ CHR 0x00 # ''}'')
         (length (render '' '' (tokens (JObj sample_members)))) fresh_parser)
       = Some (tokens (JObj sample_members), s') \<and> depth s' = 0 \<and> error s' = JSON_ERROR_OK \<and> \<not> jsonparse_has_next s')"
proof (intro conjI)
  show "accepted (JObj sample_members)"
    by (simp add: sample_members_def plain_def number_def is_digit_def)
  then show "\<exists>s'. run_tokens (length (tokens (JObj sample_members)))
       (jsonparse_setup (render '' '' (tokens (JObj sample_members)) @ CHR 0x00 # ''}'')
         (length (render '' '' (tokens (JObj sample_members)))) fresh_parser)
       = Some (tokens (JObj sample_members), s') \<and> depth s' = 0 \<and> error s' = JSON_ERROR_OK \<and> \<not> jsonparse_has_next s'"
    by (rule json_parser_tokens) (simp_all add: sample_members_def JSONPARSE_MAX_DEPTH_def blank_def fresh_parser_def)
  show "length (tokens (JObj sample_members)) = 20" by (simp add: sample_members_def)
qed

text \<open>
  The depth is checked behind the write, and no caller looks at the result: the
  eleventh open bracket is written behind the stack.
\<close>

lemma json_depth_overflow:
  "run_tokens 10 (jsonparse_setup (replicate 11 CHR 0x7B @ [CHR 0x00]) 11 fresh_parser) \<noteq> None"
  "run_tokens 11 (jsonparse_setup (replicate 11 CHR 0x7B @ [CHR 0x00]) 11 fresh_parser) = None"
  by code_simp+

text \<open>An empty object (or array) is not accepted as the value of a member: its closing brace finds no value recorded.\<close>

lemma json_empty_member_rejected:
  "map_option (\<lambda>(ts, s). (map fst ts, error s)) (run_tokens 6
     (jsonparse_setup [CHR 0x7B, CHR 0x22, CHR ''a'', CHR 0x22, CHR '':'', CHR 0x7B, CHR 0x7D, CHR 0x7D, CHR 0x00] 8 fresh_parser))
   = Some ([CHR 0x7B, JSON_TYPE_PAIR_NAME, CHR '':'', CHR 0x7B, CHR 0x7D, JSON_TYPE_ERROR], JSON_ERROR_SYNTAX)"
  by code_simp

end
