(* ===== verification/AqlLexer.thy ===== *)
theory AqlLexer
  imports Prelude
begin

text \<open>
  The lexical analyzer of the Antelope query language,
  \<open>apps/antelope/aql-lexer.c\<close>. A pointer into the query is the rest of the text
  behind it, without the NUL at the end. A copy past the 16 bytes of a value
  is \<^term>\<open>None\<close>.
\<close>

section \<open>Tokens\<close>

datatype token = T_END | LEFT_PAREN | RIGHT_PAREN | COMMA | EQUAL | GT | LT | DOT | ADD | SUB | MUL | DIV | COMMENT |
  GEQ | LEQ | NOT_EQUAL | ASSIGN | T_OR | T_IS | T_ON | T_IN | T_AND | T_NOT | T_SUM | T_MAX | T_MIN | T_INT |
  T_INTO | T_FROM | T_MEAN | T_JOIN | T_LONG | T_TYPE | T_WHERE | T_COUNT | T_INDEX |
  T_INSERT | T_SELECT | T_REMOVE | T_CREATE | T_MEDIAN | T_DOMAIN | T_STRING | T_INLINE |
  T_PROJECT | T_MAXHEAP | T_MEMHASH | T_RELATION | T_ATTRIBUTE |
  INTEGER_VALUE | FLOAT_VALUE | STRING_VALUE | IDENTIFIER | T_NONE

text \<open>What the bytes of a \<open>value_t\<close> hold last: a string with its NUL, or a long.\<close>

datatype lex_value = Text string | Long u32

record lexer =
  lx_input :: string
  prev_pos :: string
  tok :: token
  lx_value :: lex_value

definition DB_MAX_ELEMENT_SIZE :: nat where "DB_MAX_ELEMENT_SIZE = 16"

definition aql_keywords :: "(string \<times> token) list" where
  "aql_keywords = [
    ('';'', T_END), (''('', LEFT_PAREN), ('')'', RIGHT_PAREN), ('','', COMMA), (''='', EQUAL), (''>'', GT), (''<'', LT),
    (''.'', DOT), (''+'', ADD), (''-'', SUB), (''*'', MUL), (''/'', DIV), (''#'', COMMENT),
    (''>='', GEQ), (''<='', LEQ), (''<>'', NOT_EQUAL), (''<-'', ASSIGN), (''OR'', T_OR), (''IS'', T_IS), (''ON'', T_ON), (''IN'', T_IN),
    (''AND'', T_AND), (''NOT'', T_NOT), (''SUM'', T_SUM), (''MAX'', T_MAX), (''MIN'', T_MIN), (''INT'', T_INT),
    (''INTO'', T_INTO), (''FROM'', T_FROM), (''MEAN'', T_MEAN), (''JOIN'', T_JOIN), (''LONG'', T_LONG), (''TYPE'', T_TYPE),
    (''WHERE'', T_WHERE), (''COUNT'', T_COUNT), (''INDEX'', T_INDEX),
    (''INSERT'', T_INSERT), (''SELECT'', T_SELECT), (''REMOVE'', T_REMOVE), (''CREATE'', T_CREATE), (''MEDIAN'', T_MEDIAN),
    (''DOMAIN'', T_DOMAIN), (''STRING'', T_STRING), (''INLINE'', T_INLINE),
    (''PROJECT'', T_PROJECT), (''MAXHEAP'', T_MAXHEAP), (''MEMHASH'', T_MEMHASH),
    (''RELATION'', T_RELATION),
    (''ATTRIBUTE'', T_ATTRIBUTE)]"

definition skip_hint :: "nat list" where
  "skip_hint = [0, 13, 21, 27, 33, 36, 44, 47, 48]"

definition separators :: string where
  "separators = ''#.;,() '' @ [CHR 0x09, CHR 0x0A]"

section \<open>The C library\<close>

definition blanks :: string where
  "blanks = '' '' @ [CHR 0x09, CHR 0x0A]"

definition strspn :: "string \<Rightarrow> string \<Rightarrow> nat" where
  "strspn s cs = length (takeWhile (\<lambda>c. c \<in> set cs) s)"

definition strcspn :: "string \<Rightarrow> string \<Rightarrow> nat" where
  "strcspn s cs = length (takeWhile (\<lambda>c. c \<notin> set cs) s)"

definition to_lower :: "char \<Rightarrow> char" where
  "to_lower c = (if 65 \<le> (of_char c :: int) \<and> (of_char c :: int) \<le> 90 then char_of ((of_char c :: int) + 32) else c)"

text \<open>\<open>strncasecmp(a, b, n) == 0\<close>\<close>

definition strncaseeq :: "string \<Rightarrow> string \<Rightarrow> nat \<Rightarrow> bool" where
  "strncaseeq a b n \<longleftrightarrow> map to_lower (take n a) = map to_lower (take n b)"

definition isdigit :: "char \<Rightarrow> bool" where
  "isdigit c \<longleftrightarrow> c \<in> set ''0123456789''"

definition digit_of :: "char \<Rightarrow> int" where
  "digit_of c = of_char c - 48"

text \<open>\<open>strtol\<close> to the base 10 on a text without blanks in front: the value, whether it was out of range, and the rest.\<close>

definition strtol :: "string \<Rightarrow> int \<times> bool \<times> string" where
  "strtol s = (
     let neg = (s \<noteq> [] \<and> hd s = CHR ''-'');
         t = (if s \<noteq> [] \<and> (hd s = CHR ''-'' \<or> hd s = CHR ''+'') then tl s else s);
         ds = takeWhile isdigit t;
         v = (if neg then -1 else 1) * fold (\<lambda>c v. 10 * v + digit_of c) ds 0 in
     if ds = [] then (0, False, s)
     else if v > 2 ^ 31 - 1 then (2 ^ 31 - 1, True, dropWhile isdigit t)
     else if v < - (2 ^ 31) then (- (2 ^ 31), True, dropWhile isdigit t)
     else (v, False, dropWhile isdigit t))"

section \<open>The analyzer\<close>

definition lexer_start :: "string \<Rightarrow> lexer" where
  "lexer_start s = \<lparr>lx_input = s, prev_pos = s, tok = T_NONE, lx_value = Text []\<rparr>"

fun find_keyword :: "(string \<times> token) list \<Rightarrow> string \<Rightarrow> nat \<Rightarrow> token" where
  "find_keyword [] s n = T_NONE"
| "find_keyword ((k, t) # ks) s n = (if strncaseeq k s n then t else find_keyword ks s n)"

definition get_token_id :: "string \<Rightarrow> nat \<Rightarrow> token" where
  "get_token_id s n = (
     if length skip_hint < n \<or> n < 1 then T_NONE
     else let start = skip_hint ! (n - 1);
              end' = (if length skip_hint = n then length aql_keywords else skip_hint ! n) in
          find_keyword (take (end' - start) (drop start aql_keywords)) s n)"

text \<open>A \<open>memcpy\<close> into the value, with a NUL behind it.\<close>

definition copy_value :: "string \<Rightarrow> lexer \<Rightarrow> lexer option" where
  "copy_value s lx = (if length s + 1 \<le> DB_MAX_ELEMENT_SIZE then Some (lx\<lparr>lx_value := Text s\<rparr>) else None)"

definition next_real :: "lexer \<Rightarrow> string \<Rightarrow> int \<times> lexer" where
  "next_real lx s = (let (v, range_error, rest) = strtol s in
     if v = 0 \<and> range_error then (-1, lx)
     else (1, lx\<lparr>lx_value := Long (word_of_int v), tok := INTEGER_VALUE, lx_input := rest\<rparr>))"

definition next_string :: "lexer \<Rightarrow> string \<Rightarrow> (int \<times> lexer) option" where
  "next_string lx s = (let n = strcspn s [CHR 0x27] in
     if n = length s then Some (-1, lx)
     else do {
       lx \<leftarrow> copy_value (take n s) (lx\<lparr>tok := STRING_VALUE, lx_input := drop (n + 1) s\<rparr>);
       Some (1, lx)
     })"

definition next_token :: "lexer \<Rightarrow> string \<Rightarrow> (int \<times> lexer) option" where
  "next_token lx s = (
     let n = strcspn s separators;
         n = (if n = 0 then 1 else n);
         lx = lx\<lparr>tok := get_token_id s n, lx_input := drop n s\<rparr> in
     if tok lx \<noteq> T_NONE then Some (1, lx)
     else do {
       lx \<leftarrow> copy_value (take n s) (lx\<lparr>tok := IDENTIFIER\<rparr>);
       Some (1, lx)
     })"

definition lexer_next :: "lexer \<Rightarrow> (int \<times> lexer) option" where
  "lexer_next lx = (
     let s = drop (strspn (lx_input lx) blanks) (lx_input lx);
         lx = lx\<lparr>tok := T_NONE, prev_pos := s\<rparr> in
     case s of
       [] \<Rightarrow> Some (0, lx)
     | c # s' \<Rightarrow>
         if c = CHR 0x27 then next_string lx s'
         else if isdigit c \<or> c = CHR ''-'' \<and> s' \<noteq> [] \<and> isdigit (hd s') then Some (next_real lx s)
         else next_token lx s)"

definition lexer_rewind :: "lexer \<Rightarrow> lexer" where
  "lexer_rewind lx = lx\<lparr>lx_input := prev_pos lx\<rparr>"

section \<open>Words\<close>

text \<open>A word of a query: a token with its value.\<close>

datatype query_word = Keyword token | Name string | Number u32 | Quoted string

fun show_nat :: "nat \<Rightarrow> string" where
  "show_nat n = (if n < 10 then [char_of (48 + n)] else show_nat (n div 10) @ [char_of (48 + n mod 10)])"

declare show_nat.simps [simp del]

definition show_int :: "int \<Rightarrow> string" where
  "show_int i = (if i < 0 then CHR ''-'' # show_nat (nat (- i)) else show_nat (nat i))"

primrec show_word :: "query_word \<Rightarrow> string" where
  "show_word (Keyword t) = fst (the (find (\<lambda>(k, t'). t' = t) aql_keywords))"
| "show_word (Name x) = x"
| "show_word (Number w) = show_int (sint w)"
| "show_word (Quoted s) = CHR 0x27 # s @ [CHR 0x27]"

primrec word_tok :: "query_word \<Rightarrow> token" where
  "word_tok (Keyword t) = t"
| "word_tok (Name x) = IDENTIFIER"
| "word_tok (Number w) = INTEGER_VALUE"
| "word_tok (Quoted s) = STRING_VALUE"

text \<open>What is left in the value.\<close>

primrec word_value :: "query_word \<Rightarrow> lex_value \<Rightarrow> lex_value" where
  "word_value (Keyword t) v = v"
| "word_value (Name x) v = Text x"
| "word_value (Number w) v = Long w"
| "word_value (Quoted s) v = Text s"

primrec valid_word :: "query_word \<Rightarrow> bool" where
  "valid_word (Keyword t) \<longleftrightarrow> t \<in> snd ` set aql_keywords"
| "valid_word (Name x) \<longleftrightarrow> x \<noteq> [] \<and> length x < 16 \<and> (\<forall>c \<in> set x. c \<notin> set separators) \<and> hd x \<noteq> CHR 0x27 \<and>
     \<not> isdigit (hd x) \<and> \<not> (hd x = CHR ''-'' \<and> tl x \<noteq> [] \<and> isdigit (hd (tl x))) \<and>
     (\<forall>k \<in> fst ` set aql_keywords. map to_lower k \<noteq> map to_lower x)"
| "valid_word (Number w) \<longleftrightarrow> True"
| "valid_word (Quoted s) \<longleftrightarrow> length s < 16 \<and> CHR 0x27 \<notin> set s"

text \<open>The word that was read, and the words up to the end of the text, at most \<open>n\<close>.\<close>

definition read_word :: "lexer \<Rightarrow> query_word" where
  "read_word lx = (case tok lx of
     IDENTIFIER \<Rightarrow> (case lx_value lx of Text x \<Rightarrow> Name x | Long w \<Rightarrow> Number w)
   | STRING_VALUE \<Rightarrow> (case lx_value lx of Text x \<Rightarrow> Quoted x | Long w \<Rightarrow> Number w)
   | INTEGER_VALUE \<Rightarrow> (case lx_value lx of Text x \<Rightarrow> Name x | Long w \<Rightarrow> Number w)
   | t \<Rightarrow> Keyword t)"

primrec read_words :: "nat \<Rightarrow> lexer \<Rightarrow> query_word list option" where
  "read_words 0 lx = Some []"
| "read_words (Suc n) lx = do {
     (r, lx) \<leftarrow> lexer_next lx;
     (if r \<noteq> 1 then Some [] else do { ws \<leftarrow> read_words n lx; Some (read_word lx # ws) })
   }"

text \<open>The words of a query, with a blank behind each.\<close>

definition show_words :: "query_word list \<Rightarrow> string" where
  "show_words ws = concat (map (\<lambda>w. show_word w @ '' '') ws)"

section \<open>Reading a word\<close>

lemma strcspn_word: "(\<forall>c \<in> set x. c \<notin> set cs) \<Longrightarrow> d \<in> set cs \<Longrightarrow> strcspn (x @ d # rest) cs = length x"
  by (simp add: strcspn_def takeWhile_append)

lemma find_keyword_take: "find_keyword ks (take n s) n = find_keyword ks s n"
  by (induction ks) (auto simp: strncaseeq_def)

lemma get_token_id_take: "get_token_id (take n s) n = get_token_id s n"
  by (simp add: get_token_id_def find_keyword_take)

lemma get_token_id_word: "get_token_id (x @ s) (length x) = get_token_id x (length x)"
  using get_token_id_take [of "length x" "x @ s"] get_token_id_take [of "length x" x] by simp

lemma keyword_found:
  "list_all (\<lambda>(k, t). get_token_id k (length k) = t \<and> k \<noteq> [] \<and> hd k \<notin> set blanks \<and> hd k \<noteq> CHR 0x27 \<and> \<not> isdigit (hd k) \<and>
     (hd k = CHR ''-'' \<longrightarrow> tl k = []) \<and> (list_all (\<lambda>c. c \<notin> set separators) k \<or> length k = 1)) aql_keywords"
  by code_simp

lemma keyword_slices:
  "list_all (\<lambda>n. list_all (\<lambda>(k, t). length k = n) (take ((if length skip_hint = n then length aql_keywords else skip_hint ! n) - skip_hint ! (n - 1)) (drop (skip_hint ! (n - 1)) aql_keywords))) [1..<10]"
  by code_simp

lemma find_keyword_none: "(\<And>k t. (k, t) \<in> set ks \<Longrightarrow> \<not> strncaseeq k s n) \<Longrightarrow> find_keyword ks s n = T_NONE"
  by (induction ks) force+

text \<open>The hints leave out keywords of other lengths only.\<close>

lemma get_token_id_none:
  assumes "\<forall>k \<in> fst ` set aql_keywords. map to_lower k \<noteq> map to_lower x"
  shows "get_token_id x (length x) = T_NONE"
proof (cases "length skip_hint < length x \<or> length x < 1")
  case False
  let ?n = "length x"
  let ?slice = "take ((if length skip_hint = ?n then length aql_keywords else skip_hint ! ?n) - skip_hint ! (?n - 1)) (drop (skip_hint ! (?n - 1)) aql_keywords)"
  have "?n \<in> set [1..<10]" using False by (auto simp: skip_hint_def Suc_le_eq)
  then have "list_all (\<lambda>(k, t). length k = ?n) ?slice" using keyword_slices unfolding list_all_iff by blast
  then have "\<not> strncaseeq k x ?n" if "(k, t) \<in> set ?slice" for k t
  proof -
    have "length k = ?n" using that \<open>list_all _ ?slice\<close> by (auto simp: list_all_iff)
    moreover have "(k, t) \<in> set aql_keywords" using that by (meson in_set_takeD in_set_dropD)
    ultimately show ?thesis using assms by (force simp: strncaseeq_def)
  qed
  then have "find_keyword ?slice x ?n = T_NONE" by (rule find_keyword_none)
  then show ?thesis using False by (simp add: get_token_id_def Let_def)
qed (auto simp: get_token_id_def)

lemma digit_char: "d < 10 \<Longrightarrow> isdigit (char_of (48 + d :: nat))"
proof -
  assume "d < 10"
  moreover have "list_all (\<lambda>d. isdigit (char_of (48 + d :: nat))) [0..<10]" by code_simp
  ultimately show ?thesis by (simp add: list_all_iff)
qed

lemma digit_of_char: "d < 10 \<Longrightarrow> digit_of (char_of (48 + d :: nat)) = int d"
proof -
  assume "d < 10"
  moreover have "list_all (\<lambda>d. digit_of (char_of (48 + d :: nat)) = int d) [0..<10]" by code_simp
  ultimately show ?thesis by (simp add: list_all_iff)
qed

lemma show_nat_digits: "show_nat n \<noteq> [] \<and> (\<forall>c \<in> set (show_nat n). isdigit c) \<and> fold (\<lambda>c v. 10 * v + digit_of c) (show_nat n) 0 = int n"
proof (induction n rule: show_nat.induct)
  case (1 n)
  show ?case
  proof (cases "n < 10")
    case True
    then show ?thesis by (subst (1 2 3) show_nat.simps) (auto simp: digit_char digit_of_char)
  next
    case False
    then have e: "show_nat n = show_nat (n div 10) @ [char_of (48 + n mod 10)]" by (subst show_nat.simps) simp
    have "10 * int (n div 10) + int (n mod 10) = int n" by (simp add: zdiv_int zmod_int)
    then show ?thesis using 1 [OF False] unfolding e by (auto simp: digit_char digit_of_char)
  qed
qed

lemma strtol_show_int:
  assumes "- (2 ^ 31) \<le> i" "i < 2 ^ 31" "rest = [] \<or> \<not> isdigit (hd rest)"
  shows "strtol (show_int i @ rest) = (i, False, rest)"
proof -
  have stop: "takeWhile isdigit (show_nat n @ rest) = show_nat n" "dropWhile isdigit (show_nat n @ rest) = rest" for n
    using assms(3) show_nat_digits [of n] by (cases rest; simp add: takeWhile_append dropWhile_append)+
  have d: "hd (show_nat n) \<noteq> CHR ''-''" "hd (show_nat n) \<noteq> CHR ''+''" "show_nat n \<noteq> []" "fold (\<lambda>c v. 10 * v + digit_of c) (show_nat n) 0 = int n" for n
    using show_nat_digits [of n] by (cases "show_nat n"; auto simp: isdigit_def)+
  show ?thesis using assms(1,2) by (auto simp: strtol_def show_int_def stop d Let_def)
qed

lemma find_snd: "(k, t) \<in> set ks \<Longrightarrow> (fst (the (find (\<lambda>(k, t'). t' = t) ks)), t) \<in> set ks"
  by (induction ks) auto

lemma show_keyword: "t \<in> snd ` set aql_keywords \<Longrightarrow> (show_word (Keyword t), t) \<in> set aql_keywords"
  by (auto dest: find_snd simp del: find.simps)

text \<open>The characters with which a word can start.\<close>

lemma show_word_start:
  assumes "valid_word w"
  shows "show_word w \<noteq> [] \<and> hd (show_word w) \<notin> set blanks"
proof (cases w)
  case (Keyword t)
  then show ?thesis using keyword_found show_keyword [of t] assms by (fastforce simp: list_all_iff)
next
  case (Name x)
  then show ?thesis using assms by (cases x) (auto simp: blanks_def separators_def)
next
  case (Number v)
  have "show_nat n \<noteq> [] \<and> hd (show_nat n) \<notin> set blanks" for n
    using show_nat_digits [of n] by (cases "show_nat n") (auto simp: isdigit_def blanks_def)
  then show ?thesis using Number by (simp add: show_int_def blanks_def)
qed (simp add: blanks_def)

lemma next_token_word:
  assumes "x \<noteq> []" and "(\<forall>c \<in> set x. c \<notin> set separators) \<or> length x = 1"
  shows "next_token lx (x @ '' '' @ rest) = (let lx = lx\<lparr>tok := get_token_id x (length x), lx_input := '' '' @ rest\<rparr> in
    if tok lx \<noteq> T_NONE then Some (1, lx) else Option.bind (copy_value x (lx\<lparr>tok := IDENTIFIER\<rparr>)) (\<lambda>lx. Some (1, lx)))"
proof -
  have "(let n = strcspn (x @ '' '' @ rest) separators in if n = 0 then 1 else n) = length x"
  proof (cases "\<forall>c \<in> set x. c \<notin> set separators")
    case True
    then show ?thesis using assms(1) strcspn_word [of x separators "CHR '' ''" rest] by (simp add: separators_def)
  next
    case False
    then obtain c where "x = [c]" using assms(2) by (cases x) auto
    then show ?thesis using False by (simp add: strcspn_def)
  qed
  then show ?thesis using get_token_id_word [of x "'' '' @ rest"] by (simp add: next_token_def Let_def)
qed

lemma plain_start:
  assumes "\<not> isdigit c" "c = CHR ''-'' \<Longrightarrow> k = [] \<or> \<not> isdigit (hd k)"
  shows "\<not> (c = CHR ''-'' \<and> isdigit (hd (k @ CHR '' '' # rest)))"
proof -
  have "\<not> isdigit (CHR '' '')" by (simp add: isdigit_def)
  then show ?thesis using assms by (cases k) auto
qed

lemma lexer_next_word:
  assumes "valid_word w" and "drop (strspn (lx_input lx) blanks) (lx_input lx) = show_word w @ '' '' @ rest"
  shows "lexer_next lx = Some (1, lx\<lparr>lx_input := '' '' @ rest, prev_pos := show_word w @ '' '' @ rest, tok := word_tok w,
    lx_value := word_value w (lx_value lx)\<rparr>)"
proof (cases w)
  case (Keyword t)
  let ?k = "show_word w"
  have k: "get_token_id ?k (length ?k) = t" "?k \<noteq> []" "hd ?k \<noteq> CHR 0x27" "\<not> isdigit (hd ?k)" "hd ?k = CHR ''-'' \<Longrightarrow> tl ?k = []"
    "(\<forall>c \<in> set ?k. c \<notin> set separators) \<or> length ?k = 1"
    using keyword_found show_keyword [of t] assms(1) Keyword by (fastforce simp: list_all_iff)+
  have "t \<noteq> T_NONE" using assms(1) Keyword by (auto simp: aql_keywords_def)
  obtain c k' where c: "?k = c # k'" using k(2) by (cases ?k) auto
  have "lexer_next lx = next_token (lx\<lparr>tok := T_NONE, prev_pos := ?k @ '' '' @ rest\<rparr>) (?k @ '' '' @ rest)"
    using assms(2) k(3-5) c plain_start [of c k' rest] by (auto simp: lexer_next_def Let_def)
  then show ?thesis using next_token_word [OF k(2,6)] k(1) \<open>t \<noteq> T_NONE\<close> Keyword by (simp add: Let_def)
next
  case (Name x)
  then have x: "x \<noteq> []" "length x < 16" "\<forall>c \<in> set x. c \<notin> set separators" "hd x \<noteq> CHR 0x27" "\<not> isdigit (hd x)"
      "\<not> (hd x = CHR ''-'' \<and> tl x \<noteq> [] \<and> isdigit (hd (tl x)))" "get_token_id x (length x) = T_NONE"
    using assms(1) get_token_id_none [of x] by auto
  obtain c x' where c: "x = c # x'" using x(1) by (cases x) auto
  have "lexer_next lx = next_token (lx\<lparr>tok := T_NONE, prev_pos := x @ '' '' @ rest\<rparr>) (x @ '' '' @ rest)"
    using assms(2) x(4-6) c Name plain_start [of c x' rest] by (auto simp: lexer_next_def Let_def)
  then show ?thesis using next_token_word [OF x(1), of _ rest] x Name by (simp add: Let_def copy_value_def DB_MAX_ELEMENT_SIZE_def)
next
  case (Number v)
  have s: "strtol (show_int (sint v) @ '' '' @ rest) = (sint v, False, '' '' @ rest)"
    using sint_greater_eq [of v] sint_less [of v] by (intro strtol_show_int) (auto simp: isdigit_def)
  have d: "show_nat n \<noteq> []" "isdigit (hd (show_nat n))" "hd (show_nat n) \<noteq> CHR 0x27" for n
    using show_nat_digits [of n] by (cases "show_nat n"; auto simp: isdigit_def)+
  obtain c x' where c: "show_int (sint v) = c # x'" "c \<noteq> CHR 0x27" "isdigit c \<or> c = CHR ''-'' \<and> x' \<noteq> [] \<and> isdigit (hd x')"
  proof (cases "sint v < 0")
    case True
    then show ?thesis using that [of "CHR ''-''" "show_nat (nat (- sint v))"] d by (simp add: show_int_def)
  next
    case False
    then show ?thesis using that [of "hd (show_nat (nat (sint v)))" "tl (show_nat (nat (sint v)))"] d by (simp add: show_int_def)
  qed
  have "lexer_next lx = Some (next_real (lx\<lparr>tok := T_NONE, prev_pos := show_word w @ '' '' @ rest\<rparr>) (show_word w @ '' '' @ rest))"
    using assms(2) c Number by (auto simp: lexer_next_def Let_def)
  then show ?thesis using s Number by (simp add: next_real_def Let_def)
next
  case (Quoted x)
  have "strcspn (x @ CHR 0x27 # '' '' @ rest) [CHR 0x27] = length x"
    using assms(1) Quoted by (intro strcspn_word) auto
  then show ?thesis using assms Quoted by (simp add: lexer_next_def next_string_def Let_def copy_value_def DB_MAX_ELEMENT_SIZE_def)
qed

lemma skip_blank: "strspn ('' '' @ s) blanks = Suc (strspn s blanks)"
  by (simp add: strspn_def blanks_def)

lemma skip_word: "valid_word w \<Longrightarrow> strspn (show_word w @ s) blanks = 0"
  using show_word_start [of w] by (cases "show_word w") (auto simp: strspn_def)

text \<open>The lexer in front of the words \<open>ws\<close>.\<close>

definition before :: "query_word list \<Rightarrow> lexer \<Rightarrow> bool" where
  "before ws lx \<longleftrightarrow> drop (strspn (lx_input lx) blanks) (lx_input lx) = show_words ws"

lemma lexer_next_before:
  assumes "before (w # ws) lx" "valid_word w" "list_all valid_word ws"
  shows "\<exists>lx'. lexer_next lx = Some (1, lx') \<and> before ws lx' \<and> before (w # ws) (lexer_rewind lx') \<and> tok lx' = word_tok w \<and>
    lx_value lx' = word_value w (lx_value lx) \<and> lx_value (lexer_rewind lx') = lx_value lx'"
proof -
  have 0: "strspn (show_words ws) blanks = 0"
    using assms(3) skip_word by (cases ws) (auto simp: show_words_def strspn_def)
  have "lexer_next lx = Some (1, lx\<lparr>lx_input := '' '' @ show_words ws, prev_pos := show_words (w # ws), tok := word_tok w, lx_value := word_value w (lx_value lx)\<rparr>)"
    using lexer_next_word [OF assms(2), of lx "show_words ws"] assms(1) by (simp add: before_def show_words_def)
  moreover have "strspn (show_words (w # ws)) blanks = 0" using skip_word [OF assms(2)] by (simp add: show_words_def)
  ultimately show ?thesis using skip_blank [of "show_words ws"] 0 by (simp add: before_def lexer_rewind_def)
qed

lemma lexer_next_end:
  assumes "before [] lx"
  shows "\<exists>lx'. lexer_next lx = Some (0, lx') \<and> before [] lx' \<and> before [] (lexer_rewind lx') \<and> tok lx' = T_NONE \<and> lx_value lx' = lx_value lx"
  using assms by (auto simp: before_def show_words_def lexer_next_def lexer_rewind_def strspn_def)

lemma before_start: "list_all valid_word ws \<Longrightarrow> before ws (lexer_start (show_words ws))"
  using skip_word by (cases ws) (auto simp: before_def lexer_start_def show_words_def strspn_def)

lemma read_word_value: "tok lx = word_tok w \<Longrightarrow> lx_value lx = word_value w v \<Longrightarrow> valid_word w \<Longrightarrow> read_word lx = w"
proof (cases w)
  case (Keyword t)
  assume "tok lx = word_tok w" "valid_word w"
  moreover have "t \<in> snd ` set aql_keywords \<Longrightarrow> t \<notin> {IDENTIFIER, STRING_VALUE, INTEGER_VALUE}" by (auto simp: aql_keywords_def)
  ultimately show ?thesis using Keyword by (auto simp: read_word_def split: token.splits)
qed (auto simp: read_word_def)

lemma read_words_before:
  "before ws lx \<Longrightarrow> list_all valid_word ws \<Longrightarrow> length ws < n \<Longrightarrow> read_words n lx = Some ws"
proof (induction ws arbitrary: n lx)
  case Nil
  then show ?case using lexer_next_end [of lx] by (cases n) auto
next
  case (Cons w ws)
  then obtain m where n: "n = Suc m" "length ws < m" by (cases n) auto
  obtain lx' where l: "lexer_next lx = Some (1, lx')" "before ws lx'" "tok lx' = word_tok w" "lx_value lx' = word_value w (lx_value lx)"
    using lexer_next_before [OF Cons.prems(1)] Cons.prems(2) by auto
  have "read_word lx' = w" using read_word_value [OF l(3,4)] Cons.prems(2) by simp
  then show ?case using Cons.IH [OF l(2) _ n(2)] Cons.prems(2) l(1) by (simp add: n(1))
qed

text \<open>
  C14. The lexical analyzer reads back what is printed: keywords, names below 16
  characters, numbers of 32 bits and strings come out as they went in, with a blank behind
  each. It finds the end of the text behind the last.
\<close>

theorem aql_lexer_roundtrip:
  assumes "list_all valid_word ws" and "length ws < n"
  shows "read_words n (lexer_start (show_words ws)) = Some ws"
  using read_words_before [OF before_start [OF assms(1)] assms]  .

lemma aql_lexer_roundtrip_witness:
  "read_words 8 (lexer_start (show_words [Keyword T_SELECT, Name ''temp'', Keyword T_WHERE, Name ''temp'', Keyword GEQ, Number (-5), Keyword T_END])) =
   Some [Keyword T_SELECT, Name ''temp'', Keyword T_WHERE, Name ''temp'', Keyword GEQ, Number (-5), Keyword T_END]"
proof (rule aql_lexer_roundtrip)
  show "list_all valid_word [Keyword T_SELECT, Name ''temp'', Keyword T_WHERE, Name ''temp'', Keyword GEQ, Number (-5), Keyword T_END]" by code_simp
qed simp

text \<open>A name of 16 characters or more is written past the value, which is on the stack of \<open>aql_parse\<close>.\<close>

lemma long_name_overflows: "lexer_next (lexer_start ''temperature_outside '') = None"
  by code_simp

end
