(* ===== verification/Lvm.thy ===== *)
theory Lvm
  imports Bytes "HOL-Library.Signed_Division"
begin

text \<open>
  The logic virtual machine of the Antelope database, \<open>apps/antelope/lvm.c\<close>:
  conditions on the tuples of a relation, written in prefix notation into a byte
  buffer, evaluated, and searched for ranges of the attributes. Integers and enumerations
  take 4 bytes, least significant first; there are no floats. The limits are those of
  \<open>apps/antelope/db-options.h\<close>, which \<open>aql.h\<close> includes first. The function that
  reads past the code or past a table, or overflows a \<open>long\<close>, is \<^term>\<open>None\<close>.
\<close>

section \<open>Constants and state\<close>

datatype lvm_status = INVALID_IDENTIFIER | SEMANTIC_ERROR | MATH_ERROR | STACK_OVERFLOW | TYPE_ERROR |
  VARIABLE_LIMIT_REACHED | EXECUTION_ERROR | DERIVATION_ERROR

text \<open>A status is an error or one of the truth values \<open>FALSE\<close> and \<open>TRUE\<close>.\<close>

type_synonym 'a result = "lvm_status + 'a"

definition LVM_MAX_NAME_LENGTH :: nat where "LVM_MAX_NAME_LENGTH = 12"
definition LVM_MAX_VARIABLE_ID :: nat where "LVM_MAX_VARIABLE_ID = 4"
definition LONG_MAX :: int where "LONG_MAX = 2 ^ 31 - 1"
definition LONG_MIN :: int where "LONG_MIN = - (2 ^ 31)"

definition LVM_ARITH_OP :: u32 where "LVM_ARITH_OP = 0x10"
definition LVM_OPERAND :: u32 where "LVM_OPERAND = 0x20"
definition LVM_CMP_OP :: u32 where "LVM_CMP_OP = 0x40"
definition LVM_CONNECTIVE :: u32 where "LVM_CONNECTIVE = 0x80"

definition LVM_ADD :: u32 where "LVM_ADD = LVM_ARITH_OP OR 1"
definition LVM_SUB :: u32 where "LVM_SUB = LVM_ARITH_OP OR 2"
definition LVM_MUL :: u32 where "LVM_MUL = LVM_ARITH_OP OR 3"
definition LVM_DIV :: u32 where "LVM_DIV = LVM_ARITH_OP OR 4"
definition LVM_EQ :: u32 where "LVM_EQ = LVM_CMP_OP OR 1"
definition LVM_NEQ :: u32 where "LVM_NEQ = LVM_CMP_OP OR 2"
definition LVM_GE :: u32 where "LVM_GE = LVM_CMP_OP OR 3"
definition LVM_GEQ :: u32 where "LVM_GEQ = LVM_CMP_OP OR 4"
definition LVM_LE :: u32 where "LVM_LE = LVM_CMP_OP OR 5"
definition LVM_LEQ :: u32 where "LVM_LEQ = LVM_CMP_OP OR 6"
definition LVM_AND :: u32 where "LVM_AND = LVM_CONNECTIVE OR 1"
definition LVM_OR :: u32 where "LVM_OR = LVM_CONNECTIVE OR 2"
definition LVM_NOT :: u32 where "LVM_NOT = LVM_CONNECTIVE OR 3"

definition LVM_VARIABLE :: u32 where "LVM_VARIABLE = 0"
definition LVM_LONG :: u32 where "LVM_LONG = 2"

definition IS_CONNECTIVE :: "u32 \<Rightarrow> bool" where
  "IS_CONNECTIVE op \<longleftrightarrow> op AND LVM_CONNECTIVE \<noteq> 0"

record operand =
  op_type :: u32
  op_value :: u32

text \<open>The union of a long and a variable identifier, which is its first byte.\<close>

definition value_l :: "u32 \<Rightarrow> int" where "value_l v = sint v"
definition value_id :: "u32 \<Rightarrow> u8" where "value_id v = ucast v"

record variable =
  var_type :: u32
  var_value :: u32
  var_name :: string

record derivation =
  d_max :: int
  d_min :: int
  derived :: bool

record lvm_instance =
  code :: "u8 list"
  csize :: nat
  cend :: nat
  cip :: nat
  cerror :: nat

record lvm =
  variables :: "variable list"
  derivations :: "derivation list"

definition no_variable :: variable where
  "no_variable = \<lparr>var_type = 0, var_value = 0, var_name = ''''\<rparr>"

definition no_derivation :: derivation where
  "no_derivation = \<lparr>d_max = 0, d_min = 0, derived = False\<rparr>"

text \<open>A signed result, when it fits.\<close>

definition long :: "int \<Rightarrow> int option" where
  "long x = (if LONG_MIN \<le> x \<and> x \<le> LONG_MAX then Some x else None)"

definition le32 :: "u32 \<Rightarrow> u8 list" where
  "le32 w = [ucast w, ucast (drop_bit 8 w), ucast (drop_bit 16 w), ucast (drop_bit 24 w)]"

definition of_le32 :: "u8 list \<Rightarrow> u32" where
  "of_le32 bs = ucast (bs ! 0) OR push_bit 8 (ucast (bs ! 1)) OR push_bit 16 (ucast (bs ! 2)) OR push_bit 24 (ucast (bs ! 3))"

section \<open>Variables\<close>

text \<open>The index of the variable of this name, or of the first free one.\<close>

fun lookup_from :: "variable list \<Rightarrow> nat \<Rightarrow> string \<Rightarrow> nat option" where
  "lookup_from [] i name = (if i < LVM_MAX_VARIABLE_ID then None else Some i)"
| "lookup_from (v # vs) i name = (if i \<ge> LVM_MAX_VARIABLE_ID \<or> var_name v = '''' \<or> var_name v = name then Some i
     else lookup_from vs (i + 1) name)"

definition lookup :: "lvm \<Rightarrow> string \<Rightarrow> nat option" where
  "lookup s name = lookup_from (variables s) 0 name"

definition lvm_register_variable :: "string \<Rightarrow> u32 \<Rightarrow> lvm \<Rightarrow> (bool result \<times> lvm) option" where
  "lvm_register_variable name type s = do {
     id \<leftarrow> lookup s name;
     (if id = LVM_MAX_VARIABLE_ID then Some (Inl VARIABLE_LIMIT_REACHED, s)
      else if id \<ge> length (variables s) then None
      else let var = variables s ! id in
        Some (Inr True, if var_name var = ''''
          then s\<lparr>variables := (variables s)[id := var\<lparr>var_name := take LVM_MAX_NAME_LENGTH name, var_type := type\<rparr>]\<rparr> else s))
   }"

definition lvm_set_variable_value :: "string \<Rightarrow> u32 \<Rightarrow> lvm \<Rightarrow> (bool result \<times> lvm) option" where
  "lvm_set_variable_value name v s = do {
     id \<leftarrow> lookup s name;
     (if id = LVM_MAX_VARIABLE_ID then Some (Inl INVALID_IDENTIFIER, s)
      else if id \<ge> length (variables s) then None
      else Some (Inr True, s\<lparr>variables := (variables s)[id := (variables s ! id)\<lparr>var_value := v\<rparr>]\<rparr>))
   }"

section \<open>Writing code\<close>

definition sizeof_operator :: nat where "sizeof_operator = 4"
definition sizeof_node_type :: nat where "sizeof_node_type = 4"
definition sizeof_operand :: nat where "sizeof_operand = 8"

definition lvm_reset :: "u8 list \<Rightarrow> nat \<Rightarrow> (lvm_instance \<times> lvm) option" where
  "lvm_reset buf n = (if n \<le> length buf then
     Some (\<lparr>code = replicate n 0 @ drop n buf, csize = n, cend = 0, cip = 0, cerror = 0\<rparr>,
       \<lparr>variables = replicate (LVM_MAX_VARIABLE_ID - 1) no_variable, derivations = replicate (LVM_MAX_VARIABLE_ID - 1) no_derivation\<rparr>)
     else None)"

definition lvm_jump_to_operand :: "lvm_instance \<Rightarrow> nat \<times> lvm_instance" where
  "lvm_jump_to_operand p = (let old_end = cend p; e = old_end + (sizeof_operator + sizeof_node_type) in
     (old_end, if e \<ge> csize p then p\<lparr>cerror := 322\<rparr> else p\<lparr>cend := e\<rparr>))"

definition lvm_shift_for_operator :: "nat \<Rightarrow> lvm_instance \<Rightarrow> (nat \<times> lvm_instance) option" where
  "lvm_shift_for_operator e p = (let old_end = cend p in
     if cend p + sizeof_operator > csize p \<or> e \<ge> old_end then Some (0, p\<lparr>cerror := 338\<rparr>)
     else do {
       bs \<leftarrow> read_bytes e (old_end - e) (code p);
       c \<leftarrow> write_bytes (e + sizeof_operator + sizeof_node_type) bs (code p);
       Some (old_end + sizeof_operator + sizeof_node_type, p\<lparr>code := c, cend := e\<rparr>)
     })"

definition lvm_get_end :: "lvm_instance \<Rightarrow> nat" where
  "lvm_get_end p = cend p"

definition lvm_set_end :: "nat \<Rightarrow> lvm_instance \<Rightarrow> nat \<times> lvm_instance" where
  "lvm_set_end e p = (if e \<ge> csize p then (cend p, p\<lparr>cerror := 362\<rparr>) else (cend p, p\<lparr>cend := e\<rparr>))"

text \<open>A copy to the end of the code (\<open>memcpy(&p->code[p->end], ...)\<close>).\<close>

definition append_code :: "u8 list \<Rightarrow> lvm_instance \<Rightarrow> lvm_instance option" where
  "append_code bs p = do { c \<leftarrow> write_bytes (cend p) bs (code p); Some (p\<lparr>code := c, cend := cend p + length bs\<rparr>) }"

definition lvm_set_type :: "u32 \<Rightarrow> lvm_instance \<Rightarrow> lvm_instance option" where
  "lvm_set_type type p = append_code (le32 type) p"

definition lvm_set_op :: "u32 \<Rightarrow> lvm_instance \<Rightarrow> lvm_instance option" where
  "lvm_set_op op p = do { p \<leftarrow> lvm_set_type LVM_ARITH_OP p; append_code (le32 op) p }"

definition lvm_set_relation :: "u32 \<Rightarrow> lvm_instance \<Rightarrow> lvm_instance option" where
  "lvm_set_relation op p = do { p \<leftarrow> lvm_set_type LVM_CMP_OP p; append_code (le32 op) p }"

definition lvm_set_operand :: "operand \<Rightarrow> lvm_instance \<Rightarrow> lvm_instance option" where
  "lvm_set_operand op p = do { p \<leftarrow> lvm_set_type LVM_OPERAND p; append_code (le32 (op_type op) @ le32 (op_value op)) p }"

definition lvm_set_long :: "u32 \<Rightarrow> lvm_instance \<Rightarrow> lvm_instance option" where
  "lvm_set_long l p = lvm_set_operand \<lparr>op_type = LVM_LONG, op_value = l\<rparr> p"

text \<open>Only the first byte of the value is set; \<open>junk\<close> is what the others hold. The identifier is a byte.\<close>

definition lvm_set_variable :: "u32 \<Rightarrow> string \<Rightarrow> lvm \<Rightarrow> lvm_instance \<Rightarrow> lvm_instance option" where
  "lvm_set_variable junk name s p = do {
     id \<leftarrow> lookup s name;
     (if id < LVM_MAX_VARIABLE_ID
      then lvm_set_operand \<lparr>op_type = LVM_VARIABLE, op_value = (junk AND 0xffffff00) OR of_nat id\<rparr> p else Some p)
   }"

definition lvm_clone :: "lvm_instance \<Rightarrow> lvm_instance" where
  "lvm_clone src = src"

section \<open>Execution\<close>

definition get32 :: "u8 list \<Rightarrow> nat \<Rightarrow> (u32 \<times> nat) option" where
  "get32 c ip = do { bs \<leftarrow> read_bytes ip 4 c; Some (of_le32 bs, ip + 4) }"

definition get_operator :: "u8 list \<Rightarrow> nat \<Rightarrow> (u32 \<times> nat) option" where
  "get_operator c ip = get32 c ip"

definition get_type :: "u8 list \<Rightarrow> nat \<Rightarrow> (u32 \<times> nat) option" where
  "get_type c ip = get32 c ip"

definition get_operand :: "u8 list \<Rightarrow> nat \<Rightarrow> (operand \<times> nat) option" where
  "get_operand c ip = do { (t, ip) \<leftarrow> get32 c ip; (v, ip) \<leftarrow> get32 c ip; Some (\<lparr>op_type = t, op_value = v\<rparr>, ip) }"

definition operand_to_long :: "lvm \<Rightarrow> operand \<Rightarrow> int option" where
  "operand_to_long s operand = (
     if op_type operand = LVM_LONG then Some (value_l (op_value operand))
     else if op_type operand = LVM_VARIABLE then
       (let id = unat (value_id (op_value operand)) in
        if id < length (variables s) then Some (value_l (var_value (variables s ! id))) else None)
     else Some 0)"

definition arith :: "u32 \<Rightarrow> int \<Rightarrow> int \<Rightarrow> int result option" where
  "arith op a b = (
     if op = LVM_ADD then map_option Inr (long (a + b))
     else if op = LVM_SUB then map_option Inr (long (a - b))
     else if op = LVM_MUL then map_option Inr (long (a * b))
     else if op = LVM_DIV then (if b = 0 then Some (Inl MATH_ERROR) else map_option Inr (long (a sdiv b)))
     else Some (Inl EXECUTION_ERROR))"

text \<open>
  The loop over the two arguments, unrolled; \<open>ip\<close> is returned with the result.
  The first error ends the evaluation.
\<close>

partial_function (option) eval_expr :: "lvm \<Rightarrow> u8 list \<Rightarrow> u32 \<Rightarrow> nat \<Rightarrow> (operand result \<times> nat) option" where
  "eval_expr s c op ip = do {
     (type, ip) \<leftarrow> get_type c ip;
     (r, ip) \<leftarrow> (if type = LVM_ARITH_OP then do { (op', ip) \<leftarrow> get_operator c ip; eval_expr s c op' ip }
       else if type = LVM_OPERAND then map_option (apfst Inr) (get_operand c ip)
       else Some (Inl SEMANTIC_ERROR, ip));
     (case r of
        Inl e \<Rightarrow> Some (Inl e, ip)
      | Inr operand \<Rightarrow> do {
          v0 \<leftarrow> operand_to_long s operand;
          (type, ip) \<leftarrow> get_type c ip;
          (r, ip) \<leftarrow> (if type = LVM_ARITH_OP then do { (op', ip) \<leftarrow> get_operator c ip; eval_expr s c op' ip }
            else if type = LVM_OPERAND then map_option (apfst Inr) (get_operand c ip)
            else Some (Inl SEMANTIC_ERROR, ip));
          (case r of
             Inl e \<Rightarrow> Some (Inl e, ip)
           | Inr operand \<Rightarrow> do {
               v1 \<leftarrow> operand_to_long s operand;
               r \<leftarrow> arith op v0 v1;
               Some (map_sum id (\<lambda>v. \<lparr>op_type = LVM_LONG, op_value = word_of_int v\<rparr>) r, ip)
             })
        })
   }"

text \<open>One argument of an arithmetic or relational operator.\<close>

definition eval_arg :: "lvm \<Rightarrow> u8 list \<Rightarrow> nat \<Rightarrow> (operand result \<times> nat) option" where
  "eval_arg s c ip = do {
     (type, ip) \<leftarrow> get_type c ip;
     (if type = LVM_ARITH_OP then do { (op, ip) \<leftarrow> get_operator c ip; eval_expr s c op ip }
      else if type = LVM_OPERAND then map_option (apfst Inr) (get_operand c ip)
      else Some (Inl SEMANTIC_ERROR, ip))
   }"

definition compare_longs :: "u32 \<Rightarrow> int \<Rightarrow> int \<Rightarrow> bool result" where
  "compare_longs op l1 l2 = (
     if op = LVM_EQ then Inr (l1 = l2)
     else if op = LVM_NEQ then Inr (l1 \<noteq> l2)
     else if op = LVM_GE then Inr (l1 > l2)
     else if op = LVM_GEQ then Inr (l1 \<ge> l2)
     else if op = LVM_LE then Inr (l1 < l2)
     else if op = LVM_LEQ then Inr (l1 \<le> l2)
     else Inl EXECUTION_ERROR)"

partial_function (option) eval_logic :: "lvm \<Rightarrow> u8 list \<Rightarrow> u32 \<Rightarrow> nat \<Rightarrow> (bool result \<times> nat) option" where
  "eval_logic s c op ip =
     (if IS_CONNECTIVE op then do {
        (type, ip) \<leftarrow> get_type c ip;
        (if type \<noteq> LVM_CMP_OP then Some (Inl SEMANTIC_ERROR, ip) else do {
           (op0, ip) \<leftarrow> get_operator c ip;
           (r0, ip) \<leftarrow> eval_logic s c op0 ip;
           (case r0 of
              Inl e \<Rightarrow> Some (Inl e, ip)
            | Inr b0 \<Rightarrow>
                if op = LVM_NOT then Some (Inr (\<not> b0), ip)
                else do {
                  (type, ip) \<leftarrow> get_type c ip;
                  (if type \<noteq> LVM_CMP_OP then Some (Inl SEMANTIC_ERROR, ip) else do {
                     (op1, ip) \<leftarrow> get_operator c ip;
                     (r1, ip) \<leftarrow> eval_logic s c op1 ip;
                     Some (map_sum id (\<lambda>b1. if op = LVM_AND then b0 \<and> b1 else b0 \<or> b1) r1, ip)
                   })
                })
         })
      }
      else do {
        (r0, ip) \<leftarrow> eval_arg s c ip;
        (case r0 of
           Inl e \<Rightarrow> Some (Inl e, ip)
         | Inr o0 \<Rightarrow> do {
             l1 \<leftarrow> operand_to_long s o0;
             (r1, ip) \<leftarrow> eval_arg s c ip;
             (case r1 of
                Inl e \<Rightarrow> Some (Inl e, ip)
              | Inr o1 \<Rightarrow> do { l2 \<leftarrow> operand_to_long s o1; Some (compare_longs op l1 l2, ip) })
           })
      })"

definition lvm_execute :: "lvm \<Rightarrow> lvm_instance \<Rightarrow> (bool result \<times> lvm_instance) option" where
  "lvm_execute s p = do {
     (type, ip) \<leftarrow> get_type (code p) 0;
     (if type = LVM_CMP_OP then do {
        (op, ip) \<leftarrow> get_operator (code p) ip;
        (status, ip) \<leftarrow> eval_logic s (code p) op ip;
        Some (status, p\<lparr>cip := ip\<rparr>)
      } else Some (Inl EXECUTION_ERROR, p\<lparr>cip := ip\<rparr>))
   }"

section \<open>Ranges of the variables\<close>

text \<open>The ranges that follow from both conditions, and from either.\<close>

definition intersect_range :: "derivation \<Rightarrow> derivation \<Rightarrow> derivation \<Rightarrow> derivation" where
  "intersect_range r d1 d2 = (
     if derived d1 \<and> \<not> derived d2 then r\<lparr>d_min := d_min d1, d_max := d_max d1\<rparr>
     else if \<not> derived d1 \<and> derived d2 then r\<lparr>d_min := d_min d2, d_max := d_max d2\<rparr>
     else r\<lparr>d_min := (if d_min d1 > d_min d2 then d_min d1 else d_min d2), d_max := (if d_max d1 < d_max d2 then d_max d1 else d_max d2)\<rparr>)"

definition unite_range :: "derivation \<Rightarrow> derivation \<Rightarrow> derivation \<Rightarrow> derivation" where
  "unite_range r d1 d2 = (
     if derived d1 \<and> \<not> derived d2 then r\<lparr>d_min := d_min d1, d_max := d_max d1\<rparr>
     else if \<not> derived d1 \<and> derived d2 then r\<lparr>d_min := d_min d2, d_max := d_max d2\<rparr>
     else r\<lparr>d_min := (if d_min d1 > d_min d2 then d_min d2 else d_min d1), d_max := (if d_max d1 < d_max d2 then d_max d2 else d_max d1)\<rparr>)"

fun combine_loop :: "(derivation \<Rightarrow> derivation \<Rightarrow> derivation \<Rightarrow> derivation) \<Rightarrow> nat list \<Rightarrow> derivation list \<Rightarrow> derivation list \<Rightarrow>
    derivation list \<Rightarrow> derivation list option" where
  "combine_loop f [] result d1 d2 = Some result"
| "combine_loop f (i # is) result d1 d2 = (
     if \<not> derived (d1 ! i) \<and> \<not> derived (d2 ! i) then combine_loop f is result d1 d2
     else if i < length result
     then combine_loop f is (result[i := (f (result ! i) (d1 ! i) (d2 ! i))\<lparr>derived := True\<rparr>]) d1 d2
     else None)"

definition create_intersection :: "derivation list \<Rightarrow> derivation list \<Rightarrow> derivation list \<Rightarrow> derivation list option" where
  "create_intersection result d1 d2 = combine_loop intersect_range [0..<LVM_MAX_VARIABLE_ID] result d1 d2"

definition create_union :: "derivation list \<Rightarrow> derivation list \<Rightarrow> derivation list \<Rightarrow> derivation list option" where
  "create_union result d1 d2 = combine_loop unite_range [0..<LVM_MAX_VARIABLE_ID] result d1 d2"

text \<open>The range of a variable that is compared with a value.\<close>

definition relation_range :: "u32 \<Rightarrow> int \<Rightarrow> derivation \<Rightarrow> (bool result \<times> derivation) option" where
  "relation_range op v d = (let d = d\<lparr>d_max := LONG_MAX, d_min := LONG_MIN\<rparr>; ok = (\<lambda>d. (Inr True, d\<lparr>derived := True\<rparr>)) in
     if op = LVM_EQ then Some (ok (d\<lparr>d_max := v, d_min := v\<rparr>))
     else if op = LVM_GE then map_option (\<lambda>x. ok (d\<lparr>d_min := x\<rparr>)) (long (v + 1))
     else if op = LVM_GEQ then Some (ok (d\<lparr>d_min := v\<rparr>))
     else if op = LVM_LE then map_option (\<lambda>x. ok (d\<lparr>d_max := x\<rparr>)) (long (v - 1))
     else if op = LVM_LEQ then Some (ok (d\<lparr>d_max := v\<rparr>))
     else Some (Inl DERIVATION_ERROR, d))"

text \<open>A comparison: both arguments have to be operands, and at most one of them a variable.\<close>

definition derive_comparison :: "u8 list \<Rightarrow> u32 \<Rightarrow> nat \<Rightarrow> derivation list \<Rightarrow> (bool result \<times> derivation list \<times> nat) option" where
  "derive_comparison c op ip ds = do {
     (type, ip) \<leftarrow> get_type c ip;
     (if type \<noteq> LVM_OPERAND then Some (Inl DERIVATION_ERROR, ds, ip) else do {
        (o0, ip) \<leftarrow> get_operand c ip;
        (type, ip) \<leftarrow> get_type c ip;
        (if type \<noteq> LVM_OPERAND then Some (Inl DERIVATION_ERROR, ds, ip) else do {
           (o1, ip) \<leftarrow> get_operand c ip;
           (if op_type o0 = LVM_VARIABLE \<and> op_type o1 = LVM_VARIABLE then Some (Inl DERIVATION_ERROR, ds, ip)
            else let (variable_id, value) =
                (if op_type o0 = LVM_VARIABLE then (unat (value_id (op_value o0)), value_l (op_value o1))
                 else (unat (value_id (op_value o1)), value_l (op_value o0))) in
              if variable_id \<ge> LVM_MAX_VARIABLE_ID then Some (Inl DERIVATION_ERROR, ds, ip)
              else if variable_id \<ge> length ds then None
              else do { (r, d) \<leftarrow> relation_range op value (ds ! variable_id); Some (r, ds[variable_id := d], ip) })
         })
      })
   }"

partial_function (option) derive_relation :: "u8 list \<Rightarrow> nat \<Rightarrow> derivation list \<Rightarrow> (bool result \<times> derivation list \<times> nat) option" where
  "derive_relation c ip local_derivations = do {
     (type, ip) \<leftarrow> get_type c ip;
     (op, ip) \<leftarrow> get_operator c ip;
     (if IS_CONNECTIVE op then
        if op \<noteq> LVM_AND \<and> op \<noteq> LVM_OR then Some (Inl DERIVATION_ERROR, local_derivations, ip)
        else do {
          (r1, d1, ip) \<leftarrow> derive_relation c ip (replicate LVM_MAX_VARIABLE_ID no_derivation);
          (case r1 of
             Inl e \<Rightarrow> Some (Inl DERIVATION_ERROR, local_derivations, ip)
           | Inr _ \<Rightarrow> do {
               (r2, d2, ip) \<leftarrow> derive_relation c ip (replicate LVM_MAX_VARIABLE_ID no_derivation);
               (case r2 of
                  Inl e \<Rightarrow> Some (Inl DERIVATION_ERROR, local_derivations, ip)
                | Inr _ \<Rightarrow> do {
                    ds \<leftarrow> (if op = LVM_AND then create_intersection local_derivations d1 d2 else create_union local_derivations d1 d2);
                    Some (Inr True, ds, ip)
                  })
             })
        }
      else derive_comparison c op ip local_derivations)
   }"

text \<open>The code is read from \<open>p->ip\<close> on.\<close>

definition lvm_derive :: "lvm \<Rightarrow> lvm_instance \<Rightarrow> (bool result \<times> lvm \<times> lvm_instance) option" where
  "lvm_derive s p = do {
     (r, ds, ip) \<leftarrow> derive_relation (code p) (cip p) (derivations s);
     Some (r, s\<lparr>derivations := ds\<rparr>, p\<lparr>cip := ip\<rparr>)
   }"

fun range_from :: "nat list \<Rightarrow> lvm \<Rightarrow> string \<Rightarrow> (int \<times> int) result option" where
  "range_from [] s name = Some (Inl INVALID_IDENTIFIER)"
| "range_from (i # is) s name = (
     if i \<ge> length (variables s) then None
     else if name = var_name (variables s ! i) then
       (if i \<ge> length (derivations s) then None
        else let d = derivations s ! i in Some (if derived d then Inr (d_min d, d_max d) else Inl DERIVATION_ERROR))
     else range_from is s name)"

definition lvm_get_derived_range :: "lvm \<Rightarrow> string \<Rightarrow> (int \<times> int) result option" where
  "lvm_get_derived_range s name = range_from [0..<LVM_MAX_VARIABLE_ID] s name"

declare eval_expr.simps [code] and eval_logic.simps [code] and derive_relation.simps [code]

end
