(* ===== verification/AqlParser.thy ===== *)
theory AqlParser
  imports AqlLexer Lvm
begin

text \<open>
  The parser of the Antelope query language, \<open>apps/antelope/aql-parser.c\<close>, and
  the record of a query that it fills in, \<open>apps/antelope/aql-adt.c\<close>. Conditions are
  compiled for the logic virtual machine while they are parsed. An access past a table, and
  a string copied past its end, is \<^term>\<open>None\<close>; so is a parser that never returns.
\<close>

section \<open>The query\<close>

definition AQL_RELATION_LIMIT :: nat where "AQL_RELATION_LIMIT = 3"
definition AQL_ATTRIBUTE_LIMIT :: nat where "AQL_ATTRIBUTE_LIMIT = 5"
definition ATTRIBUTE_NAME_LENGTH :: nat where "ATTRIBUTE_NAME_LENGTH = 12"
definition RELATION_NAME_LENGTH :: nat where "RELATION_NAME_LENGTH = 10"
definition DB_MAX_CHAR_SIZE_PER_ROW :: nat where "DB_MAX_CHAR_SIZE_PER_ROW = 64"
definition DB_VM_BYTECODE_SIZE :: nat where "DB_VM_BYTECODE_SIZE = 128"

datatype domain = DOMAIN_UNSPECIFIED | DOMAIN_INT | DOMAIN_LONG | DOMAIN_STRING | DOMAIN_FLOAT

datatype db_result = DB_FINISHED | DB_GOT_ROW | DB_OK | DB_LIMIT_ERROR | DB_ALLOCATION_ERROR | DB_STORAGE_ERROR | DB_PARSING_ERROR |
  DB_NAME_ERROR | DB_RELATIONAL_ERROR | DB_TYPE_ERROR | DB_IMPLEMENTATION_ERROR | DB_INDEX_ERROR | DB_BUSY_ERROR |
  DB_INCONSISTENCY_ERROR | DB_ARGUMENT_ERROR

datatype index_type = INDEX_NONE | INDEX_INLINE | INDEX_MEMHASH | INDEX_MAXHEAP

datatype aql_type = AQL_TYPE_NONE | AQL_TYPE_SELECT | AQL_TYPE_INSERT | AQL_TYPE_CREATE_ATTRIBUTE | AQL_TYPE_CREATE_INDEX |
  AQL_TYPE_CREATE_RELATION | AQL_TYPE_REMOVE_ATTRIBUTE | AQL_TYPE_REMOVE_INDEX | AQL_TYPE_REMOVE_RELATION |
  AQL_TYPE_REMOVE_TUPLES | AQL_TYPE_JOIN

datatype aql_aggregator = AQL_NONE | AQL_COUNT | AQL_SUM | AQL_MIN | AQL_MAX | AQL_MEAN | AQL_MEDIAN

definition AQL_FLAG_AGGREGATE :: u8 where "AQL_FLAG_AGGREGATE = 1"
definition AQL_FLAG_ASSIGN :: u8 where "AQL_FLAG_ASSIGN = 2"
definition ATTRIBUTE_FLAG_NO_STORE :: u8 where "ATTRIBUTE_FLAG_NO_STORE = 1"

record aql_attribute =
  at_domain :: domain
  element_size :: u8
  at_flags :: u8
  at_name :: string

text \<open>A value is a long or the offset of a string in the character buffer, if it fitted there.\<close>

datatype value_union = Val_long u32 | Val_string "nat option"

record attribute_value =
  av_union :: value_union
  av_domain :: domain

record aql_adt =
  relations :: "string list"
  attributes :: "aql_attribute list"
  aggregators :: "aql_aggregator list"
  adt_values :: "attribute_value list"
  adt_index_type :: index_type
  relation_count :: nat
  attribute_count :: nat
  value_count :: nat
  optype :: aql_type
  adt_flags :: u8
  condition_set :: bool

text \<open>
  The state of the parser: the lexer, the query, the instance of the virtual machine with
  its variables, the character buffer, and the bytes that the operand of a
  variable leaves unset.
\<close>

record parser =
  lex :: lexer
  adt :: aql_adt
  vm :: lvm_instance
  vm_vars :: lvm
  char_buf :: string
  next_free_offset :: nat
  junk :: u32

definition get_attribute :: "aql_adt \<Rightarrow> string \<Rightarrow> aql_attribute option" where
  "get_attribute a name = find (\<lambda>x. at_name x = name) (take (attribute_count a) (attributes a))"

text \<open>\<open>save_char\<close>, for a string of which the NUL is saved, too.\<close>

definition save_char :: "string \<Rightarrow> parser \<Rightarrow> nat option \<times> parser" where
  "save_char s ps = (let n = length s + 1; off = next_free_offset ps in
     if n + off > DB_MAX_CHAR_SIZE_PER_ROW then (None, ps)
     else (Some off, ps\<lparr>char_buf := take off (char_buf ps) @ s @ [CHR 0x00] @ drop (off + n) (char_buf ps), next_free_offset := off + n\<rparr>))"

definition aql_clear :: "parser \<Rightarrow> parser" where
  "aql_clear ps = ps\<lparr>char_buf := CHR 0x00 # drop 1 (char_buf ps), next_free_offset := 0,
     adt := (adt ps)\<lparr>optype := AQL_TYPE_NONE, relation_count := 0, attribute_count := 0, value_count := 0, adt_flags := 0,
       aggregators := replicate AQL_ATTRIBUTE_LIMIT AQL_NONE\<rparr>\<rparr>"

definition aql_add_attribute :: "aql_adt \<Rightarrow> string \<Rightarrow> domain \<Rightarrow> u32 \<Rightarrow> bool \<Rightarrow> db_result \<times> aql_adt" where
  "aql_add_attribute a name d n processed_only = (
     if attribute_count a = AQL_ATTRIBUTE_LIMIT then (DB_LIMIT_ERROR, a)
     else if processed_only \<and> get_attribute a name \<noteq> None then (DB_OK, a)
     else let i = attribute_count a; a = a\<lparr>attribute_count := i + 1\<rparr> in
       if length name + 1 > ATTRIBUTE_NAME_LENGTH + 1 then (DB_LIMIT_ERROR, a)
       else (DB_OK, a\<lparr>attributes := (attributes a)[i := \<lparr>at_domain = d, element_size = ucast n,
         at_flags = (if processed_only then ATTRIBUTE_FLAG_NO_STORE else 0), at_name = name\<rparr>]\<rparr>))"

text \<open>The value has to be of the type that the domain says.\<close>

definition aql_add_value :: "domain \<Rightarrow> lex_value \<Rightarrow> parser \<Rightarrow> (db_result \<times> parser) option" where
  "aql_add_value d v ps = (let a = adt ps; i = value_count a in
     if i = AQL_ATTRIBUTE_LIMIT then Some (DB_LIMIT_ERROR, ps)
     else let set_value = (\<lambda>u ps. ps\<lparr>adt := (adt ps)\<lparr>value_count := i + 1, adt_values := (adt_values a)[i := \<lparr>av_union = u, av_domain = d\<rparr>]\<rparr>\<rparr>) in
       case (d, v) of
         (DOMAIN_INT, Long w) \<Rightarrow> Some (DB_OK, set_value (Val_long w) ps)
       | (DOMAIN_STRING, Text s) \<Rightarrow> (let (off, ps) = save_char s ps in
           Some (if off \<noteq> None then DB_OK else DB_TYPE_ERROR, set_value (Val_string off) ps))
       | _ \<Rightarrow> None)"

definition AQL_ADD_RELATION :: "string \<Rightarrow> parser \<Rightarrow> parser option" where
  "AQL_ADD_RELATION rel ps = (let a = adt ps; i = relation_count a in
     if i \<ge> AQL_RELATION_LIMIT \<or> length rel > RELATION_NAME_LENGTH then None
     else Some (ps\<lparr>adt := a\<lparr>relations := (relations a)[i := rel], relation_count := i + 1\<rparr>\<rparr>))"

definition AQL_ADD_ATTRIBUTE :: "string \<Rightarrow> domain \<Rightarrow> u32 \<Rightarrow> parser \<Rightarrow> parser" where
  "AQL_ADD_ATTRIBUTE name d n ps = ps\<lparr>adt := snd (aql_add_attribute (adt ps) name d n False)\<rparr>"

definition AQL_ADD_PROCESSING_ATTRIBUTE :: "string \<Rightarrow> parser \<Rightarrow> parser" where
  "AQL_ADD_PROCESSING_ATTRIBUTE name ps = ps\<lparr>adt := snd (aql_add_attribute (adt ps) name DOMAIN_UNSPECIFIED 0 True)\<rparr>"

definition AQL_ADD_AGGREGATE :: "aql_aggregator \<Rightarrow> string \<Rightarrow> parser \<Rightarrow> parser option" where
  "AQL_ADD_AGGREGATE f name ps = (let a = adt ps in
     if attribute_count a \<ge> AQL_ATTRIBUTE_LIMIT then None
     else Some (ps\<lparr>adt := snd (aql_add_attribute (a\<lparr>aggregators := (aggregators a)[attribute_count a := f]\<rparr>) name DOMAIN_UNSPECIFIED 0 False)\<rparr>))"

definition AQL_SET_TYPE :: "aql_type \<Rightarrow> parser \<Rightarrow> parser" where
  "AQL_SET_TYPE t ps = ps\<lparr>adt := (adt ps)\<lparr>optype := t\<rparr>\<rparr>"

definition AQL_SET_INDEX_TYPE :: "index_type \<Rightarrow> parser \<Rightarrow> parser" where
  "AQL_SET_INDEX_TYPE t ps = ps\<lparr>adt := (adt ps)\<lparr>adt_index_type := t\<rparr>\<rparr>"

definition AQL_SET_FLAG :: "u8 \<Rightarrow> parser \<Rightarrow> parser" where
  "AQL_SET_FLAG f ps = ps\<lparr>adt := (adt ps)\<lparr>adt_flags := adt_flags (adt ps) OR f\<rparr>\<rparr>"

definition AQL_SET_CONDITION :: "bool \<Rightarrow> parser \<Rightarrow> parser" where
  "AQL_SET_CONDITION b ps = ps\<lparr>adt := (adt ps)\<lparr>condition_set := b\<rparr>\<rparr>"

section \<open>Tokens\<close>

text \<open>A status is an integer: some parsers return a truth value in its place.\<close>

definition OK :: int where "OK = 2"
definition SYNTAX_ERROR :: int where "SYNTAX_ERROR = 3"
definition AQL_ERROR :: "int \<Rightarrow> bool" where "AQL_ERROR x \<longleftrightarrow> x \<ge> 3"

definition NEXT :: "parser \<Rightarrow> parser option" where
  "NEXT ps = do { (r, lx) \<leftarrow> lexer_next (lex ps); Some (ps\<lparr>lex := lx\<rparr>) }"

definition REWIND :: "parser \<Rightarrow> parser" where
  "REWIND ps = ps\<lparr>lex := lexer_rewind (lex ps)\<rparr>"

definition TOKEN :: "parser \<Rightarrow> token" where
  "TOKEN ps = tok (lex ps)"

text \<open>The value as a string, which it is behind an identifier.\<close>

definition VALUE :: "parser \<Rightarrow> string" where
  "VALUE ps = (case lx_value (lex ps) of Text s \<Rightarrow> s | Long w \<Rightarrow> [])"

text \<open>\<open>CONSUME\<close> returns from the parser that uses it when the token is another; \<open>k\<close> is what follows.\<close>

abbreviation CONSUME :: "token \<Rightarrow> parser \<Rightarrow> (parser \<Rightarrow> (int \<times> parser) option) \<Rightarrow> (int \<times> parser) option" where
  "CONSUME t ps k \<equiv> do { ps \<leftarrow> NEXT ps; (if TOKEN ps \<noteq> t then Some (SYNTAX_ERROR, ps) else k ps) }"

definition parse_cmp :: "parser \<Rightarrow> (token \<times> parser) option" where
  "parse_cmp ps = do { ps \<leftarrow> NEXT ps; Some (if TOKEN ps \<in> {EQUAL, NOT_EQUAL, GT, LT, GEQ, LEQ} then TOKEN ps else T_NONE, ps) }"

definition parse_op :: "parser \<Rightarrow> (token \<times> parser) option" where
  "parse_op ps = do { ps \<leftarrow> NEXT ps; Some (if TOKEN ps \<in> {ADD, SUB, MUL, DIV, RIGHT_PAREN} then TOKEN ps else T_NONE, ps) }"

definition parse_aggregator :: "parser \<Rightarrow> (token \<times> parser) option" where
  "parse_aggregator ps = do { ps \<leftarrow> NEXT ps; Some (if TOKEN ps \<in> {T_COUNT, T_SUM, T_MEAN, T_MEDIAN, T_MAX, T_MIN} then TOKEN ps else T_NONE, ps) }"

section \<open>Lists of names and values\<close>

definition aggregator_of :: "token \<Rightarrow> aql_aggregator" where
  "aggregator_of t = (case t of T_COUNT \<Rightarrow> AQL_COUNT | T_SUM \<Rightarrow> AQL_SUM | T_MEAN \<Rightarrow> AQL_MEAN | T_MEDIAN \<Rightarrow> AQL_MEDIAN | T_MAX \<Rightarrow> AQL_MAX | _ \<Rightarrow> AQL_MIN)"

text \<open>One attribute, with an aggregator or without, up to \<open>check_more_attributes\<close>.\<close>

definition parse_attribute :: "parser \<Rightarrow> (int \<times> parser) option" where
  "parse_attribute ps = do {
     (token, ps) \<leftarrow> parse_aggregator ps;
     (if token \<noteq> T_NONE then let ps = AQL_SET_FLAG AQL_FLAG_AGGREGATE ps in
        CONSUME LEFT_PAREN ps (\<lambda>ps. CONSUME IDENTIFIER ps (\<lambda>ps. do {
          ps \<leftarrow> AQL_ADD_AGGREGATE (aggregator_of token) (VALUE ps) ps;
          CONSUME RIGHT_PAREN ps (\<lambda>ps. Some (OK, ps))
        }))
      else CONSUME IDENTIFIER (REWIND ps) (\<lambda>ps. Some (OK, AQL_ADD_ATTRIBUTE (VALUE ps) DOMAIN_UNSPECIFIED 0 ps)))
   }"

partial_function (option) parse_attributes :: "parser \<Rightarrow> (int \<times> parser) option" where
  "parse_attributes ps = do {
     (r, ps) \<leftarrow> parse_attribute ps;
     (if AQL_ERROR r then Some (r, ps) else do {
        ps \<leftarrow> NEXT ps;
        (if TOKEN ps = COMMA then do { (r, ps) \<leftarrow> parse_attributes ps; Some (if AQL_ERROR r then SYNTAX_ERROR else OK, ps) }
         else Some (OK, REWIND ps))
      })
   }"

partial_function (option) parse_relations :: "parser \<Rightarrow> (int \<times> parser) option" where
  "parse_relations ps = CONSUME IDENTIFIER ps (\<lambda>ps. do {
     ps \<leftarrow> AQL_ADD_RELATION (VALUE ps) ps;
     ps \<leftarrow> NEXT ps;
     (if TOKEN ps = COMMA then do { (r, ps) \<leftarrow> parse_relations ps; Some (if AQL_ERROR r then SYNTAX_ERROR else OK, ps) }
      else Some (OK, REWIND ps))
   })"

text \<open>The result of \<open>PARSE\<close> as a status is no error, whatever it is.\<close>

definition as_status :: "int \<Rightarrow> int" where
  "as_status r = (if AQL_ERROR r then 0 else 1)"

definition parse_value :: "parser \<Rightarrow> (int \<times> parser) option" where
  "parse_value ps = do {
     ps \<leftarrow> NEXT ps;
     (if TOKEN ps = STRING_VALUE then do { (r, ps) \<leftarrow> aql_add_value DOMAIN_STRING (lx_value (lex ps)) ps; Some (OK, ps) }
      else if TOKEN ps = INTEGER_VALUE then do { (r, ps) \<leftarrow> aql_add_value DOMAIN_INT (lx_value (lex ps)) ps; Some (OK, ps) }
      else Some (SYNTAX_ERROR, ps))
   }"

partial_function (option) parse_values :: "parser \<Rightarrow> (int \<times> parser) option" where
  "parse_values ps = do {
     (r, ps) \<leftarrow> parse_value ps;
     (if AQL_ERROR r then Some (r, ps) else do {
        ps \<leftarrow> NEXT ps;
        (if TOKEN ps = COMMA then do { (r, ps) \<leftarrow> parse_values ps; Some (as_status r, ps) }
         else Some (OK, REWIND ps))
      })
   }"

section \<open>Conditions\<close>

definition parse_operand :: "parser \<Rightarrow> (int \<times> parser) option" where
  "parse_operand ps = do {
     ps \<leftarrow> NEXT ps;
     (if TOKEN ps = IDENTIFIER then do {
        (r, vs) \<leftarrow> lvm_register_variable (VALUE ps) LVM_LONG (vm_vars ps);
        p \<leftarrow> lvm_set_variable (junk ps) (VALUE ps) vs (vm ps);
        Some (OK, AQL_ADD_PROCESSING_ATTRIBUTE (VALUE ps) (ps\<lparr>vm_vars := vs, vm := p\<rparr>))
      }
      else if TOKEN ps = STRING_VALUE \<or> TOKEN ps = FLOAT_VALUE then Some (OK, ps)
      else if TOKEN ps = INTEGER_VALUE then (case lx_value (lex ps) of
          Long w \<Rightarrow> do { p \<leftarrow> lvm_set_long w (vm ps); Some (OK, ps\<lparr>vm := p\<rparr>) }
        | Text s \<Rightarrow> None)
      else Some (SYNTAX_ERROR, ps))
   }"

definition operator_of :: "token \<Rightarrow> u32" where
  "operator_of t = (case t of ADD \<Rightarrow> LVM_ADD | SUB \<Rightarrow> LVM_SUB | MUL \<Rightarrow> LVM_MUL | _ \<Rightarrow> LVM_DIV)"

text \<open>
  An expression, and the loop over its operators: \<open>at = None\<close> is the beginning
  of \<open>parse_expr\<close>, \<open>at = Some saved_end\<close> the loop.
\<close>

partial_function (option) expr_at :: "nat option \<Rightarrow> parser \<Rightarrow> (int \<times> parser) option" where
  "expr_at at ps = (case at of
     None \<Rightarrow> do {
       let saved_end = lvm_get_end (vm ps);
       ps \<leftarrow> NEXT ps;
       (if TOKEN ps = LEFT_PAREN then do {
          (r, ps) \<leftarrow> expr_at None ps;
          (if AQL_ERROR r then Some (SYNTAX_ERROR, ps) else CONSUME RIGHT_PAREN ps (expr_at (Some saved_end)))
        }
        else do {
          (r, ps) \<leftarrow> parse_operand (REWIND ps);
          (if AQL_ERROR r then Some (SYNTAX_ERROR, ps) else expr_at (Some saved_end) ps)
        })
     }
   | Some saved_end \<Rightarrow> do {
       (token, ps) \<leftarrow> parse_op ps;
       (if token = T_NONE then Some (OK, REWIND ps)
        else if token = RIGHT_PAREN then Some (OK, ps)
        else do {
          (r, ps) \<leftarrow> parse_operand ps;
          (r, ps) \<leftarrow> (if AQL_ERROR r then expr_at None ps else Some (r, ps));
          (if AQL_ERROR r then Some (SYNTAX_ERROR, ps) else do {
             (saved_end, p) \<leftarrow> lvm_shift_for_operator saved_end (vm ps);
             p \<leftarrow> lvm_set_op (operator_of token) p;
             expr_at (Some saved_end) (ps\<lparr>vm := snd (lvm_set_end saved_end p)\<rparr>)
           })
        })
     })"

definition parse_expr :: "parser \<Rightarrow> (int \<times> parser) option" where
  "parse_expr ps = expr_at None ps"

definition relation_of :: "token \<Rightarrow> u32" where
  "relation_of t = (case t of GT \<Rightarrow> LVM_GE | GEQ \<Rightarrow> LVM_GEQ | LT \<Rightarrow> LVM_LE | LEQ \<Rightarrow> LVM_LEQ | EQUAL \<Rightarrow> LVM_EQ | _ \<Rightarrow> LVM_NEQ)"

definition parse_comparison :: "parser \<Rightarrow> (int \<times> parser) option" where
  "parse_comparison ps = do {
     let (saved_end, p) = lvm_jump_to_operand (vm ps);
     (r, ps) \<leftarrow> parse_expr (ps\<lparr>vm := p\<rparr>);
     (if AQL_ERROR r then Some (SYNTAX_ERROR, ps) else do {
        let (saved_end, p) = lvm_set_end saved_end (vm ps);
        (token, ps) \<leftarrow> parse_cmp (ps\<lparr>vm := p\<rparr>);
        (if token = T_NONE then Some (SYNTAX_ERROR, ps) else do {
           p \<leftarrow> lvm_set_relation (relation_of token) (vm ps);
           (r, ps) \<leftarrow> parse_expr (ps\<lparr>vm := snd (lvm_set_end saved_end p)\<rparr>);
           Some (if AQL_ERROR r then SYNTAX_ERROR else OK, ps)
         })
      })
   }"

text \<open>The same for \<open>parse_where\<close>; a comparison that fails behind the first one returns a zero, which is no error.\<close>

partial_function (option) where_at :: "nat option \<Rightarrow> parser \<Rightarrow> (int \<times> parser) option" where
  "where_at at ps = (case at of
     None \<Rightarrow> do {
       (r, ps) \<leftarrow> parse_comparison ps;
       (if AQL_ERROR r then Some (SYNTAX_ERROR, ps) else where_at (Some 0) ps)
     }
   | Some saved_end \<Rightarrow> do {
       ps \<leftarrow> NEXT ps;
       (if TOKEN ps \<noteq> T_AND \<and> TOKEN ps \<noteq> T_OR then Some (OK, REWIND ps) else do {
          let connective = (if TOKEN ps = T_AND then LVM_AND else LVM_OR);
          (saved_end, p) \<leftarrow> lvm_shift_for_operator saved_end (vm ps);
          p \<leftarrow> lvm_set_relation connective p;
          ps \<leftarrow> NEXT (ps\<lparr>vm := snd (lvm_set_end saved_end p)\<rparr>);
          (if TOKEN ps = LEFT_PAREN then do {
             (r, ps) \<leftarrow> where_at None ps;
             (if AQL_ERROR r then Some (SYNTAX_ERROR, ps) else CONSUME RIGHT_PAREN ps (where_at (Some saved_end)))
           }
           else do {
             (r, ps) \<leftarrow> parse_comparison (REWIND ps);
             (if AQL_ERROR r then Some (0, ps) else where_at (Some saved_end) ps)
           })
        })
     })"

definition parse_where :: "parser \<Rightarrow> (int \<times> parser) option" where
  "parse_where ps = where_at None ps"

declare expr_at.simps [code] and where_at.simps [code] and parse_attributes.simps [code] and parse_relations.simps [code] and parse_values.simps [code]

section \<open>Statements\<close>

definition parse_join :: "parser \<Rightarrow> (int \<times> parser) option" where
  "parse_join ps = CONSUME IDENTIFIER (AQL_SET_TYPE AQL_TYPE_JOIN ps) (\<lambda>ps. do {
     ps \<leftarrow> AQL_ADD_RELATION (VALUE ps) ps;
     CONSUME COMMA ps (\<lambda>ps. CONSUME IDENTIFIER ps (\<lambda>ps. do {
       ps \<leftarrow> AQL_ADD_RELATION (VALUE ps) ps;
       CONSUME T_ON ps (\<lambda>ps. CONSUME IDENTIFIER ps (\<lambda>ps.
         CONSUME T_PROJECT (AQL_ADD_ATTRIBUTE (VALUE ps) DOMAIN_UNSPECIFIED 0 ps) (\<lambda>ps. do {
           (r, ps) \<leftarrow> parse_attributes ps;
           (if AQL_ERROR r then Some (SYNTAX_ERROR, ps) else CONSUME T_END ps (\<lambda>ps. Some (OK, ps)))
         })))
     }))
   })"

definition reset_vm :: "parser \<Rightarrow> parser option" where
  "reset_vm ps = do { (p, vs) \<leftarrow> lvm_reset (code (vm ps)) DB_VM_BYTECODE_SIZE; Some (ps\<lparr>vm := p, vm_vars := vs\<rparr>) }"

definition parse_select :: "parser \<Rightarrow> (int \<times> parser) option" where
  "parse_select ps = do {
     (r, ps) \<leftarrow> parse_attributes (AQL_SET_TYPE AQL_TYPE_SELECT ps);
     (if AQL_ERROR r then Some (SYNTAX_ERROR, ps) else CONSUME T_FROM ps (\<lambda>ps. do {
        (r, ps) \<leftarrow> parse_relations ps;
        (if AQL_ERROR r then Some (SYNTAX_ERROR, ps) else do {
           ps \<leftarrow> NEXT ps;
           (if TOKEN ps = T_WHERE then do {
              ps \<leftarrow> reset_vm ps;
              (r, ps) \<leftarrow> parse_where ps;
              (if AQL_ERROR r then Some (SYNTAX_ERROR, ps)
               else CONSUME T_END (AQL_SET_CONDITION True ps) (\<lambda>ps. Some (OK, ps)))
            }
            else Some (OK, REWIND ps))
         })
      }))
   }"

definition parse_insert :: "parser \<Rightarrow> (int \<times> parser) option" where
  "parse_insert ps = CONSUME LEFT_PAREN (AQL_SET_TYPE AQL_TYPE_INSERT ps) (\<lambda>ps. do {
     (r, ps) \<leftarrow> parse_values ps;
     (if AQL_ERROR r then Some (SYNTAX_ERROR, ps) else CONSUME RIGHT_PAREN ps (\<lambda>ps. CONSUME T_INTO ps (\<lambda>ps. do {
        (r, ps) \<leftarrow> parse_relations ps;
        Some (if AQL_ERROR r then SYNTAX_ERROR else OK, ps)
      })))
   })"

text \<open>\<open>relation.attribute\<close>, which four statements have.\<close>

definition parse_remove_attribute :: "parser \<Rightarrow> (int \<times> parser) option" where
  "parse_remove_attribute ps = CONSUME IDENTIFIER (AQL_SET_TYPE AQL_TYPE_REMOVE_ATTRIBUTE ps) (\<lambda>ps. do {
     ps \<leftarrow> AQL_ADD_RELATION (VALUE ps) ps;
     CONSUME DOT ps (\<lambda>ps. CONSUME IDENTIFIER ps (\<lambda>ps. Some (OK, AQL_ADD_ATTRIBUTE (VALUE ps) DOMAIN_UNSPECIFIED 0 ps)))
   })"

definition REMOVE_RELATION :: string where "REMOVE_RELATION = ''db-remove''"

definition parse_remove_from :: "parser \<Rightarrow> (int \<times> parser) option" where
  "parse_remove_from ps = do {
     ps \<leftarrow> AQL_ADD_RELATION REMOVE_RELATION (AQL_SET_FLAG AQL_FLAG_ASSIGN (AQL_SET_TYPE AQL_TYPE_REMOVE_TUPLES ps));
     CONSUME IDENTIFIER ps (\<lambda>ps. do {
       ps \<leftarrow> AQL_ADD_RELATION (VALUE ps) ps;
       CONSUME T_WHERE ps (\<lambda>ps. do {
         ps \<leftarrow> reset_vm ps;
         (r, ps) \<leftarrow> parse_where (AQL_SET_CONDITION True ps);
         Some (as_status r, ps)
       })
     })
   }"

definition parse_remove_index :: "parser \<Rightarrow> (int \<times> parser) option" where
  "parse_remove_index ps = CONSUME IDENTIFIER (AQL_SET_TYPE AQL_TYPE_REMOVE_INDEX ps) (\<lambda>ps. do {
     ps \<leftarrow> AQL_ADD_RELATION (VALUE ps) ps;
     CONSUME DOT ps (\<lambda>ps. CONSUME IDENTIFIER ps (\<lambda>ps. Some (OK, AQL_ADD_ATTRIBUTE (VALUE ps) DOMAIN_UNSPECIFIED 0 ps)))
   })"

definition parse_remove_relation :: "parser \<Rightarrow> (int \<times> parser) option" where
  "parse_remove_relation ps = CONSUME IDENTIFIER (AQL_SET_TYPE AQL_TYPE_REMOVE_RELATION ps) (\<lambda>ps. do {
     ps \<leftarrow> AQL_ADD_RELATION (VALUE ps) ps;
     Some (OK, ps)
   })"

definition parse_remove :: "parser \<Rightarrow> (int \<times> parser) option" where
  "parse_remove ps = do {
     ps \<leftarrow> NEXT ps;
     (let t = TOKEN ps in if t \<notin> {T_ATTRIBUTE, T_FROM, T_INDEX, T_RELATION} then Some (SYNTAX_ERROR, ps) else do {
        (r, ps) \<leftarrow> (if t = T_ATTRIBUTE then parse_remove_attribute ps else if t = T_FROM then parse_remove_from ps
          else if t = T_INDEX then parse_remove_index ps else parse_remove_relation ps);
        (if AQL_ERROR r then Some (SYNTAX_ERROR, ps) else CONSUME T_END ps (\<lambda>ps. Some (OK, ps)))
      })
   }"

definition parse_index_type :: "parser \<Rightarrow> (token \<times> parser) option" where
  "parse_index_type ps = do {
     ps \<leftarrow> NEXT ps;
     Some (case TOKEN ps of
       T_INLINE \<Rightarrow> (TOKEN ps, AQL_SET_INDEX_TYPE INDEX_INLINE ps)
     | T_MAXHEAP \<Rightarrow> (TOKEN ps, AQL_SET_INDEX_TYPE INDEX_MAXHEAP ps)
     | T_MEMHASH \<Rightarrow> (TOKEN ps, AQL_SET_INDEX_TYPE INDEX_MEMHASH ps)
     | _ \<Rightarrow> (T_NONE, ps))
   }"

definition parse_create_index :: "parser \<Rightarrow> (int \<times> parser) option" where
  "parse_create_index ps = CONSUME IDENTIFIER (AQL_SET_TYPE AQL_TYPE_CREATE_INDEX ps) (\<lambda>ps. do {
     ps \<leftarrow> AQL_ADD_RELATION (VALUE ps) ps;
     CONSUME DOT ps (\<lambda>ps. CONSUME IDENTIFIER ps (\<lambda>ps.
       CONSUME T_TYPE (AQL_ADD_ATTRIBUTE (VALUE ps) DOMAIN_UNSPECIFIED 0 ps) (\<lambda>ps. do {
         (t, ps) \<leftarrow> parse_index_type ps;
         Some (if t = T_NONE then SYNTAX_ERROR else OK, ps)
       })))
   })"

definition parse_create_relation :: "parser \<Rightarrow> (int \<times> parser) option" where
  "parse_create_relation ps = CONSUME IDENTIFIER ps (\<lambda>ps. do {
     ps \<leftarrow> AQL_ADD_RELATION (VALUE ps) (AQL_SET_TYPE AQL_TYPE_CREATE_RELATION ps);
     Some (OK, ps)
   })"

text \<open>\<open>NONE\<close>, which is 255, is what \<open>parse_domain\<close> returns for a domain it does not know.\<close>

definition parse_domain :: "string \<Rightarrow> parser \<Rightarrow> (int \<times> parser) option" where
  "parse_domain name ps = do {
     ps \<leftarrow> NEXT ps;
     (if TOKEN ps = T_STRING then
        CONSUME LEFT_PAREN ps (\<lambda>ps. CONSUME INTEGER_VALUE ps (\<lambda>ps. case lx_value (lex ps) of
            Text s \<Rightarrow> None
          | Long n \<Rightarrow> CONSUME RIGHT_PAREN ps (\<lambda>ps. Some (OK, AQL_ADD_ATTRIBUTE name DOMAIN_STRING n ps))))
      else if TOKEN ps = T_LONG then Some (OK, AQL_ADD_ATTRIBUTE name DOMAIN_LONG 4 ps)
      else if TOKEN ps = T_INT then Some (OK, AQL_ADD_ATTRIBUTE name DOMAIN_INT 2 ps)
      else Some (255, ps))
   }"

definition parse_create_attributes :: "parser \<Rightarrow> (int \<times> parser) option" where
  "parse_create_attributes ps = CONSUME IDENTIFIER (AQL_SET_TYPE AQL_TYPE_CREATE_ATTRIBUTE ps) (\<lambda>ps.
     let name = take (ATTRIBUTE_NAME_LENGTH - 1) (VALUE ps) in
     CONSUME T_DOMAIN ps (\<lambda>ps. do {
       (r, ps) \<leftarrow> parse_domain name ps;
       (if AQL_ERROR r then Some (r, ps) else CONSUME T_IN ps (\<lambda>ps. CONSUME IDENTIFIER ps (\<lambda>ps. do {
          ps \<leftarrow> AQL_ADD_RELATION (VALUE ps) ps;
          Some (OK, ps)
        })))
     }))"

definition parse_create :: "parser \<Rightarrow> (int \<times> parser) option" where
  "parse_create ps = do {
     ps \<leftarrow> NEXT ps;
     (let t = TOKEN ps in if t \<notin> {T_ATTRIBUTE, T_INDEX, T_RELATION} then Some (SYNTAX_ERROR, ps) else do {
        (r, ps) \<leftarrow> (if t = T_ATTRIBUTE then parse_create_attributes ps else if t = T_INDEX then parse_create_index ps
          else parse_create_relation ps);
        (if AQL_ERROR r then Some (SYNTAX_ERROR, ps) else CONSUME T_END ps (\<lambda>ps. Some (OK, ps)))
      })
   }"

text \<open>
  A query. What \<open>lexer_next\<close> returns is a status, too, and the status of an empty
  query or one that is a semicolon; as an unsigned enumeration, its \<open>-1\<close> is an error.
\<close>

definition aql_parse :: "string \<Rightarrow> parser \<Rightarrow> (int \<times> parser) option" where
  "aql_parse text ps = do {
     let ps = (AQL_SET_CONDITION False (aql_clear ps))\<lparr>lex := lexer_start text\<rparr>;
     (r, lx) \<leftarrow> lexer_next (lex ps);
     let ps = ps\<lparr>lex := lx\<rparr>;
     let t = TOKEN ps;
     (if r < 0 then Some (2 ^ 32 - 1, ps)
      else if t = IDENTIFIER then do {
        ps \<leftarrow> AQL_ADD_RELATION (VALUE ps) ps;
        ps \<leftarrow> NEXT (AQL_SET_FLAG AQL_FLAG_ASSIGN ps);
        (if TOKEN ps \<noteq> ASSIGN then Some (SYNTAX_ERROR, ps) else do {
           ps \<leftarrow> NEXT ps;
           (if TOKEN ps = T_SELECT then parse_select ps else if TOKEN ps = T_JOIN then parse_join ps else Some (SYNTAX_ERROR, ps))
         })
      }
      else if t = T_JOIN then parse_join ps
      else if t = T_CREATE then parse_create ps
      else if t = T_REMOVE then parse_remove ps
      else if t = T_INSERT then parse_insert ps
      else if t = T_SELECT then parse_select ps
      else if t = T_NONE \<or> t = COMMENT then Some (OK, ps)
      else if t = T_END then Some (r, ps)
      else Some (SYNTAX_ERROR, ps))
   }"

end
