(* ===== verification/LvmCorrect.thy ===== *)
theory LvmCorrect
  imports Lvm
begin

text \<open>
  Conditions as trees, the calls that write their code, and their meaning: the
  machine computes the meaning, and the ranges it derives are sound where they
  can be.
\<close>

section \<open>Conditions\<close>

datatype aop = Add | Sub | Mul | Div
datatype rop = Eq | Neq | Ge | Geq | Le | Leq

text \<open>A variable comes with the bytes that its operand does not set.\<close>

datatype expr = Const u32 | Var u32 string | Arith aop expr expr
datatype condition = Rel rop expr expr | And condition condition | Or condition condition | Not condition

primrec aop_code :: "aop \<Rightarrow> u32" where
  "aop_code Add = LVM_ADD" | "aop_code Sub = LVM_SUB" | "aop_code Mul = LVM_MUL" | "aop_code Div = LVM_DIV"

primrec rop_code :: "rop \<Rightarrow> u32" where
  "rop_code Eq = LVM_EQ" | "rop_code Neq = LVM_NEQ" | "rop_code Ge = LVM_GE" | "rop_code Geq = LVM_GEQ" | "rop_code Le = LVM_LE" | "rop_code Leq = LVM_LEQ"

primrec cond_code :: "condition \<Rightarrow> u32" where
  "cond_code (Rel op a b) = rop_code op" | "cond_code (And c d) = LVM_AND" | "cond_code (Or c d) = LVM_OR" | "cond_code (Not c) = LVM_NOT"

text \<open>The calls for a tree, as the query compiler makes them.\<close>

primrec emit_expr :: "lvm \<Rightarrow> expr \<Rightarrow> lvm_instance \<Rightarrow> lvm_instance option" where
  "emit_expr s (Const l) p = lvm_set_long l p"
| "emit_expr s (Var junk x) p = lvm_set_variable junk x s p"
| "emit_expr s (Arith op a b) p = do { p \<leftarrow> lvm_set_op (aop_code op) p; p \<leftarrow> emit_expr s a p; emit_expr s b p }"

primrec emit_cond :: "lvm \<Rightarrow> condition \<Rightarrow> lvm_instance \<Rightarrow> lvm_instance option" where
  "emit_cond s (Rel op a b) p = do { p \<leftarrow> lvm_set_relation (rop_code op) p; p \<leftarrow> emit_expr s a p; emit_expr s b p }"
| "emit_cond s (And c d) p = do { p \<leftarrow> lvm_set_relation LVM_AND p; p \<leftarrow> emit_cond s c p; emit_cond s d p }"
| "emit_cond s (Or c d) p = do { p \<leftarrow> lvm_set_relation LVM_OR p; p \<leftarrow> emit_cond s c p; emit_cond s d p }"
| "emit_cond s (Not c) p = do { p \<leftarrow> lvm_set_relation LVM_NOT p; emit_cond s c p }"

text \<open>The meaning. \<^term>\<open>None\<close> is a result that does not fit in a \<open>long\<close>, or a variable that the tables have no room for.\<close>

primrec sem_aop :: "aop \<Rightarrow> int \<Rightarrow> int \<Rightarrow> int result option" where
  "sem_aop Add a b = map_option Inr (long (a + b))"
| "sem_aop Sub a b = map_option Inr (long (a - b))"
| "sem_aop Mul a b = map_option Inr (long (a * b))"
| "sem_aop Div a b = (if b = 0 then Some (Inl MATH_ERROR) else map_option Inr (long (a sdiv b)))"

primrec sem_rop :: "rop \<Rightarrow> int \<Rightarrow> int \<Rightarrow> bool" where
  "sem_rop Eq a b = (a = b)" | "sem_rop Neq a b = (a \<noteq> b)" | "sem_rop Ge a b = (a > b)" | "sem_rop Geq a b = (a \<ge> b)"
| "sem_rop Le a b = (a < b)" | "sem_rop Leq a b = (a \<le> b)"

definition both :: "('a \<Rightarrow> 'b \<Rightarrow> 'c result option) \<Rightarrow> 'a result option \<Rightarrow> 'b result option \<Rightarrow> 'c result option" where
  "both f r r' = Option.bind r (\<lambda>r. case r of Inl e \<Rightarrow> Some (Inl e) | Inr a \<Rightarrow>
     Option.bind r' (\<lambda>r'. case r' of Inl e \<Rightarrow> Some (Inl e) | Inr b \<Rightarrow> f a b))"

primrec sem_expr :: "lvm \<Rightarrow> expr \<Rightarrow> int result option" where
  "sem_expr s (Const l) = Some (Inr (sint l))"
| "sem_expr s (Var junk x) = map_option (\<lambda>i. Inr (sint (var_value (variables s ! i)))) (lookup s x)"
| "sem_expr s (Arith op a b) = both (sem_aop op) (sem_expr s a) (sem_expr s b)"

primrec sem_cond :: "lvm \<Rightarrow> condition \<Rightarrow> bool result option" where
  "sem_cond s (Rel op a b) = both (\<lambda>x y. Some (Inr (sem_rop op x y))) (sem_expr s a) (sem_expr s b)"
| "sem_cond s (And c d) = both (\<lambda>x y. Some (Inr (x \<and> y))) (sem_cond s c) (sem_cond s d)"
| "sem_cond s (Or c d) = both (\<lambda>x y. Some (Inr (x \<or> y))) (sem_cond s c) (sem_cond s d)"
| "sem_cond s (Not c) = map_option (map_sum id HOL.Not) (sem_cond s c)"

section \<open>The code\<close>

lemma length_le32 [simp]: "length (le32 w) = 4"
  by (simp add: le32_def)

lemma of_le32_le32 [simp]: "of_le32 (le32 w) = w"
proof (rule bit_word_eqI)
  fix n assume "n < LENGTH(32)"
  then consider "n < 8" | "8 \<le> n" "n - 8 < 8" | "16 \<le> n" "n - 16 < 8" | "24 \<le> n" "n - 24 < 8" "n < 32" by fastforce
  then show "bit (of_le32 (le32 w)) n = bit w n"
    by cases (auto simp: of_le32_def le32_def bit_ops)
qed

text \<open>A value in the byte with the identifier.\<close>

definition id_value :: "u32 \<Rightarrow> nat \<Rightarrow> u32" where
  "id_value junk i = (junk AND 0xffffff00) OR of_nat i"

lemma value_id_value: "i < 256 \<Longrightarrow> unat (value_id (id_value junk i)) = i"
proof -
  assume "i < 256"
  have "(ucast ((x AND y) OR z) :: u8) = (ucast x AND ucast y) OR ucast z" for x y z :: u32 by (rule bit_word_eqI) (auto simp: bit_ops)
  moreover have "ucast (0xffffff00 :: u32) = (0 :: u8)" by code_simp
  ultimately have "value_id (id_value junk i) = ucast (of_nat i :: u32)" by (simp only: value_id_def id_value_def and_zero_eq or.left_neutral)
  then show ?thesis using \<open>i < 256\<close> by (simp add: unsigned_ucast_eq unat_of_nat take_bit_nat_eq_self)
qed

definition enc_operand :: "u32 \<Rightarrow> u32 \<Rightarrow> u8 list" where
  "enc_operand t v = le32 LVM_OPERAND @ le32 t @ le32 v"

primrec enc_expr :: "lvm \<Rightarrow> expr \<Rightarrow> u8 list option" where
  "enc_expr s (Const l) = Some (enc_operand LVM_LONG l)"
| "enc_expr s (Var junk x) = map_option (\<lambda>i. enc_operand LVM_VARIABLE (id_value junk i)) (lookup s x)"
| "enc_expr s (Arith op a b) = do { x \<leftarrow> enc_expr s a; y \<leftarrow> enc_expr s b; Some (le32 LVM_ARITH_OP @ le32 (aop_code op) @ x @ y) }"

primrec enc_cond :: "lvm \<Rightarrow> condition \<Rightarrow> u8 list option" where
  "enc_cond s (Rel op a b) = do { x \<leftarrow> enc_expr s a; y \<leftarrow> enc_expr s b; Some (le32 LVM_CMP_OP @ le32 (rop_code op) @ x @ y) }"
| "enc_cond s (And c d) = do { x \<leftarrow> enc_cond s c; y \<leftarrow> enc_cond s d; Some (le32 LVM_CMP_OP @ le32 LVM_AND @ x @ y) }"
| "enc_cond s (Or c d) = do { x \<leftarrow> enc_cond s c; y \<leftarrow> enc_cond s d; Some (le32 LVM_CMP_OP @ le32 LVM_OR @ x @ y) }"
| "enc_cond s (Not c) = do { x \<leftarrow> enc_cond s c; Some (le32 LVM_CMP_OP @ le32 LVM_NOT @ x) }"

text \<open>\<open>p'\<close> is \<open>p\<close> with the bytes \<open>bs\<close> written behind the code.\<close>

definition appended :: "u8 list \<Rightarrow> lvm_instance \<Rightarrow> lvm_instance \<Rightarrow> bool" where
  "appended bs p p' \<longleftrightarrow> cend p' = cend p + length bs \<and> cend p' \<le> length (code p) \<and> cip p' = cip p \<and> csize p' = csize p \<and>
     code p' = take (cend p) (code p) @ bs @ drop (cend p') (code p)"

lemma appended_append_code: "append_code bs p = Some p' \<Longrightarrow> appended bs p p'"
  by (auto simp: append_code_def write_bytes_def appended_def bind_eq_Some_conv split: if_splits)

lemma appended_trans: "appended as p q \<Longrightarrow> appended bs q r \<Longrightarrow> appended (as @ bs) p r"
  by (auto simp: appended_def ac_simps)

lemma appended_operator:
  "lvm_set_op op p = Some p' \<Longrightarrow> appended (le32 LVM_ARITH_OP @ le32 op) p p'"
  "lvm_set_relation op p = Some p' \<Longrightarrow> appended (le32 LVM_CMP_OP @ le32 op) p p'"
  by (auto simp: lvm_set_op_def lvm_set_relation_def lvm_set_type_def bind_eq_Some_conv intro: appended_trans dest!: appended_append_code)

lemma appended_operand: "lvm_set_operand op p = Some p' \<Longrightarrow> appended (enc_operand (op_type op) (op_value op)) p p'"
  by (auto simp: lvm_set_operand_def lvm_set_type_def enc_operand_def bind_eq_Some_conv intro: appended_trans dest!: appended_append_code)

definition lvm_ok :: "lvm \<Rightarrow> bool" where
  "lvm_ok s \<longleftrightarrow> length (variables s) = LVM_MAX_VARIABLE_ID - 1"

lemma lookup_from_less: "lookup_from vs i x = Some j \<Longrightarrow> i + length vs = 3 \<Longrightarrow> i \<le> j \<and> j < 3"
  by (induction vs arbitrary: i) (fastforce simp: LVM_MAX_VARIABLE_ID_def split: if_splits)+

lemma lookup_less: "lvm_ok s \<Longrightarrow> lookup s x = Some i \<Longrightarrow> i < 3"
  using lookup_from_less [of "variables s" 0 x i] by (simp add: lvm_ok_def lookup_def LVM_MAX_VARIABLE_ID_def)

lemma emit_expr_enc:
  "lvm_ok s \<Longrightarrow> emit_expr s e p = Some p' \<Longrightarrow> \<exists>bs. enc_expr s e = Some bs \<and> appended bs p p'"
proof (induction e arbitrary: p p')
  case (Const l)
  then show ?case using appended_operand [of "\<lparr>op_type = LVM_LONG, op_value = l\<rparr>" p p'] by (simp add: lvm_set_long_def)
next
  case (Var junk x)
  then obtain i where i: "lookup s x = Some i" by (auto simp: lvm_set_variable_def bind_eq_Some_conv)
  have "i < LVM_MAX_VARIABLE_ID" using lookup_less [OF Var.prems(1) i] by (simp add: LVM_MAX_VARIABLE_ID_def)
  then show ?case
    using Var.prems i appended_operand [of "\<lparr>op_type = LVM_VARIABLE, op_value = id_value junk i\<rparr>" p p']
    by (simp add: lvm_set_variable_def id_value_def)
next
  case (Arith op a b)
  obtain q r where e: "lvm_set_op (aop_code op) p = Some q" "emit_expr s a q = Some r" "emit_expr s b r = Some p'"
    using Arith.prems(2) by (auto simp: bind_eq_Some_conv)
  obtain x y where "enc_expr s a = Some x" "appended x q r" "enc_expr s b = Some y" "appended y r p'"
    using Arith.IH(1) [OF Arith.prems(1) e(2)] Arith.IH(2) [OF Arith.prems(1) e(3)] by blast
  then show ?case using appended_trans [OF appended_trans [OF appended_operator(1) [OF e(1)]]] by auto
qed

lemma emit_cond_enc:
  "lvm_ok s \<Longrightarrow> emit_cond s c p = Some p' \<Longrightarrow> \<exists>bs. enc_cond s c = Some bs \<and> appended bs p p'"
proof (induction c arbitrary: p p')
  case (Rel op a b)
  obtain q r where e: "lvm_set_relation (rop_code op) p = Some q" "emit_expr s a q = Some r" "emit_expr s b r = Some p'"
    using Rel.prems(2) by (auto simp: bind_eq_Some_conv)
  obtain x y where "enc_expr s a = Some x" "appended x q r" "enc_expr s b = Some y" "appended y r p'"
    using emit_expr_enc [OF Rel.prems(1) e(2)] emit_expr_enc [OF Rel.prems(1) e(3)] by blast
  then show ?case using appended_trans [OF appended_trans [OF appended_operator(2) [OF e(1)]]] by auto
next
  case (And c d)
  obtain q r where e: "lvm_set_relation LVM_AND p = Some q" "emit_cond s c q = Some r" "emit_cond s d r = Some p'"
    using And.prems(2) by (auto simp: bind_eq_Some_conv)
  obtain x y where "enc_cond s c = Some x" "appended x q r" "enc_cond s d = Some y" "appended y r p'"
    using And.IH(1) [OF And.prems(1) e(2)] And.IH(2) [OF And.prems(1) e(3)] by blast
  then show ?case using appended_trans [OF appended_trans [OF appended_operator(2) [OF e(1)]]] by auto
next
  case (Or c d)
  obtain q r where e: "lvm_set_relation LVM_OR p = Some q" "emit_cond s c q = Some r" "emit_cond s d r = Some p'"
    using Or.prems(2) by (auto simp: bind_eq_Some_conv)
  obtain x y where "enc_cond s c = Some x" "appended x q r" "enc_cond s d = Some y" "appended y r p'"
    using Or.IH(1) [OF Or.prems(1) e(2)] Or.IH(2) [OF Or.prems(1) e(3)] by blast
  then show ?case using appended_trans [OF appended_trans [OF appended_operator(2) [OF e(1)]]] by auto
next
  case (Not c)
  obtain q where e: "lvm_set_relation LVM_NOT p = Some q" "emit_cond s c q = Some p'"
    using Not.prems(2) by (auto simp: bind_eq_Some_conv)
  obtain x where "enc_cond s c = Some x" "appended x q p'" using Not.IH [OF Not.prems(1) e(2)] by blast
  then show ?case using appended_trans [OF appended_operator(2) [OF e(1)]] by auto
qed

section \<open>Execution\<close>

lemma get32_le32 [simp]: "get32 (pre @ le32 w @ post) (length pre) = Some (w, length pre + 4)"
  by (simp add: get32_def read_bytes_def)

lemma get32_here: "length pre = ip \<Longrightarrow> get32 (pre @ le32 w @ post) ip = Some (w, ip + 4)"
  by auto

lemma get_operand_here:
  assumes "length pre = ip"
  shows "get_type (pre @ enc_operand t v @ post) ip = Some (LVM_OPERAND, ip + 4)"
    and "get_operand (pre @ enc_operand t v @ post) (ip + 4) = Some (\<lparr>op_type = t, op_value = v\<rparr>, ip + 12)"
proof -
  show "get_type (pre @ enc_operand t v @ post) ip = Some (LVM_OPERAND, ip + 4)"
    using get32_here [OF assms, of LVM_OPERAND "le32 t @ le32 v @ post"] by (simp add: get_type_def enc_operand_def)
  have "get32 ((pre @ le32 LVM_OPERAND) @ le32 t @ le32 v @ post) (ip + 4) = Some (t, ip + 8)"
    using assms get32_here [of "pre @ le32 LVM_OPERAND" "ip + 4" t "le32 v @ post"] by simp
  moreover have "get32 ((pre @ le32 LVM_OPERAND @ le32 t) @ le32 v @ post) (ip + 8) = Some (v, ip + 12)"
    using assms get32_here [of "pre @ le32 LVM_OPERAND @ le32 t" "ip + 8" v post] by simp
  ultimately show "get_operand (pre @ enc_operand t v @ post) (ip + 4) = Some (\<lparr>op_type = t, op_value = v\<rparr>, ip + 12)"
    by (simp add: get_operand_def enc_operand_def)
qed

lemma get_head:
  assumes "length pre = ip"
  shows "get_type (pre @ le32 t @ le32 op @ post) ip = Some (t, ip + 4)"
    and "get_operator (pre @ le32 t @ le32 op @ post) (ip + 4) = Some (op, ip + 8)"
  using get32_here [OF assms, of t "le32 op @ post"] get32_here [of "pre @ le32 t" "ip + 4" op post] assms
  by (simp_all add: get_type_def get_operator_def)

text \<open>The loop over two arguments, as both evaluators have it.\<close>

definition two_args :: "lvm \<Rightarrow> u8 list \<Rightarrow> nat \<Rightarrow> (int \<Rightarrow> int \<Rightarrow> nat \<Rightarrow> ('a result \<times> nat) option) \<Rightarrow> ('a result \<times> nat) option" where
  "two_args s c ip k = do {
     (r, ip) \<leftarrow> eval_arg s c ip;
     (case r of
        Inl e \<Rightarrow> Some (Inl e, ip)
      | Inr operand \<Rightarrow> do {
          v0 \<leftarrow> operand_to_long s operand;
          (r, ip) \<leftarrow> eval_arg s c ip;
          (case r of
             Inl e \<Rightarrow> Some (Inl e, ip)
           | Inr operand \<Rightarrow> do { v1 \<leftarrow> operand_to_long s operand; k v0 v1 ip })
        })
   }"

lemma eval_expr_args: "eval_expr s c op ip = two_args s c ip (\<lambda>v0 v1 ip. do {
     r \<leftarrow> arith op v0 v1; Some (map_sum id (\<lambda>v. \<lparr>op_type = LVM_LONG, op_value = word_of_int v\<rparr>) r, ip) })"
  unfolding two_args_def eval_arg_def by (subst eval_expr.simps) (simp only: split_def Option.bind_assoc)

lemma eval_logic_args: "\<not> IS_CONNECTIVE op \<Longrightarrow> eval_logic s c op ip = two_args s c ip (\<lambda>v0 v1 ip. Some (compare_longs op v0 v1, ip))"
  unfolding two_args_def by (subst eval_logic.simps) simp

text \<open>What the evaluation of an argument gives when its meaning is \<open>r\<close> and its code ends at \<open>ip\<close>.\<close>

fun arg_result :: "lvm \<Rightarrow> (operand result \<times> nat) option \<Rightarrow> nat \<Rightarrow> int result option \<Rightarrow> bool" where
  "arg_result s e ip None \<longleftrightarrow> e = None \<or> (\<exists>o1 ip. e = Some (Inr o1, ip) \<and> operand_to_long s o1 = None)"
| "arg_result s e ip (Some (Inl err)) \<longleftrightarrow> (\<exists>ip. e = Some (Inl err, ip))"
| "arg_result s e ip (Some (Inr v)) \<longleftrightarrow> (\<exists>o1. e = Some (Inr o1, ip) \<and> operand_to_long s o1 = Some v)"

lemma two_args_result:
  assumes "arg_result s (eval_arg s c ip) ip1 r0" and "arg_result s (eval_arg s c ip1) ip2 r1"
  shows "\<exists>j. two_args s c ip k = Option.bind r0 (\<lambda>r0. case r0 of Inl e \<Rightarrow> Some (Inl e, j) | Inr a \<Rightarrow>
    Option.bind r1 (\<lambda>r1. case r1 of Inl e \<Rightarrow> Some (Inl e, j) | Inr b \<Rightarrow> k a b ip2))"
proof (cases r0)
  case None
  then show ?thesis using assms(1) by (auto simp: two_args_def)
next
  case (Some r)
  show ?thesis
  proof (cases r)
    case (Inl e)
    then show ?thesis using assms(1) Some by (auto simp: two_args_def)
  next
    case (Inr a)
    then obtain o1 where o: "eval_arg s c ip = Some (Inr o1, ip1)" "operand_to_long s o1 = Some a" using assms(1) Some by auto
    show ?thesis
    proof (cases r1)
      case None
      then show ?thesis using assms(2) Some Inr o by (auto simp: two_args_def)
    next
      case s: (Some r')
      then show ?thesis using assms(2) Some Inr o by (cases r') (auto simp: two_args_def)
    qed
  qed
qed

lemmas lvm_consts = LVM_ARITH_OP_def LVM_OPERAND_def LVM_CMP_OP_def LVM_CONNECTIVE_def LVM_ADD_def LVM_SUB_def LVM_MUL_def LVM_DIV_def
  LVM_EQ_def LVM_NEQ_def LVM_GE_def LVM_GEQ_def LVM_LE_def LVM_LEQ_def LVM_AND_def LVM_OR_def LVM_NOT_def LVM_VARIABLE_def LVM_LONG_def

lemma arith_sem: "arith (aop_code op) a b = sem_aop op a b"
  by (cases op) (simp_all add: arith_def lvm_consts)

lemma compare_sem: "compare_longs (rop_code op) a b = Inr (sem_rop op a b)"
  by (cases op) (simp_all add: compare_longs_def lvm_consts)

lemma connectives: "IS_CONNECTIVE LVM_AND" "IS_CONNECTIVE LVM_OR" "IS_CONNECTIVE LVM_NOT" "\<not> IS_CONNECTIVE (rop_code op)"
  by (simp_all add: IS_CONNECTIVE_def lvm_consts) (cases op; simp add: lvm_consts)

lemma long_sint: "long x = Some v \<Longrightarrow> sint (word_of_int v :: u32) = v"
  by (auto simp: long_def LONG_MIN_def LONG_MAX_def signed_of_int intro!: signed_take_bit_int_eq_self split: if_splits)

lemma sem_aop_long: "sem_aop op a b = Some (Inr v) \<Longrightarrow> sint (word_of_int v :: u32) = v"
  by (cases op) (auto simp: long_sint split: if_splits)

lemma sem_aop_result:
  "arg_result s (Option.bind (sem_aop op a b) (\<lambda>r. Some (map_sum id (\<lambda>v. \<lparr>op_type = LVM_LONG, op_value = word_of_int v\<rparr>) r, ip))) ip (sem_aop op a b)"
proof (cases "sem_aop op a b")
  case (Some r)
  then show ?thesis by (cases r) (simp_all add: operand_to_long_def value_l_def sem_aop_long)
qed simp

lemma eval_arg_correct:
  assumes "lvm_ok s" and "enc_expr s e = Some bs" and "length pre = ip"
  shows "arg_result s (eval_arg s (pre @ bs @ post) ip) (ip + length bs) (sem_expr s e)"
  using assms(2,3)
proof (induction e arbitrary: bs pre ip post)
  case (Const l)
  then show ?case
    using get_operand_here [OF Const.prems(2), of LVM_LONG l post]
    by (auto simp: eval_arg_def lvm_consts operand_to_long_def value_l_def enc_operand_def)
next
  case (Var junk x)
  then obtain i where i: "lookup s x = Some i" "bs = enc_operand LVM_VARIABLE (id_value junk i)" by auto
  have "i < 3" "unat (value_id (id_value junk i)) = i" using lookup_less [OF assms(1) i(1)] value_id_value [of i junk] by simp_all
  then show ?case
    using get_operand_here [OF Var.prems(2), of LVM_VARIABLE "id_value junk i" post] i assms(1)
    by (simp add: eval_arg_def lvm_consts operand_to_long_def value_l_def enc_operand_def lvm_ok_def LVM_MAX_VARIABLE_ID_def)
next
  case (Arith op a b)
  then obtain x y where xy: "enc_expr s a = Some x" "enc_expr s b = Some y" "bs = le32 LVM_ARITH_OP @ le32 (aop_code op) @ x @ y"
    by (auto simp: bind_eq_Some_conv)
  let ?c = "pre @ bs @ post"
  have h: "get_type ?c ip = Some (LVM_ARITH_OP, ip + 4)" "get_operator ?c (ip + 4) = Some (aop_code op, ip + 8)"
    using get_head [OF Arith.prems(2), of LVM_ARITH_OP "aop_code op" "x @ y @ post"] by (simp_all add: xy(3))
  have ra: "arg_result s (eval_arg s ?c (ip + 8)) (ip + 8 + length x) (sem_expr s a)"
    using Arith.IH(1) [OF xy(1), of "pre @ le32 LVM_ARITH_OP @ le32 (aop_code op)" "ip + 8" "y @ post"] Arith.prems(2) by (simp add: xy(3))
  have rb: "arg_result s (eval_arg s ?c (ip + 8 + length x)) (ip + length bs) (sem_expr s b)"
    using Arith.IH(2) [OF xy(2), of "pre @ le32 LVM_ARITH_OP @ le32 (aop_code op) @ x" "ip + 8 + length x" post] Arith.prems(2) by (simp add: xy(3) ac_simps)
  let ?k = "\<lambda>v0 v1 ip. Option.bind (arith (aop_code op) v0 v1) (\<lambda>r. Some (map_sum id (\<lambda>v. \<lparr>op_type = LVM_LONG, op_value = word_of_int v\<rparr>) r, ip))"
  obtain j where j: "eval_expr s ?c (aop_code op) (ip + 8) = Option.bind (sem_expr s a) (\<lambda>r0. case r0 of Inl e \<Rightarrow> Some (Inl e, j) | Inr a \<Rightarrow>
    Option.bind (sem_expr s b) (\<lambda>r1. case r1 of Inl e \<Rightarrow> Some (Inl e, j) | Inr b \<Rightarrow> ?k a b (ip + length bs)))"
    using two_args_result [OF ra rb, of ?k] unfolding eval_expr_args by blast
  have e: "eval_arg s ?c ip = eval_expr s ?c (aop_code op) (ip + 8)" by (simp add: eval_arg_def h)
  show ?case
    unfolding e j
    by (cases "sem_expr s a"; cases "sem_expr s b"; cases "the (sem_expr s a)"; cases "the (sem_expr s b)";
      (simp add: both_def arith_sem; (rule sem_aop_result)?))
qed

fun logic_result :: "(bool result \<times> nat) option \<Rightarrow> nat \<Rightarrow> bool result option \<Rightarrow> bool" where
  "logic_result e ip None \<longleftrightarrow> e = None"
| "logic_result e ip (Some (Inl err)) \<longleftrightarrow> (\<exists>ip. e = Some (Inl err, ip))"
| "logic_result e ip (Some (Inr b)) \<longleftrightarrow> e = Some (Inr b, ip)"

lemma enc_cond_head:
  "enc_cond s c = Some bs \<Longrightarrow> \<exists>x. bs = le32 LVM_CMP_OP @ le32 (cond_code c) @ x"
  by (cases c) (auto simp: bind_eq_Some_conv)

lemma enc_cond_heads:
  assumes "enc_cond s c = Some bs" and "length pre = ip"
  shows "get_type (pre @ bs @ post) ip = Some (LVM_CMP_OP, ip + 4)" "get_operator (pre @ bs @ post) (ip + 4) = Some (cond_code c, ip + 8)"
  using enc_cond_head [OF assms(1)] get_head [OF assms(2), of LVM_CMP_OP "cond_code c"] by auto

text \<open>A connective with two arguments.\<close>

lemma eval_connective:
  assumes "logic_result (eval_logic s c op0 (ip + 8)) ip1 r0" "logic_result (eval_logic s c op1 (ip1 + 8)) ip2 r1"
    and "get_type c ip = Some (LVM_CMP_OP, ip + 4)" "get_operator c (ip + 4) = Some (op0, ip + 8)"
    and "get_type c ip1 = Some (LVM_CMP_OP, ip1 + 4)" "get_operator c (ip1 + 4) = Some (op1, ip1 + 8)"
    and "op = LVM_AND \<or> op = LVM_OR"
  shows "logic_result (eval_logic s c op ip) ip2 (both (\<lambda>x y. Some (Inr (if op = LVM_AND then x \<and> y else x \<or> y))) r0 r1)"
proof -
  have op: "IS_CONNECTIVE op" "op \<noteq> LVM_NOT" using assms(7) connectives by (auto simp: lvm_consts)
  note e = eval_logic.simps [of s c op ip] op assms(3-6) both_def
  show ?thesis
  proof (cases r0)
    case None
    then show ?thesis using assms(1) by (simp add: e)
  next
    case r: (Some r)
    show ?thesis
    proof (cases r)
      case (Inl err)
      then show ?thesis using assms(1) r by (auto simp: e)
    next
      case (Inr b)
      then have 0: "eval_logic s c op0 (ip + 8) = Some (Inr b, ip1)" using assms(1) r by simp
      show ?thesis
      proof (cases r1)
        case None
        then show ?thesis using assms(2) r Inr 0 by (simp add: e)
      next
        case (Some r')
        then show ?thesis using assms(2) r Inr 0 by (cases r') (auto simp: e)
      qed
    qed
  qed
qed

lemma eval_logic_correct:
  assumes "lvm_ok s" and "enc_cond s c = Some bs" and "length pre = ip"
  shows "logic_result (eval_logic s (pre @ bs @ post) (cond_code c) (ip + 8)) (ip + length bs) (sem_cond s c)"
  using assms(2,3)
proof (induction c arbitrary: bs pre ip post)
  case (Rel op a b)
  then obtain x y where xy: "enc_expr s a = Some x" "enc_expr s b = Some y" "bs = le32 LVM_CMP_OP @ le32 (rop_code op) @ x @ y"
    by (auto simp: bind_eq_Some_conv)
  let ?c = "pre @ bs @ post"
  have ra: "arg_result s (eval_arg s ?c (ip + 8)) (ip + 8 + length x) (sem_expr s a)"
    using eval_arg_correct [OF assms(1) xy(1), of "pre @ le32 LVM_CMP_OP @ le32 (rop_code op)" "ip + 8" "y @ post"] Rel.prems(2) by (simp add: xy(3))
  have rb: "arg_result s (eval_arg s ?c (ip + 8 + length x)) (ip + length bs) (sem_expr s b)"
    using eval_arg_correct [OF assms(1) xy(2), of "pre @ le32 LVM_CMP_OP @ le32 (rop_code op) @ x" "ip + 8 + length x" post] Rel.prems(2)
    by (simp add: xy(3) ac_simps)
  obtain j where "eval_logic s ?c (rop_code op) (ip + 8) = Option.bind (sem_expr s a) (\<lambda>r0. case r0 of Inl e \<Rightarrow> Some (Inl e, j) | Inr a \<Rightarrow>
    Option.bind (sem_expr s b) (\<lambda>r1. case r1 of Inl e \<Rightarrow> Some (Inl e, j) | Inr b \<Rightarrow> Some (compare_longs (rop_code op) a b, ip + length bs)))"
    using two_args_result [OF ra rb, of "\<lambda>v0 v1 ip. Some (compare_longs (rop_code op) v0 v1, ip)"] unfolding eval_logic_args [OF connectives(4)] by blast
  then show ?case
    by (cases "sem_expr s a"; cases "sem_expr s b"; cases "the (sem_expr s a)"; cases "the (sem_expr s b)"; simp add: both_def compare_sem)
next
  case (And c d)
  then obtain x y where xy: "enc_cond s c = Some x" "enc_cond s d = Some y" "bs = le32 LVM_CMP_OP @ le32 LVM_AND @ x @ y"
    by (auto simp: bind_eq_Some_conv)
  have "logic_result (eval_logic s (pre @ bs @ post) LVM_AND (ip + 8)) (ip + length bs)
      (both (\<lambda>x y. Some (Inr (if LVM_AND = LVM_AND then x \<and> y else x \<or> y))) (sem_cond s c) (sem_cond s d))"
    using And.IH(1) [OF xy(1), of "pre @ le32 LVM_CMP_OP @ le32 LVM_AND" "ip + 8" "y @ post"]
      And.IH(2) [OF xy(2), of "pre @ le32 LVM_CMP_OP @ le32 LVM_AND @ x" "ip + 8 + length x" post]
      enc_cond_heads [OF xy(1), of "pre @ le32 LVM_CMP_OP @ le32 LVM_AND" "ip + 8" "y @ post"]
      enc_cond_heads [OF xy(2), of "pre @ le32 LVM_CMP_OP @ le32 LVM_AND @ x" "ip + 8 + length x" post] And.prems(2)
    by (intro eval_connective [of s _ "cond_code c" "ip + 8" "ip + 8 + length x" _ "cond_code d"]) (simp_all add: xy(3) ac_simps)
  then show ?case by simp
next
  case (Or c d)
  then obtain x y where xy: "enc_cond s c = Some x" "enc_cond s d = Some y" "bs = le32 LVM_CMP_OP @ le32 LVM_OR @ x @ y"
    by (auto simp: bind_eq_Some_conv)
  have "logic_result (eval_logic s (pre @ bs @ post) LVM_OR (ip + 8)) (ip + length bs)
      (both (\<lambda>x y. Some (Inr (if LVM_OR = LVM_AND then x \<and> y else x \<or> y))) (sem_cond s c) (sem_cond s d))"
    using Or.IH(1) [OF xy(1), of "pre @ le32 LVM_CMP_OP @ le32 LVM_OR" "ip + 8" "y @ post"]
      Or.IH(2) [OF xy(2), of "pre @ le32 LVM_CMP_OP @ le32 LVM_OR @ x" "ip + 8 + length x" post]
      enc_cond_heads [OF xy(1), of "pre @ le32 LVM_CMP_OP @ le32 LVM_OR" "ip + 8" "y @ post"]
      enc_cond_heads [OF xy(2), of "pre @ le32 LVM_CMP_OP @ le32 LVM_OR @ x" "ip + 8 + length x" post] Or.prems(2)
    by (intro eval_connective [of s _ "cond_code c" "ip + 8" "ip + 8 + length x" _ "cond_code d"]) (simp_all add: xy(3) ac_simps)
  then show ?case by (simp add: lvm_consts)
next
  case (Not c)
  then obtain x where x: "enc_cond s c = Some x" "bs = le32 LVM_CMP_OP @ le32 LVM_NOT @ x" by (auto simp: bind_eq_Some_conv)
  let ?c = "pre @ bs @ post"
  have h: "get_type ?c (ip + 8) = Some (LVM_CMP_OP, ip + 12)" "get_operator ?c (ip + 12) = Some (cond_code c, ip + 16)"
    using enc_cond_heads [OF x(1), of "pre @ le32 LVM_CMP_OP @ le32 LVM_NOT" "ip + 8" post] Not.prems(2) by (simp_all add: x(2) ac_simps)
  have "logic_result (eval_logic s ?c (cond_code c) (ip + 16)) (ip + length bs) (sem_cond s c)"
    using Not.IH [OF x(1), of "pre @ le32 LVM_CMP_OP @ le32 LVM_NOT" "ip + 8" post] Not.prems(2) by (simp add: x(2) ac_simps)
  then show ?case
    by (cases "sem_cond s c"; cases "the (sem_cond s c)") (auto simp: eval_logic.simps [of s ?c LVM_NOT] connectives h)
qed

text \<open>Two states with the same variables.\<close>

definition same_variables :: "lvm \<Rightarrow> lvm \<Rightarrow> bool" where
  "same_variables s t \<longleftrightarrow> map var_name (variables s) = map var_name (variables t)"

lemma lookup_from_names: "map var_name vs = map var_name ws \<Longrightarrow> lookup_from vs i x = lookup_from ws i x"
proof (induction vs arbitrary: ws i)
  case (Cons v vs)
  then show ?case by (cases ws) auto
qed simp

lemma same_lookup: "same_variables s t \<Longrightarrow> lookup s = lookup t"
  unfolding same_variables_def lookup_def by (rule ext) (rule lookup_from_names)

lemma same_ok: "same_variables s t \<Longrightarrow> lvm_ok s = lvm_ok t"
  unfolding same_variables_def lvm_ok_def by (metis length_map)

lemma same_enc_expr: "same_variables s t \<Longrightarrow> enc_expr s e = enc_expr t e"
  by (induction e) (simp_all add: same_lookup)

lemma same_enc_cond: "same_variables s t \<Longrightarrow> enc_cond s c = enc_cond t c"
  by (induction c) (simp_all add: same_enc_expr [of s t])

lemma execute_encoded:
  assumes "lvm_ok t" and "enc_cond t c = Some bs" and "code p = bs @ post"
  shows "map_option fst (lvm_execute t p) = sem_cond t c"
proof -
  have h: "get_type (code p) 0 = Some (LVM_CMP_OP, 4)" "get_operator (code p) 4 = Some (cond_code c, 8)"
    using enc_cond_heads [OF assms(2), of "[]" 0 post] by (simp_all add: assms(3))
  have "logic_result (eval_logic t (code p) (cond_code c) 8) (length bs) (sem_cond t c)"
    using eval_logic_correct [OF assms(1,2), of "[]" 0 post] by (simp add: assms(3))
  then show ?thesis
    by (cases "sem_cond t c"; cases "the (sem_cond t c)") (auto simp: lvm_execute_def h)
qed

lemma execute_emitted:
  assumes "lvm_ok s" and "same_variables s t" and "cend p = 0" and "emit_cond s c p = Some p'"
  shows "map_option fst (lvm_execute t p') = sem_cond t c"
proof -
  obtain bs where bs: "enc_cond t c = Some bs" "code p' = bs @ drop (cend p') (code p)"
    using emit_cond_enc [OF assms(1,4)] assms(2,3) by (auto simp: appended_def same_enc_cond)
  have "lvm_ok t" using assms(1,2) same_ok by blast
  then show ?thesis using bs by (rule execute_encoded)
qed

lemma both_error:
  "both f r r' = Some (Inl e) \<Longrightarrow> r = Some (Inl e) \<or> r' = Some (Inl e) \<or> (\<exists>a b. f a b = Some (Inl e))"
  by (cases r; cases r'; cases "the r"; cases "the r'") (auto simp: both_def)

lemma both_result:
  "both f r r' = Some (Inr z) \<longleftrightarrow> (\<exists>a b. r = Some (Inr a) \<and> r' = Some (Inr b) \<and> f a b = Some (Inr z))"
  by (cases r; cases r'; cases "the r"; cases "the r'") (auto simp: both_def)

lemma sem_aop_error: "sem_aop op a b = Some (Inl err) \<Longrightarrow> err = MATH_ERROR"
  by (cases op) (auto split: if_splits)

lemma sem_expr_error: "sem_expr s e = Some (Inl err) \<Longrightarrow> err = MATH_ERROR"
  by (induction e arbitrary: err) (auto dest!: both_error dest: sem_aop_error)

lemma sem_cond_error: "sem_cond s c = Some (Inl err) \<Longrightarrow> err = MATH_ERROR"
proof (induction c arbitrary: err)
  case (Not c)
  then obtain r where "sem_cond s c = Some r" "map_sum id HOL.Not r = Inl err" by auto
  then show ?case using Not.IH by (cases r) auto
qed (auto dest!: both_error dest: sem_expr_error)

section \<open>Derived ranges\<close>

lemma combine_loop_nth:
  assumes "combine_loop f is result d1 d2 = Some res" and "distinct is"
  shows "length res = length result \<and> (\<forall>i < length result. res ! i = (if i \<in> set is \<and> (derived (d1 ! i) \<or> derived (d2 ! i))
    then (f (result ! i) (d1 ! i) (d2 ! i))\<lparr>derived := True\<rparr> else result ! i))"
  using assms
proof (induction "is" arbitrary: result)
  case (Cons i "is")
  show ?case
  proof (cases "\<not> derived (d1 ! i) \<and> \<not> derived (d2 ! i)")
    case True
    then show ?thesis using Cons by auto
  next
    case False
    then have i: "i < length result" "combine_loop f is (result[i := (f (result ! i) (d1 ! i) (d2 ! i))\<lparr>derived := True\<rparr>]) d1 d2 = Some res"
      using Cons.prems(1) by (auto split: if_splits)
    show ?thesis using Cons.IH [OF i(2)] Cons.prems(2) False i(1) by (auto simp: nth_list_update)
  qed
qed simp

definition in_range :: "lvm \<Rightarrow> derivation list \<Rightarrow> nat \<Rightarrow> bool" where
  "in_range t ds i \<longleftrightarrow> (derived (ds ! i) \<longrightarrow> d_min (ds ! i) \<le> sint (var_value (variables t ! i)) \<and> sint (var_value (variables t ! i)) \<le> d_max (ds ! i))"

text \<open>
  The conditions whose ranges are right: no comparison of two constants, no inequation
  with the constant first, and the two sides of an \<open>OR\<close> constrain the same
  variables.
\<close>

fun range_vars :: "condition \<Rightarrow> string set" where
  "range_vars (Rel op (Var j x) (Const l)) = {x}"
| "range_vars (Rel op (Const l) (Var j x)) = {x}"
| "range_vars (Rel op a b) = {}"
| "range_vars (And c d) = range_vars c \<union> range_vars d"
| "range_vars (Or c d) = range_vars c \<union> range_vars d"
| "range_vars (Not c) = {}"

fun derivable :: "condition \<Rightarrow> bool" where
  "derivable (Rel op (Const l) (Const k)) = False"
| "derivable (Rel op (Const l) (Var j x)) = (op = Eq)"
| "derivable (Rel op a b) = True"
| "derivable (And c d) = (derivable c \<and> derivable d)"
| "derivable (Or c d) = (derivable c \<and> derivable d \<and> range_vars c = range_vars d)"
| "derivable (Not c) = True"

definition ids :: "lvm \<Rightarrow> condition \<Rightarrow> nat set" where
  "ids s c = {i. \<exists>x \<in> range_vars c. lookup s x = Some i}"

lemma ids_simps:
  "ids s (And c d) = ids s c \<union> ids s d" "ids s (Or c d) = ids s c \<union> ids s d"
  by (auto simp: ids_def)

text \<open>The ranges of a tree, with nothing derived before.\<close>

definition sound_ranges :: "lvm \<Rightarrow> lvm \<Rightarrow> condition \<Rightarrow> nat \<Rightarrow> derivation list \<Rightarrow> bool" where
  "sound_ranges s t c n ds \<longleftrightarrow> length ds = n \<and> (\<forall>i < n. derived (ds ! i) \<longleftrightarrow> i \<in> ids s c) \<and>
     (sem_cond t c = Some (Inr True) \<longrightarrow> (\<forall>i < n. in_range t ds i))"

lemma intersect_in_range:
  assumes "in_range t d1 i" "in_range t d2 i" "ds ! i = (intersect_range r (d1 ! i) (d2 ! i))\<lparr>derived := True\<rparr>" "derived (d1 ! i) \<or> derived (d2 ! i)"
  shows "in_range t ds i"
  using assms by (auto simp: in_range_def intersect_range_def)

lemma unite_in_range:
  assumes "in_range t d1 i \<or> in_range t d2 i" "ds ! i = (unite_range r (d1 ! i) (d2 ! i))\<lparr>derived := True\<rparr>" "derived (d1 ! i)" "derived (d2 ! i)"
  shows "in_range t ds i"
  using assms by (auto simp: in_range_def unite_range_def)

lemma fresh_in_range: "i < n \<Longrightarrow> ds ! i = replicate n no_derivation ! i \<Longrightarrow> in_range t ds i"
  by (simp add: in_range_def no_derivation_def)

lemma intersection_sound:
  assumes "sound_ranges s t c 4 d1" "sound_ranges s t d 4 d2" "create_intersection (replicate n no_derivation) d1 d2 = Some ds" "n \<le> 4"
  shows "sound_ranges s t (And c d) n ds"
proof -
  have ds: "length ds = n" "\<And>i. i < n \<Longrightarrow> ds ! i = (if derived (d1 ! i) \<or> derived (d2 ! i)
      then (intersect_range (replicate n no_derivation ! i) (d1 ! i) (d2 ! i))\<lparr>derived := True\<rparr> else replicate n no_derivation ! i)"
    using combine_loop_nth [of intersect_range "[0..<4]" "replicate n no_derivation" d1 d2 ds] assms(3,4)
    by (auto simp: create_intersection_def LVM_MAX_VARIABLE_ID_def)
  have "derived (ds ! i) \<longleftrightarrow> i \<in> ids s (And c d)" if "i < n" for i
    using ds(2) [OF that] assms(1,2,4) that by (simp add: sound_ranges_def ids_simps no_derivation_def)
  moreover have "in_range t ds i" if "i < n" "sem_cond t (And c d) = Some (Inr True)" for i
  proof -
    have "in_range t d1 i" "in_range t d2 i" using assms(1,2,4) that by (auto simp: sound_ranges_def both_result)
    then show ?thesis using ds(2) [OF that(1)] fresh_in_range [OF that(1), of ds] by (cases "derived (d1 ! i) \<or> derived (d2 ! i)") (auto intro: intersect_in_range)
  qed
  ultimately show ?thesis using ds(1) by (simp add: sound_ranges_def)
qed

lemma union_sound:
  assumes "sound_ranges s t c 4 d1" "sound_ranges s t d 4 d2" "create_union (replicate n no_derivation) d1 d2 = Some ds" "n \<le> 4"
    and "ids s c = ids s d"
  shows "sound_ranges s t (Or c d) n ds"
proof -
  have ds: "length ds = n" "\<And>i. i < n \<Longrightarrow> ds ! i = (if derived (d1 ! i) \<or> derived (d2 ! i)
      then (unite_range (replicate n no_derivation ! i) (d1 ! i) (d2 ! i))\<lparr>derived := True\<rparr> else replicate n no_derivation ! i)"
    using combine_loop_nth [of unite_range "[0..<4]" "replicate n no_derivation" d1 d2 ds] assms(3,4)
    by (auto simp: create_union_def LVM_MAX_VARIABLE_ID_def)
  have same: "derived (d1 ! i) \<longleftrightarrow> derived (d2 ! i)" if "i < n" for i
    using assms(1,2,4,5) that by (simp add: sound_ranges_def)
  have "derived (ds ! i) \<longleftrightarrow> i \<in> ids s (Or c d)" if "i < n" for i
    using ds(2) [OF that] assms(1,2,4) that by (simp add: sound_ranges_def ids_simps no_derivation_def)
  moreover have "in_range t ds i" if "i < n" "sem_cond t (Or c d) = Some (Inr True)" for i
  proof -
    have "in_range t d1 i \<or> in_range t d2 i" using assms(1,2,4) that by (auto simp: sound_ranges_def both_result)
    then show ?thesis using ds(2) [OF that(1)] same [OF that(1)] fresh_in_range [OF that(1), of ds]
      by (cases "derived (d1 ! i)") (auto intro: unite_in_range)
  qed
  ultimately show ?thesis using ds(1) by (simp add: sound_ranges_def)
qed

text \<open>Operands, and what is no operand.\<close>

primrec operand_of :: "lvm \<Rightarrow> expr \<Rightarrow> operand option" where
  "operand_of s (Const l) = Some \<lparr>op_type = LVM_LONG, op_value = l\<rparr>"
| "operand_of s (Var junk x) = map_option (\<lambda>i. \<lparr>op_type = LVM_VARIABLE, op_value = id_value junk i\<rparr>) (lookup s x)"
| "operand_of s (Arith op a b) = None"

lemma enc_expr_operand:
  assumes "enc_expr s e = Some bs" "length pre = ip"
  shows "case operand_of s e of
      None \<Rightarrow> get_type (pre @ bs @ post) ip = Some (LVM_ARITH_OP, ip + 4)
    | Some op \<Rightarrow> length bs = 12 \<and> get_type (pre @ bs @ post) ip = Some (LVM_OPERAND, ip + 4) \<and>
        get_operand (pre @ bs @ post) (ip + 4) = Some (op, ip + 12)"
proof (cases e)
  case (Arith op a b)
  then obtain x where "bs = le32 LVM_ARITH_OP @ le32 (aop_code op) @ x" using assms(1) by (auto simp: bind_eq_Some_conv)
  then show ?thesis using Arith get_head(1) [OF assms(2), of LVM_ARITH_OP "aop_code op" "x @ post"] by simp
qed (use assms get_operand_here [OF assms(2), of _ _ post] in \<open>auto simp: enc_operand_def\<close>)

lemma sint_long: "LONG_MIN \<le> sint (w :: u32)" "sint w \<le> LONG_MAX"
  using sint_greater_eq [of w] sint_less [of w] by (simp_all add: LONG_MIN_def LONG_MAX_def)

lemma relation_range_sound:
  assumes "relation_range (rop_code op) v d = Some (Inr z, d')"
  shows "derived d'" "sem_rop op (sint (w :: u32)) v \<Longrightarrow> d_min d' \<le> sint w \<and> sint w \<le> d_max d'" "op \<noteq> Neq"
  using assms sint_long [of w] by (cases op; auto simp: relation_range_def Let_def lvm_consts long_def split: if_splits)+

text \<open>The comparison of a variable with a constant, in either order.\<close>

lemma comparison_range:
  assumes "relation_range (rop_code op) v (replicate n no_derivation ! i) = Some (Inr z, d)" "i < n" "ids s c = {i}"
    and "sem_cond t c = Some (Inr True) \<Longrightarrow> sem_rop op (sint (var_value (variables t ! i))) v"
  shows "sound_ranges s t c n ((replicate n no_derivation)[i := d])"
  using relation_range_sound [OF assms(1)] assms(2-4)
  by (auto simp: sound_ranges_def nth_list_update in_range_def no_derivation_def)

lemma derive_operands:
  assumes "operand_of s a = Some o0" "operand_of s b = Some o1" "enc_expr s a = Some x" "enc_expr s b = Some y" "length pre = ip"
  shows "derive_comparison (pre @ x @ y @ post) op ip ds =
     (if op_type o0 = LVM_VARIABLE \<and> op_type o1 = LVM_VARIABLE then Some (Inl DERIVATION_ERROR, ds, 24 + ip)
      else let (variable_id, value) =
          (if op_type o0 = LVM_VARIABLE then (unat (value_id (op_value o0)), value_l (op_value o1))
           else (unat (value_id (op_value o1)), value_l (op_value o0))) in
        if variable_id \<ge> LVM_MAX_VARIABLE_ID then Some (Inl DERIVATION_ERROR, ds, 24 + ip)
        else if variable_id \<ge> length ds then None
        else do { (r, d) \<leftarrow> relation_range op value (ds ! variable_id); Some (r, ds[variable_id := d], 24 + ip) })"
  using enc_expr_operand [OF assms(3,5), of "y @ post"] enc_expr_operand [OF assms(4), of "pre @ x" "ip + 12" post] assms(1,2,5)
  by (simp add: derive_comparison_def cong: if_cong)

lemma derive_comparison_sound:
  assumes "enc_expr s a = Some x" "enc_expr s b = Some y" "derivable (Rel op a b)" "lvm_ok s" "same_variables s t" "length pre = ip" "3 \<le> n"
    and "derive_comparison (pre @ x @ y @ post) (rop_code op) ip (replicate n no_derivation) = Some (Inr z, ds, ip')"
  shows "ip' = ip + length x + length y \<and> sound_ranges s t (Rel op a b) n ds"
proof -
  have a: "operand_of s a \<noteq> None" "length x = 12"
    using enc_expr_operand [OF assms(1,6), of "y @ post"] assms(8) by (auto simp: derive_comparison_def lvm_consts split: option.splits)
  have b: "operand_of s b \<noteq> None" "length y = 12"
    using enc_expr_operand [OF assms(1,6), of "y @ post"] a enc_expr_operand [OF assms(2), of "pre @ x" "ip + 12" post] assms(6,8)
    by (auto simp: derive_comparison_def lvm_consts split: option.splits)
  obtain o0 o1 where o: "operand_of s a = Some o0" "operand_of s b = Some o1" using a b by blast
  note d = assms(8) [unfolded derive_operands [OF o assms(1,2,6)]]
  consider j v k where "a = Var j v" "b = Const k" | k j v where "a = Const k" "b = Var j v" "op = Eq" | j v j' v' where "a = Var j v" "b = Var j' v'"
    using o assms(3) by (cases a; cases b) auto
  then show ?thesis
  proof cases
    case 1
    obtain i where i: "lookup s v = Some i" using o 1 by auto
    have i3: "i < 3" "lookup t v = Some i" "ids s (Rel op a b) = {i}"
      using lookup_less [OF assms(4) i] i 1 same_lookup [OF assms(5)] by (auto simp: ids_def)
    have "o0 = \<lparr>op_type = LVM_VARIABLE, op_value = id_value j i\<rparr>" "o1 = \<lparr>op_type = LVM_LONG, op_value = k\<rparr>" using o 1 i by auto
    then obtain e where e: "relation_range (rop_code op) (sint k) (replicate n no_derivation ! i) = Some (Inr z, e)"
      "ds = (replicate n no_derivation)[i := e]" "ip' = ip + 24"
      using d i3 assms(7) value_id_value [of i j] by (auto simp: lvm_consts LVM_MAX_VARIABLE_ID_def value_l_def bind_eq_Some_conv)
    show ?thesis using comparison_range [OF e(1), of s "Rel op a b" t] i3 assms(7) e(2,3) a b 1 by (simp add: both_result)
  next
    case 2
    obtain i where i: "lookup s v = Some i" using o 2 by auto
    have i3: "i < 3" "lookup t v = Some i" "ids s (Rel op a b) = {i}"
      using lookup_less [OF assms(4) i] i 2 same_lookup [OF assms(5)] by (auto simp: ids_def)
    have "o1 = \<lparr>op_type = LVM_VARIABLE, op_value = id_value j i\<rparr>" "o0 = \<lparr>op_type = LVM_LONG, op_value = k\<rparr>" using o 2 i by auto
    then obtain e where e: "relation_range (rop_code op) (sint k) (replicate n no_derivation ! i) = Some (Inr z, e)"
      "ds = (replicate n no_derivation)[i := e]" "ip' = ip + 24"
      using d i3 assms(7) value_id_value [of i j] by (auto simp: lvm_consts LVM_MAX_VARIABLE_ID_def value_l_def bind_eq_Some_conv)
    show ?thesis using comparison_range [OF e(1), of s "Rel op a b" t] i3 assms(7) e(2,3) a b 2 by (simp add: both_result)
  next
    case 3
    then show ?thesis using d o by auto
  qed
qed

lemma or_not_and: "LVM_OR \<noteq> LVM_AND"
  by (simp add: lvm_consts)

lemma derive_connective:
  assumes "derive_relation c ip ds0 = Some (Inr z, ds, ip')" "get_type c ip = Some (t, ip + 4)" "get_operator c (ip + 4) = Some (op, ip + 8)"
    and "op = LVM_AND \<or> op = LVM_OR"
  obtains z1 d1 i1 z2 d2 where "derive_relation c (ip + 8) (replicate 4 no_derivation) = Some (Inr z1, d1, i1)"
      "derive_relation c i1 (replicate 4 no_derivation) = Some (Inr z2, d2, ip')"
      "(if op = LVM_AND then create_intersection ds0 d1 d2 else create_union ds0 d1 d2) = Some ds"
proof -
  have op: "IS_CONNECTIVE op" using assms(4) connectives by auto
  let ?dr = "\<lambda>ip. derive_relation c ip (replicate LVM_MAX_VARIABLE_ID no_derivation)"
  have e: "Option.bind (?dr (ip + 8)) (\<lambda>(r1, d1, ip). case r1 of Inl e \<Rightarrow> Some (Inl DERIVATION_ERROR, ds0, ip) | Inr _ \<Rightarrow>
      Option.bind (?dr ip) (\<lambda>(r2, d2, ip). case r2 of Inl e \<Rightarrow> Some (Inl DERIVATION_ERROR, ds0, ip) | Inr _ \<Rightarrow>
        Option.bind (if op = LVM_AND then create_intersection ds0 d1 d2 else create_union ds0 d1 d2) (\<lambda>ds. Some (Inr True, ds, ip)))) = Some (Inr z, ds, ip')"
    using assms op by (simp add: derive_relation.simps [of c ip ds0] split: if_splits cong: if_cong)
  obtain r1 d1 i1 where 1: "?dr (ip + 8) = Some (r1, d1, i1)" using e by (auto simp: bind_eq_Some_conv)
  then obtain z1 where z1: "r1 = Inr z1" using e by (cases r1) auto
  obtain r2 d2 i2 where 2: "?dr i1 = Some (r2, d2, i2)" using e 1 z1 by (auto simp: bind_eq_Some_conv)
  then obtain z2 where z2: "r2 = Inr z2" using e 1 z1 by (cases r2) auto
  show ?thesis using that [of z1 d1 i1 z2 d2] e 1 2 z1 z2 by (auto simp: bind_eq_Some_conv LVM_MAX_VARIABLE_ID_def)
qed

lemma derive_relation_sound:
  assumes "enc_cond s c = Some bs" "derivable c" "lvm_ok s" "same_variables s t" "length pre = ip" "3 \<le> n" "n \<le> 4"
    and "derive_relation (pre @ bs @ post) ip (replicate n no_derivation) = Some (Inr z, ds, ip')"
  shows "ip' = ip + length bs \<and> sound_ranges s t c n ds"
  using assms(1,2,5-8)
proof (induction c arbitrary: bs pre ip post n z ds ip')
  case (Rel op a b)
  then obtain x y where xy: "enc_expr s a = Some x" "enc_expr s b = Some y" "bs = le32 LVM_CMP_OP @ le32 (rop_code op) @ x @ y"
    by (auto simp: bind_eq_Some_conv)
  have "derive_comparison ((pre @ le32 LVM_CMP_OP @ le32 (rop_code op)) @ x @ y @ post) (rop_code op) (ip + 8) (replicate n no_derivation) = Some (Inr z, ds, ip')"
    using Rel.prems(6) enc_cond_heads [OF Rel.prems(1,3), of post] connectives(4) [of op] by (subst (asm) derive_relation.simps) (simp add: xy(3))
  then show ?case
    using derive_comparison_sound [OF xy(1,2) Rel.prems(2) assms(3,4), of "pre @ le32 LVM_CMP_OP @ le32 (rop_code op)" "ip + 8" n post z ds ip'] Rel.prems(3,4)
    by (simp add: xy(3))
next
  case (And c d)
  then obtain x y where xy: "enc_cond s c = Some x" "enc_cond s d = Some y" "bs = le32 LVM_CMP_OP @ le32 LVM_AND @ x @ y"
    by (auto simp: bind_eq_Some_conv)
  let ?c = "pre @ bs @ post"
  obtain z1 d1 i1 z2 d2 where r: "derive_relation ?c (ip + 8) (replicate 4 no_derivation) = Some (Inr z1, d1, i1)"
      "derive_relation ?c i1 (replicate 4 no_derivation) = Some (Inr z2, d2, ip')" "create_intersection (replicate n no_derivation) d1 d2 = Some ds"
    by (rule derive_connective [OF And.prems(6), of LVM_CMP_OP LVM_AND]) (use enc_cond_heads [OF And.prems(1,3), of post] or_not_and in \<open>simp_all\<close>)
  have 1: "i1 = ip + 8 + length x \<and> sound_ranges s t c 4 d1"
    using And.IH(1) [OF xy(1), of "pre @ le32 LVM_CMP_OP @ le32 LVM_AND" "ip + 8" 4 "y @ post" z1 d1 i1] And.prems(2,3) r(1) by (simp add: xy(3))
  have 2: "ip' = i1 + length y \<and> sound_ranges s t d 4 d2"
    using And.IH(2) [OF xy(2), of "pre @ le32 LVM_CMP_OP @ le32 LVM_AND @ x" i1 4 post z2 d2 ip'] And.prems(2,3) r(2) 1 by (simp add: xy(3))
  show ?case using intersection_sound [OF _ _ r(3) And.prems(5), of s t c d] 1 2 by (simp add: xy(3))
next
  case (Or c d)
  then obtain x y where xy: "enc_cond s c = Some x" "enc_cond s d = Some y" "bs = le32 LVM_CMP_OP @ le32 LVM_OR @ x @ y"
    by (auto simp: bind_eq_Some_conv)
  let ?c = "pre @ bs @ post"
  obtain z1 d1 i1 z2 d2 where r: "derive_relation ?c (ip + 8) (replicate 4 no_derivation) = Some (Inr z1, d1, i1)"
      "derive_relation ?c i1 (replicate 4 no_derivation) = Some (Inr z2, d2, ip')" "create_union (replicate n no_derivation) d1 d2 = Some ds"
    by (rule derive_connective [OF Or.prems(6), of LVM_CMP_OP LVM_OR]) (use enc_cond_heads [OF Or.prems(1,3), of post] or_not_and in \<open>simp_all\<close>)
  have 1: "i1 = ip + 8 + length x \<and> sound_ranges s t c 4 d1"
    using Or.IH(1) [OF xy(1), of "pre @ le32 LVM_CMP_OP @ le32 LVM_OR" "ip + 8" 4 "y @ post" z1 d1 i1] Or.prems(2,3) r(1) by (simp add: xy(3))
  have 2: "ip' = i1 + length y \<and> sound_ranges s t d 4 d2"
    using Or.IH(2) [OF xy(2), of "pre @ le32 LVM_CMP_OP @ le32 LVM_OR @ x" i1 4 post z2 d2 ip'] Or.prems(2,3) r(2) 1 by (simp add: xy(3))
  show ?case using union_sound [OF _ _ r(3) Or.prems(5), of s t c d] 1 2 Or.prems(2) by (simp add: xy(3) ids_def)
next
  case (Not c)
  then show ?case
    using enc_cond_heads [OF Not.prems(1,3), of post] connectives(3)
    by (subst (asm) (2) derive_relation.simps) (simp add: lvm_consts)
qed

definition registered :: "lvm \<Rightarrow> string \<Rightarrow> bool" where
  "registered s x \<longleftrightarrow> (case lookup s x of None \<Rightarrow> False | Some i \<Rightarrow> i < length (variables s) \<and> var_name (variables s ! i) = x)"

lemma lookup_from_first:
  "lookup_from vs i x = Some j \<Longrightarrow> i \<le> k \<Longrightarrow> k < j \<Longrightarrow> k - i < length vs \<Longrightarrow> var_name (vs ! (k - i)) \<noteq> x"
proof (induction vs arbitrary: i)
  case (Cons v vs)
  then show ?case by (cases "k = i") (auto simp: nth_Cons' split: if_splits)
qed simp

lemma range_from_first:
  assumes "j \<in> set is" "sorted is" "\<forall>k \<in> set is. k < j \<longrightarrow> k < length (variables s) \<and> var_name (variables s ! k) \<noteq> x"
    and "j < length (variables s)" "var_name (variables s ! j) = x" "j < length (derivations s)"
  shows "range_from is s x = Some (if derived (derivations s ! j) then Inr (d_min (derivations s ! j), d_max (derivations s ! j)) else Inl DERIVATION_ERROR)"
  using assms by (induction "is") (auto simp: Let_def order_le_less)

lemma get_range_registered:
  assumes "lvm_ok s" "length (derivations s) = 3" "lookup s x = Some i" "var_name (variables s ! i) = x"
  shows "lvm_get_derived_range s x = Some (if derived (derivations s ! i) then Inr (d_min (derivations s ! i), d_max (derivations s ! i)) else Inl DERIVATION_ERROR)"
proof -
  have i: "i < 3" "length (variables s) = 3" using lookup_less [OF assms(1,3)] assms(1) by (simp_all add: lvm_ok_def LVM_MAX_VARIABLE_ID_def)
  have "var_name (variables s ! k) \<noteq> x" if "k < i" for k
    using lookup_from_first [of "variables s" 0 x i k] assms(3) that i by (simp add: lookup_def)
  then show ?thesis
    unfolding lvm_get_derived_range_def by (intro range_from_first) (use i assms in \<open>auto simp: LVM_MAX_VARIABLE_ID_def\<close>)
qed

section \<open>Properties\<close>

text \<open>
  C5. Code emitted for a condition, on an instance that was reset, executes to the meaning
  of the condition, whatever the values that the variables have by then: arithmetic and
  comparisons of longs, and a \<open>MATH_ERROR\<close> for a division by zero
  anywhere, since both arguments of a connective are evaluated.
\<close>

theorem lvm_execute_correct:
  assumes "lvm_ok s" and "same_variables s t" and "cend p = 0" and "emit_cond s c p = Some p'"
  shows "map_option fst (lvm_execute t p') = sem_cond t c"
  using assms by (rule execute_emitted)

text \<open>
  C19. Emitted code goes wrong in no other way than a \<open>MATH_ERROR\<close>: no
  \<open>SEMANTIC_ERROR\<close>, which is a node of a wrong type, and no
  \<open>EXECUTION_ERROR\<close>, which is an operator that is none.
\<close>

theorem lvm_emitted_well_typed:
  assumes "lvm_ok s" and "same_variables s t" and "cend p = 0" and "emit_cond s c p = Some p'" and "lvm_execute t p' = Some (Inl err, q)"
  shows "err = MATH_ERROR"
proof -
  have "sem_cond t c = Some (Inl err)" using execute_emitted [OF assms(1-4)] assms(5) by simp
  then show ?thesis by (rule sem_cond_error)
qed

text \<open>
  C20. The ranges that are derived from emitted code are sound: in every tuple that
  satisfies the condition, a registered variable with a derived range has a value in
  the range. This holds for the conditions that are \<^term>\<open>derivable\<close>; without it,
  \<open>union_unsound\<close> and \<open>mirrored_unsound\<close> below are the counterexamples.
\<close>

theorem lvm_derive_sound:
  assumes "lvm_ok s" and "same_variables s t" and "cend p = 0" and "cip p = 0" and "emit_cond s c p = Some p'" and "derivable c"
    and "derivations s = replicate 3 no_derivation" and "registered s x"
    and "lvm_derive s p' = Some (Inr True, s', p'')" and "lvm_get_derived_range s' x = Some (Inr (lo, hi))"
    and "lvm_execute t p' = Some (Inr True, q)" and "sem_expr t (Var junk x) = Some (Inr v)"
  shows "lo \<le> v \<and> v \<le> hi"
proof -
  obtain bs where bs: "enc_cond s c = Some bs" "code p' = bs @ drop (cend p') (code p)" "cip p' = 0"
    using emit_cond_enc [OF assms(1,5)] assms(3,4) by (auto simp: appended_def)
  have true: "sem_cond t c = Some (Inr True)" using execute_emitted [OF assms(1,2,3,5)] assms(11) by simp
  obtain ds ip where ds: "derive_relation (code p') 0 (replicate 3 no_derivation) = Some (Inr True, ds, ip)" "s' = s\<lparr>derivations := ds\<rparr>"
    using assms(7,9) bs(3) by (auto simp: lvm_derive_def bind_eq_Some_conv)
  have sound: "length ds = 3" "\<And>i. i < 3 \<Longrightarrow> in_range t ds i"
    using derive_relation_sound [OF bs(1) assms(6,1,2), of "[]" 0 3 "drop (cend p') (code p)" True ds ip] ds(1) true
    by (auto simp: bs(2) sound_ranges_def)
  obtain i where i: "lookup s x = Some i" "var_name (variables s ! i) = x" using assms(8) by (auto simp: registered_def split: option.splits)
  have "lookup s' x = Some i" "lvm_ok s'" using i assms(1) by (simp_all add: ds(2) lookup_def lvm_ok_def)
  then have "derived (ds ! i)" "lo = d_min (ds ! i)" "hi = d_max (ds ! i)"
    using get_range_registered [of s' x i] i(2) assms(10) sound(1) by (auto simp: ds(2) split: if_splits)
  moreover have "v = sint (var_value (variables t ! i))" using assms(12) i(1) same_lookup [OF assms(2)] by simp
  moreover have "i < 3" using lookup_less [OF assms(1) i(1)] .
  ultimately show ?thesis using sound(2) [of i] by (simp add: in_range_def)
qed

section \<open>Examples\<close>

text \<open>A relation with the attributes \<open>temp\<close> and \<open>hum\<close>, and an instance of 128 bytes.\<close>

definition sample_state :: "u32 \<Rightarrow> lvm" where
  "sample_state v = \<lparr>variables = \<lparr>var_type = LVM_LONG, var_value = v, var_name = ''temp''\<rparr> # \<lparr>var_type = LVM_LONG, var_value = 5, var_name = ''hum''\<rparr> # replicate 1 no_variable, derivations = replicate 3 no_derivation\<rparr>"

definition blank :: lvm_instance where
  "blank = \<lparr>code = replicate 128 0, csize = 128, cend = 0, cip = 0, cerror = 0\<rparr>"

text \<open>The code that is emitted, the result in a tuple with the value \<open>v\<close>, and the range of \<open>temp\<close>.\<close>

definition emitted_code :: "condition \<Rightarrow> lvm_instance" where
  "emitted_code c = the (emit_cond (sample_state 0) c blank)"

definition run_on :: "u32 \<Rightarrow> condition \<Rightarrow> bool result option" where
  "run_on v c = map_option fst (lvm_execute (sample_state v) (emitted_code c))"

definition temp_range :: "condition \<Rightarrow> (int \<times> int) result option" where
  "temp_range c = Option.bind (lvm_derive (sample_state 0) (emitted_code c)) (\<lambda>(r, s, p). lvm_get_derived_range s ''temp'')"

lemma sample_ok: "lvm_ok (sample_state v)" "same_variables (sample_state v) (sample_state w)" "cend blank = 0" "cip blank = 0" "registered (sample_state v) ''temp''"
  by (simp_all add: lvm_ok_def sample_state_def LVM_MAX_VARIABLE_ID_def same_variables_def blank_def registered_def lookup_def)

text \<open>\<open>temp >= 10 AND temp + 1 <= 30\<close>, \<open>100 / temp = 5\<close>, and \<open>temp >= 10 AND temp <= 30\<close>.\<close>

definition sum_cond :: condition where
  "sum_cond = And (Rel Geq (Var 0 ''temp'') (Const 10)) (Rel Leq (Arith Add (Var 0 ''temp'') (Const 1)) (Const 30))"

definition quotient_cond :: condition where
  "quotient_cond = Rel Eq (Arith Div (Const 100) (Var 0 ''temp'')) (Const 5)"

definition range_cond :: condition where
  "range_cond = And (Rel Geq (Var 0 ''temp'') (Const 10)) (Rel Leq (Var 0 ''temp'') (Const 30))"

lemma lvm_execute_correct_witness:
  "emit_cond (sample_state 0) sum_cond blank = Some (emitted_code sum_cond) \<and> run_on 20 sum_cond = sem_cond (sample_state 20) sum_cond \<and>
   sem_cond (sample_state 20) sum_cond = Some (Inr True) \<and> run_on 30 sum_cond = sem_cond (sample_state 30) sum_cond \<and> sem_cond (sample_state 30) sum_cond = Some (Inr False)"
proof -
  have e: "emit_cond (sample_state 0) sum_cond blank = Some (emitted_code sum_cond)" by code_simp
  have "sem_cond (sample_state 20) sum_cond = Some (Inr True)" "sem_cond (sample_state 30) sum_cond = Some (Inr False)" by code_simp+
  then show ?thesis using e lvm_execute_correct [OF sample_ok(1,2,3) e] by (simp add: run_on_def)
qed

lemma lvm_emitted_well_typed_witness:
  "\<exists>err q. lvm_execute (sample_state 0) (emitted_code quotient_cond) = Some (Inl err, q) \<and> err = MATH_ERROR"
proof -
  have e: "emit_cond (sample_state 0) quotient_cond blank = Some (emitted_code quotient_cond)" by code_simp
  have "case lvm_execute (sample_state 0) (emitted_code quotient_cond) of Some (Inl err, q) \<Rightarrow> True | _ \<Rightarrow> False" by code_simp
  then obtain err q where "lvm_execute (sample_state 0) (emitted_code quotient_cond) = Some (Inl err, q)" by (auto split: option.splits prod.splits sum.splits)
  then show ?thesis using lvm_emitted_well_typed [OF sample_ok(1,2,3) e] by blast
qed

lemma lvm_derive_sound_witness:
  "temp_range range_cond = Some (Inr (10, 30)) \<and> run_on 20 range_cond = Some (Inr True) \<and> (10::int) \<le> 20 \<and> (20::int) \<le> 30"
proof -
  have e: "emit_cond (sample_state 0) range_cond blank = Some (emitted_code range_cond)" by code_simp
  have d: "derivable range_cond" "derivations (sample_state 0) = replicate 3 no_derivation" by (simp_all add: range_cond_def sample_state_def)
  have ranges: "temp_range range_cond = Some (Inr (10, 30))" and true: "run_on 20 range_cond = Some (Inr True)" by code_simp+
  have "map_option fst (lvm_derive (sample_state 0) (emitted_code range_cond)) = Some (Inr True)" by code_simp
  then obtain s' p'' where l: "lvm_derive (sample_state 0) (emitted_code range_cond) = Some (Inr True, s', p'')" by auto
  obtain q where q: "lvm_execute (sample_state 20) (emitted_code range_cond) = Some (Inr True, q)" using true by (auto simp: run_on_def)
  have "sem_expr (sample_state 20) (Var 0 ''temp'') = Some (Inr 20)" by code_simp
  moreover have "lvm_get_derived_range s' ''temp'' = Some (Inr (10, 30))" using ranges l by (simp add: temp_range_def)
  ultimately have "10 \<le> (20::int) \<and> 20 \<le> (30::int)"
    using lvm_derive_sound [OF sample_ok(1,2,3,4) e d sample_ok(5) l _ q] by blast
  then show ?thesis using ranges true by blast
qed

text \<open>
  \<open>temp < 100 OR hum = 5\<close>, whose sides constrain different variables: the range
  of the one side is taken for both.
\<close>

lemma union_unsound:
  "temp_range (Or (Rel Le (Var 0 ''temp'') (Const 100)) (Rel Eq (Var 0 ''hum'') (Const 5))) = Some (Inr (LONG_MIN, 99)) \<and>
   run_on 500 (Or (Rel Le (Var 0 ''temp'') (Const 100)) (Rel Eq (Var 0 ''hum'') (Const 5))) = Some (Inr True)"
  by code_simp

text \<open>\<open>100 < temp\<close> derives the range of \<open>temp < 100\<close>.\<close>

lemma mirrored_unsound:
  "temp_range (Rel Le (Const 100) (Var 0 ''temp'')) = Some (Inr (LONG_MIN, 99)) \<and>
   run_on 500 (Rel Le (Const 100) (Var 0 ''temp'')) = Some (Inr True)"
  by code_simp

end
