(* ===== verification/AqlCorrect.thy ===== *)
theory AqlCorrect
  imports AqlParser LvmCorrect
begin

text \<open>
  What the parser of the query language makes of a \<open>SELECT\<close> with a condition: from
  the text over the words to the code, and what the code then says about a tuple.
  And the conditions that it compiles to something else.
\<close>

section \<open>Conditions in words\<close>

text \<open>Sides have at most one operator, and there are no parentheses.\<close>

datatype atom = Lit u32 | Attr string
datatype side = One atom | Two aop atom atom
datatype comparison = Compare rop side side

text \<open>The comparisons behind the first come with \<open>AND\<close> (\<^term>\<open>True\<close>) or \<open>OR\<close>.\<close>

type_synonym where_clause = "comparison \<times> (bool \<times> comparison) list"

primrec aop_token :: "aop \<Rightarrow> token" where
  "aop_token Add = ADD" | "aop_token Sub = SUB" | "aop_token Mul = MUL" | "aop_token Div = DIV"

primrec rop_token :: "rop \<Rightarrow> token" where
  "rop_token Eq = EQUAL" | "rop_token Neq = NOT_EQUAL" | "rop_token Ge = GT" | "rop_token Geq = GEQ" | "rop_token Le = LT" | "rop_token Leq = LEQ"

primrec atom_word :: "atom \<Rightarrow> query_word" where
  "atom_word (Lit w) = Number w" | "atom_word (Attr x) = Name x"

primrec side_words :: "side \<Rightarrow> query_word list" where
  "side_words (One a) = [atom_word a]"
| "side_words (Two op a b) = [atom_word a, Keyword (aop_token op), atom_word b]"

primrec compare_words :: "comparison \<Rightarrow> query_word list" where
  "compare_words (Compare op a b) = side_words a @ Keyword (rop_token op) # side_words b"

definition more_words :: "(bool \<times> comparison) list \<Rightarrow> query_word list" where
  "more_words cs = concat (map (\<lambda>(con, c). Keyword (if con then T_AND else T_OR) # compare_words c) cs)"

definition where_words :: "where_clause \<Rightarrow> query_word list" where
  "where_words w = compare_words (fst w) @ more_words (snd w)"

text \<open>What they stand for: the connectives associate to the right, and neither binds stronger.\<close>

primrec atom_expr :: "u32 \<Rightarrow> atom \<Rightarrow> expr" where
  "atom_expr j (Lit w) = Const w" | "atom_expr j (Attr x) = Var j x"

primrec side_expr :: "u32 \<Rightarrow> side \<Rightarrow> expr" where
  "side_expr j (One a) = atom_expr j a" | "side_expr j (Two op a b) = Arith op (atom_expr j a) (atom_expr j b)"

primrec compare_cond :: "u32 \<Rightarrow> comparison \<Rightarrow> condition" where
  "compare_cond j (Compare op a b) = Rel op (side_expr j a) (side_expr j b)"

fun more_cond :: "u32 \<Rightarrow> comparison \<Rightarrow> (bool \<times> comparison) list \<Rightarrow> condition" where
  "more_cond j c [] = compare_cond j c"
| "more_cond j c ((con, d) # cs) = (if con then And else Or) (compare_cond j c) (more_cond j d cs)"

definition where_cond :: "u32 \<Rightarrow> where_clause \<Rightarrow> condition" where
  "where_cond j w = more_cond j (fst w) (snd w)"

text \<open>The size of the code.\<close>

primrec side_size :: "side \<Rightarrow> nat" where
  "side_size (One a) = 12" | "side_size (Two op a b) = 32"

primrec compare_size :: "comparison \<Rightarrow> nat" where
  "compare_size (Compare op a b) = 8 + side_size a + side_size b"

definition where_size :: "where_clause \<Rightarrow> nat" where
  "where_size w = compare_size (fst w) + sum_list (map (\<lambda>(con, c). 8 + compare_size c) (snd w))"

text \<open>The attributes, in the order in which they are registered.\<close>

primrec atom_names :: "atom \<Rightarrow> string list" where
  "atom_names (Lit w) = []" | "atom_names (Attr x) = [x]"

primrec side_names :: "side \<Rightarrow> string list" where
  "side_names (One a) = atom_names a" | "side_names (Two op a b) = atom_names a @ atom_names b"

primrec compare_names :: "comparison \<Rightarrow> string list" where
  "compare_names (Compare op a b) = side_names a @ side_names b"

definition where_names :: "where_clause \<Rightarrow> string list" where
  "where_names w = compare_names (fst w) @ concat (map (compare_names \<circ> snd) (snd w))"

definition add_name :: "string \<Rightarrow> string list \<Rightarrow> string list" where
  "add_name x ns = (if x \<in> set ns then ns else ns @ [x])"

definition attr_name :: "string \<Rightarrow> bool" where
  "attr_name x \<longleftrightarrow> valid_word (Name x) \<and> length x \<le> LVM_MAX_NAME_LENGTH"

section \<open>The table of variables\<close>

definition vars_are :: "string list \<Rightarrow> lvm \<Rightarrow> bool" where
  "vars_are ns s \<longleftrightarrow> map var_name (variables s) = ns @ replicate (3 - length ns) '''' \<and> length ns \<le> 3 \<and> distinct ns \<and> '''' \<notin> set ns"

lemma vars_are_ok: "vars_are ns s \<Longrightarrow> lvm_ok s"
proof -
  assume v: "vars_are ns s"
  then have "length (map var_name (variables s)) = length (ns @ replicate (3 - length ns) '''')" by (simp only: vars_are_def)
  then show ?thesis using v by (simp add: vars_are_def lvm_ok_def LVM_MAX_VARIABLE_ID_def)
qed

lemma lookup_from_known:
  "map var_name vs = ns @ ms \<Longrightarrow> x \<in> set ns \<Longrightarrow> '''' \<notin> set ns \<Longrightarrow> i + length ns \<le> 4 \<Longrightarrow> lookup_from vs i x = Some (i + length (takeWhile ((\<noteq>) x) ns))"
proof (induction ns arbitrary: vs i)
  case (Cons n ns)
  then obtain v vs' where v: "vs = v # vs'" "var_name v = n" "map var_name vs' = ns @ ms" by auto
  show ?case
  proof (cases "n = x")
    case False
    then show ?thesis using Cons.IH [OF v(3), of "i + 1"] Cons.prems v by (auto simp: LVM_MAX_VARIABLE_ID_def)
  qed (use v in simp)
qed simp

lemma lookup_from_new:
  "map var_name vs = ns @ '''' # ms \<Longrightarrow> x \<notin> set ns \<Longrightarrow> i + length ns < 4 \<Longrightarrow> lookup_from vs i x = Some (i + length (takeWhile ((\<noteq>) '''') ns))"
proof (induction ns arbitrary: vs i)
  case Nil
  then show ?case by (cases vs) auto
next
  case (Cons n ns)
  then obtain v vs' where v: "vs = v # vs'" "var_name v = n" "map var_name vs' = ns @ '''' # ms" by auto
  show ?case using Cons.IH [OF v(3), of "i + 1"] Cons.prems v by (auto simp: LVM_MAX_VARIABLE_ID_def)
qed

lemma lookup_known: "vars_are ns s \<Longrightarrow> x \<in> set ns \<Longrightarrow> lookup s x = Some (length (takeWhile ((\<noteq>) x) ns))"
  using lookup_from_known [of "variables s" ns _ x 0] by (auto simp: vars_are_def lookup_def)

lemma lookup_new:
  assumes "vars_are ns s" "x \<notin> set ns" "length ns < 3"
  shows "lookup s x = Some (length ns)"
proof -
  have "map var_name (variables s) = ns @ '''' # replicate (2 - length ns) ''''"
    using assms by (simp add: vars_are_def) (metis Suc_diff_le Suc_leI less_Suc_eq_le numeral_2_eq_2 numeral_3_eq_3 replicate_Suc)
  moreover have "length (takeWhile ((\<noteq>) '''') ns) = length ns" using assms(1) by (metis (mono_tags, lifting) takeWhile_eq_all_conv vars_are_def)
  ultimately show ?thesis using lookup_from_new [of "variables s" ns "replicate (2 - length ns) ''''" x 0] assms by (simp add: lookup_def)
qed

lemma first_index: "x \<in> set ns \<Longrightarrow> length (takeWhile ((\<noteq>) x) ns) < length ns \<and> ns ! length (takeWhile ((\<noteq>) x) ns) = x"
  by (induction ns) auto

lemma register_name:
  assumes "vars_are ns s" "length (add_name x ns) \<le> 3" "x \<noteq> ''''" "length x \<le> LVM_MAX_NAME_LENGTH"
  shows "\<exists>r s'. lvm_register_variable x t s = Some (r, s') \<and> vars_are (add_name x ns) s'"
proof (cases "x \<in> set ns")
  case True
  let ?i = "length (takeWhile ((\<noteq>) x) ns)"
  have i: "?i < length ns" "ns ! ?i = x" using first_index [OF True] by simp_all
  have "length (variables s) = 3" using vars_are_ok [OF assms(1)] by (simp add: lvm_ok_def LVM_MAX_VARIABLE_ID_def)
  moreover have "var_name (variables s ! ?i) = x"
    using assms(1) i calculation unfolding vars_are_def by (metis nth_append nth_map order_less_le_trans)
  ultimately show ?thesis using assms i True lookup_known [OF assms(1) True]
    by (auto simp: lvm_register_variable_def LVM_MAX_VARIABLE_ID_def add_name_def vars_are_def)
next
  case False
  then have n: "length ns < 3" using assms(2) by (simp add: add_name_def)
  have l: "length (variables s) = 3" using vars_are_ok [OF assms(1)] by (simp add: lvm_ok_def LVM_MAX_VARIABLE_ID_def)
  have m: "map var_name (variables s) = ns @ replicate (3 - length ns) ''''" using assms(1) by (simp add: vars_are_def)
  have rep: "replicate (3 - length ns) '''' = '''' # replicate (2 - length ns) ''''"
    using n by (metis Suc_diff_Suc numeral_2_eq_2 numeral_3_eq_3 diff_Suc_Suc replicate_Suc Suc_diff_le less_Suc_eq_le)
  have "var_name (variables s ! length ns) = map var_name (variables s) ! length ns" using l n by simp
  then have "var_name (variables s ! length ns) = ''''" by (simp add: m rep)
  moreover have "map var_name ((variables s)[length ns := (variables s ! length ns)\<lparr>var_name := x, var_type := t\<rparr>]) = (ns @ [x]) @ replicate (3 - length (ns @ [x])) ''''"
    by (simp add: map_update m rep)
  ultimately show ?thesis using assms n l False lookup_new [OF assms(1) False n]
    by (auto simp: lvm_register_variable_def LVM_MAX_VARIABLE_ID_def add_name_def vars_are_def)
qed

definition add_names :: "string list \<Rightarrow> string list \<Rightarrow> string list" where
  "add_names xs ns = fold add_name xs ns"

lemma add_names_simps [simp]: "add_names [] ns = ns" "add_names (x # xs) ns = add_names xs (add_name x ns)" "add_names (xs @ ys) ns = add_names ys (add_names xs ns)"
  by (simp_all add: add_names_def)

lemma add_names_prefix: "\<exists>ms. add_names xs ns = ns @ ms"
proof (induction xs arbitrary: ns)
  case (Cons x xs)
  then obtain ms where "add_names xs (add_name x ns) = add_name x ns @ ms" by blast
  then show ?case by (auto simp: add_name_def)
qed simp

lemma add_names_length: "length ns \<le> length (add_names xs ns)"
  using add_names_prefix [of xs ns] by auto

lemma in_add_names: "x \<in> set xs \<Longrightarrow> x \<in> set (add_names xs ns)"
proof (induction xs arbitrary: ns)
  case (Cons y xs)
  show ?case using Cons add_names_prefix [of xs "add_name y ns"] by (auto simp: add_name_def split: if_splits)
qed simp

text \<open>A name keeps its identifier when others are registered.\<close>

lemma lookup_stable:
  assumes "vars_are ns s" "vars_are (add_names xs ns) t" "x \<in> set ns"
  shows "lookup t x = lookup s x"
proof -
  obtain ms where ms: "add_names xs ns = ns @ ms" using add_names_prefix by blast
  have "takeWhile ((\<noteq>) x) (ns @ ms) = takeWhile ((\<noteq>) x) ns" using assms(3) by (intro takeWhile_append1) auto
  then show ?thesis using lookup_known [OF assms(1,3)] lookup_known [OF assms(2), of x] assms(3) by (simp add: ms)
qed

primrec expr_names :: "expr \<Rightarrow> string set" where
  "expr_names (Const w) = {}" | "expr_names (Var j x) = {x}" | "expr_names (Arith op a b) = expr_names a \<union> expr_names b"

primrec cond_names :: "condition \<Rightarrow> string set" where
  "cond_names (Rel op a b) = expr_names a \<union> expr_names b" | "cond_names (And c d) = cond_names c \<union> cond_names d"
| "cond_names (Or c d) = cond_names c \<union> cond_names d" | "cond_names (Not c) = cond_names c"

lemma enc_expr_stable:
  "vars_are ns s \<Longrightarrow> vars_are (add_names xs ns) t \<Longrightarrow> expr_names e \<subseteq> set ns \<Longrightarrow> enc_expr t e = enc_expr s e"
  by (induction e) (auto simp: lookup_stable)

lemma enc_cond_stable:
  "vars_are ns s \<Longrightarrow> vars_are (add_names xs ns) t \<Longrightarrow> cond_names c \<subseteq> set ns \<Longrightarrow> enc_cond t c = enc_cond s c"
  by (induction c) (auto simp: enc_expr_stable [of ns s xs t])

section \<open>Operands and operators\<close>

text \<open>The parser in front of the words \<open>ws\<close>, with the attributes \<open>ns\<close> registered and 128 bytes of code.\<close>

definition at_words :: "query_word list \<Rightarrow> string list \<Rightarrow> parser \<Rightarrow> bool" where
  "at_words ws ns ps \<longleftrightarrow> before ws (lex ps) \<and> list_all valid_word ws \<and> vars_are ns (vm_vars ps) \<and>
     length (code (vm ps)) = 128 \<and> csize (vm ps) = 128 \<and> cend (vm ps) < 128"

text \<open>What conditions leave alone: the query but for its attributes.\<close>

definition kept :: "parser \<Rightarrow> parser \<Rightarrow> bool" where
  "kept ps ps' \<longleftrightarrow> junk ps' = junk ps \<and> relations (adt ps') = relations (adt ps) \<and> relation_count (adt ps') = relation_count (adt ps) \<and>
     optype (adt ps') = optype (adt ps) \<and> condition_set (adt ps') = condition_set (adt ps) \<and> adt_flags (adt ps') = adt_flags (adt ps)"

lemma kept_refl [simp]: "kept ps ps"
  by (simp add: kept_def)

lemma kept_trans: "kept a b \<Longrightarrow> kept b c \<Longrightarrow> kept a c"
  by (simp add: kept_def)

lemma NEXT_word:
  assumes "at_words (w # ws) ns ps"
  obtains ps' where "NEXT ps = Some ps'" "at_words ws ns ps'" "at_words (w # ws) ns (REWIND ps')" "TOKEN ps' = word_tok w"
    "lx_value (lex ps') = word_value w (lx_value (lex ps))" "vm ps' = vm ps" "vm_vars ps' = vm_vars ps" "adt ps' = adt ps" "junk ps' = junk ps"
    "adt (REWIND ps') = adt ps" "vm (REWIND ps') = vm ps" "junk (REWIND ps') = junk ps" "vm_vars (REWIND ps') = vm_vars ps"
proof -
  obtain lx where "lexer_next (lex ps) = Some (1, lx)" "before ws lx" "before (w # ws) (lexer_rewind lx)" "tok lx = word_tok w"
    "lx_value lx = word_value w (lx_value (lex ps))"
    using lexer_next_before [of w ws "lex ps"] assms by (auto simp: at_words_def)
  then show ?thesis using assms that [of "ps\<lparr>lex := lx\<rparr>"] by (simp add: NEXT_def REWIND_def TOKEN_def at_words_def)
qed

lemma append_code_ok:
  assumes "length (code p) = 128" "cend p + length bs \<le> 128"
  shows "\<exists>p'. append_code bs p = Some p' \<and> appended bs p p'"
proof -
  obtain p' where "append_code bs p = Some p'" using assms by (auto simp: append_code_def write_bytes_def)
  then show ?thesis using appended_append_code by blast
qed

lemma append_code_append:
  "length (code p) = 128 \<Longrightarrow> cend p + length as + length bs \<le> 128 \<Longrightarrow> Option.bind (append_code as p) (append_code bs) = append_code (as @ bs) p"
  by (simp add: append_code_def write_bytes_def ac_simps)

lemma set_operand_ok:
  assumes "length (code p) = 128" "cend p + 12 \<le> 128"
  shows "\<exists>p'. lvm_set_operand \<lparr>op_type = t, op_value = v\<rparr> p = Some p' \<and> appended (enc_operand t v) p p'"
proof -
  have "lvm_set_operand \<lparr>op_type = t, op_value = v\<rparr> p = append_code (enc_operand t v) p"
    using append_code_append [of p "le32 LVM_OPERAND" "le32 t @ le32 v"] assms by (simp add: lvm_set_operand_def lvm_set_type_def enc_operand_def)
  then show ?thesis using append_code_ok [OF assms(1), of "enc_operand t v"] assms(2) by (simp add: enc_operand_def)
qed

lemma set_relation_ok:
  assumes "length (code p) = 128" "cend p + 8 \<le> 128"
  shows "lvm_set_relation op p = append_code (le32 LVM_CMP_OP @ le32 op) p" "lvm_set_op op p = append_code (le32 LVM_ARITH_OP @ le32 op) p"
  using append_code_append [of p "le32 LVM_CMP_OP" "le32 op"] append_code_append [of p "le32 LVM_ARITH_OP" "le32 op"] assms
  by (simp_all add: lvm_set_relation_def lvm_set_op_def lvm_set_type_def)

text \<open>What a parser of the words \<open>ws\<close> makes of them: it registers \<open>xs\<close> and appends the code \<open>bs\<close>.\<close>

definition compiles :: "parser \<Rightarrow> query_word list \<Rightarrow> string list \<Rightarrow> u8 list \<Rightarrow> parser \<Rightarrow> bool" where
  "compiles ps ws ns bs ps' \<longleftrightarrow> at_words ws ns ps' \<and> kept ps ps' \<and> appended bs (vm ps) (vm ps')"

lemma atom_word_tok: "word_tok (atom_word a) \<noteq> LEFT_PAREN" "word_tok (atom_word a) = IDENTIFIER \<or> word_tok (atom_word a) = INTEGER_VALUE"
  by (cases a; simp)+

lemma parse_operand_atom:
  assumes "at_words (atom_word a # ws) ns ps" "cend (vm ps) + 12 < 128" "length (add_names (atom_names a) ns) \<le> 3"
    "list_all attr_name (atom_names a)"
  shows "\<exists>ps' bs. parse_operand ps = Some (OK, ps') \<and> compiles ps ws (add_names (atom_names a) ns) bs ps' \<and> length bs = 12 \<and>
    enc_expr (vm_vars ps') (atom_expr (junk ps) a) = Some bs"
proof -
  obtain q where q: "NEXT ps = Some q" "at_words ws ns q" "TOKEN q = word_tok (atom_word a)"
    "lx_value (lex q) = word_value (atom_word a) (lx_value (lex ps))" "vm q = vm ps" "vm_vars q = vm_vars ps" "adt q = adt ps" "junk q = junk ps"
    using NEXT_word [OF assms(1)] by metis
  have code: "length (code (vm ps)) = 128" "cend (vm ps) + 12 \<le> 128" using assms(1,2) by (simp_all add: at_words_def)
  show ?thesis
  proof (cases a)
    case (Lit w)
    obtain p where "lvm_set_long w (vm ps) = Some p" "appended (enc_operand LVM_LONG w) (vm ps) p"
      using set_operand_ok [OF code, of LVM_LONG w] by (auto simp: lvm_set_long_def)
    then show ?thesis using q Lit assms(2)
      by (auto simp: parse_operand_def compiles_def at_words_def kept_def appended_def enc_operand_def)
  next
    case (Attr x)
    then have x: "attr_name x" "x \<noteq> ''''" "length x \<le> LVM_MAX_NAME_LENGTH" using assms(4) by (auto simp: attr_name_def)
    obtain r s where s: "lvm_register_variable x LVM_LONG (vm_vars ps) = Some (r, s)" "vars_are (add_name x ns) s"
      using register_name [of ns "vm_vars ps" x LVM_LONG] assms(1,3) x Attr by (auto simp: at_words_def)
    obtain i where i: "lookup s x = Some i" "i < 3"
      using lookup_known [OF s(2), of x] in_add_names [of x "[x]" ns] lookup_less [OF vars_are_ok [OF s(2)]] by auto
    obtain p where p: "lvm_set_variable (junk ps) x s (vm ps) = Some p" "appended (enc_operand LVM_VARIABLE (id_value (junk ps) i)) (vm ps) p"
      using set_operand_ok [OF code, of LVM_VARIABLE "id_value (junk ps) i"] i
      by (auto simp: lvm_set_variable_def id_value_def LVM_MAX_VARIABLE_ID_def)
    show ?thesis using q s i p Attr assms(2)
      by (auto simp: parse_operand_def VALUE_def AQL_ADD_PROCESSING_ATTRIBUTE_def aql_add_attribute_def Let_def compiles_def at_words_def kept_def appended_def enc_operand_def)
  qed
qed

text \<open>Code that is moved up, for the operator in front of it.\<close>

lemma shift_for_operator:
  assumes "appended bs p q" "bs \<noteq> []" "cend q + 8 < 128" "length (code p) = 128" "csize p = 128" "length h = 8"
  obtains q' q'' where "lvm_shift_for_operator (cend p) q = Some (cend q + 8, q')" "append_code h q' = Some q''"
    "appended (h @ bs) p (snd (lvm_set_end (cend q + 8) q''))" "length (code q') = 128" "cend q' = cend p"
proof -
  let ?a = "take (cend p) (code p)" and ?z = "drop (cend q) (code p)"
  have q: "code q = ?a @ bs @ ?z" "cend q = cend p + length bs" "csize q = 128" "cip q = cip p" using assms(1,5) by (auto simp: appended_def)
  have len: "length ?a = cend p" using q assms(3,4) by simp
  have c: "length (code q) = 128" using q(1,2) assms(3,4) by simp
  have rd: "read_bytes (cend p) (cend q - cend p) (code q) = Some bs"
    using q len by (simp add: read_bytes_def)
  define c' where "c' = take (cend p + 8) (code q) @ bs @ drop (cend q + 8) (code q)"
  have wr: "write_bytes (cend p + 8) bs (code q) = Some c'"
    using c q(2) assms(3) by (simp add: write_bytes_def c'_def ac_simps)
  define q' where "q' = q\<lparr>code := c', cend := cend p\<rparr>"
  have sh: "lvm_shift_for_operator (cend p) q = Some (cend q + 8, q')"
    using rd wr q assms(2,3) by (simp add: lvm_shift_for_operator_def sizeof_operator_def sizeof_node_type_def q'_def Let_def ac_simps)
  have c'len: "length c' = 128" using c q(2) assms(3) by (simp add: c'_def)
  define q'' where "q'' = q'\<lparr>code := take (cend p) c' @ h @ drop (cend p + 8) c', cend := cend p + 8\<rparr>"
  have ap: "append_code h q' = Some q''"
    using c'len q(2) assms(3,6) by (simp add: append_code_def write_bytes_def q'_def q''_def)
  have t: "take (cend p) c' = ?a" using len q(1) c q(2) assms(3) by (simp add: c'_def min_def)
  have d: "drop (cend p + 8) c' = bs @ drop (cend q + 8) (code q)" using c q(2) assms(3) by (simp add: c'_def)
  have d2: "drop (cend q + 8) (code q) = drop (cend q + 8) (code p)" using q(1,2) len by (simp add: add.commute)
  have "appended (h @ bs) p (snd (lvm_set_end (cend q + 8) q''))"
    using assms(3-6) q t d d2 c'len by (simp add: appended_def lvm_set_end_def q''_def q'_def ac_simps)
  then show ?thesis using that [OF sh ap] c'len by (simp add: q'_def)
qed

lemma compiles_trans:
  "compiles ps ws ns as qs \<Longrightarrow> compiles qs vs ms bs rs \<Longrightarrow> compiles ps vs ms (as @ bs) rs"
  unfolding compiles_def using appended_trans kept_trans by blast

lemma compilesD:
  assumes "compiles ps ws ns bs qs"
  shows "at_words ws ns qs" "kept ps qs" "appended bs (vm ps) (vm qs)" "cend (vm qs) = cend (vm ps) + length bs" "junk qs = junk ps"
  using assms by (simp_all add: compiles_def appended_def kept_def)

text \<open>Words that end an expression.\<close>

definition ends_expr :: "query_word \<Rightarrow> bool" where
  "ends_expr w \<longleftrightarrow> word_tok w \<notin> {ADD, SUB, MUL, DIV, RIGHT_PAREN}"

lemma expr_loop_ends:
  assumes "at_words (w # ws) ns ps" "ends_expr w"
  shows "\<exists>ps'. expr_at (Some e) ps = Some (OK, ps') \<and> at_words (w # ws) ns ps' \<and> kept ps ps' \<and> vm ps' = vm ps \<and> vm_vars ps' = vm_vars ps"
proof -
  obtain q where "NEXT ps = Some q" "at_words (w # ws) ns (REWIND q)" "TOKEN q = word_tok w" "adt (REWIND q) = adt ps" "vm (REWIND q) = vm ps"
    "junk (REWIND q) = junk ps" "vm_vars (REWIND q) = vm_vars ps"
    using NEXT_word [OF assms(1)] by metis
  then show ?thesis using assms(2) by (simp add: expr_at.simps [of "Some e"] parse_op_def ends_expr_def kept_def)
qed

text \<open>The first operand, up to the loop.\<close>

lemma expr_start:
  assumes "at_words (atom_word a # ws) ns ps" "cend (vm ps) + 12 < 128" "length (add_names (atom_names a) ns) \<le> 3" "list_all attr_name (atom_names a)"
  shows "\<exists>ps' bs. expr_at None ps = expr_at (Some (cend (vm ps))) ps' \<and> compiles ps ws (add_names (atom_names a) ns) bs ps' \<and> length bs = 12 \<and>
    enc_expr (vm_vars ps') (atom_expr (junk ps) a) = Some bs"
proof -
  obtain q where q: "NEXT ps = Some q" "at_words (atom_word a # ws) ns (REWIND q)" "TOKEN q = word_tok (atom_word a)" "adt (REWIND q) = adt ps"
    "vm (REWIND q) = vm ps" "junk (REWIND q) = junk ps"
    using NEXT_word [OF assms(1)] by metis
  obtain ps' bs where p: "parse_operand (REWIND q) = Some (OK, ps')" "compiles (REWIND q) ws (add_names (atom_names a) ns) bs ps'" "length bs = 12"
    "enc_expr (vm_vars ps') (atom_expr (junk ps) a) = Some bs"
    using parse_operand_atom [OF q(2) _ assms(3,4)] assms(2) q(5,6) by auto
  have "compiles ps ws (add_names (atom_names a) ns) bs ps'"
    using p(2) q(4-6) by (simp add: compiles_def kept_def)
  then show ?thesis using q(1,3) p atom_word_tok(1) [of a]
    by (auto simp: expr_at.simps [of None] lvm_get_end_def AQL_ERROR_def OK_def)
qed

lemma operator_of_aop: "operator_of (aop_token op) = aop_code op" "aop_token op \<in> {ADD, SUB, MUL, DIV}"
  by (cases op; simp add: operator_of_def)+

lemma side_names_expr: "expr_names (side_expr j sd) \<subseteq> set (add_names (side_names sd) ns)"
  "expr_names (atom_expr j a) \<subseteq> set (add_names (atom_names a) ns)"
proof -
  have a: "expr_names (atom_expr j a) \<subseteq> set (atom_names a)" for a by (cases a) auto
  then show "expr_names (atom_expr j a) \<subseteq> set (add_names (atom_names a) ns)" using in_add_names by fast
  have "expr_names (side_expr j sd) \<subseteq> set (side_names sd)" using a by (cases sd) auto
  then show "expr_names (side_expr j sd) \<subseteq> set (add_names (side_names sd) ns)" using in_add_names by fast
qed

lemma parse_side:
  assumes "at_words (side_words sd @ w # ws) ns ps" "ends_expr w" "cend (vm ps) + side_size sd < 128"
    "length (add_names (side_names sd) ns) \<le> 3" "list_all attr_name (side_names sd)"
  shows "\<exists>ps' bs. parse_expr ps = Some (OK, ps') \<and> compiles ps (w # ws) (add_names (side_names sd) ns) bs ps' \<and> length bs = side_size sd \<and>
    enc_expr (vm_vars ps') (side_expr (junk ps) sd) = Some bs"
proof (cases sd)
  case (One a)
  obtain q bs where q: "expr_at None ps = expr_at (Some (cend (vm ps))) q" "compiles ps (w # ws) (add_names (atom_names a) ns) bs q" "length bs = 12"
    "enc_expr (vm_vars q) (atom_expr (junk ps) a) = Some bs"
    using expr_start [of a "w # ws" ns ps] assms One by auto
  obtain ps' where "expr_at (Some (cend (vm ps))) q = Some (OK, ps')" "at_words (w # ws) (add_names (atom_names a) ns) ps'" "kept q ps'"
      "vm ps' = vm q" "vm_vars ps' = vm_vars q"
    using expr_loop_ends [OF compilesD(1) [OF q(2)] assms(2)] by blast
  then show ?thesis using q One kept_trans [of ps q ps'] by (simp add: parse_expr_def compiles_def)
next
  case (Two op a b)
  let ?ns = "add_names (atom_names a) ns" and ?e = "cend (vm ps)"
  have three: "length ?ns \<le> 3" using assms(4) Two add_names_length [of ?ns "atom_names b"] by simp
  have word: "at_words (atom_word a # Keyword (aop_token op) # atom_word b # w # ws) ns ps" using assms(1) Two by simp
  obtain q x where q: "expr_at None ps = expr_at (Some ?e) q" "compiles ps (Keyword (aop_token op) # atom_word b # w # ws) ?ns x q" "length x = 12"
    "enc_expr (vm_vars q) (atom_expr (junk ps) a) = Some x"
    using expr_start [OF word _ three] assms Two by auto
  obtain q1 where q1: "NEXT q = Some q1" "at_words (atom_word b # w # ws) ?ns q1" "TOKEN q1 = aop_token op" "vm q1 = vm q" "vm_vars q1 = vm_vars q" "adt q1 = adt q" "junk q1 = junk q"
    using NEXT_word [OF compilesD(1) [OF q(2)]] by (metis word_tok.simps(1))
  have end1: "cend (vm q1) = ?e + 12" using compilesD(4) [OF q(2)] q(3) q1(4) by simp
  obtain q2 y where q2: "parse_operand q1 = Some (OK, q2)" "compiles q1 (w # ws) (add_names (atom_names b) ?ns) y q2" "length y = 12"
    "enc_expr (vm_vars q2) (atom_expr (junk q1) b) = Some y"
    using parse_operand_atom [OF q1(2)] end1 assms(3-5) Two by auto
  have c2: "compiles ps (w # ws) (add_names (side_names sd) ns) (x @ y) q2"
  proof -
    have "compiles q (w # ws) (add_names (atom_names b) ?ns) y q2" using q2(2) q1(4,6,7) by (simp add: compiles_def kept_def)
    then show ?thesis using compiles_trans [OF q(2)] Two by simp
  qed
  note d2 = compilesD [OF c2]
  have end2: "cend (vm q2) = ?e + 24" using d2(4) q(3) q2(3) by simp
  have c: "length (code (vm ps)) = 128" "csize (vm ps) = 128" using assms(1) by (simp_all add: at_words_def)
  let ?h = "le32 LVM_ARITH_OP @ le32 (aop_code op)"
  obtain p1 p2 where p: "lvm_shift_for_operator ?e (vm q2) = Some (cend (vm q2) + 8, p1)" "append_code ?h p1 = Some p2"
    "appended (?h @ x @ y) (vm ps) (snd (lvm_set_end (cend (vm q2) + 8) p2))" "length (code p1) = 128" "cend p1 = ?e"
  proof (rule shift_for_operator [OF d2(3) _ _ c, of ?h])
    show "x @ y \<noteq> []" "cend (vm q2) + 8 < 128" "length ?h = 8" using q(3) end2 assms(3) Two by auto
  qed
  let ?q3 = "q2\<lparr>vm := snd (lvm_set_end (cend (vm q2) + 8) p2)\<rparr>"
  have op: "lvm_set_op (aop_code op) p1 = Some p2" using set_relation_ok(2) [OF p(4), of "aop_code op"] p(2,5) assms(3) Two by simp
  have c3: "compiles ps (w # ws) (add_names (side_names sd) ns) (?h @ x @ y) ?q3"
    using d2 p(3) c assms(3) q(3) q2(3) Two by (auto simp: compiles_def at_words_def kept_def appended_def)
  obtain ps' where l: "expr_at (Some (cend (vm q2) + 8)) ?q3 = Some (OK, ps')" "at_words (w # ws) (add_names (side_names sd) ns) ps'" "kept ?q3 ps'"
      "vm ps' = vm ?q3" "vm_vars ps' = vm_vars ?q3"
    using expr_loop_ends [OF compilesD(1) [OF c3] assms(2)] by blast
  have "expr_at (Some ?e) q = expr_at (Some (cend (vm q2) + 8)) ?q3"
    using q1(1,3) q2(1) p(1) op operator_of_aop [of op]
    by (auto simp: expr_at.simps [of "Some ?e"] parse_op_def AQL_ERROR_def OK_def)
  moreover have "enc_expr (vm_vars q2) (atom_expr (junk ps) a) = Some x"
    using enc_expr_stable [of ?ns "vm_vars q" "atom_names b" "vm_vars q2" "atom_expr (junk ps) a"] compilesD(1) [OF q(2)] compilesD(1) [OF q2(2)] q(4) side_names_expr(2)
    by (simp add: at_words_def)
  moreover have "compiles ps (w # ws) (add_names (side_names sd) ns) (?h @ x @ y) ps'"
    using c3 l kept_trans [of ps ?q3 ps'] by (simp add: compiles_def)
  moreover have "junk q1 = junk ps" using q1(7) compilesD(5) [OF q(2)] by simp
  ultimately show ?thesis using q(1,3) q2(3,4) l Two by (simp add: parse_expr_def)
qed

section \<open>Comparisons and conditions\<close>

text \<open>Code behind the room for an operator, which is filled in then.\<close>

lemma fill_in_operator:
  assumes "appended bs (p\<lparr>cend := cend p + 8\<rparr>) q" "cend q < 128" "length (code p) = 128" "csize p = 128" "length h = 8"
  obtains q' where "append_code h (q\<lparr>cend := cend p\<rparr>) = Some q'" "appended (h @ bs) p (snd (lvm_set_end (cend q) q'))"
proof -
  let ?e = "cend p"
  have q: "code q = take (?e + 8) (code p) @ bs @ drop (cend q) (code p)" "cend q = ?e + 8 + length bs" "csize q = 128" "cip q = cip p"
    using assms(1,4) by (auto simp: appended_def)
  have len: "length (take (?e + 8) (code p)) = ?e + 8" using q(2) assms(2,3) by simp
  have c: "length (code q) = 128" using q(1,2) assms(2,3) by simp
  define q' where "q' = q\<lparr>code := take ?e (code q) @ h @ drop (?e + 8) (code q), cend := ?e + 8\<rparr>"
  have ap: "append_code h (q\<lparr>cend := ?e\<rparr>) = Some q'"
    using c q(2) assms(2,5) by (simp add: append_code_def write_bytes_def q'_def)
  have t: "take ?e (code q) = take ?e (code p)" using q(1) len by (simp add: min_def)
  have d: "drop (?e + 8) (code q) = bs @ drop (cend q) (code p)" using q(1) len by simp
  have "appended (h @ bs) p (snd (lvm_set_end (cend q) q'))"
    using assms(2-5) q t d by (simp add: appended_def lvm_set_end_def q'_def)
  then show ?thesis using that [OF ap] by blast
qed

lemma relation_of_rop: "relation_of (rop_token op) = rop_code op" "rop_token op \<in> {EQUAL, NOT_EQUAL, GT, LT, GEQ, LEQ}" "rop_token op \<noteq> T_NONE"
  "ends_expr (Keyword (rop_token op))"
  by (cases op; simp add: relation_of_def ends_expr_def)+

lemma parse_comparison_correct:
  assumes "at_words (compare_words c @ w # ws) ns ps" "ends_expr w" "cend (vm ps) + compare_size c < 128"
    "length (add_names (compare_names c) ns) \<le> 3" "list_all attr_name (compare_names c)"
  shows "\<exists>ps' bs. parse_comparison ps = Some (OK, ps') \<and> compiles ps (w # ws) (add_names (compare_names c) ns) bs ps' \<and> length bs = compare_size c \<and>
    enc_cond (vm_vars ps') (compare_cond (junk ps) c) = Some bs"
proof -
  obtain op a b where cmp: "c = Compare op a b" by (cases c)
  let ?e = "cend (vm ps)" and ?ns = "add_names (side_names a) ns" and ?ms = "add_names (compare_names c) ns"
  let ?p0 = "(vm ps)\<lparr>cend := ?e + 8\<rparr>"
  let ?ps0 = "ps\<lparr>vm := ?p0\<rparr>"
  have c: "length (code (vm ps)) = 128" "csize (vm ps) = 128" using assms(1) by (simp_all add: at_words_def)
  have jump: "lvm_jump_to_operand (vm ps) = (?e, ?p0)"
    using assms(3) c(2) cmp by (simp add: lvm_jump_to_operand_def sizeof_operator_def sizeof_node_type_def Let_def)
  have three: "length ?ns \<le> 3" using assms(4) cmp add_names_length [of ?ns "side_names b"] by simp
  have w0: "at_words (side_words a @ Keyword (rop_token op) # side_words b @ w # ws) ns ?ps0"
    using assms(1,3) cmp by (simp add: at_words_def)
  obtain q x where q: "parse_expr ?ps0 = Some (OK, q)" "compiles ?ps0 (Keyword (rop_token op) # side_words b @ w # ws) ?ns x q" "length x = side_size a"
    "enc_expr (vm_vars q) (side_expr (junk ps) a) = Some x"
    using parse_side [OF w0 relation_of_rop(4) _ three] assms(3,5) cmp by auto
  have endq: "cend (vm q) = ?e + 8 + side_size a" using compilesD(4) [OF q(2)] q(3) by simp
  let ?q1 = "q\<lparr>vm := (vm q)\<lparr>cend := ?e\<rparr>\<rparr>"
  have w1: "at_words (Keyword (rop_token op) # side_words b @ w # ws) ?ns ?q1"
    using compilesD(1) [OF q(2)] assms(3) by (simp add: at_words_def)
  obtain q2 where q2: "NEXT ?q1 = Some q2" "at_words (side_words b @ w # ws) ?ns q2" "TOKEN q2 = rop_token op" "vm q2 = (vm q)\<lparr>cend := ?e\<rparr>" "vm_vars q2 = vm_vars q"
    "adt q2 = adt q" "junk q2 = junk q"
    by (rule NEXT_word [OF w1]) simp
  have setend: "lvm_set_end ?e (vm q) = (cend (vm q), (vm q)\<lparr>cend := ?e\<rparr>)"
    using compilesD(1) [OF q(2)] assms(3) by (simp add: lvm_set_end_def at_words_def)
  let ?h = "le32 LVM_CMP_OP @ le32 (rop_code op)"
  obtain p where p: "append_code ?h ((vm q)\<lparr>cend := ?e\<rparr>) = Some p" "appended (?h @ x) (vm ps) (snd (lvm_set_end (cend (vm q)) p))"
  proof (rule fill_in_operator [OF _ _ c, of x "vm q" ?h])
    show "appended x ?p0 (vm q)" "cend (vm q) < 128" "length ?h = 8" using compilesD(3) [OF q(2)] endq assms(3) cmp by auto
  qed
  let ?q3 = "q2\<lparr>vm := snd (lvm_set_end (cend (vm q)) p)\<rparr>"
  have rel: "lvm_set_relation (rop_code op) (vm q2) = Some p"
    using set_relation_ok(1) [of "vm q2" "rop_code op"] q2(4) p(1) q2(2) assms(3) cmp by (simp add: at_words_def)
  have c3: "compiles ps (side_words b @ w # ws) ?ns (?h @ x) ?q3"
    using q2(2,6,7) compilesD(2) [OF q(2)] p(2) c assms(3) q(3) cmp by (auto simp: compiles_def at_words_def kept_def appended_def)
  have end3: "cend (vm ?q3) = ?e + 8 + side_size a" using compilesD(4) [OF c3] q(3) by simp
  obtain ps' y where f: "parse_expr ?q3 = Some (OK, ps')" "compiles ?q3 (w # ws) ?ms y ps'" "length y = side_size b"
    "enc_expr (vm_vars ps') (side_expr (junk ?q3) b) = Some y"
    using parse_side [OF compilesD(1) [OF c3] assms(2)] end3 assms(3-5) cmp by auto
  have "parse_comparison ps = Some (OK, ps')"
    using jump q(1) setend q2(1,3) rel f(1) relation_of_rop [of op] by (simp add: parse_comparison_def parse_cmp_def AQL_ERROR_def OK_def)
  moreover have "enc_expr (vm_vars ps') (side_expr (junk ps) a) = Some x"
    using enc_expr_stable [of ?ns "vm_vars q" "side_names b" "vm_vars ps'" "side_expr (junk ps) a"] compilesD(1) [OF q(2)] compilesD(1) [OF f(2)] q(4) side_names_expr(1) cmp
    by (simp add: at_words_def)
  moreover have "junk ?q3 = junk ps" using compilesD(5) [OF c3] by simp
  ultimately show ?thesis using compiles_trans [OF c3 f(2)] f(3,4) q(3) cmp by simp
qed

definition more_size :: "(bool \<times> comparison) list \<Rightarrow> nat" where
  "more_size cs = sum_list (map (\<lambda>(con, c). 8 + compare_size c) cs)"

definition more_names :: "(bool \<times> comparison) list \<Rightarrow> string list" where
  "more_names cs = concat (map (compare_names \<circ> snd) cs)"

text \<open>Words that end a condition.\<close>

definition ends_where :: "query_word \<Rightarrow> bool" where
  "ends_where w \<longleftrightarrow> ends_expr w \<and> word_tok w \<noteq> T_AND \<and> word_tok w \<noteq> T_OR"

lemma more_words_head:
  assumes "ends_where w"
  obtains v vs where "more_words cs @ w # ws = v # vs" "ends_expr v"
  using assms that by (cases cs) (auto simp: more_words_def ends_where_def ends_expr_def)

lemma compare_words_head: "\<exists>a ws. compare_words c = atom_word a # ws"
proof (cases c)
  case (Compare op a b)
  then show ?thesis by (cases a) auto
qed

lemma compare_names_cond: "cond_names (compare_cond j c) \<subseteq> set (add_names (compare_names c) ns)"
proof (cases c)
  case (Compare op a b)
  have "expr_names (side_expr j a) \<subseteq> set (add_names (side_names b) (add_names (side_names a) ns))"
    using side_names_expr(1) [of j a ns] add_names_prefix [of "side_names b" "add_names (side_names a) ns"] by auto
  then show ?thesis using side_names_expr(1) [of j b "add_names (side_names a) ns"] Compare by simp
qed

lemma compare_size_pos: "compare_size c > 0"
  by (cases c) simp

lemma where_loop:
  assumes "at_words (more_words cs @ w # ws) ns ps" "ends_where w" "appended x p (vm ps)" "x \<noteq> []" "length (code p) = 128" "csize p = 128"
    and "enc_cond (vm_vars ps) (compare_cond (junk ps) c) = Some x" "cond_names (compare_cond (junk ps) c) \<subseteq> set ns"
    and "cend (vm ps) + more_size cs < 128" "length (add_names (more_names cs) ns) \<le> 3" "list_all attr_name (more_names cs)"
  shows "\<exists>ps' bs. where_at (Some (cend p)) ps = Some (OK, ps') \<and> at_words (w # ws) (add_names (more_names cs) ns) ps' \<and> kept ps ps' \<and>
    appended bs p (vm ps') \<and> enc_cond (vm_vars ps') (more_cond (junk ps) c cs) = Some bs"
  using assms(1,3-11)
proof (induction cs arbitrary: ns ps x p c)
  case Nil
  have w1: "at_words (w # ws) ns ps" using Nil.prems(1) by (simp add: more_words_def)
  obtain q where "NEXT ps = Some q" "at_words (w # ws) ns (REWIND q)" "TOKEN q = word_tok w" "adt (REWIND q) = adt ps" "vm (REWIND q) = vm ps"
    "junk (REWIND q) = junk ps" "vm_vars (REWIND q) = vm_vars ps"
    by (rule NEXT_word [OF w1]) simp
  then show ?case using Nil assms(2) by (auto simp: where_at.simps [of "Some (cend p)"] ends_where_def kept_def more_names_def)
next
  case (Cons cd cs)
  obtain con d where cd: "cd = (con, d)" by (cases cd)
  let ?con = "if con then LVM_AND else LVM_OR" and ?ns = "add_names (compare_names d) ns"
  let ?h = "le32 LVM_CMP_OP @ le32 ?con"
  obtain a aws where a: "compare_words d = atom_word a # aws" using compare_words_head by blast
  have w1: "at_words (Keyword (if con then T_AND else T_OR) # compare_words d @ more_words cs @ w # ws) ns ps"
    using Cons.prems(1) cd by (simp add: more_words_def)
  obtain q1 where q1: "NEXT ps = Some q1" "at_words (compare_words d @ more_words cs @ w # ws) ns q1" "TOKEN q1 = (if con then T_AND else T_OR)"
      "vm q1 = vm ps" "vm_vars q1 = vm_vars ps" "adt q1 = adt ps" "junk q1 = junk ps"
    by (rule NEXT_word [OF w1]) simp
  have fits: "cend (vm ps) + 8 + compare_size d + more_size cs < 128" using Cons.prems(8) cd by (simp add: more_size_def)
  obtain p1 p2 where sh: "lvm_shift_for_operator (cend p) (vm ps) = Some (cend (vm ps) + 8, p1)" "append_code ?h p1 = Some p2"
    "appended (?h @ x) p (snd (lvm_set_end (cend (vm ps) + 8) p2))" "length (code p1) = 128" "cend p1 = cend p"
  proof (rule shift_for_operator [OF Cons.prems(2,3) _ Cons.prems(4,5), of ?h])
    show "cend (vm ps) + 8 < 128" "length ?h = 8" using fits by simp_all
  qed
  have rel: "lvm_set_relation ?con p1 = Some p2"
    using set_relation_ok(1) [OF sh(4), of ?con] sh(2,5) fits Cons.prems(2) by (simp add: appended_def)
  let ?p3 = "snd (lvm_set_end (cend (vm ps) + 8) p2)"
  let ?q3 = "q1\<lparr>vm := ?p3\<rparr>"
  have p3: "cend ?p3 = cend (vm ps) + 8" "length (code ?p3) = 128" "csize ?p3 = 128"
    using sh(3) Cons.prems(2,4,5) fits by (auto simp: appended_def)
  have w3: "at_words (atom_word a # aws @ more_words cs @ w # ws) ns ?q3" using q1(2) p3 fits a by (simp add: at_words_def)
  obtain q4 where q4: "NEXT ?q3 = Some q4" "at_words (compare_words d @ more_words cs @ w # ws) ns (REWIND q4)" "TOKEN q4 = word_tok (atom_word a)"
      "vm (REWIND q4) = ?p3" "vm_vars (REWIND q4) = vm_vars ps" "adt (REWIND q4) = adt ps" "junk (REWIND q4) = junk ps"
    by (rule NEXT_word [OF w3]) (simp add: a q1)
  obtain v vs where v: "more_words cs @ w # ws = v # vs" "ends_expr v" using more_words_head [OF assms(2)] by blast
  have three: "length ?ns \<le> 3" "length (add_names (more_names cs) ?ns) \<le> 3" "list_all attr_name (compare_names d)" "list_all attr_name (more_names cs)"
    using Cons.prems(9,10) cd add_names_length [of ?ns "more_names cs"] by (simp_all add: more_names_def)
  have w4: "at_words (compare_words d @ v # vs) ns (REWIND q4)" using q4(2) v(1) by simp
  obtain q5 y where q5: "parse_comparison (REWIND q4) = Some (OK, q5)" "compiles (REWIND q4) (v # vs) ?ns y q5" "length y = compare_size d"
    "enc_cond (vm_vars q5) (compare_cond (junk (REWIND q4)) d) = Some y"
    using parse_comparison_correct [OF w4 v(2) _ three(1,3)] q4(4) p3(1) fits by auto
  have j5: "junk q5 = junk ps" using compilesD(5) [OF q5(2)] q4(7) by simp
  obtain ps' bs where f: "where_at (Some (cend ?p3)) q5 = Some (OK, ps')" "at_words (w # ws) (add_names (more_names cs) ?ns) ps'" "kept q5 ps'"
    "appended bs ?p3 (vm ps')" "enc_cond (vm_vars ps') (more_cond (junk q5) d cs) = Some bs"
  proof (rule exE [OF Cons.IH [of ?ns q5 y ?p3 d]])
    show "at_words (more_words cs @ w # ws) ?ns q5" using compilesD(1) [OF q5(2)] v(1) by simp
    show "appended y ?p3 (vm q5)" using compilesD(3) [OF q5(2)] q4(4) by simp
    show "y \<noteq> []" using q5(3) compare_size_pos [of d] by auto
    show "enc_cond (vm_vars q5) (compare_cond (junk q5) d) = Some y" using q5(4) j5 q4(7) by simp
    show "cend (vm q5) + more_size cs < 128" using compilesD(4) [OF q5(2)] q4(4) p3(1) q5(3) fits by simp
  qed (use p3 three compare_names_cond in auto)
  have "where_at (Some (cend p)) ps = where_at (Some (cend ?p3)) q5"
    using q1(1,3,4) sh(1) rel q4(1,3) q5(1) atom_word_tok(1) [of a] p3(1)
    by (simp add: where_at.simps [of "Some (cend p)"] AQL_ERROR_def OK_def split: if_splits)
  moreover have "enc_cond (vm_vars ps') (compare_cond (junk ps) c) = Some x"
    using enc_cond_stable [of ns "vm_vars ps" "compare_names d @ more_names cs" "vm_vars ps'"] Cons.prems(1,6,7) f(2) by (simp add: at_words_def)
  moreover have "kept ps ps'" using compilesD(2) [OF q5(2)] f(3) q4(6,7) by (simp add: kept_def)
  ultimately show ?case
    using f(1,2,5) appended_trans [OF sh(3) f(4)] j5 cd by (cases con) (auto simp: more_names_def)
qed

lemma parse_where_correct:
  assumes "at_words (where_words wc @ w # ws) ns ps" "ends_where w" "cend (vm ps) = 0" "where_size wc < 128"
    "length (add_names (where_names wc) ns) \<le> 3" "list_all attr_name (where_names wc)"
  shows "\<exists>ps' bs. parse_where ps = Some (OK, ps') \<and> at_words (w # ws) (add_names (where_names wc) ns) ps' \<and> kept ps ps' \<and>
    appended bs (vm ps) (vm ps') \<and> enc_cond (vm_vars ps') (where_cond (junk ps) wc) = Some bs"
proof -
  obtain c cs where wc: "wc = (c, cs)" by (cases wc)
  let ?ns = "add_names (compare_names c) ns"
  obtain v vs where v: "more_words cs @ w # ws = v # vs" "ends_expr v" using more_words_head [OF assms(2)] by blast
  have w1: "at_words (compare_words c @ v # vs) ns ps" using assms(1) wc v(1) by (simp add: where_words_def)
  have size: "compare_size c + more_size cs < 128" using assms(4) wc by (simp add: where_size_def more_size_def)
  have three: "length ?ns \<le> 3" "length (add_names (more_names cs) ?ns) \<le> 3" "list_all attr_name (compare_names c)" "list_all attr_name (more_names cs)"
    using assms(5,6) wc add_names_length [of ?ns "more_names cs"] by (simp_all add: more_names_def where_names_def)
  obtain q x where q: "parse_comparison ps = Some (OK, q)" "compiles ps (v # vs) ?ns x q" "length x = compare_size c"
    "enc_cond (vm_vars q) (compare_cond (junk ps) c) = Some x"
    using parse_comparison_correct [OF w1 v(2) _ three(1,3)] assms(3) size by auto
  note d = compilesD [OF q(2)]
  have "\<exists>ps' bs. where_at (Some (cend (vm ps))) q = Some (OK, ps') \<and> at_words (w # ws) (add_names (more_names cs) ?ns) ps' \<and> kept q ps' \<and>
    appended bs (vm ps) (vm ps') \<and> enc_cond (vm_vars ps') (more_cond (junk q) c cs) = Some bs"
  proof (rule where_loop [OF _ assms(2) d(3)])
    show "at_words (more_words cs @ w # ws) ?ns q" using d(1) v(1) by simp
    show "x \<noteq> []" using q(3) compare_size_pos [of c] by auto
    show "length (code (vm ps)) = 128" "csize (vm ps) = 128" using assms(1) by (simp_all add: at_words_def)
    show "cend (vm q) + more_size cs < 128" using d(4) q(3) assms(3) size by simp
  qed (use q(4) d(5) three compare_names_cond in auto)
  then show ?thesis
    using q(1) d(2,5) assms(3) wc kept_trans [of ps q]
    by (auto simp: parse_where_def where_at.simps [of None] AQL_ERROR_def OK_def where_names_def more_names_def where_cond_def)
qed

section \<open>The statement\<close>

fun names_words :: "string list \<Rightarrow> query_word list" where
  "names_words [] = []"
| "names_words [x] = [Name x]"
| "names_words (x # xs) = Name x # Keyword COMMA # names_words xs"

definition select_words :: "string list \<Rightarrow> string list \<Rightarrow> where_clause \<Rightarrow> query_word list" where
  "select_words attrs rels wc = Keyword T_SELECT # names_words attrs @ Keyword T_FROM # names_words rels @ Keyword T_WHERE # where_words wc @ [Keyword T_END]"

definition at_text :: "query_word list \<Rightarrow> parser \<Rightarrow> bool" where
  "at_text ws ps \<longleftrightarrow> before ws (lex ps) \<and> list_all valid_word ws"

definition same_vm :: "parser \<Rightarrow> parser \<Rightarrow> bool" where
  "same_vm ps ps' \<longleftrightarrow> vm ps' = vm ps \<and> vm_vars ps' = vm_vars ps \<and> junk ps' = junk ps"

lemma same_vm_trans: "same_vm a b \<Longrightarrow> same_vm b c \<Longrightarrow> same_vm a c"
  by (simp add: same_vm_def)

lemma NEXT_text:
  assumes "at_text (w # ws) ps"
  obtains ps' where "NEXT ps = Some ps'" "at_text ws ps'" "at_text (w # ws) (REWIND ps')" "TOKEN ps' = word_tok w"
    "lx_value (lex ps') = word_value w (lx_value (lex ps))" "same_vm ps ps'" "same_vm ps (REWIND ps')" "adt ps' = adt ps" "adt (REWIND ps') = adt ps"
proof -
  obtain lx where "lexer_next (lex ps) = Some (1, lx)" "before ws lx" "before (w # ws) (lexer_rewind lx)" "tok lx = word_tok w"
    "lx_value lx = word_value w (lx_value (lex ps))"
    using lexer_next_before [of w ws "lex ps"] assms by (auto simp: at_text_def)
  then show ?thesis using assms that [of "ps\<lparr>lex := lx\<rparr>"] by (simp add: NEXT_def REWIND_def TOKEN_def at_text_def same_vm_def)
qed

lemma kept_attribute: "adt q = adt ps \<Longrightarrow> same_vm ps q \<Longrightarrow> kept ps (AQL_ADD_ATTRIBUTE x d n q)"
  by (simp add: kept_def AQL_ADD_ATTRIBUTE_def aql_add_attribute_def Let_def same_vm_def)

lemma parse_attribute_name:
  assumes "at_text (Name x # ws) ps"
  shows "\<exists>ps'. parse_attribute ps = Some (OK, ps') \<and> at_text ws ps' \<and> same_vm ps ps' \<and> kept ps ps'"
proof -
  obtain q where q: "NEXT ps = Some q" "at_text (Name x # ws) (REWIND q)" "TOKEN q = IDENTIFIER" "same_vm ps (REWIND q)" "adt (REWIND q) = adt ps"
    by (rule NEXT_text [OF assms]) simp
  obtain r where r: "NEXT (REWIND q) = Some r" "at_text ws r" "TOKEN r = IDENTIFIER" "same_vm (REWIND q) r" "adt r = adt (REWIND q)"
    by (rule NEXT_text [OF q(2)]) simp
  have "same_vm ps r" using same_vm_trans [OF q(4) r(4)] .
  then show ?thesis using q r kept_attribute [of r ps]
    by (auto simp: parse_attribute_def parse_aggregator_def at_text_def same_vm_def AQL_ADD_ATTRIBUTE_def)
qed

lemma parse_attributes_names:
  assumes "at_text (names_words xs @ w # ws) ps" "xs \<noteq> []" "word_tok w \<noteq> COMMA"
  shows "\<exists>ps'. parse_attributes ps = Some (OK, ps') \<and> at_text (w # ws) ps' \<and> same_vm ps ps' \<and> kept ps ps'"
  using assms(1,2)
proof (induction xs arbitrary: ps rule: names_words.induct)
  case (2 x)
  then obtain q where q: "parse_attribute ps = Some (OK, q)" "at_text (w # ws) q" "same_vm ps q" "kept ps q"
    using parse_attribute_name [of x "w # ws" ps] by auto
  obtain r where "NEXT q = Some r" "at_text (w # ws) (REWIND r)" "TOKEN r = word_tok w" "same_vm q (REWIND r)" "adt (REWIND r) = adt q"
    by (rule NEXT_text [OF q(2)]) simp
  then show ?case using q assms(3) same_vm_trans [of ps q]
    by (auto simp: parse_attributes.simps [of ps] AQL_ERROR_def OK_def kept_def same_vm_def)
next
  case (3 x y ys)
  obtain q where q: "parse_attribute ps = Some (OK, q)" "at_text (Keyword COMMA # names_words (y # ys) @ w # ws) q" "same_vm ps q" "kept ps q"
    using parse_attribute_name [of x "Keyword COMMA # names_words (y # ys) @ w # ws" ps] 3(2) by auto
  obtain r where r: "NEXT q = Some r" "at_text (names_words (y # ys) @ w # ws) r" "TOKEN r = COMMA" "same_vm q r" "adt r = adt q"
    by (rule NEXT_text [OF q(2)]) simp
  obtain s where s: "parse_attributes r = Some (OK, s)" "at_text (w # ws) s" "same_vm r s" "kept r s"
    using 3(1) [OF r(2)] by auto
  have "same_vm ps s" "kept ps s" using q(3,4) r(4,5) s(3,4) by (simp_all add: same_vm_def kept_def)
  then show ?case using q(1) r(1,3) s(1,2) by (simp add: parse_attributes.simps [of ps] AQL_ERROR_def OK_def)
qed simp

text \<open>The relations of a query.\<close>

definition query_relations :: "parser \<Rightarrow> string list" where
  "query_relations ps = take (relation_count (adt ps)) (relations (adt ps))"

definition relations_ok :: "parser \<Rightarrow> bool" where
  "relations_ok ps \<longleftrightarrow> length (relations (adt ps)) = AQL_RELATION_LIMIT \<and> relation_count (adt ps) \<le> AQL_RELATION_LIMIT"

lemma add_relation:
  assumes "relations_ok ps" "relation_count (adt ps) < AQL_RELATION_LIMIT" "length x \<le> RELATION_NAME_LENGTH"
  shows "\<exists>ps'. AQL_ADD_RELATION x ps = Some ps' \<and> lex ps' = lex ps \<and> same_vm ps ps' \<and> optype (adt ps') = optype (adt ps) \<and>
    relations_ok ps' \<and> relation_count (adt ps') = relation_count (adt ps) + 1 \<and> query_relations ps' = query_relations ps @ [x]"
  using assms by (auto simp: AQL_ADD_RELATION_def relations_ok_def query_relations_def same_vm_def Let_def take_Suc_conv_app_nth)

lemma parse_relation_name:
  assumes "at_text (Name x # ws) ps" "relations_ok ps" "relation_count (adt ps) < AQL_RELATION_LIMIT" "length x \<le> RELATION_NAME_LENGTH"
  obtains q ps' where "NEXT ps = Some q" "TOKEN q = IDENTIFIER" "AQL_ADD_RELATION (VALUE q) q = Some ps'" "at_text ws ps'" "same_vm ps ps'" "optype (adt ps') = optype (adt ps)"
    "relations_ok ps'" "relation_count (adt ps') = relation_count (adt ps) + 1" "query_relations ps' = query_relations ps @ [x]"
proof -
  obtain q where q: "NEXT ps = Some q" "at_text ws q" "TOKEN q = IDENTIFIER" "lx_value (lex q) = Text x" "same_vm ps q" "adt q = adt ps"
    by (rule NEXT_text [OF assms(1)]) simp
  have "relations_ok q" "query_relations q = query_relations ps" "VALUE q = x" using assms(2) q by (simp_all add: relations_ok_def query_relations_def VALUE_def)
  then show ?thesis using that [of q] add_relation [of q x] assms q same_vm_trans [OF q(5)] by (auto simp: at_text_def)
qed

lemma parse_relations_names:
  assumes "at_text (names_words xs @ w # ws) ps" "xs \<noteq> []" "word_tok w \<noteq> COMMA" "relations_ok ps"
    "relation_count (adt ps) + length xs \<le> AQL_RELATION_LIMIT" "\<forall>x \<in> set xs. length x \<le> RELATION_NAME_LENGTH"
  shows "\<exists>ps'. parse_relations ps = Some (OK, ps') \<and> at_text (w # ws) ps' \<and> same_vm ps ps' \<and> optype (adt ps') = optype (adt ps) \<and>
    query_relations ps' = query_relations ps @ xs"
  using assms(1,2,4-6)
proof (induction xs arbitrary: ps rule: names_words.induct)
  case (2 x)
  then have w1: "at_text (Name x # w # ws) ps" by simp
  obtain q0 q where q: "NEXT ps = Some q0" "TOKEN q0 = IDENTIFIER" "AQL_ADD_RELATION (VALUE q0) q0 = Some q" "at_text (w # ws) q" "same_vm ps q" "optype (adt q) = optype (adt ps)"
    "query_relations q = query_relations ps @ [x]"
    by (rule parse_relation_name [OF w1 2(3)]) (use 2(4,5) in auto)
  obtain r where "NEXT q = Some r" "at_text (w # ws) (REWIND r)" "TOKEN r = word_tok w" "same_vm q (REWIND r)" "adt (REWIND r) = adt q"
    by (rule NEXT_text [OF q(4)]) simp
  then show ?case using q assms(3) same_vm_trans [OF q(5)]
    by (auto simp: parse_relations.simps [of ps] AQL_ERROR_def OK_def query_relations_def)
next
  case (3 x y ys)
  then have w1: "at_text (Name x # Keyword COMMA # names_words (y # ys) @ w # ws) ps" by simp
  obtain q0 q where q: "NEXT ps = Some q0" "TOKEN q0 = IDENTIFIER" "AQL_ADD_RELATION (VALUE q0) q0 = Some q" "at_text (Keyword COMMA # names_words (y # ys) @ w # ws) q"
    "same_vm ps q" "optype (adt q) = optype (adt ps)" "relations_ok q" "relation_count (adt q) = relation_count (adt ps) + 1" "query_relations q = query_relations ps @ [x]"
    by (rule parse_relation_name [OF w1 3(4)]) (use 3(5,6) in auto)
  obtain r where r: "NEXT q = Some r" "at_text (names_words (y # ys) @ w # ws) r" "TOKEN r = COMMA" "same_vm q r" "adt r = adt q"
    by (rule NEXT_text [OF q(4)]) simp
  have "relations_ok r" "relation_count (adt r) + length (y # ys) \<le> AQL_RELATION_LIMIT" using q(7,8) r(5) 3(5) by (simp_all add: relations_ok_def)
  then obtain s where s: "parse_relations r = Some (OK, s)" "at_text (w # ws) s" "same_vm r s" "optype (adt s) = optype (adt r)" "query_relations s = query_relations r @ y # ys"
    using 3(1) [OF r(2)] 3(6) by auto
  have "same_vm ps s" using q(5) r(4) s(3) by (simp add: same_vm_def)
  moreover have "query_relations r = query_relations q" using r(5) by (simp add: query_relations_def)
  ultimately show ?case using q r(1,3,5) s by (simp add: parse_relations.simps [of ps] AQL_ERROR_def OK_def)
qed simp

text \<open>The parser as the query processor has it: tables of the sizes of their declarations.\<close>

definition parser_ok :: "parser \<Rightarrow> bool" where
  "parser_ok ps \<longleftrightarrow> length (relations (adt ps)) = AQL_RELATION_LIMIT \<and> length (code (vm ps)) = DB_VM_BYTECODE_SIZE"

text \<open>Queries that are compiled right.\<close>

definition select_ok :: "string list \<Rightarrow> string list \<Rightarrow> where_clause \<Rightarrow> bool" where
  "select_ok attrs rels wc \<longleftrightarrow>
     attrs \<noteq> [] \<and> list_all (\<lambda>x. valid_word (Name x)) attrs \<and>
     rels \<noteq> [] \<and> length rels \<le> AQL_RELATION_LIMIT \<and> list_all (\<lambda>x. valid_word (Name x) \<and> length x \<le> RELATION_NAME_LENGTH) rels \<and>
     list_all attr_name (where_names wc) \<and> length (remdups (where_names wc)) < LVM_MAX_VARIABLE_ID \<and>
     where_size wc < DB_VM_BYTECODE_SIZE"

lemma valid_names: "list_all (\<lambda>x. valid_word (Name x)) xs \<Longrightarrow> list_all valid_word (names_words xs)"
proof (induction xs rule: names_words.induct)
  case (3 x y ys)
  moreover have "valid_word (Keyword COMMA)" by (simp add: aql_keywords_def)
  ultimately show ?case by simp
qed simp_all

lemma valid_compare: "list_all attr_name (compare_names c) \<Longrightarrow> list_all valid_word (compare_words c)"
proof (cases c)
  case (Compare op a b)
  assume "list_all attr_name (compare_names c)"
  moreover have atom: "list_all attr_name (atom_names a) \<Longrightarrow> valid_word (atom_word a)" for a by (cases a) (auto simp: attr_name_def)
  have side: "list_all attr_name (side_names sd) \<Longrightarrow> list_all valid_word (side_words sd)" for sd
  proof (cases sd)
    case (Two op a b)
    assume "list_all attr_name (side_names sd)"
    moreover have "valid_word (Keyword (aop_token op))" by (cases op) (simp_all add: aql_keywords_def)
    ultimately show ?thesis using atom Two by (simp del: valid_word.simps)
  qed (use atom in simp)
  have "valid_word (Keyword (rop_token op))" by (cases op) (simp_all add: aql_keywords_def)
  ultimately show ?thesis using side Compare by (simp del: valid_word.simps)
qed

lemma valid_where:
  assumes "list_all attr_name (where_names wc)"
  shows "list_all valid_word (where_words wc)"
proof -
  have k: "valid_word (Keyword T_AND)" "valid_word (Keyword T_OR)" by (simp_all add: aql_keywords_def)
  have "list_all attr_name (concat (map (compare_names \<circ> snd) cs)) \<Longrightarrow> list_all valid_word (more_words cs)" for cs
  proof (induction cs)
    case (Cons cd cs)
    then show ?case using k valid_compare [of "snd cd"] by (cases cd) (auto simp: more_words_def simp del: valid_word.simps)
  qed (simp add: more_words_def)
  then show ?thesis using assms valid_compare by (simp add: where_names_def where_words_def)
qed

lemma add_names_remdups: "length (add_names xs []) = length (remdups xs)"
proof -
  have d: "distinct ns \<Longrightarrow> distinct (add_names xs ns)" for xs ns
    by (induction xs arbitrary: ns) (auto simp: add_name_def)
  have s: "set (add_names xs ns) = set xs \<union> set ns" for xs ns
    by (induction xs arbitrary: ns) (auto simp: add_name_def)
  have "length (add_names xs []) = card (set (add_names xs []))" using d [of "[]" xs] distinct_card by fastforce
  also have "\<dots> = length (remdups xs)" using s [of xs "[]"] by (simp add: length_remdups_card_conv)
  finally show ?thesis .
qed

lemma reset_vm_ok:
  assumes "length (code (vm ps)) = 128" "at_text ws ps"
  obtains ps' where "reset_vm ps = Some ps'" "at_words ws [] ps'" "cend (vm ps') = 0" "adt ps' = adt ps" "junk ps' = junk ps"
  using assms that by (auto simp: reset_vm_def lvm_reset_def DB_VM_BYTECODE_SIZE_def at_words_def at_text_def vars_are_def LVM_MAX_VARIABLE_ID_def no_variable_def numeral_3_eq_3)

lemma parse_select_correct:
  assumes "at_text (names_words attrs @ Keyword T_FROM # names_words rels @ Keyword T_WHERE # where_words wc @ [Keyword T_END]) ps"
    and "select_ok attrs rels wc" "parser_ok ps" "relation_count (adt ps) = 0"
  shows "\<exists>ps' bs. parse_select ps = Some (OK, ps') \<and> optype (adt ps') = AQL_TYPE_SELECT \<and> query_relations ps' = rels \<and> condition_set (adt ps') \<and>
    lvm_ok (vm_vars ps') \<and> enc_cond (vm_vars ps') (where_cond (junk ps) wc) = Some bs \<and> code (vm ps') = bs @ drop (length bs) (code (vm ps'))"
proof -
  let ?ps = "AQL_SET_TYPE AQL_TYPE_SELECT ps"
  have ok: "attrs \<noteq> []" "rels \<noteq> []" "length rels \<le> AQL_RELATION_LIMIT" "\<forall>x \<in> set rels. length x \<le> RELATION_NAME_LENGTH"
    "list_all attr_name (where_names wc)" "length (add_names (where_names wc) []) \<le> 3" "where_size wc < 128"
    using assms(2) by (auto simp: select_ok_def list_all_iff add_names_remdups LVM_MAX_VARIABLE_ID_def DB_VM_BYTECODE_SIZE_def)
  have w0: "at_text (names_words attrs @ Keyword T_FROM # names_words rels @ Keyword T_WHERE # where_words wc @ [Keyword T_END]) ?ps"
    using assms(1) by (simp add: at_text_def AQL_SET_TYPE_def)
  obtain a where a: "parse_attributes ?ps = Some (OK, a)" "at_text (Keyword T_FROM # names_words rels @ Keyword T_WHERE # where_words wc @ [Keyword T_END]) a"
    "same_vm ?ps a" "kept ?ps a"
    using parse_attributes_names [OF w0 ok(1)] by auto
  obtain b where b: "NEXT a = Some b" "at_text (names_words rels @ Keyword T_WHERE # where_words wc @ [Keyword T_END]) b" "TOKEN b = T_FROM" "same_vm a b" "adt b = adt a"
    by (rule NEXT_text [OF a(2)]) simp
  have rel: "relations_ok b" "relation_count (adt b) = 0" "query_relations b = []" "optype (adt b) = AQL_TYPE_SELECT"
    using a(4) b(5) assms(3,4) by (auto simp: relations_ok_def parser_ok_def kept_def AQL_SET_TYPE_def query_relations_def)
  obtain c where c: "parse_relations b = Some (OK, c)" "at_text (Keyword T_WHERE # where_words wc @ [Keyword T_END]) c" "same_vm b c" "optype (adt c) = optype (adt b)"
    "query_relations c = rels"
    using parse_relations_names [OF b(2) ok(2) _ rel(1)] rel(2,3) ok(3,4) by auto
  obtain d where d: "NEXT c = Some d" "at_text (where_words wc @ [Keyword T_END]) d" "TOKEN d = T_WHERE" "same_vm c d" "adt d = adt c"
    by (rule NEXT_text [OF c(2)]) simp
  have vmd: "same_vm ps d" using a(3) b(4) c(3) d(4) by (simp add: same_vm_def AQL_SET_TYPE_def)
  have code: "length (code (vm d)) = 128" using vmd assms(3) by (simp add: same_vm_def parser_ok_def DB_VM_BYTECODE_SIZE_def)
  obtain e where e: "reset_vm d = Some e" "at_words (where_words wc @ [Keyword T_END]) [] e" "cend (vm e) = 0" "adt e = adt d" "junk e = junk d"
    by (rule reset_vm_ok [OF code d(2)]) simp
  have ends: "ends_where (Keyword T_END)" by (simp add: ends_where_def ends_expr_def)
  obtain f bs where f: "parse_where e = Some (OK, f)" "at_words [Keyword T_END] (add_names (where_names wc) []) f" "kept e f"
    "appended bs (vm e) (vm f)" "enc_cond (vm_vars f) (where_cond (junk e) wc) = Some bs"
    using parse_where_correct [OF e(2) ends e(3) ok(7,6,5)] by blast
  have tf: "at_text [Keyword T_END] (AQL_SET_CONDITION True f)" using f(2) by (simp add: at_words_def at_text_def AQL_SET_CONDITION_def)
  obtain g where g: "NEXT (AQL_SET_CONDITION True f) = Some g" "TOKEN g = T_END" "same_vm (AQL_SET_CONDITION True f) g" "adt g = adt (AQL_SET_CONDITION True f)"
    by (rule NEXT_text [OF tf]) simp
  have vmg: "vm g = vm f" "vm_vars g = vm_vars f" using g(3) by (simp_all add: same_vm_def AQL_SET_CONDITION_def)
  have "parse_select ps = Some (OK, g)"
    using a(1) b(1,3) c(1) d(1,3) e(1) f(1) g(1,2) by (simp add: parse_select_def AQL_ERROR_def OK_def)
  moreover have "optype (adt g) = AQL_TYPE_SELECT" "query_relations g = rels" "condition_set (adt g)"
    using g(4) f(3) e(4) d(5) c(4,5) rel(4) by (simp_all add: AQL_SET_CONDITION_def kept_def query_relations_def)
  moreover have "lvm_ok (vm_vars g)" using f(2) vmg vars_are_ok by (auto simp: at_words_def)
  moreover have "junk e = junk ps" using e(5) vmd by (simp add: same_vm_def)
  moreover have "code (vm g) = bs @ drop (length bs) (code (vm g))" using f(4) e(3) vmg by (simp add: appended_def)
  ultimately show ?thesis using f(5) vmg by auto
qed

text \<open>
  C3. A \<open>SELECT\<close> query means what it says. From its text, the parser makes the list of
  relations and code that executes, in every tuple with the attributes in the places in
  which the parser registered them, to the meaning of the condition. The
  condition is a sequence of comparisons joined by \<open>AND\<close> and \<open>OR\<close>, which associate
  to the right; their sides have at most one operator; there are at most three
  attributes, and the code fits 128 bytes.
\<close>

theorem aql_select_compiled:
  assumes "select_ok attrs rels wc" and "parser_ok ps"
  shows "\<exists>ps'. aql_parse (show_words (select_words attrs rels wc)) ps = Some (OK, ps') \<and>
    optype (adt ps') = AQL_TYPE_SELECT \<and> query_relations ps' = rels \<and> condition_set (adt ps') \<and>
    (\<forall>t. same_variables (vm_vars ps') t \<longrightarrow> map_option fst (lvm_execute t (vm ps')) = sem_cond t (where_cond (junk ps) wc))"
proof -
  let ?ws = "select_words attrs rels wc"
  let ?ps = "(AQL_SET_CONDITION False (aql_clear ps))\<lparr>lex := lexer_start (show_words ?ws)\<rparr>"
  have k: "valid_word (Keyword T_SELECT)" "valid_word (Keyword T_FROM)" "valid_word (Keyword T_WHERE)" "valid_word (Keyword T_END)"
    by (simp_all add: aql_keywords_def)
  have "list_all (\<lambda>x. valid_word (Name x)) attrs" "list_all (\<lambda>x. valid_word (Name x)) rels" "list_all attr_name (where_names wc)"
    using assms(1) by (auto simp: select_ok_def list_all_iff)
  then have valid: "list_all valid_word ?ws" using k valid_names valid_where by (simp add: select_words_def del: valid_word.simps)
  have w0: "at_text ?ws ?ps" using before_start [OF valid] valid by (simp add: at_text_def)
  have w1: "at_text (Keyword T_SELECT # names_words attrs @ Keyword T_FROM # names_words rels @ Keyword T_WHERE # where_words wc @ [Keyword T_END]) ?ps"
    using w0 by (simp add: select_words_def)
  let ?rest = "names_words attrs @ Keyword T_FROM # names_words rels @ Keyword T_WHERE # where_words wc @ [Keyword T_END]"
  have b: "before (Keyword T_SELECT # ?rest) (lex ?ps)" "valid_word (Keyword T_SELECT)" "list_all valid_word ?rest"
    using w1 k(1) by (simp_all add: at_text_def del: valid_word.simps)
  obtain lx where lx: "lexer_next (lex ?ps) = Some (1, lx)" "tok lx = T_SELECT" "before ?rest lx"
    using lexer_next_before [OF b] by auto
  let ?q = "?ps\<lparr>lex := lx\<rparr>"
  have q: "at_text (names_words attrs @ Keyword T_FROM # names_words rels @ Keyword T_WHERE # where_words wc @ [Keyword T_END]) ?q"
    "parser_ok ?q" "relation_count (adt ?q) = 0" "junk ?q = junk ps"
    using w1 lx(3) assms(2) by (simp_all add: at_text_def parser_ok_def AQL_SET_CONDITION_def aql_clear_def)
  obtain ps' bs where p: "parse_select ?q = Some (OK, ps')" "optype (adt ps') = AQL_TYPE_SELECT" "query_relations ps' = rels" "condition_set (adt ps')"
    "lvm_ok (vm_vars ps')" "enc_cond (vm_vars ps') (where_cond (junk ps) wc) = Some bs" "code (vm ps') = bs @ drop (length bs) (code (vm ps'))"
    using parse_select_correct [OF q(1) assms(1) q(2,3)] q(4) by auto
  have "aql_parse (show_words ?ws) ps = Some (OK, ps')"
    using lx p(1) by (simp add: aql_parse_def Let_def TOKEN_def)
  moreover have "map_option fst (lvm_execute t (vm ps')) = sem_cond t (where_cond (junk ps) wc)" if "same_variables (vm_vars ps') t" for t
    using execute_encoded [of t _ bs "vm ps'"] p(5-7) same_ok [OF that] same_enc_cond [OF that] by auto
  ultimately show ?thesis using p(2-4) by blast
qed

definition empty_query :: aql_adt where
  "empty_query = \<lparr>relations = replicate 3 '''', attributes = replicate 5 \<lparr>at_domain = DOMAIN_UNSPECIFIED, element_size = 0, at_flags = 0, at_name = ''''\<rparr>,
     aggregators = replicate 5 AQL_NONE, adt_values = replicate 5 \<lparr>av_union = Val_long 0, av_domain = DOMAIN_UNSPECIFIED\<rparr>, adt_index_type = INDEX_NONE,
     relation_count = 0, attribute_count = 0, value_count = 0, optype = AQL_TYPE_NONE, adt_flags = 0, condition_set = False\<rparr>"

definition start_parser :: parser where
  "start_parser = \<lparr>lex = lexer_start '''', adt = empty_query, vm = blank, vm_vars = \<lparr>variables = replicate 3 no_variable, derivations = replicate 3 no_derivation\<rparr>,
     char_buf = replicate 64 (CHR 0x00), next_free_offset = 0, junk = 0\<rparr>"

text \<open>\<open>temp + 1 >= 20 AND hum < 50\<close>\<close>

definition sample_where :: where_clause where
  "sample_where = (Compare Geq (Two Add (Attr ''temp'') (Lit 1)) (One (Lit 20)), [(True, Compare Le (One (Attr ''hum'')) (One (Lit 50)))])"

lemma aql_select_compiled_witness:
  "\<exists>ps'. aql_parse ''SELECT temp , hum FROM samples WHERE temp + 1 >= 20 AND hum < 50 ; '' start_parser = Some (OK, ps') \<and>
    query_relations ps' = [''samples''] \<and>
    (\<forall>t. same_variables (vm_vars ps') t \<longrightarrow> map_option fst (lvm_execute t (vm ps')) = sem_cond t (where_cond 0 sample_where))"
proof -
  have query: "show_words (select_words [''temp'', ''hum''] [''samples''] sample_where) = ''SELECT temp , hum FROM samples WHERE temp + 1 >= 20 AND hum < 50 ; ''"
    by code_simp
  have ok: "select_ok [''temp'', ''hum''] [''samples''] sample_where" by code_simp
  have "parser_ok start_parser" "junk start_parser = 0" by (simp_all add: parser_ok_def start_parser_def empty_query_def blank_def AQL_RELATION_LIMIT_def DB_VM_BYTECODE_SIZE_def)
  then show ?thesis using aql_select_compiled [OF ok, of start_parser] unfolding query by auto
qed

section \<open>Conditions that are compiled to something else\<close>

definition compiles_to :: "string \<Rightarrow> condition \<Rightarrow> bool" where
  "compiles_to query c \<longleftrightarrow> (case aql_parse query start_parser of
     None \<Rightarrow> False
   | Some (r, ps) \<Rightarrow> r = OK \<and> enc_cond (vm_vars ps) c = Some (take (cend (vm ps)) (code (vm ps))))"

text \<open>
  With a second operator, the loop of \<open>parse_expr\<close> moves the last operand only: the
  third operand goes to the other side of the comparison.
\<close>

lemma chained_operators:
  "compiles_to ''SELECT a FROM r WHERE a + b + c > 5 ;''
     (Rel Ge (Arith Add (Var 0 ''a'') (Var 0 ''b'')) (Arith Add (Var 0 ''c'') (Const 5)))"
  by code_simp

text \<open>
  A closing parenthesis is consumed as an operator: an expression in parentheses is refused, and a
  condition in parentheses needs a second one. The code for the connective in it is then put in
  front of the whole condition, not of the one in parentheses.
\<close>

lemma parentheses_refused:
  "map_option fst (aql_parse ''SELECT a FROM r WHERE ( a ) > 5 ;'' start_parser) = Some SYNTAX_ERROR"
  by code_simp

lemma parentheses_regrouped:
  "compiles_to ''SELECT a FROM r WHERE a = 1 AND ( b = 2 OR c = 3 ) ) ;''
     (Or (And (Rel Eq (Var 0 ''a'') (Const 1)) (Rel Eq (Var 0 ''b'') (Const 2))) (Rel Eq (Var 0 ''c'') (Const 3)))"
  by code_simp

text \<open>A truth value in place of a status hides the error in a later comparison or value.\<close>

lemma errors_accepted:
  "map_option fst (aql_parse ''SELECT a FROM r WHERE a = 1 AND ) ;'' start_parser) = Some OK"
  "map_option (\<lambda>(r, ps). (r, value_count (adt ps))) (aql_parse ''INSERT ( 1 , FROM ) INTO r'' start_parser) = Some (OK, 1)"
  by code_simp+

end
